(* ===== verification/UBoot_Prelude.thy ===== *)
theory UBoot_Prelude
  imports Main "HOL-Library.Word" "HOL-Library.Monad_Syntax"
begin

text \<open>
  Shared vocabulary of the development: the machine types of the ARM920T the code runs on
  (char is unsigned and 8 bits wide, int and long are 32 bits wide, the byte order is little
  endian), the literals that stand for C character constants, exhaustive case analysis over
  bytes, and the generic facts on words and lists that several components use.
\<close>

unbundle bit_operations_syntax

type_synonym u8 = "8 word"
type_synonym u16 = "16 word"
type_synonym u32 = "32 word"

text \<open>
  The C literal written ''abc'' in the code, as its bytes without the terminating NUL. The
  simplifier evaluates it to a list of numerals.
\<close>

abbreviation cstr :: "string \<Rightarrow> u8 list" where
  "cstr s \<equiv> map of_char s"

abbreviation chr8 :: "char \<Rightarrow> u8" where
  "chr8 c \<equiv> of_char c"

text \<open>Facts that evaluate a model at a concrete input.\<close>

named_theorems exec_simps

text \<open>The unfolding equations of the byte-classification and memory primitives.\<close>

named_theorems byte_defs

section \<open>Buffers\<close>

text \<open>Bytes copied over a part of a buffer.\<close>

definition overwrite :: "u8 list \<Rightarrow> nat \<Rightarrow> u8 list \<Rightarrow> u8 list" where
  "overwrite p i bs = take i p @ bs @ drop (i + length bs) p"

lemma length_overwrite: "i + length bs \<le> length p \<Longrightarrow> length (overwrite p i bs) = length p"
  by (simp add: overwrite_def)

lemma take_overwrite: "i \<le> length p \<Longrightarrow> take (i + length bs) (overwrite p i bs) = take i p @ bs"
  by (simp add: overwrite_def)

lemma take_overwrite_0 [simp]: "take (length bs) (overwrite p 0 bs) = bs"
  by (simp add: overwrite_def)

lemma overwrite_read: "i \<le> length p \<Longrightarrow> take (length bs) (drop i (overwrite p i bs)) = bs"
  by (simp add: overwrite_def)

lemma overwrite_all: "length bs = length p \<Longrightarrow> overwrite p 0 bs = bs"
  by (simp add: overwrite_def)

lemma overwrite_twice:
  "i + length xs + length ys \<le> length p \<Longrightarrow> overwrite (overwrite p i xs) (i + length xs) ys = overwrite p i (xs @ ys)"
  by (simp add: overwrite_def ac_simps)

section \<open>Bytes\<close>

text \<open>A property of all 256 bytes is decided by running through them.\<close>

lemma u8_exhaust_list:
  assumes "list_all (\<lambda>n. P (word_of_nat n :: u8)) [0..<256]"
  shows "P c"
proof -
  have "unat c < 256" using unsigned_less [of c, where ?'a = nat] by simp
  then have "unat c \<in> set [0..<256]" by simp
  with assms have "P (word_of_nat (unat c))" by (simp only: list_all_iff)
  then show ?thesis by simp
qed

lemma unat_u8_less [simp]: "unat (c :: u8) < 256"
  using unsigned_less [of c, where ?'a = nat] by simp

lemma unat_u16_less [simp]: "unat (c :: u16) < 65536"
  using unsigned_less [of c, where ?'a = nat] by simp

lemma unat_u32_less [simp]: "unat (c :: u32) < 4294967296"
  using unsigned_less [of c, where ?'a = nat] by simp

lemma u8_le_unat: "(a :: u8) \<le> b \<longleftrightarrow> unat a \<le> unat b"
  by (rule word_le_nat_alt)

lemma u8_eq_unat: "(a :: u8) = b \<longleftrightarrow> unat a = unat b"
  by (simp add: word_unat_eq_iff)

lemma bit_u8_beyond [simp]: "8 \<le> n \<Longrightarrow> \<not> bit (c :: u8) n"
  using bit_imp_le_length [of c n] by auto

text \<open>The byte codes in order, spelled out for walks over 256-entry tables.\<close>

lemma upt_256: "[0..<256] = [
    0, 1, 2, 3, 4, 5, 6, 7, 8, 9, 10, 11, 12, 13, 14, 15,
    16, 17, 18, 19, 20, 21, 22, 23, 24, 25, 26, 27, 28, 29, 30, 31,
    32, 33, 34, 35, 36, 37, 38, 39, 40, 41, 42, 43, 44, 45, 46, 47,
    48, 49, 50, 51, 52, 53, 54, 55, 56, 57, 58, 59, 60, 61, 62, 63,
    64, 65, 66, 67, 68, 69, 70, 71, 72, 73, 74, 75, 76, 77, 78, 79,
    80, 81, 82, 83, 84, 85, 86, 87, 88, 89, 90, 91, 92, 93, 94, 95,
    96, 97, 98, 99, 100, 101, 102, 103, 104, 105, 106, 107, 108, 109, 110, 111,
    112, 113, 114, 115, 116, 117, 118, 119, 120, 121, 122, 123, 124, 125, 126, 127,
    128, 129, 130, 131, 132, 133, 134, 135, 136, 137, 138, 139, 140, 141, 142, 143,
    144, 145, 146, 147, 148, 149, 150, 151, 152, 153, 154, 155, 156, 157, 158, 159,
    160, 161, 162, 163, 164, 165, 166, 167, 168, 169, 170, 171, 172, 173, 174, 175,
    176, 177, 178, 179, 180, 181, 182, 183, 184, 185, 186, 187, 188, 189, 190, 191,
    192, 193, 194, 195, 196, 197, 198, 199, 200, 201, 202, 203, 204, 205, 206, 207,
    208, 209, 210, 211, 212, 213, 214, 215, 216, 217, 218, 219, 220, 221, 222, 223,
    224, 225, 226, 227, 228, 229, 230, 231, 232, 233, 234, 235, 236, 237, 238, 239,
    240, 241, 242, 243, 244, 245, 246, 247, 248, 249, 250, 251, 252, 253, 254, 255
  ]"
  by code_simp

lemma bit_u32_255: "bit (255 :: u32) n \<longleftrightarrow> n < 8"
proof -
  have "bit (mask 8 :: u32) n \<longleftrightarrow> n < 8" by (auto simp: bit_mask_iff)
  moreover have "mask 8 = (255 :: u32)" by (simp add: mask_eq_exp_minus_1)
  ultimately show ?thesis by (simp only:)
qed

lemma unat_and_255: "unat (w AND 255 :: u32) < 256"
proof -
  have "mask 8 = (255 :: u32)" by (simp add: mask_eq_exp_minus_1)
  then have "w AND 255 = take_bit 8 w" by (simp only: take_bit_eq_mask)
  then have "unat (w AND 255) = take_bit 8 (unat w)" by (simp only: unsigned_take_bit_eq)
  then show ?thesis by (simp only: take_bit_eq_mod) simp
qed

lemma bit_int_255: "bit (255 :: int) n \<longleftrightarrow> n < 8"
proof -
  have "bit (mask 8 :: int) n \<longleftrightarrow> n < 8" by (auto simp: bit_mask_iff)
  moreover have "mask 8 = (255 :: int)" by (simp add: mask_eq_exp_minus_1)
  ultimately show ?thesis by (simp only:)
qed

text \<open>Moving 32-bit arithmetic to natural numbers.\<close>

lemma unat_div_less: "w \<noteq> 0 \<Longrightarrow> 1 < unat k \<Longrightarrow> unat (w div k) < unat (w :: 'a::len word)"
  by (simp add: unat_div unat_gt_0 div_less_dividend)

lemma unat_of_nat_u32: "x < 2 ^ 32 \<Longrightarrow> unat (of_nat x :: u32) = x"
  by (simp add: unat_of_nat)

lemma drop_bit_of_nat_u32:
  "x < 2 ^ 32 \<Longrightarrow> drop_bit n (of_nat x :: u32) = of_nat (x div 2 ^ n)"
proof -
  assume x: "x < 2 ^ 32"
  then have "x div 2 ^ n < 2 ^ 32" by (rule le_less_trans [OF div_le_dividend])
  moreover have "unat (drop_bit n (of_nat x :: u32)) = drop_bit n x"
    using x by (simp only: unat_drop_bit_eq unat_of_nat_u32)
  ultimately show ?thesis by (simp only: word_unat_eq_iff unat_of_nat_u32) (rule drop_bit_eq_div)
qed

lemma of_nat_u32_eq_0: "x < 2 ^ 32 \<Longrightarrow> (of_nat x :: u32) = 0 \<longleftrightarrow> x = 0"
  by (simp add: word_unat_eq_iff unat_of_nat_u32)

text \<open>Differences of small bytes survive the narrowing to a signed byte.\<close>

lemma uint_nonneg: "0 \<le> uint (w :: 'a::len word)"
  by simp

lemma sint_u8_diff: "sint (c - d :: u8) = signed_take_bit 7 (uint c - uint d)"
proof -
  have "k mod 256 = take_bit 8 k" for k :: int by (simp add: take_bit_eq_mod)
  then show ?thesis by (simp add: sint_uint uint_word_ariths signed_take_bit_take_bit)
qed

lemma sint_u8_minus:
  assumes "(c :: u8) < 128" and "d < 128"
  shows "sint (c - d) = uint c - uint d"
proof -
  have "uint c < 128" "uint d < 128" using assms by (simp_all add: word_less_def)
  then have "- 128 \<le> uint c - uint d" "uint c - uint d < 128"
    using uint_nonneg [of c] uint_nonneg [of d] by linarith+
  then show ?thesis unfolding sint_u8_diff by (intro signed_take_bit_int_eq_self) simp_all
qed

section \<open>Lists\<close>

lemma map_nth_upt_shift: "map (\<lambda>i. f (p + i)) [0..<n] = map f [p..<p + n]"
  by (induction n) simp_all

lemma funpow_4: "(f ^^ 4) x = f (f (f (f x)))"
  by (simp add: numeral_eq_Suc)

lemma replicate_4: "replicate 4 x = [x, x, x, x]"
  by (simp add: numeral_eq_Suc)

lemma take_drop_append_nth: "i < length xs \<Longrightarrow> take i xs @ xs ! i # drop (Suc i) xs = xs"
  by (simp add: id_take_nth_drop [symmetric])

lemma list_eq_iff_lookup:
  "xs = ys \<longleftrightarrow> length xs = length ys \<and> (\<forall>i < length xs. xs ! i = ys ! i)"
  by (auto intro: nth_equalityI)

lemma takeWhile_all: "\<forall>x \<in> set xs. P x \<Longrightarrow> takeWhile P (xs @ ys) = xs @ takeWhile P ys"
  by (induction xs) simp_all

section \<open>Tables of a linear function\<close>

text \<open>
  The table of a function that is linear over exclusive-or is made by doubling: the second half
  is the first half with the value of the new bit exclusive-ored in.
\<close>

definition xor_table :: "'a::len word list \<Rightarrow> 'a word list" where
  "xor_table cs = foldl (\<lambda>t c. t @ map ((XOR) c) t) [0] cs"

lemma length_xor_table: "length (xor_table cs) = 2 ^ length cs"
  by (induction cs rule: rev_induct) (simp_all add: xor_table_def)

lemma xor_table_snoc_nth:
  assumes n: "n < 2 ^ Suc (length cs)"
  shows "xor_table (cs @ [c]) ! n =
    (if bit n (length cs) then c else 0) XOR xor_table cs ! take_bit (length cs) n"
proof -
  let ?k = "length cs"
  have snoc: "xor_table (cs @ [c]) = xor_table cs @ map ((XOR) c) (xor_table cs)"
    by (simp add: xor_table_def)
  show ?thesis
  proof (cases "n < 2 ^ ?k")
    case True
    then show ?thesis
      by (simp add: snoc nth_append length_xor_table take_bit_nat_eq_self bit_iff_odd)
  next
    case False
    then have le: "2 ^ ?k \<le> n" and less: "n - 2 ^ ?k < 2 ^ ?k"
      using n by simp_all
    have "n div 2 ^ ?k = 1" and "n mod 2 ^ ?k = n - 2 ^ ?k"
      using le less by (simp_all add: div_nat_eqI mod_if le_mod_geq)
    then show ?thesis
      using False less by (simp add: snoc nth_append length_xor_table take_bit_eq_mod bit_iff_odd)
  qed
qed

lemma xor_table_xor:
  assumes "n < 2 ^ length cs" and "m < 2 ^ length cs"
  shows "xor_table cs ! (n XOR m) = xor_table cs ! n XOR xor_table cs ! m"
  using assms
proof (induction cs arbitrary: n m rule: rev_induct)
  case Nil
  then show ?case by (simp add: xor_table_def)
next
  case (snoc c cs)
  let ?k = "length cs"
  have n: "n < 2 ^ Suc ?k" and m: "m < 2 ^ Suc ?k"
    using snoc.prems by simp_all
  have nm: "n XOR m < 2 ^ Suc ?k"
    using n m by (metis take_bit_nat_eq_self_iff take_bit_xor)
  have "xor_table cs ! (take_bit ?k n XOR take_bit ?k m) =
      xor_table cs ! take_bit ?k n XOR xor_table cs ! take_bit ?k m"
    by (rule snoc.IH) simp_all
  then show ?case
    unfolding xor_table_snoc_nth [OF n] xor_table_snoc_nth [OF m] xor_table_snoc_nth [OF nm]
    by (auto simp: bit_xor_iff take_bit_xor xor.assoc xor.left_commute)
qed

lemma less_8_cases:
  "b < 8 \<Longrightarrow> b = 0 \<or> b = 1 \<or> b = 2 \<or> b = 3 \<or> b = 4 \<or> b = 5 \<or> b = 6 \<or> b = (7 :: nat)"
  by linarith

lemma u8_eq_bits:
  "(x :: u8) = y \<longleftrightarrow> (bit x 0 = bit y 0) \<and> (bit x 1 = bit y 1) \<and> (bit x 2 = bit y 2) \<and>
     (bit x 3 = bit y 3) \<and> (bit x 4 = bit y 4) \<and> (bit x 5 = bit y 5) \<and> (bit x 6 = bit y 6) \<and>
     (bit x 7 = bit y 7)"
proof
  assume r: "(bit x 0 = bit y 0) \<and> (bit x 1 = bit y 1) \<and> (bit x 2 = bit y 2) \<and>
     (bit x 3 = bit y 3) \<and> (bit x 4 = bit y 4) \<and> (bit x 5 = bit y 5) \<and> (bit x 6 = bit y 6) \<and>
     (bit x 7 = bit y 7)"
  show "x = y"
  proof (rule bit_word_eqI)
    fix n
    assume "n < LENGTH(8)"
    then show "bit x n = bit y n"
      using r less_8_cases [of n] by auto
  qed
qed simp

lemma bit_u8_times_2: "bit (w * 2 :: u8) n \<longleftrightarrow> n < 8 \<and> 0 < n \<and> bit w (n - 1)"
proof -
  have "w * 2 = push_bit 1 w" by simp
  then show ?thesis by (simp only: bit_push_bit_iff) auto
qed

lemma Suc_Suc_Suc_0: "Suc (Suc (Suc 0)) = 3"
  by simp

lemmas u8_bits = bit_simps bit_u8_times_2 Suc_Suc_Suc_0

end
