(* ===== verification/CMem.thy ===== *)
theory CMem
  imports UBoot_Prelude
begin

text \<open>
  The byte-addressed memory that C pointers range over. An address is a natural number and 0 is
  NULL; a memory maps every address to its byte. A NUL-terminated string is a list of non-zero
  bytes laid out at an address and closed by a zero byte (\<open>str_at\<close>), a plain array of bytes is
  read and written as a list (\<open>read_bytes\<close>, \<open>write_bytes\<close>). Multi-byte loads and stores are
  little endian, as on the ARM920T.
\<close>

type_synonym mem = "nat \<Rightarrow> u8"

abbreviation (input) NULL :: nat where
  "NULL \<equiv> 0"

section \<open>Strings and byte arrays in memory\<close>

fun str_at :: "mem \<Rightarrow> nat \<Rightarrow> u8 list \<Rightarrow> bool" where
  "str_at m p [] \<longleftrightarrow> m p = 0"
| "str_at m p (c # cs) \<longleftrightarrow> c \<noteq> 0 \<and> m p = c \<and> str_at m (p + 1) cs"

fun read_bytes :: "mem \<Rightarrow> nat \<Rightarrow> nat \<Rightarrow> u8 list" where
  "read_bytes m p 0 = []"
| "read_bytes m p (Suc n) = m p # read_bytes m (p + 1) n"

fun write_bytes :: "mem \<Rightarrow> nat \<Rightarrow> u8 list \<Rightarrow> mem" where
  "write_bytes m p [] = m"
| "write_bytes m p (b # bs) = write_bytes (m(p := b)) (p + 1) bs"

text \<open>Two address ranges of the same length that share no byte.\<close>

definition disjoint_ranges :: "nat \<Rightarrow> nat \<Rightarrow> nat \<Rightarrow> nat \<Rightarrow> bool" where
  "disjoint_ranges p n q k \<longleftrightarrow> p + n \<le> q \<or> q + k \<le> p"

lemma length_read_bytes [simp]: "length (read_bytes m p n) = n"
  by (induction n arbitrary: p) simp_all

lemma nth_read_bytes [simp]: "i < n \<Longrightarrow> read_bytes m p n ! i = m (p + i)"
  by (induction n arbitrary: p i) (auto simp: nth_Cons split: nat.splits)

lemma read_bytes_eq_map: "read_bytes m p n = map m [p..<p + n]"
  by (simp add: list_eq_iff_lookup)

lemma read_bytes_add: "read_bytes m p (n + k) = read_bytes m p n @ read_bytes m (p + n) k"
  by (induction n arbitrary: p) simp_all

lemma write_bytes_apply:
  "write_bytes m p bs x = (if p \<le> x \<and> x < p + length bs then bs ! (x - p) else m x)"
proof (induction bs arbitrary: m p)
  case (Cons b bs)
  have "bs ! (x - (p + 1)) = (b # bs) ! (x - p)" if "p + 1 \<le> x"
    using that by (simp add: nth_Cons')
  then show ?case by (auto simp: Cons.IH [of "m(p := b)" "Suc p"])
qed auto

lemma write_bytes_outside [simp]:
  "x < p \<or> p + length bs \<le> x \<Longrightarrow> write_bytes m p bs x = m x"
  by (auto simp: write_bytes_apply)

lemma write_bytes_inside [simp]:
  "i < length bs \<Longrightarrow> write_bytes m p bs (p + i) = bs ! i"
  by (simp add: write_bytes_apply)

lemma read_write_same [simp]: "read_bytes (write_bytes m p bs) p (length bs) = bs"
  by (simp add: list_eq_iff_lookup)

lemma read_bytes_cong:
  "(\<And>i. i < n \<Longrightarrow> m (p + i) = m' (q + i)) \<Longrightarrow> read_bytes m p n = read_bytes m' q n"
  by (simp add: list_eq_iff_lookup)

lemma read_write_disjoint:
  assumes "disjoint_ranges p (length bs) q n"
  shows "read_bytes (write_bytes m p bs) q n = read_bytes m q n"
  using assms by (intro read_bytes_cong write_bytes_outside) (auto simp: disjoint_ranges_def)

lemma write_bytes_append:
  "write_bytes m p (xs @ ys) = write_bytes (write_bytes m p xs) (p + length xs) ys"
  by (induction xs arbitrary: m p) simp_all

lemma write_bytes_snoc:
  "write_bytes m p (xs @ [b]) = (write_bytes m p xs)(p + length xs := b)"
  by (simp add: write_bytes_append)

lemma write_bytes_upd_before:
  "x < p \<Longrightarrow> write_bytes (m(x := b)) p bs = (write_bytes m p bs)(x := b)"
  by (rule ext) (auto simp: write_bytes_apply)

section \<open>Facts on strings\<close>

lemma str_at_iff:
  "str_at m p s \<longleftrightarrow> read_bytes m p (length s) = s \<and> m (p + length s) = 0 \<and> 0 \<notin> set s"
  by (induction s arbitrary: p) auto

lemma str_at_nth: "str_at m p s \<Longrightarrow> i < length s \<Longrightarrow> m (p + i) = s ! i"
  by (metis str_at_iff nth_read_bytes)

lemma str_at_end: "str_at m p s \<Longrightarrow> m (p + length s) = 0"
  by (simp add: str_at_iff)

lemma str_at_nonzero: "str_at m p s \<Longrightarrow> i < length s \<Longrightarrow> m (p + i) \<noteq> 0"
  by (metis str_at_iff str_at_nth nth_mem)

lemma str_at_unique: "str_at m p s \<Longrightarrow> str_at m p t \<Longrightarrow> s = t"
proof (induction s arbitrary: p t)
  case Nil then show ?case by (cases t) auto
next
  case (Cons c s) then show ?case by (cases t) auto
qed

lemma str_at_append:
  "str_at m p (s @ t) \<longleftrightarrow> read_bytes m p (length s) = s \<and> 0 \<notin> set s \<and> str_at m (p + length s) t"
  by (induction s arbitrary: p) auto

lemma str_at_drop: "str_at m p s \<Longrightarrow> i \<le> length s \<Longrightarrow> str_at m (p + i) (drop i s)"
  using str_at_append [of m p "take i s" "drop i s"] by simp

lemma str_at_cong:
  "(\<And>i. i \<le> length s \<Longrightarrow> m (p + i) = m' (p + i)) \<Longrightarrow> str_at m p s = str_at m' p s"
proof (induction s arbitrary: p)
  case (Cons c s)
  have "m (p + 1 + i) = m' (p + 1 + i)" if "i \<le> length s" for i
    using Cons.prems [of "Suc i"] that by simp
  with Cons.IH [of "p + 1"] Cons.prems [of 0] show ?case by simp
qed simp

lemma str_at_write_disjoint:
  "disjoint_ranges p (length bs) q (length s + 1) \<Longrightarrow>
   str_at (write_bytes m p bs) q s = str_at m q s"
  by (rule str_at_cong) (auto simp: disjoint_ranges_def)

lemma str_at_write: "0 \<notin> set s \<Longrightarrow> str_at (write_bytes m p (s @ [0])) p s"
proof -
  have "read_bytes (write_bytes m p (s @ [0])) p (length s) = s"
    by (simp add: list_eq_iff_lookup write_bytes_apply nth_append)
  moreover have "write_bytes m p (s @ [0]) (p + length s) = 0"
    using write_bytes_inside [of "length s" "s @ [0]"] by simp
  moreover assume "0 \<notin> set s"
  ultimately show ?thesis by (simp add: str_at_iff)
qed

section \<open>Little-endian words\<close>

text \<open>A 32-bit load and store, the least significant byte at the lowest address.\<close>

definition load32 :: "mem \<Rightarrow> nat \<Rightarrow> u32" where
  "load32 m p = ucast (m p) OR push_bit 8 (ucast (m (p + 1)))
     OR push_bit 16 (ucast (m (p + 2))) OR push_bit 24 (ucast (m (p + 3)))"

definition word32_bytes :: "u32 \<Rightarrow> u8 list" where
  "word32_bytes w =
     [ucast w, ucast (drop_bit 8 w), ucast (drop_bit 16 w), ucast (drop_bit 24 w)]"

definition store32 :: "mem \<Rightarrow> nat \<Rightarrow> u32 \<Rightarrow> mem" where
  "store32 m p w = write_bytes m p (word32_bytes w)"

lemma length_word32_bytes [simp]: "length (word32_bytes w) = 4"
  by (simp add: word32_bytes_def)

lemma word32_bytes_load32: "word32_bytes (load32 m p) = read_bytes m p 4"
proof -
  have [simp]: "read_bytes m p 4 = [m p, m (p + 1), m (p + 2), m (p + 3)]"
    by (simp add: numeral_eq_Suc)
  show ?thesis
    unfolding word32_bytes_def load32_def
    by (auto intro!: bit_word_eqI simp: bit_simps)
qed

lemma store32_load32: "store32 m q (load32 m p) = write_bytes m q (read_bytes m p 4)"
  by (simp add: store32_def word32_bytes_load32)

end
