(* ===== verification/Ctype.thy ===== *)
theory Ctype
  imports CMem
begin

text \<open>
  Character classification (\<open>lib_generic/ctype.c\<close>, \<open>include/linux/ctype.h\<close>): the 256-entry table
  of class bits, the classification macros, and the two case conversions. The lemmas give each
  macro its meaning as a range of character codes, so that the parsers never look at the table.
\<close>

section \<open>The table\<close>

definition ct_U :: u8 where "ct_U = 0x01"
definition ct_L :: u8 where "ct_L = 0x02"
definition ct_D :: u8 where "ct_D = 0x04"
definition ct_C :: u8 where "ct_C = 0x08"
definition ct_P :: u8 where "ct_P = 0x10"
definition ct_S :: u8 where "ct_S = 0x20"
definition ct_X :: u8 where "ct_X = 0x40"
definition ct_SP :: u8 where "ct_SP = 0x80"

lemmas ct_bits = ct_U_def ct_L_def ct_D_def ct_C_def ct_P_def ct_S_def ct_X_def ct_SP_def

definition ctype_table :: "u8 list" where
  "ctype_table = [
   ct_C, ct_C, ct_C, ct_C, ct_C, ct_C, ct_C, ct_C,
   ct_C, ct_C OR ct_S, ct_C OR ct_S, ct_C OR ct_S, ct_C OR ct_S, ct_C OR ct_S, ct_C, ct_C,
   ct_C, ct_C, ct_C, ct_C, ct_C, ct_C, ct_C, ct_C,
   ct_C, ct_C, ct_C, ct_C, ct_C, ct_C, ct_C, ct_C,
   ct_S OR ct_SP, ct_P, ct_P, ct_P, ct_P, ct_P, ct_P, ct_P,
   ct_P, ct_P, ct_P, ct_P, ct_P, ct_P, ct_P, ct_P,
   ct_D, ct_D, ct_D, ct_D, ct_D, ct_D, ct_D, ct_D,
   ct_D, ct_D, ct_P, ct_P, ct_P, ct_P, ct_P, ct_P,
   ct_P, ct_U OR ct_X, ct_U OR ct_X, ct_U OR ct_X, ct_U OR ct_X, ct_U OR ct_X, ct_U OR ct_X, ct_U,
   ct_U, ct_U, ct_U, ct_U, ct_U, ct_U, ct_U, ct_U,
   ct_U, ct_U, ct_U, ct_U, ct_U, ct_U, ct_U, ct_U,
   ct_U, ct_U, ct_U, ct_P, ct_P, ct_P, ct_P, ct_P,
   ct_P, ct_L OR ct_X, ct_L OR ct_X, ct_L OR ct_X, ct_L OR ct_X, ct_L OR ct_X, ct_L OR ct_X, ct_L,
   ct_L, ct_L, ct_L, ct_L, ct_L, ct_L, ct_L, ct_L,
   ct_L, ct_L, ct_L, ct_L, ct_L, ct_L, ct_L, ct_L,
   ct_L, ct_L, ct_L, ct_P, ct_P, ct_P, ct_P, ct_C,
   0, 0, 0, 0, 0, 0, 0, 0,
   0, 0, 0, 0, 0, 0, 0, 0,
   0, 0, 0, 0, 0, 0, 0, 0,
   0, 0, 0, 0, 0, 0, 0, 0,
   ct_S OR ct_SP, ct_P, ct_P, ct_P, ct_P, ct_P, ct_P, ct_P,
   ct_P, ct_P, ct_P, ct_P, ct_P, ct_P, ct_P, ct_P,
   ct_P, ct_P, ct_P, ct_P, ct_P, ct_P, ct_P, ct_P,
   ct_P, ct_P, ct_P, ct_P, ct_P, ct_P, ct_P, ct_P,
   ct_U, ct_U, ct_U, ct_U, ct_U, ct_U, ct_U, ct_U,
   ct_U, ct_U, ct_U, ct_U, ct_U, ct_U, ct_U, ct_U,
   ct_U, ct_U, ct_U, ct_U, ct_U, ct_U, ct_U, ct_P,
   ct_U, ct_U, ct_U, ct_U, ct_U, ct_U, ct_U, ct_L,
   ct_L, ct_L, ct_L, ct_L, ct_L, ct_L, ct_L, ct_L,
   ct_L, ct_L, ct_L, ct_L, ct_L, ct_L, ct_L, ct_L,
   ct_L, ct_L, ct_L, ct_L, ct_L, ct_L, ct_L, ct_P,
   ct_L, ct_L, ct_L, ct_L, ct_L, ct_L, ct_L, ct_L
  ]"

definition ismask :: "u8 \<Rightarrow> u8" where
  "ismask c = ctype_table ! unat c"

section \<open>The macros\<close>

definition isalnum :: "u8 \<Rightarrow> bool" where
  "isalnum c \<longleftrightarrow> ismask c AND (ct_U OR ct_L OR ct_D) \<noteq> 0"

definition isalpha :: "u8 \<Rightarrow> bool" where
  "isalpha c \<longleftrightarrow> ismask c AND (ct_U OR ct_L) \<noteq> 0"

definition iscntrl :: "u8 \<Rightarrow> bool" where
  "iscntrl c \<longleftrightarrow> ismask c AND ct_C \<noteq> 0"

definition isdigit :: "u8 \<Rightarrow> bool" where
  "isdigit c \<longleftrightarrow> ismask c AND ct_D \<noteq> 0"

definition isgraph :: "u8 \<Rightarrow> bool" where
  "isgraph c \<longleftrightarrow> ismask c AND (ct_P OR ct_U OR ct_L OR ct_D) \<noteq> 0"

definition islower :: "u8 \<Rightarrow> bool" where
  "islower c \<longleftrightarrow> ismask c AND ct_L \<noteq> 0"

definition isprint :: "u8 \<Rightarrow> bool" where
  "isprint c \<longleftrightarrow> ismask c AND (ct_P OR ct_U OR ct_L OR ct_D OR ct_SP) \<noteq> 0"

definition ispunct :: "u8 \<Rightarrow> bool" where
  "ispunct c \<longleftrightarrow> ismask c AND ct_P \<noteq> 0"

definition isspace :: "u8 \<Rightarrow> bool" where
  "isspace c \<longleftrightarrow> ismask c AND ct_S \<noteq> 0"

definition isupper :: "u8 \<Rightarrow> bool" where
  "isupper c \<longleftrightarrow> ismask c AND ct_U \<noteq> 0"

definition isxdigit :: "u8 \<Rightarrow> bool" where
  "isxdigit c \<longleftrightarrow> ismask c AND (ct_D OR ct_X) \<noteq> 0"

definition isascii :: "u8 \<Rightarrow> bool" where
  "isascii c \<longleftrightarrow> c \<le> 0x7f"

definition toascii :: "u8 \<Rightarrow> u8" where
  "toascii c = c AND 0x7f"

text \<open>The subtraction of the constant \<open>'A' - 'a'\<close> (an int, -32) is done modulo 256.\<close>

definition tolower :: "u8 \<Rightarrow> u8" where
  "tolower c = (if isupper c then c - (chr8 CHR ''A'' - chr8 CHR ''a'') else c)"

definition toupper :: "u8 \<Rightarrow> u8" where
  "toupper c = (if islower c then c - (chr8 CHR ''a'' - chr8 CHR ''A'') else c)"

lemmas ctype_defs =
  isalnum_def isalpha_def iscntrl_def isdigit_def isgraph_def islower_def isprint_def
  ispunct_def isspace_def isupper_def isxdigit_def ismask_def ct_bits

section \<open>What the table means\<close>

text \<open>The same table with the bit-ors evaluated, for computation.\<close>

lemma ctype_table_code [code]: "ctype_table = [
    8, 8, 8, 8, 8, 8, 8, 8, 8, 40, 40, 40, 40, 40, 8, 8,
    8, 8, 8, 8, 8, 8, 8, 8, 8, 8, 8, 8, 8, 8, 8, 8,
    160, 16, 16, 16, 16, 16, 16, 16, 16, 16, 16, 16, 16, 16, 16, 16,
    4, 4, 4, 4, 4, 4, 4, 4, 4, 4, 16, 16, 16, 16, 16, 16,
    16, 65, 65, 65, 65, 65, 65, 1, 1, 1, 1, 1, 1, 1, 1, 1,
    1, 1, 1, 1, 1, 1, 1, 1, 1, 1, 1, 16, 16, 16, 16, 16,
    16, 66, 66, 66, 66, 66, 66, 2, 2, 2, 2, 2, 2, 2, 2, 2,
    2, 2, 2, 2, 2, 2, 2, 2, 2, 2, 2, 16, 16, 16, 16, 8,
    0, 0, 0, 0, 0, 0, 0, 0, 0, 0, 0, 0, 0, 0, 0, 0,
    0, 0, 0, 0, 0, 0, 0, 0, 0, 0, 0, 0, 0, 0, 0, 0,
    160, 16, 16, 16, 16, 16, 16, 16, 16, 16, 16, 16, 16, 16, 16, 16,
    16, 16, 16, 16, 16, 16, 16, 16, 16, 16, 16, 16, 16, 16, 16, 16,
    1, 1, 1, 1, 1, 1, 1, 1, 1, 1, 1, 1, 1, 1, 1, 1,
    1, 1, 1, 1, 1, 1, 1, 16, 1, 1, 1, 1, 1, 1, 1, 2,
    2, 2, 2, 2, 2, 2, 2, 2, 2, 2, 2, 2, 2, 2, 2, 2,
    2, 2, 2, 2, 2, 2, 2, 16, 2, 2, 2, 2, 2, 2, 2, 2
  ]"
  by (simp add: ctype_table_def ct_bits)

text \<open>A class is a set of codes once one walk over the table has computed it.\<close>

lemma length_ctype_table [simp]: "length ctype_table = 256"
  by (simp add: ctype_table_def)

lemma ctype_class:
  assumes "map (\<lambda>w. w AND b \<noteq> 0) ctype_table = map R [0..<256]"
  shows "ismask c AND b \<noteq> 0 \<longleftrightarrow> R (unat c)"
proof -
  have "map (\<lambda>w. w AND b \<noteq> 0) ctype_table ! unat c = map R [0..<256] ! unat c"
    by (simp only: assms)
  then show ?thesis by (simp add: ismask_def)
qed

lemma isdigit_iff: "isdigit c \<longleftrightarrow> 48 \<le> c \<and> c \<le> 57"
proof -
  have "isdigit c \<longleftrightarrow> 48 \<le> unat c \<and> unat c \<le> 57"
    unfolding isdigit_def
    by (rule ctype_class) (simp add: ctype_table_code ct_bits upt_256)
  then show ?thesis by (simp add: word_le_nat_alt)
qed

lemma isxdigit_iff:
  "isxdigit c \<longleftrightarrow> 48 \<le> c \<and> c \<le> 57 \<or> 65 \<le> c \<and> c \<le> 70 \<or> 97 \<le> c \<and> c \<le> 102"
proof -
  have "isxdigit c \<longleftrightarrow> 48 \<le> unat c \<and> unat c \<le> 57 \<or> 65 \<le> unat c \<and> unat c \<le> 70
      \<or> 97 \<le> unat c \<and> unat c \<le> 102"
    unfolding isxdigit_def
    by (rule ctype_class) (simp add: ctype_table_code ct_bits upt_256)
  then show ?thesis by (simp add: word_le_nat_alt)
qed

lemma isspace_iff: "isspace c \<longleftrightarrow> 9 \<le> c \<and> c \<le> 13 \<or> c = 32 \<or> c = 160"
proof -
  have "isspace c \<longleftrightarrow> 9 \<le> unat c \<and> unat c \<le> 13 \<or> unat c = 32 \<or> unat c = 160"
    unfolding isspace_def
    by (rule ctype_class) (simp add: ctype_table_code ct_bits upt_256)
  then show ?thesis by (simp add: word_le_nat_alt u8_eq_unat)
qed

lemma islower_iff:
  "islower c \<longleftrightarrow> 97 \<le> c \<and> c \<le> 122 \<or> 223 \<le> c \<and> c \<le> 246 \<or> 248 \<le> c"
proof -
  have "islower c \<longleftrightarrow> 97 \<le> unat c \<and> unat c \<le> 122 \<or> 223 \<le> unat c \<and> unat c \<le> 246
      \<or> 248 \<le> unat c"
    unfolding islower_def
    by (rule ctype_class) (simp add: ctype_table_code ct_bits upt_256)
  then show ?thesis by (simp add: word_le_nat_alt)
qed

lemma isupper_iff:
  "isupper c \<longleftrightarrow> 65 \<le> c \<and> c \<le> 90 \<or> 192 \<le> c \<and> c \<le> 214 \<or> 216 \<le> c \<and> c \<le> 222"
proof -
  have "isupper c \<longleftrightarrow> 65 \<le> unat c \<and> unat c \<le> 90 \<or> 192 \<le> unat c \<and> unat c \<le> 214
      \<or> 216 \<le> unat c \<and> unat c \<le> 222"
    unfolding isupper_def
    by (rule ctype_class) (simp add: ctype_table_code ct_bits upt_256)
  then show ?thesis by (simp add: word_le_nat_alt)
qed

lemma isdigit_isxdigit: "isdigit c \<Longrightarrow> isxdigit c"
  by (auto simp: isdigit_iff isxdigit_iff)

lemma nul_classes [simp]: "\<not> isdigit 0" "\<not> isxdigit 0" "\<not> isspace 0"
  by (simp_all add: isdigit_iff isxdigit_iff isspace_iff)

end
