(* ===== verification/CString.thy ===== *)
theory CString
  imports Ctype
begin

text \<open>
  The string and memory routines of \<open>lib_generic/string.c\<close>. A loop that runs until it meets a
  NUL byte is a \<^theory_text>\<open>partial_function\<close> whose value None is "does not return"; a loop that
  counts down is structural recursion on the count. A routine that writes returns the new memory
  with its pointer result, NULL being the address 0.

  The lemmas say what each routine computes on strings laid out in memory (\<open>str_at\<close>) and that
  it returns. \<open>memset\<close> and \<open>memcpy\<close> have a word-at-a-time path for aligned arguments, which is
  proved equal to the byte loop. The three copying routines share the contract of the locale
  \<open>block_copy\<close>.
\<close>

section \<open>Lengths and searches\<close>

partial_function (option) strlen_loop :: "mem \<Rightarrow> nat \<Rightarrow> nat option" where
  "strlen_loop m sc = (if m sc \<noteq> 0 then strlen_loop m (sc + 1) else Some sc)"

definition strlen :: "mem \<Rightarrow> nat \<Rightarrow> nat option" where
  "strlen m s = map_option (\<lambda>sc. sc - s) (strlen_loop m s)"

fun strnlen_loop :: "mem \<Rightarrow> nat \<Rightarrow> nat \<Rightarrow> nat" where
  "strnlen_loop m sc 0 = sc"
| "strnlen_loop m sc (Suc count) =
     (if m sc \<noteq> 0 then strnlen_loop m (sc + 1) count else sc)"

definition strnlen :: "mem \<Rightarrow> nat \<Rightarrow> nat \<Rightarrow> nat" where
  "strnlen m s count = strnlen_loop m s count - s"

partial_function (option) strchr :: "mem \<Rightarrow> nat \<Rightarrow> int \<Rightarrow> nat option" where
  "strchr m s c =
     (if m s \<noteq> word_of_int c
      then if m s = 0 then Some NULL else strchr m (s + 1) c
      else Some s)"

text \<open>The do-while loop of strrchr, \<open>k\<close> being \<open>p - s\<close>.\<close>

fun strrchr_loop :: "mem \<Rightarrow> nat \<Rightarrow> int \<Rightarrow> nat \<Rightarrow> nat" where
  "strrchr_loop m s c 0 = (if m s = word_of_int c then s else NULL)"
| "strrchr_loop m s c (Suc k) =
     (if m (s + Suc k) = word_of_int c then s + Suc k else strrchr_loop m s c k)"

definition strrchr :: "mem \<Rightarrow> nat \<Rightarrow> int \<Rightarrow> nat option" where
  "strrchr m s c = map_option (\<lambda>len. strrchr_loop m s c len) (strlen m s)"

text \<open>The inner loop of strspn and strpbrk: walk the set until the byte or the NUL.\<close>

partial_function (option) accept_loop :: "mem \<Rightarrow> u8 \<Rightarrow> nat \<Rightarrow> nat option" where
  "accept_loop m c a =
     (if m a \<noteq> 0 then if c = m a then Some a else accept_loop m c (a + 1) else Some a)"

partial_function (option) strspn_loop :: "mem \<Rightarrow> nat \<Rightarrow> nat \<Rightarrow> nat \<Rightarrow> nat option" where
  "strspn_loop m p accept count =
     (if m p \<noteq> 0
      then (case accept_loop m (m p) accept of
              None \<Rightarrow> None
            | Some a \<Rightarrow> if m a = 0 then Some count
                        else strspn_loop m (p + 1) accept (count + 1))
      else Some count)"

definition strspn :: "mem \<Rightarrow> nat \<Rightarrow> nat \<Rightarrow> nat option" where
  "strspn m s accept = strspn_loop m s accept 0"

partial_function (option) strpbrk :: "mem \<Rightarrow> nat \<Rightarrow> nat \<Rightarrow> nat option" where
  "strpbrk m sc1 ct =
     (if m sc1 \<noteq> 0
      then (case accept_loop m (m sc1) ct of
              None \<Rightarrow> None
            | Some sc2 \<Rightarrow> if m sc2 \<noteq> 0 then Some sc1 else strpbrk m (sc1 + 1) ct)
      else Some NULL)"

section \<open>Comparisons\<close>

text \<open>
  The difference of two bytes is stored in a \<open>signed char\<close> before it is returned, so the int
  result is the two's complement reading of the difference modulo 256.
\<close>

partial_function (option) strcmp :: "mem \<Rightarrow> nat \<Rightarrow> nat \<Rightarrow> int option" where
  "strcmp m cs ct =
     (let res = m cs - m ct in
      if res \<noteq> 0 \<or> m cs = 0 then Some (sint res) else strcmp m (cs + 1) (ct + 1))"

fun strncmp_loop :: "mem \<Rightarrow> nat \<Rightarrow> nat \<Rightarrow> nat \<Rightarrow> u8 \<Rightarrow> int" where
  "strncmp_loop m cs ct 0 res = sint res"
| "strncmp_loop m cs ct (Suc count) res =
     (let res' = m cs - m ct in
      if res' \<noteq> 0 \<or> m cs = 0 then sint res'
      else strncmp_loop m (cs + 1) (ct + 1) count res')"

definition strncmp :: "mem \<Rightarrow> nat \<Rightarrow> nat \<Rightarrow> nat \<Rightarrow> int" where
  "strncmp m cs ct count = strncmp_loop m cs ct count 0"

fun memcmp :: "mem \<Rightarrow> nat \<Rightarrow> nat \<Rightarrow> nat \<Rightarrow> int" where
  "memcmp m su1 su2 0 = 0"
| "memcmp m su1 su2 (Suc count) =
     (let res = uint (m su1) - uint (m su2) in
      if res \<noteq> 0 then res else memcmp m (su1 + 1) (su2 + 1) count)"

fun memscan :: "mem \<Rightarrow> nat \<Rightarrow> int \<Rightarrow> nat \<Rightarrow> nat" where
  "memscan m p c 0 = p"
| "memscan m p c (Suc n) = (if uint (m p) = c then p else memscan m (p + 1) c n)"

fun memchr :: "mem \<Rightarrow> nat \<Rightarrow> int \<Rightarrow> nat \<Rightarrow> nat" where
  "memchr m p c 0 = NULL"
| "memchr m p c (Suc n) = (if word_of_int c = m p then p else memchr m (p + 1) c n)"

text \<open>\<open>l1\<close> counts the bytes left in the searched string; the guard \<open>l1 >= l2\<close> keeps it positive.\<close>

fun strstr_loop :: "mem \<Rightarrow> nat \<Rightarrow> nat \<Rightarrow> nat \<Rightarrow> nat \<Rightarrow> nat" where
  "strstr_loop m s1 s2 l2 0 = (if l2 = 0 \<and> memcmp m s1 s2 l2 = 0 then s1 else NULL)"
| "strstr_loop m s1 s2 l2 (Suc l1) =
     (if Suc l1 \<ge> l2
      then if memcmp m s1 s2 l2 = 0 then s1 else strstr_loop m (s1 + 1) s2 l2 l1
      else NULL)"

definition strstr :: "mem \<Rightarrow> nat \<Rightarrow> nat \<Rightarrow> nat option" where
  "strstr m s1 s2 =
     (case strlen m s2 of
        None \<Rightarrow> None
      | Some l2 \<Rightarrow>
          if l2 = 0 then Some s1
          else map_option (\<lambda>l1. strstr_loop m s1 s2 l2 l1) (strlen m s1))"

section \<open>Copying strings\<close>

partial_function (option) strcpy_loop :: "mem \<Rightarrow> nat \<Rightarrow> nat \<Rightarrow> mem option" where
  "strcpy_loop m dest src =
     (let c = m src; m' = m(dest := c) in
      if c \<noteq> 0 then strcpy_loop m' (dest + 1) (src + 1) else Some m')"

definition strcpy :: "mem \<Rightarrow> nat \<Rightarrow> nat \<Rightarrow> (mem \<times> nat) option" where
  "strcpy m dest src = map_option (\<lambda>m'. (m', dest)) (strcpy_loop m dest src)"

fun strncpy_loop :: "mem \<Rightarrow> nat \<Rightarrow> nat \<Rightarrow> nat \<Rightarrow> mem" where
  "strncpy_loop m dest src 0 = m"
| "strncpy_loop m dest src (Suc count) =
     (let c = m src; m' = m(dest := c) in
      if c \<noteq> 0 then strncpy_loop m' (dest + 1) (src + 1) count else m')"

definition strncpy :: "mem \<Rightarrow> nat \<Rightarrow> nat \<Rightarrow> nat \<Rightarrow> mem \<times> nat" where
  "strncpy m dest src count = (strncpy_loop m dest src count, dest)"

definition strcat :: "mem \<Rightarrow> nat \<Rightarrow> nat \<Rightarrow> (mem \<times> nat) option" where
  "strcat m dest src =
     (case strlen_loop m dest of
        None \<Rightarrow> None
      | Some d \<Rightarrow> map_option (\<lambda>m'. (m', dest)) (strcpy_loop m d src))"

text \<open>\<open>count\<close> is positive here: strncat tests it before the loop.\<close>

fun strncat_loop :: "mem \<Rightarrow> nat \<Rightarrow> nat \<Rightarrow> nat \<Rightarrow> mem" where
  "strncat_loop m dest src 0 = m"
| "strncat_loop m dest src (Suc count) =
     (let c = m src; m' = m(dest := c) in
      if c \<noteq> 0
      then if count = 0 then m'(dest + 1 := 0)
           else strncat_loop m' (dest + 1) (src + 1) count
      else m')"

definition strncat :: "mem \<Rightarrow> nat \<Rightarrow> nat \<Rightarrow> nat \<Rightarrow> (mem \<times> nat) option" where
  "strncat m dest src count =
     (if count \<noteq> 0
      then map_option (\<lambda>d. (strncat_loop m d src count, dest)) (strlen_loop m dest)
      else Some (m, dest))"

text \<open>\<open>malloc\<close> is the heap allocator, given as the function from a size to the block it returns.\<close>

definition strdup :: "(nat \<Rightarrow> nat) \<Rightarrow> mem \<Rightarrow> nat \<Rightarrow> (mem \<times> nat) option" where
  "strdup malloc m s =
     (if s = NULL then Some (m, NULL)
      else (case strlen m s of
              None \<Rightarrow> None
            | Some len \<Rightarrow>
                (let new = malloc (len + 1) in
                 if new = NULL then Some (m, NULL)
                 else map_option (\<lambda>(m', _). (m', new)) (strcpy m new s))))"

section \<open>Tokens\<close>

text \<open>\<open>save\<close> is the static pointer \<open>___strtok\<close>; the result is the token, the memory and the pointer.\<close>

definition strtok :: "mem \<Rightarrow> nat \<Rightarrow> nat \<Rightarrow> nat \<Rightarrow> (nat \<times> mem \<times> nat) option" where
  "strtok m save s ct =
     (let sbegin = (if s \<noteq> NULL then s else save) in
      if sbegin = NULL then Some (NULL, m, save)
      else (case strspn m sbegin ct of
              None \<Rightarrow> None
            | Some n \<Rightarrow>
                (let sbegin = sbegin + n in
                 if m sbegin = 0 then Some (NULL, m, NULL)
                 else (case strpbrk m sbegin ct of
                         None \<Rightarrow> None
                       | Some send \<Rightarrow>
                           if send \<noteq> NULL \<and> m send \<noteq> 0
                           then Some (sbegin, m(send := 0), send + 1)
                           else Some (sbegin, m, send)))))"

text \<open>\<open>sp\<close> is the pointer \<open>*s\<close>, returned updated as the last component.\<close>

definition strsep :: "mem \<Rightarrow> nat \<Rightarrow> nat \<Rightarrow> (nat \<times> mem \<times> nat) option" where
  "strsep m sp ct =
     (if sp = NULL then Some (NULL, m, sp)
      else (case strpbrk m sp ct of
              None \<Rightarrow> None
            | Some e \<Rightarrow> if e \<noteq> NULL then Some (sp, m(e := 0), e + 1) else Some (sp, m, e)))"

partial_function (option) strswab_loop :: "mem \<Rightarrow> nat \<Rightarrow> nat \<Rightarrow> mem option" where
  "strswab_loop m p q =
     (if m p \<noteq> 0 \<and> m q \<noteq> 0
      then strswab_loop (m(p := m q, q := m p)) (p + 2) (q + 2)
      else Some m)"

definition strswab :: "mem \<Rightarrow> nat \<Rightarrow> (mem \<times> nat) option" where
  "strswab m s =
     (if s = NULL \<or> m s = 0 then Some (m, NULL)
      else map_option (\<lambda>m'. (m', s)) (strswab_loop m s (s + 1)))"

section \<open>Blocks of memory\<close>

fun fill_loop :: "mem \<Rightarrow> nat \<Rightarrow> int \<Rightarrow> nat \<Rightarrow> mem" where
  "fill_loop m s8 c 0 = m"
| "fill_loop m s8 c (Suc count) = fill_loop (m(s8 := word_of_int c)) (s8 + 1) c count"

text \<open>The pattern word: four rounds of \<open>cl <<= 8; cl |= c & 0xff\<close>.\<close>

definition memset_pattern :: "int \<Rightarrow> u32" where
  "memset_pattern c =
     (((\<lambda>cl. push_bit 8 cl OR (word_of_int c AND 0xff)) ^^ 4) 0)"

fun memset_words :: "mem \<Rightarrow> nat \<Rightarrow> u32 \<Rightarrow> nat \<Rightarrow> mem \<times> nat \<times> nat" where
  "memset_words m sl cl count =
     (if count \<ge> 4 then memset_words (store32 m sl cl) (sl + 4) cl (count - 4)
      else (m, sl, count))"

definition memset :: "mem \<Rightarrow> nat \<Rightarrow> int \<Rightarrow> nat \<Rightarrow> mem" where
  "memset m s c count =
     (let (m', s8, count') =
        (if s mod 4 = 0 then memset_words m s (memset_pattern c) count else (m, s, count))
      in fill_loop m' s8 c count')"

fun copy_loop :: "mem \<Rightarrow> nat \<Rightarrow> nat \<Rightarrow> nat \<Rightarrow> mem" where
  "copy_loop m d s 0 = m"
| "copy_loop m d s (Suc count) = copy_loop (m(d := m s)) (d + 1) (s + 1) count"

text \<open>The arguments of bcopy come source first.\<close>

definition bcopy :: "mem \<Rightarrow> nat \<Rightarrow> nat \<Rightarrow> nat \<Rightarrow> mem" where
  "bcopy m src dest count = copy_loop m dest src count"

fun memcpy_words :: "mem \<Rightarrow> nat \<Rightarrow> nat \<Rightarrow> nat \<Rightarrow> mem \<times> nat \<times> nat \<times> nat" where
  "memcpy_words m dl sl count =
     (if count \<ge> 4 then memcpy_words (store32 m dl (load32 m sl)) (dl + 4) (sl + 4) (count - 4)
      else (m, dl, sl, count))"

definition memcpy :: "mem \<Rightarrow> nat \<Rightarrow> nat \<Rightarrow> nat \<Rightarrow> mem" where
  "memcpy m dest src count =
     (let (m', d8, s8, count') =
        (if dest mod 4 = 0 \<and> src mod 4 = 0 then memcpy_words m dest src count
         else (m, dest, src, count))
      in copy_loop m' d8 s8 count')"

text \<open>The loop of memmove that runs downwards from the end of the block.\<close>

fun copy_down :: "mem \<Rightarrow> nat \<Rightarrow> nat \<Rightarrow> nat \<Rightarrow> mem" where
  "copy_down m dest src 0 = m"
| "copy_down m dest src (Suc count) =
     copy_down (m(dest + count := m (src + count))) dest src count"

definition memmove :: "mem \<Rightarrow> nat \<Rightarrow> nat \<Rightarrow> nat \<Rightarrow> mem" where
  "memmove m dest src count =
     (if dest \<le> src then copy_loop m dest src count else copy_down m dest src count)"

declare memset_words.simps [simp del] memcpy_words.simps [simp del]

lemmas string_loops [exec_simps] =
  strlen_loop.simps strchr.simps accept_loop.simps strspn_loop.simps strpbrk.simps strcmp.simps
  strcpy_loop.simps strswab_loop.simps memset_words.simps memcpy_words.simps

section \<open>What the searches compute\<close>

lemma strlen_loop_str_at: "str_at m p s \<Longrightarrow> strlen_loop m p = Some (p + length s)"
  by (induction s arbitrary: p) (simp_all add: strlen_loop.simps [of m])

lemma strlen_str_at: "str_at m p s \<Longrightarrow> strlen m p = Some (length s)"
  by (simp add: strlen_def strlen_loop_str_at)

lemma strnlen_loop_str_at:
  "str_at m p s \<Longrightarrow> strnlen_loop m p count = p + min count (length s)"
  by (induction s arbitrary: p count; case_tac count) simp_all

lemma strnlen_str_at: "str_at m p s \<Longrightarrow> strnlen m p count = min count (length s)"
  by (simp add: strnlen_def strnlen_loop_str_at)

text \<open>The index of the first element that satisfies a predicate, the length if there is none.\<close>

definition first_index :: "('a \<Rightarrow> bool) \<Rightarrow> 'a list \<Rightarrow> nat" where
  "first_index P xs = length (takeWhile (\<lambda>x. \<not> P x) xs)"

lemma first_index_simps [simp]:
  "first_index P [] = 0"
  "first_index P (x # xs) = (if P x then 0 else Suc (first_index P xs))"
  by (simp_all add: first_index_def)

lemma first_index_less: "first_index P xs < length xs \<longleftrightarrow> (\<exists>x \<in> set xs. P x)"
  by (induction xs) auto

lemma first_index_none: "\<forall>x \<in> set xs. \<not> P x \<Longrightarrow> first_index P xs = length xs"
  by (induction xs) auto

lemma strchr_str_at:
  assumes "str_at m p s" and "word_of_int c \<noteq> (0 :: u8)"
  shows "strchr m p c =
    Some (if word_of_int c \<in> set s then p + first_index (\<lambda>x. x = word_of_int c) s else NULL)"
  using assms by (induction s arbitrary: p) (simp_all add: strchr.simps [of m])

lemma accept_loop_str_at:
  "str_at m p s \<Longrightarrow> accept_loop m c p = Some (p + first_index (\<lambda>x. x = c) s)"
  by (induction s arbitrary: p) (auto simp: accept_loop.simps [of m])

lemma accept_loop_found:
  assumes "str_at m a set_s"
  shows "\<exists>q. accept_loop m c a = Some q \<and> (m q = 0 \<longleftrightarrow> c \<notin> set set_s)"
proof -
  let ?i = "first_index (\<lambda>x. x = c) set_s"
  have "m (a + ?i) = 0 \<longleftrightarrow> c \<notin> set set_s"
  proof (cases "c \<in> set set_s")
    case True
    then have "?i < length set_s" by (simp add: first_index_less)
    with True assms show ?thesis by (metis str_at_nonzero)
  next
    case False
    then have "?i = length set_s" by (intro first_index_none) auto
    with False assms show ?thesis by (simp add: str_at_end)
  qed
  with accept_loop_str_at [OF assms] show ?thesis by auto
qed

lemma strspn_loop_str_at:
  assumes "str_at m a acc" and "str_at m p s"
  shows "strspn_loop m p a n = Some (n + length (takeWhile (\<lambda>x. x \<in> set acc) s))"
  using assms(2)
proof (induction s arbitrary: p n)
  case Nil
  then show ?case by (simp add: strspn_loop.simps [of m])
next
  case (Cons c s)
  obtain q where "accept_loop m c a = Some q" "m q = 0 \<longleftrightarrow> c \<notin> set acc"
    using accept_loop_found [OF assms(1)] by blast
  with Cons show ?case by (auto simp: strspn_loop.simps [of m p])
qed

lemma strspn_str_at:
  "str_at m a acc \<Longrightarrow> str_at m p s \<Longrightarrow>
   strspn m p a = Some (length (takeWhile (\<lambda>x. x \<in> set acc) s))"
  by (simp add: strspn_def strspn_loop_str_at)

lemma strpbrk_str_at:
  assumes "str_at m a acc" and "str_at m p s"
  shows "strpbrk m p a =
    Some (if set s \<inter> set acc \<noteq> {} then p + first_index (\<lambda>x. x \<in> set acc) s else NULL)"
  using assms(2)
proof (induction s arbitrary: p)
  case Nil
  then show ?case by (simp add: strpbrk.simps [of m])
next
  case (Cons c s)
  obtain q where "accept_loop m c a = Some q" "m q = 0 \<longleftrightarrow> c \<notin> set acc"
    using accept_loop_found [OF assms(1)] by blast
  with Cons show ?case by (auto simp: strpbrk.simps [of m p])
qed

section \<open>What the comparisons compute\<close>

text \<open>The difference strcmp returns on two strings: at the first position where they differ.\<close>

fun byte_diff :: "u8 list \<Rightarrow> u8 list \<Rightarrow> u8" where
  "byte_diff [] [] = 0"
| "byte_diff [] (d # ds) = - d"
| "byte_diff (c # cs) [] = c"
| "byte_diff (c # cs) (d # ds) = (if c = d then byte_diff cs ds else c - d)"

lemma strcmp_str_at:
  "str_at m p s \<Longrightarrow> str_at m q t \<Longrightarrow> strcmp m p q = Some (sint (byte_diff s t))"
  by (induction s t arbitrary: p q rule: byte_diff.induct)
    (simp_all add: strcmp.simps [of m] Let_def)

lemma byte_diff_0: "0 \<notin> set s \<Longrightarrow> 0 \<notin> set t \<Longrightarrow> byte_diff s t = 0 \<longleftrightarrow> s = t"
  by (induction s t rule: byte_diff.induct) auto

lemma str_at_no_nul: "str_at m p s \<Longrightarrow> 0 \<notin> set s"
  by (simp add: str_at_iff)

lemma memcmp_0_iff: "memcmp m p q n = 0 \<longleftrightarrow> read_bytes m p n = read_bytes m q n"
  by (induction n arbitrary: p q) (auto simp: Let_def word_uint_eq_iff)

lemma memchr_bytes:
  "memchr m p c n =
     (if word_of_int c \<in> set (read_bytes m p n)
      then p + first_index (\<lambda>x. x = word_of_int c) (read_bytes m p n) else NULL)"
  by (induction n arbitrary: p) auto

section \<open>What the copies compute\<close>

text \<open>A string copy between ranges that share no byte, and its frame.\<close>

lemma strcpy_loop_str_at:
  assumes "str_at m src s" and "disjoint_ranges dest (length s + 1) src (length s + 1)"
  shows "strcpy_loop m dest src = Some (write_bytes m dest (s @ [0]))"
  using assms
proof (induction s arbitrary: m dest src)
  case Nil
  then show ?case by (simp add: strcpy_loop.simps [of m] del: fun_upd_apply)
next
  case (Cons c s)
  let ?m = "m(dest := c)"
  have "str_at ?m (src + 1) s = str_at m (src + 1) s"
    using Cons.prems(2) by (intro str_at_cong) (auto simp: disjoint_ranges_def)
  moreover have "disjoint_ranges (dest + 1) (length s + 1) (src + 1) (length s + 1)"
    using Cons.prems(2) by (auto simp: disjoint_ranges_def)
  ultimately have "strcpy_loop ?m (dest + 1) (src + 1) =
      Some (write_bytes ?m (dest + 1) (s @ [0]))"
    using Cons by simp
  then show ?case
    using Cons.prems(1) by (simp add: strcpy_loop.simps [of m] Let_def del: fun_upd_apply)
qed

lemma strcpy_str_at:
  assumes "str_at m src s" and "disjoint_ranges dest (length s + 1) src (length s + 1)"
  shows "strcpy m dest src = Some (write_bytes m dest (s @ [0]), dest)"
  by (simp add: strcpy_def strcpy_loop_str_at [OF assms])

lemma strcat_str_at:
  assumes "str_at m dest d" and "str_at m src s"
    and "disjoint_ranges dest (length d + length s + 1) src (length s + 1)"
  shows "\<exists>m'. strcat m dest src = Some (m', dest) \<and> str_at m' dest (d @ s)
    \<and> (\<forall>x. x < dest + length d \<or> dest + length d + length s + 1 \<le> x \<longrightarrow> m' x = m x)"
proof -
  let ?m = "write_bytes m (dest + length d) (s @ [0])"
  have "disjoint_ranges (dest + length d) (length s + 1) src (length s + 1)"
    using assms(3) by (auto simp: disjoint_ranges_def)
  then have "strcat m dest src = Some (?m, dest)"
    by (simp add: strcat_def strlen_loop_str_at [OF assms(1)] strcpy_loop_str_at [OF assms(2)])
  moreover have "str_at ?m (dest + length d) s"
    by (rule str_at_write) (rule str_at_no_nul [OF assms(2)])
  moreover have "read_bytes ?m dest (length d) = d"
    using assms(1) by (auto simp: str_at_iff list_eq_iff_lookup)
  moreover have "0 \<notin> set d" by (rule str_at_no_nul [OF assms(1)])
  ultimately show ?thesis by (auto simp: str_at_append)
qed

lemma fill_loop_eq: "fill_loop m s c n = write_bytes m s (replicate n (word_of_int c))"
  by (induction n arbitrary: m s) simp_all

lemma memset_pattern_bytes: "word32_bytes (memset_pattern c) = replicate 4 (word_of_int c)"
  unfolding word32_bytes_def memset_pattern_def funpow_4 replicate_4
  by (auto simp: bit_simps bit_int_255 intro!: bit_word_eqI)

lemma memset_words_eq:
  "memset_words m s (memset_pattern c) n = (m', s', n') \<Longrightarrow>
   n = (s' - s) + n' \<and> s \<le> s' \<and> m' = write_bytes m s (replicate (s' - s) (word_of_int c))"
proof (induction n arbitrary: m s rule: less_induct)
  case (less n)
  show ?case
  proof (cases "n \<ge> 4")
    case True
    let ?b = "word_of_int c :: u8"
    have "memset_words (write_bytes m s (replicate 4 ?b)) (s + 4) (memset_pattern c) (n - 4) =
        (m', s', n')"
      using less.prems True
      by (simp add: memset_words.simps [of m] store32_def memset_pattern_bytes)
    from less.IH [OF _ this] True
    have *: "n - 4 = s' - (s + 4) + n'" "s + 4 \<le> s'"
      "m' = write_bytes (write_bytes m s (replicate 4 ?b)) (s + 4) (replicate (s' - (s + 4)) ?b)"
      by auto
    have "replicate (s' - s) ?b = replicate 4 ?b @ replicate (s' - (s + 4)) ?b"
      using *(2) by (simp flip: replicate_add)
    with * True show ?thesis by (simp add: write_bytes_append)
  next
    case False
    with less.prems show ?thesis by (simp add: memset_words.simps [of m])
  qed
qed

lemma copy_loop_eq:
  "d \<le> s \<or> s + n \<le> d \<Longrightarrow> copy_loop m d s n = write_bytes m d (read_bytes m s n)"
proof (induction n arbitrary: m d s)
  case (Suc n)
  have "read_bytes (m(d := m s)) (s + 1) n = read_bytes m (s + 1) n"
    using Suc.prems by (intro read_bytes_cong) auto
  moreover have "d + 1 \<le> s + 1 \<or> s + 1 + n \<le> d + 1" using Suc.prems by auto
  ultimately show ?case using Suc.IH [of "d + 1" "s + 1" "m(d := m s)"]
    by (simp del: fun_upd_apply)
qed simp

lemma copy_down_eq:
  "s \<le> d \<Longrightarrow> copy_down m d s n = write_bytes m d (read_bytes m s n)"
proof (induction n arbitrary: m)
  case (Suc n)
  let ?m = "m(d + n := m (s + n))"
  have "read_bytes ?m s n = read_bytes m s n"
    using Suc.prems by (intro read_bytes_cong) auto
  then have "copy_down m d s (Suc n) = write_bytes ?m d (read_bytes m s n)"
    using Suc by simp
  also have "\<dots> = write_bytes m d (read_bytes m s n @ [m (s + n)])"
    by (rule ext) (auto simp: write_bytes_apply nth_append less_Suc_eq)
  finally show ?case using read_bytes_add [of m s n 1] by simp
qed simp

lemma memcpy_words_eq:
  "memcpy_words m d s n = (m', d', s', n') \<Longrightarrow> d \<le> s \<or> s + n \<le> d \<Longrightarrow>
   \<exists>k. n = k + n' \<and> d' = d + k \<and> s' = s + k \<and> m' = write_bytes m d (read_bytes m s k)"
proof (induction n arbitrary: m d s rule: less_induct)
  case (less n)
  show ?case
  proof (cases "n \<ge> 4")
    case True
    let ?m = "write_bytes m d (read_bytes m s 4)"
    have "memcpy_words ?m (d + 4) (s + 4) (n - 4) = (m', d', s', n')"
      using less.prems(1) True by (simp add: memcpy_words.simps [of m] store32_load32)
    moreover have "d + 4 \<le> s + 4 \<or> s + 4 + (n - 4) \<le> d + 4" using less.prems(2) True by auto
    ultimately obtain k where k: "n - 4 = k + n'" "d' = d + 4 + k" "s' = s + 4 + k"
      "m' = write_bytes ?m (d + 4) (read_bytes ?m (s + 4) k)"
      using less.IH [of "n - 4"] True by force
    have "read_bytes ?m (s + 4) k = read_bytes m (s + 4) k"
      using less.prems(2) True k(1)
      by (intro read_bytes_cong write_bytes_outside) auto
    then have "m' = write_bytes m d (read_bytes m s (4 + k))"
      using k(4) by (simp add: read_bytes_add write_bytes_append)
    with k True show ?thesis by (intro exI [of _ "4 + k"]) auto
  next
    case False
    with less.prems show ?thesis by (auto simp: memcpy_words.simps [of m])
  qed
qed

section \<open>The contract of the copying routines\<close>

text \<open>
  What a caller relies on when it copies a block: where the two ranges do not overlap, the
  destination receives the bytes the source held, and nothing else changes.
\<close>

locale block_copy =
  fixes copy :: "mem \<Rightarrow> nat \<Rightarrow> nat \<Rightarrow> nat \<Rightarrow> mem"
  assumes copy_disjoint:
    "disjoint_ranges d n s n \<Longrightarrow> copy m d s n = write_bytes m d (read_bytes m s n)"
begin

lemma copy_dest: "disjoint_ranges d n s n \<Longrightarrow> read_bytes (copy m d s n) d n = read_bytes m s n"
  using read_write_same [of m d "read_bytes m s n"] by (simp add: copy_disjoint)

lemma copy_frame: "disjoint_ranges d n s n \<Longrightarrow> x < d \<or> d + n \<le> x \<Longrightarrow> copy m d s n x = m x"
  by (simp add: copy_disjoint)

lemma copy_source: "disjoint_ranges d n s n \<Longrightarrow> read_bytes (copy m d s n) s n = read_bytes m s n"
  by (simp add: copy_disjoint read_write_disjoint)

lemma copy_back: "disjoint_ranges d n s n \<Longrightarrow> copy (copy m d s n) s d n = copy m d s n"
proof -
  assume dis: "disjoint_ranges d n s n"
  then have "disjoint_ranges s n d n" by (auto simp: disjoint_ranges_def)
  then have "copy (copy m d s n) s d n = write_bytes (copy m d s n) s (read_bytes (copy m d s n) s n)"
    by (simp add: copy_disjoint [of s n d] copy_dest [OF dis] copy_source [OF dis])
  also have "\<dots> = copy m d s n" by (rule ext) (auto simp: write_bytes_apply)
  finally show ?thesis .
qed

end

lemma memmove_eq: "memmove m d s n = write_bytes m d (read_bytes m s n)"
  by (simp add: memmove_def copy_loop_eq copy_down_eq)

lemma memcpy_eq:
  assumes "d \<le> s \<or> s + n \<le> d"
  shows "memcpy m d s n = write_bytes m d (read_bytes m s n)"
proof (cases "d mod 4 = 0 \<and> s mod 4 = 0")
  case True
  obtain m' d' s' n' where w: "memcpy_words m d s n = (m', d', s', n')" by (metis prod_cases4)
  then obtain k where k: "n = k + n'" "d' = d + k" "s' = s + k"
      "m' = write_bytes m d (read_bytes m s k)"
    using memcpy_words_eq assms by blast
  have "read_bytes m' s' n' = read_bytes m (s + k) n'"
    using assms k by (auto intro!: read_bytes_cong)
  moreover have "d' \<le> s' \<or> s' + n' \<le> d'" using assms k by auto
  ultimately have "copy_loop m' d' s' n' = write_bytes m d (read_bytes m s k @ read_bytes m (s + k) n')"
    using k by (simp add: copy_loop_eq write_bytes_append)
  with True w k show ?thesis by (simp add: memcpy_def read_bytes_add)
next
  case False
  with assms show ?thesis by (auto simp: memcpy_def copy_loop_eq)
qed

interpretation cpy_memcpy: block_copy memcpy
  by unfold_locales (auto simp: disjoint_ranges_def memcpy_eq)

interpretation cpy_memmove: block_copy memmove
  by unfold_locales (simp add: memmove_eq)

interpretation cpy_bcopy: block_copy "\<lambda>m d s n. bcopy m s d n"
  by unfold_locales (auto simp: disjoint_ranges_def bcopy_def copy_loop_eq)

lemma byte_diff_sign:
  assumes "0 \<notin> set s" "0 \<notin> set t" "\<forall>c \<in> set s \<union> set t. c < 0x80"
  shows "sint (byte_diff s t) < 0 \<longleftrightarrow> ord_class.lexordp s t"
  using assms
proof (induction s t rule: byte_diff.induct)
  case (2 d ds)
  then have "sint (0 - d) = uint (0 :: u8) - uint d" by (intro sint_u8_minus) simp_all
  with 2 show ?case by (simp add: word_neq_0_conv word_less_def)
next
  case (3 c cs)
  then have "sint (c - 0) = uint c - uint (0 :: u8)" by (intro sint_u8_minus) simp_all
  then show ?case by (simp add: not_less)
next
  case (4 c cs d ds)
  then have "sint (c - d) = uint c - uint d" by (intro sint_u8_minus) simp_all
  with 4 show ?case by (auto simp: word_less_def word_uint_eq_iff)
qed simp

section \<open>Properties\<close>

text \<open>
  \<open>memmove\<close> copies correctly whatever the overlap of the two blocks: the destination holds
  exactly the bytes the source held before the call, and every byte outside the destination is
  unchanged.
\<close>

theorem memmove_overlap_safe:
  "read_bytes (memmove m dest src n) dest n = read_bytes m src n \<and>
   (\<forall>x. \<not> (dest \<le> x \<and> x < dest + n) \<longrightarrow> memmove m dest src n x = m x)"
  using read_write_same [of m dest "read_bytes m src n"] by (auto simp: memmove_eq)

theorem memmove_overlap_safe_witness:
  "read_bytes (memmove ((\<lambda>_. 0)(10 := 1, 11 := 2, 12 := 3)) 11 10 3) 11 3 = [1, 2, 3]"
  using memmove_overlap_safe [of "(\<lambda>_. 0)(10 := 1, 11 := 2, 12 := 3)" 11 10 3]
  by (simp add: numeral_eq_Suc)

text \<open>
  The word-at-a-time \<open>memset\<close> writes the low byte of its argument to each of the \<open>count\<close>
  bytes and to nothing else, whatever the alignment of the block.
\<close>

theorem memset_fills: "memset m s c n = write_bytes m s (replicate n (word_of_int c))"
proof (cases "s mod 4 = 0")
  case True
  obtain m' s' n' where w: "memset_words m s (memset_pattern c) n = (m', s', n')"
    by (metis prod_cases3)
  from memset_words_eq [OF this]
  have *: "n = (s' - s) + n'" "s' = s + (s' - s)"
    "m' = write_bytes m s (replicate (s' - s) (word_of_int c))" by auto
  then have "write_bytes m s (replicate n (word_of_int c)) =
      write_bytes (write_bytes m s (replicate (s' - s) (word_of_int c))) s' (replicate n' (word_of_int c))"
    by (metis length_replicate replicate_add write_bytes_append)
  with w True * show ?thesis by (simp add: memset_def fill_loop_eq)
next
  case False
  then show ?thesis by (simp add: memset_def fill_loop_eq)
qed

text \<open>
  On strings of 7-bit characters \<open>strcmp\<close> returns, and its result is zero exactly for equal
  strings and otherwise has the sign of the difference at the first position where they differ.
\<close>

theorem strcmp_sign:
  assumes "str_at m p s" and "str_at m q t"
    and "\<forall>c \<in> set s \<union> set t. c < 0x80"
  shows "\<exists>r. strcmp m p q = Some r \<and> (r = 0 \<longleftrightarrow> s = t) \<and> (r < 0 \<longleftrightarrow> ord_class.lexordp s t)"
proof -
  let ?d = "byte_diff s t"
  have r: "strcmp m p q = Some (sint ?d)" using assms(1,2) by (rule strcmp_str_at)
  have nul: "0 \<notin> set s" "0 \<notin> set t" using assms by (simp_all add: str_at_no_nul)
  then have "sint ?d = 0 \<longleftrightarrow> s = t"
    by (simp add: byte_diff_0 [symmetric] signed_eq_0_iff)
  moreover have "sint ?d < 0 \<longleftrightarrow> ord_class.lexordp s t"
    using nul assms(3) by (rule byte_diff_sign)
  ultimately show ?thesis using r by blast
qed

theorem strcmp_sign_witness:
  "\<exists>r. strcmp ((\<lambda>_. 0)(4 := 97, 5 := 98, 8 := 97, 9 := 99)) 4 8 = Some r \<and> r < 0"
proof -
  let ?m = "(\<lambda>_. 0)(4 := 97, 5 := 98, 8 := 97, 9 := 99) :: mem"
  have "str_at ?m 4 [97, 98]" "str_at ?m 8 [97, 99]" by simp_all
  from strcmp_sign [OF this] show ?thesis by auto
qed

end
