(* ===== verification/Vsprintf.thy ===== *)
theory Vsprintf
  imports CString
begin

text \<open>
  Number parsing and formatted output (\<open>lib_generic/vsprintf.c\<close>, with \<open>NUM_TYPE\<close> being long,
  since the board does not define \<open>CONFIG_SYS_64BIT_VSPRINTF\<close>).

  A pointer into a string that is only read is the list of the bytes from it to the NUL
  (exclusive); \<open>peek\<close> dereferences it. A pointer into the output buffer that is only written
  and advanced is the list of the bytes emitted. Variadic arguments are a list of 32-bit slots,
  as they lie in the argument area on the ARM; reading past the last one is None.
\<close>

section \<open>Reading a string\<close>

fun peek :: "u8 list \<Rightarrow> u8" where
  "peek [] = 0"
| "peek (c # cs) = c"

definition peek_at :: "u8 list \<Rightarrow> nat \<Rightarrow> u8" where
  "peek_at s i = (if i < length s then s ! i else 0)"

section \<open>Parsing numbers\<close>

text \<open>The value of a digit character, an unsigned long.\<close>

definition digit_value :: "u8 \<Rightarrow> u32" where
  "digit_value c =
     (if isdigit c then ucast c - ucast (chr8 CHR ''0'')
      else ucast (if islower c then toupper c else c) - ucast (chr8 CHR ''A'') + 10)"

fun strtoul_loop :: "u8 list \<Rightarrow> u32 \<Rightarrow> u32 \<Rightarrow> u32 \<times> u8 list" where
  "strtoul_loop [] base result = (result, [])"
| "strtoul_loop (c # cs) base result =
     (if isxdigit c \<and> digit_value c < base
      then strtoul_loop cs base (result * base + digit_value c)
      else (result, c # cs))"

text \<open>The prefix: \<open>0x\<close> selects base 16, a leading \<open>0\<close> base 8 where no base is given.\<close>

definition strtoul_prefix :: "u8 list \<Rightarrow> u32 \<Rightarrow> u8 list \<times> u32" where
  "strtoul_prefix cp base =
     (let (cp, base) =
        (if peek cp = chr8 CHR ''0''
         then (let cp = tl cp;
                   (base, cp) = (if peek cp = chr8 CHR ''x'' \<and> isxdigit (peek_at cp 1)
                                 then (16, tl cp) else (base, cp))
               in (cp, if base = 0 then 8 else base))
         else (cp, base))
      in (cp, if base = 0 then 10 else base))"

definition simple_strtoul :: "u8 list \<Rightarrow> u32 \<Rightarrow> u32 \<times> u8 list" where
  "simple_strtoul cp base =
     (let (cp, base) = strtoul_prefix cp base in strtoul_loop cp base 0)"

definition simple_strtol :: "u8 list \<Rightarrow> u32 \<Rightarrow> u32 \<times> u8 list" where
  "simple_strtol cp base =
     (if peek cp = chr8 CHR ''-''
      then (let (r, e) = simple_strtoul (tl cp) base in (- r, e))
      else simple_strtoul cp base)"

text \<open>The size suffixes G, M, K fall through into each other; only KiB-style names are skipped.\<close>

definition ustrtoul :: "u8 list \<Rightarrow> u32 \<Rightarrow> u32 \<times> u8 list" where
  "ustrtoul cp base =
     (let (result, endp) = simple_strtoul cp base;
          c = peek endp;
          result = (if c = chr8 CHR ''G'' then result * 1024 else result);
          result = (if c = chr8 CHR ''G'' \<or> c = chr8 CHR ''M'' then result * 1024 else result)
      in if c = chr8 CHR ''G'' \<or> c = chr8 CHR ''M'' \<or> c = chr8 CHR ''K'' \<or> c = chr8 CHR ''k''
         then (result * 1024,
               if peek_at endp 1 = chr8 CHR ''i''
               then if peek_at endp 2 = chr8 CHR ''B'' then drop 3 endp else drop 2 endp
               else endp)
         else (result, endp))"

section \<open>Decimal digits\<close>

text \<open>The macro \<open>is_digit\<close> and the function \<open>skip_atoi\<close>, whose int is taken not to overflow.\<close>

definition is_digit :: "u8 \<Rightarrow> bool" where
  "is_digit c \<longleftrightarrow> chr8 CHR ''0'' \<le> c \<and> c \<le> chr8 CHR ''9''"

fun skip_atoi_loop :: "u8 list \<Rightarrow> int \<Rightarrow> int \<times> u8 list" where
  "skip_atoi_loop [] i = (i, [])"
| "skip_atoi_loop (c # cs) i =
     (if is_digit c then skip_atoi_loop cs (i * 10 + uint c - uint (chr8 CHR ''0''))
      else (i, c # cs))"

definition skip_atoi :: "u8 list \<Rightarrow> int \<times> u8 list" where
  "skip_atoi s = skip_atoi_loop s 0"

text \<open>The character of a digit, \<open>d + '0'\<close> narrowed to a byte.\<close>

definition dchar :: "u32 \<Rightarrow> u8" where
  "dchar d = ucast (d + ucast (chr8 CHR ''0''))"

definition put_dec_trunc :: "u32 \<Rightarrow> u8 list" where
  "put_dec_trunc q =
     (let d1 = drop_bit 4 q AND 0xf;
          d2 = drop_bit 8 q AND 0xf;
          d3 = drop_bit 12 q;
          d0 = 6 * (d3 + d2 + d1) + (q AND 0xf);
          q = drop_bit 11 (d0 * 0xcd);
          d0 = d0 - 10 * q;
          d1 = q + 9 * d3 + 5 * d2 + d1
      in dchar d0 #
         (if d1 \<noteq> 0
          then (let q = drop_bit 11 (d1 * 0xcd);
                    d1 = d1 - 10 * q;
                    d2 = q + 2 * d2
                in dchar d1 #
                   (if d2 \<noteq> 0 \<or> d3 \<noteq> 0
                    then (let q = drop_bit 7 (d2 * 0xd);
                              d2 = d2 - 10 * q;
                              d3 = q + 4 * d3
                          in dchar d2 #
                             (if d3 \<noteq> 0
                              then (let q = drop_bit 11 (d3 * 0xcd);
                                        d3 = d3 - 10 * q
                                    in dchar d3 # (if q \<noteq> 0 then [dchar q] else []))
                              else []))
                    else []))
          else []))"

definition put_dec_full :: "u32 \<Rightarrow> u8 list" where
  "put_dec_full q =
     (let d1 = drop_bit 4 q AND 0xf;
          d2 = drop_bit 8 q AND 0xf;
          d3 = drop_bit 12 q;
          d0 = 6 * (d3 + d2 + d1) + (q AND 0xf);
          q = drop_bit 11 (d0 * 0xcd);
          d0 = d0 - 10 * q;
          d1 = q + 9 * d3 + 5 * d2 + d1;
          q = drop_bit 11 (d1 * 0xcd);
          d1 = d1 - 10 * q;
          d2 = q + 2 * d2;
          q = drop_bit 7 (d2 * 0xd);
          d2 = d2 - 10 * q;
          d3 = q + 4 * d3;
          q = drop_bit 11 (d3 * 0xcd);
          d3 = d3 - 10 * q
      in [dchar d0, dchar d1, dchar d2, dchar d3, dchar q])"

function put_dec :: "u32 \<Rightarrow> u8 list" where
  "put_dec num =
     (if num < 100000 then put_dec_trunc num
      else put_dec_full (num mod 100000) @ put_dec (num div 100000))"
  by pat_completeness auto
termination
  by (relation "measure unat")
    (auto simp: word_less_nat_alt word_le_nat_alt unat_div not_less intro!: div_less_dividend)

declare put_dec.simps [simp del]

section \<open>Formatting a number\<close>

definition ZEROPAD :: u32 where "ZEROPAD = 1"
definition SIGN :: u32 where "SIGN = 2"
definition PLUS :: u32 where "PLUS = 4"
definition SPACE :: u32 where "SPACE = 8"
definition LEFT :: u32 where "LEFT = 16"
definition SMALL :: u32 where "SMALL = 32"
definition SPECIAL :: u32 where "SPECIAL = 64"

lemmas flag_defs [exec_simps] =
  ZEROPAD_def SIGN_def PLUS_def SPACE_def LEFT_def SMALL_def SPECIAL_def

definition hex_digits :: "u8 list" where
  "hex_digits = cstr ''0123456789ABCDEF''"

text \<open>The digits of a number in base 8 or 16, least significant first, by mask and shift.\<close>

definition base_shift :: "nat \<Rightarrow> nat" where
  "base_shift base = (if base = 16 then 4 else 3)"

function shift_digits :: "u32 \<Rightarrow> nat \<Rightarrow> u8 \<Rightarrow> u8 list" where
  "shift_digits num base locase =
     (hex_digits ! unat (ucast num AND (of_nat (base - 1) :: u8)) OR locase) #
     (let num' = drop_bit (base_shift base) num
      in if num' \<noteq> 0 then shift_digits num' base locase else [])"
  by pat_completeness auto
termination
proof (relation "measure (\<lambda>(num, _). unat num)", goal_cases)
  case (2 num base locase x)
  then have "num \<noteq> 0" by auto
  then show ?case using 2
    by (auto simp: base_shift_def drop_bit_eq_div intro!: unat_div_less)
qed simp

declare shift_digits.simps [simp del]

text \<open>
  A loop \<open>while (--size >= 0) *buf++ = c\<close>: the bytes it emits and the value it leaves in
  \<open>size\<close>.
\<close>

function pad_loop :: "int \<Rightarrow> u8 \<Rightarrow> u8 list \<times> int" where
  "pad_loop sz c =
     (if sz - 1 \<ge> 0
      then (let (out, sz') = pad_loop (sz - 1) c in (c # out, sz'))
      else ([], sz - 1))"
  by pat_completeness auto
termination
  by (relation "measure (\<lambda>(sz, _). nat sz)") auto

declare pad_loop.simps [simp del]

definition number_tmp :: "u32 \<Rightarrow> nat \<Rightarrow> u8 \<Rightarrow> u8 list" where
  "number_tmp num base locase =
     (if num = 0 then [chr8 CHR ''0'']
      else if base \<noteq> 10 then shift_digits num base locase
      else put_dec num)"

text \<open>The sign character, the magnitude and the field width left for the digits.\<close>

definition number_sign :: "u32 \<Rightarrow> u32 \<Rightarrow> int \<Rightarrow> u8 \<times> u32 \<times> int" where
  "number_sign num type sz =
     (if type AND SIGN \<noteq> 0
      then if num <s 0 then (chr8 CHR ''-'', - num, sz - 1)
           else if type AND PLUS \<noteq> 0 then (chr8 CHR ''+'', num, sz - 1)
           else if type AND SPACE \<noteq> 0 then (chr8 CHR '' '', num, sz - 1)
           else (0, num, sz)
      else (0, num, sz))"

text \<open>The three places a field is padded: before the sign, after the prefix and at the end.\<close>

definition number_pads :: "int \<Rightarrow> u32 \<Rightarrow> u8 list \<times> u8 list \<times> u8 list" where
  "number_pads sz type =
     (let (lead, sz) = (if type AND (ZEROPAD + LEFT) = 0 then pad_loop sz (chr8 CHR '' '')
                        else ([], sz));
          (mid, sz) = (if type AND LEFT = 0
                       then pad_loop sz (if type AND ZEROPAD \<noteq> 0 then chr8 CHR ''0'' else chr8 CHR '' '')
                       else ([], sz))
      in (lead, mid, fst (pad_loop sz (chr8 CHR '' ''))))"

definition number :: "u32 \<Rightarrow> nat \<Rightarrow> int \<Rightarrow> int \<Rightarrow> u32 \<Rightarrow> u8 list" where
  "number num base sz precision type =
     (let need_pfx = (type AND SPECIAL \<noteq> 0 \<and> base \<noteq> 10);
          locase = ucast (type AND SMALL);
          type = (if type AND LEFT \<noteq> 0 then type AND NOT ZEROPAD else type);
          (sign, num, sz) = number_sign num type sz;
          sz = (if need_pfx then (if base = 16 then sz - 1 - 1 else sz - 1) else sz);
          tmp = number_tmp num base locase;
          i = int (length tmp);
          precision = (if i > precision then i else precision);
          (lead, mid, trail) = number_pads (sz - precision) type;
          pfx = (if need_pfx
                 then chr8 CHR ''0'' # (if base = 16 then [chr8 CHR ''X'' OR locase] else [])
                 else []);
          zeros = fst (pad_loop (precision - i) (chr8 CHR ''0''))
      in lead @ (if sign \<noteq> 0 then [sign] else []) @ pfx @ mid @ zeros @ rev tmp @ trail)"

section \<open>Strings, addresses and pointers\<close>

text \<open>\<open>while (len < field_width--) *buf++ = ' '\<close>: the bytes and the value left.\<close>

function width_loop :: "int \<Rightarrow> int \<Rightarrow> u8 list \<times> int" where
  "width_loop len fw =
     (if len < fw
      then (let (out, fw') = width_loop len (fw - 1) in (chr8 CHR '' '' # out, fw'))
      else ([], fw - 1))"
  by pat_completeness auto
termination
  by (relation "measure (\<lambda>(len, fw). nat (fw - len))") auto

declare width_loop.simps [simp del]

text \<open>
  \<open>string\<close> for an argument that is a string in memory: \<open>strnlen\<close> takes the int precision as an
  unsigned bound, so a missing precision (-1) is no bound in practice.
\<close>

definition string_out :: "u8 list \<Rightarrow> int \<Rightarrow> u32 \<Rightarrow> u8 list" where
  "string_out s field_width flags =
     (let len = int (length s);
          (lead, fw) = (if flags AND LEFT = 0 then width_loop len field_width else ([], field_width));
          trail = fst (width_loop len fw)
      in lead @ s @ trail)"

definition string_fmt :: "mem \<Rightarrow> nat \<Rightarrow> int \<Rightarrow> int \<Rightarrow> u32 \<Rightarrow> u8 list" where
  "string_fmt m s field_width precision flags =
     (let count = unat (word_of_int precision :: u32);
          str = (if s = NULL then take count (cstr ''<NULL>'')
                 else read_bytes m s (strnlen m s count))
      in string_out str field_width flags)"

text \<open>\<open>string\<close> for the NUL-terminated local buffers that the address formatters fill.\<close>

definition string_local :: "u8 list \<Rightarrow> int \<Rightarrow> int \<Rightarrow> u32 \<Rightarrow> u8 list" where
  "string_local s field_width precision flags =
     string_out (take (unat (word_of_int precision :: u32)) s) field_width flags"

definition hex_asc :: "u8 list" where
  "hex_asc = cstr ''0123456789abcdef''"

definition pack_hex_byte :: "u8 \<Rightarrow> u8 list" where
  "pack_hex_byte byte =
     [hex_asc ! unat (drop_bit 4 (byte AND 0xf0)), hex_asc ! unat (byte AND 0x0f)]"

definition mac_address_string :: "mem \<Rightarrow> nat \<Rightarrow> int \<Rightarrow> int \<Rightarrow> u32 \<Rightarrow> u8 list" where
  "mac_address_string m addr field_width precision flags =
     (let mac_addr = concat (map (\<lambda>i. pack_hex_byte (m (addr + i)) @
                (if flags AND SPECIAL = 0 \<and> i \<noteq> 5 then [chr8 CHR '':''] else [])) [0..<6])
      in string_local mac_addr field_width precision (flags AND NOT SPECIAL))"

definition ip6_addr_string :: "mem \<Rightarrow> nat \<Rightarrow> int \<Rightarrow> int \<Rightarrow> u32 \<Rightarrow> u8 list" where
  "ip6_addr_string m addr field_width precision flags =
     (let ip6_addr = concat (map (\<lambda>i.
                pack_hex_byte (m (addr + 2 * i)) @ pack_hex_byte (m (addr + 2 * i + 1)) @
                (if flags AND SPECIAL = 0 \<and> i \<noteq> 7 then [chr8 CHR '':''] else [])) [0..<8])
      in string_local ip6_addr field_width precision (flags AND NOT SPECIAL))"

definition ip4_addr_string :: "mem \<Rightarrow> nat \<Rightarrow> int \<Rightarrow> int \<Rightarrow> u32 \<Rightarrow> u8 list" where
  "ip4_addr_string m addr field_width precision flags =
     (let ip4_addr = concat (map (\<lambda>i.
                rev (put_dec_trunc (ucast (m (addr + i)))) @
                (if i \<noteq> 3 then [chr8 CHR ''.''] else [])) [0..<4])
      in string_local ip4_addr field_width precision (flags AND NOT SPECIAL))"

text \<open>
  \<open>pointer\<close>, its switch being over the first letter of the suffix: \<open>m\<close> falls through to \<open>M\<close>,
  \<open>i\<close> to \<open>I\<close>, and an \<open>I\<close> that is neither \<open>I4\<close> nor \<open>I6\<close> prints the plain pointer.
\<close>

definition pointer_plain :: "u32 \<Rightarrow> int \<Rightarrow> int \<Rightarrow> u32 \<Rightarrow> u8 list" where
  "pointer_plain ptr field_width precision flags =
     (let flags = flags OR SMALL;
          (field_width, flags) = (if field_width = -1 then (8, flags OR ZEROPAD) else (field_width, flags))
      in number ptr 16 field_width precision flags)"

definition pointer :: "mem \<Rightarrow> u8 list \<Rightarrow> u32 \<Rightarrow> int \<Rightarrow> int \<Rightarrow> u32 \<Rightarrow> u8 list" where
  "pointer m fmt ptr field_width precision flags =
     (if ptr = 0 then string_local (cstr ''(null)'') field_width precision flags
      else
       (let c = peek fmt; c1 = peek_at fmt 1; addr = unat ptr in
        if c = chr8 CHR ''m''
        then mac_address_string m addr field_width precision (flags OR SPECIAL)
        else if c = chr8 CHR ''M''
        then mac_address_string m addr field_width precision flags
        else if c = chr8 CHR ''i'' \<or> c = chr8 CHR ''I''
        then (let flags = (if c = chr8 CHR ''i'' then flags OR SPECIAL else flags) in
              if c1 = chr8 CHR ''6'' then ip6_addr_string m addr field_width precision flags
              else if c1 = chr8 CHR ''4'' then ip4_addr_string m addr field_width precision flags
              else pointer_plain ptr field_width precision (flags AND NOT SPECIAL))
        else pointer_plain ptr field_width precision flags))"

section \<open>vsprintf\<close>

text \<open>The flag characters after a percent sign (the label \<open>repeat\<close>).\<close>

fun vs_flags :: "u8 list \<Rightarrow> u32 \<Rightarrow> u32 \<times> u8 list" where
  "vs_flags [] flags = (flags, [])"
| "vs_flags (c # cs) flags =
     (if c = chr8 CHR ''-'' then vs_flags cs (flags OR LEFT)
      else if c = chr8 CHR ''+'' then vs_flags cs (flags OR PLUS)
      else if c = chr8 CHR '' '' then vs_flags cs (flags OR SPACE)
      else if c = chr8 CHR ''#'' then vs_flags cs (flags OR SPECIAL)
      else if c = chr8 CHR ''0'' then vs_flags cs (flags OR ZEROPAD)
      else (flags, c # cs))"

text \<open>One variadic argument: None where the caller passed too few.\<close>

fun va_arg :: "u32 list \<Rightarrow> (u32 \<times> u32 list) option" where
  "va_arg [] = None"
| "va_arg (a # as) = Some (a, as)"

text \<open>The field width: digits, or \<open>*\<close> and the next argument, whose sign means left justified.\<close>

definition vs_width :: "u8 list \<Rightarrow> u32 list \<Rightarrow> u32 \<Rightarrow> (int \<times> u32 \<times> u8 list \<times> u32 list) option" where
  "vs_width fmt args flags =
     (if is_digit (peek fmt)
      then (let (fw, fmt) = skip_atoi fmt in Some (fw, flags, fmt, args))
      else if peek fmt = chr8 CHR ''*''
      then do {
        (a, args) \<leftarrow> va_arg args;
        let fw = sint a;
        Some (if fw < 0 then (- fw, flags OR LEFT, tl fmt, args) else (fw, flags, tl fmt, args))
      }
      else Some (-1, flags, fmt, args))"

definition vs_precision :: "u8 list \<Rightarrow> u32 list \<Rightarrow> (int \<times> u8 list \<times> u32 list) option" where
  "vs_precision fmt args =
     (if peek fmt = chr8 CHR ''.''
      then do {
        (p, fmt, args) \<leftarrow>
          (let fmt = tl fmt in
           if is_digit (peek fmt) then (let (p, fmt) = skip_atoi fmt in Some (p, fmt, args))
           else if peek fmt = chr8 CHR ''*''
           then do { (a, args) \<leftarrow> va_arg args; Some (sint a, tl fmt, args) }
           else Some (-1, fmt, args));
        Some (if p < 0 then (0, fmt, args) else (p, fmt, args))
      }
      else Some (-1, fmt, args))"

text \<open>The qualifier character, 0 standing for the code's -1 (none).\<close>

definition vs_qualifier :: "u8 list \<Rightarrow> u8 \<times> u8 list" where
  "vs_qualifier fmt =
     (if peek fmt \<in> set (cstr ''hlLZzt'')
      then (let q = peek fmt; fmt = tl fmt in
            if q = chr8 CHR ''l'' \<and> peek fmt = chr8 CHR ''l'' then (chr8 CHR ''L'', tl fmt)
            else (q, fmt))
      else (0, fmt))"

text \<open>The integer argument, narrowed by \<open>h\<close> to a short of the conversion's signedness.\<close>

definition vs_integer :: "u8 \<Rightarrow> u32 \<Rightarrow> u32 \<Rightarrow> u32" where
  "vs_integer qualifier flags a =
     (if qualifier = chr8 CHR ''h''
      then (if flags AND SIGN \<noteq> 0 then scast (ucast a :: u16) else ucast (ucast a :: u16))
      else a)"

text \<open>
  One conversion: the bytes it emits, the memory (changed by \<open>%n\<close> only), the format string
  after it and the arguments left. \<open>done_len\<close> is \<open>str - buf\<close>, the bytes emitted before it.
\<close>

definition vs_convert ::
  "mem \<Rightarrow> nat \<Rightarrow> u8 list \<Rightarrow> u32 list \<Rightarrow> u32 \<Rightarrow> int \<Rightarrow> int \<Rightarrow> u8 \<Rightarrow>
   (u8 list \<times> mem \<times> u8 list \<times> u32 list) option" where
  "vs_convert m done_len fmt args flags field_width precision qualifier =
     (let c = peek fmt; rest = tl fmt in
      if c = chr8 CHR ''c''
      then do {
        (a, args) \<leftarrow> va_arg args;
        let (lead, fw) = (if flags AND LEFT = 0 then pad_loop (field_width - 1) (chr8 CHR '' '')
                          else ([], field_width - 1));
        Some (lead @ [ucast a] @ fst (pad_loop fw (chr8 CHR '' '')), m, rest, args)
      }
      else if c = chr8 CHR ''s''
      then do {
        (a, args) \<leftarrow> va_arg args;
        Some (string_fmt m (unat a) field_width precision flags, m, rest, args)
      }
      else if c = chr8 CHR ''p''
      then do {
        (a, args) \<leftarrow> va_arg args;
        Some (pointer m rest a field_width precision flags, m, dropWhile isalnum rest, args)
      }
      else if c = chr8 CHR ''n''
      then do {
        (a, args) \<leftarrow> va_arg args;
        Some ([], store32 m (unat a) (of_nat done_len), rest, args)
      }
      else if c = chr8 CHR ''%'' then Some ([chr8 CHR ''%''], m, rest, args)
      else if c \<in> set (cstr ''oxXdiu'')
      then do {
        (a, args) \<leftarrow> va_arg args;
        let base = (if c = chr8 CHR ''o'' then 8
                    else if c = chr8 CHR ''x'' \<or> c = chr8 CHR ''X'' then 16 else 10);
        let flags = (if c = chr8 CHR ''x'' then flags OR SMALL
                     else if c = chr8 CHR ''d'' \<or> c = chr8 CHR ''i'' then flags OR SIGN else flags);
        Some (number (vs_integer qualifier flags a) base field_width precision flags, m, rest, args)
      }
      else Some (if fmt \<noteq> [] then ([chr8 CHR ''%'', c], m, rest, args)
                 else ([chr8 CHR ''%''], m, [], args)))"

text \<open>The conversion introduced by a percent sign, from the flags on.\<close>

definition vs_percent ::
  "mem \<Rightarrow> nat \<Rightarrow> u8 list \<Rightarrow> u32 list \<Rightarrow> (u8 list \<times> mem \<times> u8 list \<times> u32 list) option" where
  "vs_percent m done_len fmt args = do {
     let (flags, fmt) = vs_flags fmt 0;
     (field_width, flags, fmt, args) \<leftarrow> vs_width fmt args flags;
     (precision, fmt, args) \<leftarrow> vs_precision fmt args;
     let (qualifier, fmt) = vs_qualifier fmt;
     vs_convert m done_len fmt args flags field_width precision qualifier
   }"

text \<open>Every parsing step leaves a suffix that is no longer than its input.\<close>

lemma skip_atoi_length: "skip_atoi s = (i, s') \<Longrightarrow> length s' \<le> length s"
proof -
  have "skip_atoi_loop s k = (i, s') \<Longrightarrow> length s' \<le> length s" for k
    by (induction s arbitrary: k) (auto split: if_splits simp: le_SucI)
  then show "skip_atoi s = (i, s') \<Longrightarrow> length s' \<le> length s" by (simp add: skip_atoi_def)
qed

lemma vs_flags_length: "vs_flags s f = (f', s') \<Longrightarrow> length s' \<le> length s"
  by (induction s f rule: vs_flags.induct) (auto split: if_splits)

lemma vs_width_length: "vs_width s as f = Some (w, f', s', as') \<Longrightarrow> length s' \<le> length s"
  by (auto simp: vs_width_def Let_def bind_eq_Some_conv dest: skip_atoi_length
      split: if_splits prod.splits)

lemma vs_precision_length: "vs_precision s as = Some (p, s', as') \<Longrightarrow> length s' \<le> length s"
  by (fastforce simp: vs_precision_def Let_def bind_eq_Some_conv dest: skip_atoi_length
      split: if_splits prod.splits)

lemma vs_qualifier_length: "vs_qualifier s = (q, s') \<Longrightarrow> length s' \<le> length s"
  by (auto simp: vs_qualifier_def Let_def split: if_splits)

lemma vs_convert_length:
  "vs_convert m n s as f w p q = Some (out, m', s', as') \<Longrightarrow> length s' \<le> length s"
proof -
  have "length (dropWhile isalnum (tl s)) \<le> length s"
    using length_dropWhile_le [of isalnum "tl s"] by simp
  then show "vs_convert m n s as f w p q = Some (out, m', s', as') \<Longrightarrow> length s' \<le> length s"
    by (auto simp: vs_convert_def Let_def bind_eq_Some_conv case_prod_beta split: if_splits)
qed

lemma vs_percent_length:
  "vs_percent m n fmt as = Some (out, m', s', as') \<Longrightarrow> length s' \<le> length fmt"
  using vs_flags_length [of fmt 0 "fst (vs_flags fmt 0)" "snd (vs_flags fmt 0)"]
  by (auto simp: vs_percent_def Let_def bind_eq_Some_conv case_prod_beta
      dest!: vs_width_length vs_precision_length vs_convert_length
      intro: le_trans [OF _ le_trans [OF vs_qualifier_length [OF surjective_pairing]]])

text \<open>
  The loop over the format string. \<open>out\<close> holds the bytes written so far; None means the format
  consumed more arguments than there were.
\<close>

function vsprintf_loop :: "mem \<Rightarrow> u8 list \<Rightarrow> u8 list \<Rightarrow> u32 list \<Rightarrow> (u8 list \<times> mem) option" where
  "vsprintf_loop m out [] args = Some (out, m)"
| "vsprintf_loop m out (c # fmt) args =
     (if c \<noteq> chr8 CHR ''%'' then vsprintf_loop m (out @ [c]) fmt args
      else (case vs_percent m (length out) fmt args of
              None \<Rightarrow> None
            | Some (o', m', fmt', args') \<Rightarrow> vsprintf_loop m' (out @ o') fmt' args'))"
  by pat_completeness auto
termination
  by (relation "measure (\<lambda>(m, out, fmt, args). length fmt)")
    (auto dest!: vs_percent_length)

text \<open>
  The whole call: the output and its NUL are stored at \<open>buf\<close> and the length is returned. The
  arguments are taken not to point into the buffer.
\<close>

definition vsprintf :: "mem \<Rightarrow> nat \<Rightarrow> u8 list \<Rightarrow> u32 list \<Rightarrow> (mem \<times> nat) option" where
  "vsprintf m buf fmt args =
     map_option (\<lambda>(out, m'). (write_bytes m' buf (out @ [0]), length out))
       (vsprintf_loop m [] fmt args)"

definition sprintf :: "mem \<Rightarrow> nat \<Rightarrow> u8 list \<Rightarrow> u32 list \<Rightarrow> (mem \<times> nat) option" where
  "sprintf m buf fmt args = vsprintf m buf fmt args"

end
