(* ===== verification/Vsprintf_Correct.thy ===== *)
theory Vsprintf_Correct
  imports Vsprintf
begin

text \<open>
  What number formatting and parsing compute. The decimal conversion multiplies by reciprocals
  and shifts where one would divide by ten; it is proved to produce the decimal digits. Field
  width, precision, sign and prefix determine the length of the output, and what is printed in
  base 8, 10 or 16 parses back to the number.
\<close>

section \<open>Digits are the digits of the number\<close>

text \<open>The reference: the digits of a number in a base, least significant first.\<close>

function radix_digits :: "nat \<Rightarrow> nat \<Rightarrow> nat list" where
  "radix_digits b n = n mod b # (if n div b \<noteq> 0 \<and> 1 < b then radix_digits b (n div b) else [])"
  by pat_completeness auto
termination
  by (relation "measure snd") (auto intro!: div_less_dividend intro: Nat.gr0I)

declare radix_digits.simps [simp del]

definition dec_char :: "nat \<Rightarrow> u8" where
  "dec_char d = of_nat (48 + d)"

lemma dchar_of_nat: "d < 10 \<Longrightarrow> dchar (of_nat d) = dec_char d"
proof -
  assume "d < 10"
  then have "d \<in> {0, 1, 2, 3, 4, 5, 6, 7, 8, 9}" by auto
  then show ?thesis by (auto simp: dchar_def dec_char_def)
qed

lemma mul_205_div:
  assumes "x < 1020"
  shows "x * 205 div 2048 = x div (10 :: nat)"
proof -
  define q r where "q = x div 10" and "r = x mod 10"
  have "x = 10 * q + r" "r \<le> 9" unfolding q_def r_def by simp_all
  moreover have "q \<le> 101" using assms unfolding q_def by simp
  ultimately have "2048 * q \<le> x * 205" "x * 205 < 2048 * Suc q" by simp_all
  then show ?thesis unfolding q_def by (rule div_nat_eqI [of _ "x div 10"])
qed

lemma mul_13_div:
  assumes "x < 64"
  shows "x * 13 div 128 = x div (10 :: nat)"
proof -
  define q r where "q = x div 10" and "r = x mod 10"
  have x: "x = 10 * q + r" "r \<le> 9" unfolding q_def r_def by simp_all
  moreover have "q \<le> 5 \<or> q = 6 \<and> r \<le> 3" using assms x by linarith
  ultimately have "128 * q \<le> x * 13" "x * 13 < 128 * Suc q" by auto
  then show ?thesis unfolding q_def by (rule div_nat_eqI [of _ "x div 10"])
qed

lemma div10_205: "x < 1020 \<Longrightarrow> drop_bit 11 (of_nat x * 0xcd :: u32) = of_nat (x div 10)"
  using drop_bit_of_nat_u32 [of "x * 205" 11] mul_205_div [of x] by simp

lemma div10_13: "x < 64 \<Longrightarrow> drop_bit 7 (of_nat x * 0xd :: u32) = of_nat (x div 10)"
  using drop_bit_of_nat_u32 [of "x * 13" 7] mul_13_div [of x] by simp

lemma mod10_u32: "of_nat x - 10 * of_nat (x div 10) = (of_nat (x mod 10) :: u32)"
proof -
  have "(of_nat x :: u32) = of_nat (10 * (x div 10) + x mod 10)" by simp
  then show ?thesis by (simp only: of_nat_add of_nat_mult) simp
qed

text \<open>The nibbles of a number below 100000, as the code takes them apart.\<close>

lemma nibbles_u32:
  assumes "n < 100000"
  defines "q \<equiv> of_nat n :: u32"
  shows "drop_bit 4 q AND 0xf = of_nat (n div 16 mod 16)"
    and "drop_bit 8 q AND 0xf = of_nat (n div 256 mod 16)"
    and "drop_bit 12 q = of_nat (n div 4096)"
    and "q AND 0xf = of_nat (n mod 16)"
proof -
  have and15: "(of_nat x :: u32) AND 0xf = of_nat (x mod 16)" if "x < 2 ^ 32" for x
  proof -
    have "(of_nat x :: u32) AND mask 4 = take_bit 4 (of_nat x)" by (rule take_bit_eq_mask [symmetric])
    also have "\<dots> = of_nat (x mod 16)" by (simp only: take_bit_of_nat) (simp add: take_bit_eq_mod)
    finally show ?thesis by (simp add: mask_eq_exp_minus_1)
  qed
  show "drop_bit 4 q AND 0xf = of_nat (n div 16 mod 16)"
    using assms by (simp add: drop_bit_of_nat_u32 and15)
  show "drop_bit 8 q AND 0xf = of_nat (n div 256 mod 16)"
    using assms by (simp add: drop_bit_of_nat_u32 and15)
  show "drop_bit 12 q = of_nat (n div 4096)"
    using assms by (simp add: drop_bit_of_nat_u32)
  show "q AND 0xf = of_nat (n mod 16)"
    using assms by (simp add: and15)
qed

text \<open>
  The values both conversions compute: from the nibbles of a number below 100000 the four sums
  whose residues modulo 10 are its decimal digits.
\<close>

lemma dec_chain:
  assumes "n < 100000"
  obtains D1 D2 D3 R x0 x1 x2 x3 where
    "drop_bit 4 (of_nat n :: u32) AND 0xf = of_nat D1" "drop_bit 8 (of_nat n :: u32) AND 0xf = of_nat D2"
    "drop_bit 12 (of_nat n :: u32) = of_nat D3" "(of_nat n :: u32) AND 0xf = of_nat R"
    "6 * (of_nat D3 + of_nat D2 + of_nat D1) + of_nat R = (of_nat x0 :: u32)"
    "of_nat (x0 div 10) + 9 * of_nat D3 + 5 * of_nat D2 + of_nat D1 = (of_nat x1 :: u32)"
    "of_nat (x1 div 10) + 2 * of_nat D2 = (of_nat x2 :: u32)"
    "of_nat (x2 div 10) + 4 * of_nat D3 = (of_nat x3 :: u32)"
    "x0 < 1020" "x1 < 1020" "x2 < 64" "x3 < 1020" "D3 < 1020" "x3 div 10 < 10"
    "n = 10 * (x1 + 20 * D2 + 400 * D3) + x0 mod 10"
    "x1 + 20 * D2 + 400 * D3 = 10 * (x2 + 40 * D3) + x1 mod 10"
    "x2 + 40 * D3 = 10 * x3 + x2 mod 10"
    "x1 + 20 * D2 + 400 * D3 \<noteq> 0 \<longleftrightarrow> x1 \<noteq> 0"
proof -
  define D1 where "D1 = n div 16 mod 16"
  define D2 where "D2 = n div 256 mod 16"
  define D3 where "D3 = n div 4096"
  define R where "R = n mod 16"
  define x0 where "x0 = 6 * (D3 + D2 + D1) + R"
  define x1 where "x1 = x0 div 10 + 9 * D3 + 5 * D2 + D1"
  define x2 where "x2 = x1 div 10 + 2 * D2"
  define x3 where "x3 = x2 div 10 + 4 * D3"
  have b: "D1 < 16" "D2 < 16" "D3 < 25" "R < 16"
    using assms by (auto simp: D1_def D2_def D3_def R_def)
  have n: "n = R + 16 * D1 + 256 * D2 + 4096 * D3"
  proof -
    define m1 m2 where "m1 = n div 16" and "m2 = m1 div 16"
    have "D1 = m1 mod 16" "D2 = m2 mod 16" "D3 = m2 div 16"
      unfolding D1_def D2_def D3_def m1_def m2_def by (simp_all add: div_mult2_eq [symmetric])
    then have "n = 16 * m1 + R" "m1 = 16 * m2 + D1" "m2 = 16 * D3 + D2"
      unfolding R_def m1_def m2_def by simp_all
    then show ?thesis by linarith
  qed
  define a0 a1 a2 a3 where "a0 = x0 div 10" and "a1 = x1 div 10" and "a2 = x2 div 10"
    and "a3 = x3 div 10"
  have f: "10 * a0 \<le> x0" "10 * a1 \<le> x1" "10 * a2 \<le> x2" "10 * a3 \<le> x3"
    by (simp_all add: a0_def a1_def a2_def a3_def)
  have x: "x1 = a0 + 9 * D3 + 5 * D2 + D1" "x2 = a1 + 2 * D2" "x3 = a2 + 4 * D3"
    by (simp_all add: x1_def x2_def x3_def a0_def a1_def a2_def)
  have x0: "x0 = 6 * D3 + 6 * D2 + 6 * D1 + R" by (simp add: x0_def)
  have bx0: "x0 < 1020" using b x0 by linarith
  have bx1: "x1 < 1020" using b f x x0 by linarith
  have bx2: "x2 < 64" using b f x x0 by linarith
  have bx3: "x3 < 1020" using b f x bx2 by linarith
  have x4: "x3 div 10 < 10"
    using assms n f x x0 unfolding a3_def [symmetric] by linarith
  note nib = nibbles_u32 [OF assms, folded D1_def D2_def D3_def R_def]
  have w: "6 * (of_nat D3 + of_nat D2 + of_nat D1) + of_nat R = (of_nat x0 :: u32)"
    "of_nat (x0 div 10) + 9 * of_nat D3 + 5 * of_nat D2 + of_nat D1 = (of_nat x1 :: u32)"
    "of_nat (x1 div 10) + 2 * of_nat D2 = (of_nat x2 :: u32)"
    "of_nat (x2 div 10) + 4 * of_nat D3 = (of_nat x3 :: u32)"
    by (simp_all add: x0_def x1_def x2_def x3_def)
  have s0: "n = 10 * (x1 + 20 * D2 + 400 * D3) + x0 mod 10" by (simp add: n x0_def x1_def)
  have s1: "x1 + 20 * D2 + 400 * D3 = 10 * (x2 + 40 * D3) + x1 mod 10" by (simp add: x2_def)
  have s2: "x2 + 40 * D3 = 10 * x3 + x2 mod 10" by (simp add: x3_def)
  have e: "x1 + 20 * D2 + 400 * D3 \<noteq> 0 \<longleftrightarrow> x1 \<noteq> 0" by (auto simp: x1_def)
  have bD: "D3 < 1020" using b by simp
  show thesis by (rule that [OF nib w bx0 bx1 bx2 bx3 bD x4 s0 s1 s2 e])
qed

lemma radix_10_step:
  "n = 10 * k + r \<Longrightarrow> r < 10 \<Longrightarrow>
   radix_digits 10 n = r # (if k \<noteq> 0 then radix_digits 10 k else [])"
  by (subst radix_digits.simps) simp

lemma div_mod_10_step: "n = 10 * k + r \<Longrightarrow> r < (10 :: nat) \<Longrightarrow> n div 10 = k \<and> n mod 10 = r"
  by simp

lemma put_dec_trunc_correct:
  assumes "n < 100000"
  shows "put_dec_trunc (of_nat n) = map dec_char (radix_digits 10 n)"
proof -
  obtain D1 D2 D3 R x0 x1 x2 x3 where
    nib: "drop_bit 4 (of_nat n :: u32) AND 0xf = of_nat D1" "drop_bit 8 (of_nat n :: u32) AND 0xf = of_nat D2"
    "drop_bit 12 (of_nat n :: u32) = of_nat D3" "(of_nat n :: u32) AND 0xf = of_nat R"
    and w: "6 * (of_nat D3 + of_nat D2 + of_nat D1) + of_nat R = (of_nat x0 :: u32)"
    "of_nat (x0 div 10) + 9 * of_nat D3 + 5 * of_nat D2 + of_nat D1 = (of_nat x1 :: u32)"
    "of_nat (x1 div 10) + 2 * of_nat D2 = (of_nat x2 :: u32)"
    "of_nat (x2 div 10) + 4 * of_nat D3 = (of_nat x3 :: u32)"
    and bx: "x0 < 1020" "x1 < 1020" "x2 < 64" "x3 < 1020" "D3 < 1020" and x4: "x3 div 10 < 10"
    and step: "n = 10 * (x1 + 20 * D2 + 400 * D3) + x0 mod 10"
    "x1 + 20 * D2 + 400 * D3 = 10 * (x2 + 40 * D3) + x1 mod 10"
    "x2 + 40 * D3 = 10 * x3 + x2 mod 10"
    and e: "x1 + 20 * D2 + 400 * D3 \<noteq> 0 \<longleftrightarrow> x1 \<noteq> 0"
    using assms by (rule dec_chain)
  have z: "(of_nat k :: u32) = 0 \<longleftrightarrow> k = 0" if "k < 1020" for k
    by (rule of_nat_u32_eq_0) (use that in simp)
  have z': "x3 div 10 < 1020" "x2 < 1020" using bx by auto
  have "put_dec_trunc (of_nat n) = dec_char (x0 mod 10) #
      (if x1 \<noteq> 0 then dec_char (x1 mod 10) #
        (if x2 \<noteq> 0 \<or> D3 \<noteq> 0 then dec_char (x2 mod 10) #
          (if x3 \<noteq> 0 then dec_char (x3 mod 10) #
            (if x3 div 10 \<noteq> 0 then [dchar (of_nat (x3 div 10))] else [])
           else []) else []) else [])"
    unfolding put_dec_trunc_def Let_def nib w(1) div10_205 [OF bx(1)] w(2) div10_205 [OF bx(2)]
      w(3) div10_13 [OF bx(3)] w(4) div10_205 [OF bx(4)] mod10_u32
      z [OF bx(2)] z [OF z'(1)] z [OF z'(2)] z [OF bx(5)] z [OF bx(4)]
    by (simp add: dchar_of_nat)
  also have "\<dots> = map dec_char (radix_digits 10 n)"
  proof -
    have "radix_digits 10 x3 = x3 mod 10 # (if x3 div 10 \<noteq> 0 then radix_digits 10 (x3 div 10) else [])"
      by (rule radix_10_step) simp_all
    moreover have "radix_digits 10 (x3 div 10) = [x3 div 10]"
      using x4 by (subst radix_digits.simps) simp
    moreover have "x2 + 40 * D3 \<noteq> 0 \<longleftrightarrow> x2 \<noteq> 0 \<or> D3 \<noteq> 0" by simp
    ultimately show ?thesis
      using x4 e radix_10_step [OF step(1)] radix_10_step [OF step(2)] radix_10_step [OF step(3)]
      by (simp add: dchar_of_nat)
  qed
  finally show ?thesis .
qed

lemma put_dec_full_correct:
  assumes "n < 100000"
  shows "put_dec_full (of_nat n) = map (\<lambda>i. dec_char (n div 10 ^ i mod 10)) [0, 1, 2, 3, 4]"
proof -
  obtain D1 D2 D3 R x0 x1 x2 x3 where
    nib: "drop_bit 4 (of_nat n :: u32) AND 0xf = of_nat D1" "drop_bit 8 (of_nat n :: u32) AND 0xf = of_nat D2"
    "drop_bit 12 (of_nat n :: u32) = of_nat D3" "(of_nat n :: u32) AND 0xf = of_nat R"
    and w: "6 * (of_nat D3 + of_nat D2 + of_nat D1) + of_nat R = (of_nat x0 :: u32)"
    "of_nat (x0 div 10) + 9 * of_nat D3 + 5 * of_nat D2 + of_nat D1 = (of_nat x1 :: u32)"
    "of_nat (x1 div 10) + 2 * of_nat D2 = (of_nat x2 :: u32)"
    "of_nat (x2 div 10) + 4 * of_nat D3 = (of_nat x3 :: u32)"
    and bx: "x0 < 1020" "x1 < 1020" "x2 < 64" "x3 < 1020" "D3 < 1020" and x4: "x3 div 10 < 10"
    and step: "n = 10 * (x1 + 20 * D2 + 400 * D3) + x0 mod 10"
    "x1 + 20 * D2 + 400 * D3 = 10 * (x2 + 40 * D3) + x1 mod 10"
    "x2 + 40 * D3 = 10 * x3 + x2 mod 10"
    and e: "x1 + 20 * D2 + 400 * D3 \<noteq> 0 \<longleftrightarrow> x1 \<noteq> 0"
    using assms by (rule dec_chain)
  have "put_dec_full (of_nat n) =
      [dec_char (x0 mod 10), dec_char (x1 mod 10), dec_char (x2 mod 10), dec_char (x3 mod 10),
       dec_char (x3 div 10)]"
    unfolding put_dec_full_def Let_def nib w(1) div10_205 [OF bx(1)] w(2) div10_205 [OF bx(2)]
      w(3) div10_13 [OF bx(3)] w(4) div10_205 [OF bx(4)] mod10_u32
    using x4 by (simp add: dchar_of_nat)
  moreover have "n div 10 = x1 + 20 * D2 + 400 * D3" "n mod 10 = x0 mod 10"
    using div_mod_10_step [OF step(1)] by simp_all
  moreover have "(x1 + 20 * D2 + 400 * D3) div 10 = x2 + 40 * D3"
    "(x1 + 20 * D2 + 400 * D3) mod 10 = x1 mod 10"
    using div_mod_10_step [OF step(2)] by simp_all
  moreover have "(x2 + 40 * D3) div 10 = x3" "(x2 + 40 * D3) mod 10 = x2 mod 10"
    using div_mod_10_step [OF step(3)] by simp_all
  moreover have "map (\<lambda>i. dec_char (n div 10 ^ i mod 10)) [0, 1, 2, 3, 4] =
      [dec_char (n mod 10), dec_char (n div 10 mod 10), dec_char (n div 10 div 10 mod 10),
       dec_char (n div 10 div 10 div 10 mod 10), dec_char (n div 10 div 10 div 10 div 10 mod 10)]"
    by (simp add: div_mult2_eq [symmetric])
  ultimately show ?thesis using x4 by simp
qed

text \<open>Unfolding five digits at once.\<close>

lemma radix_10_five:
  assumes "100000 \<le> n"
  shows "radix_digits 10 n =
    map (\<lambda>i. n mod 100000 div 10 ^ i mod 10) [0, 1, 2, 3, 4] @ radix_digits 10 (n div 100000)"
proof -
  have u: "radix_digits 10 k = k mod 10 # radix_digits 10 (k div 10)" if "10 \<le> k" for k
    using that by (subst radix_digits.simps) (simp add: div_eq_0_iff)
  have "radix_digits 10 n = [n mod 10, n div 10 mod 10, n div 100 mod 10, n div 1000 mod 10,
      n div 10000 mod 10] @ radix_digits 10 (n div 100000)"
    using assms u [of n] u [of "n div 10"] u [of "n div 100"] u [of "n div 1000"] u [of "n div 10000"]
    by (simp add: div_mult2_eq [symmetric])
  moreover have m: "n mod 100000 div m mod 10 = n div m mod 10"
    if "m * k = 100000" "10 dvd k" for m k
  proof -
    have "0 < m" using that by (cases m) simp_all
    then have "n mod (m * k) div m = n div m mod k" by (simp add: mod_mult2_eq)
    then show ?thesis using that by (simp add: mod_mod_cancel)
  qed
  ultimately show ?thesis
    using m [of 1 100000] m [of 10 10000] m [of 100 1000] m [of 1000 100] m [of 10000 10] by simp
qed

lemma put_dec_radix:
  "put_dec num = map dec_char (radix_digits 10 (unat num))"
proof (induction num rule: put_dec.induct)
  case (1 num)
  show ?case
  proof (cases "num < 100000")
    case True
    then have "put_dec_trunc (of_nat (unat num)) = map dec_char (radix_digits 10 (unat num))"
      by (intro put_dec_trunc_correct) (simp add: word_less_nat_alt)
    with True show ?thesis by (simp add: put_dec.simps)
  next
    case False
    then have ge: "100000 \<le> unat num" by (simp add: word_less_nat_alt)
    have "put_dec_full (num mod 100000) = put_dec_full (of_nat (unat num mod 100000))"
    proof -
      have "unat num mod 100000 = unat (num mod 100000)" by (simp add: unat_mod)
      then show ?thesis by simp
    qed
    also have "\<dots> = map (\<lambda>i. dec_char (unat num mod 100000 div 10 ^ i mod 10)) [0, 1, 2, 3, 4]"
      by (rule put_dec_full_correct) simp
    finally show ?thesis
      using 1 [OF False] False radix_10_five [OF ge] by (simp add: put_dec.simps [of num] unat_div)
  qed
qed

section \<open>Base 8 and 16\<close>

lemma unat_and_mask_u8: "unat (w AND mask k :: u8) = unat w mod 2 ^ k"
proof -
  have "unat (w AND mask k) = take_bit k (unat w)"
    by (simp only: take_bit_eq_mask [symmetric] unsigned_take_bit_eq)
  then show ?thesis by (simp only: take_bit_eq_mod)
qed

lemma unat_ucast_u32_u8: "unat (ucast (w :: u32) :: u8) = unat w mod 256"
  by (simp add: unsigned_ucast_eq take_bit_eq_mod)

lemma shift_digit_index:
  "base = 8 \<or> base = 16 \<Longrightarrow>
   unat (ucast (num :: u32) AND (of_nat (base - 1) :: u8)) = unat num mod base"
  using unat_and_mask_u8 [of "ucast num" 3] unat_and_mask_u8 [of "ucast num" 4]
  by (auto simp: unat_ucast_u32_u8 mask_eq_exp_minus_1 mod_mod_cancel)

lemma shift_digits_radix:
  "base = 8 \<or> base = 16 \<Longrightarrow>
   shift_digits num base locase = map (\<lambda>d. hex_digits ! d OR locase) (radix_digits base (unat num))"
proof (induction num base locase rule: shift_digits.induct)
  case (1 num base locase)
  let ?n = "drop_bit (base_shift base) num"
  have u: "unat ?n = unat num div base"
    using "1.prems" by (auto simp: base_shift_def drop_bit_eq_div unat_div)
  then have z: "?n \<noteq> 0 \<longleftrightarrow> unat num div base \<noteq> 0" by (metis unat_eq_zero)
  from "1.prems" have "1 < base" by auto
  with 1 u z shift_digit_index [OF "1.prems", of num] show ?case
    by (simp add: shift_digits.simps [of num] radix_digits.simps [of base "unat num"] Let_def)
qed

section \<open>Widths\<close>

lemma pad_loop_eq: "pad_loop sz c = (replicate (nat sz) c, min (sz - 1) (- 1))"
proof (induction sz c rule: pad_loop.induct)
  case (1 sz c)
  show ?case
  proof (cases "sz - 1 \<ge> 0")
    case True
    moreover have "nat sz = Suc (nat (sz - 1))" using True by simp
    ultimately show ?thesis using 1 by (simp add: pad_loop.simps [of sz])
  next
    case False
    then show ?thesis by (simp add: pad_loop.simps [of sz])
  qed
qed

lemma width_loop_eq:
  "width_loop len fw = (replicate (nat (fw - len)) (chr8 CHR '' ''), min (fw - 1) (len - 1))"
proof (induction len fw rule: width_loop.induct)
  case (1 len fw)
  show ?case
  proof (cases "len < fw")
    case True
    moreover have "nat (fw - len) = Suc (nat (fw - 1 - len))" using True by simp
    ultimately show ?thesis using 1 by (simp add: width_loop.simps [of len fw])
  next
    case False
    then show ?thesis by (simp add: width_loop.simps [of len fw])
  qed
qed

lemma string_out_length:
  "length (string_out s fw flags) = max (nat fw) (length s)"
  by (auto simp: string_out_def Let_def width_loop_eq max_def)

text \<open>The columns a conversion spends on the sign and the base prefix.\<close>

definition number_extra :: "u32 \<Rightarrow> nat \<Rightarrow> u32 \<Rightarrow> int" where
  "number_extra num base type =
     (if type AND SIGN \<noteq> 0 \<and> (num <s 0 \<or> type AND PLUS \<noteq> 0 \<or> type AND SPACE \<noteq> 0) then 1 else 0) +
     (if type AND SPECIAL \<noteq> 0 \<and> base \<noteq> 10 then if base = 16 then 2 else 1 else 0)"

definition number_magnitude :: "u32 \<Rightarrow> u32 \<Rightarrow> u32" where
  "number_magnitude num type = (if type AND SIGN \<noteq> 0 \<and> num <s 0 then - num else num)"

lemma number_tmp_nonempty: "number_tmp num base locase \<noteq> []"
  by (simp add: number_tmp_def put_dec_radix shift_digits.simps [of num]
      radix_digits.simps [of 10])

lemma type_bits:
  "(type AND NOT ZEROPAD) AND SIGN = type AND SIGN" "(type AND NOT ZEROPAD) AND PLUS = type AND PLUS"
  "(type AND NOT ZEROPAD) AND SPACE = type AND SPACE" "(type AND NOT ZEROPAD) AND LEFT = type AND LEFT"
  "(type AND NOT ZEROPAD) AND ZEROPAD = 0"
  by (simp_all add: flag_defs and.assoc)

lemma number_sign_cases:
  "number_sign num type sz =
     (let sign = (if type AND SIGN \<noteq> 0
                  then if num <s 0 then chr8 CHR ''-''
                       else if type AND PLUS \<noteq> 0 then chr8 CHR ''+''
                       else if type AND SPACE \<noteq> 0 then chr8 CHR '' '' else 0 else 0)
      in (sign, number_magnitude num type, if sign \<noteq> 0 then sz - 1 else sz))"
  by (simp add: number_sign_def number_magnitude_def)

lemma number_pads_length:
  "number_pads sz type = (l, m, t) \<Longrightarrow> length l + length m + length t = nat sz"
  by (auto simp: number_pads_def pad_loop_eq Let_def split: if_splits)

text \<open>Every part of the output of \<open>number\<close> but the digits is padding, sign or prefix.\<close>

lemma number_length_int:
  "int (length (number num base fw precision type)) =
   max fw (number_extra num base type +
     max precision (int (length (number_tmp (number_magnitude num type) base (ucast (type AND SMALL))))))"
proof -
  define type' where "type' = (if type AND LEFT \<noteq> 0 then type AND NOT ZEROPAD else type)"
  have t: "type' AND SIGN = type AND SIGN" "type' AND PLUS = type AND PLUS"
    "type' AND SPACE = type AND SPACE" by (simp_all add: type'_def type_bits)
  define tmp where "tmp = number_tmp (number_magnitude num type) base (ucast (type AND SMALL))"
  have "tmp \<noteq> []" by (simp add: tmp_def number_tmp_nonempty)
  then have i: "0 < int (length tmp)" by simp
  obtain sign sz where sgn: "number_sign num type' fw = (sign, number_magnitude num type, sz)"
    and sz: "sz = fw - (if sign \<noteq> 0 then 1 else 0)"
    and sign: "sign \<noteq> 0 \<longleftrightarrow> type AND SIGN \<noteq> 0 \<and> (num <s 0 \<or> type AND PLUS \<noteq> 0 \<or> type AND SPACE \<noteq> 0)"
    by (simp add: number_sign_cases number_magnitude_def t Let_def)
  define need where "need \<longleftrightarrow> type AND SPECIAL \<noteq> 0 \<and> base \<noteq> 10"
  define sz' where "sz' = (if need then if base = 16 then sz - 1 - 1 else sz - 1 else sz)"
  define P where "P = (if int (length tmp) > precision then int (length tmp) else precision)"
  obtain l m t where pads: "number_pads (sz' - P) type' = (l, m, t)" by (metis prod_cases3)
  have len: "int (length l) + int (length m) + int (length t) = int (nat (sz' - P))"
    using number_pads_length [OF pads] by linarith
  have extra: "number_extra num base type =
      (if sign \<noteq> 0 then 1 else 0) + (if need then if base = 16 then 2 else 1 else 0)"
    by (simp add: number_extra_def sign need_def)
  have "number num base fw precision type =
      l @ (if sign \<noteq> 0 then [sign] else []) @
      (if need then chr8 CHR ''0'' # (if base = 16 then [chr8 CHR ''X'' OR ucast (type AND SMALL)] else [])
       else []) @ m @ fst (pad_loop (P - int (length tmp)) (chr8 CHR ''0'')) @ rev tmp @ t"
    unfolding number_def Let_def type'_def [symmetric] sgn prod.case need_def [symmetric]
      tmp_def [symmetric] sz'_def [symmetric] P_def [symmetric] pads by simp
  then have "int (length (number num base fw precision type)) =
      (int (length l) + int (length m) + int (length t)) + number_extra num base type
        + int (nat (P - int (length tmp))) + int (length tmp)"
    by (simp add: extra pad_loop_eq)
  also have "\<dots> = int (nat (sz' - P)) + number_extra num base type
        + int (nat (P - int (length tmp))) + int (length tmp)"
    by (simp only: len)
  also have "\<dots> = max fw (number_extra num base type + max precision (int (length tmp)))"
    using i by (auto simp: sz'_def sz extra P_def)
  finally show ?thesis by (simp add: tmp_def)
qed

section \<open>What is printed parses back\<close>

lemma strtoul_loop_map:
  assumes "\<forall>d \<in> set ds. isxdigit (f d) \<and> digit_value (f d) = of_nat d \<and> d < b" and "b \<le> 16"
  shows "strtoul_loop (map f ds @ rest) (of_nat b) (of_nat r) =
    strtoul_loop rest (of_nat b) (of_nat (foldl (\<lambda>r d. r * b + d) r ds))"
  using assms
proof (induction ds arbitrary: r)
  case (Cons d ds)
  then have "(of_nat d :: u32) < of_nat b"
    by (simp add: word_less_nat_alt unat_of_nat_u32)
  with Cons show ?case
    using Cons.IH [of "r * b + d"] by simp
qed simp

lemma radix_digits_less: "1 < b \<Longrightarrow> d \<in> set (radix_digits b n) \<Longrightarrow> d < b"
  by (induction b n rule: radix_digits.induct)
    (subst (asm) (2) radix_digits.simps, auto split: if_splits)

lemma radix_digits_value:
  "1 < b \<Longrightarrow> foldl (\<lambda>r d. r * b + d) 0 (rev (radix_digits b n)) = n"
proof (induction b n rule: radix_digits.induct)
  case (1 b n)
  then show ?case
    by (cases "n div b = 0") (auto simp: radix_digits.simps [of b n] div_eq_0_iff)
qed

lemma radix_digits_last: "1 < b \<Longrightarrow> n \<noteq> 0 \<Longrightarrow> last (radix_digits b n) \<noteq> 0"
proof (induction b n rule: radix_digits.induct)
  case (1 b n)
  show ?case
  proof (cases "n div b = 0")
    case True
    with 1 have "n mod b = n" by (auto simp: div_eq_0_iff)
    with True 1 show ?thesis by (simp add: radix_digits.simps [of b n])
  next
    case False
    have "radix_digits b (n div b) \<noteq> []" by (simp add: radix_digits.simps [of b "n div b"])
    with False 1 show ?thesis by (simp add: radix_digits.simps [of b n])
  qed
qed

text \<open>The digit characters: decimal, and hexadecimal in upper or lower case.\<close>

lemma dec_char_ok: "d < 10 \<Longrightarrow> isxdigit (dec_char d) \<and> digit_value (dec_char d) = of_nat d"
proof -
  assume "d < 10"
  then have "d \<in> {0, 1, 2, 3, 4, 5, 6, 7, 8, 9}" by auto
  then show ?thesis
    by (auto simp: dec_char_def isxdigit_iff digit_value_def isdigit_iff)
qed

lemma hex_digits_code:
  "hex_digits = [48, 49, 50, 51, 52, 53, 54, 55, 56, 57, 65, 66, 67, 68, 69, 70]"
  by (simp add: hex_digits_def)

lemma hex_digits_lower:
  "map (\<lambda>c. c OR 0x20) hex_digits =
   [48, 49, 50, 51, 52, 53, 54, 55, 56, 57, 97, 98, 99, 100, 101, 102]"
  by (simp add: hex_digits_code)

lemma hex_char_values:
  "map (\<lambda>c. (isxdigit c, digit_value c)) (hex_digits @ map (\<lambda>c. c OR 0x20) hex_digits) =
   map (\<lambda>d. (True, of_nat d)) ([0..<16] @ [0..<16])"
  unfolding hex_digits_lower hex_digits_code
  by (simp add: isxdigit_iff digit_value_def isdigit_iff islower_iff toupper_def
      upt_conv_Cons)

lemma hex_char_ok:
  assumes "d < 16" and "l = 0 \<or> l = 0x20"
  shows "isxdigit (hex_digits ! d OR l) \<and> digit_value (hex_digits ! d OR l) = of_nat d"
proof -
  have len: "length hex_digits = 16" by (simp add: hex_digits_code)
  define k where "k = (if l = 0 then d else 16 + d)"
  let ?xs = "hex_digits @ map (\<lambda>c. c OR 0x20) hex_digits" and ?ys = "[0..<16] @ [0..<16]"
  let ?g = "\<lambda>c. (isxdigit c, digit_value c)" and ?h = "\<lambda>d. (True, of_nat d :: u32)"
  have k: "?xs ! k = hex_digits ! d OR l" "?ys ! k = d" "k < 32"
    using assms len by (auto simp: k_def nth_append)
  have "?g (?xs ! k) = map ?g ?xs ! k" using k(3) len by (intro nth_map [symmetric]) simp
  also have "\<dots> = map ?h ?ys ! k" by (simp only: hex_char_values)
  also have "\<dots> = ?h (?ys ! k)" using k(3) by (intro nth_map) simp
  finally show ?thesis unfolding k by simp
qed

text \<open>
  The text printed for a number, without width, sign or prefix, followed by anything that does
  not continue it.
\<close>

lemma number_plain:
  "type = 0 \<or> type = SMALL \<Longrightarrow>
   number num base (- 1) (- 1) type = rev (number_tmp num base (ucast type))"
  by (elim disjE; simp add: number_def number_sign_def number_pads_def pad_loop_eq flag_defs)

lemma simple_strtoul_digits:
  assumes base: "1 < b" "b \<le> 16"
    and f: "\<And>d. d < b \<Longrightarrow> isxdigit (f d) \<and> digit_value (f d) = of_nat d"
    and n: "n \<noteq> 0" "n < 2 ^ 32"
    and rest: "rest = [] \<or> \<not> isxdigit (hd rest)"
  shows "simple_strtoul (rev (map f (radix_digits b n)) @ rest) (of_nat b) = (of_nat n, rest)"
proof -
  let ?ds = "rev (radix_digits b n)"
  have ok: "\<forall>d \<in> set ?ds. isxdigit (f d) \<and> digit_value (f d) = of_nat d \<and> d < b"
    using f radix_digits_less [OF base(1)] by simp
  obtain d ds where ds: "?ds = d # ds" "d \<noteq> 0" "d < b"
    using radix_digits_last [OF base(1) n(1)] radix_digits_less [OF base(1)]
    by (metis hd_rev list.sel(1) neq_Nil_conv radix_digits.simps rev_is_Nil_conv list.distinct(1)
        list.set_intros(1) set_rev)
  have "digit_value (f d) \<noteq> 0"
    using f [OF ds(3)] ds(2,3) base(2) by (simp add: of_nat_u32_eq_0)
  then have c: "f d \<noteq> chr8 CHR ''0''" by (auto simp: digit_value_def isdigit_iff)
  have b0: "(of_nat b :: u32) \<noteq> 0" using base by (simp add: of_nat_u32_eq_0)
  have "strtoul_loop (map f ?ds @ rest) (of_nat b) 0 = strtoul_loop rest (of_nat b) (of_nat n)"
    using strtoul_loop_map [OF ok base(2), of rest 0] radix_digits_value [OF base(1)] by simp
  moreover have "strtoul_loop rest (of_nat b) (of_nat n) = (of_nat n, rest)"
    using rest by (cases rest) auto
  ultimately show ?thesis
    using c b0 by (simp add: simple_strtoul_def strtoul_prefix_def rev_map ds(1))
qed

section \<open>Properties\<close>

text \<open>
  The decimal conversion, which works on nibbles with reciprocal multiplications and shifts
  instead of divisions, emits exactly the decimal digits of every 32-bit number, least
  significant first and without leading zeros.
\<close>

theorem put_dec_correct:
  "put_dec num = map (\<lambda>d. of_nat (48 + d)) (radix_digits 10 (unat num))"
  by (simp add: put_dec_radix dec_char_def [abs_def])

text \<open>
  The length of a formatted number is the field width or, where that is larger, the room its
  sign, prefix and digits (or precision) need: padding never truncates and never adds more.
\<close>

theorem number_length:
  "int (length (number num base fw precision type)) =
   max fw (number_extra num base type +
     max precision (int (length (number_tmp (number_magnitude num type) base (ucast (type AND SMALL))))))"
  by (rule number_length_int)

lemma number_read_back:
  assumes "base \<in> {8, 10, 16}" and "type \<in> {0, SMALL}"
    and "rest = [] \<or> \<not> isxdigit (hd rest) \<and> hd rest \<noteq> chr8 CHR ''x''"
  shows "simple_strtoul (number num base (- 1) (- 1) type @ rest) (of_nat base) = (num, rest)"
proof (cases "num = 0")
  case True
  have "strtoul_loop rest (of_nat base) 0 = (0, rest)" using assms(3) by (cases rest) auto
  moreover have "peek rest \<noteq> chr8 CHR ''x''" using assms(3) by (cases rest) auto
  moreover have "(of_nat base :: u32) \<noteq> 0" using assms(1) by auto
  moreover have "type = 0 \<or> type = SMALL" using assms(2) by simp
  ultimately show ?thesis
    using True by (simp add: number_plain number_tmp_def simple_strtoul_def strtoul_prefix_def)
next
  case False
  let ?f = "if base = 10 then dec_char else (\<lambda>d. hex_digits ! d OR ucast type)"
  have l: "ucast type = (0 :: u8) \<or> ucast type = (0x20 :: u8)" using assms(2) by (auto simp: flag_defs)
  have tmp: "number_tmp num base (ucast type) = map ?f (radix_digits base (unat num))"
    using assms(1) False by (auto simp: number_tmp_def put_dec_radix shift_digits_radix)
  have f: "isxdigit (?f d) \<and> digit_value (?f d) = of_nat d" if "d < base" for d
  proof (cases "base = 10")
    case True
    with that show ?thesis by (simp add: dec_char_ok)
  next
    case False
    with that assms(1) have "d < 16" by auto
    then show ?thesis using False hex_char_ok [OF _ l] by simp
  qed
  have b: "1 < base" "base \<le> 16" using assms(1) by auto
  have n: "unat num \<noteq> 0" "unat num < 2 ^ 32" using False by (simp_all add: unat_eq_zero)
  have r: "rest = [] \<or> \<not> isxdigit (hd rest)" using assms(3) by blast
  have "simple_strtoul (rev (map ?f (radix_digits base (unat num))) @ rest) (of_nat base) =
      (of_nat (unat num), rest)"
    by (rule simple_strtoul_digits [OF b f n r])
  moreover have "type = 0 \<or> type = SMALL" using assms(2) by simp
  ultimately show ?thesis by (simp add: number_plain tmp)
qed

text \<open>
  C10: a number printed in base 8, 10 or 16, in upper or lower case, parses back to itself with
  \<open>simple_strtoul\<close>, which stops exactly where the number ends.
\<close>

theorem number_strtoul_roundtrip:
  assumes "base \<in> {8, 10, 16}" and "type \<in> {0, SMALL}"
    and "rest = [] \<or> \<not> isxdigit (hd rest) \<and> hd rest \<noteq> chr8 CHR ''x''"
  shows "simple_strtoul (number num base (- 1) (- 1) type @ rest) (of_nat base) = (num, rest)"
  using assms by (rule number_read_back)

theorem number_strtoul_roundtrip_witness:
  "simple_strtoul (number 48879 16 (- 1) (- 1) SMALL @ cstr '' rest'') 16 = (48879, cstr '' rest'')"
proof -
  have "cstr '' rest'' = [] \<or> \<not> isxdigit (hd (cstr '' rest'')) \<and> hd (cstr '' rest'') \<noteq> chr8 CHR ''x''"
    by (simp add: isxdigit_iff)
  then show ?thesis using number_strtoul_roundtrip [of 16 SMALL "cstr '' rest''" 48879] by simp
qed

end
