(* ===== verification/Crc.thy ===== *)
theory Crc
  imports CMem
begin

text \<open>
  The checksums: CRC-32 (\<open>lib_generic/crc32.c\<close>), which protects the environment and the image
  headers, and the CRC-16 of the serial transfer protocols (\<open>lib_generic/crc16.c\<close>). Both are
  driven by a 256-entry table; the lemmas reduce them to the shift register they tabulate, show
  that a checksum can be taken in pieces, and that a damaged byte is always noticed.
\<close>

section \<open>CRC-32\<close>

text \<open>The code that made the table: the polynomial from its terms, eight steps per entry.\<close>

definition crc_terms :: "nat list" where
  "crc_terms = [0, 1, 2, 4, 5, 7, 8, 10, 11, 12, 16, 22, 23, 26]"

definition crc_poly :: u32 where
  "crc_poly = foldl (\<lambda>poly p. poly OR push_bit (31 - p) 1) 0 crc_terms"

definition crc_shift :: "u32 \<Rightarrow> u32" where
  "crc_shift c = (if c AND 1 \<noteq> 0 then crc_poly XOR drop_bit 1 c else drop_bit 1 c)"

definition make_crc_table :: "u32 list" where
  "make_crc_table = map (\<lambda>n. (crc_shift ^^ 8) (of_nat n)) [0..<256]"

definition crc_table :: "u32 list" where
  "crc_table = [
    0x00000000, 0x77073096, 0xee0e612c, 0x990951ba, 0x076dc419, 0x706af48f, 0xe963a535, 0x9e6495a3,
    0x0edb8832, 0x79dcb8a4, 0xe0d5e91e, 0x97d2d988, 0x09b64c2b, 0x7eb17cbd, 0xe7b82d07, 0x90bf1d91,
    0x1db71064, 0x6ab020f2, 0xf3b97148, 0x84be41de, 0x1adad47d, 0x6ddde4eb, 0xf4d4b551, 0x83d385c7,
    0x136c9856, 0x646ba8c0, 0xfd62f97a, 0x8a65c9ec, 0x14015c4f, 0x63066cd9, 0xfa0f3d63, 0x8d080df5,
    0x3b6e20c8, 0x4c69105e, 0xd56041e4, 0xa2677172, 0x3c03e4d1, 0x4b04d447, 0xd20d85fd, 0xa50ab56b,
    0x35b5a8fa, 0x42b2986c, 0xdbbbc9d6, 0xacbcf940, 0x32d86ce3, 0x45df5c75, 0xdcd60dcf, 0xabd13d59,
    0x26d930ac, 0x51de003a, 0xc8d75180, 0xbfd06116, 0x21b4f4b5, 0x56b3c423, 0xcfba9599, 0xb8bda50f,
    0x2802b89e, 0x5f058808, 0xc60cd9b2, 0xb10be924, 0x2f6f7c87, 0x58684c11, 0xc1611dab, 0xb6662d3d,
    0x76dc4190, 0x01db7106, 0x98d220bc, 0xefd5102a, 0x71b18589, 0x06b6b51f, 0x9fbfe4a5, 0xe8b8d433,
    0x7807c9a2, 0x0f00f934, 0x9609a88e, 0xe10e9818, 0x7f6a0dbb, 0x086d3d2d, 0x91646c97, 0xe6635c01,
    0x6b6b51f4, 0x1c6c6162, 0x856530d8, 0xf262004e, 0x6c0695ed, 0x1b01a57b, 0x8208f4c1, 0xf50fc457,
    0x65b0d9c6, 0x12b7e950, 0x8bbeb8ea, 0xfcb9887c, 0x62dd1ddf, 0x15da2d49, 0x8cd37cf3, 0xfbd44c65,
    0x4db26158, 0x3ab551ce, 0xa3bc0074, 0xd4bb30e2, 0x4adfa541, 0x3dd895d7, 0xa4d1c46d, 0xd3d6f4fb,
    0x4369e96a, 0x346ed9fc, 0xad678846, 0xda60b8d0, 0x44042d73, 0x33031de5, 0xaa0a4c5f, 0xdd0d7cc9,
    0x5005713c, 0x270241aa, 0xbe0b1010, 0xc90c2086, 0x5768b525, 0x206f85b3, 0xb966d409, 0xce61e49f,
    0x5edef90e, 0x29d9c998, 0xb0d09822, 0xc7d7a8b4, 0x59b33d17, 0x2eb40d81, 0xb7bd5c3b, 0xc0ba6cad,
    0xedb88320, 0x9abfb3b6, 0x03b6e20c, 0x74b1d29a, 0xead54739, 0x9dd277af, 0x04db2615, 0x73dc1683,
    0xe3630b12, 0x94643b84, 0x0d6d6a3e, 0x7a6a5aa8, 0xe40ecf0b, 0x9309ff9d, 0x0a00ae27, 0x7d079eb1,
    0xf00f9344, 0x8708a3d2, 0x1e01f268, 0x6906c2fe, 0xf762575d, 0x806567cb, 0x196c3671, 0x6e6b06e7,
    0xfed41b76, 0x89d32be0, 0x10da7a5a, 0x67dd4acc, 0xf9b9df6f, 0x8ebeeff9, 0x17b7be43, 0x60b08ed5,
    0xd6d6a3e8, 0xa1d1937e, 0x38d8c2c4, 0x4fdff252, 0xd1bb67f1, 0xa6bc5767, 0x3fb506dd, 0x48b2364b,
    0xd80d2bda, 0xaf0a1b4c, 0x36034af6, 0x41047a60, 0xdf60efc3, 0xa867df55, 0x316e8eef, 0x4669be79,
    0xcb61b38c, 0xbc66831a, 0x256fd2a0, 0x5268e236, 0xcc0c7795, 0xbb0b4703, 0x220216b9, 0x5505262f,
    0xc5ba3bbe, 0xb2bd0b28, 0x2bb45a92, 0x5cb36a04, 0xc2d7ffa7, 0xb5d0cf31, 0x2cd99e8b, 0x5bdeae1d,
    0x9b64c2b0, 0xec63f226, 0x756aa39c, 0x026d930a, 0x9c0906a9, 0xeb0e363f, 0x72076785, 0x05005713,
    0x95bf4a82, 0xe2b87a14, 0x7bb12bae, 0x0cb61b38, 0x92d28e9b, 0xe5d5be0d, 0x7cdcefb7, 0x0bdbdf21,
    0x86d3d2d4, 0xf1d4e242, 0x68ddb3f8, 0x1fda836e, 0x81be16cd, 0xf6b9265b, 0x6fb077e1, 0x18b74777,
    0x88085ae6, 0xff0f6a70, 0x66063bca, 0x11010b5c, 0x8f659eff, 0xf862ae69, 0x616bffd3, 0x166ccf45,
    0xa00ae278, 0xd70dd2ee, 0x4e048354, 0x3903b3c2, 0xa7672661, 0xd06016f7, 0x4969474d, 0x3e6e77db,
    0xaed16a4a, 0xd9d65adc, 0x40df0b66, 0x37d83bf0, 0xa9bcae53, 0xdebb9ec5, 0x47b2cf7f, 0x30b5ffe9,
    0xbdbdf21c, 0xcabac28a, 0x53b39330, 0x24b4a3a6, 0xbad03605, 0xcdd70693, 0x54de5729, 0x23d967bf,
    0xb3667a2e, 0xc4614ab8, 0x5d681b02, 0x2a6f2b94, 0xb40bbe37, 0xc30c8ea1, 0x5a05df1b, 0x2d02ef8d
  ]"

definition DO1 :: "u32 \<Rightarrow> u8 \<Rightarrow> u32" where
  "DO1 crc b = crc_table ! unat ((crc XOR ucast b) AND 0xff) XOR drop_bit 8 crc"

text \<open>\<open>DO8\<close> takes the next eight bytes of the buffer.\<close>

definition DO8 :: "u32 \<Rightarrow> u8 list \<Rightarrow> u32" where
  "DO8 crc buf = foldl DO1 crc (take 8 buf)"

text \<open>The loops: eight bytes at a time while there are eight, then one at a time.\<close>

fun crc32_bytes :: "u32 \<Rightarrow> u8 list \<Rightarrow> u32" where
  "crc32_bytes crc [] = crc"
| "crc32_bytes crc (b # buf) = crc32_bytes (DO1 crc b) buf"

function crc32_no_comp :: "u32 \<Rightarrow> u8 list \<Rightarrow> u32" where
  "crc32_no_comp crc buf =
     (if length buf \<ge> 8 then crc32_no_comp (DO8 crc buf) (drop 8 buf)
      else crc32_bytes crc buf)"
  by pat_completeness auto
termination
  by (relation "measure (\<lambda>(crc, buf). length buf)") auto

declare crc32_no_comp.simps [simp del]

definition crc32 :: "u32 \<Rightarrow> u8 list \<Rightarrow> u32" where
  "crc32 crc buf = crc32_no_comp (crc XOR 0xffffffff) buf XOR 0xffffffff"

text \<open>Without a watchdog (none is configured) \<open>crc32_wd\<close> takes the buffer in one piece.\<close>

definition crc32_wd :: "u32 \<Rightarrow> u8 list \<Rightarrow> nat \<Rightarrow> u32" where
  "crc32_wd crc buf chunk_sz = crc32 crc buf"

section \<open>CRC-16\<close>

definition crc16_tab :: "u16 list" where
  "crc16_tab = [
    0x0000, 0x1021, 0x2042, 0x3063, 0x4084, 0x50a5, 0x60c6, 0x70e7,
    0x8108, 0x9129, 0xa14a, 0xb16b, 0xc18c, 0xd1ad, 0xe1ce, 0xf1ef,
    0x1231, 0x0210, 0x3273, 0x2252, 0x52b5, 0x4294, 0x72f7, 0x62d6,
    0x9339, 0x8318, 0xb37b, 0xa35a, 0xd3bd, 0xc39c, 0xf3ff, 0xe3de,
    0x2462, 0x3443, 0x0420, 0x1401, 0x64e6, 0x74c7, 0x44a4, 0x5485,
    0xa56a, 0xb54b, 0x8528, 0x9509, 0xe5ee, 0xf5cf, 0xc5ac, 0xd58d,
    0x3653, 0x2672, 0x1611, 0x0630, 0x76d7, 0x66f6, 0x5695, 0x46b4,
    0xb75b, 0xa77a, 0x9719, 0x8738, 0xf7df, 0xe7fe, 0xd79d, 0xc7bc,
    0x48c4, 0x58e5, 0x6886, 0x78a7, 0x0840, 0x1861, 0x2802, 0x3823,
    0xc9cc, 0xd9ed, 0xe98e, 0xf9af, 0x8948, 0x9969, 0xa90a, 0xb92b,
    0x5af5, 0x4ad4, 0x7ab7, 0x6a96, 0x1a71, 0x0a50, 0x3a33, 0x2a12,
    0xdbfd, 0xcbdc, 0xfbbf, 0xeb9e, 0x9b79, 0x8b58, 0xbb3b, 0xab1a,
    0x6ca6, 0x7c87, 0x4ce4, 0x5cc5, 0x2c22, 0x3c03, 0x0c60, 0x1c41,
    0xedae, 0xfd8f, 0xcdec, 0xddcd, 0xad2a, 0xbd0b, 0x8d68, 0x9d49,
    0x7e97, 0x6eb6, 0x5ed5, 0x4ef4, 0x3e13, 0x2e32, 0x1e51, 0x0e70,
    0xff9f, 0xefbe, 0xdfdd, 0xcffc, 0xbf1b, 0xaf3a, 0x9f59, 0x8f78,
    0x9188, 0x81a9, 0xb1ca, 0xa1eb, 0xd10c, 0xc12d, 0xf14e, 0xe16f,
    0x1080, 0x00a1, 0x30c2, 0x20e3, 0x5004, 0x4025, 0x7046, 0x6067,
    0x83b9, 0x9398, 0xa3fb, 0xb3da, 0xc33d, 0xd31c, 0xe37f, 0xf35e,
    0x02b1, 0x1290, 0x22f3, 0x32d2, 0x4235, 0x5214, 0x6277, 0x7256,
    0xb5ea, 0xa5cb, 0x95a8, 0x8589, 0xf56e, 0xe54f, 0xd52c, 0xc50d,
    0x34e2, 0x24c3, 0x14a0, 0x0481, 0x7466, 0x6447, 0x5424, 0x4405,
    0xa7db, 0xb7fa, 0x8799, 0x97b8, 0xe75f, 0xf77e, 0xc71d, 0xd73c,
    0x26d3, 0x36f2, 0x0691, 0x16b0, 0x6657, 0x7676, 0x4615, 0x5634,
    0xd94c, 0xc96d, 0xf90e, 0xe92f, 0x99c8, 0x89e9, 0xb98a, 0xa9ab,
    0x5844, 0x4865, 0x7806, 0x6827, 0x18c0, 0x08e1, 0x3882, 0x28a3,
    0xcb7d, 0xdb5c, 0xeb3f, 0xfb1e, 0x8bf9, 0x9bd8, 0xabbb, 0xbb9a,
    0x4a75, 0x5a54, 0x6a37, 0x7a16, 0x0af1, 0x1ad0, 0x2ab3, 0x3a92,
    0xfd2e, 0xed0f, 0xdd6c, 0xcd4d, 0xbdaa, 0xad8b, 0x9de8, 0x8dc9,
    0x7c26, 0x6c07, 0x5c64, 0x4c45, 0x3ca2, 0x2c83, 0x1ce0, 0x0cc1,
    0xef1f, 0xff3e, 0xcf5d, 0xdf7c, 0xaf9b, 0xbfba, 0x8fd9, 0x9ff8,
    0x6e17, 0x7e36, 0x4e55, 0x5e74, 0x2e93, 0x3eb2, 0x0ed1, 0x1ef0
  ]"

definition crc16_step :: "u16 \<Rightarrow> u8 \<Rightarrow> u16" where
  "crc16_step cksum b =
     crc16_tab ! unat ((drop_bit 8 cksum XOR ucast b) AND 0xFF) XOR push_bit 8 cksum"

definition cyg_crc16 :: "u8 list \<Rightarrow> u16" where
  "cyg_crc16 buf = foldl crc16_step 0 buf"

section \<open>The table is the shift register\<close>

lemma crc_poly_code [code, simp]: "crc_poly = 0xedb88320"
  by (simp add: crc_poly_def crc_terms_def)

lemma crc_shift_odd: "crc_shift c = (if odd c then crc_poly XOR drop_bit 1 c else drop_bit 1 c)"
  by (simp add: crc_shift_def and_one_eq odd_iff_mod_2_eq_one)

lemma crc_shift_xor: "crc_shift (a XOR b) = crc_shift a XOR crc_shift b"
proof -
  have x: "odd (a XOR b) \<longleftrightarrow> odd a \<noteq> odd b"
    by (simp flip: bit_0 add: bit_xor_iff)
  show ?thesis
    unfolding crc_shift_odd x
    by (cases "odd a"; cases "odd b")
      (simp_all add: drop_bit_xor xor.left_commute xor.assoc xor.commute)
qed

lemma crc_shifts_xor: "(crc_shift ^^ n) (a XOR b) = (crc_shift ^^ n) a XOR (crc_shift ^^ n) b"
  by (induction n) (simp_all add: crc_shift_xor)

lemma crc_shifts_push:
  assumes "\<And>i. i < n \<Longrightarrow> \<not> bit c i"
  shows "(crc_shift ^^ n) c = drop_bit n c"
  using assms
proof (induction n arbitrary: c)
  case (Suc n)
  have "\<not> bit c 0"
    using Suc.prems by blast
  then have "crc_shift c = drop_bit 1 c"
    by (simp add: crc_shift_odd bit_0)
  moreover have "(crc_shift ^^ n) (drop_bit 1 c) = drop_bit n (drop_bit 1 c)"
    by (rule Suc.IH) (simp add: Suc.prems bit_drop_bit_eq)
  ultimately show ?case
    by (simp add: funpow_Suc_right del: funpow.simps)
qed simp

lemma crc_shift_8:
  "(crc_shift ^^ 8) c =
     crc_shift (crc_shift (crc_shift (crc_shift (crc_shift (crc_shift (crc_shift (crc_shift c)))))))"
  by (simp add: numeral_eq_Suc)

text \<open>
  The register is linear, so the second half of a table of \<open>2 ^ (k + 1)\<close> entries is the first
  half with the entry of \<open>2 ^ k\<close> exclusive-ored in.
\<close>

definition crc_entry :: "nat \<Rightarrow> u32" where
  "crc_entry n = (crc_shift ^^ 8) (of_nat n)"

lemma crc_entry_add:
  assumes "r < 2 ^ k" "k < 8"
  shows "crc_entry (r + 2 ^ k) = crc_entry (2 ^ k) XOR crc_entry r"
proof -
  have r: "\<not> bit (of_nat r :: u32) i" if "k \<le> i" for i
  proof -
    have "r < 2 ^ i"
      using assms(1) that by (meson less_le_trans one_le_numeral power_increasing)
    then show ?thesis
      by (simp only: bit_of_nat_iff) (simp add: bit_iff_odd)
  qed
  have "(of_nat (r + 2 ^ k) :: u32) = of_nat (2 ^ k) + of_nat r"
    by simp
  also have "\<dots> = of_nat (2 ^ k) XOR of_nat r"
    by (rule disjunctive_add_eq_xor)
      (use r in \<open>auto intro!: bit_word_eqI simp: bit_and_iff bit_exp_iff\<close>)
  finally show ?thesis
    by (simp only: crc_entry_def crc_shifts_xor)
qed

lemma crc_entry_double:
  assumes "k < 8"
  shows "map crc_entry [0..<2 ^ Suc k] =
    map crc_entry [0..<2 ^ k] @ map ((XOR) (crc_entry (2 ^ k))) (map crc_entry [0..<2 ^ k])"
proof -
  have "[0..<2 ^ Suc k] = [0..<2 ^ k] @ map (\<lambda>r. r + 2 ^ k) [0..<2 ^ k :: nat]"
    by (simp add: map_add_upt mult_2 flip: upt_add_eq_append)
  then show ?thesis
    using assms by (simp add: crc_entry_add)
qed

lemma crc_entries:
  "k \<le> 8 \<Longrightarrow> map crc_entry [0..<2 ^ k] =
     foldl (\<lambda>t c. t @ map ((XOR) c) t) [0] (map (\<lambda>j. crc_entry (2 ^ j)) [0..<k])"
proof (induction k)
  case 0
  show ?case by (simp add: crc_entry_def crc_shift_8 crc_shift_odd)
next
  case (Suc k)
  then show ?case by (simp only: crc_entry_double) simp
qed

lemma crc_entry_powers:
  "map (\<lambda>j. crc_entry (2 ^ j)) [0..<8] =
    [0x77073096, 0xee0e612c, 0x076dc419, 0x0edb8832, 0x1db71064, 0x3b6e20c8, 0x76dc4190, 0xedb88320]"
  by (simp add: upt_rec crc_entry_def crc_shift_8 crc_shift_odd)

lemma crc_table_make: "crc_table = make_crc_table"
proof -
  have "make_crc_table = map crc_entry [0..<2 ^ 8]"
    by (simp add: make_crc_table_def crc_entry_def)
  also have "\<dots> = crc_table"
    unfolding crc_entries [OF order_refl] crc_entry_powers crc_table_def by simp
  finally show ?thesis ..
qed

lemma crc_table_nth: "n < 256 \<Longrightarrow> crc_table ! n = (crc_shift ^^ 8) (of_nat n)"
  by (simp add: crc_table_make make_crc_table_def)

text \<open>One step of the table-driven loop is eight steps of the register.\<close>

lemma DO1_shift: "DO1 crc b = (crc_shift ^^ 8) (crc XOR ucast b)"
proof -
  let ?x = "crc XOR ucast b :: u32"
  let ?lo = "?x AND 0xff" and ?hi = "push_bit 8 (drop_bit 8 ?x)"
  have split: "?x = ?lo XOR ?hi"
    proof (rule bit_word_eqI)
    fix n
    assume n: "n < LENGTH(32)"
    show "bit ?x n = bit (?lo XOR ?hi) n"
      using n unfolding bit_xor_iff bit_and_iff bit_u32_255 bit_push_bit_iff bit_drop_bit_eq
      by auto
  qed
  have "unat ?lo < 256"
    using unat_and_255 [of ?x] by simp
  then have lo: "crc_table ! unat ?lo = (crc_shift ^^ 8) ?lo"
    by (simp add: crc_table_nth)
  have "(crc_shift ^^ 8) ?hi = drop_bit 8 ?hi"
    by (rule crc_shifts_push) (simp add: bit_simps)
  also have "\<dots> = drop_bit 8 crc"
    by (rule bit_word_eqI) (auto simp: bit_simps dest: bit_imp_le_length)
  finally have hi: "(crc_shift ^^ 8) ?hi = drop_bit 8 crc" .
  have "(crc_shift ^^ 8) ?x = (crc_shift ^^ 8) ?lo XOR (crc_shift ^^ 8) ?hi"
    by (subst split) (rule crc_shifts_xor)
  then show ?thesis
    unfolding DO1_def lo hi by simp
qed

section \<open>The buffer is folded byte by byte\<close>

lemma crc32_bytes_foldl: "crc32_bytes crc buf = foldl DO1 crc buf"
  by (induction crc buf rule: crc32_bytes.induct) simp_all

lemma crc32_no_comp_foldl: "crc32_no_comp crc buf = foldl DO1 crc buf"
proof (induction crc buf rule: crc32_no_comp.induct)
  case (1 crc buf)
  show ?case
  proof (cases "length buf \<ge> 8")
    case True
    have "crc32_no_comp crc buf = foldl DO1 (DO8 crc buf) (drop 8 buf)"
      using True 1 by (simp add: crc32_no_comp.simps [of crc])
    also have "\<dots> = foldl DO1 crc (take 8 buf @ drop 8 buf)"
      by (simp only: DO8_def foldl_append)
    finally show ?thesis
      by simp
  qed (simp add: crc32_no_comp.simps [of crc] crc32_bytes_foldl)
qed

text \<open>
  A digest that takes a buffer in pieces: what the callers rely on, when the environment is
  checked word by word or an image is checked in chunks.
\<close>

locale stream_digest =
  fixes digest :: "'a \<Rightarrow> u8 list \<Rightarrow> 'a"
  assumes empty: "digest c [] = c"
    and pieces: "digest (digest c a) b = digest c (a @ b)"
begin

lemma chunks: "foldl digest c bss = digest c (concat bss)"
  by (induction bss arbitrary: c) (simp_all add: empty pieces)

lemma bytes: "digest c buf = foldl (\<lambda>c b. digest c [b]) c buf"
proof (induction buf arbitrary: c)
  case (Cons b buf)
  have "digest c (b # buf) = digest (digest c [b]) buf"
    by (simp add: pieces)
  then show ?case
    by (simp add: Cons.IH)
qed (simp add: empty)

lemma prefix_eq: "digest c a = digest c a' \<Longrightarrow> digest c (a @ b) = digest c (a' @ b)"
  by (metis pieces)

end

interpretation crc_raw: stream_digest crc32_no_comp
  by unfold_locales (simp_all add: crc32_no_comp_foldl)

interpretation crc: stream_digest crc32
  by unfold_locales (simp_all add: crc32_def crc32_no_comp_foldl xor.assoc)

interpretation crc16: stream_digest "foldl crc16_step"
  by unfold_locales simp_all

text \<open>
  C8: the table-driven, unrolled \<open>crc32\<close> computes the reflected shift register of the
  polynomial: complement, then for each byte exclusive-or it in and shift eight times, complement.
\<close>

theorem crc32_shift_register:
  "crc32 crc buf =
     NOT (foldl (\<lambda>c b. (crc_shift ^^ 8) (c XOR ucast b)) (NOT crc) buf)"
proof -
  have "(DO1 :: u32 \<Rightarrow> u8 \<Rightarrow> u32) = (\<lambda>c b. (crc_shift ^^ 8) (c XOR ucast b))"
    by (intro ext) (rule DO1_shift)
  moreover have "x XOR 0xffffffff = NOT x" for x :: u32
  proof -
    have "(0xffffffff :: u32) = - 1" by simp
    then show ?thesis by (simp only: bit.xor_one_right)
  qed
  ultimately show ?thesis
    by (simp add: crc32_def crc32_no_comp_foldl)
qed

section \<open>Damage is noticed\<close>

lemma crc_shift_eq_0: "crc_shift z = 0 \<Longrightarrow> z = 0"
proof -
  assume z: "crc_shift z = 0"
  have top: "\<not> bit (drop_bit 1 z) 31"
    by (auto simp: bit_simps dest: bit_imp_le_length)
  have "bit crc_poly 31"
    by (simp add: bit_numeral_rec)
  with top have "crc_poly XOR drop_bit 1 z \<noteq> 0"
    by (metis bit_0_eq bit_xor_iff bot_apply bot_bool_def)
  with z have even: "even z" and d: "drop_bit 1 z = 0"
    by (auto simp: crc_shift_odd split: if_splits)
  show "z = 0"
  proof (rule bit_word_eqI)
    fix n
    show "bit z n = bit 0 n"
    proof (cases n)
      case 0
      then show ?thesis using even by (simp add: bit_0)
    next
      case (Suc m)
      have "bit z n = bit (drop_bit 1 z) m"
        by (simp only: Suc bit_drop_bit_eq o_apply plus_1_eq_Suc)
      then show ?thesis by (simp only: d bit_0_eq bot_apply)
    qed
  qed
qed

lemma xor_zero_eq: "a XOR b = 0 \<Longrightarrow> a = b" for a b :: u32
  by (metis xor.left_neutral xor.right_neutral xor_self_eq xor.assoc)

lemma crc_shift_inj: "crc_shift a = crc_shift b \<Longrightarrow> a = b"
  using crc_shift_eq_0 [of "a XOR b"] by (simp add: crc_shift_xor xor_zero_eq)

lemma crc_shifts_inj: "(crc_shift ^^ n) a = (crc_shift ^^ n) b \<Longrightarrow> a = b"
  by (induction n) (auto dest: crc_shift_inj)

text \<open>Four bytes in a row go through the register as one little-endian word.\<close>

definition le_word :: "u8 \<Rightarrow> u8 \<Rightarrow> u8 \<Rightarrow> u8 \<Rightarrow> u32" where
  "le_word b0 b1 b2 b3 = ucast b0 XOR push_bit 8 (ucast b1) XOR push_bit 16 (ucast b2)
     XOR push_bit 24 (ucast b3)"

lemma le_word_byte:
  assumes "i < 8"
  shows "bit (le_word b0 b1 b2 b3) i = bit b0 i" "bit (le_word b0 b1 b2 b3) (8 + i) = bit b1 i"
    "bit (le_word b0 b1 b2 b3) (16 + i) = bit b2 i" "bit (le_word b0 b1 b2 b3) (24 + i) = bit b3 i"
  using assms
  by (auto simp: le_word_def bit_xor_iff bit_push_bit_iff bit_ucast_iff bit_u8_beyond)

lemma le_word_inj:
  assumes "le_word b0 b1 b2 b3 = le_word c0 c1 c2 c3"
  shows "b0 = c0 \<and> b1 = c1 \<and> b2 = c2 \<and> b3 = c3"
proof -
  have "bit b0 i = bit c0 i" "bit b1 i = bit c1 i" "bit b2 i = bit c2 i" "bit b3 i = bit c3 i"
    if "i < 8" for i
    using le_word_byte [OF that, of b0 b1 b2 b3] le_word_byte [OF that, of c0 c1 c2 c3] assms by simp_all
  then show ?thesis
    by (auto intro!: bit_word_eqI)
qed

lemma DO1_shifted:
  assumes "k \<le> 24"
  shows "DO1 ((crc_shift ^^ k) x) b = (crc_shift ^^ (8 + k)) (x XOR push_bit k (ucast b))"
proof -
  have "(crc_shift ^^ k) (push_bit k (ucast b)) = drop_bit k (push_bit k (ucast b :: u32))"
    by (rule crc_shifts_push) (simp add: bit_push_bit_iff)
  also have "\<dots> = ucast b"
  proof (rule bit_word_eqI)
    fix n
    assume "n < LENGTH(32)"
    have "k + n < 32" if "bit b n"
      using that assms bit_u8_beyond [of n b] by linarith
    then show "bit (drop_bit k (push_bit k (ucast b :: u32))) n = bit (ucast b :: u32) n"
      by (auto simp: bit_drop_bit_eq bit_push_bit_iff bit_ucast_iff)
  qed
  finally show ?thesis
    by (simp add: DO1_shift crc_shifts_xor funpow_add)
qed

lemma DO1_four:
  "foldl DO1 c [b0, b1, b2, b3] = (crc_shift ^^ 32) (c XOR le_word b0 b1 b2 b3)"
proof -
  have 1: "DO1 c b0 = (crc_shift ^^ 8) (c XOR ucast b0)"
    by (rule DO1_shift)
  have 2: "DO1 (DO1 c b0) b1 = (crc_shift ^^ 16) (c XOR ucast b0 XOR push_bit 8 (ucast b1))"
    using DO1_shifted [of 8 "c XOR ucast b0" b1] by (simp only: 1) (simp add: xor.assoc)
  have 3: "DO1 (DO1 (DO1 c b0) b1) b2 =
      (crc_shift ^^ 24) (c XOR ucast b0 XOR push_bit 8 (ucast b1) XOR push_bit 16 (ucast b2))"
    using DO1_shifted [of 16 "c XOR ucast b0 XOR push_bit 8 (ucast b1)" b2] by (simp only: 2) (simp add: xor.assoc)
  have 4: "DO1 (DO1 (DO1 (DO1 c b0) b1) b2) b3 = (crc_shift ^^ 32)
      (c XOR ucast b0 XOR push_bit 8 (ucast b1) XOR push_bit 16 (ucast b2) XOR push_bit 24 (ucast b3))"
    using DO1_shifted [of 24 "c XOR ucast b0 XOR push_bit 8 (ucast b1) XOR push_bit 16 (ucast b2)" b3]
    by (simp only: 3) (simp add: xor.assoc)
  show ?thesis
    by (simp only: foldl.simps 4 le_word_def xor.assoc)
qed

lemma xor_cancel: "a XOR m = b XOR m \<Longrightarrow> a = b" for a b m :: u32
proof -
  assume "a XOR m = b XOR m"
  then have "(a XOR m) XOR m = (b XOR m) XOR m" by (rule arg_cong)
  then show "a = b" by (simp only: xor.assoc xor_self_eq xor.right_neutral)
qed

lemma DO1_inj: "DO1 c b = DO1 c' b \<Longrightarrow> c = c'"
  unfolding DO1_shift by (drule crc_shifts_inj) (rule xor_cancel)

lemma foldl_DO1_inj: "foldl DO1 c z = foldl DO1 c' z \<Longrightarrow> c = c'"
  by (induction z arbitrary: c c') (auto dest: DO1_inj)

lemma crc32_burst:
  assumes "length e = 4" and "length e' = 4" and "e \<noteq> e'"
  shows "crc32 crc (a @ e @ z) \<noteq> crc32 crc (a @ e' @ z)"
proof
  assume "crc32 crc (a @ e @ z) = crc32 crc (a @ e' @ z)"
  then have "foldl DO1 (foldl DO1 (foldl DO1 (crc XOR 0xffffffff) a) e) z
      = foldl DO1 (foldl DO1 (foldl DO1 (crc XOR 0xffffffff) a) e') z"
    by (simp only: crc32_def crc32_no_comp_foldl foldl_append) (rule xor_cancel)
  then have fold: "foldl DO1 (foldl DO1 (crc XOR 0xffffffff) a) e
      = foldl DO1 (foldl DO1 (crc XOR 0xffffffff) a) e'" (is "foldl DO1 ?c e = _")
    by (rule foldl_DO1_inj)
  obtain b0 b1 b2 b3 c0 c1 c2 c3 where e: "e = [b0, b1, b2, b3]" "e' = [c0, c1, c2, c3]"
    using assms(1,2) by (auto simp: length_Suc_conv numeral_eq_Suc)
  from fold have "?c XOR le_word b0 b1 b2 b3 = ?c XOR le_word c0 c1 c2 c3"
    unfolding e DO1_four by (rule crc_shifts_inj)
  then have "le_word b0 b1 b2 b3 = le_word c0 c1 c2 c3"
    unfolding xor.commute [of ?c] by (rule xor_cancel)
  with assms(3) show False
    unfolding e by (auto dest: le_word_inj)
qed

text \<open>
  C9: damage confined to four consecutive bytes of a buffer (a burst of up to 32 bits), wherever
  it lies and whatever surrounds it, always changes the CRC.
\<close>

theorem crc32_burst_detected:
  assumes "length e = 4" and "length e' = 4" and "e \<noteq> e'"
  shows "crc32 crc (a @ e @ z) \<noteq> crc32 crc (a @ e' @ z)"
  using assms by (rule crc32_burst)

lemma crc32_burst_detected_witness:
  "crc32 0 ([1] @ [2, 3, 4, 5] @ [6]) \<noteq> crc32 0 ([1] @ [2, 3, 0, 5] @ [6])"
  by (rule crc32_burst_detected) simp_all

text \<open>
  A checksum of a buffer can be taken in pieces, each continuing from the last: what the
  chunked users (the image loader's \<open>crc32_wd\<close>, the environment reader that sees the flash one
  word at a time) rely on.
\<close>

theorem crc32_chunks: "foldl crc32 crc bufs = crc32 crc (concat bufs)"
  by (rule crc.chunks)

end
