(* ===== verification/Environment.thy ===== *)
theory Environment
  imports Vsprintf Crc
begin

text \<open>
  The environment (\<open>common/env_common.c\<close>, \<open>common/cmd_nvedit.c\<close>): one flat array of
  \<open>name=value\<close> strings, each ended by a NUL and the last by two, guarded by a CRC. The model
  keeps the array and edits it in place, byte by byte, as \<open>_do_setenv\<close> does. Every access is
  checked: an operation that would read or write outside the array, or read past the end of an
  argument string, has the value \<open>None\<close>.

  A string argument is the list of its bytes without the NUL. The length of the array stands for
  \<open>ENV_SIZE\<close>; on the board it is \<open>0x20000\<close> less the four bytes of the CRC.
\<close>

section \<open>Reading\<close>

definition ENV_HEADER_SIZE :: nat where
  "ENV_HEADER_SIZE = 4"

definition CONFIG_ENV_SIZE :: "u8 list \<Rightarrow> nat" where
  "CONFIG_ENV_SIZE env = length env + ENV_HEADER_SIZE"

definition env_get_char :: "u8 list \<Rightarrow> nat \<Rightarrow> u8 option" where
  "env_get_char env i = (if i < length env then Some (env ! i) else None)"

text \<open>
  \<open>envmatch\<close> compares the string at \<open>s1\<close>, here with its NUL, with the environment from index
  \<open>i2\<close>; \<open>-1\<close> is no match.
\<close>

fun envmatch_loop :: "u8 list \<Rightarrow> u8 list \<Rightarrow> nat \<Rightarrow> int option" where
  "envmatch_loop [] env i2 = None"
| "envmatch_loop (c # s1) env i2 =
     (case env_get_char env i2 of
        None \<Rightarrow> None
      | Some d \<Rightarrow>
          if c = d
          then if c = chr8 CHR ''='' then Some (int (i2 + 1)) else envmatch_loop s1 env (i2 + 1)
          else if c = 0 \<and> d = chr8 CHR ''='' then Some (int (i2 + 1))
          else Some (- 1))"

definition envmatch :: "u8 list \<Rightarrow> u8 list \<Rightarrow> nat \<Rightarrow> int option" where
  "envmatch s1 env i2 = envmatch_loop (s1 @ [0]) env i2"

text \<open>The index of the NUL from \<open>nxt\<close> on; the outer \<open>None\<close> is a read outside the array.\<close>

function env_nul :: "u8 list \<Rightarrow> nat \<Rightarrow> nat option" where
  "env_nul env nxt =
     (if nxt < length env then (if env ! nxt = 0 then Some nxt else env_nul env (nxt + 1)) else None)"
  by pat_completeness auto
termination
  by (relation "measure (\<lambda>(env, nxt). length env - nxt)") auto

declare env_nul.simps [simp del]

text \<open>The same with the bound of \<open>getenv\<close>: \<open>Some None\<close> is giving up.\<close>

function env_nul_bounded :: "u8 list \<Rightarrow> nat \<Rightarrow> nat option option" where
  "env_nul_bounded env nxt =
     (if nxt < length env
      then (if env ! nxt = 0 then Some (Some nxt)
            else if CONFIG_ENV_SIZE env \<le> nxt then Some None
            else env_nul_bounded env (nxt + 1))
      else None)"
  by pat_completeness auto
termination
  by (relation "measure (\<lambda>(env, nxt). length env - nxt)") auto

declare env_nul_bounded.simps [simp del]

lemma env_nul_ge: "env_nul env i = Some nxt \<Longrightarrow> i \<le> nxt \<and> nxt < length env"
  by (induction env i rule: env_nul.induct) (subst (asm) (2) env_nul.simps, fastforce split: if_splits)

lemma env_nul_bounded_ge: "env_nul_bounded env i = Some (Some nxt) \<Longrightarrow> i \<le> nxt \<and> nxt < length env"
  by (induction env i rule: env_nul_bounded.induct)
    (subst (asm) (2) env_nul_bounded.simps, fastforce split: if_splits)

text \<open>The walk of \<open>getenv\<close> and \<open>getenv_r\<close> to the value of a variable.\<close>

function env_find :: "u8 list \<Rightarrow> u8 list \<Rightarrow> nat \<Rightarrow> nat option option" where
  "env_find name env i =
     (case env_get_char env i of
        None \<Rightarrow> None
      | Some c \<Rightarrow>
          if c = 0 then Some None
          else case env_nul_bounded env i of
            None \<Rightarrow> None
          | Some None \<Rightarrow> Some None
          | Some (Some nxt) \<Rightarrow>
              (case envmatch name env i of
                 None \<Rightarrow> None
               | Some v \<Rightarrow> if v < 0 then env_find name env (nxt + 1) else Some (Some (nat v))))"
  by pat_completeness auto
termination
  by (relation "measure (\<lambda>(name, env, i). length env - i)")
    (auto dest: env_nul_bounded_ge)

declare env_find.simps [simp del]

text \<open>\<open>getenv\<close> returns the address of the value: here the index of it.\<close>

definition getenv_at :: "u8 list \<Rightarrow> u8 list \<Rightarrow> nat option option" where
  "getenv_at env name = env_find name env 0"

text \<open>The string that lies at an index, for the callers that read it.\<close>

definition env_string :: "u8 list \<Rightarrow> nat \<Rightarrow> u8 list" where
  "env_string env i = takeWhile (\<lambda>c. c \<noteq> 0) (drop i env)"

definition getenv :: "u8 list \<Rightarrow> u8 list \<Rightarrow> u8 list option option" where
  "getenv env name = map_option (map_option (env_string env)) (getenv_at env name)"

text \<open>
  The copying loop of \<open>getenv_r\<close>: \<open>n\<close> counts the tests of the bound. The result is the final
  \<open>n\<close> and the bytes stored from the start of the buffer.
\<close>

function getenv_r_copy :: "u8 list \<Rightarrow> nat \<Rightarrow> nat \<Rightarrow> nat \<Rightarrow> u8 list \<Rightarrow> (nat \<times> u8 list) option" where
  "getenv_r_copy env val len n buf =
     (if n < len
      then case env_get_char env val of
             None \<Rightarrow> None
           | Some c \<Rightarrow>
               if c \<noteq> 0 then getenv_r_copy env (val + 1) len (n + 1) (buf @ [c])
               else Some (n + 1, buf @ [c])
      else Some (n + 1, buf))"
  by pat_completeness auto
termination
  by (relation "measure (\<lambda>(env, val, len, n, buf). len - n)") auto

declare getenv_r_copy.simps [simp del]

definition getenv_r :: "u8 list \<Rightarrow> u8 list \<Rightarrow> nat \<Rightarrow> (int \<times> u8 list) option" where
  "getenv_r env name len =
     (case env_find name env 0 of
        None \<Rightarrow> None
      | Some None \<Rightarrow> Some (- 1, [])
      | Some (Some val) \<Rightarrow>
          (case getenv_r_copy env val len 0 [] of
             None \<Rightarrow> None
           | Some (n, buf) \<Rightarrow> Some (int n, if len = n then buf @ [0] else buf)))"

section \<open>Printing\<close>

text \<open>
  \<open>printenv\<close> with the bytes it puts out; its 16-byte pieces are put out one after another.
  State 1 prints everything, state 2 looks for a name and state 0 has found it. \<open>brk i\<close> tells
  whether Control-C is seen when the walk stands at index \<open>i\<close>; then the result is \<open>-1\<close>.
\<close>

function printenv :: "(nat \<Rightarrow> bool) \<Rightarrow> u8 list \<Rightarrow> u8 list \<Rightarrow> nat \<Rightarrow> nat \<Rightarrow> (u8 list \<times> int) option" where
  "printenv brk env name state i =
     (if state = 0 then Some ([], 0)
      else case env_get_char env i of
        None \<Rightarrow> None
      | Some c \<Rightarrow>
          if c = 0 then Some ([], int i)
          else case (if state = 2 then envmatch name env i else Some (- 1)) of
            None \<Rightarrow> None
          | Some v \<Rightarrow>
              (let state = (if 0 \<le> v then 0 else state) in
               case env_nul env i of
                 None \<Rightarrow> None
               | Some nxt \<Rightarrow>
                   (let line = (if state \<le> 1
                                then take (nxt - i) (drop i env) @ [chr8 CHR 0x0A] else [])
                    in if brk (nxt + 1) then Some (line, - 1)
                       else case printenv brk env name state (nxt + 1) of
                         None \<Rightarrow> None
                       | Some (out, r) \<Rightarrow> Some (line @ out, r))))"
  by pat_completeness auto
termination
  by (relation "measure (\<lambda>(brk, env, name, state, i). length env - i)") (auto dest: env_nul_ge)

declare printenv.simps [simp del]

section \<open>Writing\<close>

text \<open>What a change of the environment changes in the rest of the program.\<close>

record env_state =
  env_data :: "u8 list"
  env_crc :: u32
  env_id :: int
  gd_baudrate :: u32
  bi_ip_addr :: u32
  load_addr :: u32
  BootFile :: "u8 list"

definition env_crc_update :: "env_state \<Rightarrow> env_state" where
  "env_crc_update st = st\<lparr>env_crc := crc32 0 (env_data st)\<rparr>"

definition env_put :: "u8 list \<Rightarrow> nat \<Rightarrow> u8 \<Rightarrow> u8 list option" where
  "env_put env i c = (if i < length env then Some (env[i := c]) else None)"

text \<open>The search for an existing definition: the start of the entry, its NUL and the match.\<close>

function env_search :: "u8 list \<Rightarrow> u8 list \<Rightarrow> nat \<Rightarrow> (nat \<times> nat \<times> int) option" where
  "env_search name env i =
     (case env_get_char env i of
        None \<Rightarrow> None
      | Some c \<Rightarrow>
          if c = 0 then Some (i, i, - 1)
          else case env_nul env i of
            None \<Rightarrow> None
          | Some nxt \<Rightarrow>
              (case envmatch name env i of
                 None \<Rightarrow> None
               | Some oldval \<Rightarrow> if 0 \<le> oldval then Some (i, nxt, oldval)
                                else env_search name env (nxt + 1)))"
  by pat_completeness auto
termination
  by (relation "measure (\<lambda>(name, env, i). length env - i)") (auto dest: env_nul_ge)

declare env_search.simps [simp del]

text \<open>Closing the gap: bytes move down until two NULs in a row have been seen.\<close>

function env_close_gap :: "u8 list \<Rightarrow> nat \<Rightarrow> nat \<Rightarrow> (u8 list \<times> nat) option" where
  "env_close_gap data env nxt =
     (case env_get_char data nxt of
        None \<Rightarrow> None
      | Some c \<Rightarrow>
          (case env_put data env c of
             None \<Rightarrow> None
           | Some data \<Rightarrow>
               (case env_get_char data (nxt + 1) of
                  None \<Rightarrow> None
                | Some d \<Rightarrow>
                    if c = 0 \<and> d = 0 then Some (data, env)
                    else env_close_gap data (env + 1) (nxt + 1))))"
  by pat_completeness auto
termination
  by (relation "measure (\<lambda>(data, env, nxt). length data - nxt)")
    (auto simp: env_put_def env_get_char_def split: if_splits)

declare env_close_gap.simps [simp del]

definition env_delete :: "u8 list \<Rightarrow> nat \<Rightarrow> nat \<Rightarrow> u8 list option" where
  "env_delete data env nxt =
     do {
       c \<leftarrow> env_get_char data (nxt + 1);
       (data, env) \<leftarrow>
         (if c = 0 then
            if 0 < env then Some (data, env - 1)
            else do { data \<leftarrow> env_put data env 0; Some (data, env) }
          else env_close_gap data env (nxt + 1));
       env_put data (env + 1) 0
     }"

text \<open>The place for a new definition: at the second of the two NULs, or at the very start.\<close>

function env_end :: "u8 list \<Rightarrow> nat \<Rightarrow> nat option" where
  "env_end data env =
     (case env_get_char data env of
        None \<Rightarrow> None
      | Some c \<Rightarrow>
          (case env_get_char data (env + 1) of
             None \<Rightarrow> if c \<noteq> 0 then env_end data (env + 1) else None
           | Some d \<Rightarrow>
               if c \<noteq> 0 \<or> d \<noteq> 0 then env_end data (env + 1)
               else Some (if 0 < env then env + 1 else env)))"
  by pat_completeness auto
termination
  by (relation "measure (\<lambda>(data, env). length data - env)")
    (auto simp: env_get_char_def split: if_splits)

declare env_end.simps [simp del]

text \<open>Copying a string with its NUL; the result is the index of the NUL.\<close>

fun env_copy :: "u8 list \<Rightarrow> nat \<Rightarrow> u8 list \<Rightarrow> (u8 list \<times> nat) option" where
  "env_copy data env [] = do { data \<leftarrow> env_put data env 0; Some (data, env) }"
| "env_copy data env (c # s) = do { data \<leftarrow> env_put data env c; env_copy data (env + 1) s }"

fun env_copy_args :: "u8 list \<Rightarrow> nat \<Rightarrow> u8 \<Rightarrow> u8 list list \<Rightarrow> (u8 list \<times> nat) option" where
  "env_copy_args data env sep [] = Some (data, env)"
| "env_copy_args data env sep (val # vals) =
     do {
       data \<leftarrow> env_put data env sep;
       (data, env) \<leftarrow> env_copy data (env + 1) val;
       env_copy_args data env (chr8 CHR '' '') vals
     }"

definition env_append :: "u8 list \<Rightarrow> nat \<Rightarrow> u8 list \<Rightarrow> u8 list list \<Rightarrow> u8 list option" where
  "env_append data env name vals =
     do {
       (data, env) \<leftarrow> env_copy data env name;
       (data, env) \<leftarrow> env_copy_args data env (chr8 CHR ''='') vals;
       env_put data (env + 1) 0
     }"

section \<open>\<open>_do_setenv\<close>\<close>

definition baudrate_table :: "u32 list" where
  "baudrate_table = [9600, 19200, 38400, 57600, 115200]"

definition is_console :: "u8 list \<Rightarrow> bool" where
  "is_console name \<longleftrightarrow> name \<in> {cstr ''stdin'', cstr ''stdout'', cstr ''stderr''}"

text \<open>The address that the \<open>ipaddr\<close> handler makes of its argument.\<close>

fun setenv_ip_loop :: "nat \<Rightarrow> u32 \<Rightarrow> u8 list \<Rightarrow> u32" where
  "setenv_ip_loop 0 addr s = addr"
| "setenv_ip_loop (Suc i) addr s =
     (let (val, e) = simple_strtoul s 10
      in setenv_ip_loop i (push_bit 8 addr OR (val AND 0xFF)) (case e of [] \<Rightarrow> [] | c # e' \<Rightarrow> e'))"

definition htonl :: "u32 \<Rightarrow> u32" where
  "htonl x = push_bit 24 (x AND 0xff) OR push_bit 8 (x AND 0xff00) OR
     (drop_bit 8 x AND 0xff00) OR drop_bit 24 x"

fun copy_filename_loop :: "int \<Rightarrow> u8 list \<Rightarrow> u8 list" where
  "copy_filename_loop n [] = []"
| "copy_filename_loop n (c # src) =
     (if 0 < n - 1 \<and> c \<noteq> chr8 CHR 0x22 then c # copy_filename_loop (n - 1) src else [])"

text \<open>\<open>copy_filename\<close>: the string it leaves in the destination.\<close>

definition copy_filename :: "u8 list \<Rightarrow> int \<Rightarrow> u8 list" where
  "copy_filename src n =
     (if src \<noteq> [] \<and> hd src = chr8 CHR 0x22 then copy_filename_loop (n - 1) (tl src)
      else copy_filename_loop n src)"

definition setenv_effects :: "env_state \<Rightarrow> u8 list \<Rightarrow> u8 list \<Rightarrow> env_state" where
  "setenv_effects st name val =
     (if name = cstr ''ethaddr'' then st
      else if name = cstr ''ipaddr'' then st\<lparr>bi_ip_addr := htonl (setenv_ip_loop 4 0 val)\<rparr>
      else if name = cstr ''loadaddr'' then st\<lparr>load_addr := fst (simple_strtoul val 16)\<rparr>
      else if name = cstr ''bootfile'' then st\<lparr>BootFile := copy_filename val 128\<rparr>
      else st)"

text \<open>
  The command with its arguments from the variable's name on (\<open>argv + 1\<close>); \<open>vals\<close> are the values
  from \<open>argv[2]\<close> up to \<open>argc\<close> and \<open>argv2\<close> is what \<open>argv[2]\<close> points to, which may be there without being
  counted. \<open>console_assign\<close> (the choice of a console device) is a parameter: the value it
  returns. The user is taken to answer the prompt that follows a change of the baud rate. Reading
  the number in a missing argument reads through a null pointer: \<open>None\<close>.
\<close>

definition do_setenv' ::
  "(u8 list \<Rightarrow> u8 list \<Rightarrow> int) \<Rightarrow> env_state \<Rightarrow> u8 list \<Rightarrow> u8 list list \<Rightarrow> u8 list option \<Rightarrow>
    (env_state \<times> int) option" where
  "do_setenv' console_assign st name vals argv2 =
     (if chr8 CHR ''='' \<in> set name then Some (st, 1)
      else
        let st = st\<lparr>env_id := env_id st + 1\<rparr> in
        do {
          (env, nxt, oldval) \<leftarrow> env_search name (env_data st) 0;
          if is_console name \<and> vals = [] then Some (st, 1)
          else if is_console name \<and> console_assign name (hd vals) < 0 then Some (st, 1)
          else if 0 \<le> oldval \<and> (name = cstr ''serial#'' \<or> name = cstr ''ethaddr'') then Some (st, 1)
          else if 0 \<le> oldval \<and> name = cstr ''baudrate'' \<and> argv2 = None then None
          else if 0 \<le> oldval \<and> name = cstr ''baudrate'' \<and>
                  fst (simple_strtoul (the argv2) 10) \<notin> set baudrate_table then Some (st, 1)
          else
            do {
              let st = (if 0 \<le> oldval \<and> name = cstr ''baudrate''
                        then st\<lparr>gd_baudrate := fst (simple_strtoul (the argv2) 10)\<rparr> else st);
              data \<leftarrow> (if 0 \<le> oldval then env_delete (env_data st) env nxt else Some (env_data st));
              if vals = [] then Some (env_crc_update (st\<lparr>env_data := data\<rparr>), 0)
              else
                do {
                  env \<leftarrow> env_end data 0;
                  let len = length name + 2 + sum_list (map (\<lambda>v. length v + 1) vals);
                  if length data - env < len then Some (st\<lparr>env_data := data\<rparr>, 1)
                  else
                    do {
                      data \<leftarrow> env_append data env name vals;
                      Some (setenv_effects (env_crc_update (st\<lparr>env_data := data\<rparr>)) name (hd vals), 0)
                    }
                }
            }
        })"

text \<open>\<open>setenv\<close>: an empty or missing value deletes the variable.\<close>

definition setenv ::
  "(u8 list \<Rightarrow> u8 list \<Rightarrow> int) \<Rightarrow> env_state \<Rightarrow> u8 list \<Rightarrow> u8 list option \<Rightarrow> (env_state \<times> int) option" where
  "setenv console_assign st varname varvalue =
     (case varvalue of
        None \<Rightarrow> do_setenv' console_assign st varname [] None
      | Some v \<Rightarrow> if v = [] then do_setenv' console_assign st varname [] (Some v)
                   else do_setenv' console_assign st varname [v] (Some v))"

text \<open>The command itself: \<open>argv\<close> without the command's name; no name is a usage error.\<close>

definition do_setenv ::
  "(u8 list \<Rightarrow> u8 list \<Rightarrow> int) \<Rightarrow> env_state \<Rightarrow> u8 list list \<Rightarrow> (env_state \<times> int) option" where
  "do_setenv console_assign st argv =
     (case argv of [] \<Rightarrow> Some (st, 1) | name # vals \<Rightarrow>
        do_setenv' console_assign st name vals (if vals = [] then None else Some (hd vals)))"

section \<open>The default environment\<close>

definition default_variables :: "(string \<times> string) list" where
  "default_variables =
     [(''bootargs'', ''noinitrd root=/dev/mtdblock4 init=/linuxrc console=ttySAC0''),
      (''bootcmd'', ''nand read 0x30007fc0 0x100000 0x500000;bootm 0x30007fc0''),
      (''bootdelay'', ''2''),
      (''baudrate'', ''115200''),
      (''ethaddr'', ''08:00:3e:26:0a:5b''),
      (''ipaddr'', ''192.168.0.19''),
      (''serverip'', ''192.168.0.10''),
      (''gatewayip'', ''192.168.0.1''),
      (''netmask'', ''255.255.255.0''),
      (''logo'', ''nand read 0x31000000 0x80000 0x80000;bmp d 0x31000000''),
      (''stdin'', ''serial''),
      (''stdout'', ''serial''),
      (''stderr'', ''serial'')]"

definition default_environment :: "u8 list" where
  "default_environment =
     concat (map (\<lambda>(n, v). cstr n @ chr8 CHR ''='' # cstr v @ [0]) default_variables) @ [0]"

text \<open>
  \<open>sizeof\<close> counts the NUL that ends the last literal as well. \<open>set_default_env\<close> clears the array
  and copies the defaults in; a set of defaults that is too large is refused.
\<close>

definition set_default_env :: "env_state \<Rightarrow> env_state" where
  "set_default_env st =
     (if length (env_data st) < length default_environment + 1 then st
      else env_crc_update (st\<lparr>env_data := default_environment @
             replicate (length (env_data st) - length default_environment) 0\<rparr>))"

section \<open>Completion\<close>

text \<open>
  \<open>env_complete\<close>: the names that begin with \<open>var\<close>, at most \<open>maxv - 2\<close> of them and as many as the
  buffer holds; a final \<open>...\<close> says there are more.
\<close>

function env_complete_loop ::
  "u8 list \<Rightarrow> u8 list \<Rightarrow> int \<Rightarrow> int \<Rightarrow> nat \<Rightarrow> u8 list list \<Rightarrow> u8 list list option" where
  "env_complete_loop env var maxv bufsz i found =
     (case env_get_char env i of
        None \<Rightarrow> None
      | Some c \<Rightarrow>
          if c = 0 then Some found
          else case env_nul env i of
            None \<Rightarrow> None
          | Some nxt \<Rightarrow>
              (let lval = env_string env i;
                   vallen = length (takeWhile (\<lambda>c. c \<noteq> chr8 CHR ''='') lval)
               in if var \<noteq> [] \<and> (vallen < length var \<or> take (length var) lval \<noteq> var)
                  then env_complete_loop env var maxv bufsz (nxt + 1) found
                  else if maxv - 2 \<le> int (length found) \<or> bufsz < int vallen + 1
                  then Some (found @ [cstr ''...''])
                  else env_complete_loop env var maxv (bufsz - int vallen - 1) (nxt + 1)
                         (found @ [take vallen lval])))"
  by pat_completeness auto
termination
  by (relation "measure (\<lambda>(env, var, maxv, bufsz, i, found). length env - i)")
    (auto dest: env_nul_ge)

declare env_complete_loop.simps [simp del]

definition env_complete :: "u8 list \<Rightarrow> u8 list \<Rightarrow> int \<Rightarrow> int \<Rightarrow> u8 list list option" where
  "env_complete env var maxv bufsz = env_complete_loop env var maxv bufsz 0 []"

end
