(* ===== verification/Environment_Correct.thy ===== *)
theory Environment_Correct
  imports Environment
begin

text \<open>
  What the environment does: the flat array is a finite map from names to values. \<open>env_rep\<close>
  relates the two; under it every access of the operations stays inside the array, \<open>getenv\<close> looks
  a name up, \<open>_do_setenv\<close> updates or deletes it, and the array keeps its form. The laws are stated
  once in the locale \<open>kv_store\<close> and interpreted on the array.
\<close>

section \<open>The list of variables in the array\<close>

type_synonym var = "u8 list \<times> u8 list"

definition entry :: "var \<Rightarrow> u8 list" where
  "entry = (\<lambda>(n, v). n @ chr8 CHR ''='' # v)"

definition entries :: "var list \<Rightarrow> u8 list" where
  "entries kvs = concat (map (\<lambda>kv. entry kv @ [0]) kvs)"

definition good_name :: "u8 list \<Rightarrow> bool" where
  "good_name n \<longleftrightarrow> 0 \<notin> set n \<and> chr8 CHR ''='' \<notin> set n"

definition good_var :: "var \<Rightarrow> bool" where
  "good_var = (\<lambda>(n, v). good_name n \<and> 0 \<notin> set v)"

text \<open>
  The array holds the variables \<open>kvs\<close>, each name once, ended by two NULs; what follows is of no
  account.
\<close>

definition env_rep :: "u8 list \<Rightarrow> var list \<Rightarrow> bool" where
  "env_rep data kvs \<longleftrightarrow> list_all good_var kvs \<and> distinct (map fst kvs) \<and>
     (\<exists>junk. data = entries kvs @ 0 # junk \<and> (kvs = [] \<longrightarrow> junk \<noteq> [] \<and> hd junk = 0))"

lemma entries_simps [simp]:
  "entries [] = []" "entries (kv # kvs) = entry kv @ 0 # entries kvs"
  "entries (kvs @ kws) = entries kvs @ entries kws"
  by (simp_all add: entries_def)

lemma entry_not_Nil [simp]: "entry kv \<noteq> []"
  by (cases kv) (simp add: entry_def)

lemma entry_no_nul: "good_var kv \<Longrightarrow> 0 \<notin> set (entry kv)"
  by (cases kv) (simp add: entry_def good_var_def good_name_def)

lemma entry_hd: "good_var kv \<Longrightarrow> (entry kv @ zs) ! 0 \<noteq> 0"
proof -
  assume "good_var kv"
  then have "0 \<notin> set (entry kv)" by (rule entry_no_nul)
  then show ?thesis by (cases "entry kv") auto
qed

section \<open>Walking over the entries\<close>

lemma env_nul_at: "0 \<notin> set s \<Longrightarrow> env_nul (pre @ s @ 0 # post) (length pre) = Some (length pre + length s)"
proof (induction s arbitrary: pre)
  case (Cons c s)
  have "env_nul ((pre @ [c]) @ s @ 0 # post) (length (pre @ [c])) = Some (length (pre @ [c]) + length s)"
    by (rule Cons.IH) (use Cons.prems in auto)
  then show ?case
    using Cons.prems by (subst env_nul.simps) (simp add: nth_append)
qed (simp add: env_nul.simps nth_append)

lemma env_nul_bounded_at:
  "0 \<notin> set s \<Longrightarrow>
     env_nul_bounded (pre @ s @ 0 # post) (length pre) = Some (Some (length pre + length s))"
proof (induction s arbitrary: pre)
  case (Cons c s)
  have "env_nul_bounded ((pre @ [c]) @ s @ 0 # post) (length (pre @ [c]))
      = Some (Some (length (pre @ [c]) + length s))"
    by (rule Cons.IH) (use Cons.prems in auto)
  then show ?case
    using Cons.prems
    by (subst env_nul_bounded.simps) (simp add: nth_append CONFIG_ENV_SIZE_def)
qed (simp add: env_nul_bounded.simps nth_append)

lemma envmatch_at:
  assumes "good_name name" and "chr8 CHR ''='' \<notin> set n" and "0 \<notin> set n"
  shows "envmatch name (pre @ n @ chr8 CHR ''='' # post) (length pre) =
    Some (if name = n then int (length pre + length n + 1) else - 1)"
  unfolding envmatch_def using assms
proof (induction name arbitrary: pre n)
  case Nil
  then show ?case
    by (cases n) (auto simp: env_get_char_def nth_append)
next
  case (Cons c name)
  show ?case
  proof (cases n)
    case Nil
    then show ?thesis
      using Cons.prems by (auto simp: env_get_char_def nth_append good_name_def)
  next
    case (Cons d n')
    have "envmatch_loop (name @ [0]) ((pre @ [d]) @ n' @ chr8 CHR ''='' # post) (length (pre @ [d])) =
      Some (if name = n' then int (length (pre @ [d]) + length n' + 1) else - 1)"
      by (rule Cons.IH) (use Cons Cons.prems in \<open>auto simp: good_name_def\<close>)
    then show ?thesis
      using Cons Cons.prems by (auto simp: env_get_char_def nth_append good_name_def)
  qed
qed

lemma envmatch_entry:
  assumes "good_name name" and "good_var (n, v)"
  shows "envmatch name (pre @ entry (n, v) @ post) (length pre) =
    Some (if name = n then int (length pre + length n + 1) else - 1)"
  using envmatch_at [of name n pre "v @ post"] assms
  by (simp add: entry_def good_var_def good_name_def)

lemma get_char_entry:
  "good_var kv \<Longrightarrow> \<exists>c. env_get_char (pre @ entry kv @ post) (length pre) = Some c \<and> c \<noteq> 0"
  using entry_hd [of kv post] by (simp add: env_get_char_def nth_append)

lemma get_char_end: "env_get_char (pre @ c # post) (length pre) = Some c"
  by (simp add: env_get_char_def nth_append)

section \<open>Looking up\<close>

lemma env_find_entries:
  "list_all good_var kvs \<Longrightarrow> good_name name \<Longrightarrow>
   case map_of kvs name of
     None \<Rightarrow> env_find name (pre @ entries kvs @ 0 # junk) (length pre) = Some None
   | Some v \<Rightarrow> \<exists>A B. pre @ entries kvs @ 0 # junk = A @ v @ 0 # B \<and> 0 \<notin> set v \<and>
       env_find name (pre @ entries kvs @ 0 # junk) (length pre) = Some (Some (length A))"
proof (induction kvs arbitrary: pre)
  case Nil
  then show ?case
    by (subst env_find.simps) (simp add: get_char_end)
next
  case (Cons kv kvs)
  obtain n v where kv: "kv = (n, v)" by (cases kv)
  have good: "good_var kv" using Cons.prems by simp
  let ?data = "pre @ entry kv @ 0 # entries kvs @ 0 # junk"
  obtain c where c: "env_get_char ?data (length pre) = Some c" "c \<noteq> 0"
    using get_char_entry [OF good, of pre] by blast
  have nul: "env_nul_bounded ?data (length pre) = Some (Some (length pre + length (entry kv)))"
    by (rule env_nul_bounded_at) (rule entry_no_nul [OF good])
  have m: "envmatch name ?data (length pre) =
      Some (if name = n then int (length pre + length n + 1) else - 1)"
    using envmatch_entry [OF Cons.prems(2) good [unfolded kv]] by (simp add: kv)
  show ?case
  proof (cases "name = n")
    case True
    have "env_find name ?data (length pre) = Some (Some (length (pre @ n @ [chr8 CHR ''=''])))"
      using c nul m True by (subst env_find.simps) (simp add: nat_add_distrib)
    moreover have "?data = (pre @ n @ [chr8 CHR ''='']) @ v @ 0 # entries kvs @ 0 # junk"
      by (simp add: kv entry_def)
    moreover have "0 \<notin> set v"
      using good kv by (simp add: good_var_def)
    ultimately have "\<exists>A B. ?data = A @ v @ 0 # B \<and> 0 \<notin> set v \<and>
        env_find name ?data (length pre) = Some (Some (length A))"
      by blast
    then show ?thesis
      using True kv by simp
  next
    case False
    let ?pre = "pre @ entry kv @ [0]"
    have "case map_of kvs name of
        None \<Rightarrow> env_find name (?pre @ entries kvs @ 0 # junk) (length ?pre) = Some None
      | Some v \<Rightarrow> \<exists>A B. ?pre @ entries kvs @ 0 # junk = A @ v @ 0 # B \<and> 0 \<notin> set v \<and>
          env_find name (?pre @ entries kvs @ 0 # junk) (length ?pre) = Some (Some (length A))"
      by (rule Cons.IH) (use Cons.prems in auto)
    moreover have "env_find name ?data (length pre) = env_find name ?data (length ?pre)"
      using c nul m False by (subst env_find.simps) simp
    ultimately show ?thesis
      using False kv by (simp split: option.splits)
  qed
qed

lemma env_find_rep:
  assumes "env_rep data kvs" and "good_name name"
  shows "case map_of kvs name of
     None \<Rightarrow> env_find name data 0 = Some None
   | Some v \<Rightarrow> \<exists>A B. data = A @ v @ 0 # B \<and> 0 \<notin> set v \<and> env_find name data 0 = Some (Some (length A))"
  using env_find_entries [of kvs name "[]"] assms by (auto simp: env_rep_def split: option.splits)

lemma env_string_at: "0 \<notin> set v \<Longrightarrow> env_string (A @ v @ 0 # B) (length A) = v"
  by (simp add: env_string_def takeWhile_append)

lemma getenv_rep:
  assumes "env_rep data kvs" and "good_name name"
  shows "getenv data name = Some (map_of kvs name)"
  using env_find_rep [OF assms]
  by (auto simp: getenv_def getenv_at_def env_string_at split: option.splits)

text \<open>
  \<open>getenv\<close> is lookup: on a well-formed array it never reads outside the array and returns the
  value of the variable, or a null pointer when there is none.
\<close>

theorem getenv_lookup:
  assumes "env_rep data kvs" and "good_name name"
  shows "getenv data name = Some (map_of kvs name)"
  using assms by (rule getenv_rep)

lemma getenv_r_copy_at:
  assumes "n \<le> len" and "0 \<notin> set v"
  shows "getenv_r_copy (A @ v @ 0 # B) (length A) len n buf =
    Some (if n + length v < len then (n + length v + 1, buf @ v @ [0])
          else (len + 1, buf @ take (len - n) v))"
  using assms
proof (induction v arbitrary: A n buf)
  case Nil
  then show ?case
    by (subst getenv_r_copy.simps) (simp add: get_char_end)
next
  case (Cons c v)
  show ?case
  proof (cases "n < len")
    case True
    have "getenv_r_copy ((A @ [c]) @ v @ 0 # B) (length (A @ [c])) len (n + 1) (buf @ [c]) =
      Some (if n + 1 + length v < len then (n + 1 + length v + 1, (buf @ [c]) @ v @ [0])
          else (len + 1, (buf @ [c]) @ take (len - (n + 1)) v))"
      by (rule Cons.IH) (use True Cons.prems in auto)
    moreover have "len - n = Suc (len - (n + 1))" using True by simp
    ultimately show ?thesis
      using True Cons.prems get_char_end [of A c "v @ 0 # B"]
      by (subst getenv_r_copy.simps) simp
  next
    case False
    then show ?thesis
      using Cons.prems by (subst getenv_r_copy.simps) simp
  qed
qed

text \<open>
  C11: what \<open>getenv_r\<close> stores in a buffer of \<open>len\<close> bytes. A value that leaves room to spare is stored
  with its NUL. One that fills the buffer exactly, NUL included, is followed by a second NUL one
  byte beyond the buffer; one that is longer is cut off and left without a NUL.
\<close>

theorem getenv_r_stores:
  assumes "env_rep data kvs" and "good_name name"
  shows "getenv_r data name len = Some (case map_of kvs name of
      None \<Rightarrow> (- 1, [])
    | Some v \<Rightarrow>
        if length v + 1 < len then (int (length v) + 1, v @ [0])
        else if length v + 1 = len then (int len, v @ [0, 0])
        else (int len + 1, take len v))"
  using env_find_rep [OF assms]
  by (auto simp: getenv_r_def getenv_r_copy_at split: option.splits)

section \<open>Finding the entry to replace\<close>

lemma env_search_entries:
  assumes "list_all good_var kvs" and "good_name name"
  shows "(name \<notin> fst ` set kvs \<and>
      env_search name (pre @ entries kvs @ 0 # junk) (length pre) =
        Some (length pre + length (entries kvs), length pre + length (entries kvs), - 1)) \<or>
    (\<exists>kws v kxs r. kvs = kws @ (name, v) # kxs \<and> 0 \<le> r \<and> name \<notin> fst ` set kws \<and>
      env_search name (pre @ entries kvs @ 0 # junk) (length pre) =
        Some (length (pre @ entries kws), length (pre @ entries kws @ entry (name, v)), r))"
  using assms
proof (induction kvs arbitrary: pre)
  case Nil
  show ?case
    by (subst env_search.simps) (simp add: get_char_end)
next
  case (Cons kv kvs)
  obtain n v where kv: "kv = (n, v)" by (cases kv)
  have good: "good_var kv" using Cons.prems by simp
  let ?data = "pre @ entry kv @ 0 # entries kvs @ 0 # junk"
  obtain c where c: "env_get_char ?data (length pre) = Some c" "c \<noteq> 0"
    using get_char_entry [OF good, of pre] by blast
  have nul: "env_nul ?data (length pre) = Some (length pre + length (entry kv))"
    by (rule env_nul_at) (rule entry_no_nul [OF good])
  have m: "envmatch name ?data (length pre) =
      Some (if name = n then int (length pre + length n + 1) else - 1)"
    using envmatch_entry [OF Cons.prems(2) good [unfolded kv]] by (simp add: kv)
  show ?case
  proof (cases "name = n")
    case True
    have "env_search name ?data (length pre) =
        Some (length pre, length pre + length (entry kv), int (length pre + length n + 1))"
      using c nul m True by (subst env_search.simps) simp
    then show ?thesis
      using True kv
      by (intro disjI2 exI [of _ "[]"] exI [of _ v] exI [of _ kvs] exI [of _ "int (length pre + length n + 1)"])
        simp
  next
    case False
    let ?pre = "pre @ entry kv @ [0]"
    have step: "env_search name ?data (length pre) = env_search name ?data (length ?pre)"
      using c nul m False by (subst env_search.simps) simp
    have "(name \<notin> fst ` set kvs \<and>
        env_search name (?pre @ entries kvs @ 0 # junk) (length ?pre) =
          Some (length ?pre + length (entries kvs), length ?pre + length (entries kvs), - 1)) \<or>
      (\<exists>kws v kxs r. kvs = kws @ (name, v) # kxs \<and> 0 \<le> r \<and> name \<notin> fst ` set kws \<and>
        env_search name (?pre @ entries kvs @ 0 # junk) (length ?pre) =
          Some (length (?pre @ entries kws), length (?pre @ entries kws @ entry (name, v)), r))"
      by (rule Cons.IH) (use Cons.prems in auto)
    then show ?thesis
    proof (elim disjE exE conjE, goal_cases)
      case 1
      then show ?thesis
        using step False kv by simp
    next
      case (2 kws w kxs r)
      then show ?thesis
        using step False kv
        by (intro disjI2 exI [of _ "kv # kws"] exI [of _ w] exI [of _ kxs] exI [of _ r]) simp
    qed
  qed
qed

section \<open>Deleting\<close>

lemma env_put_at: "env_put (A @ g # Z) (length A) c = Some (A @ c # Z)"
  by (simp add: env_put_def)

lemma close_gap_step:
  "env_close_gap (A @ g # G @ c # d # Z) (length A) (length A + length G + 1) =
    (if c = 0 \<and> d = 0 then Some (A @ c # G @ c # d # Z, length A)
     else env_close_gap (A @ c # G @ c # d # Z) (length A + 1) (length A + length G + 2))"
proof -
  have 1: "env_get_char (A @ g # G @ c # d # Z) (length A + (length G + 1)) = Some c"
    using get_char_end [of "A @ g # G"] by simp
  have 2: "env_get_char (A @ c # G @ c # d # Z) (length A + (length G + 2)) = Some d"
    using get_char_end [of "A @ c # G @ [c]"] by simp
  show ?thesis
    by (subst env_close_gap.simps) (simp only: 1 2 env_put_at option.case add.assoc one_add_one)
qed

lemma close_gap_string:
  assumes "0 \<notin> set s"
  shows "\<exists>g' G'. length G' = length G \<and>
    env_close_gap (A @ g # G @ s @ c # Z) (length A) (length A + length G + 1) =
    env_close_gap ((A @ s) @ g' # G' @ c # Z) (length (A @ s)) (length (A @ s) + length G' + 1)"
  using assms
proof (induction s arbitrary: A g G)
  case Nil
  then show ?case by auto
next
  case (Cons d s)
  obtain g1 G1 where G: "G @ [d] = g1 # G1" by (cases "G @ [d]") auto
  then have len: "length G1 = length G" by (metis length_append_singleton length_Cons nat.inject)
  have "d \<noteq> 0" using Cons.prems by auto
  obtain e Z' where e: "s @ c # Z = e # Z'" by (cases s) auto
  have "env_close_gap (A @ g # G @ d # e # Z') (length A) (length A + length G + 1) =
      env_close_gap (A @ d # G @ d # e # Z') (length A + 1) (length A + length G + 2)"
    using close_gap_step [of A g G d e Z'] \<open>d \<noteq> 0\<close> by simp
  also have "A @ d # G @ d # e # Z' = (A @ [d]) @ g1 # G1 @ s @ c # Z"
    using G e by (metis append.assoc append_Cons append_Nil)
  finally have "env_close_gap (A @ g # G @ (d # s) @ c # Z) (length A) (length A + length G + 1) =
      env_close_gap ((A @ [d]) @ g1 # G1 @ s @ c # Z) (length (A @ [d])) (length (A @ [d]) + length G1 + 1)"
    using e len by (simp add: add.commute add.left_commute)
  moreover obtain g' G' where "length G' = length G1"
    "env_close_gap ((A @ [d]) @ g1 # G1 @ s @ c # Z) (length (A @ [d])) (length (A @ [d]) + length G1 + 1) =
     env_close_gap (((A @ [d]) @ s) @ g' # G' @ c # Z) (length ((A @ [d]) @ s))
       (length ((A @ [d]) @ s) + length G' + 1)"
    using Cons.IH [where A = "A @ [d]" and g = g1 and G = G1] Cons.prems by auto
  ultimately show ?case
    using len by (intro exI [of _ g'] exI [of _ G']) simp
qed

lemma close_gap_entries:
  assumes "list_all good_var kvs" and "kvs \<noteq> []"
  shows "\<exists>J. env_close_gap (A @ g # G @ entries kvs @ 0 # junk) (length A) (length A + length G + 1) =
      Some (A @ entries kvs @ J, length A + length (entries kvs) - 1) \<and> length J = length G + 2 + length junk"
  using assms
proof (induction kvs arbitrary: A g G)
  case (Cons kv kvs)
  have "0 \<notin> set (entry kv)" using Cons.prems entry_no_nul by simp
  from close_gap_string [OF this, where G = G and A = A and g = g and c = 0
      and Z = "entries kvs @ 0 # junk"] obtain g1 G1
    where len: "length G1 = length G" and
      eq: "env_close_gap (A @ g # G @ entry kv @ 0 # entries kvs @ 0 # junk) (length A) (length A + length G + 1) =
        env_close_gap ((A @ entry kv) @ g1 # G1 @ 0 # entries kvs @ 0 # junk)
          (length (A @ entry kv)) (length (A @ entry kv) + length G1 + 1)"
    by auto
  show ?case
  proof (cases kvs)
    case Nil
    show ?thesis
      using eq close_gap_step [of "A @ entry kv" g1 G1 0 0 junk] Nil len
      by (intro exI [of _ "G1 @ 0 # 0 # junk"]) simp
  next
    case (Cons kw kws)
    then have "good_var kw" using Cons.prems by simp
    then obtain d Z' where d: "entries kvs @ 0 # junk = d # Z'" "d \<noteq> 0"
      using entry_hd [of kw] Cons by (cases "entry kw") auto
    obtain g2 G2 where G: "G1 @ [0] = g2 # G2" by (cases "G1 @ [0]") auto
    then have len2: "length G2 = length G1" by (metis length_append_singleton length_Cons nat.inject)
    have "env_close_gap ((A @ entry kv) @ g1 # G1 @ 0 # d # Z') (length (A @ entry kv))
        (length (A @ entry kv) + length G1 + 1) =
      env_close_gap ((A @ entry kv) @ 0 # G1 @ 0 # d # Z') (length (A @ entry kv) + 1)
        (length (A @ entry kv) + length G1 + 2)"
      using close_gap_step [of "A @ entry kv" g1 G1 0 d Z'] d by simp
    also have "(A @ entry kv) @ 0 # G1 @ 0 # d # Z' = (A @ entry kv @ [0]) @ g2 # G2 @ entries kvs @ 0 # junk"
      using G d by (metis append.assoc append_Cons append_Nil)
    finally have step: "env_close_gap ((A @ entry kv) @ g1 # G1 @ 0 # d # Z') (length (A @ entry kv))
        (length (A @ entry kv) + length G1 + 1) =
      env_close_gap ((A @ entry kv @ [0]) @ g2 # G2 @ entries kvs @ 0 # junk) (length (A @ entry kv @ [0]))
        (length (A @ entry kv @ [0]) + length G2 + 1)"
      using len2 by simp
    obtain J where "env_close_gap ((A @ entry kv @ [0]) @ g2 # G2 @ entries kvs @ 0 # junk)
        (length (A @ entry kv @ [0])) (length (A @ entry kv @ [0]) + length G2 + 1) =
      Some ((A @ entry kv @ [0]) @ entries kvs @ J, length (A @ entry kv @ [0]) + length (entries kvs) - 1)"
      "length J = length G2 + 2 + length junk"
      using Cons.IH [where A = "A @ entry kv @ [0]" and g = g2 and G = G2] Cons Cons.prems by auto
    then show ?thesis
      using eq step d len len2 by (intro exI [of _ J]) simp
  qed
qed simp

lemma env_delete_entries:
  assumes good: "list_all good_var (kws @ kv # kxs)"
    and data: "data = entries (kws @ kv # kxs) @ 0 # junk"
  shows "\<exists>junk'. env_delete data (length (entries kws)) (length (entries kws @ entry kv)) =
      Some (entries (kws @ kxs) @ 0 # junk') \<and>
    length (entries (kws @ kxs) @ 0 # junk') = length data \<and>
    (kws @ kxs = [] \<longrightarrow> junk' \<noteq> [] \<and> hd junk' = 0)"
proof (cases kxs)
  case Nil
  have c: "env_get_char data (length (entries kws @ entry kv) + 1) = Some 0"
    using get_char_end [of "entries kws @ entry kv @ [0]"] data Nil by simp
  obtain e es where e: "entry kv = e # es" by (cases "entry kv") auto
  show ?thesis
  proof (cases kws)
    case Nil2: Nil
    obtain d ds where d: "es @ 0 # 0 # junk = d # ds" by (cases es) auto
    have "data = e # d # ds"
      using data Nil Nil2 e d by simp
    then have "env_delete data (length (entries kws)) (length (entries kws @ entry kv)) = Some (0 # 0 # ds)"
      using c Nil2 by (simp add: env_delete_def env_put_def)
    then show ?thesis
      using \<open>data = e # d # ds\<close> Nil Nil2 by simp
  next
    case (Cons kw kws')
    then have pos: "0 < length (entries kws)" by simp
    have "env_put data (length (entries kws)) 0 = Some (entries kws @ 0 # es @ 0 # 0 # junk)"
      using data Nil e env_put_at [of "entries kws" e "es @ 0 # 0 # junk" 0] by simp
    then have "env_delete data (length (entries kws)) (length (entries kws @ entry kv)) =
        Some (entries kws @ 0 # es @ 0 # 0 # junk)"
      using c pos by (simp add: env_delete_def)
    then show ?thesis
      using data Nil Cons e by simp
  qed
next
  case (Cons kx kxs')
  have gx: "good_var kx" "list_all good_var kxs" using good Cons by auto
  obtain c where c: "env_get_char data (length (entries kws @ entry kv) + 1) = Some c" "c \<noteq> 0"
    using get_char_entry [OF gx(1), of "entries kws @ entry kv @ [0]" "0 # entries kxs' @ 0 # junk"] data Cons
    by auto
  obtain e es where e: "entry kv = e # es" by (cases "entry kv") auto
  have "data = entries kws @ e # (es @ [0]) @ entries kxs @ 0 # junk"
    using data e by simp
  with close_gap_entries [OF gx(2), of "entries kws" e "es @ [0]" junk] obtain J where
    gap: "env_close_gap data (length (entries kws)) (length (entries kws @ entry kv) + 1) =
      Some (entries kws @ entries kxs @ J, length (entries kws) + length (entries kxs) - 1)"
    and J: "length J = length es + 3 + length junk"
    using Cons e by auto
  obtain j js where js: "J = j # js" using J by (cases J) auto
  have pos: "0 < length (entries kxs)" using Cons by simp
  have "env_put (entries kws @ entries kxs @ J) (length (entries kws) + length (entries kxs)) 0 =
      Some (entries kws @ entries kxs @ 0 # js)"
    using env_put_at [of "entries kws @ entries kxs" j js 0] js by simp
  then have "env_delete data (length (entries kws)) (length (entries kws @ entry kv)) =
      Some (entries (kws @ kxs) @ 0 # js)"
    using c gap pos by (simp add: env_delete_def)
  then show ?thesis
    using data J js e Cons by simp
qed

section \<open>Appending\<close>

lemma env_end_string:
  assumes "0 \<notin> set s" and "s \<noteq> []"
  shows "env_end (pre @ s @ 0 # d # post) (length pre) =
    (if d = 0 then Some (length pre + length s + 1)
     else env_end (pre @ s @ 0 # d # post) (length pre + length s + 1))"
  using assms
proof (induction s arbitrary: pre)
  case (Cons c s)
  have c: "env_get_char (pre @ (c # s) @ 0 # d # post) (length pre) = Some c" "c \<noteq> 0"
    using Cons.prems get_char_end [of pre] by auto
  obtain e where e: "env_get_char (pre @ (c # s) @ 0 # d # post) (length pre + 1) = Some e"
    by (cases s) (use get_char_end [of "pre @ [c]"] in auto)
  have step: "env_end (pre @ (c # s) @ 0 # d # post) (length pre) =
      env_end (pre @ (c # s) @ 0 # d # post) (length pre + 1)"
    using c(2) by (subst env_end.simps) (simp only: c(1) e option.case, simp)
  show ?case
  proof (cases s)
    case Nil
    have z: "env_get_char (pre @ (c # s) @ 0 # d # post) (length pre + 1) = Some 0"
      "env_get_char (pre @ (c # s) @ 0 # d # post) (length pre + 1 + 1) = Some d"
      using Nil get_char_end [of "pre @ [c]"] get_char_end [of "pre @ [c, 0]"] by simp_all
    have "env_end (pre @ (c # s) @ 0 # d # post) (length pre + 1) =
      (if d = 0 then Some (length pre + 1 + 1)
       else env_end (pre @ (c # s) @ 0 # d # post) (length pre + 1 + 1))"
      by (subst env_end.simps) (simp only: z option.case, simp)
    then show ?thesis using step Nil by simp
  next
    case (Cons c' s')
    have "env_end ((pre @ [c]) @ s @ 0 # d # post) (length (pre @ [c])) =
      (if d = 0 then Some (length (pre @ [c]) + length s + 1)
       else env_end ((pre @ [c]) @ s @ 0 # d # post) (length (pre @ [c]) + length s + 1))"
      by (rule Cons.IH) (use Cons Cons.prems in auto)
    then show ?thesis using step by simp
  qed
qed simp

lemma env_end_entries:
  "list_all good_var kvs \<Longrightarrow> kvs \<noteq> [] \<Longrightarrow>
   env_end (pre @ entries kvs @ 0 # junk) (length pre) = Some (length pre + length (entries kvs))"
proof (induction kvs arbitrary: pre)
  case (Cons kv kvs)
  have s: "0 \<notin> set (entry kv)" using Cons.prems entry_no_nul by simp
  show ?case
  proof (cases kvs)
    case Nil
    then show ?thesis
      using env_end_string [OF s, of pre 0 junk] by simp
  next
    case (Cons kw kws)
    then have "good_var kw" using Cons.prems by simp
    then obtain d Z' where d: "entries kvs @ 0 # junk = d # Z'" "d \<noteq> 0"
      using entry_hd [of kw] Cons by (cases "entry kw") auto
    have "env_end ((pre @ entry kv @ [0]) @ entries kvs @ 0 # junk) (length (pre @ entry kv @ [0])) =
        Some (length (pre @ entry kv @ [0]) + length (entries kvs))"
      by (rule Cons.IH) (use Cons Cons.prems in auto)
    then show ?thesis
      using env_end_string [OF s, of pre d Z'] d by simp
  qed
qed simp

lemma env_end_rep:
  assumes "env_rep data kvs"
  shows "env_end data 0 = Some (length (entries kvs))"
proof -
  obtain junk where j: "data = entries kvs @ 0 # junk" "kvs = [] \<Longrightarrow> junk \<noteq> [] \<and> hd junk = 0"
    and good: "list_all good_var kvs"
    using assms by (auto simp: env_rep_def)
  show ?thesis
  proof (cases "kvs = []")
    case True
    then obtain js where "junk = 0 # js" using j(2) by (cases junk) auto
    then show ?thesis
      using True j by (subst env_end.simps) (simp add: env_get_char_def)
  next
    case False
    then show ?thesis
      using env_end_entries [OF good False, of "[]" junk] j by simp
  qed
qed

lemma env_copy_at:
  "length s < length Z \<Longrightarrow>
     env_copy (A @ Z) (length A) s = Some (A @ s @ 0 # drop (length s + 1) Z, length A + length s)"
proof (induction s arbitrary: A Z)
  case Nil
  then show ?case by (cases Z) (simp_all add: env_put_at [simplified])
next
  case (Cons c s)
  then obtain z Z' where Z: "Z = z # Z'" "length s < length Z'" by (cases Z) auto
  have "env_copy ((A @ [c]) @ Z') (length (A @ [c])) s =
      Some ((A @ [c]) @ s @ 0 # drop (length s + 1) Z', length (A @ [c]) + length s)"
    by (rule Cons.IH) (rule Z)
  then show ?case
    using Z by (simp add: env_put_at [simplified])
qed

fun args_bytes :: "u8 \<Rightarrow> u8 list list \<Rightarrow> u8 list" where
  "args_bytes sep [] = []"
| "args_bytes sep (v # vs) = sep # v @ args_bytes (chr8 CHR '' '') vs"

lemma length_args_bytes: "length (args_bytes sep vs) = sum_list (map (\<lambda>v. length v + 1) vs)"
  by (induction vs arbitrary: sep) simp_all

lemma env_copy_args_at:
  "length (args_bytes sep vs) \<le> length Z \<Longrightarrow>
     env_copy_args (A @ 0 # Z) (length A) sep vs =
       Some (A @ args_bytes sep vs @ 0 # drop (length (args_bytes sep vs)) Z,
             length A + length (args_bytes sep vs))"
proof (induction vs arbitrary: A Z sep)
  case (Cons v vs)
  let ?rest = "args_bytes (chr8 CHR '' '') vs"
  have "env_copy ((A @ [sep]) @ Z) (length (A @ [sep])) v =
      Some ((A @ [sep]) @ v @ 0 # drop (length v + 1) Z, length (A @ [sep]) + length v)"
    by (rule env_copy_at) (use Cons.prems in simp)
  moreover have "env_copy_args ((A @ sep # v) @ 0 # drop (length v + 1) Z) (length (A @ sep # v)) (chr8 CHR '' '') vs =
      Some ((A @ sep # v) @ ?rest @ 0 # drop (length ?rest) (drop (length v + 1) Z),
        length (A @ sep # v) + length ?rest)"
    by (rule Cons.IH) (use Cons.prems in simp)
  ultimately show ?case
    by (simp add: env_put_at [simplified] add.commute add.left_commute)
qed simp

text \<open>The value that several arguments make: they are joined with single spaces.\<close>

definition join_args :: "u8 list list \<Rightarrow> u8 list" where
  "join_args vs = tl (args_bytes 0 vs)"

lemma args_bytes_join: "vs \<noteq> [] \<Longrightarrow> args_bytes sep vs = sep # join_args vs"
  by (cases vs) (simp_all add: join_args_def)

lemma env_append_at:
  assumes "vals \<noteq> []" and "length name + 2 + sum_list (map (\<lambda>v. length v + 1) vals) \<le> length Z"
  shows "env_append (A @ Z) (length A) name vals =
    Some (A @ entry (name, join_args vals) @ 0 # 0 # drop (length (entry (name, join_args vals)) + 2) Z)"
proof -
  let ?sep = "chr8 CHR ''=''"
  let ?args = "args_bytes ?sep vals"
  have len: "length name + 2 + length ?args \<le> length Z"
    using assms by (simp add: length_args_bytes)
  then have 1: "env_copy (A @ Z) (length A) name =
      Some (A @ name @ 0 # drop (length name + 1) Z, length A + length name)"
    by (intro env_copy_at) simp
  have 2: "env_copy_args ((A @ name) @ 0 # drop (length name + 1) Z) (length (A @ name)) ?sep vals =
      Some ((A @ name) @ ?args @ 0 # drop (length ?args) (drop (length name + 1) Z),
        length (A @ name) + length ?args)"
    by (rule env_copy_args_at) (use len in simp)
  have e: "name @ ?args = entry (name, join_args vals)"
    using assms(1) by (simp add: args_bytes_join entry_def)
  have "length (drop (length name + 1 + length ?args) Z) \<noteq> 0" using len by simp
  then obtain z Z' where z: "drop (length name + 1 + length ?args) Z = z # Z'"
    by (cases "drop (length name + 1 + length ?args) Z") auto
  then have Z': "Z' = drop (length name + length ?args + 2) Z"
    by (metis add.commute add.left_commute add_2_eq_Suc' add_Suc_right drop_Suc list.sel(3) nat_1_add_1 one_add_one plus_1_eq_Suc tl_drop)
  have "env_put (A @ name @ ?args @ 0 # z # Z') (Suc (length A + length name + length ?args)) 0 =
      Some (A @ name @ ?args @ 0 # 0 # Z')"
    using env_put_at [of "A @ name @ ?args @ [0]" z Z' 0] by (simp add: add.assoc)
  then have "env_append (A @ Z) (length A) name vals = Some (A @ (name @ ?args) @ 0 # 0 # Z')"
    using 1 2 z by (simp add: env_append_def add.commute add.left_commute)
  moreover have "length name + length ?args + 2 = length (entry (name, join_args vals)) + 2"
    unfolding e [symmetric] by simp
  ultimately show ?thesis
    unfolding Z' e by simp
qed

section \<open>Setting a variable\<close>

definition without :: "u8 list \<Rightarrow> var list \<Rightarrow> var list" where
  "without name kvs = filter (\<lambda>kv. fst kv \<noteq> name) kvs"

lemma without_split:
  assumes "distinct (map fst (kws @ (name, v) # kxs))"
  shows "without name (kws @ (name, v) # kxs) = kws @ kxs"
proof -
  have "\<forall>kv \<in> set kws. fst kv \<noteq> name" "\<forall>kv \<in> set kxs. fst kv \<noteq> name"
    using assms by (auto simp: image_iff)
  then show ?thesis
    by (simp add: without_def)
qed

lemma without_absent: "name \<notin> fst ` set kvs \<Longrightarrow> without name kvs = kvs"
  by (auto simp: without_def filter_id_conv intro: rev_image_eqI)

lemma env_rep_without: "list_all good_var kvs \<Longrightarrow> distinct (map fst kvs) \<Longrightarrow>
    list_all good_var (without name kvs) \<and> distinct (map fst (without name kvs))"
  by (auto simp: without_def list_all_iff distinct_map_filter)

text \<open>Names with no special treatment when they are already defined.\<close>

definition ordinary :: "u8 list \<Rightarrow> bool" where
  "ordinary name \<longleftrightarrow> good_name name \<and> \<not> is_console name \<and>
     name \<notin> {cstr ''serial#'', cstr ''ethaddr'', cstr ''baudrate''}"

text \<open>The array once an old definition, if any, is gone.\<close>

lemma env_removed:
  assumes rep: "env_rep data kvs" and name: "good_name name"
  obtains env nxt oldval data' where "env_search name data 0 = Some (env, nxt, oldval)"
    "(if 0 \<le> oldval then env_delete data env nxt else Some data) = Some data'"
    "env_rep data' (without name kvs)" "length data' = length data"
proof -
  obtain junk where j: "data = entries kvs @ 0 # junk" "kvs = [] \<Longrightarrow> junk \<noteq> [] \<and> hd junk = 0"
    and good: "list_all good_var kvs" "distinct (map fst kvs)"
    using rep by (auto simp: env_rep_def)
  from env_search_entries [OF good(1) name, of "[]" junk]
  show thesis
  proof (elim disjE exE conjE, goal_cases)
    case 1
    then show ?thesis
      using that [of "length (entries kvs)" "length (entries kvs)" "- 1" data] rep j
      by (simp add: without_absent)
  next
    case (2 kws v kxs r)
    have g: "list_all good_var (kws @ (name, v) # kxs)" using good 2 by simp
    obtain junk' where d: "env_delete data (length (entries kws)) (length (entries kws @ entry (name, v)))
        = Some (entries (kws @ kxs) @ 0 # junk')"
      "length (entries (kws @ kxs) @ 0 # junk') = length data"
      "kws @ kxs = [] \<longrightarrow> junk' \<noteq> [] \<and> hd junk' = 0"
      using env_delete_entries [OF g, of data junk] j 2 by auto
    have w: "without name kvs = kws @ kxs"
      using without_split good 2 by metis
    have "env_rep (entries (kws @ kxs) @ 0 # junk') (without name kvs)"
      unfolding env_rep_def w using env_rep_without [OF good, of name] d(3) by (auto simp: w)
    then show ?thesis
      using that 2 d j by simp
  qed
qed

lemma args_bytes_no_nul: "\<forall>v \<in> set vs. 0 \<notin> set v \<Longrightarrow> sep \<noteq> 0 \<Longrightarrow> 0 \<notin> set (args_bytes sep vs)"
proof (induction vs arbitrary: sep)
  case (Cons v vs)
  have "0 \<notin> set (args_bytes (chr8 CHR '' '') vs)"
    by (rule Cons.IH) (use Cons.prems in simp_all)
  then show ?case using Cons.prems by simp
qed simp

lemma good_join: "\<forall>v \<in> set vals. 0 \<notin> set v \<Longrightarrow> 0 \<notin> set (join_args vals)"
proof (cases "vals = []")
  case False
  then show "\<forall>v \<in> set vals. 0 \<notin> set v \<Longrightarrow> ?thesis"
    using args_bytes_no_nul [of vals 1] by (simp add: args_bytes_join)
qed (simp add: join_args_def)

lemma env_appended:
  assumes rep: "env_rep data kvs" and name: "good_name name" "name \<notin> fst ` set kvs"
    and vals: "vals \<noteq> []" "\<forall>v \<in> set vals. 0 \<notin> set v"
    and fit: "length name + 2 + sum_list (map (\<lambda>v. length v + 1) vals) \<le> length data - length (entries kvs)"
  obtains data' where "env_append data (length (entries kvs)) name vals = Some data'"
    "env_rep data' (kvs @ [(name, join_args vals)])" "length data' = length data"
proof -
  obtain junk where j: "data = entries kvs @ 0 # junk"
    and good: "list_all good_var kvs" "distinct (map fst kvs)"
    using rep by (auto simp: env_rep_def)
  let ?e = "entry (name, join_args vals)"
  have fit': "length name + 2 + sum_list (map (\<lambda>v. length v + 1) vals) \<le> length (0 # junk)"
    using fit j by simp
  have "length ?e = length name + sum_list (map (\<lambda>v. length v + 1) vals)"
    using args_bytes_join [OF vals(1), of 0] length_args_bytes [of 0 vals] by (simp add: entry_def)
  then have "length ?e + 2 \<le> length (0 # junk)" using fit' by simp
  then have "length (entries kvs @ ?e @ 0 # 0 # drop (length ?e + 2) (0 # junk)) = length data"
    using j by simp
  moreover have "env_rep (entries kvs @ ?e @ 0 # 0 # drop (length ?e + 2) (0 # junk))
      (kvs @ [(name, join_args vals)])"
    unfolding env_rep_def using good name good_join [OF vals(2)] by (auto simp: good_var_def)
  ultimately show thesis
    using that env_append_at [OF vals(1) fit', of "entries kvs"] j by simp
qed

lemma setenv_updates:
  assumes rep: "env_rep (env_data st) kvs" and name: "ordinary name"
    and vals: "\<forall>v \<in> set vals. 0 \<notin> set v"
  shows "\<exists>st' r. do_setenv' ca st name vals argv2 = Some (st', r) \<and>
    length (env_data st') = length (env_data st) \<and>
    (let rest = without name kvs;
         need = length name + 2 + sum_list (map (\<lambda>v. length v + 1) vals) in
     if vals = [] then
       r = 0 \<and> env_rep (env_data st') rest \<and> env_crc st' = crc32 0 (env_data st')
     else if need \<le> length (env_data st) - length (entries rest) then
       r = 0 \<and> env_rep (env_data st') (rest @ [(name, join_args vals)]) \<and>
       env_crc st' = crc32 0 (env_data st')
     else r = 1 \<and> env_rep (env_data st') rest \<and> env_crc st' = env_crc st)"
proof -
  have good: "good_name name" and special: "\<not> is_console name" "name \<noteq> cstr ''serial#''"
    "name \<noteq> cstr ''ethaddr''" "name \<noteq> cstr ''baudrate''"
    using name by (simp_all only: ordinary_def insert_iff empty_iff de_Morgan_disj simp_thms)
  have eq: "chr8 CHR ''='' \<notin> set name"
    using good unfolding good_name_def by blast
  obtain env nxt oldval data where search: "env_search name (env_data st) 0 = Some (env, nxt, oldval)"
    and del: "(if 0 \<le> oldval then env_delete (env_data st) env nxt else Some (env_data st)) = Some data"
    and rep': "env_rep data (without name kvs)" and len: "length data = length (env_data st)"
    using env_removed [OF rep good] .
  have fin: "env_end data 0 = Some (length (entries (without name kvs)))"
    by (rule env_end_rep [OF rep'])
  have unfold: "do_setenv' ca st name vals argv2 =
    (if vals = [] then Some (env_crc_update (st\<lparr>env_id := env_id st + 1, env_data := data\<rparr>), 0)
     else if length data - length (entries (without name kvs)) <
         length name + 2 + sum_list (map (\<lambda>v. length v + 1) vals)
     then Some (st\<lparr>env_id := env_id st + 1, env_data := data\<rparr>, 1)
     else do {
       data \<leftarrow> env_append data (length (entries (without name kvs))) name vals;
       Some (setenv_effects (env_crc_update (st\<lparr>env_id := env_id st + 1, env_data := data\<rparr>))
         name (hd vals), 0)})"
    unfolding do_setenv'_def using eq search del special fin
    by (cases "0 \<le> oldval") (simp_all add: Let_def)
  have eff: "env_data (setenv_effects s name v) = env_data s" "env_crc (setenv_effects s name v) = env_crc s"
    for s v by (simp_all add: setenv_effects_def)
  have absent: "name \<notin> fst ` set (without name kvs)"
    by (auto simp: without_def)
  show ?thesis
  proof (cases "vals = [] \<or> length data - length (entries (without name kvs)) <
      length name + 2 + sum_list (map (\<lambda>v. length v + 1) vals)")
    case True
    then show ?thesis
      unfolding unfold using rep' len by (auto simp: Let_def env_crc_update_def)
  next
    case False
    then obtain data' where "env_append data (length (entries (without name kvs))) name vals = Some data'"
      "env_rep data' (without name kvs @ [(name, join_args vals)])" "length data' = length data"
      using env_appended [OF rep' good absent _ vals] by auto
    then show ?thesis
      unfolding unfold using False len by (simp add: Let_def env_crc_update_def eff)
  qed
qed

text \<open>
  C1: \<open>_do_setenv\<close> on a variable with no special treatment. Without values it removes the variable;
  with values that fit it leaves the variable with these values joined by spaces, after all the
  others; with values that do not fit it fails, and the old definition is lost. In every case the
  array stays well formed and nothing outside it is touched. The checksum follows the array except
  after the failure.
\<close>

theorem do_setenv_updates:
  assumes "env_rep (env_data st) kvs" and "ordinary name" and "\<forall>v \<in> set vals. 0 \<notin> set v"
  shows "\<exists>st' r. do_setenv' ca st name vals argv2 = Some (st', r) \<and>
    length (env_data st') = length (env_data st) \<and>
    (let rest = without name kvs;
         need = length name + 2 + sum_list (map (\<lambda>v. length v + 1) vals) in
     if vals = [] then
       r = 0 \<and> env_rep (env_data st') rest \<and> env_crc st' = crc32 0 (env_data st')
     else if need \<le> length (env_data st) - length (entries rest) then
       r = 0 \<and> env_rep (env_data st') (rest @ [(name, join_args vals)]) \<and>
       env_crc st' = crc32 0 (env_data st')
     else r = 1 \<and> env_rep (env_data st') rest \<and> env_crc st' = env_crc st)"
  using assms by (rule setenv_updates)

section \<open>The environment as a store\<close>

text \<open>What a client of the environment relies on: the operations and the laws of a finite map.\<close>

locale kv_store =
  fixes inv :: "'s \<Rightarrow> bool"
    and key :: "'k \<Rightarrow> bool"
    and room :: "'s \<Rightarrow> 'k \<Rightarrow> 'v \<Rightarrow> bool"
    and get :: "'s \<Rightarrow> 'k \<Rightarrow> 'v option"
    and put :: "'s \<Rightarrow> 'k \<Rightarrow> 'v \<Rightarrow> 's"
    and del :: "'s \<Rightarrow> 'k \<Rightarrow> 's"
  assumes inv_put: "inv s \<Longrightarrow> key k \<Longrightarrow> room s k v \<Longrightarrow> inv (put s k v)"
    and inv_del: "inv s \<Longrightarrow> key k \<Longrightarrow> inv (del s k)"
    and get_put: "inv s \<Longrightarrow> key k \<Longrightarrow> key k' \<Longrightarrow> room s k v \<Longrightarrow>
      get (put s k v) k' = (if k' = k then Some v else get s k')"
    and get_del: "inv s \<Longrightarrow> key k \<Longrightarrow> key k' \<Longrightarrow> get (del s k) k' = (if k' = k then None else get s k')"
    and room_del: "inv s \<Longrightarrow> key k \<Longrightarrow> room s k v \<Longrightarrow> room (del s k) k v"
begin

lemma overwrite:
  assumes "inv s" "key k" "key k'" "room s k v" "room (put s k v) k w" "room s k w"
  shows "get (put (put s k v) k w) k' = get (put s k w) k'"
  using assms by (simp add: get_put inv_put)

lemma put_commute:
  assumes "inv s" "key k" "key l" "key k'" "k \<noteq> l" "room s k v" "room (put s k v) l w" "room s l w"
    "room (put s l w) k v"
  shows "get (put (put s k v) l w) k' = get (put (put s l w) k v) k'"
  using assms by (simp add: get_put inv_put)

lemma put_del:
  assumes "inv s" "key k" "key k'" "room s k v"
  shows "get (del (put s k v) k) k' = get (del s k) k'"
  using assms by (simp add: get_put get_del inv_put)

lemma restore:
  assumes "inv s" "key k" "key k'" "get s k = Some v" "room s k v"
  shows "get (put (del s k) k v) k' = get s k'"
  using assms by (simp add: get_put get_del inv_del room_del)

end

definition env_inv :: "env_state \<Rightarrow> bool" where
  "env_inv st \<longleftrightarrow> (\<exists>kvs. env_rep (env_data st) kvs)"

definition env_room :: "env_state \<Rightarrow> u8 list \<Rightarrow> u8 list \<Rightarrow> bool" where
  "env_room st name v \<longleftrightarrow> v \<noteq> [] \<and> 0 \<notin> set v \<and>
     (\<forall>kvs. env_rep (env_data st) kvs \<longrightarrow>
        length name + length v + 3 \<le> length (env_data st) - length (entries (without name kvs)))"

definition env_get :: "env_state \<Rightarrow> u8 list \<Rightarrow> u8 list option" where
  "env_get st name = the (getenv (env_data st) name)"

definition env_set ::
  "(u8 list \<Rightarrow> u8 list \<Rightarrow> int) \<Rightarrow> env_state \<Rightarrow> u8 list \<Rightarrow> u8 list \<Rightarrow> env_state" where
  "env_set ca st name v = fst (the (setenv ca st name (Some v)))"

definition env_unset :: "(u8 list \<Rightarrow> u8 list \<Rightarrow> int) \<Rightarrow> env_state \<Rightarrow> u8 list \<Rightarrow> env_state" where
  "env_unset ca st name = fst (the (setenv ca st name None))"

lemma join_args_single: "join_args [v] = v"
  by (simp add: join_args_def)

lemma env_unset_rep:
  assumes "env_rep (env_data st) kvs" and "ordinary name"
  shows "env_rep (env_data (env_unset ca st name)) (without name kvs) \<and>
    length (env_data (env_unset ca st name)) = length (env_data st)"
  using setenv_updates [OF assms, of "[]" ca None] by (auto simp: env_unset_def setenv_def Let_def)

lemma env_set_rep:
  assumes "env_rep (env_data st) kvs" and "ordinary name" and "env_room st name v"
  shows "env_rep (env_data (env_set ca st name v)) (without name kvs @ [(name, v)])"
proof -
  have v: "v \<noteq> []" "0 \<notin> set v"
    "length name + length v + 3 \<le> length (env_data st) - length (entries (without name kvs))"
    using assms(1,3) by (auto simp: env_room_def)
  then show ?thesis
    using setenv_updates [OF assms(1,2), of "[v]" ca "Some v"]
    by (auto simp: env_set_def setenv_def Let_def join_args_single)
qed

lemma map_of_without:
  "map_of (without name kvs) k = (if k = name then None else map_of kvs k)"
  by (induction kvs) (auto simp: without_def)

lemma env_get_rep: "env_rep (env_data st) kvs \<Longrightarrow> ordinary name \<Longrightarrow> env_get st name = map_of kvs name"
  by (simp add: env_get_def getenv_rep ordinary_def)

lemma env_rep_unique:
  "env_rep data kvs \<Longrightarrow> env_rep data kws \<Longrightarrow> length (entries kvs) = length (entries kws)"
  using env_end_rep [of data kvs] env_end_rep [of data kws] by simp

lemma length_without: "length (entries (without name kvs)) \<le> length (entries kvs)"
  by (induction kvs) (simp_all add: without_def)

lemma env_room_unset:
  assumes "env_inv st" and "ordinary name" and "env_room st name v"
  shows "env_room (env_unset ca st name) name v"
proof -
  obtain kvs where rep: "env_rep (env_data st) kvs" using assms(1) by (auto simp: env_inv_def)
  note u = env_unset_rep [OF rep assms(2), of ca]
  have "length name + length v + 3 \<le> length (env_data (env_unset ca st name)) - length (entries (without name kws))"
    if "env_rep (env_data (env_unset ca st name)) kws" for kws
  proof -
    have "length (entries (without name kws)) \<le> length (entries (without name kvs))"
      using length_without [of name kws] env_rep_unique [OF that, of "without name kvs"] u by simp
    moreover have "length name + length v + 3 \<le> length (env_data st) - length (entries (without name kvs))"
      using assms(3) rep by (simp add: env_room_def)
    ultimately show ?thesis using u by linarith
  qed
  then show ?thesis
    using assms(3) by (simp add: env_room_def)
qed

interpretation env: kv_store env_inv ordinary env_room env_get "env_set ca" "env_unset ca" for ca
proof (unfold_locales, goal_cases)
  case (1 st k v)
  then show ?case using env_set_rep unfolding env_inv_def by blast
next
  case (2 st k)
  then show ?case using env_unset_rep unfolding env_inv_def by blast
next
  case (3 st k k' v)
  then obtain kvs where rep: "env_rep (env_data st) kvs" by (auto simp: env_inv_def)
  show ?case
    using env_get_rep [OF env_set_rep [OF rep 3(2,4), of ca] 3(3)] env_get_rep [OF rep 3(3)]
    by (auto simp: map_add_def map_of_without map_of_append split: option.splits)
next
  case (4 st k k')
  then obtain kvs where rep: "env_rep (env_data st) kvs" by (auto simp: env_inv_def)
  show ?case
    using env_get_rep [OF conjunct1 [OF env_unset_rep [OF rep 4(2), of ca]] 4(3)] env_get_rep [OF rep 4(3)]
    by (simp add: map_of_without)
next
  case (5 st k v)
  then show ?case by (rule env_room_unset)
qed

text \<open>
  C2: setting a variable and reading it back gives the value set, every other variable reads as
  before, and deleting and setting again restores what was there.
\<close>

theorem env_set_get:
  assumes "env_inv st" and "ordinary name" and "ordinary m" and "env_room st name v"
  shows "env_get (env_set ca st name v) m = (if m = name then Some v else env_get st m) \<and>
    env_get (env_unset ca st name) m = (if m = name then None else env_get st m) \<and>
    (env_get st name = Some v \<longrightarrow> env_get (env_set ca (env_unset ca st name) name v) m = env_get st m)"
  using assms by (simp add: env.get_put env.get_del env.restore)

section \<open>The default environment\<close>

definition default_kvs :: "var list" where
  "default_kvs = map (\<lambda>(n, v). (cstr n, cstr v)) default_variables"

lemma default_environment_entries: "default_environment = entries default_kvs @ [0]"
  by (simp add: default_environment_def entries_def default_kvs_def entry_def default_variables_def)

lemma default_kvs_good: "list_all good_var default_kvs" "distinct (map fst default_kvs)"
  by (simp_all add: default_kvs_def default_variables_def good_var_def good_name_def)

lemma default_env_rep:
  "length default_environment < length (env_data st) \<Longrightarrow>
     env_rep (env_data (set_default_env st)) default_kvs"
  using default_kvs_good
  by (auto simp: env_rep_def set_default_env_def env_crc_update_def default_environment_entries
      default_kvs_def default_variables_def)

lemma length_default_environment: "length default_environment = 373"
  by (simp add: default_environment_def default_variables_def)

definition sample_env :: env_state where
  "sample_env = set_default_env \<lparr>env_data = replicate 512 0, env_crc = 0, env_id = 1,
     gd_baudrate = 115200, bi_ip_addr = 0, load_addr = 0, BootFile = []\<rparr>"

lemma sample_env_rep: "env_rep (env_data sample_env) default_kvs" "length (env_data sample_env) = 512"
  unfolding sample_env_def
  by (rule default_env_rep, simp add: length_default_environment)
    (simp add: set_default_env_def env_crc_update_def length_default_environment)

lemma getenv_lookup_witness: "getenv (env_data sample_env) (cstr ''bootdelay'') = Some (Some (cstr ''2''))"
proof -
  have "good_name (cstr ''bootdelay'')" by (simp add: good_name_def)
  from getenv_lookup [OF sample_env_rep(1) this] show ?thesis
    by (simp add: default_kvs_def default_variables_def)
qed

lemma getenv_r_stores_witness:
  "getenv_r (env_data sample_env) (cstr ''stdin'') 7 = Some (7, cstr ''serial'' @ [0, 0])"
proof -
  have "good_name (cstr ''stdin'')" by (simp add: good_name_def)
  from getenv_r_stores [OF sample_env_rep(1) this, of 7] show ?thesis
    by (simp add: default_kvs_def default_variables_def)
qed

lemma do_setenv_updates_witness:
  "\<exists>st'. do_setenv' (\<lambda>_ _. 0) sample_env (cstr ''bootdelay'') [cstr ''3''] (Some (cstr ''3'')) =
    Some (st', 0)"
proof -
  have "ordinary (cstr ''bootdelay'')" "\<forall>v \<in> set [cstr ''3'']. 0 \<notin> set v"
    by (simp_all add: ordinary_def good_name_def is_console_def)
  from do_setenv_updates [OF sample_env_rep(1) this, of "\<lambda>_ _. 0" "Some (cstr ''3'')"] show ?thesis
    by (auto simp: Let_def sample_env_rep(2) without_def default_kvs_def default_variables_def entry_def)
qed

lemma env_set_get_witness:
  "env_get (env_set (\<lambda>_ _. 0) sample_env (cstr ''bootdelay'') (cstr ''3'')) (cstr ''bootdelay'') = Some (cstr ''3'')"
proof -
  have o: "ordinary (cstr ''bootdelay'')"
    by (simp add: ordinary_def good_name_def is_console_def)
  have i: "env_inv sample_env"
    using sample_env_rep by (auto simp: env_inv_def)
  have "length (entries kvs) = 372" if "env_rep (env_data sample_env) kvs" for kvs
    using env_rep_unique [OF that sample_env_rep(1)] length_default_environment
    by (simp add: default_environment_entries)
  then have "length (entries (without (cstr ''bootdelay'') kvs)) \<le> 372"
    if "env_rep (env_data sample_env) kvs" for kvs
    using that length_without [of "cstr ''bootdelay''" kvs] by fastforce
  then have r: "env_room sample_env (cstr ''bootdelay'') (cstr ''3'')"
    by (fastforce simp: env_room_def sample_env_rep(2))
  show ?thesis
    using env_set_get [OF i o o r, of "\<lambda>_ _. 0"] by simp
qed

end
