(* ===== verification/NandEcc.thy ===== *)
theory NandEcc
  imports UBoot_Prelude
begin

text \<open>
  The software error correction of the NAND driver (\<open>drivers/mtd/nand/nand_ecc.c\<close>): three bytes
  of Hamming code for 256 bytes of data, in the byte order of a build without
  \<open>CONFIG_MTD_NAND_ECC_SMC\<close>. The lemmas show that the code is linear, so that an error leaves a
  syndrome that depends on the error alone; the properties are that any single wrong bit is put
  right and any two are reported.
\<close>

section \<open>The code\<close>

definition nand_ecc_precalc_table :: "u8 list" where
  "nand_ecc_precalc_table = [
    0x00, 0x55, 0x56, 0x03, 0x59, 0x0c, 0x0f, 0x5a, 0x5a, 0x0f, 0x0c, 0x59, 0x03, 0x56, 0x55, 0x00,
    0x65, 0x30, 0x33, 0x66, 0x3c, 0x69, 0x6a, 0x3f, 0x3f, 0x6a, 0x69, 0x3c, 0x66, 0x33, 0x30, 0x65,
    0x66, 0x33, 0x30, 0x65, 0x3f, 0x6a, 0x69, 0x3c, 0x3c, 0x69, 0x6a, 0x3f, 0x65, 0x30, 0x33, 0x66,
    0x03, 0x56, 0x55, 0x00, 0x5a, 0x0f, 0x0c, 0x59, 0x59, 0x0c, 0x0f, 0x5a, 0x00, 0x55, 0x56, 0x03,
    0x69, 0x3c, 0x3f, 0x6a, 0x30, 0x65, 0x66, 0x33, 0x33, 0x66, 0x65, 0x30, 0x6a, 0x3f, 0x3c, 0x69,
    0x0c, 0x59, 0x5a, 0x0f, 0x55, 0x00, 0x03, 0x56, 0x56, 0x03, 0x00, 0x55, 0x0f, 0x5a, 0x59, 0x0c,
    0x0f, 0x5a, 0x59, 0x0c, 0x56, 0x03, 0x00, 0x55, 0x55, 0x00, 0x03, 0x56, 0x0c, 0x59, 0x5a, 0x0f,
    0x6a, 0x3f, 0x3c, 0x69, 0x33, 0x66, 0x65, 0x30, 0x30, 0x65, 0x66, 0x33, 0x69, 0x3c, 0x3f, 0x6a,
    0x6a, 0x3f, 0x3c, 0x69, 0x33, 0x66, 0x65, 0x30, 0x30, 0x65, 0x66, 0x33, 0x69, 0x3c, 0x3f, 0x6a,
    0x0f, 0x5a, 0x59, 0x0c, 0x56, 0x03, 0x00, 0x55, 0x55, 0x00, 0x03, 0x56, 0x0c, 0x59, 0x5a, 0x0f,
    0x0c, 0x59, 0x5a, 0x0f, 0x55, 0x00, 0x03, 0x56, 0x56, 0x03, 0x00, 0x55, 0x0f, 0x5a, 0x59, 0x0c,
    0x69, 0x3c, 0x3f, 0x6a, 0x30, 0x65, 0x66, 0x33, 0x33, 0x66, 0x65, 0x30, 0x6a, 0x3f, 0x3c, 0x69,
    0x03, 0x56, 0x55, 0x00, 0x5a, 0x0f, 0x0c, 0x59, 0x59, 0x0c, 0x0f, 0x5a, 0x00, 0x55, 0x56, 0x03,
    0x66, 0x33, 0x30, 0x65, 0x3f, 0x6a, 0x69, 0x3c, 0x3c, 0x69, 0x6a, 0x3f, 0x65, 0x30, 0x33, 0x66,
    0x65, 0x30, 0x33, 0x66, 0x3c, 0x69, 0x6a, 0x3f, 0x3f, 0x6a, 0x69, 0x3c, 0x66, 0x33, 0x30, 0x65,
    0x00, 0x55, 0x56, 0x03, 0x59, 0x0c, 0x0f, 0x5a, 0x5a, 0x0f, 0x0c, 0x59, 0x03, 0x56, 0x55, 0x00
  ]"

text \<open>The registers of \<open>nand_calculate_ecc\<close>: column parity and the two line parities.\<close>

record ecc_regs =
  reg1 :: u8
  reg2 :: u8
  reg3 :: u8

definition ecc_step :: "u8 list \<Rightarrow> ecc_regs \<Rightarrow> nat \<Rightarrow> ecc_regs" where
  "ecc_step dat r i =
     (let idx = nand_ecc_precalc_table ! unat (dat ! i);
          r = r\<lparr>reg1 := reg1 r XOR (idx AND 0x3f)\<rparr>
      in if idx AND 0x40 \<noteq> 0
         then r\<lparr>reg3 := reg3 r XOR of_nat i, reg2 := reg2 r XOR NOT (of_nat i)\<rparr>
         else r)"

definition ecc_tmp1 :: "u8 \<Rightarrow> u8 \<Rightarrow> u8" where
  "ecc_tmp1 r3 r2 =
     drop_bit 0 (r3 AND 0x80) OR drop_bit 1 (r2 AND 0x80) OR
     drop_bit 1 (r3 AND 0x40) OR drop_bit 2 (r2 AND 0x40) OR
     drop_bit 2 (r3 AND 0x20) OR drop_bit 3 (r2 AND 0x20) OR
     drop_bit 3 (r3 AND 0x10) OR drop_bit 4 (r2 AND 0x10)"

definition ecc_tmp2 :: "u8 \<Rightarrow> u8 \<Rightarrow> u8" where
  "ecc_tmp2 r3 r2 =
     push_bit 4 (r3 AND 0x08) OR push_bit 3 (r2 AND 0x08) OR
     push_bit 3 (r3 AND 0x04) OR push_bit 2 (r2 AND 0x04) OR
     push_bit 2 (r3 AND 0x02) OR push_bit 1 (r2 AND 0x02) OR
     push_bit 1 (r3 AND 0x01) OR push_bit 0 (r2 AND 0x01)"

text \<open>The result is the contents of \<open>ecc_code[0..2]\<close>.\<close>

definition nand_calculate_ecc :: "u8 list \<Rightarrow> u8 \<times> u8 \<times> u8" where
  "nand_calculate_ecc dat =
     (let r = foldl (ecc_step dat) \<lparr>reg1 = 0, reg2 = 0, reg3 = 0\<rparr> [0..<256];
          tmp1 = ecc_tmp1 (reg3 r) (reg2 r);
          tmp2 = ecc_tmp2 (reg3 r) (reg2 r)
      in (NOT tmp1, NOT tmp2, push_bit 2 (NOT (reg1 r)) OR 0x03))"

function countbits :: "u32 \<Rightarrow> nat" where
  "countbits byte = (if byte = 0 then 0 else unat (byte AND 1) + countbits (drop_bit 1 byte))"
  by pat_completeness auto
termination
  by (relation "measure unat") (auto simp: drop_bit_eq_div unat_div_less)

declare countbits.simps [simp del]

definition EBADMSG :: int where
  "EBADMSG = 74"

definition ecc_byteoffs :: "u8 \<Rightarrow> u8 \<Rightarrow> u8" where
  "ecc_byteoffs s0 s1 =
     (push_bit 0 s1 AND 0x80) OR (push_bit 1 s1 AND 0x40) OR
     (push_bit 2 s1 AND 0x20) OR (push_bit 3 s1 AND 0x10) OR
     (drop_bit 4 s0 AND 0x08) OR (drop_bit 3 s0 AND 0x04) OR
     (drop_bit 2 s0 AND 0x02) OR (drop_bit 1 s0 AND 0x01)"

definition ecc_bitnum :: "u8 \<Rightarrow> u8" where
  "ecc_bitnum s2 =
     (drop_bit 5 s2 AND 0x04) OR (drop_bit 4 s2 AND 0x02) OR (drop_bit 3 s2 AND 0x01)"

definition ecc_single :: "u8 \<Rightarrow> u8 \<Rightarrow> u8 \<Rightarrow> bool" where
  "ecc_single s0 s1 s2 \<longleftrightarrow>
     (s0 XOR drop_bit 1 s0) AND 0x55 = 0x55 \<and>
     (s1 XOR drop_bit 1 s1) AND 0x55 = 0x55 \<and>
     (s2 XOR drop_bit 1 s2) AND 0x54 = 0x54"

text \<open>The result is the data, corrected in place, and the value returned.\<close>

definition nand_correct_data ::
  "u8 list \<Rightarrow> u8 \<times> u8 \<times> u8 \<Rightarrow> u8 \<times> u8 \<times> u8 \<Rightarrow> u8 list \<times> int" where
  "nand_correct_data dat read_ecc calc_ecc =
     (case (read_ecc, calc_ecc) of ((r0, r1, r2), (c0, c1, c2)) \<Rightarrow>
        let s1 = c0 XOR r0; s0 = c1 XOR r1; s2 = c2 XOR r2 in
        if s0 OR s1 OR s2 = 0 then (dat, 0)
        else if ecc_single s0 s1 s2 then
          (let byteoffs = unat (ecc_byteoffs s0 s1); bitnum = unat (ecc_bitnum s2)
           in (dat[byteoffs := dat ! byteoffs XOR push_bit bitnum 1], 1))
        else if countbits (ucast s0 OR push_bit 8 (ucast s1) OR push_bit 16 (ucast s2)) = 1
        then (dat, 1)
        else (dat, - EBADMSG))"

section \<open>The table is linear\<close>

definition ecc_unit :: "u8 list" where
  "ecc_unit = [0x55, 0x56, 0x59, 0x5a, 0x65, 0x66, 0x69, 0x6a]"

lemma nand_ecc_precalc_table_xor: "nand_ecc_precalc_table = xor_table ecc_unit"
  by (simp add: nand_ecc_precalc_table_def xor_table_def ecc_unit_def)

definition ecc_idx :: "u8 \<Rightarrow> u8" where
  "ecc_idx c = nand_ecc_precalc_table ! unat c"

lemma ecc_idx_xor: "ecc_idx (a XOR b) = ecc_idx a XOR ecc_idx b"
  using xor_table_xor [of "unat a" ecc_unit "unat b"] unat_u8_less [of a] unat_u8_less [of b]
  by (simp add: ecc_idx_def nand_ecc_precalc_table_xor unsigned_xor_eq ecc_unit_def)

lemma ecc_idx_bit: "b < 8 \<Longrightarrow> ecc_idx (push_bit b 1) = ecc_unit ! b"
  using less_8_cases [of b]
  by (auto simp: ecc_idx_def nand_ecc_precalc_table_def ecc_unit_def)

lemma ecc_unit_parity: "b < 8 \<Longrightarrow> ecc_unit ! b AND 0x40 \<noteq> 0"
  using less_8_cases [of b] by (auto simp: ecc_unit_def)

section \<open>The registers are linear\<close>

definition regs_xor :: "ecc_regs \<Rightarrow> ecc_regs \<Rightarrow> ecc_regs" where
  "regs_xor r q = \<lparr>reg1 = reg1 r XOR reg1 q, reg2 = reg2 r XOR reg2 q, reg3 = reg3 r XOR reg3 q\<rparr>"

definition ecc_contrib :: "nat \<Rightarrow> u8 \<Rightarrow> ecc_regs" where
  "ecc_contrib i c = \<lparr>reg1 = ecc_idx c AND 0x3f,
     reg2 = (if ecc_idx c AND 0x40 \<noteq> 0 then NOT (of_nat i) else 0),
     reg3 = (if ecc_idx c AND 0x40 \<noteq> 0 then of_nat i else 0)\<rparr>"

lemma ecc_step_contrib: "ecc_step dat r i = regs_xor r (ecc_contrib i (dat ! i))"
  by (simp add: ecc_step_def regs_xor_def ecc_contrib_def ecc_idx_def Let_def)

lemma regs_xor_ac:
  "regs_xor (regs_xor r q) p = regs_xor r (regs_xor q p)" "regs_xor r q = regs_xor q r"
  by (simp_all add: regs_xor_def xor.assoc) (simp add: xor.commute)

text \<open>Flipping bit \<open>b\<close> of byte \<open>i\<close>.\<close>

definition flip_at :: "nat \<Rightarrow> nat \<Rightarrow> u8 list \<Rightarrow> u8 list" where
  "flip_at i b dat = dat[i := dat ! i XOR push_bit b 1]"

definition ecc_delta :: "nat \<Rightarrow> nat \<Rightarrow> ecc_regs" where
  "ecc_delta i b = \<lparr>reg1 = ecc_unit ! b AND 0x3f, reg2 = NOT (of_nat i), reg3 = of_nat i\<rparr>"

lemma and_0x40_cases: "(x :: u8) AND 0x40 = 0 \<or> x AND 0x40 = 0x40"
  unfolding u8_eq_bits by (simp add: bit_and_iff)

lemma ecc_idx_exp: "b < 8 \<Longrightarrow> ecc_idx (2 ^ b) = ecc_unit ! b"
  using ecc_idx_bit [of b] by simp

lemma ecc_contrib_flip:
  assumes "b < 8"
  shows "ecc_contrib i (c XOR push_bit b 1) = regs_xor (ecc_contrib i c) (ecc_delta i b)"
proof -
  have u: "ecc_unit ! b AND 0x40 = 0x40"
    using ecc_unit_parity [OF assms] and_0x40_cases [of "ecc_unit ! b"] by blast
  have d: "(ecc_idx c XOR ecc_unit ! b) AND m = (ecc_idx c AND m) XOR (ecc_unit ! b AND m)" for m
    by (rule bit_word_eqI) (auto simp: bit_and_iff bit_xor_iff)
  show ?thesis
    using and_0x40_cases [of "ecc_idx c"]
    by (auto simp: ecc_contrib_def ecc_delta_def regs_xor_def ecc_idx_xor ecc_idx_exp [OF assms] u d)
qed

definition ecc_fold :: "u8 list \<Rightarrow> ecc_regs \<Rightarrow> nat list \<Rightarrow> ecc_regs" where
  "ecc_fold dat = foldl (ecc_step dat)"

lemma ecc_fold_other:
  "i \<notin> set is \<Longrightarrow> ecc_fold (flip_at i b dat) r is = ecc_fold dat r is"
  by (induction "is" arbitrary: r) (simp_all add: ecc_fold_def ecc_step_contrib flip_at_def)

lemma ecc_fold_start:
  "ecc_fold dat (regs_xor r d) is = regs_xor (ecc_fold dat r is) d"
proof (induction "is" arbitrary: r)
  case (Cons i "is")
  have "ecc_step dat (regs_xor r d) i = regs_xor (ecc_step dat r i) d"
    unfolding ecc_step_contrib regs_xor_ac(1) by (simp only: regs_xor_ac(2))
  then show ?case
    using Cons.IH by (simp add: ecc_fold_def)
qed (simp add: ecc_fold_def)

lemma ecc_fold_flip:
  assumes "i \<in> set is" and "distinct is" and "b < 8" and "i < length dat"
  shows "ecc_fold (flip_at i b dat) r is = regs_xor (ecc_fold dat r is) (ecc_delta i b)"
  using assms(1,2)
proof (induction "is" arbitrary: r)
  case (Cons k "is")
  show ?case
  proof (cases "k = i")
    case True
    have "ecc_step (flip_at i b dat) r i = regs_xor (ecc_step dat r i) (ecc_delta i b)"
      using assms(3,4)
      by (simp add: ecc_step_contrib flip_at_def ecc_contrib_flip [simplified] regs_xor_ac(1))
    moreover have "ecc_fold (flip_at i b dat) q is = ecc_fold dat q is" for q
      by (rule ecc_fold_other) (use Cons.prems True in simp)
    ultimately show ?thesis
      using True ecc_fold_start [of dat] by (simp add: ecc_fold_def)
  next
    case False
    then have "ecc_step (flip_at i b dat) r k = ecc_step dat r k"
      by (simp add: ecc_step_contrib flip_at_def)
    then show ?thesis
      using False Cons by (simp add: ecc_fold_def)
  qed
qed simp

section \<open>The syndrome of an error\<close>

lemma ecc_tmp1_bits:
  "bit (ecc_tmp1 a c) 7 = bit a 7" "bit (ecc_tmp1 a c) 6 = bit c 7"
  "bit (ecc_tmp1 a c) 5 = bit a 6" "bit (ecc_tmp1 a c) 4 = bit c 6"
  "bit (ecc_tmp1 a c) 3 = bit a 5" "bit (ecc_tmp1 a c) 2 = bit c 5"
  "bit (ecc_tmp1 a c) 1 = bit a 4" "bit (ecc_tmp1 a c) 0 = bit c 4"
  by (simp_all add: ecc_tmp1_def u8_bits)

lemma ecc_tmp2_bits:
  "bit (ecc_tmp2 a c) 7 = bit a 3" "bit (ecc_tmp2 a c) 6 = bit c 3"
  "bit (ecc_tmp2 a c) 5 = bit a 2" "bit (ecc_tmp2 a c) 4 = bit c 2"
  "bit (ecc_tmp2 a c) 3 = bit a 1" "bit (ecc_tmp2 a c) 2 = bit c 1"
  "bit (ecc_tmp2 a c) 1 = bit a 0" "bit (ecc_tmp2 a c) 0 = bit c 0"
  by (simp_all add: ecc_tmp2_def u8_bits)

lemma ecc_tmp_xor:
  "ecc_tmp1 (a XOR a') (c XOR c') = ecc_tmp1 a c XOR ecc_tmp1 a' c'"
  "ecc_tmp2 (a XOR a') (c XOR c') = ecc_tmp2 a c XOR ecc_tmp2 a' c'"
  by (simp_all only: u8_eq_bits bit_xor_iff ecc_tmp1_bits ecc_tmp2_bits simp_thms)

text \<open>The three syndrome bytes, in the order \<open>s0, s1, s2\<close> of the code.\<close>

definition ecc_syndrome :: "ecc_regs \<Rightarrow> u8 \<times> u8 \<times> u8" where
  "ecc_syndrome d =
     (ecc_tmp2 (reg3 d) (reg2 d), ecc_tmp1 (reg3 d) (reg2 d), push_bit 2 (reg1 d))"

definition ecc_regs_of :: "u8 list \<Rightarrow> ecc_regs" where
  "ecc_regs_of dat = ecc_fold dat \<lparr>reg1 = 0, reg2 = 0, reg3 = 0\<rparr> [0..<256]"

definition ecc_code :: "ecc_regs \<Rightarrow> u8 \<times> u8 \<times> u8" where
  "ecc_code r = (NOT (ecc_tmp1 (reg3 r) (reg2 r)), NOT (ecc_tmp2 (reg3 r) (reg2 r)),
     push_bit 2 (NOT (reg1 r)) OR 0x03)"

lemma nand_calculate_ecc_regs: "nand_calculate_ecc dat = ecc_code (ecc_regs_of dat)"
  by (simp add: nand_calculate_ecc_def ecc_code_def ecc_regs_of_def ecc_fold_def Let_def)

lemma not_xor_not: "NOT a XOR NOT b = a XOR (b :: u8)"
  by (rule bit_word_eqI) (auto simp: bit_simps)

lemma xor_eq_0_u8: "a XOR b = 0 \<longleftrightarrow> a = (b :: u8)"
  unfolding u8_eq_bits by (simp add: bit_xor_iff)

lemma ecc_code2_xor:
  "(push_bit 2 (NOT (a XOR d)) OR 0x03) XOR (push_bit 2 (NOT a) OR 0x03) = push_bit 2 (d :: u8)"
  unfolding u8_eq_bits by (auto simp: u8_bits)

lemma nand_correct_syndrome:
  "nand_correct_data dat (ecc_code r) (ecc_code (regs_xor r d)) =
     (case ecc_syndrome d of (s0, s1, s2) \<Rightarrow>
        if s0 OR s1 OR s2 = 0 then (dat, 0)
        else if ecc_single s0 s1 s2 then
          (let byteoffs = unat (ecc_byteoffs s0 s1); bitnum = unat (ecc_bitnum s2)
           in (dat[byteoffs := dat ! byteoffs XOR push_bit bitnum 1], 1))
        else if countbits (ucast s0 OR push_bit 8 (ucast s1) OR push_bit 16 (ucast s2)) = 1
        then (dat, 1)
        else (dat, - EBADMSG))"
proof -
  have x: "(a XOR b) XOR a = b" for a b :: u8
    by (rule bit_word_eqI) (auto simp: bit_xor_iff)
  show ?thesis
    by (simp only: nand_correct_data_def ecc_code_def ecc_syndrome_def regs_xor_def prod.case Let_def
        not_xor_not ecc_tmp_xor ecc_regs.simps x ecc_code2_xor)
qed

section \<open>One error\<close>

lemma ecc_delta_line:
  "ecc_single (ecc_tmp2 i (NOT i)) (ecc_tmp1 i (NOT i)) s2 \<longleftrightarrow>
     (s2 XOR drop_bit 1 s2) AND 0x54 = 0x54"
  "ecc_byteoffs (ecc_tmp2 i (NOT i)) (ecc_tmp1 i (NOT i)) = i"
  unfolding ecc_single_def ecc_byteoffs_def u8_eq_bits
  by (simp_all add: u8_bits ecc_tmp1_bits ecc_tmp2_bits ecc_tmp1_bits(7) [unfolded One_nat_def]
      ecc_tmp2_bits(7) [unfolded One_nat_def])

lemma ecc_delta_column:
  assumes "b < 8"
  shows "(push_bit 2 (ecc_unit ! b AND 0x3f) XOR drop_bit 1 (push_bit 2 (ecc_unit ! b AND 0x3f)))
      AND 0x54 = 0x54"
    and "ecc_bitnum (push_bit 2 (ecc_unit ! b AND 0x3f)) = of_nat b"
  using less_8_cases [OF assms] by (auto simp: ecc_unit_def ecc_bitnum_def)

lemma ecc_single_nonzero: "ecc_single s0 s1 s2 \<Longrightarrow> s0 OR s1 OR s2 \<noteq> 0"
proof
  assume "ecc_single s0 s1 s2" and "s0 OR s1 OR s2 = 0"
  then have "bit s2 2 \<noteq> bit s2 3" and "\<not> bit s2 2 \<and> \<not> bit s2 3"
    unfolding ecc_single_def u8_eq_bits by (auto simp: u8_bits)
  then show False by blast
qed

lemma flip_at_flip_at: "flip_at i b (flip_at i b dat) = dat"
proof -
  have "(x XOR m) XOR m = x" for x m :: u8
    by (rule bit_word_eqI) (auto simp: bit_xor_iff)
  then show ?thesis
    by (cases "i < length dat") (simp_all add: flip_at_def list_update_beyond)
qed

lemma nand_calculate_ecc_flip:
  assumes "i < 256" and "b < 8" and "i < length dat"
  shows "nand_calculate_ecc (flip_at i b dat) = ecc_code (regs_xor (ecc_regs_of dat) (ecc_delta i b))"
  unfolding nand_calculate_ecc_regs ecc_regs_of_def by (subst ecc_fold_flip) (use assms in auto)

lemma nand_correct_flip:
  assumes "i < 256" and "b < 8" and "256 \<le> length dat"
  shows "nand_correct_data (flip_at i b dat) (nand_calculate_ecc dat)
           (nand_calculate_ecc (flip_at i b dat)) = (dat, 1)"
proof -
  let ?i = "of_nat i :: u8" and ?s2 = "push_bit 2 (ecc_unit ! b AND 0x3f)"
  have syn: "ecc_syndrome (ecc_delta i b) = (ecc_tmp2 ?i (NOT ?i), ecc_tmp1 ?i (NOT ?i), ?s2)"
    by (simp add: ecc_syndrome_def ecc_delta_def)
  have single: "ecc_single (ecc_tmp2 ?i (NOT ?i)) (ecc_tmp1 ?i (NOT ?i)) ?s2"
    unfolding ecc_delta_line by (rule ecc_delta_column [OF assms(2)])
  have "unat ?i = i" and "unat (of_nat b :: u8) = b"
    using assms by (simp_all add: unat_of_nat)
  then have "nand_correct_data (flip_at i b dat) (ecc_code (ecc_regs_of dat))
      (ecc_code (regs_xor (ecc_regs_of dat) (ecc_delta i b))) = (flip_at i b (flip_at i b dat), 1)"
    by (simp only: nand_correct_syndrome syn prod.case single ecc_single_nonzero [OF single]
        ecc_delta_line ecc_delta_column [OF assms(2)] simp_thms if_True if_False Let_def flip_at_def)
  moreover have "i < length dat"
    using assms by simp
  ultimately show ?thesis
    unfolding nand_calculate_ecc_flip [OF assms(1,2) \<open>i < length dat\<close>]
    by (simp add: flip_at_flip_at nand_calculate_ecc_regs)
qed

text \<open>
  C3: a page that comes back with one wrong bit, anywhere in its 256 bytes, is put right: given
  the stored code and the code recomputed from the damaged data, \<open>nand_correct_data\<close> restores
  the data and returns 1.
\<close>

theorem nand_correct_single_bit:
  assumes "i < 256" and "b < 8" and "256 \<le> length dat"
  shows "nand_correct_data (flip_at i b dat) (nand_calculate_ecc dat)
           (nand_calculate_ecc (flip_at i b dat)) = (dat, 1)"
  using assms by (rule nand_correct_flip)

lemma nand_correct_single_bit_witness:
  "nand_correct_data (flip_at 200 5 (replicate 256 7)) (nand_calculate_ecc (replicate 256 7))
     (nand_calculate_ecc (flip_at 200 5 (replicate 256 7))) = (replicate 256 7, 1)"
  by (rule nand_correct_single_bit) simp_all

section \<open>Two errors, and errors in the code itself\<close>

lemma countbits_two:
  "bit w m \<Longrightarrow> bit w n \<Longrightarrow> m < n \<Longrightarrow> 2 \<le> countbits w"
proof (induction w arbitrary: m n rule: countbits.induct)
  case (1 w)
  have some: "1 \<le> countbits v" if "bit v k" for v k
    using that
  proof (induction v arbitrary: k rule: countbits.induct)
    case (1 v)
    have "v \<noteq> 0" using 1(2) by auto
    show ?case
    proof (cases k)
      case 0
      then show ?thesis
        using 1(2) \<open>v \<noteq> 0\<close> by (simp add: countbits.simps [of v] bit_0 and_one_eq odd_iff_mod_2_eq_one)
    next
      case (Suc k')
      then have "bit (drop_bit 1 v) k'" using 1(2) by (simp only: bit_drop_bit_eq o_apply plus_1_eq_Suc)
      then show ?thesis
        using 1(1) [OF \<open>v \<noteq> 0\<close>] by (subst countbits.simps) (auto intro: trans_le_add2)
    qed
  qed
  have "w \<noteq> 0" using 1(2) by auto
  obtain n' where n: "n = Suc n'" using 1(4) by (cases n) auto
  then have bn: "bit (drop_bit 1 w) n'"
    using 1(3) by (simp only: bit_drop_bit_eq o_apply plus_1_eq_Suc)
  show ?case
  proof (cases m)
    case 0
    then show ?thesis
      using some [OF bn] \<open>w \<noteq> 0\<close> 1(2)
      by (simp add: countbits.simps [of w] bit_0 and_one_eq odd_iff_mod_2_eq_one)
  next
    case (Suc m')
    then have "bit (drop_bit 1 w) m'"
      using 1(2) by (simp only: bit_drop_bit_eq o_apply plus_1_eq_Suc)
    then show ?thesis
      using 1(1) [OF \<open>w \<noteq> 0\<close> _ bn] Suc n 1(4) by (subst countbits.simps) (auto intro: trans_le_add2)
  qed
qed

lemma countbits_even_pairs:
  assumes pairs: "\<And>k. bit (w :: u32) (2 * k) = bit w (2 * k + 1)"
  shows "countbits w \<noteq> 1"
proof (cases "w = 0")
  case True
  then show ?thesis by (simp add: countbits.simps)
next
  case False
  then obtain n where n: "bit w n" by (auto simp: bit_eq_iff)
  have "n = 2 * (n div 2) \<or> n = 2 * (n div 2) + 1" by linarith
  then have "bit w (2 * (n div 2))" "bit w (2 * (n div 2) + 1)"
    using n pairs [of "n div 2"] by auto
  then have "2 \<le> countbits w"
    by (rule countbits_two) simp
  then show ?thesis by simp
qed

definition ecc_columns_ok :: "u8 \<Rightarrow> u8 \<Rightarrow> bool" where
  "ecc_columns_ok u v \<longleftrightarrow>
     (let s = push_bit 2 ((u AND 0x3f) XOR (v AND 0x3f))
      in bit s 2 = bit s 3 \<and> bit s 4 = bit s 5 \<and> bit s 6 = bit s 7 \<and> \<not> bit s 0 \<and> \<not> bit s 1 \<and>
         (s = 0 \<longleftrightarrow> u = v))"

lemma ecc_columns_all: "list_all (\<lambda>u. list_all (ecc_columns_ok u) ecc_unit) ecc_unit"
  by (simp add: ecc_unit_def ecc_columns_ok_def)

lemma ecc_columns_differ:
  assumes "b < 8" and "c < 8"
  defines "s \<equiv> push_bit 2 ((ecc_unit ! b AND 0x3f) XOR (ecc_unit ! c AND 0x3f))"
  shows "bit s 2 = bit s 3" "bit s 4 = bit s 5" "bit s 6 = bit s 7"
    "\<not> bit s 0" "\<not> bit s 1" "s = 0 \<longleftrightarrow> b = c"
proof -
  have len: "length ecc_unit = 8" and "distinct ecc_unit"
    by (simp_all add: ecc_unit_def)
  then have eq: "ecc_unit ! b = ecc_unit ! c \<longleftrightarrow> b = c"
    using assms(1,2) by (simp add: nth_eq_iff_index_eq)
  have "ecc_columns_ok (ecc_unit ! b) (ecc_unit ! c)"
    using ecc_columns_all assms(1,2) len by (simp add: list_all_length)
  then show "bit s 2 = bit s 3" "bit s 4 = bit s 5" "bit s 6 = bit s 7"
    "\<not> bit s 0" "\<not> bit s 1" "s = 0 \<longleftrightarrow> b = c"
    by (simp_all only: ecc_columns_ok_def Let_def s_def eq simp_thms)
qed

lemma ecc_tmp_pairs:
  "bit (ecc_tmp1 d d) 0 = bit (ecc_tmp1 d d) 1" "bit (ecc_tmp1 d d) 2 = bit (ecc_tmp1 d d) 3"
  "bit (ecc_tmp1 d d) 4 = bit (ecc_tmp1 d d) 5" "bit (ecc_tmp1 d d) 6 = bit (ecc_tmp1 d d) 7"
  "bit (ecc_tmp2 d d) 0 = bit (ecc_tmp2 d d) 1" "bit (ecc_tmp2 d d) 2 = bit (ecc_tmp2 d d) 3"
  "bit (ecc_tmp2 d d) 4 = bit (ecc_tmp2 d d) 5" "bit (ecc_tmp2 d d) 6 = bit (ecc_tmp2 d d) 7"
  by (simp_all only: ecc_tmp1_bits ecc_tmp2_bits)

lemma ecc_tmp_zero: "ecc_tmp1 d d = 0 \<Longrightarrow> ecc_tmp2 d d = 0 \<Longrightarrow> d = 0"
  unfolding u8_eq_bits ecc_tmp1_bits ecc_tmp2_bits by simp

text \<open>A pattern whose bits all come in equal pairs is neither corrected nor taken for a bad code.\<close>

lemma ecc_pairs_bad:
  fixes s0 s1 s2 :: u8
  assumes s0: "bit s0 0 = bit s0 1" "bit s0 2 = bit s0 3" "bit s0 4 = bit s0 5" "bit s0 6 = bit s0 7"
    and s1: "bit s1 0 = bit s1 1" "bit s1 2 = bit s1 3" "bit s1 4 = bit s1 5" "bit s1 6 = bit s1 7"
    and s2: "bit s2 0 = bit s2 1" "bit s2 2 = bit s2 3" "bit s2 4 = bit s2 5" "bit s2 6 = bit s2 7"
  shows "\<not> ecc_single s0 s1 s2"
    and "countbits (ucast s0 OR push_bit 8 (ucast s1) OR push_bit 16 (ucast s2)) \<noteq> 1"
proof -
  show "\<not> ecc_single s0 s1 s2"
    using s2 unfolding ecc_single_def u8_eq_bits by (simp add: u8_bits)
  have pair: "bit x (2 * k) = bit x (2 * k + 1)"
    if "bit x 0 = bit x 1" "bit x 2 = bit x 3" "bit x 4 = bit x 5" "bit x 6 = bit x 7"
    for x :: u8 and k
  proof -
    have "k = 0 \<or> k = 1 \<or> k = 2 \<or> k = 3 \<or> 4 \<le> k" by linarith
    then show ?thesis
      using that bit_u8_beyond [of "2 * k" x] bit_u8_beyond [of "2 * k + 1" x] by auto
  qed
  let ?w = "ucast s0 OR push_bit 8 (ucast s1) OR push_bit 16 (ucast s2) :: u32"
  have "bit ?w (2 * k) = bit ?w (2 * k + 1)" for k
  proof -
    have bw: "bit ?w n \<longleftrightarrow> n < 32 \<and> (bit s0 n \<or> (8 \<le> n \<and> bit s1 (n - 8)) \<or> (16 \<le> n \<and> bit s2 (n - 16)))" for n
      by (auto simp: bit_or_iff bit_push_bit_iff bit_ucast_iff bit_u8_beyond)
    have "2 * k + 1 - 8 = 2 * (k - 4) + 1 \<or> \<not> 8 \<le> 2 * k + 1"
      "2 * k + 1 - 16 = 2 * (k - 8) + 1 \<or> \<not> 16 \<le> 2 * k + 1"
      "2 * k - 8 = 2 * (k - 4)" "2 * k - 16 = 2 * (k - 8)"
      by auto
    moreover have "8 \<le> 2 * k + 1 \<longleftrightarrow> 8 \<le> 2 * k" "16 \<le> 2 * k + 1 \<longleftrightarrow> 16 \<le> 2 * k"
      "2 * k + 1 < 32 \<longleftrightarrow> 2 * k < 32"
      by presburger+
    ultimately show ?thesis
      unfolding bw using pair [OF s0, of k] pair [OF s1, of "k - 4"] pair [OF s2, of "k - 8"]
      by metis
  qed
  then show "countbits ?w \<noteq> 1"
    by (rule countbits_even_pairs)
qed

text \<open>
  C4: a page that comes back with two wrong bits is reported as beyond repair and its data left
  alone: \<open>nand_correct_data\<close> returns \<open>-EBADMSG\<close>, and never miscorrects.
\<close>

theorem nand_correct_double_bit:
  assumes "i < 256" and "b < 8" and "j < 256" and "c < 8" and "(i, b) \<noteq> (j, c)"
    and "256 \<le> length dat"
  defines "bad \<equiv> flip_at j c (flip_at i b dat)"
  shows "nand_correct_data bad (nand_calculate_ecc dat) (nand_calculate_ecc bad) = (bad, - EBADMSG)"
proof -
  let ?d = "of_nat i XOR of_nat j :: u8"
  let ?s2 = "push_bit 2 ((ecc_unit ! b AND 0x3f) XOR (ecc_unit ! c AND 0x3f))"
  have len: "i < length dat" "j < length (flip_at i b dat)"
    using assms by (simp_all add: flip_at_def)
  have regs: "ecc_regs_of bad = regs_xor (ecc_regs_of dat) (regs_xor (ecc_delta i b) (ecc_delta j c))"
    unfolding ecc_regs_of_def bad_def
    using assms(1-4) len by (simp add: ecc_fold_flip regs_xor_ac(1))
  have syn: "ecc_syndrome (regs_xor (ecc_delta i b) (ecc_delta j c)) =
      (ecc_tmp2 ?d ?d, ecc_tmp1 ?d ?d, ?s2)"
    by (simp add: ecc_syndrome_def ecc_delta_def regs_xor_def not_xor_not)
  have s2: "bit ?s2 0 = bit ?s2 1" "bit ?s2 2 = bit ?s2 3" "bit ?s2 4 = bit ?s2 5" "bit ?s2 6 = bit ?s2 7"
    using ecc_columns_differ(1-5) [OF assms(2,4)] by simp_all
  note bad2 = ecc_pairs_bad [OF ecc_tmp_pairs(5-8) [of ?d] ecc_tmp_pairs(1-4) [of ?d] s2]
  have "ecc_tmp2 ?d ?d OR ecc_tmp1 ?d ?d OR ?s2 \<noteq> 0"
  proof
    assume "ecc_tmp2 ?d ?d OR ecc_tmp1 ?d ?d OR ?s2 = 0"
    then have z: "ecc_tmp1 ?d ?d = 0" "ecc_tmp2 ?d ?d = 0" "?s2 = 0"
      by (simp_all only: or_eq_0_iff)
    then have "b = c"
      using ecc_columns_differ(6) [OF assms(2,4)] by simp
    moreover have "?d = 0"
      by (rule ecc_tmp_zero) (rule z)+
    then have "(of_nat i :: u8) = of_nat j"
      by (simp add: xor_eq_0_u8)
    then have "unat (of_nat i :: u8) = unat (of_nat j :: u8)"
      by (rule arg_cong)
    then have "i = j"
      using assms(1,3) by (simp add: unat_of_nat)
    ultimately show False
      using assms(5) by simp
  qed
  then show ?thesis
    unfolding nand_calculate_ecc_regs regs
    by (simp only: nand_correct_syndrome syn prod.case bad2 if_False)
qed

lemma nand_correct_double_bit_witness:
  "nand_correct_data (flip_at 9 0 (flip_at 200 5 (replicate 256 7)))
     (nand_calculate_ecc (replicate 256 7))
     (nand_calculate_ecc (flip_at 9 0 (flip_at 200 5 (replicate 256 7))))
   = (flip_at 9 0 (flip_at 200 5 (replicate 256 7)), - EBADMSG)"
  by (rule nand_correct_double_bit) simp_all

text \<open>Flipping one of the 24 stored bits of a code.\<close>

definition flip_code :: "nat \<Rightarrow> u8 \<times> u8 \<times> u8 \<Rightarrow> u8 \<times> u8 \<times> u8" where
  "flip_code k = (\<lambda>(c0, c1, c2).
     if k < 8 then (c0 XOR push_bit k 1, c1, c2)
     else if k < 16 then (c0, c1 XOR push_bit (k - 8) 1, c2)
     else (c0, c1, c2 XOR push_bit (k - 16) 1))"

lemma xor_xor_cancel: "c XOR c XOR m = m" "c XOR (m XOR c) = m" for c m :: u8
  by (rule bit_word_eqI; auto simp: bit_xor_iff)+

lemma countbits_exp:
  "k < 32 \<Longrightarrow> countbits (2 ^ k) = 1"
proof (induction k)
  case 0
  show ?case by (simp add: countbits.simps)
next
  case (Suc k)
  have "bit (2 ^ Suc k :: u32) (Suc k)" using Suc.prems by (simp only: bit_exp_iff) simp
  then have "(2 ^ Suc k :: u32) \<noteq> 0" by auto
  moreover have "drop_bit 1 (2 ^ Suc k :: u32) = 2 ^ k"
  proof (rule bit_word_eqI)
    fix n
    assume "n < LENGTH(32)"
    show "bit (drop_bit 1 (2 ^ Suc k :: u32)) n = bit (2 ^ k :: u32) n"
      using Suc.prems by (auto simp only: bit_drop_bit_eq bit_exp_iff o_apply possible_bit_word) simp
  qed
  moreover have "(2 ^ Suc k :: u32) AND 1 = 0"
    by (simp add: and_one_eq mod_2_eq_odd)
  ultimately show ?case
    using Suc by (subst countbits.simps) simp
qed

text \<open>A syndrome with a single bit set is an error in the code itself.\<close>

lemma ucast_exp: "l < 8 \<Longrightarrow> (ucast (2 ^ l :: u8) :: u32) = 2 ^ l"
  by (rule bit_word_eqI) (auto simp only: bit_ucast_iff bit_exp_iff possible_bit_word, simp)

lemma ecc_not_single: "\<not> ecc_single 0 s1 s2" "\<not> ecc_single s0 0 s2"
  by (simp_all add: ecc_single_def)

lemma nand_correct_one_bit:
  assumes "l < 8"
  shows "nand_correct_data dat (c0 XOR push_bit l 1, c1, c2) (c0, c1, c2) = (dat, 1)"
    and "nand_correct_data dat (c0, c1 XOR push_bit l 1, c2) (c0, c1, c2) = (dat, 1)"
    and "nand_correct_data dat (c0, c1, c2 XOR push_bit l 1) (c0, c1, c2) = (dat, 1)"
proof -
  have "bit (2 ^ l :: u8) l" using assms by (simp only: bit_exp_iff) simp
  then have nz: "(2 ^ l :: u8) \<noteq> 0" by auto
  have p: "push_bit 8 (2 ^ l :: u32) = 2 ^ (8 + l)" "push_bit 16 (2 ^ l :: u32) = 2 ^ (16 + l)"
    by (simp_all add: push_bit_eq_mult power_add)
  have c: "countbits (2 ^ l) = 1" "countbits (2 ^ (8 + l)) = 1" "countbits (2 ^ (16 + l)) = 1"
    by (rule countbits_exp, use assms in simp)+
  have nz': "\<not> 8 \<le> l" using assms by simp
  note s = nand_correct_data_def xor_xor_cancel push_bit_of_1 nz nz' ecc_not_single
    ucast_exp [OF assms] p c Let_def
  show "nand_correct_data dat (c0 XOR push_bit l 1, c1, c2) (c0, c1, c2) = (dat, 1)"
    "nand_correct_data dat (c0, c1 XOR push_bit l 1, c2) (c0, c1, c2) = (dat, 1)"
    "nand_correct_data dat (c0, c1, c2 XOR push_bit l 1) (c0, c1, c2) = (dat, 1)"
    by (simp_all add: s)
qed

text \<open>
  Intact data is accepted unchanged: with the stored code whole, \<open>nand_correct_data\<close> returns
  0; with one of its 24 bits damaged it returns 1, the data again left alone.
\<close>

theorem nand_correct_intact_data:
  "nand_correct_data dat ecc ecc = (dat, 0) \<and>
   (k < 24 \<longrightarrow> nand_correct_data dat (flip_code k ecc) ecc = (dat, 1))"
proof -
  obtain c0 c1 c2 where ecc: "ecc = (c0, c1, c2)" by (cases ecc)
  have "nand_correct_data dat (flip_code k ecc) ecc = (dat, 1)" if "k < 24"
    using that nand_correct_one_bit [of k] nand_correct_one_bit [of "k - 8"]
      nand_correct_one_bit [of "k - 16"]
    by (simp add: ecc flip_code_def)
  then show ?thesis
    by (simp add: ecc nand_correct_data_def)
qed

lemma nand_correct_intact_data_witness:
  "nand_correct_data [] (1, 2, 3) (1, 2, 3) = ([], 0) \<and>
   nand_correct_data [] (flip_code 9 (1, 2, 3)) (1, 2, 3) = ([], 1)"
  using nand_correct_intact_data [of "[]" "(1, 2, 3)" 9] by simp

end
