(* ===== verification/Lmb.thy ===== *)
theory Lmb
  imports UBoot_Prelude
begin

text \<open>
  The logical memory blocks (\<open>lib_generic/lmb.c\<close>), the allocator that places the kernel, the
  ramdisk and the device tree at boot. A table of at most eight regions, kept sorted and merged,
  records the memory there is and another the memory that is reserved. The lemmas relate the
  table to the set of addresses it covers: adding, freeing, searching and allocating are proved
  against that set. Addresses and sizes are 32-bit words, as \<open>phys_addr_t\<close> and \<open>phys_size_t\<close> are
  on this board, and the counters wrap as the unsigned longs of the code do.
\<close>

section \<open>The table and its operations\<close>

definition MAX_LMB_REGIONS :: nat where
  "MAX_LMB_REGIONS = 8"

record lmb_property =
  base :: u32
  rsize :: u32

record lmb_region =
  cnt :: u32
  total :: u32
  region :: "lmb_property list"

record lmb =
  memory :: lmb_region
  reserved :: lmb_region

definition lmb_addrs_overlap :: "u32 \<Rightarrow> u32 \<Rightarrow> u32 \<Rightarrow> u32 \<Rightarrow> bool" where
  "lmb_addrs_overlap base1 size1 base2 size2 \<longleftrightarrow> base1 < base2 + size2 \<and> base2 < base1 + size1"

definition lmb_addrs_adjacent :: "u32 \<Rightarrow> u32 \<Rightarrow> u32 \<Rightarrow> u32 \<Rightarrow> int" where
  "lmb_addrs_adjacent base1 size1 base2 size2 =
     (if base2 = base1 + size1 then 1 else if base1 = base2 + size2 then - 1 else 0)"

definition lmb_regions_adjacent :: "lmb_region \<Rightarrow> nat \<Rightarrow> nat \<Rightarrow> int" where
  "lmb_regions_adjacent rgn r1 r2 =
     lmb_addrs_adjacent (base (region rgn ! r1)) (rsize (region rgn ! r1))
       (base (region rgn ! r2)) (rsize (region rgn ! r2))"

definition lmb_remove_region :: "lmb_region \<Rightarrow> nat \<Rightarrow> lmb_region" where
  "lmb_remove_region rgn r =
     rgn\<lparr>region := foldl (\<lambda>reg i. reg[i := reg ! (i + 1)]) (region rgn) [r..<unat (cnt rgn - 1)],
         cnt := cnt rgn - 1\<rparr>"

definition lmb_coalesce_regions :: "lmb_region \<Rightarrow> nat \<Rightarrow> nat \<Rightarrow> lmb_region" where
  "lmb_coalesce_regions rgn r1 r2 =
     lmb_remove_region
       (rgn\<lparr>region := (region rgn)[r1 := (region rgn ! r1)
              \<lparr>rsize := rsize (region rgn ! r1) + rsize (region rgn ! r2)\<rparr>]\<rparr>) r2"

definition lmb_init :: "lmb \<Rightarrow> lmb" where
  "lmb_init l =
     l\<lparr>memory := (memory l)\<lparr>region := (region (memory l))[0 := \<lparr>base = 0, rsize = 0\<rparr>],
         cnt := 1, total := 0\<rparr>,
       reserved := (reserved l)\<lparr>region := (region (reserved l))[0 := \<lparr>base = 0, rsize = 0\<rparr>],
         cnt := 1, total := 0\<rparr>\<rparr>"

text \<open>
  The scan of \<open>lmb_add_region\<close> for a region that is the new one or touches it; \<open>i\<close> is the index
  of the head of the list.
\<close>

datatype lmb_scan_result = Have | Before nat | After nat | Past nat

fun lmb_scan :: "u32 \<Rightarrow> u32 \<Rightarrow> nat \<Rightarrow> lmb_property list \<Rightarrow> lmb_scan_result" where
  "lmb_scan b s i [] = Past i"
| "lmb_scan b s i (r # rs) =
     (if base r = b \<and> rsize r = s then Have
      else let adjacent = lmb_addrs_adjacent b s (base r) (rsize r) in
        if adjacent > 0 then Before i
        else if adjacent < 0 then After i
        else lmb_scan b s (i + 1) rs)"

text \<open>The shifting loop that makes room in the sorted table, from index \<open>i - 1\<close> down to 0.\<close>

fun lmb_insert :: "u32 \<Rightarrow> u32 \<Rightarrow> nat \<Rightarrow> lmb_property list \<Rightarrow> lmb_property list" where
  "lmb_insert b s 0 reg = reg"
| "lmb_insert b s (Suc i) reg =
     (if b < base (reg ! i) then lmb_insert b s i (reg[i + 1 := reg ! i])
      else reg[i + 1 := \<lparr>base = b, rsize = s\<rparr>])"

definition lmb_add_region :: "lmb_region \<Rightarrow> u32 \<Rightarrow> u32 \<Rightarrow> lmb_region \<times> int" where
  "lmb_add_region rgn b s =
     (if cnt rgn = 1 \<and> rsize (region rgn ! 0) = 0
      then (rgn\<lparr>region := (region rgn)[0 := \<lparr>base = b, rsize = s\<rparr>]\<rparr>, 0)
      else
        let found = lmb_scan b s 0 (take (unat (cnt rgn)) (region rgn)) in
        if found = Have then (rgn, 0)
        else
          let (rgn, i, coalesced) =
            (case found of
               Before i \<Rightarrow>
                 (rgn\<lparr>region := (region rgn)[i := \<lparr>base = base (region rgn ! i) - s,
                    rsize = rsize (region rgn ! i) + s\<rparr>]\<rparr>, i, 1)
             | After i \<Rightarrow>
                 (rgn\<lparr>region := (region rgn)[i := (region rgn ! i)
                    \<lparr>rsize := rsize (region rgn ! i) + s\<rparr>]\<rparr>, i, 1)
             | Past i \<Rightarrow> (rgn, i, 0 :: int)
             | Have \<Rightarrow> (rgn, 0, 0));
            (rgn, coalesced) =
              (if of_nat i < cnt rgn - 1 \<and> lmb_regions_adjacent rgn i (i + 1) \<noteq> 0
               then (lmb_coalesce_regions rgn i (i + 1), coalesced + 1)
               else (rgn, coalesced))
          in if coalesced \<noteq> 0 then (rgn, coalesced)
             else if MAX_LMB_REGIONS \<le> unat (cnt rgn) then (rgn, - 1)
             else
               let reg = lmb_insert b s (nat (sint (cnt rgn - 1) + 1)) (region rgn);
                   reg = (if b < base (reg ! 0) then reg[0 := \<lparr>base = b, rsize = s\<rparr>] else reg)
               in (rgn\<lparr>region := reg, cnt := cnt rgn + 1\<rparr>, 0))"

definition lmb_add :: "lmb \<Rightarrow> u32 \<Rightarrow> u32 \<Rightarrow> lmb \<times> int" where
  "lmb_add l b s =
     (let (rgn, r) = lmb_add_region (memory l) b s in (l\<lparr>memory := rgn\<rparr>, r))"

definition lmb_reserve :: "lmb \<Rightarrow> u32 \<Rightarrow> u32 \<Rightarrow> lmb \<times> int" where
  "lmb_reserve l b s =
     (let (rgn, r) = lmb_add_region (reserved l) b s in (l\<lparr>reserved := rgn\<rparr>, r))"

text \<open>The search of \<open>lmb_free\<close> for the region that holds the range from \<open>b\<close> to \<open>e\<close>.\<close>

fun lmb_find_holder :: "u32 \<Rightarrow> u32 \<Rightarrow> nat \<Rightarrow> lmb_property list \<Rightarrow> nat option" where
  "lmb_find_holder b e i [] = None"
| "lmb_find_holder b e i (r # rs) =
     (if base r \<le> b \<and> e \<le> base r + rsize r then Some i else lmb_find_holder b e (i + 1) rs)"

definition lmb_free_region :: "lmb_region \<Rightarrow> u32 \<Rightarrow> u32 \<Rightarrow> lmb_region \<times> int" where
  "lmb_free_region rgn b s =
     (let e = b + s in
      case lmb_find_holder b e 0 (take (unat (cnt rgn)) (region rgn)) of
        None \<Rightarrow> (rgn, - 1)
      | Some i \<Rightarrow>
          let r = region rgn ! i; rgnbegin = base r; rgnend = rgnbegin + rsize r in
          if rgnbegin = b \<and> rgnend = e then (lmb_remove_region rgn i, 0)
          else if rgnbegin = b then
            (rgn\<lparr>region := (region rgn)[i := \<lparr>base = e, rsize = rsize r - s\<rparr>]\<rparr>, 0)
          else if rgnend = e then
            (rgn\<lparr>region := (region rgn)[i := r\<lparr>rsize := rsize r - s\<rparr>]\<rparr>, 0)
          else
            lmb_add_region (rgn\<lparr>region := (region rgn)[i := r\<lparr>rsize := b - base r\<rparr>]\<rparr>)
              e (rgnend - e))"

definition lmb_free :: "lmb \<Rightarrow> u32 \<Rightarrow> u32 \<Rightarrow> lmb \<times> int" where
  "lmb_free l b s =
     (let (rgn, r) = lmb_free_region (reserved l) b s in (l\<lparr>reserved := rgn\<rparr>, r))"

fun lmb_overlap_scan :: "u32 \<Rightarrow> u32 \<Rightarrow> nat \<Rightarrow> lmb_property list \<Rightarrow> nat option" where
  "lmb_overlap_scan b s i [] = None"
| "lmb_overlap_scan b s i (r # rs) =
     (if lmb_addrs_overlap b s (base r) (rsize r) then Some i else lmb_overlap_scan b s (i + 1) rs)"

text \<open>\<open>None\<close> is the code's result \<open>-1\<close>.\<close>

definition lmb_overlaps_region :: "lmb_region \<Rightarrow> u32 \<Rightarrow> u32 \<Rightarrow> nat option" where
  "lmb_overlaps_region rgn b s = lmb_overlap_scan b s 0 (take (unat (cnt rgn)) (region rgn))"

definition lmb_align_down :: "u32 \<Rightarrow> u32 \<Rightarrow> u32" where
  "lmb_align_down addr s = addr AND NOT (s - 1)"

definition lmb_align_up :: "u32 \<Rightarrow> u32 \<Rightarrow> u32" where
  "lmb_align_up addr s = (addr + (s - 1)) AND NOT (s - 1)"

lemma lmb_align_down_le: "lmb_align_down a s \<le> a"
  unfolding lmb_align_down_def by (rule word_and_le2)

lemma lmb_overlap_scan_overlaps:
  "lmb_overlap_scan b s i rs = Some j \<Longrightarrow>
     i \<le> j \<and> j - i < length rs \<and> lmb_addrs_overlap b s (base (rs ! (j - i))) (rsize (rs ! (j - i)))"
proof (induction rs arbitrary: i)
  case (Cons r rs)
  show ?case
  proof (cases "lmb_addrs_overlap b s (base r) (rsize r)")
    case False
    then have "Suc i \<le> j \<and> j - Suc i < length rs \<and>
        lmb_addrs_overlap b s (base (rs ! (j - Suc i))) (rsize (rs ! (j - Suc i)))"
      using Cons.IH [of "Suc i"] Cons.prems by simp
    moreover from this have "j - i = Suc (j - Suc i)" by linarith
    ultimately show ?thesis by simp
  qed (use Cons.prems in auto)
qed simp

text \<open>The next candidate lies strictly below, so the search of a region ends.\<close>

lemma lmb_candidate_less:
  assumes "lmb_addrs_overlap b s rb rs" and "\<not> rb < s"
  shows "rb - s < b"
proof -
  have "unat rb < unat (b + s)" and "unat s \<le> unat rb"
    using assms by (simp_all add: lmb_addrs_overlap_def word_less_nat_alt)
  moreover from this have "unat (rb - s) = unat rb - unat s"
    by (simp add: unat_sub_if')
  moreover have "unat (b + s) \<le> unat b + unat s"
    by (simp add: unat_plus_if')
  ultimately show ?thesis
    unfolding word_less_nat_alt by linarith
qed

function lmb_alloc_scan ::
  "lmb_region \<Rightarrow> u32 \<Rightarrow> u32 \<Rightarrow> u32 \<Rightarrow> u32 \<Rightarrow> u32 option" where
  "lmb_alloc_scan rsv s align lmbbase b =
     (if b \<noteq> 0 \<and> lmbbase \<le> b then
        (case lmb_overlaps_region rsv b s of
           None \<Rightarrow> Some b
         | Some j \<Rightarrow>
             let res_base = base (region rsv ! j) in
             if res_base < s then None
             else lmb_alloc_scan rsv s align lmbbase (lmb_align_down (res_base - s) align))
      else None)"
  by pat_completeness auto
termination
proof (relation "measure (\<lambda>(rsv, s, align, lmbbase, b). unat b)", goal_cases)
  case (2 rsv s align lmbbase b j rb)
  then have "j < unat (cnt rsv)" and "lmb_addrs_overlap b s (base (region rsv ! j)) (rsize (region rsv ! j))"
    using lmb_overlap_scan_overlaps [of b s 0 "take (unat (cnt rsv)) (region rsv)" j]
    by (auto simp: lmb_overlaps_region_def)
  then have "rb - s < b"
    using 2 by (simp add: lmb_candidate_less)
  then have "lmb_align_down (rb - s) align < b"
    by (rule le_less_trans [OF lmb_align_down_le])
  then show ?case by (simp add: word_less_nat_alt)
qed simp

declare lmb_alloc_scan.simps [simp del]

text \<open>
  The loop over the regions of memory, from the last down to the first; it ends with the base
  found, or with none. \<open>rs\<close> lists the regions in the order of the loop.
\<close>

fun lmb_alloc_loop ::
  "lmb_region \<Rightarrow> u32 \<Rightarrow> u32 \<Rightarrow> u32 \<Rightarrow> lmb_property list \<Rightarrow> u32 option" where
  "lmb_alloc_loop rsv s align max_addr [] = None"
| "lmb_alloc_loop rsv s align max_addr (r # rs) =
     (if rsize r < s then lmb_alloc_loop rsv s align max_addr rs
      else if max_addr \<noteq> 0 \<and> \<not> base r < max_addr then lmb_alloc_loop rsv s align max_addr rs
      else
        let b = (if max_addr = 0 then lmb_align_down (base r + rsize r - s) align
                 else lmb_align_down (min (base r + rsize r) max_addr - s) align)
        in case lmb_alloc_scan rsv s align (base r) b of
             Some b \<Rightarrow> Some b
           | None \<Rightarrow> lmb_alloc_loop rsv s align max_addr rs)"

definition lmb_alloc_base' :: "lmb \<Rightarrow> u32 \<Rightarrow> u32 \<Rightarrow> u32 \<Rightarrow> lmb \<times> u32" where
  "lmb_alloc_base' l s align max_addr =
     (case lmb_alloc_loop (reserved l) s align max_addr
             (rev (take (unat (cnt (memory l))) (region (memory l)))) of
        None \<Rightarrow> (l, 0)
      | Some b \<Rightarrow>
          let (rsv, r) = lmb_add_region (reserved l) b (lmb_align_up s align) in
          (l\<lparr>reserved := rsv\<rparr>, if r < 0 then 0 else b))"

text \<open>\<open>lmb_alloc_base\<close> adds a message on failure.\<close>

definition lmb_alloc_base :: "lmb \<Rightarrow> u32 \<Rightarrow> u32 \<Rightarrow> u32 \<Rightarrow> lmb \<times> u32" where
  "lmb_alloc_base l s align max_addr = lmb_alloc_base' l s align max_addr"

definition lmb_alloc :: "lmb \<Rightarrow> u32 \<Rightarrow> u32 \<Rightarrow> lmb \<times> u32" where
  "lmb_alloc l s align = lmb_alloc_base l s align 0"

fun lmb_reserved_scan :: "u32 \<Rightarrow> lmb_property list \<Rightarrow> bool" where
  "lmb_reserved_scan addr [] = False"
| "lmb_reserved_scan addr (r # rs) =
     (if base r \<le> addr \<and> addr \<le> base r + rsize r - 1 then True else lmb_reserved_scan addr rs)"

definition lmb_is_reserved :: "lmb \<Rightarrow> u32 \<Rightarrow> bool" where
  "lmb_is_reserved l addr =
     lmb_reserved_scan addr (take (unat (cnt (reserved l))) (region (reserved l)))"

section \<open>The addresses a table covers\<close>

definition pend :: "lmb_property \<Rightarrow> nat" where
  "pend p = unat (base p) + unat (rsize p)"

definition addrs_of :: "lmb_property \<Rightarrow> nat set" where
  "addrs_of p = {unat (base p)..<pend p}"

definition regions_of :: "lmb_region \<Rightarrow> lmb_property list" where
  "regions_of rgn = take (unat (cnt rgn)) (region rgn)"

definition addrs :: "lmb_property list \<Rightarrow> nat set" where
  "addrs ps = (\<Union>p \<in> set ps. addrs_of p)"

text \<open>
  A region is proper when it is not empty and ends below the top of the address space; a list of
  them is well formed when they are sorted and no two overlap or touch.
\<close>

definition proper :: "lmb_property \<Rightarrow> bool" where
  "proper p \<longleftrightarrow> rsize p \<noteq> 0 \<and> pend p < 2 ^ 32"

definition wf_regions :: "lmb_property list \<Rightarrow> bool" where
  "wf_regions ps \<longleftrightarrow> list_all proper ps \<and> sorted_wrt (\<lambda>p q. pend p < unat (base q)) ps"

text \<open>The table is either the dummy that \<open>lmb_init\<close> leaves or holds one to eight proper regions.\<close>

definition wf_table :: "lmb_region \<Rightarrow> bool" where
  "wf_table rgn \<longleftrightarrow> length (region rgn) = MAX_LMB_REGIONS + 1 \<and>
     1 \<le> unat (cnt rgn) \<and> unat (cnt rgn) \<le> MAX_LMB_REGIONS \<and>
     (regions_of rgn = [\<lparr>base = 0, rsize = 0\<rparr>] \<or> wf_regions (regions_of rgn))"

definition covered :: "lmb_region \<Rightarrow> nat set" where
  "covered rgn = addrs (regions_of rgn)"

definition span :: "u32 \<Rightarrow> u32 \<Rightarrow> nat set" where
  "span b s = {unat b..<unat b + unat s}"

lemma addrs_simps [simp]:
  "addrs [] = {}" "addrs (p # ps) = addrs_of p \<union> addrs ps" "addrs (ps @ qs) = addrs ps \<union> addrs qs"
  by (simp_all add: addrs_def)

lemma wf_regions_simps [simp]:
  "wf_regions []"
  "wf_regions (p # ps) \<longleftrightarrow> proper p \<and> (\<forall>q \<in> set ps. pend p < unat (base q)) \<and> wf_regions ps"
  "wf_regions (ps @ qs) \<longleftrightarrow>
     wf_regions ps \<and> wf_regions qs \<and> (\<forall>p \<in> set ps. \<forall>q \<in> set qs. pend p < unat (base q))"
  by (auto simp: wf_regions_def sorted_wrt_append)

lemma wf_regions_proper: "wf_regions ps \<Longrightarrow> p \<in> set ps \<Longrightarrow> proper p"
  by (simp add: wf_regions_def list_all_iff)

lemma properD:
  assumes "proper p"
  shows "unat (base p + rsize p) = pend p" "unat (base p) < pend p" "0 < unat (rsize p)"
    "pend p < 4294967296"
  using assms by (simp_all add: proper_def pend_def unat_plus_if' unat_gt_0)

lemma unat_add_fits: "unat b + unat s < 4294967296 \<Longrightarrow> unat (b + s :: u32) = unat b + unat s"
  by (simp add: unat_plus_if')

section \<open>The loops on lists\<close>

text \<open>Removing shifts the rest down over the entry; the last entry stays behind, uncounted.\<close>

lemma remove_loop_list:
  "foldl (\<lambda>reg i. reg[i := reg ! (i + 1)]) (xs @ p # ys @ rest)
     [length xs..<length xs + length ys] = xs @ ys @ last (p # ys) # rest"
proof (induction ys arbitrary: xs p)
  case (Cons y ys)
  have "foldl (\<lambda>reg i. reg[i := reg ! (i + 1)]) ((xs @ [y]) @ y # ys @ rest)
      [length (xs @ [y])..<length (xs @ [y]) + length ys] = (xs @ [y]) @ ys @ last (y # ys) # rest"
    by (rule Cons.IH)
  moreover have "[length xs..<length xs + length (y # ys)]
      = length xs # [length (xs @ [y])..<length (xs @ [y]) + length ys]"
    by (simp add: upt_rec)
  moreover have "(xs @ p # y # ys @ rest) ! (length xs + 1) = y"
    by (simp add: nth_append)
  ultimately show ?case
    by (simp add: list_update_append)
qed simp

text \<open>Inserting shifts the entries above the new one up by one.\<close>

lemma lmb_insert_list:
  assumes "\<forall>y \<in> set ys. b < base y" and "xs \<noteq> [] \<Longrightarrow> base (last xs) \<le> b"
  shows "lmb_insert b s (length xs + length ys) (xs @ ys @ r # rest) =
    (if xs \<noteq> [] then xs @ \<lparr>base = b, rsize = s\<rparr> # ys @ rest
     else if ys = [] then r # rest else hd ys # ys @ rest)"
  using assms
proof (induction ys arbitrary: r rest rule: rev_induct)
  case Nil
  show ?case
  proof (cases xs rule: rev_cases)
    case (snoc xs' x)
    then have "\<not> b < base x" using Nil by simp
    then show ?thesis
      using snoc by (simp add: nth_append list_update_append)
  qed simp
next
  case (snoc y ys)
  have "lmb_insert b s (length xs + length ys) (xs @ ys @ y # y # rest) =
      (if xs \<noteq> [] then xs @ \<lparr>base = b, rsize = s\<rparr> # ys @ y # rest
       else if ys = [] then y # y # rest else hd ys # ys @ y # rest)"
    by (rule snoc.IH) (use snoc.prems in auto)
  then show ?case
    using snoc.prems by (simp add: nth_append list_update_append hd_append)
qed

lemma lmb_scan_cases:
  "lmb_scan b s i ps = Have \<Longrightarrow> \<exists>p \<in> set ps. base p = b \<and> rsize p = s"
  "lmb_scan b s i ps = Before j \<Longrightarrow> \<exists>xs p ys. ps = xs @ p # ys \<and> j = i + length xs \<and>
     lmb_addrs_adjacent b s (base p) (rsize p) > 0 \<and>
     (\<forall>q \<in> set xs. lmb_addrs_adjacent b s (base q) (rsize q) = 0)"
  "lmb_scan b s i ps = After j \<Longrightarrow> \<exists>xs p ys. ps = xs @ p # ys \<and> j = i + length xs \<and>
     lmb_addrs_adjacent b s (base p) (rsize p) < 0 \<and>
     (\<forall>q \<in> set xs. lmb_addrs_adjacent b s (base q) (rsize q) = 0)"
  "lmb_scan b s i ps = Past j \<Longrightarrow> j = i + length ps \<and>
     (\<forall>q \<in> set ps. lmb_addrs_adjacent b s (base q) (rsize q) = 0)"
proof (induction ps arbitrary: i)
  case (Cons p ps)
  let ?a = "lmb_addrs_adjacent b s (base p) (rsize p)"
  have cons: "\<exists>xs q ys. p # ps = xs @ q # ys \<and> j = i + length xs \<and> P q \<and>
      (\<forall>q \<in> set xs. lmb_addrs_adjacent b s (base q) (rsize q) = 0)"
    if "\<exists>xs q ys. ps = xs @ q # ys \<and> j = i + 1 + length xs \<and> P q \<and>
      (\<forall>q \<in> set xs. lmb_addrs_adjacent b s (base q) (rsize q) = 0)" and "?a = 0" for P i
  proof -
    from that(1) obtain xs q ys where "ps = xs @ q # ys" "j = i + 1 + length xs" "P q"
      "\<forall>q \<in> set xs. lmb_addrs_adjacent b s (base q) (rsize q) = 0"
      by blast
    then show ?thesis
      using \<open>?a = 0\<close> by (intro exI [of _ "p # xs"] exI [of _ q] exI [of _ ys]) simp
  qed
  {
    case 1
    then show ?case using Cons.IH(1) [of "i + 1"] by (auto simp: Let_def split: if_splits)
  next
    case 2
    show ?case
    proof (cases "?a > 0")
      case True
      then show ?thesis
        using 2 by (intro exI [of _ "[]"] exI [of _ p] exI [of _ ps]) (simp split: if_splits)
    next
      case False
      then have z: "?a = 0" and scan: "lmb_scan b s (i + 1) ps = Before j"
        using 2 by (auto simp: Let_def split: if_splits)
      show ?thesis
        by (rule cons [where P = "\<lambda>q. lmb_addrs_adjacent b s (base q) (rsize q) > 0"])
          (rule Cons.IH(2) [OF scan], rule z)
    qed
  next
    case 3
    show ?case
    proof (cases "?a < 0")
      case True
      then show ?thesis
        using 3 by (intro exI [of _ "[]"] exI [of _ p] exI [of _ ps]) (simp split: if_splits)
    next
      case False
      then have z: "?a = 0" and scan: "lmb_scan b s (i + 1) ps = After j"
        using 3 by (auto simp: Let_def split: if_splits)
      show ?thesis
        by (rule cons [where P = "\<lambda>q. lmb_addrs_adjacent b s (base q) (rsize q) < 0"])
          (rule Cons.IH(3) [OF scan], rule z)
    qed
  next
    case 4
    then show ?case using Cons.IH(4) [of "i + 1"] by (auto simp: Let_def split: if_splits)
  }
qed simp_all

section \<open>Adding a region\<close>

text \<open>The new region \<open>b, s\<close> is proper and clear of those there are.\<close>

definition fits :: "u32 \<Rightarrow> u32 \<Rightarrow> lmb_property list \<Rightarrow> bool" where
  "fits b s ps \<longleftrightarrow> s \<noteq> 0 \<and> unat b + unat s < 2 ^ 32 \<and>
     (\<forall>p \<in> set ps. unat b + unat s \<le> unat (base p) \<or> pend p \<le> unat b)"

lemma fits_iff_disjoint:
  assumes "list_all proper ps" and "s \<noteq> 0" and "unat b + unat s < 2 ^ 32"
  shows "fits b s ps \<longleftrightarrow> addrs ps \<inter> span b s = {}"
proof -
  have "addrs_of p \<inter> span b s = {} \<longleftrightarrow> unat b + unat s \<le> unat (base p) \<or> pend p \<le> unat b"
    if "proper p" for p
  proof -
    have "unat (base p) < pend p" "0 < unat s"
      using properD [OF that] assms(2) by (simp_all add: unat_gt_0)
    then show ?thesis
      unfolding addrs_of_def span_def by (auto simp: disjoint_iff Ball_def)
  qed
  then show ?thesis
    using assms by (auto simp: fits_def addrs_def list_all_iff)
qed

lemma adjacent_iff:
  assumes "proper p" and "fits b s [p]"
  shows "lmb_addrs_adjacent b s (base p) (rsize p) > 0 \<longleftrightarrow> unat (base p) = unat b + unat s"
    and "lmb_addrs_adjacent b s (base p) (rsize p) < 0 \<longleftrightarrow> pend p = unat b"
    and "lmb_addrs_adjacent b s (base p) (rsize p) = 0 \<longleftrightarrow>
      unat (base p) \<noteq> unat b + unat s \<and> pend p \<noteq> unat b"
proof -
  have u: "unat (b + s) = unat b + unat s" and p: "0 < unat s"
    using assms(2) by (simp_all add: fits_def unat_add_fits unat_gt_0)
  note d = properD [OF assms(1)]
  show "lmb_addrs_adjacent b s (base p) (rsize p) > 0 \<longleftrightarrow> unat (base p) = unat b + unat s"
    by (simp add: lmb_addrs_adjacent_def word_unat_eq_iff u)
  show "lmb_addrs_adjacent b s (base p) (rsize p) < 0 \<longleftrightarrow> pend p = unat b"
    using d p by (auto simp: lmb_addrs_adjacent_def word_unat_eq_iff u)
  show "lmb_addrs_adjacent b s (base p) (rsize p) = 0 \<longleftrightarrow>
      unat (base p) \<noteq> unat b + unat s \<and> pend p \<noteq> unat b"
    using d p by (auto simp: lmb_addrs_adjacent_def word_unat_eq_iff u)
qed

text \<open>The table holds the list \<open>ps\<close> followed by entries that are not counted.\<close>

definition holds_list :: "lmb_region \<Rightarrow> lmb_property list \<Rightarrow> bool" where
  "holds_list rgn ps \<longleftrightarrow> (\<exists>rest. region rgn = ps @ rest \<and> length (region rgn) = 9) \<and>
     unat (cnt rgn) = length ps \<and> ps \<noteq> [] \<and> length ps \<le> 8"

lemma holds_listD:
  assumes "holds_list rgn ps"
  shows "regions_of rgn = ps" "cnt rgn = of_nat (length ps)" "unat (cnt rgn - 1) = length ps - 1"
    "nat (sint (cnt rgn - 1) + 1) = length ps" "unat (cnt rgn) = length ps" "length ps \<le> 8"
proof -
  show 1: "regions_of rgn = ps" "unat (cnt rgn) = length ps" "length ps \<le> 8"
    using assms by (auto simp: holds_list_def regions_of_def)
  show 2: "cnt rgn = of_nat (length ps)"
    using 1(2,3) by (simp add: word_unat_eq_iff unat_of_nat)
  show 3: "unat (cnt rgn - 1) = length ps - 1"
    using assms 1 by (cases ps) (auto simp: holds_list_def unat_sub_if' unat_1)
  have "uint (cnt rgn - 1) = int (unat (cnt rgn - 1))"
    by simp
  also have "\<dots> = int (length ps) - 1"
    unfolding 3 using assms by (cases ps) (auto simp: holds_list_def)
  finally have "uint (cnt rgn - 1) = int (length ps) - 1" .
  then have "sint (cnt rgn - 1) = int (length ps) - 1"
    using 1(3) assms by (simp add: sint_uint signed_take_bit_int_eq_self holds_list_def)
  then show "nat (sint (cnt rgn - 1) + 1) = length ps" by simp
qed

lemma wf_tableI:
  "holds_list rgn ps \<Longrightarrow> wf_regions ps \<Longrightarrow> wf_table rgn"
  using holds_listD(1) [of rgn ps] by (auto simp: holds_list_def wf_table_def MAX_LMB_REGIONS_def Suc_le_eq)

lemma wf_table_holds: "wf_table rgn \<Longrightarrow> holds_list rgn (regions_of rgn)"
proof -
  assume wf: "wf_table rgn"
  have "region rgn = take (unat (cnt rgn)) (region rgn) @ drop (unat (cnt rgn)) (region rgn)"
    by simp
  then show ?thesis
    using wf unfolding wf_table_def holds_list_def MAX_LMB_REGIONS_def regions_of_def
    by (auto simp del: append_take_drop_id)
qed

lemma holds_list_update:
  assumes "holds_list rgn (xs @ p # ys)"
  shows "holds_list (rgn\<lparr>region := (region rgn)[length xs := q]\<rparr>) (xs @ q # ys)"
    and "region rgn ! length xs = p"
  using assms by (auto simp: holds_list_def nth_append)

lemma holds_list_remove:
  assumes h: "holds_list rgn (xs @ p # ys)" and ne: "xs @ ys \<noteq> []"
  shows "holds_list (lmb_remove_region rgn (length xs)) (xs @ ys)"
proof -
  obtain rest where rest: "region rgn = xs @ p # ys @ rest" "length (region rgn) = 9"
    using h by (auto simp: holds_list_def)
  have c: "unat (cnt rgn - 1) = length xs + length ys"
    using holds_listD(3) [OF h] by simp
  have "region (lmb_remove_region rgn (length xs)) = xs @ ys @ last (p # ys) # rest"
    unfolding lmb_remove_region_def by (simp only: c rest remove_loop_list) simp
  moreover have "unat (cnt (lmb_remove_region rgn (length xs))) = length (xs @ ys)"
    using c by (simp add: lmb_remove_region_def)
  ultimately show ?thesis
    using rest ne holds_listD(6) [OF h] by (auto simp: holds_list_def)
qed

lemma holds_list_insert:
  assumes h: "holds_list rgn (xs @ ys)" and less: "length (xs @ ys) < 8"
    and "\<forall>y \<in> set ys. b < base y" and "xs \<noteq> [] \<Longrightarrow> base (last xs) \<le> b"
    and "xs \<noteq> [] \<Longrightarrow> base (hd xs) \<le> b"
  shows "holds_list (rgn\<lparr>region := (let reg = lmb_insert b s (nat (sint (cnt rgn - 1) + 1)) (region rgn)
      in if b < base (reg ! 0) then reg[0 := \<lparr>base = b, rsize = s\<rparr>] else reg), cnt := cnt rgn + 1\<rparr>)
    (xs @ \<lparr>base = b, rsize = s\<rparr> # ys)"
proof -
  obtain rest' where rest': "region rgn = xs @ ys @ rest'" and len: "length (region rgn) = 9"
    using h by (auto simp: holds_list_def)
  obtain r rest where rest: "region rgn = xs @ ys @ r # rest"
    using rest' len less by (cases rest') auto
  have n: "nat (sint (cnt rgn - 1) + 1) = length xs + length ys"
    using holds_listD(4) [OF h] by simp
  have ne: "xs @ ys \<noteq> []" using h by (simp add: holds_list_def)
  have ins: "lmb_insert b s (length xs + length ys) (region rgn) =
    (if xs \<noteq> [] then xs @ \<lparr>base = b, rsize = s\<rparr> # ys @ rest
     else if ys = [] then r # rest else hd ys # ys @ rest)"
    unfolding rest by (rule lmb_insert_list) (use assms(3,4) in auto)
  have "(let reg = lmb_insert b s (length xs + length ys) (region rgn)
      in if b < base (reg ! 0) then reg[0 := \<lparr>base = b, rsize = s\<rparr>] else reg) =
    xs @ \<lparr>base = b, rsize = s\<rparr> # ys @ rest"
  proof (cases xs)
    case Nil
    then obtain y ys' where "ys = y # ys'" "b < base y"
      using ne assms(3) by (cases ys) auto
    then show ?thesis using ins by (simp add: Nil)
  next
    case (Cons x xs')
    then have "\<not> b < base x" using assms(5) by simp
    then show ?thesis using ins by (simp add: Cons)
  qed
  moreover have "unat (cnt rgn + 1) = length xs + length ys + 1"
    using holds_listD(5) [OF h] less by (simp add: unat_plus_if')
  ultimately show ?thesis
    unfolding n using less len rest by (auto simp: holds_list_def)
qed

text \<open>The three ways a new region enters: grown downwards, grown upwards, or on its own.\<close>

lemma grow_down:
  assumes wf: "wf_regions (xs @ p # ys)" and fits: "fits b s (xs @ p # ys)"
    and adj: "unat (base p) = unat b + unat s" and clear: "\<forall>q \<in> set xs. pend q \<noteq> unat b"
  defines "p' \<equiv> \<lparr>base = base p - s, rsize = rsize p + s\<rparr>"
  shows "wf_regions (xs @ p' # ys)" and "pend p' = pend p"
    and "addrs (xs @ p' # ys) = addrs (xs @ p # ys) \<union> span b s"
proof -
  have p: "proper p" using wf by simp
  have b: "unat (base p') = unat b"
    using adj by (simp add: p'_def unat_sub_if')
  have "unat (rsize p + s) = unat (rsize p) + unat s"
    using properD(4) [OF p] adj by (intro unat_add_fits) (simp add: pend_def)
  then show e: "pend p' = pend p"
    using adj b by (simp add: pend_def p'_def)
  have "proper p'"
    unfolding proper_def e using p e b adj properD(2) [OF p]
    by (auto simp: proper_def pend_def)
  moreover have "pend q < unat b" if "q \<in> set xs" for q
  proof -
    have "pend q < unat (base p)" "proper q"
      using wf that wf_regions_proper [OF wf, of q] by simp_all
    moreover have "unat b + unat s \<le> unat (base q) \<or> pend q \<le> unat b" "pend q \<noteq> unat b"
      using fits clear that by (simp_all add: fits_def)
    ultimately show ?thesis
      using adj properD(2) [of q] by linarith
  qed
  ultimately show "wf_regions (xs @ p' # ys)"
    using wf by (auto simp: e b)
  have "addrs_of p' = addrs_of p \<union> span b s"
    unfolding addrs_of_def span_def e b using adj properD(2) [OF p] by auto
  then show "addrs (xs @ p' # ys) = addrs (xs @ p # ys) \<union> span b s"
    by auto
qed

lemma grow_up:
  assumes wf: "wf_regions (xs @ p # ys)" and fits: "fits b s (xs @ p # ys)"
    and adj: "pend p = unat b"
  defines "p' \<equiv> p\<lparr>rsize := rsize p + s\<rparr>"
  shows "proper p'" and "pend p' = unat b + unat s" and "base p' = base p"
    and "addrs_of p' = addrs_of p \<union> span b s"
    and "\<forall>q \<in> set ys. pend p' \<le> unat (base q)"
proof -
  have p: "proper p" using wf by simp
  show b: "base p' = base p" by (simp add: p'_def)
  have "unat (rsize p + s) = unat (rsize p) + unat s"
    using adj fits by (intro unat_add_fits) (simp add: pend_def fits_def)
  then show e: "pend p' = unat b + unat s"
    using adj by (simp add: pend_def p'_def)
  then show "proper p'"
    using fits b adj properD(2) [OF p] by (auto simp: proper_def fits_def pend_def)
  show "addrs_of p' = addrs_of p \<union> span b s"
    unfolding addrs_of_def span_def e b using adj properD(2) [OF p] by auto
  have "unat b + unat s \<le> unat (base q)" if "q \<in> set ys" for q
  proof -
    have "pend p < unat (base q)" "proper q"
      using wf that wf_regions_proper [OF wf, of q] by simp_all
    then show ?thesis
      using fits adj that properD(2) [of q] by (fastforce simp: fits_def)
  qed
  then show "\<forall>q \<in> set ys. pend p' \<le> unat (base q)"
    by (simp add: e)
qed

lemma merge_next:
  assumes wf: "wf_regions (xs @ p # q # ys)" and p': "proper p'" "base p' = base p"
    and adj: "pend p' = unat (base q)"
  defines "r \<equiv> p'\<lparr>rsize := rsize p' + rsize q\<rparr>"
  shows "wf_regions (xs @ r # ys)" and "addrs_of r = addrs_of p' \<union> addrs_of q"
proof -
  have q: "proper q" using wf by simp
  have "unat (rsize p' + rsize q) = unat (rsize p') + unat (rsize q)"
    using properD(4) [OF q] adj by (intro unat_add_fits) (simp add: pend_def)
  then have e: "pend r = pend q"
    using adj by (simp add: pend_def r_def)
  have b: "base r = base p"
    by (simp add: r_def p')
  have "unat (base p) < pend p'" using properD(2) [OF p'(1)] p'(2) by simp
  then have "proper r"
    using q e b adj properD(2) [OF q] by (auto simp: proper_def pend_def)
  then show "wf_regions (xs @ r # ys)"
    using wf e b by auto
  show "addrs_of r = addrs_of p' \<union> addrs_of q"
    unfolding addrs_of_def e b using adj p'(2) properD(2) [OF q] \<open>unat (base p) < pend p'\<close> by auto
qed

lemma split_at_base:
  assumes wf: "wf_regions ps" and fits: "fits b s ps"
    and clear: "\<forall>q \<in> set ps. unat (base q) \<noteq> unat b + unat s \<and> pend q \<noteq> unat b"
  obtains xs ys where "ps = xs @ ys" "\<forall>y \<in> set ys. b < base y" "\<forall>x \<in> set xs. base x \<le> b"
    "wf_regions (xs @ \<lparr>base = b, rsize = s\<rparr> # ys)"
proof -
  let ?xs = "filter (\<lambda>p. base p \<le> b) ps" and ?ys = "filter (\<lambda>p. \<not> base p \<le> b) ps"
  have low: "pend x < unat b" if "x \<in> set ?xs" for x
  proof -
    have "proper x" "unat (base x) \<le> unat b"
      using wf that by (auto simp: wf_regions_def list_all_iff word_le_nat_alt)
    then show ?thesis
      using fits clear that properD(2) [of x] by (fastforce simp: fits_def)
  qed
  have high: "unat b + unat s < unat (base y)" if "y \<in> set ?ys" for y
  proof -
    have "proper y" "unat b < unat (base y)"
      using wf that by (auto simp: wf_regions_def list_all_iff word_le_nat_alt)
    then show ?thesis
      using fits clear that properD(2) [of y] by (fastforce simp: fits_def)
  qed
  have part: "ps = ?xs @ ?ys"
    using wf
  proof (induction ps)
    case (Cons p ps)
    show ?case
    proof (cases "base p \<le> b")
      case False
      have "\<not> base q \<le> b" if "q \<in> set ps" for q
      proof -
        have "unat (base p) < unat (base q)"
          using Cons.prems that properD(2) [of p] by fastforce
        then show ?thesis
          using False by (simp add: word_le_nat_alt)
      qed
      then have "filter (\<lambda>p. base p \<le> b) ps = []" "filter (\<lambda>p. \<not> base p \<le> b) ps = ps"
        by (auto simp: filter_empty_conv filter_id_conv)
      then show ?thesis using False by simp
    qed (use Cons in auto)
  qed simp
  have new: "proper \<lparr>base = b, rsize = s\<rparr>" "pend \<lparr>base = b, rsize = s\<rparr> = unat b + unat s"
    using fits by (simp_all add: proper_def pend_def fits_def)
  have "wf_regions (?xs @ ?ys)"
    using wf part by (rule back_subst)
  moreover have "\<forall>x \<in> set ?xs. pend x < unat b" "\<forall>y \<in> set ?ys. unat b + unat s < unat (base y)"
    using low high by blast+
  moreover have "\<forall>y \<in> set ?ys. b < base y" "\<forall>x \<in> set ?xs. base x \<le> b"
    by auto
  ultimately show thesis
    using that [OF part] new
    by (simp only: wf_regions_simps set_simps ball_simps lmb_property.simps) blast
qed

text \<open>What \<open>lmb_add_region\<close> does to a table that has real regions in it.\<close>

lemma regions_adjacent_iff:
  assumes "holds_list rgn (xs @ p # q # ys)" and "proper p" "proper q" "pend p \<le> unat (base q)"
  shows "lmb_regions_adjacent rgn (length xs) (length xs + 1) \<noteq> 0 \<longleftrightarrow> pend p = unat (base q)"
proof -
  have "region rgn ! length xs = p" "region rgn ! (length xs + 1) = q"
    using assms(1) by (auto simp: holds_list_def nth_append)
  moreover have "unat (base p) \<noteq> pend q"
    using properD(2) [OF assms(2)] properD(2) [OF assms(3)] assms(4) by simp
  ultimately show ?thesis
    using properD(1) [OF assms(2)] properD(1) [OF assms(3)]
    by (auto simp: lmb_regions_adjacent_def lmb_addrs_adjacent_def word_unat_eq_iff)
qed

lemma index_less_cnt:
  assumes "holds_list rgn ps" and "i < length ps"
  shows "(of_nat i :: u32) < cnt rgn - 1 \<longleftrightarrow> i + 1 < length ps"
proof -
  have "unat (of_nat i :: u32) = i"
    using assms holds_listD(6) [OF assms(1)] by (simp add: unat_of_nat)
  then show ?thesis
    unfolding word_less_nat_alt by (simp only: holds_listD(3) [OF assms(1)]) linarith
qed

lemma add_region_real:
  assumes h: "holds_list rgn ps" and wf: "wf_regions ps" and fits: "fits b s ps"
  obtains (added) rgn' ps' r where "lmb_add_region rgn b s = (rgn', r)" "0 \<le> r"
      "holds_list rgn' ps'" "wf_regions ps'" "addrs ps' = addrs ps \<union> span b s"
    | (full) "lmb_add_region rgn b s = (rgn, - 1)" "length ps = 8"
      "\<forall>q \<in> set ps. unat (base q) \<noteq> unat b + unat s \<and> pend q \<noteq> unat b"
proof -
  have ne: "ps \<noteq> []" using h by (simp add: holds_list_def)
  then have "region rgn ! 0 \<in> set ps"
    using h by (cases ps) (auto simp: holds_list_def)
  then have "rsize (region rgn ! 0) \<noteq> 0"
    using wf_regions_proper [OF wf] by (auto simp: proper_def)
  then have real: "\<not> (cnt rgn = 1 \<and> rsize (region rgn ! 0) = 0)" by simp
  have ps: "take (unat (cnt rgn)) (region rgn) = ps"
    using holds_listD(1) [OF h] by (simp add: regions_of_def)
  have fit1: "fits b s [p]" if "p \<in> set ps" for p
    using fits that by (simp add: fits_def)
  note adj = adjacent_iff [OF wf_regions_proper [OF wf] fit1]
  show thesis
  proof (cases "lmb_scan b s 0 ps")
    case Have
    then obtain p where p: "p \<in> set ps" "base p = b" "rsize p = s"
      using lmb_scan_cases(1) by blast
    then have "pend p = unat b + unat s" by (simp add: pend_def)
    then have False
      using fits p properD(2) [OF wf_regions_proper [OF wf p(1)]] by (auto simp: fits_def)
    then show ?thesis ..
  next
    case (Before i)
    then obtain xs p ys where split: "ps = xs @ p # ys" "i = length xs"
      and touch: "lmb_addrs_adjacent b s (base p) (rsize p) > 0"
      and none: "\<forall>q \<in> set xs. lmb_addrs_adjacent b s (base q) (rsize q) = 0"
      using lmb_scan_cases(2) [of b s 0 ps i] by auto
    let ?p = "\<lparr>base = base p - s, rsize = rsize p + s\<rparr>"
    let ?rgn = "rgn\<lparr>region := (region rgn)[length xs := ?p]\<rparr>"
    have "unat (base p) = unat b + unat s" "\<forall>q \<in> set xs. pend q \<noteq> unat b"
      using touch none adj split by auto
    note grown = grow_down [OF wf [unfolded split] fits [unfolded split] this]
    have h': "holds_list ?rgn (xs @ ?p # ys)" and nth: "region rgn ! length xs = p"
      using holds_list_update [OF h [unfolded split]] by simp_all
    have "\<not> (of_nat (length xs) < cnt ?rgn - 1 \<and> lmb_regions_adjacent ?rgn (length xs) (length xs + 1) \<noteq> 0)"
    proof (cases ys)
      case Nil
      then show ?thesis using index_less_cnt [OF h'] by simp
    next
      case (Cons q ys')
      then have "pend ?p < unat (base q)" "proper ?p" "proper q"
        using grown(1) by simp_all
      then show ?thesis
        using regions_adjacent_iff [OF h' [unfolded Cons]] by simp
    qed
    then have "lmb_add_region rgn b s = (?rgn, 1)"
      unfolding lmb_add_region_def if_not_P [OF real] ps Before split(2) by (simp add: Let_def nth)
    then show ?thesis
      using added [OF _ _ h' grown(1)] grown(3) split by simp
  next
    case (After i)
    then obtain xs p ys where split: "ps = xs @ p # ys" "i = length xs"
      and touch: "lmb_addrs_adjacent b s (base p) (rsize p) < 0"
      using lmb_scan_cases(3) [of b s 0 ps i] by auto
    let ?p = "p\<lparr>rsize := rsize p + s\<rparr>"
    let ?rgn = "rgn\<lparr>region := (region rgn)[length xs := ?p]\<rparr>"
    have "pend p = unat b"
      using touch adj split by auto
    note grown = grow_up [OF wf [unfolded split] fits [unfolded split] this]
    have h': "holds_list ?rgn (xs @ ?p # ys)" and nth: "region rgn ! length xs = p"
      using holds_list_update [OF h [unfolded split]] by simp_all
    let ?merge = "of_nat (length xs) < cnt ?rgn - 1 \<and>
      lmb_regions_adjacent ?rgn (length xs) (length xs + 1) \<noteq> 0"
    have add: "lmb_add_region rgn b s =
        (if ?merge then (lmb_coalesce_regions ?rgn (length xs) (length xs + 1), 2) else (?rgn, 1))"
      unfolding lmb_add_region_def if_not_P [OF real] ps After split(2) by (simp add: Let_def nth)
    show ?thesis
    proof (cases "\<exists>q ys'. ys = q # ys' \<and> pend ?p = unat (base q)")
      case True
      then obtain q ys' where ys: "ys = q # ys'" and q: "pend ?p = unat (base q)"
        by blast
      let ?r = "?p\<lparr>rsize := rsize ?p + rsize q\<rparr>"
      have "proper q" using wf split ys by simp
      then have ?merge
        using regions_adjacent_iff [OF h' [unfolded ys] grown(1)] q index_less_cnt [OF h'] ys by simp
      then have result: "lmb_add_region rgn b s = (lmb_coalesce_regions ?rgn (length xs) (length xs + 1), 2)"
        unfolding add by (rule if_P)
      have at: "region ?rgn ! length xs = ?p" "region ?rgn ! (length xs + 1) = q"
        using h split ys by (auto simp: holds_list_def nth_append)
      have "holds_list (?rgn\<lparr>region := (region ?rgn)[length xs := ?r]\<rparr>) ((xs @ [?r]) @ q # ys')"
        using holds_list_update(1) [OF h' [unfolded ys]] by simp
      from holds_list_remove [OF this]
      have holds: "holds_list (lmb_coalesce_regions ?rgn (length xs) (length xs + 1)) (xs @ ?r # ys')"
        unfolding lmb_coalesce_regions_def at by simp
      note merged = merge_next [OF wf [unfolded split ys] grown(1,3) q]
      have "addrs (xs @ ?r # ys') = addrs ps \<union> span b s"
        using merged(2) grown(4) split ys by auto
      then show ?thesis
        using added [OF result _ holds merged(1)] by simp
    next
      case False
      have "\<not> ?merge \<and> wf_regions (xs @ ?p # ys)"
      proof (cases ys)
        case Nil
        then show ?thesis
          using index_less_cnt [OF h'] wf split grown(1,3) by simp
      next
        case (Cons q ys')
        have "proper q" using wf split Cons by simp
        have le: "pend ?p \<le> unat (base q)" "pend ?p \<noteq> unat (base q)"
          using grown(5) False Cons by simp_all
        have "pend ?p < unat (base y)" if "y \<in> set ys'" for y
        proof -
          have "pend q < unat (base y)" using wf split Cons that by simp
          then show ?thesis using le properD(2) [OF \<open>proper q\<close>] by linarith
        qed
        then have "wf_regions (xs @ ?p # ys)"
          using wf split Cons grown(1,3) le by simp
        moreover have "\<not> ?merge"
          using regions_adjacent_iff [OF h' [unfolded Cons] grown(1) \<open>proper q\<close>] le by simp
        ultimately show ?thesis by blast
      qed
      then have "lmb_add_region rgn b s = (?rgn, 1)" "wf_regions (xs @ ?p # ys)"
        unfolding add by simp_all
      moreover have "addrs (xs @ ?p # ys) = addrs ps \<union> span b s"
        using grown(4) split by auto
      ultimately show ?thesis
        using added [OF _ _ h'] by simp
    qed
  next
    case (Past i)
    then have i: "i = length ps" and none: "\<forall>q \<in> set ps. lmb_addrs_adjacent b s (base q) (rsize q) = 0"
      using lmb_scan_cases(4) [of b s 0 ps i] by auto
    have clear: "\<forall>q \<in> set ps. unat (base q) \<noteq> unat b + unat s \<and> pend q \<noteq> unat b"
      using none adj by blast
    have "\<not> (of_nat (length ps) :: u32) < cnt rgn - 1"
      unfolding word_less_nat_alt holds_listD(3) [OF h]
      using holds_listD(6) [OF h] by (simp add: unat_of_nat)
    then have add: "lmb_add_region rgn b s =
        (if MAX_LMB_REGIONS \<le> unat (cnt rgn) then (rgn, - 1)
         else (rgn\<lparr>region := (let reg = lmb_insert b s (nat (sint (cnt rgn - 1) + 1)) (region rgn)
                 in if b < base (reg ! 0) then reg[0 := \<lparr>base = b, rsize = s\<rparr>] else reg),
               cnt := cnt rgn + 1\<rparr>, 0))"
      unfolding lmb_add_region_def if_not_P [OF real] ps Past i by (simp add: Let_def)
    show ?thesis
    proof (cases "length ps = 8")
      case True
      then have "lmb_add_region rgn b s = (rgn, - 1)"
        unfolding add by (simp add: MAX_LMB_REGIONS_def holds_listD(5) [OF h])
      then show ?thesis using full True clear by blast
    next
      case False
      then have less: "length ps < 8" using holds_listD(6) [OF h] by simp
      obtain xs ys where split: "ps = xs @ ys" "\<forall>y \<in> set ys. b < base y" "\<forall>x \<in> set xs. base x \<le> b"
        "wf_regions (xs @ \<lparr>base = b, rsize = s\<rparr> # ys)"
        using split_at_base [OF wf fits clear] .
      have "holds_list (rgn\<lparr>region := (let reg = lmb_insert b s (nat (sint (cnt rgn - 1) + 1)) (region rgn)
          in if b < base (reg ! 0) then reg[0 := \<lparr>base = b, rsize = s\<rparr>] else reg), cnt := cnt rgn + 1\<rparr>)
        (xs @ \<lparr>base = b, rsize = s\<rparr> # ys)" (is "holds_list ?rgn _")
        by (rule holds_list_insert) (use h less split in auto)
      moreover have "lmb_add_region rgn b s = (?rgn, 0)"
        unfolding add using less by (simp add: MAX_LMB_REGIONS_def holds_listD(5) [OF h])
      moreover have "addrs (xs @ \<lparr>base = b, rsize = s\<rparr> # ys) = addrs ps \<union> span b s"
        using split by (auto simp: addrs_of_def pend_def span_def)
      ultimately show ?thesis
        using added [OF _ _ _ split(4)] by simp
    qed
  qed
qed

lemma add_region_covers:
  assumes "wf_table rgn" and "s \<noteq> 0" and "unat b + unat s < 2 ^ 32"
    and "covered rgn \<inter> span b s = {}"
  shows "case lmb_add_region rgn b s of (rgn', r) \<Rightarrow>
    if 0 \<le> r then wf_table rgn' \<and> covered rgn' = covered rgn \<union> span b s
    else r = - 1 \<and> rgn' = rgn \<and> unat (cnt rgn) = MAX_LMB_REGIONS"
proof -
  have h: "holds_list rgn (regions_of rgn)"
    by (rule wf_table_holds) (rule assms(1))
  from assms(1) consider "regions_of rgn = [\<lparr>base = 0, rsize = 0\<rparr>]" | "wf_regions (regions_of rgn)"
    unfolding wf_table_def by blast
  then show ?thesis
  proof cases
    case 1
    let ?rgn = "rgn\<lparr>region := (region rgn)[0 := \<lparr>base = b, rsize = s\<rparr>]\<rparr>"
    have h': "holds_list ?rgn [\<lparr>base = b, rsize = s\<rparr>]" and "region rgn ! 0 = \<lparr>base = 0, rsize = 0\<rparr>"
      using holds_list_update [of rgn "[]"] h 1 by simp_all
    moreover have "cnt rgn = 1"
      using holds_listD(2) [OF h] 1 by simp
    ultimately have "lmb_add_region rgn b s = (?rgn, 0)"
      by (simp add: lmb_add_region_def)
    moreover have "wf_table ?rgn"
      by (rule wf_tableI [OF h']) (use assms in \<open>simp add: proper_def pend_def\<close>)
    moreover have "covered ?rgn = covered rgn \<union> span b s"
      unfolding covered_def holds_listD(1) [OF h'] 1 by (simp add: addrs_of_def pend_def span_def)
    ultimately show ?thesis by simp
  next
    case 2
    then have "fits b s (regions_of rgn)"
      using assms by (simp add: fits_iff_disjoint covered_def wf_regions_def)
    with h 2 show ?thesis
    proof (cases rule: add_region_real)
      case (added rgn' ps' r)
      then show ?thesis
        using wf_tableI [OF added(3,4)] holds_listD(1) [OF added(3)] by (simp add: covered_def)
    next
      case full
      then show ?thesis
        using holds_listD(5) [OF h] by (simp add: MAX_LMB_REGIONS_def)
    qed
  qed
qed

text \<open>
  C6: adding a region that is clear of those in the table covers exactly its addresses in
  addition and keeps the table sorted, merged and within its bounds; it fails, and then changes
  nothing, only when the table is full and the region touches none of its eight.
\<close>

theorem lmb_add_region_covers:
  assumes "wf_table rgn" and "s \<noteq> 0" and "unat b + unat s < 2 ^ 32"
    and "covered rgn \<inter> span b s = {}"
  shows "case lmb_add_region rgn b s of (rgn', r) \<Rightarrow>
    if 0 \<le> r then wf_table rgn' \<and> covered rgn' = covered rgn \<union> span b s
    else r = - 1 \<and> rgn' = rgn \<and> unat (cnt rgn) = MAX_LMB_REGIONS"
  using assms by (rule add_region_covers)

definition lmb_sample :: lmb_region where
  "lmb_sample = \<lparr>cnt = 2, total = 0, region = \<lparr>base = 16, rsize = 16\<rparr> # \<lparr>base = 64, rsize = 8\<rparr>
     # replicate 7 \<lparr>base = 0, rsize = 0\<rparr>\<rparr>"

lemma lmb_sample_facts:
  "wf_table lmb_sample" "covered lmb_sample = {16..<32} \<union> {64..<72}"
  "regions_of lmb_sample = [\<lparr>base = 16, rsize = 16\<rparr>, \<lparr>base = 64, rsize = 8\<rparr>]"
  by (simp_all add: lmb_sample_def wf_table_def MAX_LMB_REGIONS_def regions_of_def proper_def pend_def
      covered_def addrs_of_def)

lemma lmb_add_region_covers_witness:
  "case lmb_add_region lmb_sample 32 32 of (t', r) \<Rightarrow>
    if 0 \<le> r then wf_table t' \<and> covered t' = covered lmb_sample \<union> span 32 32
    else r = - 1 \<and> t' = lmb_sample \<and> unat (cnt lmb_sample) = MAX_LMB_REGIONS"
  by (rule lmb_add_region_covers) (auto simp: lmb_sample_facts span_def)

section \<open>Freeing a range\<close>

lemma find_holder_cases:
  "lmb_find_holder b e i ps = None \<Longrightarrow> \<forall>p \<in> set ps. \<not> (base p \<le> b \<and> e \<le> base p + rsize p)"
  "lmb_find_holder b e i ps = Some j \<Longrightarrow> \<exists>xs p ys. ps = xs @ p # ys \<and> j = i + length xs \<and>
     base p \<le> b \<and> e \<le> base p + rsize p"
proof (induction ps arbitrary: i)
  case (Cons p ps)
  {
    case 1
    then show ?case using Cons.IH(1) [of "i + 1"] by (auto split: if_splits)
  next
    case 2
    show ?case
    proof (cases "base p \<le> b \<and> e \<le> base p + rsize p")
      case True
      then show ?thesis
        using 2 by (intro exI [of _ "[]"] exI [of _ p] exI [of _ ps]) simp
    next
      case False
      then obtain xs q ys where "ps = xs @ q # ys" "j = i + 1 + length xs" "base q \<le> b"
        "e \<le> base q + rsize q"
        using 2 Cons.IH(2) [of "i + 1"] by auto
      then show ?thesis
        by (intro exI [of _ "p # xs"] exI [of _ q] exI [of _ ys]) simp
    qed
  }
qed simp_all

lemma addrs_disjoint:
  assumes "wf_regions (xs @ p # ys)"
  shows "addrs_of p \<inter> addrs xs = {}" and "addrs_of p \<inter> addrs ys = {}"
  using assms properD(2) [OF wf_regions_proper [OF assms, of p]]
  by (fastforce simp: addrs_def addrs_of_def)+

text \<open>A range that is covered lies in one region, since regions do not touch.\<close>

lemma span_in_one:
  assumes wf: "wf_regions ps" and "s \<noteq> 0" and sub: "span b s \<subseteq> addrs ps"
  obtains p where "p \<in> set ps" "unat (base p) \<le> unat b" "unat b + unat s \<le> pend p"
proof -
  have "unat b \<in> span b s" using assms(2) by (simp add: span_def unat_gt_0)
  then obtain p where p: "p \<in> set ps" "unat (base p) \<le> unat b" "unat b < pend p"
    using sub by (auto simp: addrs_def addrs_of_def)
  have "unat b + unat s \<le> pend p"
  proof (rule ccontr)
    assume "\<not> unat b + unat s \<le> pend p"
    then have "pend p \<in> span b s" using p by (simp add: span_def)
    then obtain q where q: "q \<in> set ps" "unat (base q) \<le> pend p" "pend p < pend q"
      using sub by (auto simp: addrs_def addrs_of_def)
    obtain xs ys where ps: "ps = xs @ p # ys"
      using p(1) by (meson split_list)
    from q(1) consider "q \<in> set xs" | "q = p" | "q \<in> set ys"
      unfolding ps by auto
    then show False
      using wf q properD(2) [OF wf_regions_proper [OF wf p(1)]] unfolding ps by cases force+
  qed
  with p show thesis using that by blast
qed

lemma span_addrs: "unat b + unat s < 2 ^ 32 \<Longrightarrow> addrs [\<lparr>base = b, rsize = s\<rparr>] = span b s"
  by (simp add: addrs_of_def pend_def span_def)

lemma lmb_free_region_only:
  assumes "holds_list rgn (regions_of rgn)" and "regions_of rgn = [\<lparr>base = b, rsize = s\<rparr>]"
  shows "\<exists>rgn'. lmb_free_region rgn b s = (rgn', 0) \<and> regions_of rgn' = []"
proof -
  have "length (regions_of rgn) = 1" using assms(2) by simp
  then have c: "cnt rgn = 1"
    using holds_listD [OF assms(1)] by (simp add: word_unat_eq_iff)
  then have "region rgn ! 0 = \<lparr>base = b, rsize = s\<rparr>" "take 1 (region rgn) = [\<lparr>base = b, rsize = s\<rparr>]"
    using assms(2) by (cases "region rgn"; simp add: regions_of_def)+
  then show ?thesis
    using c by (simp add: lmb_free_region_def lmb_remove_region_def regions_of_def)
qed

lemma lmb_free_region_covers_aux:
  assumes h: "holds_list rgn ps" and wf: "wf_regions ps" and s: "s \<noteq> 0"
    and fit: "unat b + unat s < 2 ^ 32" and sub: "span b s \<subseteq> addrs ps"
    and ne: "ps \<noteq> [\<lparr>base = b, rsize = s\<rparr>]"
  obtains (freed) rgn' ps' r where "lmb_free_region rgn b s = (rgn', r)" "0 \<le> r"
      "holds_list rgn' ps'" "wf_regions ps'" "addrs ps' = addrs ps - span b s"
    | (lost) rgn' ps' p where "lmb_free_region rgn b s = (rgn', - 1)" "length ps = 8"
      "holds_list rgn' ps'" "wf_regions ps'" "p \<in> set ps" "unat (base p) < unat b"
      "unat b + unat s < pend p" "addrs ps' = addrs ps - {unat b..<pend p}"
proof -
  have e: "unat (b + s) = unat b + unat s"
    using fit by (simp add: unat_add_fits)
  obtain p0 where p0: "p0 \<in> set ps" "unat (base p0) \<le> unat b" "unat b + unat s \<le> pend p0"
    using span_in_one [OF wf s sub] .
  then have "base p0 \<le> b \<and> b + s \<le> base p0 + rsize p0"
    using properD(1) [OF wf_regions_proper [OF wf, of p0]] by (simp add: word_le_nat_alt e)
  with p0(1) have "lmb_find_holder b (b + s) 0 ps \<noteq> None"
    using find_holder_cases(1) [of b "b + s" 0 ps] by blast
  then obtain j where j: "lmb_find_holder b (b + s) 0 ps = Some j" by blast
  obtain xs p ys where split: "ps = xs @ p # ys" "j = length xs"
    and holder: "base p \<le> b" "b + s \<le> base p + rsize p"
    using find_holder_cases(2) [OF j] by auto
  have "proper p" using wf split by simp
  note p = properD [OF this]
  have lo: "unat (base p) \<le> unat b" and hi: "unat b + unat s \<le> pend p"
    using holder by (simp_all add: word_le_nat_alt e p)
  have take: "take (unat (cnt rgn)) (region rgn) = ps"
    using holds_listD(1) [OF h] by (simp add: regions_of_def)
  have nth: "region rgn ! length xs = p"
    using holds_list_update(2) [OF h [unfolded split]] .
  note dis = addrs_disjoint [OF wf [unfolded split]]
  have rest: "addrs ps - span b s = addrs xs \<union> (addrs_of p - span b s) \<union> addrs ys"
  proof -
    have "span b s \<subseteq> addrs_of p"
      using lo hi by (auto simp: span_def addrs_of_def)
    then show ?thesis
      using dis unfolding split addrs_simps by blast
  qed
  have s0: "0 < unat s" using s by (simp add: unat_gt_0)
  note free = lmb_free_region_def Let_def take j option.case split(2) nth
  have ends: "base p + rsize p = b + s \<longleftrightarrow> pend p = unat b + unat s" "base p = b \<longleftrightarrow> unat (base p) = unat b"
    by (simp_all add: word_unat_eq_iff e p)
  have sizes: "unat (rsize p - s) = unat (rsize p) - unat s" "unat s \<le> unat (rsize p)"
    using lo hi by (auto simp: unat_sub_if' pend_def)
  consider "base p = b" "base p + rsize p = b + s" | "base p = b" "base p + rsize p \<noteq> b + s"
    | "base p \<noteq> b" "base p + rsize p = b + s" | "base p \<noteq> b" "base p + rsize p \<noteq> b + s"
    by blast
  then show thesis
  proof cases
    case 1
    then have "addrs_of p = span b s"
      using ends by (simp add: addrs_of_def span_def)
    moreover have "p = \<lparr>base = b, rsize = s\<rparr>"
      using 1 ends by (simp add: pend_def word_unat_eq_iff)
    then have "xs @ ys \<noteq> []"
      using ne split by auto
    moreover have "lmb_free_region rgn b s = (lmb_remove_region rgn (length xs), 0)"
      unfolding free using 1 by simp
    ultimately show ?thesis
      using freed [OF _ _ holds_list_remove [OF h [unfolded split]]] wf split rest by auto
  next
    case 2
    let ?p = "\<lparr>base = b + s, rsize = rsize p - s\<rparr>"
    have pe: "pend ?p = pend p" "unat (base ?p) = unat b + unat s"
      using sizes ends 2 by (simp_all add: pend_def e)
    have "unat b + unat s < pend p" using hi ends 2 by auto
    then have "proper ?p"
      unfolding proper_def pe using sizes 2 ends p by (auto simp: pend_def word_unat_eq_iff)
    then have "wf_regions (xs @ ?p # ys)"
      using wf split pe lo by auto
    moreover have "addrs (xs @ ?p # ys) = addrs ps - span b s"
      unfolding rest using 2 ends s0 hi by (auto simp: addrs_of_def span_def pe e)
    moreover have "lmb_free_region rgn b s = (rgn\<lparr>region := (region rgn)[length xs := ?p]\<rparr>, 0)"
      unfolding free using 2 by simp
    ultimately show ?thesis
      using freed [OF _ _ holds_list_update(1) [OF h [unfolded split]]] by simp
  next
    case 3
    let ?p = "p\<lparr>rsize := rsize p - s\<rparr>"
    have pe: "pend ?p = unat b" "base ?p = base p"
      using sizes ends 3 by (simp_all add: pend_def)
    have "unat (base p) < unat b" using lo ends 3 by auto
    then have "proper ?p"
      unfolding proper_def pe using sizes fit 3 ends by (auto simp: pend_def word_unat_eq_iff)
    then have "wf_regions (xs @ ?p # ys)"
      using wf split pe hi s0 by fastforce
    moreover have "addrs (xs @ ?p # ys) = addrs ps - span b s"
      unfolding rest using 3 ends s0 lo by (auto simp: addrs_of_def span_def pe)
    moreover have "lmb_free_region rgn b s = (rgn\<lparr>region := (region rgn)[length xs := ?p]\<rparr>, 0)"
      unfolding free using 3 by simp
    ultimately show ?thesis
      using freed [OF _ _ holds_list_update(1) [OF h [unfolded split]]] by simp
  next
    case 4
    let ?p = "p\<lparr>rsize := b - base p\<rparr>"
    let ?rgn = "rgn\<lparr>region := (region rgn)[length xs := ?p]\<rparr>"
    let ?t = "base p + rsize p - (b + s)"
    have less: "unat (base p) < unat b" "unat b + unat s < pend p"
      using lo hi ends 4 by auto
    have pe: "pend ?p = unat b" "base ?p = base p"
      using lo by (simp_all add: pend_def unat_sub_if')
    have t: "unat ?t = pend p - (unat b + unat s)"
      using less by (simp add: unat_sub_if' e p)
    have "unat (b - base p) = unat b - unat (base p)"
      using lo by (simp add: unat_sub_if')
    then have "proper ?p"
      unfolding proper_def pe using less fit by (auto simp: word_unat_eq_iff)
    then have wf': "wf_regions (xs @ ?p # ys)"
      using wf split pe less by fastforce
    have h': "holds_list ?rgn (xs @ ?p # ys)"
      by (rule holds_list_update(1) [OF h [unfolded split]])
    have "\<forall>q \<in> set xs. pend q \<le> unat b + unat s" "\<forall>q \<in> set ys. pend p \<le> unat (base q)"
      using wf split less by fastforce+
    then have fits': "fits (b + s) ?t (xs @ ?p # ys)"
      unfolding fits_def e t using less p(4) pe by (auto simp: word_unat_eq_iff t)
    have free': "lmb_free_region rgn b s = lmb_add_region ?rgn (b + s) ?t"
      unfolding free using 4 by simp
    have sp: "span (b + s) ?t = {unat b + unat s..<pend p}"
      unfolding span_def e t using less by simp
    have cover: "addrs (xs @ ?p # ys) \<union> span (b + s) ?t = addrs ps - span b s"
      unfolding rest sp using less by (auto simp: addrs_of_def span_def pe)
    have cut: "addrs (xs @ ?p # ys) = addrs ps - {unat b..<pend p}"
    proof -
      have "{unat b..<pend p} \<subseteq> addrs_of p" "addrs_of ?p = addrs_of p - {unat b..<pend p}"
        using lo less by (auto simp: addrs_of_def pe)
      then show ?thesis
        using dis unfolding split addrs_simps by blast
    qed
    from h' wf' fits' show ?thesis
    proof (cases rule: add_region_real)
      case (added rgn' ps' r)
      then show ?thesis
        using freed [OF _ added(2-4)] free' cover by simp
    next
      case full
      then show ?thesis
        using lost [OF _ _ h' wf' _ less cut] free' split by auto
    qed
  qed
qed

text \<open>
  C7: freeing a reserved range uncovers exactly its addresses, whether it is a whole region, an
  end of one or its middle, and the table stays well formed; only when the range is the one region
  of the table is the table left without any region, not even the dummy one (see
  \<open>lmb_reserve_after_free\<close>). The call can fail only when the range lies strictly inside a region and
  the table is full. Then the region has been cut already: exactly the addresses from the start
  of the range to the end of the region that held it are lost, those behind the range, which were
  not to be freed, included, and every other address stays covered.
\<close>

theorem lmb_free_region_uncovers:
  assumes "wf_table rgn" and "s \<noteq> 0" and "unat b + unat s < 2 ^ 32"
    and "span b s \<subseteq> covered rgn"
  shows "case lmb_free_region rgn b s of (rgn', r) \<Rightarrow>
    if 0 \<le> r
    then covered rgn' = covered rgn - span b s \<and>
      (if regions_of rgn = [\<lparr>base = b, rsize = s\<rparr>] then regions_of rgn' = [] else wf_table rgn')
    else r = - 1 \<and> unat (cnt rgn) = MAX_LMB_REGIONS \<and> wf_table rgn' \<and>
      (\<exists>p \<in> set (regions_of rgn). unat (base p) < unat b \<and> unat b + unat s < pend p \<and>
         covered rgn' = covered rgn - {unat b..<pend p})"
proof -
  have h: "holds_list rgn (regions_of rgn)"
    by (rule wf_table_holds) (rule assms(1))
  have "unat b \<in> span b s" using assms(2) by (simp add: span_def unat_gt_0)
  then have "covered rgn \<noteq> {}" using assms(4) by blast
  then have wf: "wf_regions (regions_of rgn)"
    using assms(1) by (auto simp: wf_table_def covered_def addrs_of_def pend_def)
  show ?thesis
  proof (cases "regions_of rgn = [\<lparr>base = b, rsize = s\<rparr>]")
    case True
    obtain rgn' where "lmb_free_region rgn b s = (rgn', 0)" "regions_of rgn' = []"
      using lmb_free_region_only [OF h True] by blast
    then show ?thesis
      using span_addrs [OF assms(3)] by (simp add: covered_def True)
  next
    case False
    show ?thesis
    proof (rule lmb_free_region_covers_aux [OF h wf assms(2,3) _ False])
      show "span b s \<subseteq> addrs (regions_of rgn)" using assms(4) by (simp add: covered_def)
    next
      fix rgn' ps' r
      assume "lmb_free_region rgn b s = (rgn', r)" "0 \<le> r" "holds_list rgn' ps'" "wf_regions ps'"
        "addrs ps' = addrs (regions_of rgn) - span b s"
      then show ?thesis
        using wf_tableI [of rgn' ps'] holds_listD(1) [of rgn' ps'] False by (simp add: covered_def)
    next
      fix rgn' ps' p
      assume "lmb_free_region rgn b s = (rgn', - 1)" "length (regions_of rgn) = 8"
        "holds_list rgn' ps'" "wf_regions ps'" "p \<in> set (regions_of rgn)" "unat (base p) < unat b"
        "unat b + unat s < pend p" "addrs ps' = addrs (regions_of rgn) - {unat b..<pend p}"
      then show ?thesis
        using wf_tableI [of rgn' ps'] holds_listD(1) [of rgn' ps'] holds_listD(5) [OF h]
        by (auto simp: covered_def MAX_LMB_REGIONS_def)
    qed
  qed
qed

lemma lmb_free_region_uncovers_witness:
  "case lmb_free_region lmb_sample 20 4 of (rgn', r) \<Rightarrow>
    if 0 \<le> r
    then covered rgn' = covered lmb_sample - span 20 4 \<and>
      (if regions_of lmb_sample = [\<lparr>base = 20, rsize = 4\<rparr>] then regions_of rgn' = []
       else wf_table rgn')
    else r = - 1 \<and> unat (cnt lmb_sample) = MAX_LMB_REGIONS \<and> wf_table rgn' \<and>
      (\<exists>p \<in> set (regions_of lmb_sample). unat (base p) < unat (20 :: u32) \<and>
         unat (20 :: u32) + unat (4 :: u32) < pend p \<and>
         covered rgn' = covered lmb_sample - {unat (20 :: u32)..<pend p})"
  by (rule lmb_free_region_uncovers) (auto simp: lmb_sample_facts span_def)

text \<open>The empty table that freeing the only region leaves breaks the next reservation.\<close>

definition lmb_blank :: lmb where
  "lmb_blank = lmb_init
     \<lparr>memory = \<lparr>cnt = 0, total = 0, region = replicate 9 \<lparr>base = 0, rsize = 0\<rparr>\<rparr>,
      reserved = \<lparr>cnt = 0, total = 0, region = replicate 9 \<lparr>base = 0, rsize = 0\<rparr>\<rparr>\<rparr>"

definition lmb_one :: lmb where
  "lmb_one = fst (lmb_reserve lmb_blank 0x30000000 0x1000)"

lemma replicate_8: "replicate 8 x = [x, x, x, x, x, x, x, x]"
  by (simp add: numeral_eq_Suc)

lemma replicate_9: "replicate 9 x = x # replicate 8 x"
  by (simp add: numeral_eq_Suc)

lemma lmb_one_code: "lmb_one = lmb_blank\<lparr>reserved := \<lparr>cnt = 1, total = 0,
    region = \<lparr>base = 0x30000000, rsize = 0x1000\<rparr> # replicate 8 \<lparr>base = 0, rsize = 0\<rparr>\<rparr>\<rparr>"
  by (simp add: lmb_one_def lmb_blank_def lmb_init_def lmb_reserve_def lmb_add_region_def replicate_9
      Let_def)

lemma lmb_one_free: "lmb_free lmb_one 0x30000000 0x1000 =
    (lmb_one\<lparr>reserved := (reserved lmb_one)\<lparr>cnt := 0\<rparr>\<rparr>, 0)"
  by (simp add: lmb_one_code lmb_free_def lmb_free_region_def lmb_remove_region_def Let_def)

text \<open>
  after the only reserved region is freed, reserving a higher address reports success but
  reserves the freed region again instead of the one asked for, since the table is left with no
  dummy region in it.
\<close>

theorem lmb_reserve_after_free:
  "regions_of (reserved lmb_one) = [\<lparr>base = 0x30000000, rsize = 0x1000\<rparr>] \<and>
   (let (l, r) = lmb_free lmb_one 0x30000000 0x1000; (l', r') = lmb_reserve l 0x33000000 0x2000
    in r = 0 \<and> r' = 0 \<and> regions_of (reserved l') = [\<lparr>base = 0x30000000, rsize = 0x1000\<rparr>])"
  unfolding lmb_one_free
  by (simp add: lmb_one_code lmb_reserve_def lmb_add_region_def regions_of_def MAX_LMB_REGIONS_def
      lmb_regions_adjacent_def lmb_addrs_adjacent_def Let_def)

section \<open>Looking an address up\<close>

lemma reserved_scan_iff:
  "list_all proper ps \<Longrightarrow> lmb_reserved_scan addr ps \<longleftrightarrow> unat addr \<in> addrs ps"
proof (induction ps)
  case (Cons p ps)
  have "proper p" using Cons.prems by simp
  note p = properD [OF this]
  have "unat (base p + rsize p - 1) = pend p - 1"
    using p by (simp add: unat_sub_if' pend_def unat_1)
  then have "base p \<le> addr \<and> addr \<le> base p + rsize p - 1 \<longleftrightarrow> unat addr \<in> addrs_of p"
    using p(2) by (auto simp: word_le_nat_alt addrs_of_def)
  then show ?case using Cons by auto
qed simp

text \<open>
  \<open>lmb_is_reserved\<close> decides whether an address is covered, once anything is reserved.
\<close>

theorem lmb_is_reserved_iff:
  assumes "wf_regions (regions_of (reserved l))"
  shows "lmb_is_reserved l addr \<longleftrightarrow> unat addr \<in> covered (reserved l)"
  using reserved_scan_iff [of "regions_of (reserved l)" addr] assms
  by (simp add: lmb_is_reserved_def regions_of_def covered_def wf_regions_def)

lemma lmb_is_reserved_iff_witness:
  "lmb_is_reserved \<lparr>memory = lmb_sample, reserved = lmb_sample\<rparr> 70 \<longleftrightarrow>
     70 \<in> covered lmb_sample"
  using lmb_is_reserved_iff [of "\<lparr>memory = lmb_sample, reserved = lmb_sample\<rparr>" 70]
  by (simp add: lmb_sample_facts proper_def pend_def)

text \<open>
  With the table as \<open>lmb_init\<close> leaves it every address counts as reserved: the inclusive bound
  \<open>base + size - 1\<close> of the dummy region wraps to the top of the address space.
\<close>

lemma lmb_is_reserved_blank: "lmb_is_reserved lmb_blank addr"
  by (simp add: lmb_is_reserved_def lmb_blank_def lmb_init_def replicate_9)

section \<open>Allocation\<close>

lemma overlap_scan_None:
  "lmb_overlap_scan b s i ps = None \<Longrightarrow> \<forall>p \<in> set ps. \<not> lmb_addrs_overlap b s (base p) (rsize p)"
  by (induction ps arbitrary: i) (auto split: if_splits)

lemma overlap_iff:
  assumes "proper p" and "s \<noteq> 0" and "unat b + unat s < 2 ^ 32"
  shows "lmb_addrs_overlap b s (base p) (rsize p) \<longleftrightarrow> span b s \<inter> addrs_of p \<noteq> {}"
proof -
  have "0 < unat s" using assms(2) by (simp add: unat_gt_0)
  moreover have "unat (b + s) = unat b + unat s"
    using assms(3) by (simp add: unat_add_fits)
  moreover have "{x..<y} \<inter> {x'..<y'} \<noteq> {} \<longleftrightarrow> x < y' \<and> x' < y" if "x < y" "x' < y'" for x y x' y' :: nat
    using that by (auto simp: disjoint_iff)
  ultimately show ?thesis
    using properD [OF assms(1)]
    by (simp add: lmb_addrs_overlap_def word_less_nat_alt span_def addrs_of_def)
qed

lemma overlaps_region_Some:
  "lmb_overlaps_region rgn b s = Some j \<Longrightarrow>
     lmb_addrs_overlap b s (base (region rgn ! j)) (rsize (region rgn ! j))"
  using lmb_overlap_scan_overlaps [of b s 0 "take (unat (cnt rgn)) (region rgn)" j]
  by (auto simp: lmb_overlaps_region_def)

lemma alloc_scan_result:
  assumes "lmb_alloc_scan rsv s align lo b = Some a" and "P b"
    and "\<And>x. P (lmb_align_down x align)"
  shows "lo \<le> a \<and> a \<le> b \<and> a \<noteq> 0 \<and> lmb_overlaps_region rsv a s = None \<and> P a"
  using assms
proof (induction rsv s align lo b rule: lmb_alloc_scan.induct)
  case (1 rsv s align lo b)
  have b: "b \<noteq> 0 \<and> lo \<le> b"
    using 1(2) by (subst (asm) lmb_alloc_scan.simps) (simp split: if_splits)
  show ?case
  proof (cases "lmb_overlaps_region rsv b s")
    case None
    then show ?thesis
      using 1(2,3) b by (subst (asm) lmb_alloc_scan.simps) simp
  next
    case (Some j)
    let ?rb = "base (region rsv ! j)"
    have ge: "\<not> ?rb < s" and rec: "lmb_alloc_scan rsv s align lo (lmb_align_down (?rb - s) align) = Some a"
      using 1(2) b Some by (subst (asm) lmb_alloc_scan.simps, simp add: Let_def split: if_splits)+
    have "lmb_align_down (?rb - s) align < b"
      using lmb_candidate_less [OF overlaps_region_Some [OF Some] ge]
      by (rule le_less_trans [OF lmb_align_down_le])
    moreover have "lo \<le> a \<and> a \<le> lmb_align_down (?rb - s) align \<and> a \<noteq> 0 \<and>
        lmb_overlaps_region rsv a s = None \<and> P a"
      by (rule 1(1) [OF b Some refl ge rec 1(4) 1(4)])
    ultimately show ?thesis by auto
  qed
qed

text \<open>Aligned: no bit of \<open>align - 1\<close> is set.\<close>

definition aligned :: "u32 \<Rightarrow> u32 \<Rightarrow> bool" where
  "aligned align a \<longleftrightarrow> a AND (align - 1) = 0"

lemma aligned_align_down: "aligned align (lmb_align_down x align)"
proof -
  have "(x AND NOT m) AND m = 0" for m :: u32
    by (rule bit_word_eqI) (auto simp: bit_simps)
  then show ?thesis by (simp add: aligned_def lmb_align_down_def)
qed

lemma alloc_loop_result:
  assumes "lmb_alloc_loop rsv s align max_addr rs = Some a"
    and "\<forall>r \<in> set rs. proper r" and "max_addr = 0 \<or> s \<le> max_addr"
  shows "\<exists>r \<in> set rs. unat (base r) \<le> unat a \<and> unat a + unat s \<le> pend r \<and>
      (max_addr \<noteq> 0 \<longrightarrow> unat a + unat s \<le> unat max_addr) \<and> a \<noteq> 0 \<and>
      lmb_overlaps_region rsv a s = None \<and> aligned align a"
  using assms(1,2)
proof (induction rs)
  case (Cons r rs)
  let ?b = "if max_addr = 0 then lmb_align_down (base r + rsize r - s) align
            else lmb_align_down (min (base r + rsize r) max_addr - s) align"
  have "proper r" using Cons.prems by simp
  note r = properD [OF this]
  show ?case
  proof (cases "rsize r < s \<or> max_addr \<noteq> 0 \<and> \<not> base r < max_addr \<or>
      lmb_alloc_scan rsv s align (base r) ?b = None")
    case True
    then have "lmb_alloc_loop rsv s align max_addr rs = Some a"
      using Cons.prems(1) by (auto simp: Let_def split: if_splits)
    then show ?thesis using Cons by auto
  next
    case False
    then have scan: "lmb_alloc_scan rsv s align (base r) ?b = Some a"
      using Cons.prems(1) by (auto simp: Let_def split: if_splits)
    have fit: "unat s \<le> unat (rsize r)"
      using False by (simp add: word_less_nat_alt not_less)
    have "aligned align ?b" by (simp add: aligned_align_down)
    from alloc_scan_result [of _ _ _ _ _ _ "aligned align", OF scan this aligned_align_down]
    have a: "base r \<le> a" "a \<le> ?b" "a \<noteq> 0" "lmb_overlaps_region rsv a s = None" "aligned align a"
      by blast+
    define top where "top = (if max_addr = 0 then base r + rsize r else min (base r + rsize r) max_addr)"
    have "?b = lmb_align_down (top - s) align"
      by (simp add: top_def)
    then have "a \<le> lmb_align_down (top - s) align"
      using a(2) by simp
    then have "a \<le> top - s"
      using lmb_align_down_le by (rule order_trans)
    moreover have s: "unat s \<le> unat top"
      using assms(3) fit r by (auto simp: top_def min_def word_le_nat_alt pend_def)
    ultimately have le: "unat a + unat s \<le> unat top"
      by (simp add: word_le_nat_alt unat_sub_if')
    moreover have "unat top \<le> pend r" "max_addr \<noteq> 0 \<Longrightarrow> unat top \<le> unat max_addr"
      using r by (auto simp: top_def min_def word_le_nat_alt)
    ultimately show ?thesis
      using a by (intro bexI [of _ r]) (auto simp: word_le_nat_alt)
  qed
qed simp

lemma lmb_alloc_base_result:
  assumes "lmb_alloc_base l s align max_addr = (l', a)" and "a \<noteq> 0"
    and mem: "wf_regions (regions_of (memory l))" and rsv: "wf_table (reserved l)"
    and s: "s \<noteq> 0" and max: "max_addr = 0 \<or> s \<le> max_addr"
  shows "span a s \<subseteq> covered (memory l)" "span a s \<inter> covered (reserved l) = {}"
    "aligned align a" "max_addr \<noteq> 0 \<longrightarrow> unat a + unat s \<le> unat max_addr"
    "unat a + unat s < 2 ^ 32" "memory l' = memory l"
    "\<exists>r. lmb_add_region (reserved l) a (lmb_align_up s align) = (reserved l', r) \<and> 0 \<le> r"
proof -
  let ?loop = "lmb_alloc_loop (reserved l) s align max_addr (rev (regions_of (memory l)))"
  have loop: "?loop = Some a"
    using assms(1,2) by (auto simp: lmb_alloc_base_def lmb_alloc_base'_def regions_of_def
        case_prod_beta split: option.splits if_splits)
  have proper: "\<forall>p \<in> set (rev (regions_of (memory l))). proper p"
    using mem wf_regions_proper by auto
  obtain p where p: "p \<in> set (regions_of (memory l))" "unat (base p) \<le> unat a" "unat a + unat s \<le> pend p"
    and max': "max_addr \<noteq> 0 \<longrightarrow> unat a + unat s \<le> unat max_addr"
    and clear: "lmb_overlaps_region (reserved l) a s = None" and al: "aligned align a"
    using alloc_loop_result [OF loop proper max] by auto
  have fit: "unat a + unat s < 2 ^ 32"
    using p(3) properD(4) [OF wf_regions_proper [OF mem p(1)]] by simp
  have "span a s \<inter> addrs_of q = {}" if q: "q \<in> set (regions_of (reserved l))" for q
  proof (cases "proper q")
    case True
    have "\<not> lmb_addrs_overlap a s (base q) (rsize q)"
      using overlap_scan_None [OF clear [unfolded lmb_overlaps_region_def]] q
      by (simp add: regions_of_def)
    then show ?thesis
      using overlap_iff [OF True s fit] by blast
  next
    case False
    then have "q = \<lparr>base = 0, rsize = 0\<rparr>"
      using rsv q wf_regions_proper unfolding wf_table_def by fastforce
    then show ?thesis by (simp add: addrs_of_def pend_def)
  qed
  then show "span a s \<inter> covered (reserved l) = {}"
    by (auto simp: covered_def addrs_def)
  show "span a s \<subseteq> covered (memory l)"
    using p by (auto simp: covered_def addrs_def addrs_of_def span_def)
  show "aligned align a" "max_addr \<noteq> 0 \<longrightarrow> unat a + unat s \<le> unat max_addr"
    "unat a + unat s < 2 ^ 32" by (fact al max' fit)+
  show "memory l' = memory l"
    "\<exists>r. lmb_add_region (reserved l) a (lmb_align_up s align) = (reserved l', r) \<and> 0 \<le> r"
    using assms(1,2) loop
    by (cases "lmb_add_region (reserved l) a (lmb_align_up s align)";
        auto simp: lmb_alloc_base_def lmb_alloc_base'_def regions_of_def split: if_splits)+
qed

text \<open>
  C5: an address that \<open>lmb_alloc_base\<close> returns is aligned, lies below the limit given, and starts
  \<open>size\<close> bytes that are memory and were not reserved; when the size is a multiple of the
  alignment exactly these become reserved. (The limit must not be below the size: the subtraction
  would wrap.)
\<close>

theorem lmb_alloc_base_safe:
  assumes "lmb_alloc_base l s align max_addr = (l', a)" and "a \<noteq> 0"
    and "wf_regions (regions_of (memory l))" and "wf_table (reserved l)"
    and "s \<noteq> 0" and "max_addr = 0 \<or> s \<le> max_addr"
  shows "aligned align a \<and> (max_addr \<noteq> 0 \<longrightarrow> unat a + unat s \<le> unat max_addr) \<and>
    span a s \<subseteq> covered (memory l) - covered (reserved l) \<and> memory l' = memory l \<and>
    (lmb_align_up s align = s \<longrightarrow>
       wf_table (reserved l') \<and> covered (reserved l') = covered (reserved l) \<union> span a s)"
proof -
  note r = lmb_alloc_base_result [OF assms]
  obtain q where q: "lmb_add_region (reserved l) a (lmb_align_up s align) = (reserved l', q)" "0 \<le> q"
    using r(7) by blast
  moreover have "covered (reserved l) \<inter> span a s = {}" using r(2) by blast
  ultimately have "lmb_align_up s align = s \<Longrightarrow>
      wf_table (reserved l') \<and> covered (reserved l') = covered (reserved l) \<union> span a s"
    using add_region_covers [OF assms(4,5) r(5)] q by simp
  then show ?thesis using r by blast
qed

definition lmb_board :: lmb where
  "lmb_board = \<lparr>memory = \<lparr>cnt = 1, total = 0, region = \<lparr>base = 0x30000000, rsize = 0x4000000\<rparr>
       # replicate 8 \<lparr>base = 0, rsize = 0\<rparr>\<rparr>,
     reserved = \<lparr>cnt = 1, total = 0, region = \<lparr>base = 0x33f00000, rsize = 0x100000\<rparr>
       # replicate 8 \<lparr>base = 0, rsize = 0\<rparr>\<rparr>\<rparr>"

lemma lmb_board_alloc:
  "lmb_alloc_base lmb_board 0x2000 0x1000 0 =
    (lmb_board\<lparr>reserved := (reserved lmb_board)\<lparr>region :=
       \<lparr>base = 0x33efe000, rsize = 0x102000\<rparr> # replicate 8 \<lparr>base = 0, rsize = 0\<rparr>\<rparr>\<rparr>, 0x33efe000)"
  by (simp add: lmb_board_def lmb_alloc_base_def lmb_alloc_base'_def lmb_alloc_scan.simps Let_def
      lmb_overlaps_region_def lmb_addrs_overlap_def lmb_align_down_def lmb_align_up_def
      lmb_add_region_def lmb_addrs_adjacent_def)

lemma lmb_alloc_base_safe_witness:
  "aligned 0x1000 0x33efe000 \<and>
   span 0x33efe000 0x2000 \<subseteq> covered (memory lmb_board) - covered (reserved lmb_board)"
proof -
  have "wf_regions (regions_of (memory lmb_board))" "wf_table (reserved lmb_board)"
    by (simp_all add: lmb_board_def regions_of_def proper_def pend_def wf_table_def MAX_LMB_REGIONS_def)
  from lmb_alloc_base_safe [OF lmb_board_alloc _ this] show ?thesis
    by simp
qed

end
