(* ===== verification/CommandLine.thy ===== *)
theory CommandLine
  imports Environment
begin

text \<open>
  The command interpreter (\<open>common/main.c\<close>, \<open>common/command.c\<close>; the simple parser, since the board
  does not configure hush): splitting a line at semicolons, expanding \<open>${name}\<close>, cutting it into
  arguments, looking the command up, running it; the help list; and completion. Strings are the
  lists of their bytes up to the NUL.
\<close>

definition CONFIG_SYS_CBSIZE :: nat where
  "CONFIG_SYS_CBSIZE = 256"

definition CONFIG_SYS_MAXARGS :: nat where
  "CONFIG_SYS_MAXARGS = 16"

section \<open>Arguments\<close>

definition blank :: "u8 \<Rightarrow> bool" where
  "blank c \<longleftrightarrow> c = chr8 CHR '' '' \<or> c = chr8 CHR 0x09"

text \<open>
  The loop of \<open>parse_line\<close>, with the arguments still allowed. The second component tells whether
  the end of the line was seen, so that the vector was ended with a null pointer; if not, the
  message about too many arguments is printed.
\<close>

fun parse_line_loop :: "nat \<Rightarrow> u8 list \<Rightarrow> u8 list list \<times> bool" where
  "parse_line_loop 0 line = ([], False)"
| "parse_line_loop (Suc k) line =
     (let line = dropWhile blank line in
      if line = [] then ([], True)
      else
        let arg = takeWhile (\<lambda>c. \<not> blank c) line; rest = dropWhile (\<lambda>c. \<not> blank c) line in
        if rest = [] then ([arg], True)
        else let (args, fin) = parse_line_loop k (tl rest) in (arg # args, fin))"

definition parse_line :: "u8 list \<Rightarrow> u8 list list \<times> bool" where
  "parse_line line = parse_line_loop CONFIG_SYS_MAXARGS line"

section \<open>Macros\<close>

text \<open>
  The loop of \<open>process_macros\<close>: the input still to read, the room left in the output, the state,
  the character before and the input at the start of the variable's name. The result is the
  bytes written.
\<close>

definition backslash :: u8 where
  "backslash = chr8 CHR 0x5C"

definition quote :: u8 where
  "quote = chr8 CHR 0x27"

function process_macros_loop ::
  "(u8 list \<Rightarrow> u8 list option) \<Rightarrow> u8 list \<Rightarrow> nat \<Rightarrow> nat \<Rightarrow> u8 \<Rightarrow> u8 list \<Rightarrow> u8 list" where
  "process_macros_loop lookup input outputcnt state prev varname_start =
     (if input = [] \<or> outputcnt = 0 then []
      else
        let c = hd input; input = tl input in
        if state \<noteq> 3 \<and> c = backslash \<and> prev \<noteq> backslash \<and> input = [] then []
        else
          let (prev, c, input) =
            (if state \<noteq> 3 \<and> c = backslash \<and> prev \<noteq> backslash then (c, hd input, tl input)
             else (prev, c, input)) in
          if state = 0 then
            (if c = quote \<and> prev \<noteq> backslash
             then process_macros_loop lookup input outputcnt 3 c varname_start
             else if c = chr8 CHR ''$'' \<and> prev \<noteq> backslash
             then process_macros_loop lookup input outputcnt 1 c varname_start
             else c # process_macros_loop lookup input (outputcnt - 1) 0 c varname_start)
          else if state = 1 then
            (if c = chr8 CHR ''('' \<or> c = chr8 CHR ''{''
             then process_macros_loop lookup input outputcnt 2 c input
             else if outputcnt - 1 = 0 then [chr8 CHR ''$'']
             else chr8 CHR ''$'' # c # process_macros_loop lookup input (outputcnt - 2) 0 c varname_start)
          else if state = 2 then
            (if c = chr8 CHR '')'' \<or> c = chr8 CHR ''}'' then
               (let envcnt = length varname_start - length input - 1;
                    envname = take envcnt varname_start;
                    val = (case lookup envname of None \<Rightarrow> [] | Some v \<Rightarrow> take outputcnt v)
                in val @ process_macros_loop lookup input (outputcnt - length val) 0 c varname_start)
             else process_macros_loop lookup input outputcnt 2 c varname_start)
          else
            (if c = quote \<and> prev \<noteq> backslash
             then process_macros_loop lookup input outputcnt 0 c varname_start
             else c # process_macros_loop lookup input (outputcnt - 1) 3 c varname_start))"
  by pat_completeness auto
termination
  by (relation "measure (\<lambda>(lookup, input, outputcnt, state, prev, varname_start). length input)")
    (auto split: if_splits simp: less_Suc_eq_le)

declare process_macros_loop.simps [simp del]

text \<open>The string left in the output: when the room is used up the last byte becomes the NUL.\<close>

definition process_macros :: "(u8 list \<Rightarrow> u8 list option) \<Rightarrow> u8 list \<Rightarrow> u8 list" where
  "process_macros lookup input =
     (let out = process_macros_loop lookup input CONFIG_SYS_CBSIZE 0 0 []
      in if length out < CONFIG_SYS_CBSIZE then out else butlast out)"

section \<open>The command table\<close>

text \<open>
  A command with its effect on the state of the machine: it is given the flag word and its
  arguments and returns a status. \<open>cmd_is_bootd\<close> marks \<open>do_bootd\<close>, which the interpreter
  compares with by address.
\<close>

record 's cmd_tbl =
  cmd_name :: "u8 list"
  maxargs :: nat
  repeatable :: bool
  cmd_fun :: "nat \<Rightarrow> u8 list list \<Rightarrow> 's \<Rightarrow> 's \<times> int"
  cmd_is_bootd :: bool
  usage :: "u8 list option"

text \<open>The name as far as the first dot.\<close>

definition cmd_stem :: "u8 list \<Rightarrow> u8 list" where
  "cmd_stem cmd = takeWhile (\<lambda>c. c \<noteq> chr8 CHR ''.'') cmd"

text \<open>\<open>strncmp (cmd, name, len) == 0\<close> where \<open>len\<close> is the length of the stem.\<close>

fun find_cmd_loop ::
  "u8 list \<Rightarrow> 's cmd_tbl list \<Rightarrow> 's cmd_tbl option \<Rightarrow> nat \<Rightarrow> 's cmd_tbl option" where
  "find_cmd_loop stem [] cmdtp_temp n_found = (if n_found = 1 then cmdtp_temp else None)"
| "find_cmd_loop stem (cmdtp # table) cmdtp_temp n_found =
     (if take (length stem) (cmd_name cmdtp) = stem then
        if length stem = length (cmd_name cmdtp) then Some cmdtp
        else find_cmd_loop stem table (Some cmdtp) (n_found + 1)
      else find_cmd_loop stem table cmdtp_temp n_found)"

definition find_cmd_tbl :: "u8 list \<Rightarrow> 's cmd_tbl list \<Rightarrow> 's cmd_tbl option" where
  "find_cmd_tbl cmd table =
     find_cmd_loop (cmd_stem cmd) table (case table of [] \<Rightarrow> None | t # _ \<Rightarrow> Some t) 0"

section \<open>Running a command line\<close>

text \<open>
  The scan for a separator from the start of a command: \<open>prev\<close> is the byte before the one at
  hand, \<open>pos0\<close> says that this is the first one. The result is the token and, when a separator was
  found, what follows it.
\<close>

fun find_separator :: "u8 \<Rightarrow> bool \<Rightarrow> bool \<Rightarrow> u8 list \<Rightarrow> u8 list \<times> u8 list option" where
  "find_separator prev pos0 inquotes [] = ([], None)"
| "find_separator prev pos0 inquotes (c # s) =
     (let inquotes = (if c = quote \<and> prev \<noteq> backslash then \<not> inquotes else inquotes) in
      if \<not> inquotes \<and> c = chr8 CHR '';'' \<and> \<not> pos0 \<and> prev \<noteq> backslash then ([], Some s)
      else let (token, rest) = find_separator c False inquotes s in (c # token, rest))"

lemma find_separator_length:
  "find_separator prev pos0 q s = (token, Some rest) \<Longrightarrow> length rest < length s"
  by (induction prev pos0 q s arbitrary: token rule: find_separator.induct)
    (auto simp: Let_def split: if_splits prod.splits)

definition CMD_FLAG_BOOTD :: nat where
  "CMD_FLAG_BOOTD = 2"

text \<open>
  The interpreter, relative to the machine: the commands, the environment as the machine holds it
  at that moment, and whether Control-C has been seen.
\<close>

record 's interp =
  commands :: "'s cmd_tbl list"
  env_of :: "'s \<Rightarrow> u8 list \<Rightarrow> u8 list option"
  had_ctrlc :: "'s \<Rightarrow> bool"
  clear_ctrlc :: "'s \<Rightarrow> 's"

datatype 's token_result = Stop 's | Go 's nat int bool

text \<open>One command between separators: the new flags, the status so far and whether repeatable.\<close>

definition run_token ::
  "'s interp \<Rightarrow> u8 list \<Rightarrow> 's \<Rightarrow> nat \<Rightarrow> int \<Rightarrow> bool \<Rightarrow> 's token_result" where
  "run_token I token st flag rc rep =
     (let finaltoken = process_macros (env_of I st) token;
          (argv, fin) = parse_line finaltoken
      in if argv = [] then Go st flag (- 1) rep
         else case find_cmd_tbl (hd argv) (commands I) of
           None \<Rightarrow> Go st flag (- 1) rep
         | Some cmdtp \<Rightarrow>
             if length argv > maxargs cmdtp then Go st flag (- 1) rep
             else if cmd_is_bootd cmdtp \<and> flag AND CMD_FLAG_BOOTD \<noteq> 0 then Go st flag (- 1) rep
             else
               let flag = (if cmd_is_bootd cmdtp then flag OR CMD_FLAG_BOOTD else flag);
                   (st, r) = cmd_fun cmdtp flag argv st;
                   rc = (if r \<noteq> 0 then - 1 else rc);
                   rep = (rep \<and> repeatable cmdtp)
               in if had_ctrlc I st then Stop st else Go st flag rc rep)"

function run_tokens ::
  "'s interp \<Rightarrow> u8 \<Rightarrow> u8 list \<Rightarrow> 's \<Rightarrow> nat \<Rightarrow> int \<Rightarrow> bool \<Rightarrow> 's \<times> int" where
  "run_tokens I before str st flag rc rep =
     (if str = [] then (st, if rc \<noteq> 0 then rc else if rep then 1 else 0)
      else case find_separator before True False str of
        (token, rest) \<Rightarrow>
          (case run_token I token st flag rc rep of
             Stop st \<Rightarrow> (st, - 1)
           | Go st flag rc rep \<Rightarrow>
               (case rest of
                  None \<Rightarrow> (st, if rc \<noteq> 0 then rc else if rep then 1 else 0)
                | Some str \<Rightarrow> run_tokens I 0 str st flag rc rep)))"
  by pat_completeness auto
termination
  by (relation "measure (\<lambda>(I, before, str, st, flag, rc, rep). length str)")
    (auto dest!: find_separator_length [OF sym])

declare run_tokens.simps [simp del]

text \<open>\<open>before\<close> is the byte that happens to lie before the working copy of the command.\<close>

definition run_command :: "'s interp \<Rightarrow> u8 \<Rightarrow> u8 list option \<Rightarrow> 's \<Rightarrow> nat \<Rightarrow> 's \<times> int" where
  "run_command I before cmd st flag =
     (let st = clear_ctrlc I st in
      case cmd of
        None \<Rightarrow> (st, - 1)
      | Some cmd \<Rightarrow>
          if cmd = [] then (st, - 1)
          else if CONFIG_SYS_CBSIZE \<le> length cmd then (st, - 1)
          else run_tokens I before cmd st flag 0 True)"

text \<open>\<open>run\<close>: the values of the variables named are run as command lines.\<close>

fun do_run_loop :: "'s interp \<Rightarrow> u8 \<Rightarrow> nat \<Rightarrow> u8 list list \<Rightarrow> 's \<Rightarrow> 's \<times> int" where
  "do_run_loop I before flag [] st = (st, 0)"
| "do_run_loop I before flag (a # args) st =
     (case env_of I st a of
        None \<Rightarrow> (st, 1)
      | Some arg \<Rightarrow>
          (case run_command I before (Some arg) st flag of
             (st, r) \<Rightarrow> if r = - 1 then (st, 1) else do_run_loop I before flag args st))"

definition do_run :: "'s interp \<Rightarrow> u8 \<Rightarrow> nat \<Rightarrow> u8 list list \<Rightarrow> 's \<Rightarrow> 's \<times> int" where
  "do_run I before flag argv st =
     (if length argv < 2 then (st, 1) else do_run_loop I before flag (tl argv) st)"

section \<open>The echo and help commands\<close>

fun echo_arg :: "u8 list \<Rightarrow> u8 list \<times> bool" where
  "echo_arg [] = ([], True)"
| "echo_arg (c # p) =
     (if c = backslash \<and> p \<noteq> [] \<and> hd p = chr8 CHR ''c''
      then (let (out, nl) = echo_arg (tl p) in (out, False))
      else (let (out, nl) = echo_arg p in (c # out, nl)))"

text \<open>What \<open>do_echo\<close> puts out; \<open>args\<close> are the arguments after the command's name.\<close>

definition do_echo :: "u8 list list \<Rightarrow> u8 list" where
  "do_echo args =
     (let outs = map echo_arg args;
          line = concat (map (\<lambda>(i, (out, nl)). (if 0 < i then [chr8 CHR '' ''] else []) @ out)
                   (enumerate 0 outs))
      in line @ (if list_all snd outs then [chr8 CHR 0x0A] else []))"

text \<open>The order of the help list: the sign of \<open>strcmp\<close>.\<close>

definition cmd_after :: "'s cmd_tbl \<Rightarrow> 's cmd_tbl \<Rightarrow> bool" where
  "cmd_after a b \<longleftrightarrow> 0 < sint (byte_diff (cmd_name a) (cmd_name b))"

text \<open>One pass of the bubble sort over the first \<open>i + 1\<close> elements, and whether anything moved.\<close>

fun bubble_pass :: "('a \<Rightarrow> 'a \<Rightarrow> bool) \<Rightarrow> nat \<Rightarrow> 'a list \<Rightarrow> 'a list \<times> bool" where
  "bubble_pass after (Suc i) (a # b # xs) =
     (if after a b then (let (ys, m) = bubble_pass after i (a # xs) in (b # ys, True))
      else (let (ys, m) = bubble_pass after i (b # xs) in (a # ys, m)))"
| "bubble_pass after i xs = (xs, False)"

fun bubble_sort :: "('a \<Rightarrow> 'a \<Rightarrow> bool) \<Rightarrow> nat \<Rightarrow> 'a list \<Rightarrow> 'a list" where
  "bubble_sort after 0 xs = xs"
| "bubble_sort after (Suc i) xs =
     (case bubble_pass after (Suc i) xs of
        (ys, moved) \<Rightarrow> if moved then bubble_sort after i ys else ys)"

definition help_list :: "'s cmd_tbl list \<Rightarrow> 's cmd_tbl list" where
  "help_list table = bubble_sort cmd_after (length table - 1) table"

section \<open>Completion\<close>

fun make_argv_loop :: "nat \<Rightarrow> u8 list \<Rightarrow> u8 list list" where
  "make_argv_loop 0 s = []"
| "make_argv_loop (Suc k) s =
     (let s = dropWhile blank s in
      if s = [] then []
      else
        let arg = takeWhile (\<lambda>c. \<not> blank c) s; rest = dropWhile (\<lambda>c. \<not> blank c) s in
        if rest = [] then [arg] else arg # make_argv_loop k (tl rest))"

definition make_argv :: "u8 list \<Rightarrow> nat \<Rightarrow> u8 list list" where
  "make_argv s argvsz = make_argv_loop (argvsz - 1) s"

text \<open>Candidates, at most \<open>room\<close> of them, with a final \<open>...\<close> when there are more.\<close>

fun complete_list :: "nat \<Rightarrow> u8 list list \<Rightarrow> u8 list list" where
  "complete_list room [] = []"
| "complete_list 0 (n # ns) = [cstr ''...'']"
| "complete_list (Suc k) (n # ns) = n # complete_list k ns"

text \<open>
  \<open>complete_cmdv\<close>: the candidates; \<open>complete\<close> is the completion handler of a command. \<open>None\<close> is
  the sanity failure.
\<close>

definition complete_cmdv ::
  "('s cmd_tbl \<Rightarrow> (u8 list list \<Rightarrow> u8 \<Rightarrow> nat \<Rightarrow> u8 list list) option) \<Rightarrow> 's cmd_tbl list \<Rightarrow>
   u8 list list \<Rightarrow> u8 \<Rightarrow> nat \<Rightarrow> u8 list list option" where
  "complete_cmdv complete table argv last_char maxv =
     (if maxv < 2 then None
      else if argv = [] then Some (complete_list (maxv - 2) (map cmd_name table))
      else if 1 < length argv \<or> last_char = 0 \<or> blank last_char then
        (case find_cmd_tbl (hd argv) table of
           None \<Rightarrow> Some []
         | Some cmdtp \<Rightarrow>
             (case complete cmdtp of
                None \<Rightarrow> Some []
              | Some f \<Rightarrow> Some (f argv last_char maxv)))
      else
        let stem = cmd_stem (hd argv) in
        Some (complete_list (maxv - 2)
          (filter (\<lambda>n. length stem \<le> length n \<and> take (length stem) n = stem) (map cmd_name table))))"

text \<open>The length that two strings agree on, up to a bound.\<close>

fun agree :: "nat \<Rightarrow> u8 list \<Rightarrow> u8 list \<Rightarrow> nat" where
  "agree (Suc len) (s # anchor) (t # ts) = (if t \<noteq> s then 0 else Suc (agree len anchor ts))"
| "agree len anchor ts = 0"

definition find_common_prefix :: "u8 list list \<Rightarrow> nat" where
  "find_common_prefix argv =
     (case argv of [] \<Rightarrow> 0
      | anchor # rest \<Rightarrow> foldl (\<lambda>len t. agree len anchor t) (length anchor) rest)"

text \<open>
  What \<open>cmd_auto_complete\<close> does with the line: leave the key to the caller, ring, extend the line
  by the bytes given, or list the candidates. \<open>Overrun\<close> is a read past the end of the only
  candidate, which the code does when that is shorter than the last word of the line.
\<close>

datatype completion = NotHandled | Ring | Extend "u8 list" bool | ListThem "u8 list list" | Overrun

definition cmd_auto_complete ::
  "('s cmd_tbl \<Rightarrow> (u8 list list \<Rightarrow> u8 \<Rightarrow> nat \<Rightarrow> u8 list list) option) \<Rightarrow> 's cmd_tbl list \<Rightarrow>
   bool \<Rightarrow> u8 list \<Rightarrow> nat \<Rightarrow> completion" where
  "cmd_auto_complete complete table normal buf n =
     (if \<not> normal then NotHandled
      else
        let last_char = (if buf = [] then 0 else last buf);
            argv = make_argv buf (CONFIG_SYS_MAXARGS + 1)
        in case complete_cmdv complete table argv last_char 20 of
          None \<Rightarrow> ListThem []
        | Some cmdv \<Rightarrow>
            if cmdv = [] then (if 1 < length argv then NotHandled else Ring)
            else
              let k = (if argv = [] then 0 else length (last argv));
                  add = (if length cmdv = 1 then Some (drop k (hd cmdv) @ [chr8 CHR '' ''])
                         else let j = find_common_prefix cmdv in
                              if k < j then Some (take (j - k) (drop k (hd cmdv))) else None)
              in if length cmdv = 1 \<and> length (hd cmdv) < k then Overrun
                 else case add of
                   None \<Rightarrow> ListThem cmdv
                 | Some s \<Rightarrow>
                     if CONFIG_SYS_CBSIZE - 2 \<le> n + length s then Ring
                     else Extend s (length cmdv = 1))"

end
