(* ===== verification/CommandLine_Correct.thy ===== *)
theory CommandLine_Correct
  imports CommandLine Environment_Correct "HOL-Library.Multiset" "HOL-Library.Sublist"
begin

text \<open>
  What the command interpreter does: \<open>parse_line\<close> against a reference splitter, \<open>process_macros\<close>
  against an unbounded expansion, command lookup against exact and unique-prefix matching, the
  help list against sorting, and a line of commands against running them one after another.
\<close>

section \<open>Arguments\<close>

text \<open>The words of a line, by a scan that keeps the word at hand.\<close>

fun words_from :: "u8 list \<Rightarrow> u8 list \<Rightarrow> u8 list list" where
  "words_from w [] = (if w = [] then [] else [w])"
| "words_from w (c # cs) =
     (if blank c then (if w = [] then words_from [] cs else w # words_from [] cs)
      else words_from (w @ [c]) cs)"

abbreviation words :: "u8 list \<Rightarrow> u8 list list" where
  "words \<equiv> words_from []"

lemma words_dropWhile: "words (dropWhile blank line) = words line"
  by (induction line) auto

lemma words_from_span:
  "words_from w line =
     (let a = w @ takeWhile (\<lambda>c. \<not> blank c) line; r = dropWhile (\<lambda>c. \<not> blank c) line in
      if a = [] then words (tl r) else a # words (tl r))"
  by (induction line arbitrary: w) (auto simp: Let_def)

lemma words_split:
  assumes "line \<noteq> []" and "\<not> blank (hd line)"
  shows "words line = takeWhile (\<lambda>c. \<not> blank c) line # words (tl (dropWhile (\<lambda>c. \<not> blank c) line))"
proof -
  have "takeWhile (\<lambda>c. \<not> blank c) line \<noteq> []"
    using assms by (cases line) auto
  then show ?thesis
    by (subst words_from_span) (simp add: Let_def)
qed

lemma parse_line_loop_words:
  "fst (parse_line_loop k line) = take k (words line) \<and>
   (\<not> snd (parse_line_loop k line) \<longrightarrow> length (fst (parse_line_loop k line)) = k) \<and>
   (k < length (words line) \<longrightarrow> \<not> snd (parse_line_loop k line))"
proof (induction k arbitrary: line)
  case (Suc k)
  let ?l = "dropWhile blank line"
  have w: "words line = words ?l" by (simp add: words_dropWhile)
  show ?case
  proof (cases "?l = []")
    case True
    then have "words line = []"
      using w by (simp only: True words_from.simps) simp
    then show ?thesis by (simp only: parse_line_loop.simps Let_def True if_True) simp
  next
    case False
    then have "\<not> blank (hd ?l)" by (rule hd_dropWhile)
    then have split: "words line = takeWhile (\<lambda>c. \<not> blank c) ?l # words (tl (dropWhile (\<lambda>c. \<not> blank c) ?l))"
      using words_split [OF False] w by simp
    let ?r = "dropWhile (\<lambda>c. \<not> blank c) ?l"
    show ?thesis
    proof (cases "?r = []")
      case True
      then have "words (tl ?r) = []" by (simp only: list.sel words_from.simps if_P simp_thms) 
      then show ?thesis
        unfolding split parse_line_loop.simps Let_def if_not_P [OF False] if_P [OF True]
        by (simp del: dropWhile_eq_Nil_conv)
    next
      case r: False
      show ?thesis
        using Suc.IH [of "tl ?r"]
        unfolding split parse_line_loop.simps Let_def if_not_P [OF False] if_not_P [OF r]
        by (auto simp add: case_prod_beta simp del: dropWhile_eq_Nil_conv)
    qed
  qed
qed auto

text \<open>
  \<open>parse_line\<close> yields the words of the line, at most 16 of them; the vector is left without its
  null pointer only when all 16 places are taken, and always when there are more words.
\<close>

theorem parse_line_words:
  "fst (parse_line line) = take CONFIG_SYS_MAXARGS (words line) \<and>
   (\<not> snd (parse_line line) \<longrightarrow> length (fst (parse_line line)) = CONFIG_SYS_MAXARGS) \<and>
   (CONFIG_SYS_MAXARGS < length (words line) \<longrightarrow> \<not> snd (parse_line line))"
  unfolding parse_line_def by (rule parse_line_loop_words)

theorem parse_line_words_witness:
  "fst (parse_line (cstr ''md  30000000 '')) = [cstr ''md'', cstr ''30000000'']"
  using parse_line_words [of "cstr ''md  30000000 ''"]
  by (simp add: blank_def CONFIG_SYS_MAXARGS_def)

definition good_arg :: "u8 list \<Rightarrow> bool" where
  "good_arg a \<longleftrightarrow> a \<noteq> [] \<and> list_all (\<lambda>c. \<not> blank c) a"

definition join_line :: "u8 list list \<Rightarrow> u8 list" where
  "join_line args = concat (map (\<lambda>a. a @ [chr8 CHR '' '']) args)"

lemma words_join: "list_all good_arg args \<Longrightarrow> words (join_line args) = args"
proof (induction args)
  case (Cons a args)
  have a: "a \<noteq> []" "\<forall>c \<in> set a. \<not> blank c" using Cons.prems by (auto simp: good_arg_def list_all_iff)
  have b: "blank (chr8 CHR '' '')" by (simp add: blank_def)
  have t: "takeWhile (\<lambda>c. \<not> blank c) (join_line (a # args)) = a"
    and d: "dropWhile (\<lambda>c. \<not> blank c) (join_line (a # args)) = chr8 CHR '' '' # join_line args"
    using a b by (simp_all add: join_line_def takeWhile_append dropWhile_append)
  have "join_line (a # args) \<noteq> []" "\<not> blank (hd (join_line (a # args)))"
    using a by (simp_all add: join_line_def)
  then show ?case
    using words_split [of "join_line (a # args)"] t d Cons by simp
qed (simp add: join_line_def)

section \<open>Macros\<close>

text \<open>The expansion of a line without a bound on its length.\<close>

function expand_loop ::
  "(u8 list \<Rightarrow> u8 list option) \<Rightarrow> u8 list \<Rightarrow> nat \<Rightarrow> u8 \<Rightarrow> u8 list \<Rightarrow> u8 list" where
  "expand_loop lookup input state prev varname_start =
     (if input = [] then []
      else
        let c = hd input; input = tl input in
        if state \<noteq> 3 \<and> c = backslash \<and> prev \<noteq> backslash \<and> input = [] then []
        else
          let (prev, c, input) =
            (if state \<noteq> 3 \<and> c = backslash \<and> prev \<noteq> backslash then (c, hd input, tl input)
             else (prev, c, input)) in
          if state = 0 then
            (if c = quote \<and> prev \<noteq> backslash then expand_loop lookup input 3 c varname_start
             else if c = chr8 CHR ''$'' \<and> prev \<noteq> backslash
             then expand_loop lookup input 1 c varname_start
             else c # expand_loop lookup input 0 c varname_start)
          else if state = 1 then
            (if c = chr8 CHR ''('' \<or> c = chr8 CHR ''{'' then expand_loop lookup input 2 c input
             else chr8 CHR ''$'' # c # expand_loop lookup input 0 c varname_start)
          else if state = 2 then
            (if c = chr8 CHR '')'' \<or> c = chr8 CHR ''}'' then
               (case lookup (take (length varname_start - length input - 1) varname_start) of
                  None \<Rightarrow> [] | Some v \<Rightarrow> v) @ expand_loop lookup input 0 c varname_start
             else expand_loop lookup input 2 c varname_start)
          else
            (if c = quote \<and> prev \<noteq> backslash then expand_loop lookup input 0 c varname_start
             else c # expand_loop lookup input 3 c varname_start))"
  by pat_completeness auto
termination
  by (relation "measure (\<lambda>(lookup, input, state, prev, varname_start). length input)")
    (auto split: if_splits simp: less_Suc_eq_le)

declare expand_loop.simps [simp del]

lemma take_minus_min: "take (n - min k n) xs = take (n - k) xs"
  by (simp add: min_def)

lemma process_macros_loop_expand:
  "process_macros_loop lookup input n state prev vs = take n (expand_loop lookup input state prev vs)"
proof (induction "length input" arbitrary: input n state prev vs rule: less_induct)
  case less
  show ?case
  proof (cases "n = 0 \<or> input = []")
    case True
    then show ?thesis
      by (subst process_macros_loop.simps) (auto simp: expand_loop.simps)
  next
    case False
    then obtain c cs m where input: "input = c # cs" and n: "n = Suc m"
      by (cases input; cases n) auto
    show ?thesis
    proof (cases "state \<noteq> 3 \<and> c = backslash \<and> prev \<noteq> backslash")
      case True
      show ?thesis
      proof (cases cs)
        case Nil
        then show ?thesis
          using True input n
          by (subst process_macros_loop.simps, subst expand_loop.simps) (simp add: Let_def)
      next
        case (Cons d ds)
        show ?thesis
          using True less
          by (subst process_macros_loop.simps, subst expand_loop.simps)
            (simp add: Let_def input n Cons take_Cons' take_minus_min split: option.splits)
      qed
    next
      case False
      then have keep: "(if state \<noteq> 3 \<and> c = backslash \<and> prev \<noteq> backslash then (c, hd cs, tl cs)
          else (prev, c, cs)) = (prev, c, cs)"
        and go: "\<not> (state \<noteq> 3 \<and> c = backslash \<and> prev \<noteq> backslash \<and> cs = [])"
        by auto
      have IH: "process_macros_loop lookup cs k t q ws = take k (expand_loop lookup cs t q ws)"
        for k t q ws
        by (rule less) (simp add: input)
      have "input \<noteq> []" and "\<not> (input = [] \<or> n = 0)" by (simp_all add: input n)
      note unfolded = if_not_P [OF this(1)] if_not_P [OF this(2)] if_not_P [OF go]
      show ?thesis
        apply (subst process_macros_loop.simps, subst expand_loop.simps)
        apply (simp only: unfolded Let_def)
        apply (simp only: input list.sel keep prod.case if_not_P [OF go] IH)
        apply (cases "state = 0")
         apply (simp add: n)
        apply (cases "state = 1")
         apply (simp add: n take_Cons')
        apply (cases "state = 2")
         apply (simp add: n take_minus_min split: option.splits)
        apply (simp add: n)
        done
    qed
  qed
qed

lemma process_macros_expand:
  "process_macros lookup input = take (CONFIG_SYS_CBSIZE - 1) (expand_loop lookup input 0 0 [])"
  by (simp add: process_macros_def process_macros_loop_expand Let_def butlast_take CONFIG_SYS_CBSIZE_def)

text \<open>
  A line as its author reads it: plain text, \<open>${name}\<close> or \<open>$(name)\<close>, text in single quotes, a
  character after a backslash.
\<close>

datatype piece = Plain "u8 list" | Var bool "u8 list" | Quoted "u8 list" | Escaped u8

fun good_piece :: "piece \<Rightarrow> bool" where
  "good_piece (Plain s) \<longleftrightarrow>
     list_all (\<lambda>c. c \<noteq> backslash \<and> c \<noteq> quote \<and> c \<noteq> chr8 CHR ''$'') s"
| "good_piece (Var round n) \<longleftrightarrow>
     list_all (\<lambda>c. c \<noteq> backslash \<and> c \<noteq> chr8 CHR '')'' \<and> c \<noteq> chr8 CHR ''}'') n"
| "good_piece (Quoted s) \<longleftrightarrow> quote \<notin> set s \<and> (s \<noteq> [] \<longrightarrow> last s \<noteq> backslash)"
| "good_piece (Escaped c) \<longleftrightarrow> c \<noteq> backslash"

fun written :: "piece \<Rightarrow> u8 list" where
  "written (Plain s) = s"
| "written (Var round n) = (if round then cstr ''$('' @ n @ cstr '')'' else cstr ''${'' @ n @ cstr ''}'')"
| "written (Quoted s) = quote # s @ [quote]"
| "written (Escaped c) = [backslash, c]"

fun meaning :: "(u8 list \<Rightarrow> u8 list option) \<Rightarrow> piece \<Rightarrow> u8 list" where
  "meaning lookup (Plain s) = s"
| "meaning lookup (Var round n) = (case lookup n of None \<Rightarrow> [] | Some v \<Rightarrow> v)"
| "meaning lookup (Quoted s) = s"
| "meaning lookup (Escaped c) = [c]"

lemmas macro_chars = backslash_def quote_def

lemma expand_plain:
  assumes "good_piece (Plain s)" and "prev \<noteq> backslash"
  shows "\<exists>p. p \<noteq> backslash \<and> (\<forall>rest. expand_loop lookup (s @ rest) 0 prev vs = s @ expand_loop lookup rest 0 p vs)"
  using assms
proof (induction s arbitrary: prev)
  case (Cons c s)
  have "good_piece (Plain s)" and "c \<noteq> backslash" using Cons.prems by simp_all
  then obtain p where p: "p \<noteq> backslash"
    "\<And>rest. expand_loop lookup (s @ rest) 0 c vs = s @ expand_loop lookup rest 0 p vs"
    using Cons.IH by blast
  moreover have "expand_loop lookup ((c # s) @ rest) 0 prev vs = c # expand_loop lookup (s @ rest) 0 c vs" for rest
    using Cons.prems by (subst expand_loop.simps) simp
  ultimately show ?case by auto
qed auto

lemma expand_name:
  assumes "list_all (\<lambda>c. c \<noteq> backslash \<and> c \<noteq> chr8 CHR '')'' \<and> c \<noteq> chr8 CHR ''}'') n"
    and "d = chr8 CHR '')'' \<or> d = chr8 CHR ''}''"
  shows "expand_loop lookup (n @ d # rest) 2 prev (pre @ n @ d # rest) =
    (case lookup (pre @ n) of None \<Rightarrow> [] | Some v \<Rightarrow> v) @ expand_loop lookup rest 0 d (pre @ n @ d # rest)"
  using assms(1)
proof (induction n arbitrary: prev pre)
  case Nil
  have "d \<noteq> backslash" using assms(2) by (auto simp: macro_chars)
  then show ?case
    using assms(2) by (subst expand_loop.simps) simp
next
  case (Cons c n)
  have "expand_loop lookup ((c # n) @ d # rest) 2 prev (pre @ (c # n) @ d # rest) =
      expand_loop lookup (n @ d # rest) 2 c (pre @ (c # n) @ d # rest)"
    using Cons.prems by (subst expand_loop.simps) simp
  with Cons.IH [of c "pre @ [c]"] Cons.prems show ?case by simp
qed

lemma expand_quoted:
  assumes "quote \<notin> set s" and "(if s = [] then prev else last s) \<noteq> backslash"
  shows "expand_loop lookup (s @ quote # rest) 3 prev vs = s @ expand_loop lookup rest 0 quote vs"
  using assms
proof (induction s arbitrary: prev)
  case Nil
  then show ?case by (subst expand_loop.simps) simp
next
  case (Cons c s)
  have "expand_loop lookup ((c # s) @ quote # rest) 3 prev vs = c # expand_loop lookup (s @ quote # rest) 3 c vs"
    using Cons.prems by (subst expand_loop.simps) (auto simp: Let_def)
  with Cons.IH [of c] Cons.prems show ?case by (simp split: if_splits)
qed

lemma expand_piece:
  assumes "good_piece q" and "prev \<noteq> backslash"
  shows "\<exists>p ws. p \<noteq> backslash \<and>
    expand_loop lookup (written q @ rest) 0 prev vs = meaning lookup q @ expand_loop lookup rest 0 p ws"
proof (cases q)
  case (Plain s)
  then show ?thesis using expand_plain [of s prev lookup vs] assms by auto
next
  case (Var round n)
  define d where "d = (if round then chr8 CHR '')'' else chr8 CHR ''}'')"
  define e where "e = (if round then chr8 CHR ''('' else chr8 CHR ''{'')"
  have d: "d = chr8 CHR '')'' \<or> d = chr8 CHR ''}''" and e: "e = chr8 CHR ''('' \<or> e = chr8 CHR ''{''"
    by (simp_all add: d_def e_def)
  have db: "d \<noteq> backslash" using d by (auto simp: macro_chars)
  have "written q @ rest = chr8 CHR ''$'' # e # n @ d # rest"
    by (simp add: Var d_def e_def)
  moreover have "expand_loop lookup (chr8 CHR ''$'' # e # n @ d # rest) 0 prev vs =
      expand_loop lookup (e # n @ d # rest) 1 (chr8 CHR ''$'') vs"
    using assms(2) by (subst expand_loop.simps) (simp add: macro_chars)
  moreover have "\<dots> = expand_loop lookup (n @ d # rest) 2 e (n @ d # rest)"
    using e by (subst expand_loop.simps) (auto simp: macro_chars Let_def)
  moreover have "\<dots> = meaning lookup q @ expand_loop lookup rest 0 d (n @ d # rest)"
    using expand_name [OF _ d, of n lookup rest e "[]"] assms(1) by (simp add: Var)
  ultimately show ?thesis using db by metis
next
  case (Quoted s)
  have q: "quote \<noteq> backslash" by (simp add: macro_chars)
  have "expand_loop lookup (written q @ rest) 0 prev vs = expand_loop lookup (s @ quote # rest) 3 quote vs"
    using assms(2) q by (subst expand_loop.simps) (simp add: Quoted)
  also have "\<dots> = meaning lookup q @ expand_loop lookup rest 0 quote vs"
    using assms(1) q by (subst expand_quoted) (auto simp: Quoted)
  finally show ?thesis using q by blast
next
  case (Escaped c)
  then have "expand_loop lookup (written q @ rest) 0 prev vs = meaning lookup q @ expand_loop lookup rest 0 c vs"
    using assms(2) by (subst expand_loop.simps) simp
  then show ?thesis using assms(1) Escaped by auto
qed

lemma expand_pieces:
  assumes "list_all good_piece qs" and "prev \<noteq> backslash"
  shows "expand_loop lookup (concat (map written qs)) 0 prev vs = concat (map (meaning lookup) qs)"
  using assms
proof (induction qs arbitrary: prev vs)
  case Nil
  then show ?case by (subst expand_loop.simps) simp
next
  case (Cons q qs)
  then obtain p ws where "p \<noteq> backslash"
    "expand_loop lookup (written q @ concat (map written qs)) 0 prev vs =
      meaning lookup q @ expand_loop lookup (concat (map written qs)) 0 p ws"
    using expand_piece [of q prev lookup "concat (map written qs)" vs] by auto
  with Cons show ?case by simp
qed

lemma process_macros_pieces:
  "list_all good_piece qs \<Longrightarrow> process_macros lookup (concat (map written qs)) =
    take (CONFIG_SYS_CBSIZE - 1) (concat (map (meaning lookup) qs))"
  using expand_pieces [of qs 0 lookup "[]"]
  by (simp add: process_macros_expand macro_chars)

text \<open>
  C13: \<open>process_macros\<close> puts for every \<open>${name}\<close> and \<open>$(name)\<close> of the line the value of the
  variable (nothing when it is not set), leaves text in single quotes as it is, takes a character
  after a backslash literally, and cuts the result to the 255 bytes the buffer holds.
\<close>

theorem process_macros_meaning:
  assumes "list_all good_piece qs"
  shows "process_macros lookup (concat (map written qs)) =
    take (CONFIG_SYS_CBSIZE - 1) (concat (map (meaning lookup) qs))"
  using assms by (rule process_macros_pieces)

theorem process_macros_meaning_witness:
  "process_macros [cstr ''b'' \<mapsto> cstr ''go''] (cstr ''${b} $(c)x'') = cstr ''go x''"
  using process_macros_meaning
    [of "[Var False (cstr ''b''), Plain (cstr '' ''), Var True (cstr ''c''), Plain (cstr ''x'')]"
      "[cstr ''b'' \<mapsto> cstr ''go'']"]
  by (simp add: macro_chars CONFIG_SYS_CBSIZE_def)

section \<open>Looking a command up\<close>

text \<open>The commands whose name begins with the stem.\<close>

abbreviation matching :: "u8 list \<Rightarrow> 's cmd_tbl list \<Rightarrow> 's cmd_tbl list" where
  "matching stem table \<equiv> filter (\<lambda>t. take (length stem) (cmd_name t) = stem) table"

lemma find_cmd_loop_exact:
  "(\<exists>t \<in> set table. cmd_name t = stem) \<Longrightarrow>
     find_cmd_loop stem table temp k = find (\<lambda>t. cmd_name t = stem) table"
  by (induction table arbitrary: temp k) auto

lemma find_cmd_loop_prefix:
  "\<forall>t \<in> set table. cmd_name t \<noteq> stem \<Longrightarrow>
     find_cmd_loop stem table temp k =
       (if k + length (matching stem table) = 1
        then (if matching stem table = [] then temp else Some (last (matching stem table))) else None)"
  by (induction table arbitrary: temp k) auto

text \<open>
  C19: \<open>find_cmd_tbl\<close> takes the first command whose name is the word up to its first dot; when there
  is none, the only command whose name begins with it; an ambiguous or unknown word finds nothing.
\<close>

theorem find_cmd_tbl_spec:
  "find_cmd_tbl cmd table =
    (case find (\<lambda>t. cmd_name t = cmd_stem cmd) table of
       Some t \<Rightarrow> Some t
     | None \<Rightarrow> (case matching (cmd_stem cmd) table of [t] \<Rightarrow> Some t | _ \<Rightarrow> None))"
proof (cases "\<exists>t \<in> set table. cmd_name t = cmd_stem cmd")
  case True
  then have "find (\<lambda>t. cmd_name t = cmd_stem cmd) table \<noteq> None"
    by (auto simp: find_None_iff)
  then show ?thesis
    using find_cmd_loop_exact [OF True] by (auto simp: find_cmd_tbl_def)
next
  case False
  then have "find (\<lambda>t. cmd_name t = cmd_stem cmd) table = None"
    by (auto simp: find_None_iff)
  then show ?thesis
    using False find_cmd_loop_prefix [of table "cmd_stem cmd"]
    by (auto simp: find_cmd_tbl_def split: list.splits)
qed

section \<open>The help list\<close>

lemma bubble_pass_mset: "mset (fst (bubble_pass after i xs)) = mset xs"
  by (induction after i xs rule: bubble_pass.induct) (auto simp: case_prod_beta)

lemma bubble_pass_set: "set (fst (bubble_pass after i xs)) = set xs"
  using bubble_pass_mset [of after i xs] by (metis set_mset_mset)

lemma bubble_pass_length: "length (fst (bubble_pass after i xs)) = length xs"
  using bubble_pass_mset [of after i xs] by (metis size_mset)

lemma bubble_pass_append:
  "length xs = Suc i \<Longrightarrow> bubble_pass after i (xs @ zs) =
     (fst (bubble_pass after i xs) @ zs, snd (bubble_pass after i xs))"
proof (induction i arbitrary: xs)
  case 0
  then obtain a where "xs = [a]" by (cases xs) auto
  then show ?case by (cases zs) simp_all
next
  case (Suc i)
  then obtain a b ys where "xs = a # b # ys" "length ys = i"
    by (cases xs; cases "tl xs") auto
  then show ?case using Suc.IH [of "a # ys"] Suc.IH [of "b # ys"] by (auto simp: case_prod_beta)
qed

definition weak_order :: "('a \<Rightarrow> 'a \<Rightarrow> bool) \<Rightarrow> 'a set \<Rightarrow> bool" where
  "weak_order after A \<longleftrightarrow> (\<forall>a\<in>A. \<forall>b\<in>A. after a b \<longrightarrow> \<not> after b a) \<and>
     (\<forall>a\<in>A. \<forall>b\<in>A. \<forall>c\<in>A. \<not> after a b \<longrightarrow> \<not> after b c \<longrightarrow> \<not> after a c)"

lemma weak_order_trans:
  "weak_order after A \<Longrightarrow> a \<in> A \<Longrightarrow> b \<in> A \<Longrightarrow> c \<in> A \<Longrightarrow> \<not> after a b \<Longrightarrow> \<not> after b c \<Longrightarrow> \<not> after a c"
  unfolding weak_order_def by blast

lemma weak_order_refl: "weak_order after A \<Longrightarrow> a \<in> A \<Longrightarrow> \<not> after a a"
  unfolding weak_order_def by blast

lemma bubble_pass_max:
  assumes "weak_order after A" and "set xs \<subseteq> A" and "length xs = Suc i"
  shows "\<forall>x \<in> set xs. \<not> after x (last (fst (bubble_pass after i xs)))"
  using assms(2,3)
proof (induction i arbitrary: xs)
  case 0
  then obtain a where "xs = [a]" by (cases xs) auto
  then show ?case using 0 assms(1) weak_order_refl by simp
next
  case (Suc i)
  then obtain a b ys where xs: "xs = a # b # ys" and len: "length ys = i"
    by (cases xs; cases "tl xs") auto
  define c d where "c = (if after a b then b else a)" and "d = (if after a b then a else b)"
  define l where "l = last (fst (bubble_pass after i (d # ys)))"
  have ne: "fst (bubble_pass after i (d # ys)) \<noteq> []"
    using bubble_pass_length [of after i "d # ys"] by (metis length_0_conv list.distinct(1))
  have "last (fst (bubble_pass after (Suc i) xs)) = l"
    using ne by (auto simp: xs l_def d_def case_prod_beta)
  moreover have "\<forall>x \<in> set (d # ys). \<not> after x l"
    unfolding l_def using Suc.prems len by (intro Suc.IH) (auto simp: xs d_def)
  moreover have "\<not> after c l"
  proof (rule weak_order_trans [OF assms(1)])
    show "\<not> after c d" using assms(1) Suc.prems by (auto simp: xs c_def d_def weak_order_def)
    show "\<not> after d l" using calculation(2) by simp
    have "l \<in> set (d # ys)" using last_in_set [OF ne] bubble_pass_set [of after i "d # ys"]
      by (simp only: l_def)
    then show "l \<in> A" "c \<in> A" "d \<in> A" using Suc.prems by (auto simp: xs c_def d_def split: if_splits)
  qed
  moreover have "set xs = insert c (set (d # ys))" by (auto simp: xs c_def d_def)
  ultimately show ?case by simp
qed

lemma bubble_pass_unmoved:
  "length xs = Suc i \<Longrightarrow> \<not> snd (bubble_pass after i xs) \<Longrightarrow>
     fst (bubble_pass after i xs) = xs \<and> successively (\<lambda>a b. \<not> after a b) xs"
proof (induction i arbitrary: xs)
  case 0
  then obtain a where "xs = [a]" by (cases xs) auto
  then show ?case by simp
next
  case (Suc i)
  then obtain a b ys where xs: "xs = a # b # ys" and len: "length ys = i"
    by (cases xs; cases "tl xs") auto
  then show ?case
    using Suc.IH [of "b # ys"] Suc.prems by (auto simp: case_prod_beta split: if_splits)
qed

lemma successively_sorted:
  assumes "weak_order after A" and "set xs \<subseteq> A" and "successively (\<lambda>a b. \<not> after a b) xs"
  shows "sorted_wrt (\<lambda>a b. \<not> after a b) xs"
  using assms(2,3)
proof (induction xs)
  case (Cons a xs)
  then have IH: "sorted_wrt (\<lambda>a b. \<not> after a b) xs" by (auto simp: successively_Cons)
  show ?case
  proof (cases xs)
    case (Cons b ys)
    with Cons.prems have ab: "\<not> after a b" by simp
    moreover have "\<forall>c \<in> set ys. \<not> after b c" using IH by (simp add: Cons)
    ultimately have "\<forall>c \<in> set xs. \<not> after a c"
      using weak_order_trans [OF assms(1), of a b] Cons.prems(1) by (auto simp: Cons)
    then show ?thesis using IH by simp
  qed simp
qed simp

lemma bubble_sort_mset: "mset (bubble_sort after i xs) = mset xs"
proof (induction i arbitrary: xs)
  case (Suc i)
  then show ?case using bubble_pass_mset [of after "Suc i" xs] by (simp add: case_prod_beta)
qed simp

lemma bubble_sort_sorted:
  assumes "weak_order after A" and "set (xs @ zs) \<subseteq> A" and "length xs = Suc i"
    and "sorted_wrt (\<lambda>a b. \<not> after a b) zs" and "\<forall>x \<in> set xs. \<forall>z \<in> set zs. \<not> after x z"
  shows "sorted_wrt (\<lambda>a b. \<not> after a b) (bubble_sort after i (xs @ zs))"
  using assms(2-)
proof (induction i arbitrary: xs zs)
  case 0
  then obtain a where "xs = [a]" by (cases xs) auto
  then show ?case using 0 by simp
next
  case (Suc i)
  let ?ys = "fst (bubble_pass after (Suc i) xs)"
  have len: "length ?ys = Suc (Suc i)" using bubble_pass_length [of after "Suc i" xs] Suc.prems by simp
  have pass: "bubble_pass after (Suc i) (xs @ zs) = (?ys @ zs, snd (bubble_pass after (Suc i) xs))"
    using Suc.prems(2) by (rule bubble_pass_append)
  have setys: "set ?ys = set xs" by (rule bubble_pass_set)
  show ?case
  proof (cases "snd (bubble_pass after (Suc i) xs)")
    case True
    have ys: "?ys = butlast ?ys @ [last ?ys]"
      using len by (metis append_butlast_last_id list.size(3) nat.distinct(1))
    have max: "\<forall>x \<in> set xs. \<not> after x (last ?ys)"
      using Suc.prems by (intro bubble_pass_max [OF assms(1)]) auto
    have sub: "set (butlast ?ys) \<subseteq> set xs" and lastin: "last ?ys \<in> set xs"
      using setys ys by (metis in_set_butlastD subsetI, metis in_set_conv_decomp)
    have "sorted_wrt (\<lambda>a b. \<not> after a b) (bubble_sort after i (butlast ?ys @ (last ?ys # zs)))"
    proof (rule Suc.IH)
      show "set (butlast ?ys @ last ?ys # zs) \<subseteq> A" using sub lastin Suc.prems(1) by auto
      show "length (butlast ?ys) = Suc i" using len by simp
      show "sorted_wrt (\<lambda>a b. \<not> after a b) (last ?ys # zs)"
        using Suc.prems(3,4) lastin by simp
      show "\<forall>x\<in>set (butlast ?ys). \<forall>z\<in>set (last ?ys # zs). \<not> after x z"
        using sub max Suc.prems(4) by auto
    qed
    then show ?thesis using True ys by (simp add: pass) (metis append.assoc append_Cons append_Nil)
  next
    case False
    then have "?ys = xs" and "successively (\<lambda>a b. \<not> after a b) xs"
      using bubble_pass_unmoved [OF Suc.prems(2)] by auto
    then have "sorted_wrt (\<lambda>a b. \<not> after a b) xs"
      using Suc.prems(1) by (intro successively_sorted [OF assms(1)]) auto
    then show ?thesis using False Suc.prems(3,4) \<open>?ys = xs\<close> by (simp add: pass sorted_wrt_append)
  qed
qed

definition ascii_name :: "u8 list \<Rightarrow> bool" where
  "ascii_name n \<longleftrightarrow> list_all (\<lambda>c. c \<noteq> 0 \<and> c < 0x80) n"

lemma cmd_after_less:
  assumes "ascii_name (cmd_name a)" and "ascii_name (cmd_name b)"
  shows "cmd_after a b \<longleftrightarrow> ord_class.lexordp (cmd_name b) (cmd_name a)"
proof -
  have nul: "0 \<notin> set (cmd_name a)" "0 \<notin> set (cmd_name b)"
    and asc: "\<forall>c \<in> set (cmd_name a) \<union> set (cmd_name b). c < 0x80"
    using assms by (auto simp: ascii_name_def list_all_iff)
  have "sint (byte_diff (cmd_name a) (cmd_name b)) = 0 \<longleftrightarrow> cmd_name a = cmd_name b"
    using byte_diff_0 [OF nul] by (simp add: signed_eq_0_iff)
  moreover have "sint (byte_diff (cmd_name a) (cmd_name b)) < 0 \<longleftrightarrow>
      ord_class.lexordp (cmd_name a) (cmd_name b)"
    using nul asc by (rule byte_diff_sign)
  ultimately show ?thesis
    unfolding cmd_after_def
    using lexordp_linear [of "cmd_name a" "cmd_name b"] lexordp_antisym lexordp_irreflexive'
    by (metis antisym_conv3 less_asym)
qed

text \<open>
  The help list is the command table in alphabetical order: nothing is lost or repeated, and no
  command comes before one with a smaller name.
\<close>

theorem help_list_sorted:
  assumes "list_all (\<lambda>t. ascii_name (cmd_name t)) table"
  shows "mset (help_list table) = mset table \<and>
    sorted_wrt (\<lambda>a b. \<not> ord_class.lexordp (cmd_name b) (cmd_name a)) (help_list table)"
proof -
  let ?A = "set table"
  have after: "cmd_after a b \<longleftrightarrow> ord_class.lexordp (cmd_name b) (cmd_name a)" if "a \<in> ?A" "b \<in> ?A" for a b
    using assms that by (intro cmd_after_less) (auto simp: list_all_iff)
  have "weak_order cmd_after ?A"
    unfolding weak_order_def
    by (auto simp: after) (metis lexordp_antisym, metis lexordp_linear lexordp_trans)
  then have "sorted_wrt (\<lambda>a b. \<not> cmd_after a b) (help_list table)"
    using bubble_sort_sorted [of cmd_after ?A table "[]" "length table - 1"]
    by (cases table) (auto simp: help_list_def)
  moreover have m: "mset (help_list table) = mset table"
    by (simp add: help_list_def bubble_sort_mset)
  then have "set (help_list table) = ?A" by (metis set_mset_mset)
  ultimately show ?thesis
    using m sorted_wrt_mono_rel [of "help_list table" "\<lambda>a b. \<not> cmd_after a b"
        "\<lambda>a b. \<not> ord_class.lexordp (cmd_name b) (cmd_name a)"]
    by (auto simp: after)
qed

definition sample_cmd :: "u8 list \<Rightarrow> nat \<Rightarrow> u8 list cmd_tbl" where
  "sample_cmd n k = \<lparr>cmd_name = n, maxargs = k, repeatable = True,
     cmd_fun = (\<lambda>flag argv st. (st @ concat (tl argv), 0)), cmd_is_bootd = False, usage = None\<rparr>"

theorem help_list_sorted_witness:
  "mset (help_list [sample_cmd (cstr ''run'') 16, sample_cmd (cstr ''echo'') 16]) =
     {#sample_cmd (cstr ''run'') 16, sample_cmd (cstr ''echo'') 16#}"
  using help_list_sorted [of "[sample_cmd (cstr ''run'') 16, sample_cmd (cstr ''echo'') 16]"]
  by (simp add: sample_cmd_def ascii_name_def)

section \<open>A line of commands\<close>

text \<open>A piece in which no semicolon separates.\<close>

fun within_command :: "piece \<Rightarrow> bool" where
  "within_command (Plain s) \<longleftrightarrow> chr8 CHR '';'' \<notin> set s"
| "within_command (Var round n) \<longleftrightarrow> chr8 CHR '';'' \<notin> set n \<and> quote \<notin> set n"
| "within_command q \<longleftrightarrow> True"

definition good_command :: "piece list \<Rightarrow> bool" where
  "good_command qs \<longleftrightarrow> list_all (\<lambda>q. good_piece q \<and> within_command q) qs \<and> concat (map written qs) \<noteq> []"

lemma find_separator_plain:
  assumes "list_all (\<lambda>c. c \<noteq> backslash \<and> c \<noteq> quote \<and> c \<noteq> chr8 CHR '';'') s" and "prev \<noteq> backslash"
  shows "\<exists>p. p \<noteq> backslash \<and> (\<forall>rest. find_separator prev pos0 False (s @ rest) =
    (case find_separator p (pos0 \<and> s = []) False rest of (t, r) \<Rightarrow> (s @ t, r)))"
  using assms
proof (induction s arbitrary: prev pos0)
  case (Cons c s)
  then obtain p where "p \<noteq> backslash" "\<And>rest. find_separator c False False (s @ rest) =
    (case find_separator p False False rest of (t, r) \<Rightarrow> (s @ t, r))"
    using Cons.IH [of c False] by auto
  with Cons.prems show ?case
    by (intro exI [of _ p]) (auto simp: Let_def split: prod.splits)
qed auto

lemma find_separator_quoted:
  assumes "quote \<notin> set s" and "(if s = [] then prev else last s) \<noteq> backslash"
  shows "find_separator prev pos0 True (s @ quote # rest) =
    (case find_separator quote False False rest of (t, r) \<Rightarrow> (s @ quote # t, r))"
  using assms
proof (induction s arbitrary: prev pos0)
  case Nil
  then show ?case by (auto simp: macro_chars split: prod.splits)
next
  case (Cons c s)
  then show ?case using Cons.IH [of c False] by (auto split: prod.splits if_splits)
qed

lemma find_separator_piece:
  assumes "good_piece q" and "within_command q" and "prev \<noteq> backslash"
  shows "\<exists>p. p \<noteq> backslash \<and> find_separator prev pos0 False (written q @ rest) =
    (case find_separator p (pos0 \<and> written q = []) False rest of (t, r) \<Rightarrow> (written q @ t, r))"
proof (cases q)
  case (Plain s)
  then show ?thesis
    using find_separator_plain [of s prev pos0] assms by (auto simp: list_all_iff)
next
  case (Var round n)
  have "list_all (\<lambda>c. c \<noteq> backslash \<and> c \<noteq> quote \<and> c \<noteq> chr8 CHR '';'') (written q)"
    using assms by (auto simp: Var list_all_iff macro_chars)
  then show ?thesis using find_separator_plain [of "written q" prev pos0] assms(3) by auto
next
  case (Quoted s)
  have q: "quote \<noteq> backslash" by (simp add: macro_chars)
  have "find_separator quote False True (s @ quote # rest) =
      (case find_separator quote False False rest of (t, r) \<Rightarrow> (s @ quote # t, r))"
    using assms(1) q by (intro find_separator_quoted) (auto simp: Quoted)
  then have "find_separator prev pos0 False (written q @ rest) =
      (case find_separator quote (pos0 \<and> written q = []) False rest of (t, r) \<Rightarrow> (written q @ t, r))"
    using assms(3) by (auto simp: Quoted split: prod.splits)
  then show ?thesis using q by blast
next
  case (Escaped c)
  then have "find_separator prev pos0 False (written q @ rest) =
      (case find_separator c (pos0 \<and> written q = []) False rest of (t, r) \<Rightarrow> (written q @ t, r))"
    by (auto simp: macro_chars split: prod.splits)
  then show ?thesis using assms(1) Escaped by auto
qed

lemma find_separator_pieces:
  assumes "list_all (\<lambda>q. good_piece q \<and> within_command q) qs" and "prev \<noteq> backslash"
  shows "\<exists>p. p \<noteq> backslash \<and> find_separator prev pos0 False (concat (map written qs) @ rest) =
    (case find_separator p (pos0 \<and> concat (map written qs) = []) False rest of
       (t, r) \<Rightarrow> (concat (map written qs) @ t, r))"
  using assms
proof (induction qs arbitrary: prev pos0)
  case Nil
  then show ?case by auto
next
  case (Cons q qs)
  let ?w = "concat (map written qs)"
  obtain p where p: "p \<noteq> backslash" "find_separator prev pos0 False (written q @ ?w @ rest) =
      (case find_separator p (pos0 \<and> written q = []) False (?w @ rest) of (t, r) \<Rightarrow> (written q @ t, r))"
    using find_separator_piece [of q prev pos0 "?w @ rest"] Cons.prems by auto
  obtain p' where p': "p' \<noteq> backslash" "find_separator p (pos0 \<and> written q = []) False (?w @ rest) =
      (case find_separator p' (pos0 \<and> written q = [] \<and> ?w = []) False rest of (t, r) \<Rightarrow> (?w @ t, r))"
    using Cons.IH [OF _ p(1), of "pos0 \<and> written q = []"] Cons.prems by (auto simp: conj_assoc)
  have "find_separator prev pos0 False (concat (map written (q # qs)) @ rest) =
      (case find_separator p' (pos0 \<and> concat (map written (q # qs)) = []) False rest of
         (t, r) \<Rightarrow> (concat (map written (q # qs)) @ t, r))"
    using p(2) p'(2) by (simp add: conj_assoc split: prod.splits)
  then show ?case using p'(1) by blast
qed

lemma find_separator_command:
  assumes "good_command qs" and "prev \<noteq> backslash"
  shows "find_separator prev True False (concat (map written qs)) = (concat (map written qs), None)"
    and "find_separator prev True False (concat (map written qs) @ chr8 CHR '';'' # rest) =
      (concat (map written qs), Some rest)"
  using find_separator_pieces [of qs prev True "[]"]
    find_separator_pieces [of qs prev True "chr8 CHR '';'' # rest"] assms
  by (auto simp: good_command_def macro_chars)

text \<open>Commands run one after another, each as a line of its own would be taken.\<close>

fun run_each :: "'s interp \<Rightarrow> u8 list list \<Rightarrow> 's \<Rightarrow> nat \<Rightarrow> int \<Rightarrow> bool \<Rightarrow> 's \<times> int" where
  "run_each I [] st flag rc rep = (st, if rc \<noteq> 0 then rc else if rep then 1 else 0)"
| "run_each I (c # cs) st flag rc rep =
     (case run_token I c st flag rc rep of
        Stop st \<Rightarrow> (st, - 1)
      | Go st flag rc rep \<Rightarrow> run_each I cs st flag rc rep)"

fun semicolons :: "u8 list list \<Rightarrow> u8 list" where
  "semicolons [] = []"
| "semicolons [c] = c"
| "semicolons (c # cs) = c @ chr8 CHR '';'' # semicolons cs"

lemma run_tokens_each:
  assumes "list_all good_command cmds" and "cmds \<noteq> []" and "before \<noteq> backslash"
  shows "run_tokens I before (semicolons (map (\<lambda>qs. concat (map written qs)) cmds)) st flag rc rep =
    run_each I (map (\<lambda>qs. concat (map written qs)) cmds) st flag rc rep"
  using assms
proof (induction cmds arbitrary: before st flag rc rep)
  case (Cons qs cmds)
  define w where "w = concat (map written qs)"
  have ne: "w \<noteq> []" using Cons.prems by (simp add: good_command_def w_def)
  have one: "find_separator before True False w = (w, None)"
    and two: "find_separator before True False (w @ chr8 CHR '';'' # rest) = (w, Some rest)" for rest
    using find_separator_command [of qs before] Cons.prems by (simp_all add: w_def)
  show ?case
  proof (cases cmds)
    case Nil
    then show ?thesis
      unfolding Nil list.map semicolons.simps w_def [symmetric]
      by (subst run_tokens.simps) (simp add: ne one split: token_result.splits)
  next
    case more: (Cons qs' cmds')
    let ?ws = "map (\<lambda>qs. concat (map written qs)) cmds"
    have semi: "semicolons (w # ?ws) = w @ chr8 CHR '';'' # semicolons ?ws"
      by (simp add: more)
    have IH: "run_tokens I 0 (semicolons ?ws) st flag rc rep = run_each I ?ws st flag rc rep"
      for st flag rc rep
      using Cons.prems by (intro Cons.IH) (simp_all add: more macro_chars)
    have ne': "w @ chr8 CHR '';'' # semicolons ?ws \<noteq> []" by simp
    show ?thesis
      unfolding list.map(2) w_def [symmetric] semi
      by (subst run_tokens.simps)
        (simp only: if_not_P [OF ne'] two prod.case option.case IH run_each.simps)
  qed
qed simp

text \<open>
  C12: a line of commands between semicolons runs them one after another, in the order written, each
  as if it were alone; semicolons inside quotes, macros or after a backslash do not separate, the
  status is the last failure's and Control-C ends the line. The byte before the working copy must
  not be a backslash, since the code reads it.
\<close>

theorem run_command_each:
  assumes "list_all good_command cmds" and "cmds \<noteq> []" and "before \<noteq> backslash"
    and "length (semicolons (map (\<lambda>qs. concat (map written qs)) cmds)) < CONFIG_SYS_CBSIZE"
  shows "run_command I before (Some (semicolons (map (\<lambda>qs. concat (map written qs)) cmds))) st flag =
    run_each I (map (\<lambda>qs. concat (map written qs)) cmds) (clear_ctrlc I st) flag 0 True"
proof -
  have "semicolons (map (\<lambda>qs. concat (map written qs)) cmds) \<noteq> []"
    using assms(1,2) by (cases cmds; cases "tl cmds") (auto simp: good_command_def)
  then show ?thesis
    using assms(4) run_tokens_each [OF assms(1-3)] by (simp add: run_command_def)
qed

definition sample_interp :: "u8 list interp" where
  "sample_interp = \<lparr>commands = [sample_cmd (cstr ''say'') 16, sample_cmd (cstr ''run'') 16],
     env_of = (\<lambda>st. [cstr ''x'' \<mapsto> cstr ''ab'']), had_ctrlc = (\<lambda>st. False), clear_ctrlc = id\<rparr>"

lemma sample_tokens:
  "run_token sample_interp (cstr ''say '' @ quote # cstr '';'' @ [quote]) st 0 0 True = Go (st @ cstr '';'') 0 0 True"
  "run_token sample_interp (cstr ''say ${x}'') st 0 0 True = Go (st @ cstr ''ab'') 0 0 True"
proof -
  have m: "process_macros [cstr ''x'' \<mapsto> cstr ''ab''] (cstr ''say '' @ quote # cstr '';'' @ [quote]) = cstr ''say ;''"
    using process_macros_pieces [of "[Plain (cstr ''say ''), Quoted (cstr '';'')]" "[cstr ''x'' \<mapsto> cstr ''ab'']"]
    by (simp add: macro_chars CONFIG_SYS_CBSIZE_def)
  have m': "process_macros [cstr ''x'' \<mapsto> cstr ''ab''] (cstr ''say ${x}'') = cstr ''say ab''"
    using process_macros_pieces [of "[Plain (cstr ''say ''), Var False (cstr ''x'')]" "[cstr ''x'' \<mapsto> cstr ''ab'']"]
    by (simp add: macro_chars CONFIG_SYS_CBSIZE_def)
  have "CONFIG_SYS_MAXARGS = Suc (Suc (Suc 13))" by (simp add: CONFIG_SYS_MAXARGS_def)
  then obtain k where args: "CONFIG_SYS_MAXARGS = Suc (Suc (Suc k))" by blast
  have p: "parse_line (cstr ''say ;'') = ([cstr ''say'', cstr '';''], True)"
    and p': "parse_line (cstr ''say ab'') = ([cstr ''say'', cstr ''ab''], True)"
    by (simp_all add: parse_line_def args blank_def)
  show "run_token sample_interp (cstr ''say '' @ quote # cstr '';'' @ [quote]) st 0 0 True = Go (st @ cstr '';'') 0 0 True"
    "run_token sample_interp (cstr ''say ${x}'') st 0 0 True = Go (st @ cstr ''ab'') 0 0 True"
    using m m' p p'
    by (simp_all add: run_token_def sample_interp_def sample_cmd_def find_cmd_tbl_def cmd_stem_def)
qed

theorem run_command_each_witness:
  "run_command sample_interp 0
     (Some (cstr ''say '' @ quote # cstr '';'' @ quote # cstr '';say ${x}'')) [] 0 = (cstr '';ab'', 1)"
  using run_command_each
    [of "[[Plain (cstr ''say ''), Quoted (cstr '';'')], [Plain (cstr ''say ''), Var False (cstr ''x'')]]"
      0 sample_interp "[]" 0] sample_tokens
  by (simp add: good_command_def macro_chars CONFIG_SYS_CBSIZE_def sample_interp_def)

section \<open>Completion\<close>

lemma le_agree_iff: "k \<le> agree len s t \<longleftrightarrow> k \<le> len \<and> k \<le> length s \<and> prefix (take k s) t"
proof (induction len s t arbitrary: k rule: agree.induct)
  case (1 len s anchor t ts)
  then show ?case by (cases k) auto
qed (auto simp: take_Cons' split: if_splits)

lemma le_agree_all_iff:
  "len \<le> length s \<Longrightarrow> k \<le> foldl (\<lambda>len t. agree len s t) len ts \<longleftrightarrow>
     k \<le> len \<and> (\<forall>t \<in> set ts. prefix (take k s) t)"
proof (induction ts arbitrary: len)
  case (Cons t ts)
  have "agree len s t \<le> length s" using le_agree_iff [of "agree len s t" len s t] by simp
  from Cons.IH [OF this] show ?case using Cons.prems by (auto simp: le_agree_iff)
qed simp

lemma le_find_common_prefix:
  "k \<le> find_common_prefix (s # ts) \<longleftrightarrow> k \<le> length s \<and> (\<forall>t \<in> set (s # ts). prefix (take k s) t)"
  by (auto simp: find_common_prefix_def le_agree_all_iff take_is_prefix)

text \<open>
  The prefix that completion extends a line to is the longest one that all candidates share.
\<close>

theorem find_common_prefix_longest:
  assumes "cmdv \<noteq> []"
  shows "take (find_common_prefix cmdv) (hd cmdv) = Longest_common_prefix (set cmdv)"
proof -
  obtain s ts where cmdv: "cmdv = s # ts" using assms by (cases cmdv) auto
  let ?k = "find_common_prefix cmdv" and ?L = "Longest_common_prefix (set cmdv)"
  have k: "?k \<le> length s" "\<forall>t \<in> set cmdv. prefix (take ?k s) t"
    using le_find_common_prefix [of ?k s ts] by (simp_all add: cmdv)
  have "\<forall>t \<in> set cmdv. prefix ?L t" using Longest_common_prefix_prefix by blast
  then have "prefix ?L s" by (simp add: cmdv)
  then have L: "length ?L \<le> length s" "take (length ?L) s = ?L"
    by (rule prefix_length_le, metis \<open>prefix ?L s\<close> append_eq_conv_conj prefixE)
  with \<open>\<forall>t \<in> set cmdv. prefix ?L t\<close> have "length ?L \<le> ?k"
    unfolding cmdv le_find_common_prefix by simp
  moreover have "length (take ?k s) \<le> length ?L"
    using k(2) by (intro Longest_common_prefix_longest) (auto simp: cmdv)
  ultimately have "?k = length ?L" using k(1) by simp
  then show ?thesis using L(2) by (simp add: cmdv)
qed

theorem find_common_prefix_longest_witness:
  "Longest_common_prefix {cstr ''nand'', cstr ''nboot''} = cstr ''n''"
  using find_common_prefix_longest [of "[cstr ''nand'', cstr ''nboot'']"]
  by (simp add: find_common_prefix_def)

end
