(* ===== verification/LineEdit.thy ===== *)
theory LineEdit
  imports CommandLine
begin

text \<open>
  Reading a command line (\<open>common/main.c\<close>): the history ring and the line editor of a build with
  \<open>CONFIG_CMDLINE_EDITING\<close>, one key at a time, with the bytes it sends to the terminal; and the plain
  reader used before relocation. A write outside the buffer ends the run (\<open>Outside\<close>).
\<close>

section \<open>The history ring\<close>

definition HIST_MAX :: nat where
  "HIST_MAX = 20"

definition MAX_CMDBUF_SIZE :: nat where
  "MAX_CMDBUF_SIZE = 256"

record history =
  hist_max :: int
  hist_add_idx :: int
  hist_cur :: int
  hist_num :: u32
  hist_lines :: "u8 list list"

definition hist_init :: history where
  "hist_init = \<lparr>hist_max = 0, hist_add_idx = 0, hist_cur = - 1, hist_num = 0,
     hist_lines = replicate HIST_MAX []\<rparr>"

definition hist_line :: "history \<Rightarrow> int \<Rightarrow> u8 list" where
  "hist_line h i = hist_lines h ! nat i"

definition cread_add_to_hist :: "u8 list \<Rightarrow> history \<Rightarrow> history" where
  "cread_add_to_hist line h =
     (let h = h\<lparr>hist_lines := (hist_lines h)[nat (hist_add_idx h) := line]\<rparr>;
          h = (if int HIST_MAX \<le> hist_add_idx h + 1 then h\<lparr>hist_add_idx := 0\<rparr>
               else h\<lparr>hist_add_idx := hist_add_idx h + 1\<rparr>);
          h = (if hist_max h < hist_add_idx h then h\<lparr>hist_max := hist_add_idx h\<rparr> else h)
      in h\<lparr>hist_num := hist_num h + 1\<rparr>)"

text \<open>\<open>None\<close> is the null pointer: no older, or no newer, line.\<close>

definition hist_prev :: "history \<Rightarrow> u8 list option \<times> history" where
  "hist_prev h =
     (if hist_cur h < 0 then (None, h)
      else
        let cur = (if hist_cur h - 1 < 0 then hist_max h else hist_cur h - 1)
        in if cur = hist_add_idx h then (None, h)
           else (Some (hist_line h cur), h\<lparr>hist_cur := cur\<rparr>))"

definition hist_next :: "history \<Rightarrow> u8 list option \<times> history" where
  "hist_next h =
     (if hist_cur h < 0 then (None, h)
      else if hist_cur h = hist_add_idx h then (None, h)
      else
        let cur = (if hist_max h < hist_cur h + 1 then 0 else hist_cur h + 1)
        in (if cur = hist_add_idx h then (Some [], h\<lparr>hist_cur := cur\<rparr>)
            else (Some (hist_line h cur), h\<lparr>hist_cur := cur\<rparr>)))"

section \<open>The editor\<close>

definition CTL_CH :: "char \<Rightarrow> u8" where
  "CTL_CH c = of_char c - chr8 CHR ''a'' + 1"

definition CTL_BACKSPACE :: u8 where
  "CTL_BACKSPACE = 8"

definition BEEP :: u8 where
  "BEEP = 7"

definition ESC :: u8 where
  "ESC = 0x1b"

text \<open>
  The variables of \<open>cread_line\<close>; \<open>tty\<close> collects what has been sent to the terminal.
\<close>

record editor =
  buf :: "u8 list"
  num :: nat
  eol_num :: nat
  insert_mode :: bool
  esc_len :: nat
  esc_save :: "u8 list"
  hist :: history
  tty :: "u8 list"

definition putch :: "u8 list \<Rightarrow> editor \<Rightarrow> editor" where
  "putch s e = e\<lparr>tty := tty e @ s\<rparr>"

text \<open>\<open>putnstr (buf + i, n)\<close>: at most \<open>n\<close> bytes, up to a NUL.\<close>

definition putnstr :: "nat \<Rightarrow> nat \<Rightarrow> editor \<Rightarrow> editor" where
  "putnstr i n e = putch (takeWhile (\<lambda>c. c \<noteq> 0) (take n (drop i (buf e)))) e"

definition buf_put :: "nat \<Rightarrow> u8 \<Rightarrow> editor \<Rightarrow> editor option" where
  "buf_put i c e = (if i < length (buf e) then Some (e\<lparr>buf := (buf e)[i := c]\<rparr>) else None)"

definition buf_move :: "nat \<Rightarrow> nat \<Rightarrow> nat \<Rightarrow> editor \<Rightarrow> editor option" where
  "buf_move d s n e =
     (if d + n \<le> length (buf e) \<and> s + n \<le> length (buf e)
      then Some (e\<lparr>buf := take d (buf e) @ take n (drop s (buf e)) @ drop (d + n) (buf e)\<rparr>)
      else None)"

definition BEGINNING_OF_LINE :: "editor \<Rightarrow> editor" where
  "BEGINNING_OF_LINE e = putch (replicate (num e) CTL_BACKSPACE) (e\<lparr>num := 0\<rparr>)"

definition ERASE_TO_EOL :: "editor \<Rightarrow> editor" where
  "ERASE_TO_EOL e =
     (if num e < eol_num e
      then (let n = eol_num e - num e
            in putch (replicate n (chr8 CHR '' '') @ replicate n CTL_BACKSPACE)
                 (e\<lparr>eol_num := num e\<rparr>))
      else e)"

definition REFRESH_TO_EOL :: "editor \<Rightarrow> editor" where
  "REFRESH_TO_EOL e =
     (if num e < eol_num e
      then (putnstr (num e) (eol_num e - num e) e)\<lparr>num := eol_num e\<rparr>
      else e)"

definition cread_add_char :: "u8 \<Rightarrow> bool \<Rightarrow> nat \<Rightarrow> editor \<Rightarrow> editor option" where
  "cread_add_char ichar ins len e =
     (if (ins \<or> num e = eol_num e) \<and> len - 1 < eol_num e then Some (putch [BEEP] e)
      else
        let e = (if ins \<or> num e = eol_num e then e\<lparr>eol_num := eol_num e + 1\<rparr> else e) in
        if ins then
          (let wlen = eol_num e - num e in
           do {
             e \<leftarrow> (if 1 < wlen then buf_move (num e + 1) (num e) (wlen - 1) e else Some e);
             e \<leftarrow> buf_put (num e) ichar e;
             let e = putnstr (num e) wlen e;
             Some (putch (replicate (wlen - 1) CTL_BACKSPACE) (e\<lparr>num := num e + 1\<rparr>))
           })
        else
          do {
            e \<leftarrow> buf_put (num e) ichar e;
            let e = putnstr (num e) 1 e;
            Some (e\<lparr>num := num e + 1\<rparr>)
          })"

fun cread_add_str :: "u8 list \<Rightarrow> bool \<Rightarrow> nat \<Rightarrow> editor \<Rightarrow> editor option" where
  "cread_add_str [] ins len e = Some e"
| "cread_add_str (c # str) ins len e =
     do { e \<leftarrow> cread_add_char c ins len e; cread_add_str str ins len e }"

text \<open>The escape sequences of the arrow and home keys, as the control keys they stand for.\<close>

definition arrow_key :: "u8 \<Rightarrow> u8 option" where
  "arrow_key ichar =
     (if ichar = chr8 CHR ''D'' then Some (CTL_CH CHR ''b'')
      else if ichar = chr8 CHR ''C'' then Some (CTL_CH CHR ''f'')
      else if ichar = chr8 CHR ''H'' then Some (CTL_CH CHR ''a'')
      else if ichar = chr8 CHR ''A'' then Some (CTL_CH CHR ''p'')
      else if ichar = chr8 CHR ''B'' then Some (CTL_CH CHR ''n'')
      else None)"

datatype cread_result = More editor | Entered editor | Broken editor | Outside

definition go_on :: "editor option \<Rightarrow> cread_result" where
  "go_on r = (case r of None \<Rightarrow> Outside | Some e \<Rightarrow> More e)"

text \<open>Deleting the character at \<open>num\<close>.\<close>

definition delete_here :: "editor \<Rightarrow> editor option" where
  "delete_here e =
     (if num e < eol_num e then
        let wlen = eol_num e - num e - 1 in
        do {
          e \<leftarrow> (if wlen \<noteq> 0 then map_option (putnstr (num e) wlen) (buf_move (num e) (num e + 1) wlen e)
               else Some e);
          Some (putch ([chr8 CHR '' ''] @ replicate (wlen + 1) CTL_BACKSPACE) (e\<lparr>eol_num := eol_num e - 1\<rparr>))
        }
      else Some e)"

text \<open>Deleting the character before \<open>num\<close>.\<close>

definition rub_out :: "editor \<Rightarrow> editor option" where
  "rub_out e =
     (if 0 < num e then
        let wlen = eol_num e - num e; e = e\<lparr>num := num e - 1\<rparr> in
        do {
          e \<leftarrow> buf_move (num e) (num e + 1) wlen e;
          let e = putnstr (num e) wlen (putch [CTL_BACKSPACE] e);
          Some (putch ([chr8 CHR '' ''] @ replicate (wlen + 1) CTL_BACKSPACE) (e\<lparr>eol_num := eol_num e - 1\<rparr>))
        }
      else Some e)"

text \<open>\<open>strcpy (buf, hline)\<close>.\<close>

definition buf_strcpy :: "u8 list \<Rightarrow> editor \<Rightarrow> editor option" where
  "buf_strcpy s e =
     (if length s < length (buf e) then Some (e\<lparr>buf := s @ 0 # drop (length s + 1) (buf e)\<rparr>) else None)"

definition recall :: "(history \<Rightarrow> u8 list option \<times> history) \<Rightarrow> editor \<Rightarrow> editor option" where
  "recall move e =
     (let (hline, h) = move (hist e); e = e\<lparr>esc_len := 0, hist := h\<rparr> in
      case hline of
        None \<Rightarrow> Some (putch [BEEP] e)
      | Some s \<Rightarrow>
          do {
            e \<leftarrow> buf_strcpy s (ERASE_TO_EOL (BEGINNING_OF_LINE e));
            Some (REFRESH_TO_EOL (e\<lparr>eol_num := length s\<rparr>))
          })"

text \<open>
  The keys of the second switch; \<open>complete\<close> is the completion of the line, which sees the line up to the
  first NUL typed into it and extends it there.
\<close>

definition cread_control ::
  "(u8 list \<Rightarrow> nat \<Rightarrow> completion) \<Rightarrow> (u8 list list \<Rightarrow> u8 list) \<Rightarrow> nat \<Rightarrow> u8 \<Rightarrow> editor \<Rightarrow> cread_result" where
  "cread_control complete listing len ichar e =
     (if ichar = ESC then
        (if esc_len e = 0 then More (e\<lparr>esc_save := [ESC], esc_len := 1\<rparr>) else More (e\<lparr>esc_len := 0\<rparr>))
      else if ichar = CTL_CH CHR ''a'' then More (BEGINNING_OF_LINE e)
      else if ichar = CTL_CH CHR ''c'' then
        (case buf_put 0 0 e of None \<Rightarrow> Outside | Some e \<Rightarrow> Broken e)
      else if ichar = CTL_CH CHR ''f'' then
        (if num e < eol_num e then More (putch [buf e ! num e] (e\<lparr>num := num e + 1\<rparr>)) else More e)
      else if ichar = CTL_CH CHR ''b'' then
        (if 0 < num e then More (putch [CTL_BACKSPACE] (e\<lparr>num := num e - 1\<rparr>)) else More e)
      else if ichar = CTL_CH CHR ''d'' then go_on (delete_here e)
      else if ichar = CTL_CH CHR ''k'' then More (ERASE_TO_EOL e)
      else if ichar = CTL_CH CHR ''e'' then More (REFRESH_TO_EOL e)
      else if ichar = CTL_CH CHR ''o'' then More (e\<lparr>insert_mode := \<not> insert_mode e\<rparr>)
      else if ichar = CTL_CH CHR ''x'' \<or> ichar = CTL_CH CHR ''u'' then
        More (ERASE_TO_EOL (BEGINNING_OF_LINE e))
      else if ichar = 255 \<or> ichar = 127 \<or> ichar = 8 then go_on (rub_out e)
      else if ichar = CTL_CH CHR ''p'' then go_on (recall hist_prev e)
      else if ichar = CTL_CH CHR ''n'' then go_on (recall hist_next e)
      else if ichar = chr8 CHR 0x09 then
        (if num e < eol_num e then More (putch [BEEP] e)
         else case buf_put (num e) 0 e of
           None \<Rightarrow> Outside
         | Some e \<Rightarrow>
             (let line = takeWhile (\<lambda>c. c \<noteq> 0) (take (num e) (buf e)); cnt = length line
              in case complete line (num e) of
                NotHandled \<Rightarrow> More e
              | Ring \<Rightarrow> More (putch [BEEP] e)
              | Extend s exact \<Rightarrow>
                  (if cnt + length s < length (buf e)
                   then More (putch (s @ (if exact then [] else [BEEP]))
                     (e\<lparr>buf := line @ s @ 0 # drop (cnt + length s + 1) (buf e),
                        num := num e + length s, eol_num := eol_num e + length s\<rparr>))
                   else Outside)
              | ListThem cs \<Rightarrow> More (putch (listing cs @ line) e)
              | Overrun \<Rightarrow> Outside))
      else go_on (cread_add_char ichar (insert_mode e) len e))"

text \<open>One key of \<open>cread_line\<close>.\<close>

definition cread_key ::
  "(u8 list \<Rightarrow> nat \<Rightarrow> completion) \<Rightarrow> (u8 list list \<Rightarrow> u8 list) \<Rightarrow> nat \<Rightarrow> u8 \<Rightarrow> editor \<Rightarrow> cread_result" where
  "cread_key complete listing len ichar e =
     (if ichar = chr8 CHR 0x0A \<or> ichar = chr8 CHR 0x0D then Entered (putch [chr8 CHR 0x0A] e)
      else if esc_len e = 1 then
        (if ichar = chr8 CHR ''['' then More (e\<lparr>esc_save := esc_save e @ [ichar], esc_len := 2\<rparr>)
         else go_on (map_option (\<lambda>e. e\<lparr>esc_len := 0\<rparr>)
                (cread_add_str (esc_save e) (insert_mode e) len e)))
      else if esc_len e \<noteq> 0 then
        (case arrow_key ichar of
           Some key \<Rightarrow> cread_control complete listing len key (e\<lparr>esc_len := 0\<rparr>)
         | None \<Rightarrow> go_on (map_option (\<lambda>e. e\<lparr>esc_len := 0\<rparr>)
                     (cread_add_str (esc_save e @ [ichar]) (insert_mode e) len e)))
      else cread_control complete listing len ichar e)"

text \<open>
  The loop over the keys that come in. \<open>None\<close> is that the keys run out before the line ends.
\<close>

fun cread_loop ::
  "(u8 list \<Rightarrow> nat \<Rightarrow> completion) \<Rightarrow> (u8 list list \<Rightarrow> u8 list) \<Rightarrow> nat \<Rightarrow> u8 list \<Rightarrow> editor \<Rightarrow>
    cread_result option" where
  "cread_loop complete listing len [] e = None"
| "cread_loop complete listing len (k # ks) e =
     (case cread_key complete listing len k e of
        More e \<Rightarrow> cread_loop complete listing len ks e
      | r \<Rightarrow> Some r)"

text \<open>What \<open>cread_line\<close> does at the end: ends the string and keeps it in the history.\<close>

definition cread_finish :: "editor \<Rightarrow> editor option" where
  "cread_finish e =
     do {
       e \<leftarrow> buf_put (eol_num e) 0 e;
       let line = takeWhile (\<lambda>c. c \<noteq> 0) (buf e);
       let h = (if line \<noteq> [] \<and> hd line \<noteq> chr8 CHR ''!'' then cread_add_to_hist line (hist e) else hist e);
       Some (e\<lparr>hist := h\<lparr>hist_cur := hist_add_idx h\<rparr>\<rparr>)
     }"

text \<open>The line given in \<open>init\<close> is typed first. The result: \<open>Entered\<close> with the length in \<open>eol_num\<close>.\<close>

definition cread_line ::
  "(u8 list \<Rightarrow> nat \<Rightarrow> completion) \<Rightarrow> (u8 list list \<Rightarrow> u8 list) \<Rightarrow> u8 list \<Rightarrow> history \<Rightarrow> u8 list \<Rightarrow>
    cread_result option" where
  "cread_line complete listing buffer h keys =
     (let e = \<lparr>buf = buffer, num = 0, eol_num = 0, insert_mode = True, esc_len = 0, esc_save = [],
                hist = h, tty = []\<rparr>
      in case cread_add_str (takeWhile (\<lambda>c. c \<noteq> 0) buffer) True MAX_CMDBUF_SIZE e of
        None \<Rightarrow> Some Outside
      | Some e \<Rightarrow>
          (case cread_loop complete listing MAX_CMDBUF_SIZE keys e of
             Some (Entered e) \<Rightarrow>
               Some (case cread_finish e of None \<Rightarrow> Outside | Some e \<Rightarrow> Entered e)
           | r \<Rightarrow> r))"

section \<open>The plain reader\<close>

text \<open>
  The loop of \<open>readline_into_buffer\<close> that runs before relocation: \<open>typed_text\<close> is the buffer up to
  \<open>p\<close> (so its length is \<open>n\<close>), \<open>col\<close> the column on the terminal.
\<close>

record plain_reader =
  typed_text :: "u8 list"
  col :: nat
  sent :: "u8 list"

definition erase_seq :: "u8 list" where
  "erase_seq = [8, chr8 CHR '' '', 8]"

definition tab_seq :: "u8 list" where
  "tab_seq = replicate 8 (chr8 CHR '' '')"

definition tab_width :: "nat \<Rightarrow> nat" where
  "tab_width c = 8 - c mod 8"

text \<open>Typing the text again from its start.\<close>

fun retype :: "u8 list \<Rightarrow> nat \<Rightarrow> u8 list \<times> nat" where
  "retype [] c = ([], c)"
| "retype (b # s) c =
     (let (out, c') = (if b = chr8 CHR 0x09 then (drop (c mod 8) tab_seq, c + tab_width c) else ([b], c + 1));
          (outs, c'') = retype s c'
      in (out @ outs, c''))"

definition delete_char :: "nat \<Rightarrow> plain_reader \<Rightarrow> plain_reader" where
  "delete_char plen r =
     (if typed_text r = [] then r
      else
        let kept = butlast (typed_text r) in
        if last (typed_text r) = chr8 CHR 0x09 then
          (let erased = concat (replicate (col r - plen) erase_seq);
               (out, c) = retype kept (min (col r) plen)
           in \<lparr>typed_text = kept, col = c, sent = sent r @ erased @ out\<rparr>)
        else \<lparr>typed_text = kept, col = col r - 1, sent = sent r @ erase_seq\<rparr>)"

text \<open>
  Control-W: a character is deleted, and more as long as the one just deleted is no space.
\<close>

function delete_word :: "nat \<Rightarrow> plain_reader \<Rightarrow> plain_reader" where
  "delete_word plen r =
     (if typed_text r = [] then r
      else
        let gone = last (typed_text r); r' = delete_char plen r in
        if typed_text r' \<noteq> [] \<and> gone \<noteq> chr8 CHR '' '' then delete_word plen r' else r')"
  by pat_completeness auto
termination
  by (relation "measure (\<lambda>(plen, r). length (typed_text r))")
    (auto simp: delete_char_def Let_def split: prod.splits)

declare delete_word.simps [simp del]

datatype plain_result = PlainMore plain_reader | PlainLine "u8 list" | PlainBreak | PlainOutside

text \<open>
  One key. Completion extends the text and the column; \<open>listing\<close> is what it prints when it lists the
  candidates.
\<close>

definition plain_key ::
  "(u8 list \<Rightarrow> nat \<Rightarrow> completion) \<Rightarrow> (u8 list list \<Rightarrow> u8 list) \<Rightarrow> nat \<Rightarrow> u8 \<Rightarrow> plain_reader \<Rightarrow> plain_result" where
  "plain_key complete listing plen c r =
     (if c = chr8 CHR 0x0D \<or> c = chr8 CHR 0x0A then PlainLine (typed_text r)
      else if c = 0 then PlainMore r
      else if c = 0x03 then PlainBreak
      else if c = 0x15 then
        PlainMore \<lparr>typed_text = [], col = min (col r) plen,
          sent = sent r @ concat (replicate (col r - plen) erase_seq)\<rparr>
      else if c = 0x17 then PlainMore (delete_word plen r)
      else if c = 0x08 \<or> c = 0x7F then PlainMore (delete_char plen r)
      else if length (typed_text r) < CONFIG_SYS_CBSIZE - 2 then
        (if c = chr8 CHR 0x09 then
           (case complete (typed_text r) (length (typed_text r)) of
              NotHandled \<Rightarrow> PlainMore \<lparr>typed_text = typed_text r @ [c], col = col r + tab_width (col r),
                sent = sent r @ drop (col r mod 8) tab_seq\<rparr>
            | Ring \<Rightarrow> PlainMore (r\<lparr>sent := sent r @ [7]\<rparr>)
            | Extend s exact \<Rightarrow> PlainMore \<lparr>typed_text = typed_text r @ s, col = col r + length s,
                sent = sent r @ s @ (if exact then [] else [7])\<rparr>
            | ListThem cs \<Rightarrow> PlainMore (r\<lparr>sent := sent r @ listing cs @ typed_text r\<rparr>)
            | Overrun \<Rightarrow> PlainOutside)
         else PlainMore \<lparr>typed_text = typed_text r @ [c], col = col r + 1, sent = sent r @ [c]\<rparr>)
      else PlainMore (r\<lparr>sent := sent r @ [7]\<rparr>))"

end
