(* ===== verification/LineEdit_Correct.thy ===== *)
theory LineEdit_Correct
  imports LineEdit
begin

text \<open>
  What the line editor does: the history ring is a list of lines with a place to walk from, the
  buffer with its two counts is the text before and after the cursor, and the bytes sent to the
  terminal keep it showing that text with the cursor in place. The laws of the history are a locale
  that the ring interprets.
\<close>

section \<open>The history\<close>

text \<open>
  The ring holds \<open>ls\<close>, all lines so far, the oldest first, and the walk is \<open>k\<close> lines back.
\<close>

definition hist_rep :: "history \<Rightarrow> u8 list list \<Rightarrow> nat \<Rightarrow> bool" where
  "hist_rep h ls k \<longleftrightarrow>
     (let n = length ls in
      k \<le> min n (HIST_MAX - 1) \<and>
      length (hist_lines h) = HIST_MAX \<and>
      hist_add_idx h = int (n mod HIST_MAX) \<and>
      hist_max h = int (min n (HIST_MAX - 1)) \<and>
      hist_cur h = int ((n - k) mod HIST_MAX) \<and>
      (\<forall>i < n. n - i \<le> HIST_MAX \<longrightarrow> hist_lines h ! (i mod HIST_MAX) = ls ! i))"

lemma hist_rep_line:
  assumes "hist_rep h ls k" and "i < length ls" and "length ls - i \<le> HIST_MAX"
  shows "hist_line h (int (i mod HIST_MAX)) = ls ! i"
  using assms by (simp add: hist_rep_def hist_line_def Let_def)

lemma mod_20_Suc: "Suc n mod 20 = (if n mod 20 = 19 then 0 else Suc (n mod 20))"
  by (simp add: mod_Suc)

lemma mod_20_eq_iff: "k \<le> 19 \<Longrightarrow> k \<le> n \<Longrightarrow> (n - k) mod 20 = n mod 20 \<longleftrightarrow> k = (0 :: nat)"
  using mod_eq_dvd_iff_nat [of "n - k" n 20] dvd_imp_le [of 20 k] by auto

lemma hist_rep_init: "hist_rep (hist_init\<lparr>hist_cur := hist_add_idx hist_init\<rparr>) [] 0"
  by (simp add: hist_rep_def hist_init_def HIST_MAX_def)

lemma hist_rep_add:
  assumes "hist_rep h ls k"
  shows "hist_rep ((cread_add_to_hist line h)\<lparr>hist_cur := hist_add_idx (cread_add_to_hist line h)\<rparr>)
    (ls @ [line]) 0"
proof -
  let ?n = "length ls"
  have lines: "(hist_lines h)[?n mod 20 := line] ! (i mod 20) = (ls @ [line]) ! i"
    if "i < Suc ?n" "Suc ?n - i \<le> 20" for i
  proof (cases "i = ?n")
    case True
    then show ?thesis using assms by (simp add: hist_rep_def HIST_MAX_def Let_def)
  next
    case False
    then have i: "i < ?n" "?n - i \<le> 19" "?n - i \<noteq> 0" using that by simp_all
    then have "i mod 20 \<noteq> ?n mod 20"
      using mod_20_eq_iff [of "?n - i" ?n] by auto
    then show ?thesis
      using assms i by (simp add: hist_rep_def HIST_MAX_def Let_def nth_append)
  qed
  have idx: "hist_add_idx h = int (?n mod 20)" "hist_max h = int (min ?n 19)"
    using assms by (simp_all add: hist_rep_def HIST_MAX_def Let_def)
  have add: "hist_add_idx (cread_add_to_hist line h) = int (Suc ?n mod 20)"
    unfolding mod_20_Suc by (auto simp: cread_add_to_hist_def Let_def idx HIST_MAX_def)
  have max: "hist_max (cread_add_to_hist line h) = int (min (Suc ?n) 19)"
    by (auto simp: cread_add_to_hist_def Let_def idx HIST_MAX_def min_def)
  have new: "hist_lines (cread_add_to_hist line h) = (hist_lines h)[?n mod 20 := line]"
    by (simp add: cread_add_to_hist_def Let_def idx)
  show ?thesis
    using assms lines
    by (simp add: hist_rep_def HIST_MAX_def Let_def add max new)
qed

lemma hist_prev_rep:
  assumes "hist_rep h ls k"
  shows "if k < min (length ls) (HIST_MAX - 1)
    then fst (hist_prev h) = Some (ls ! (length ls - k - 1)) \<and> hist_rep (snd (hist_prev h)) ls (Suc k)
    else hist_prev h = (None, h)"
proof -
  let ?n = "length ls"
  have k: "k \<le> min ?n 19" using assms by (simp add: hist_rep_def HIST_MAX_def Let_def)
  have idx: "hist_add_idx h = int (?n mod 20)" "hist_max h = int (min ?n 19)"
    "hist_cur h = int ((?n - k) mod 20)"
    using assms by (simp_all add: hist_rep_def HIST_MAX_def Let_def)
  show ?thesis
  proof (cases "k < min ?n 19")
    case True
    then have "Suc (?n - Suc k) = ?n - k" by linarith
    then have m: "(?n - k) mod 20 = (if (?n - Suc k) mod 20 = 19 then 0 else Suc ((?n - Suc k) mod 20))"
      using mod_20_Suc [of "?n - Suc k"] by simp
    have ne: "(?n - Suc k) mod 20 \<noteq> ?n mod 20"
      using mod_20_eq_iff [of "Suc k" ?n] True by simp
    have wrap: "?n \<ge> 20" if "(?n - Suc k) mod 20 = 19"
    proof -
      have "19 \<le> ?n - Suc k" using that by (metis mod_less_eq_dividend)
      then show ?thesis using True by simp
    qed
    have line: "hist_line h (int ((?n - Suc k) mod 20)) = ls ! (?n - Suc k)"
      using hist_rep_line [OF assms, of "?n - Suc k"] True by (auto simp: HIST_MAX_def)
    have prev: "hist_prev h = (Some (ls ! (?n - Suc k)), h\<lparr>hist_cur := int ((?n - Suc k) mod 20)\<rparr>)"
      using ne wrap line by (auto simp: hist_prev_def Let_def idx m min_def)
    show ?thesis
      using assms True by (simp add: prev) (simp add: hist_rep_def Let_def HIST_MAX_def)
  next
    case False
    then have k': "k = min ?n 19" using k False by linarith
    then have "(if hist_cur h - 1 < 0 then hist_max h else hist_cur h - 1) = hist_add_idx h"
    proof (cases "?n < 20")
      case True
      then show ?thesis using k' by (auto simp: idx min_def)
    next
      case False
      have "Suc (?n - 20) = ?n - 19" "(?n - 20) mod 20 = ?n mod 20"
        using False by (simp_all add: le_mod_geq)
      then have "(?n - 19) mod 20 = (if ?n mod 20 = 19 then 0 else Suc (?n mod 20))"
        using mod_20_Suc [of "?n - 20"] by simp
      then show ?thesis using k' False by (auto simp: idx min_def)
    qed
    then show ?thesis using False k' by (simp add: hist_prev_def Let_def idx HIST_MAX_def)
  qed
qed

lemma hist_next_rep:
  assumes "hist_rep h ls k"
  shows "case k of
      0 \<Rightarrow> hist_next h = (None, h)
    | Suc j \<Rightarrow> fst (hist_next h) = Some (if j = 0 then [] else ls ! (length ls - j)) \<and>
        hist_rep (snd (hist_next h)) ls j"
proof -
  let ?n = "length ls"
  have k: "k \<le> min ?n 19" using assms by (simp add: hist_rep_def HIST_MAX_def Let_def)
  have idx: "hist_add_idx h = int (?n mod 20)" "hist_max h = int (min ?n 19)"
    "hist_cur h = int ((?n - k) mod 20)"
    using assms by (simp_all add: hist_rep_def HIST_MAX_def Let_def)
  show ?thesis
  proof (cases k)
    case 0
    then show ?thesis by (simp add: hist_next_def idx)
  next
    case (Suc j)
    have j: "j \<le> ?n" "j \<le> 19" using k Suc by simp_all
    have "Suc (?n - k) = ?n - j" using k Suc by linarith
    then have m: "(?n - j) mod 20 = (if (?n - k) mod 20 = 19 then 0 else Suc ((?n - k) mod 20))"
      using mod_20_Suc [of "?n - k"] by simp
    have ne: "(?n - k) mod 20 \<noteq> ?n mod 20" using mod_20_eq_iff [of k ?n] k Suc by simp
    have eq: "(?n - j) mod 20 = ?n mod 20 \<longleftrightarrow> j = 0" using mod_20_eq_iff [of j ?n] j by simp
    have small: "(?n - k) mod 20 < ?n" using k Suc mod_less_eq_dividend [of "?n - k" 20] by linarith
    have cur: "(if hist_max h < hist_cur h + 1 then 0 else hist_cur h + 1) = int ((?n - j) mod 20)"
      using small m by (auto simp: idx min_def)
    have nxt: "hist_next h =
        (if j = 0 then (Some [], h\<lparr>hist_cur := int ((?n - j) mod 20)\<rparr>)
         else (Some (hist_line h (int ((?n - j) mod 20))), h\<lparr>hist_cur := int ((?n - j) mod 20)\<rparr>))"
      using ne eq unfolding hist_next_def Let_def cur by (auto simp: idx)
    have line: "hist_line h (int ((?n - j) mod 20)) = ls ! (?n - j)" if "j \<noteq> 0"
      using hist_rep_line [OF assms, of "?n - j"] that j by (auto simp: HIST_MAX_def)
    show ?thesis
      using assms line by (simp add: Suc nxt) (auto simp: hist_rep_def Let_def HIST_MAX_def)
  qed
qed

text \<open>
  What the editor relies on: a history that stands for a list of lines and a place in it, and that
  goes one line back, as far as \<open>reach\<close>, or forward.
\<close>

locale line_history =
  fixes rep :: "'h \<Rightarrow> u8 list list \<Rightarrow> nat \<Rightarrow> bool"
    and older newer :: "'h \<Rightarrow> u8 list option \<times> 'h"
    and reach :: nat
  assumes older_rep: "rep h ls k \<Longrightarrow>
      if k < min (length ls) reach
      then fst (older h) = Some (ls ! (length ls - k - 1)) \<and> rep (snd (older h)) ls (Suc k)
      else older h = (None, h)"
    and newer_rep: "rep h ls k \<Longrightarrow>
      case k of
        0 \<Rightarrow> newer h = (None, h)
      | Suc j \<Rightarrow> fst (newer h) = Some (if j = 0 then [] else ls ! (length ls - j)) \<and>
          rep (snd (newer h)) ls j"
begin

lemma older_walk:
  "rep h ls 0 \<Longrightarrow> k \<le> min (length ls) reach \<Longrightarrow> rep (((\<lambda>h. snd (older h)) ^^ k) h) ls k"
proof (induction k)
  case (Suc k)
  then show ?case using older_rep [of "((\<lambda>h. snd (older h)) ^^ k) h" ls k] by simp
qed simp

lemma older_recalls:
  assumes "rep h ls 0" and "0 < k" and "k \<le> min (length ls) reach"
  shows "fst (older (((\<lambda>h. snd (older h)) ^^ (k - 1)) h)) = Some (ls ! (length ls - k))"
proof -
  have "k - 1 \<le> min (length ls) reach" "k - 1 < min (length ls) reach" "length ls - (k - 1) - 1 = length ls - k"
    using assms by linarith+
  then show ?thesis
    using older_rep [OF older_walk [OF assms(1)], of "k - 1"] by simp
qed

lemma older_stops:
  assumes "rep h ls 0" and "k = min (length ls) reach"
  shows "older (((\<lambda>h. snd (older h)) ^^ k) h) = (None, ((\<lambda>h. snd (older h)) ^^ k) h)"
  using older_walk [OF assms(1), of k] older_rep [of "((\<lambda>h. snd (older h)) ^^ k) h" ls k] assms(2) by simp

lemma newer_walk: "rep h ls k \<Longrightarrow> rep (((\<lambda>h. snd (newer h)) ^^ k) h) ls 0"
proof (induction k arbitrary: h)
  case (Suc k)
  then have "rep (snd (newer h)) ls k" using newer_rep [OF Suc.prems] by simp
  then show ?case using Suc.IH [of "snd (newer h)"] by (simp add: funpow_Suc_right del: funpow.simps)
qed simp

lemma walk_back_and_forth:
  assumes "rep h ls 0" and "k \<le> min (length ls) reach"
  shows "rep (((\<lambda>h. snd (newer h)) ^^ k) (((\<lambda>h. snd (older h)) ^^ k) h)) ls 0"
  using newer_walk [OF older_walk [OF assms]] .

end

interpretation ring: line_history hist_rep hist_prev hist_next "HIST_MAX - 1"
  by unfold_locales (rule hist_prev_rep hist_next_rep, assumption)+

text \<open>The ring after the lines \<open>ls\<close> have been entered.\<close>

definition hist_enter :: "history \<Rightarrow> u8 list \<Rightarrow> history" where
  "hist_enter h line = (let h = cread_add_to_hist line h in h\<lparr>hist_cur := hist_add_idx h\<rparr>)"

definition hist_after :: "u8 list list \<Rightarrow> history" where
  "hist_after ls = foldl hist_enter (hist_init\<lparr>hist_cur := hist_add_idx hist_init\<rparr>) ls"

lemma hist_rep_after: "hist_rep (hist_after ls) ls 0"
proof (induction ls rule: rev_induct)
  case Nil
  then show ?case using hist_rep_init by (simp add: hist_after_def)
next
  case (snoc l ls)
  then show ?case
    using hist_rep_add [OF snoc, of l] by (simp add: hist_after_def hist_enter_def Let_def)
qed

text \<open>
  C17: after any number of lines has been entered, the \<open>k\<close>-th step back recalls the \<open>k\<close>-th last line, for
  the last 19 lines; one more step finds nothing although the ring has 20 places.
\<close>

theorem history_recalls:
  assumes "0 < k" and "k \<le> min (length ls) (HIST_MAX - 1)"
  shows "fst (hist_prev (((\<lambda>h. snd (hist_prev h)) ^^ (k - 1)) (hist_after ls))) = Some (ls ! (length ls - k)) \<and>
    (k = min (length ls) (HIST_MAX - 1) \<longrightarrow>
      fst (hist_prev (((\<lambda>h. snd (hist_prev h)) ^^ k) (hist_after ls))) = None)"
  using ring.older_recalls [OF hist_rep_after assms] ring.older_stops [OF hist_rep_after] by auto

theorem history_recalls_witness:
  "fst (hist_prev (hist_after [cstr ''help'', cstr ''reset''])) = Some (cstr ''reset'')"
  using history_recalls [of 1 "[cstr ''help'', cstr ''reset'']"] by (simp add: HIST_MAX_def)

section \<open>The terminal\<close>

text \<open>
  A terminal of one row: a backspace moves left, the bell does nothing, any other byte takes a cell.
\<close>

fun term_byte :: "u8 list \<times> nat \<Rightarrow> u8 \<Rightarrow> u8 list \<times> nat" where
  "term_byte (cells, pos) c =
     (if c = BEEP then (cells, pos)
      else if c = CTL_BACKSPACE then (cells, pos - 1)
      else (take pos cells @ c # drop (pos + 1) cells, pos + 1))"

abbreviation term_bytes :: "u8 list \<times> nat \<Rightarrow> u8 list \<Rightarrow> u8 list \<times> nat" where
  "term_bytes \<equiv> foldl term_byte"

definition visible :: "u8 \<Rightarrow> bool" where
  "visible c \<longleftrightarrow> c \<noteq> 0 \<and> c \<noteq> BEEP \<and> c \<noteq> CTL_BACKSPACE"

lemma term_write:
  "list_all visible s \<Longrightarrow> pos \<le> length cells \<Longrightarrow>
     term_bytes (cells, pos) s = (take pos cells @ s @ drop (pos + length s) cells, pos + length s)"
proof (induction s arbitrary: cells pos)
  case (Cons c s)
  then have "term_bytes (cells, pos) (c # s) = term_bytes (take pos cells @ c # drop (pos + 1) cells, pos + 1) s"
    by (simp add: visible_def)
  also have "\<dots> = (take (pos + 1) (take pos cells @ c # drop (pos + 1) cells) @ s @
      drop (pos + 1 + length s) (take pos cells @ c # drop (pos + 1) cells), pos + 1 + length s)"
    using Cons.prems by (intro Cons.IH) auto
  finally show ?case using Cons.prems(2) by (auto simp: min_def add.commute)
qed simp

lemma term_back: "term_bytes (cells, pos) (replicate n CTL_BACKSPACE) = (cells, pos - n)"
  by (induction n arbitrary: pos) (simp_all add: BEEP_def CTL_BACKSPACE_def)

lemma visible_blank [simp]: "visible 32"
  by (simp add: visible_def BEEP_def CTL_BACKSPACE_def)

lemma term_over:
  "list_all visible s \<Longrightarrow> length s = length c \<Longrightarrow>
     term_bytes (l @ c @ rest, length l) s = (l @ s @ rest, length l + length s)"
  by (subst term_write) simp_all

lemma term_over_end:
  "list_all visible s \<Longrightarrow> length c \<le> length s \<Longrightarrow>
     term_bytes (l @ c, length l) s = (l @ s, length l + length s)"
  by (subst term_write) simp_all

section \<open>The text in the buffer\<close>

definition screen :: "editor \<Rightarrow> u8 list \<times> nat" where
  "screen e = term_bytes ([], 0) (tty e)"

abbreviation blanks :: "nat \<Rightarrow> u8 list" where
  "blanks k \<equiv> replicate k (chr8 CHR '' '')"

text \<open>
  The buffer holds the text \<open>l\<close> before and \<open>r\<close> behind the cursor, and the terminal shows it, with
  blanks after it.
\<close>

definition holds :: "editor \<Rightarrow> u8 list \<Rightarrow> u8 list \<Rightarrow> bool" where
  "holds e l r \<longleftrightarrow> num e = length l \<and> eol_num e = length l + length r \<and>
     length (buf e) = MAX_CMDBUF_SIZE \<and> list_all visible (l @ r) \<and>
     (\<exists>junk. buf e = l @ r @ junk) \<and> (\<exists>k. screen e = (l @ r @ blanks k, length l))"

definition rest_of :: "editor \<Rightarrow> bool \<times> nat \<times> u8 list \<times> history" where
  "rest_of e = (insert_mode e, esc_len e, esc_save e, hist e)"

lemma screen_simps [simp]:
  "screen (putch s e) = term_bytes (screen e) s"
  "screen (e\<lparr>num := n\<rparr>) = screen e" "screen (e\<lparr>eol_num := n\<rparr>) = screen e"
  "screen (e\<lparr>buf := b\<rparr>) = screen e" "screen (e\<lparr>hist := h\<rparr>) = screen e"
  "screen (e\<lparr>insert_mode := i\<rparr>) = screen e" "screen (e\<lparr>esc_len := j\<rparr>) = screen e"
  "screen (e\<lparr>esc_save := q\<rparr>) = screen e"
  by (simp_all add: screen_def putch_def)

lemma putch_simps [simp]:
  "buf (putch s e) = buf e" "num (putch s e) = num e" "eol_num (putch s e) = eol_num e"
  "rest_of (putch s e) = rest_of e" "insert_mode (putch s e) = insert_mode e"
  "esc_len (putch s e) = esc_len e" "esc_save (putch s e) = esc_save e" "hist (putch s e) = hist e"
  by (simp_all add: putch_def rest_of_def)

lemma rest_simps [simp]:
  "rest_of (e\<lparr>num := n\<rparr>) = rest_of e" "rest_of (e\<lparr>eol_num := n\<rparr>) = rest_of e"
  "rest_of (e\<lparr>buf := b\<rparr>) = rest_of e"
  by (simp_all add: rest_of_def)

lemma holdsE:
  assumes "holds e l r"
  obtains junk k where "num e = length l" "eol_num e = length l + length r"
    "buf e = l @ r @ junk" "length l + length r + length junk = MAX_CMDBUF_SIZE"
    "list_all visible l" "list_all visible r" "screen e = (l @ r @ blanks k, length l)"
  using assms by (auto simp: holds_def)

lemma holdsI:
  assumes "num e = length l" "eol_num e = length l + length r" "length (buf e) = MAX_CMDBUF_SIZE"
    "buf e = l @ r @ junk" "list_all visible l" "list_all visible r" "screen e = (l @ r @ blanks k, length l)"
  shows "holds e l r"
  using assms by (auto simp: holds_def)

lemma holds_length: "holds e l r \<Longrightarrow> length l + length r \<le> MAX_CMDBUF_SIZE"
  by (auto elim!: holdsE)

lemma holds_text: "holds e l r \<Longrightarrow> take (eol_num e) (buf e) = l @ r"
  by (auto elim!: holdsE)

lemma holds_bell: "holds e l r \<Longrightarrow> holds (putch [BEEP] e) l r"
  by (simp add: holds_def) (metis term_byte.simps)

lemma no_nul: "list_all visible s \<Longrightarrow> takeWhile (\<lambda>c. c \<noteq> 0) (s @ ts) = s @ takeWhile (\<lambda>c. c \<noteq> 0) ts"
  by (rule takeWhile_all) (auto simp: list_all_iff visible_def)

lemma putnstr_text:
  assumes "buf e = l @ s @ junk" and "list_all visible s"
  shows "putnstr (length l) (length s) e = putch s e"
proof -
  have "\<forall>c \<in> set s. c \<noteq> 0" using assms(2) by (auto simp: list_all_iff visible_def)
  then show ?thesis using assms(1) by (simp add: putnstr_def takeWhile_eq_all_conv [THEN iffD2])
qed

lemma holds_begin:
  assumes "holds e l r"
  shows "holds (BEGINNING_OF_LINE e) [] (l @ r)"
  using assms by (elim holdsE) (rule holdsI, simp_all add: BEGINNING_OF_LINE_def term_back)

lemma rest_begin [simp]: "rest_of (BEGINNING_OF_LINE e) = rest_of e"
  by (simp add: BEGINNING_OF_LINE_def)

lemma blanks_over:
  "term_bytes (l @ r @ blanks k, length l) (blanks (length r) @ replicate (length r) CTL_BACKSPACE) =
    (l @ blanks (length r + k), length l)"
proof -
  have "list_all visible (blanks (length r))" by (simp add: list_all_iff)
  then have "term_bytes (l @ r @ blanks k, length l) (blanks (length r)) =
      (l @ blanks (length r) @ blanks k, length l + length r)"
    by (subst term_over) simp_all
  then show ?thesis by (simp add: term_back replicate_add)
qed

lemma holds_erase:
  assumes "holds e l r"
  shows "holds (ERASE_TO_EOL e) l []"
  using assms
proof (elim holdsE)
  fix junk k
  assume e: "num e = length l" "eol_num e = length l + length r" "buf e = l @ r @ junk"
    "length l + length r + length junk = MAX_CMDBUF_SIZE" "list_all visible l"
    "screen e = (l @ r @ blanks k, length l)"
  show ?thesis
    by (rule holdsI [where junk = "r @ junk" and k = "length r + k"])
      (use e blanks_over [of l r k] in \<open>auto simp: ERASE_TO_EOL_def Let_def\<close>)
qed

lemma rest_erase [simp]: "rest_of (ERASE_TO_EOL e) = rest_of e"
  by (simp add: ERASE_TO_EOL_def Let_def)

lemma holds_refresh:
  assumes "holds e l r"
  shows "holds (REFRESH_TO_EOL e) (l @ r) []"
  using assms
proof (elim holdsE)
  fix junk k
  assume e: "num e = length l" "eol_num e = length l + length r" "buf e = l @ r @ junk"
    "length l + length r + length junk = MAX_CMDBUF_SIZE" "list_all visible l" "list_all visible r"
    "screen e = (l @ r @ blanks k, length l)"
  show ?thesis
    by (rule holdsI [where junk = junk and k = k])
      (use e putnstr_text [of e l r junk] term_over [of r r l "blanks k"]
        in \<open>auto simp: REFRESH_TO_EOL_def\<close>)
qed

lemma rest_refresh [simp]: "rest_of (REFRESH_TO_EOL e) = rest_of e"
  by (simp add: REFRESH_TO_EOL_def putnstr_def)

text \<open>Deleting.\<close>

lemma term_delete:
  assumes "list_all visible r"
  shows "term_bytes (l @ (x # r) @ blanks k, length l)
      (r @ [chr8 CHR '' ''] @ replicate (Suc (length r)) CTL_BACKSPACE) = (l @ r @ blanks (Suc k), length l)"
proof -
  let ?w = "r @ [chr8 CHR '' '']"
  have vis: "list_all visible ?w" using assms by simp
  have over: "term_bytes (l @ (x # r) @ blanks k, length l) ?w = (l @ ?w @ blanks k, length l + length ?w)"
    using vis by (rule term_over) simp
  have "term_bytes (l @ (x # r) @ blanks k, length l) (?w @ replicate (Suc (length r)) CTL_BACKSPACE) =
      term_bytes (l @ ?w @ blanks k, length l + length ?w) (replicate (Suc (length r)) CTL_BACKSPACE)"
    by (simp only: foldl_append [of _ _ ?w] over)
  also have "\<dots> = (l @ ?w @ blanks k, length l + length ?w - Suc (length r))"
    by (rule term_back)
  finally show ?thesis by simp
qed

lemma holds_delete_here:
  assumes "holds e l (x # r)"
  shows "\<exists>e'. delete_here e = Some e' \<and> holds e' l r \<and> rest_of e' = rest_of e"
  using assms
proof (elim holdsE)
  fix junk k
  assume e: "num e = length l" "eol_num e = length l + length (x # r)" "buf e = l @ (x # r) @ junk"
    "length l + length (x # r) + length junk = MAX_CMDBUF_SIZE" "list_all visible l"
    "list_all visible (x # r)" "screen e = (l @ (x # r) @ blanks k, length l)"
  let ?junk = "drop (length r) (x # r @ junk)"
  define e1 where "e1 = e\<lparr>buf := l @ r @ ?junk\<rparr>"
  have move: "(if length r \<noteq> 0
      then map_option (putnstr (num e) (length r)) (buf_move (num e) (num e + 1) (length r) e)
      else Some e) = Some (putch r e1)"
  proof (cases "r = []")
    case True
    then show ?thesis using e by (simp add: e1_def putch_def)
  next
    case False
    have "buf_move (num e) (num e + 1) (length r) e = Some e1"
      using e by (simp add: buf_move_def e1_def)
    then show ?thesis using False e putnstr_text [of e1 l r ?junk] by (simp add: e1_def)
  qed
  have scr: "term_bytes (l @ (x # r) @ blanks k, length l)
      (r @ [chr8 CHR '' ''] @ replicate (Suc (length r)) CTL_BACKSPACE) = (l @ r @ blanks (Suc k), length l)"
    using e by (intro term_delete) simp
  define e2 where "e2 = putch ([chr8 CHR '' ''] @ replicate (length r + 1) CTL_BACKSPACE)
      ((putch r e1)\<lparr>eol_num := eol_num (putch r e1) - 1\<rparr>)"
  have "delete_here e = Some e2"
    using e(1,2) move by (simp add: delete_here_def Let_def e2_def)
  moreover have "holds e2 l r"
    by (rule holdsI [where junk = ?junk and k = "Suc k"])
      (use e scr in \<open>simp_all add: e2_def e1_def\<close>)
  ultimately show ?thesis by (simp add: e2_def e1_def)
qed

lemma delete_here_end: "holds e l [] \<Longrightarrow> delete_here e = Some e"
  by (simp add: holds_def delete_here_def)

lemma holds_rub_out:
  assumes "holds e (l @ [x]) r"
  shows "\<exists>e'. rub_out e = Some e' \<and> holds e' l r \<and> rest_of e' = rest_of e"
  using assms
proof (elim holdsE)
  fix junk k
  assume e: "num e = length (l @ [x])" "eol_num e = length (l @ [x]) + length r"
    "buf e = (l @ [x]) @ r @ junk" "length (l @ [x]) + length r + length junk = MAX_CMDBUF_SIZE"
    "list_all visible (l @ [x])" "list_all visible r" "screen e = ((l @ [x]) @ r @ blanks k, length (l @ [x]))"
  let ?junk = "drop (length r) (x # r @ junk)"
  define e1 where "e1 = e\<lparr>num := length l, buf := l @ r @ ?junk\<rparr>"
  have move: "buf_move (length l) (length l + 1) (length r) (e\<lparr>num := length l\<rparr>) = Some e1"
    using e by (simp add: buf_move_def e1_def)
  have scr: "term_bytes (l @ (x # r) @ blanks k, length l)
      (r @ [chr8 CHR '' ''] @ replicate (Suc (length r)) CTL_BACKSPACE) = (l @ r @ blanks (Suc k), length l)"
    using e by (intro term_delete) simp
  define e2 where "e2 = putch ([chr8 CHR '' ''] @ replicate (length r + 1) CTL_BACKSPACE)
      ((putch r (putch [CTL_BACKSPACE] e1))\<lparr>eol_num := eol_num e - 1\<rparr>)"
  have out: "putnstr (length l) (length r) (putch [CTL_BACKSPACE] e1) = putch r (putch [CTL_BACKSPACE] e1)"
    by (rule putnstr_text [where junk = ?junk]) (use e in \<open>simp_all add: e1_def\<close>)
  have "rub_out e = Some e2"
    using e(1,2) move out by (simp add: rub_out_def Let_def e2_def) (simp add: e1_def)
  moreover have "holds e2 l r"
    by (rule holdsI [where junk = ?junk and k = "Suc k"])
      (use e scr in \<open>simp_all add: e2_def e1_def BEEP_def CTL_BACKSPACE_def\<close>)
  ultimately show ?thesis by (simp add: e2_def e1_def)
qed

lemma rub_out_start: "holds e [] r \<Longrightarrow> rub_out e = Some e"
  by (simp add: holds_def rub_out_def)

text \<open>Typing a character.\<close>

lemma term_insert:
  assumes "list_all visible (x # r)"
  shows "\<exists>j. term_bytes (l @ r @ blanks k, length l) ((x # r) @ replicate (length r) CTL_BACKSPACE) =
    (l @ x # r @ blanks j, length l + 1)"
proof (cases k)
  case 0
  have "term_bytes (l @ r, length l) (x # r) = (l @ x # r, length l + length (x # r))"
    using assms by (rule term_over_end) simp
  then have "term_bytes (l @ r @ blanks k, length l) ((x # r) @ replicate (length r) CTL_BACKSPACE) =
    (l @ x # r @ blanks 0, length l + 1)"
    by (simp only: foldl_append 0 replicate_0 append_Nil2 term_back) simp
  then show ?thesis by blast
next
  case (Suc j)
  have "term_bytes (l @ (r @ blanks 1) @ blanks j, length l) (x # r) =
      (l @ (x # r) @ blanks j, length l + length (x # r))"
    using assms by (rule term_over) simp
  moreover have "l @ r @ blanks k = l @ (r @ blanks 1) @ blanks j" by (simp add: Suc)
  ultimately have "term_bytes (l @ r @ blanks k, length l) ((x # r) @ replicate (length r) CTL_BACKSPACE) =
    (l @ x # r @ blanks j, length l + 1)"
    by (simp only: foldl_append term_back) simp
  then show ?thesis by blast
qed

lemma holds_insert:
  assumes "holds e l r" and "visible x" and "length l + length r < MAX_CMDBUF_SIZE"
  shows "\<exists>e'. cread_add_char x True MAX_CMDBUF_SIZE e = Some e' \<and> holds e' (l @ [x]) r \<and> rest_of e' = rest_of e"
  using assms(1)
proof (elim holdsE)
  fix junk k
  assume e: "num e = length l" "eol_num e = length l + length r" "buf e = l @ r @ junk"
    "length l + length r + length junk = MAX_CMDBUF_SIZE" "list_all visible l" "list_all visible r"
    "screen e = (l @ r @ blanks k, length l)"
  let ?e = "e\<lparr>eol_num := Suc (length l + length r)\<rparr>"
  have room: "\<not> MAX_CMDBUF_SIZE - 1 < length l + length r" using assms(3) by simp
  obtain y junk' where junk: "junk = y # junk'" using e(4) assms(3) by (cases junk) auto
  define e1 where "e1 = ?e\<lparr>buf := (l @ x # r @ junk')\<rparr>"
  obtain b where move: "(if 1 < Suc (length r) then buf_move (length l + 1) (length l) (length r) ?e
      else Some ?e) = Some (?e\<lparr>buf := b\<rparr>)"
    and b: "length l < length b" "b[length l := x] = l @ x # r @ junk'"
  proof (cases r)
    case Nil
    then show thesis using e junk by (intro that [of "l @ junk"]) (simp_all flip: e(3))
  next
    case (Cons z r')
    then show thesis using e(3,4) junk
      by (intro that [of "l @ z # r @ junk'"]) (simp_all add: buf_move_def)
  qed
  have put: "buf_put (length l) x (?e\<lparr>buf := b\<rparr>) = Some e1"
    using b by (simp add: buf_put_def e1_def)
  have vis: "list_all visible (x # r)" using e assms(2) by simp
  obtain j where scr: "term_bytes (l @ r @ blanks k, length l) ((x # r) @ replicate (length r) CTL_BACKSPACE) =
    (l @ x # r @ blanks j, length l + 1)"
    using term_insert [OF vis] by blast
  have out: "putnstr (length l) (Suc (length r)) e1 = putch (x # r) e1"
    using putnstr_text [of e1 l "x # r" junk'] vis by (simp add: e1_def)
  define e2 where "e2 = putch (replicate (length r) CTL_BACKSPACE) ((putch (x # r) e1)\<lparr>num := length l + 1\<rparr>)"
  have "cread_add_char x True MAX_CMDBUF_SIZE e = Some e2"
    using e(1,2) room move put out
    by (cases "r = []") (simp_all add: cread_add_char_def Let_def Suc_diff_le e2_def e1_def)
  moreover have "holds e2 (l @ [x]) r"
    by (rule holdsI [where junk = junk' and k = j])
      (use e scr junk assms(2) in \<open>simp_all add: e2_def e1_def\<close>)
  ultimately show ?thesis by (simp add: e2_def e1_def)
qed

lemma holds_full:
  assumes "holds e l r" and "length l + length r = MAX_CMDBUF_SIZE" and "ins \<or> r = []"
  shows "cread_add_char x ins MAX_CMDBUF_SIZE e = Some (putch [BEEP] e)"
  using assms by (elim holdsE) (auto simp: cread_add_char_def MAX_CMDBUF_SIZE_def)

lemma holds_append:
  assumes "holds e l []" and "visible x" and "length l < MAX_CMDBUF_SIZE"
  shows "\<exists>e'. cread_add_char x False MAX_CMDBUF_SIZE e = Some e' \<and> holds e' (l @ [x]) [] \<and> rest_of e' = rest_of e"
  using assms(1)
proof (elim holdsE)
  fix junk k
  assume e: "num e = length l" "eol_num e = length l + length []" "buf e = l @ [] @ junk"
    "length l + length [] + length junk = MAX_CMDBUF_SIZE" "list_all visible l"
    "screen e = (l @ [] @ blanks k, length l)"
  obtain y junk' where junk: "junk = y # junk'" using e(4) assms(3) by (cases junk) auto
  define e1 where "e1 = e\<lparr>eol_num := Suc (length l), buf := l @ [x] @ junk'\<rparr>"
  have out: "putnstr (length l) (length [x]) e1 = putch [x] e1"
    by (rule putnstr_text [where junk = junk']) (use assms(2) in \<open>simp_all add: e1_def\<close>)
  have put: "buf_put (length l) x (e\<lparr>eol_num := Suc (length l)\<rparr>) = Some e1"
    using e(3,4) junk by (simp add: buf_put_def e1_def)
  obtain j where scr: "term_bytes (l @ [] @ blanks k, length l) ([x] @ replicate (length []) CTL_BACKSPACE) =
    (l @ x # [] @ blanks j, length l + 1)"
    using term_insert [of x "[]" l k] assms(2) by auto
  define e2 where "e2 = (putch [x] e1)\<lparr>num := length l + 1\<rparr>"
  have room: "\<not> MAX_CMDBUF_SIZE - 1 < length l" using assms(3) by simp
  have "cread_add_char x False MAX_CMDBUF_SIZE e = Some e2"
    using e(1,2) room put out by (simp add: cread_add_char_def e2_def) (simp add: e1_def)
  moreover have "holds e2 (l @ [x]) []"
    by (rule holdsI [where junk = junk' and k = j])
      (use e scr junk assms(2) in \<open>simp_all add: e2_def e1_def\<close>)
  ultimately show ?thesis by (simp add: e2_def e1_def)
qed

lemma holds_overtype:
  assumes "holds e l (y # r)" and "visible x"
  shows "\<exists>e'. cread_add_char x False MAX_CMDBUF_SIZE e = Some e' \<and> holds e' (l @ [x]) r \<and> rest_of e' = rest_of e"
  using assms(1)
proof (elim holdsE)
  fix junk k
  assume e: "num e = length l" "eol_num e = length l + length (y # r)" "buf e = l @ (y # r) @ junk"
    "length l + length (y # r) + length junk = MAX_CMDBUF_SIZE" "list_all visible l" "list_all visible (y # r)"
    "screen e = (l @ (y # r) @ blanks k, length l)"
  define e1 where "e1 = e\<lparr>buf := l @ [x] @ r @ junk\<rparr>"
  have out: "putnstr (length l) (length [x]) e1 = putch [x] e1"
    by (rule putnstr_text [where junk = "r @ junk"]) (use assms(2) in \<open>simp_all add: e1_def\<close>)
  have put: "buf_put (length l) x e = Some e1"
    using e(3,4) by (simp add: buf_put_def e1_def)
  have scr: "term_bytes (l @ [y] @ r @ blanks k, length l) [x] = (l @ [x] @ r @ blanks k, length l + length [x])"
    using assms(2) by (intro term_over) simp_all
  define e2 where "e2 = (putch [x] e1)\<lparr>num := length l + 1\<rparr>"
  have "cread_add_char x False MAX_CMDBUF_SIZE e = Some e2"
    using e(1,2) put out by (simp add: cread_add_char_def e2_def) (simp add: e1_def)
  moreover have "holds e2 (l @ [x]) r"
    by (rule holdsI [where junk = junk and k = k])
      (use e scr assms(2) in \<open>simp_all add: e2_def e1_def\<close>)
  ultimately show ?thesis by (simp add: e2_def e1_def)
qed

section \<open>The editor as its user sees it\<close>

text \<open>
  The text before and behind the cursor, whether typing inserts, the lines entered before and how
  far back the walk through them has gone.
\<close>

record zline =
  before :: "u8 list"
  behind :: "u8 list"
  inserting :: bool
  past :: "u8 list list"
  steps :: nat

definition typed :: "u8 \<Rightarrow> zline \<Rightarrow> zline" where
  "typed c z =
     (if (inserting z \<or> behind z = []) \<and> MAX_CMDBUF_SIZE \<le> length (before z) + length (behind z) then z
      else z\<lparr>before := before z @ [c], behind := (if inserting z then behind z else tl (behind z))\<rparr>)"

definition recalled :: "u8 list \<Rightarrow> nat \<Rightarrow> zline \<Rightarrow> zline" where
  "recalled line k z = z\<lparr>before := line, behind := [], steps := k\<rparr>"

definition edit_key :: "u8 \<Rightarrow> zline \<Rightarrow> zline" where
  "edit_key c z =
     (if c = CTL_CH CHR ''a'' then z\<lparr>before := [], behind := before z @ behind z\<rparr>
      else if c = CTL_CH CHR ''f'' then
        (if behind z = [] then z else z\<lparr>before := before z @ [hd (behind z)], behind := tl (behind z)\<rparr>)
      else if c = CTL_CH CHR ''b'' then
        (if before z = [] then z else z\<lparr>before := butlast (before z), behind := last (before z) # behind z\<rparr>)
      else if c = CTL_CH CHR ''d'' then z\<lparr>behind := tl (behind z)\<rparr>
      else if c = CTL_CH CHR ''k'' then z\<lparr>behind := []\<rparr>
      else if c = CTL_CH CHR ''e'' then z\<lparr>before := before z @ behind z, behind := []\<rparr>
      else if c = CTL_CH CHR ''o'' then z\<lparr>inserting := \<not> inserting z\<rparr>
      else if c = CTL_CH CHR ''x'' \<or> c = CTL_CH CHR ''u'' then z\<lparr>before := [], behind := []\<rparr>
      else if c = 255 \<or> c = 127 \<or> c = 8 then z\<lparr>before := butlast (before z)\<rparr>
      else if c = CTL_CH CHR ''p'' then
        (if steps z < min (length (past z)) (HIST_MAX - 1)
         then recalled (past z ! (length (past z) - steps z - 1)) (Suc (steps z)) z else z)
      else if c = CTL_CH CHR ''n'' then
        (case steps z of
           0 \<Rightarrow> z
         | Suc j \<Rightarrow> recalled (if j = 0 then [] else past z ! (length (past z) - j)) j z)
      else typed c z)"

text \<open>The editor's state stands for a \<open>zline\<close>, and the terminal shows it.\<close>

definition good_line :: "u8 list \<Rightarrow> bool" where
  "good_line l \<longleftrightarrow> list_all visible l \<and> length l < MAX_CMDBUF_SIZE"

definition line_rep :: "editor \<Rightarrow> zline \<Rightarrow> bool" where
  "line_rep e z \<longleftrightarrow> holds e (before z) (behind z) \<and> esc_len e = 0 \<and> insert_mode e = inserting z \<and>
     hist_rep (hist e) (past z) (steps z) \<and> list_all good_line (past z)"

definition editing_key :: "u8 \<Rightarrow> bool" where
  "editing_key c \<longleftrightarrow> c \<notin> {0, BEEP, 9, 10, 13, ESC, CTL_CH CHR ''c''}"

lemmas key_defs = CTL_CH_def ESC_def BEEP_def CTL_BACKSPACE_def

lemma holds_typed:
  assumes "holds e (before z) (behind z)" and "insert_mode e = inserting z" and "visible c"
  shows "\<exists>e'. cread_add_char c (insert_mode e) MAX_CMDBUF_SIZE e = Some e' \<and>
    holds e' (before (typed c z)) (behind (typed c z)) \<and> rest_of e' = rest_of e"
proof -
  note le = holds_length [OF assms(1)]
  show ?thesis
  proof (cases "(inserting z \<or> behind z = []) \<and> MAX_CMDBUF_SIZE \<le> length (before z) + length (behind z)")
    case True
    then show ?thesis
      using holds_full [OF assms(1), of "inserting z" c] holds_bell [OF assms(1)] le assms(2)
      by (auto simp: typed_def)
  next
    case False
    then show ?thesis
      using holds_insert [OF assms(1,3)] holds_append [of e "before z" c] assms
        holds_overtype [of e "before z" "hd (behind z)" "tl (behind z)" c]
      by (cases "inserting z"; cases "behind z") (auto simp: typed_def)
  qed
qed

lemma holds_forward:
  assumes "holds e l (x # r)"
  shows "holds (putch [buf e ! num e] (e\<lparr>num := num e + 1\<rparr>)) (l @ [x]) r"
  using assms
proof (elim holdsE)
  fix junk k
  assume e: "num e = length l" "eol_num e = length l + length (x # r)" "buf e = l @ (x # r) @ junk"
    "length l + length (x # r) + length junk = MAX_CMDBUF_SIZE" "list_all visible l" "list_all visible (x # r)"
    "screen e = (l @ (x # r) @ blanks k, length l)"
  have "term_bytes (l @ [x] @ r @ blanks k, length l) [x] = (l @ [x] @ r @ blanks k, length l + length [x])"
    using e by (intro term_over) simp_all
  then show ?thesis
    by (intro holdsI [where junk = junk and k = k]) (use e in \<open>simp_all add: nth_append\<close>)
qed

lemma holds_backward:
  assumes "holds e (l @ [x]) r"
  shows "holds (putch [CTL_BACKSPACE] (e\<lparr>num := num e - 1\<rparr>)) l (x # r)"
  using assms by (elim holdsE) (rule holdsI, simp_all add: BEEP_def CTL_BACKSPACE_def)

lemma holds_recall:
  assumes "holds e l r" and "good_line s" and "move (hist e) = (Some s, h)"
  shows "\<exists>e'. recall move e = Some e' \<and> holds e' s [] \<and> esc_len e' = 0 \<and>
    insert_mode e' = insert_mode e \<and> hist e' = h"
proof -
  let ?e = "e\<lparr>esc_len := 0, hist := h\<rparr>"
  let ?c = "ERASE_TO_EOL (BEGINNING_OF_LINE ?e)"
  have "holds ?e l r" using assms(1) by (simp add: holds_def)
  then have c: "holds ?c [] []" by (rule holds_erase [OF holds_begin])
  have rest: "rest_of ?c = rest_of ?e" by simp
  define e1 where "e1 = (?c\<lparr>buf := s @ 0 # drop (length s + 1) (buf ?c)\<rparr>)\<lparr>eol_num := length s\<rparr>"
  have len: "length (buf ?c) = MAX_CMDBUF_SIZE" using c by (simp add: holds_def)
  have e1: "holds (REFRESH_TO_EOL e1) s []"
  proof -
    obtain k where scr: "screen ?c = (blanks k, 0)" and num: "num ?c = 0" using c by (auto simp: holds_def)
    have s: "list_all visible s" "length s < MAX_CMDBUF_SIZE" using assms(2) by (simp_all add: good_line_def)
    let ?j = "k - length s"
    have w: "term_bytes (blanks k, 0) s = (s @ blanks ?j, length s)"
      using s(1) by (subst term_write) (simp_all)
    have p: "putnstr 0 (length s) e1 = putch s e1"
      using putnstr_text [of e1 "[]" s "0 # drop (length s + 1) (buf ?c)"] s(1) by (simp add: e1_def)
    show ?thesis
      by (rule holdsI [where junk = "0 # drop (length s + 1) (buf ?c)" and k = "if s = [] then k else ?j"])
        (use s len num scr w p in \<open>auto simp: REFRESH_TO_EOL_def e1_def\<close>)
  qed
  have "recall move e = Some (REFRESH_TO_EOL e1)"
    using assms(2,3) len by (simp add: recall_def Let_def buf_strcpy_def e1_def good_line_def)
  moreover have "rest_of (REFRESH_TO_EOL e1) = rest_of ?e" by (simp add: e1_def rest del: rest_of_def)
  ultimately show ?thesis using e1 by (auto simp: rest_of_def)
qed

lemma line_rep_edit:
  assumes "line_rep e z" and "holds e' l r" and "rest_of e' = rest_of e"
  shows "line_rep e' (z\<lparr>before := l, behind := r\<rparr>)"
  using assms by (simp add: line_rep_def rest_of_def)

lemma line_rep_same:
  assumes "line_rep e z" and "holds e' l r" and "rest_of e' = rest_of e" and "l = before z" and "r = behind z"
  shows "line_rep e' z"
  using line_rep_edit [OF assms(1-3)] assms(4,5) by simp

lemma line_rep_typed:
  assumes "line_rep e z" and "visible c"
  shows "\<exists>e'. cread_add_char c (insert_mode e) MAX_CMDBUF_SIZE e = Some e' \<and> line_rep e' (typed c z)"
proof -
  obtain e' where e': "cread_add_char c (insert_mode e) MAX_CMDBUF_SIZE e = Some e'"
    "holds e' (before (typed c z)) (behind (typed c z))" "rest_of e' = rest_of e"
    using holds_typed [of e z c] assms by (auto simp: line_rep_def)
  have "typed c z = z\<lparr>before := before (typed c z), behind := behind (typed c z)\<rparr>"
    by (simp add: typed_def)
  then show ?thesis using e' line_rep_edit [OF assms(1) e'(2,3)] by metis
qed

lemma line_rep_recall:
  assumes "line_rep e z" and "good_line s" and "move (hist e) = (Some s, h)" and "hist_rep h (past z) k"
  shows "\<exists>e'. recall move e = Some e' \<and> line_rep e' (recalled s k z)"
  using holds_recall [of e "before z" "behind z" s move h] assms
  by (fastforce simp: line_rep_def recalled_def)

lemma line_rep_no_recall:
  assumes "line_rep e z" and "move (hist e) = (None, hist e)"
  shows "\<exists>e'. recall move e = Some e' \<and> line_rep e' z"
proof -
  have "holds (e\<lparr>esc_len := 0\<rparr>) (before z) (behind z)" using assms(1) by (simp add: line_rep_def holds_def)
  from holds_bell [OF this] show ?thesis
    using assms by (simp add: line_rep_def recall_def)
qed

lemma line_rep_up:
  assumes "line_rep e z"
  shows "\<exists>e'. recall hist_prev e = Some e' \<and> line_rep e' (edit_key (CTL_CH CHR ''p'') z)"
proof -
  have rep: "hist_rep (hist e) (past z) (steps z)" and good: "list_all good_line (past z)"
    using assms by (simp_all add: line_rep_def)
  note prev = ring.older_rep [OF rep]
  have edit: "edit_key (CTL_CH CHR ''p'') z = (if steps z < min (length (past z)) (HIST_MAX - 1)
       then recalled (past z ! (length (past z) - steps z - 1)) (Suc (steps z)) z else z)"
    by (simp add: edit_key_def key_defs)
  show ?thesis
  proof (cases "steps z < min (length (past z)) (HIST_MAX - 1)")
    case True
    let ?s = "past z ! (length (past z) - steps z - 1)"
    have "length (past z) - steps z - 1 < length (past z)" using True by linarith
    then have "good_line ?s" using good by (simp add: list_all_length)
    moreover have "hist_prev (hist e) = (Some ?s, snd (hist_prev (hist e)))"
      and "hist_rep (snd (hist_prev (hist e))) (past z) (Suc (steps z))"
      using prev True by (simp_all add: prod_eq_iff)
    ultimately show ?thesis unfolding edit if_P [OF True] by (rule line_rep_recall [OF assms])
  next
    case False
    then have "hist_prev (hist e) = (None, hist e)" using prev by simp
    then show ?thesis unfolding edit if_not_P [OF False] by (rule line_rep_no_recall [OF assms])
  qed
qed

lemma line_rep_down:
  assumes "line_rep e z"
  shows "\<exists>e'. recall hist_next e = Some e' \<and> line_rep e' (edit_key (CTL_CH CHR ''n'') z)"
proof -
  have rep: "hist_rep (hist e) (past z) (steps z)" and good: "list_all good_line (past z)"
    using assms by (simp_all add: line_rep_def)
  note nxt = ring.newer_rep [OF rep]
  have edit: "edit_key (CTL_CH CHR ''n'') z = (case steps z of
           0 \<Rightarrow> z
         | Suc j \<Rightarrow> recalled (if j = 0 then [] else past z ! (length (past z) - j)) j z)"
    by (simp add: edit_key_def key_defs)
  show ?thesis
  proof (cases "steps z")
    case 0
    then have "hist_next (hist e) = (None, hist e)" using nxt by simp
    then show ?thesis unfolding edit 0 nat.case by (rule line_rep_no_recall [OF assms])
  next
    case (Suc j)
    let ?s = "if j = 0 then [] else past z ! (length (past z) - j)"
    have "Suc j \<le> length (past z)" using rep Suc by (simp add: hist_rep_def Let_def)
    then have "good_line ?s"
      using good by (auto simp: list_all_length good_line_def MAX_CMDBUF_SIZE_def)
    moreover have "hist_next (hist e) = (Some ?s, snd (hist_next (hist e)))"
      and "hist_rep (snd (hist_next (hist e))) (past z) j"
      using nxt Suc by (simp_all add: prod_eq_iff)
    ultimately show ?thesis unfolding edit Suc nat.case by (rule line_rep_recall [OF assms])
  qed
qed

text \<open>The keys of the second switch, one by one.\<close>

lemma control_rep:
  assumes "editing_key c" and "line_rep e z"
  shows "\<exists>e'. cread_control complete listing MAX_CMDBUF_SIZE c e = More e' \<and> line_rep e' (edit_key c z)"
proof -
  have h: "holds e (before z) (behind z)" and esc: "esc_len e = 0" using assms(2) by (simp_all add: line_rep_def)
  have cnt: "num e = length (before z)" "eol_num e = length (before z) + length (behind z)"
    using h by (simp_all add: holds_def)
  consider "c = CTL_CH CHR ''a''" | "c = CTL_CH CHR ''f''" | "c = CTL_CH CHR ''b''" | "c = CTL_CH CHR ''d''"
    | "c = CTL_CH CHR ''k''" | "c = CTL_CH CHR ''e''" | "c = CTL_CH CHR ''o''"
    | "c = CTL_CH CHR ''x'' \<or> c = CTL_CH CHR ''u''" | "c = 255 \<or> c = 127 \<or> c = 8"
    | "c = CTL_CH CHR ''p''" | "c = CTL_CH CHR ''n''"
    | "c \<notin> {CTL_CH CHR ''a'', CTL_CH CHR ''f'', CTL_CH CHR ''b'', CTL_CH CHR ''d'', CTL_CH CHR ''k'',
        CTL_CH CHR ''e'', CTL_CH CHR ''o'', CTL_CH CHR ''x'', CTL_CH CHR ''u'', 255, 127, 8,
        CTL_CH CHR ''p'', CTL_CH CHR ''n''}"
    by blast
  then show ?thesis
  proof cases
    case 1
    then show ?thesis
      using line_rep_edit [OF assms(2) holds_begin [OF h]]
      by (simp add: cread_control_def edit_key_def key_defs)
  next
    case 2
    then show ?thesis
    proof (cases "behind z")
      case Nil
      then show ?thesis using 2 cnt assms(2) by (simp add: cread_control_def edit_key_def key_defs)
    next
      case (Cons x r)
      then show ?thesis
        using 2 cnt line_rep_edit [OF assms(2) holds_forward [OF h [unfolded Cons]]]
        by (simp add: cread_control_def edit_key_def key_defs)
    qed
  next
    case 3
    then show ?thesis
    proof (cases "before z" rule: rev_cases)
      case Nil
      then show ?thesis using 3 cnt assms(2) by (simp add: cread_control_def edit_key_def key_defs)
    next
      case (snoc l x)
      then show ?thesis
        using 3 cnt line_rep_edit [OF assms(2) holds_backward [OF h [unfolded snoc]]]
        by (simp add: cread_control_def edit_key_def key_defs)
    qed
  next
    case 4
    then show ?thesis
    proof (cases "behind z")
      case Nil
      then have "line_rep e (z\<lparr>behind := []\<rparr>)" using assms(2) by (simp add: line_rep_def)
      with Nil show ?thesis
        using 4 assms(2) delete_here_end [OF h [unfolded Nil]]
        by (simp add: cread_control_def edit_key_def key_defs go_on_def)
    next
      case (Cons x r)
      obtain e' where e': "delete_here e = Some e'" "holds e' (before z) r" "rest_of e' = rest_of e"
        using holds_delete_here [OF h [unfolded Cons]] by blast
      then show ?thesis
        using 4 Cons line_rep_edit [OF assms(2) e'(2,3)]
        by (simp add: cread_control_def edit_key_def key_defs go_on_def)
    qed
  next
    case 5
    then show ?thesis
      using line_rep_edit [OF assms(2) holds_erase [OF h]]
      by (simp add: cread_control_def edit_key_def key_defs)
  next
    case 6
    then show ?thesis
      using line_rep_edit [OF assms(2) holds_refresh [OF h]]
      by (simp add: cread_control_def edit_key_def key_defs)
  next
    case 7
    then show ?thesis
      using assms(2) by (simp add: cread_control_def edit_key_def key_defs line_rep_def holds_def)
  next
    case 8
    then show ?thesis
      using line_rep_edit [OF assms(2) holds_erase [OF holds_begin [OF h]]]
      by (elim disjE) (simp_all add: cread_control_def edit_key_def key_defs)
  next
    case 9
    then have run9: "cread_control complete listing MAX_CMDBUF_SIZE c e = More e'" if "rub_out e = Some e'" for e'
      using that by (elim disjE) (simp_all add: cread_control_def key_defs go_on_def)
    show ?thesis
    proof (cases "before z" rule: rev_cases)
      case Nil
      have rep: "line_rep e (z\<lparr>before := butlast (before z)\<rparr>)"
        using assms(2) Nil by (simp add: line_rep_def)
      have key: "edit_key c z = z\<lparr>before := butlast (before z)\<rparr>"
        using 9 by (auto simp: edit_key_def key_defs)
      have run: "cread_control complete listing MAX_CMDBUF_SIZE c e = More e"
        by (rule run9) (rule rub_out_start [OF h [unfolded Nil]])
      show ?thesis
        unfolding key by (rule exI, rule conjI, rule run, rule rep)
    next
      case (snoc l x)
      obtain e' where e': "rub_out e = Some e'" "holds e' l (behind z)" "rest_of e' = rest_of e"
        using holds_rub_out [OF h [unfolded snoc]] by blast
      have rep: "line_rep e' (z\<lparr>before := l, behind := behind z\<rparr>)"
        using assms(2) e'(2,3) by (rule line_rep_edit)
      have key: "edit_key c z = z\<lparr>before := l, behind := behind z\<rparr>"
        using 9 snoc by (auto simp: edit_key_def key_defs)
      have run: "cread_control complete listing MAX_CMDBUF_SIZE c e = More e'"
        using e'(1) by (rule run9)
      show ?thesis
        unfolding key by (rule exI, rule conjI, rule run, rule rep)
    qed
  next
    case 10
    then show ?thesis
      using line_rep_up [OF assms(2)] by (auto simp: cread_control_def key_defs go_on_def)
  next
    case 11
    then show ?thesis
      using line_rep_down [OF assms(2)] by (auto simp: cread_control_def key_defs go_on_def)
  next
    case 12
    then have "visible c" using assms(1) by (auto simp: visible_def editing_key_def key_defs)
    moreover have "cread_control complete listing MAX_CMDBUF_SIZE c e =
        go_on (cread_add_char c (insert_mode e) MAX_CMDBUF_SIZE e)"
      using 12 assms(1) by (simp add: cread_control_def editing_key_def)
    moreover have "edit_key c z = typed c z"
      using 12 by (simp add: edit_key_def)
    ultimately show ?thesis
      using line_rep_typed [OF assms(2)] by (fastforce simp: go_on_def)
  qed
qed

section \<open>A line as it is typed\<close>

text \<open>A key, or an arrow or home key, which sends three bytes.\<close>

datatype stroke = Key u8 | Arrow u8

fun bytes_of :: "stroke \<Rightarrow> u8 list" where
  "bytes_of (Key c) = [c]"
| "bytes_of (Arrow c) = [ESC, chr8 CHR ''['', c]"

fun good_stroke :: "stroke \<Rightarrow> bool" where
  "good_stroke (Key c) \<longleftrightarrow> editing_key c"
| "good_stroke (Arrow c) \<longleftrightarrow> arrow_key c \<noteq> None"

fun edit_stroke :: "zline \<Rightarrow> stroke \<Rightarrow> zline" where
  "edit_stroke z (Key c) = edit_key c z"
| "edit_stroke z (Arrow c) = (case arrow_key c of None \<Rightarrow> z | Some k \<Rightarrow> edit_key k z)"

lemma arrow_editing: "arrow_key c = Some k \<Longrightarrow> editing_key k"
  by (auto simp: arrow_key_def editing_key_def key_defs split: if_splits)

lemma line_rep_esc: "line_rep e z \<Longrightarrow> line_rep (e\<lparr>esc_save := q, esc_len := 0\<rparr>) z"
  by (simp add: line_rep_def holds_def)

lemma stroke_rep:
  assumes "good_stroke s" and "line_rep e z"
  shows "\<exists>e'. line_rep e' (edit_stroke z s) \<and>
    (\<forall>ks. cread_loop complete listing MAX_CMDBUF_SIZE (bytes_of s @ ks) e =
      cread_loop complete listing MAX_CMDBUF_SIZE ks e')"
proof (cases s)
  case (Key c)
  then have c: "editing_key c" using assms(1) by simp
  then have "cread_key complete listing MAX_CMDBUF_SIZE c e = cread_control complete listing MAX_CMDBUF_SIZE c e"
    using assms(2) by (simp add: cread_key_def line_rep_def editing_key_def)
  then show ?thesis
    using control_rep [OF c assms(2), of complete listing] by (auto simp: Key)
next
  case (Arrow c)
  then obtain k where k: "arrow_key c = Some k" using assms(1) by auto
  have esc: "esc_len e = 0" using assms(2) by (simp add: line_rep_def)
  let ?e1 = "e\<lparr>esc_save := [ESC], esc_len := 1\<rparr>"
  let ?e2 = "e\<lparr>esc_save := [ESC, chr8 CHR ''['']\<rparr>"
  have "cread_key complete listing MAX_CMDBUF_SIZE ESC e = More ?e1"
    using esc by (simp add: cread_key_def cread_control_def key_defs)
  moreover have "cread_key complete listing MAX_CMDBUF_SIZE (chr8 CHR ''['') ?e1 =
      More (e\<lparr>esc_save := [ESC, chr8 CHR ''[''], esc_len := 2\<rparr>)"
    by (simp add: cread_key_def)
  moreover have "c \<noteq> 10" "c \<noteq> 13" using k by (auto simp: arrow_key_def)
  then have "cread_key complete listing MAX_CMDBUF_SIZE c (e\<lparr>esc_save := [ESC, chr8 CHR ''[''], esc_len := 2\<rparr>) =
      cread_control complete listing MAX_CMDBUF_SIZE k (e\<lparr>esc_save := [ESC, chr8 CHR ''[''], esc_len := 0\<rparr>)"
    using k by (simp add: cread_key_def)
  ultimately show ?thesis
    using control_rep [OF arrow_editing [OF k] line_rep_esc [OF assms(2), of "[ESC, chr8 CHR ''['']"], of complete listing]
    by (auto simp: Arrow k)
qed

lemma strokes_rep:
  assumes "list_all good_stroke ss" and "line_rep e z"
  shows "\<exists>e'. line_rep e' (foldl edit_stroke z ss) \<and>
    (\<forall>ks. cread_loop complete listing MAX_CMDBUF_SIZE (concat (map bytes_of ss) @ ks) e =
      cread_loop complete listing MAX_CMDBUF_SIZE ks e')"
  using assms
proof (induction ss arbitrary: e z)
  case Nil
  then show ?case by auto
next
  case (Cons s ss)
  then obtain e1 where e1: "line_rep e1 (edit_stroke z s)"
    "\<And>ks. cread_loop complete listing MAX_CMDBUF_SIZE (bytes_of s @ ks) e =
      cread_loop complete listing MAX_CMDBUF_SIZE ks e1"
    using stroke_rep [of s e z complete listing] by auto
  from Cons obtain e2 where "line_rep e2 (foldl edit_stroke (edit_stroke z s) ss)"
    "\<And>ks. cread_loop complete listing MAX_CMDBUF_SIZE (concat (map bytes_of ss) @ ks) e1 =
      cread_loop complete listing MAX_CMDBUF_SIZE ks e2"
    using Cons.IH [OF _ e1(1)] by auto
  with e1(2) show ?case by auto
qed

definition new_line :: "u8 list list \<Rightarrow> zline" where
  "new_line ls = \<lparr>before = [], behind = [], inserting = True, past = ls, steps = 0\<rparr>"

definition line_text :: "zline \<Rightarrow> u8 list" where
  "line_text z = before z @ behind z"

lemma past_typed [simp]: "past (typed c z) = past z"
  by (simp add: typed_def)

lemma past_edit_key [simp]: "past (edit_key c z) = past z"
  by (simp add: edit_key_def recalled_def split: nat.split)

lemma past_edit_stroke [simp]: "past (edit_stroke z s) = past z"
  by (cases s) (simp_all split: option.split)

lemma past_edits [simp]: "past (foldl edit_stroke z ss) = past z"
  by (induction ss arbitrary: z) simp_all

abbreviation fresh_editor :: "u8 list \<Rightarrow> history \<Rightarrow> editor" where
  "fresh_editor buffer h \<equiv> \<lparr>buf = buffer, num = 0, eol_num = 0, insert_mode = True, esc_len = 0,
     esc_save = [], hist = h, tty = []\<rparr>"

lemma line_rep_fresh:
  assumes "length buffer = MAX_CMDBUF_SIZE" and "hist_rep h ls 0" and "list_all good_line ls"
  shows "line_rep (fresh_editor buffer h) (new_line ls)"
  using assms by (simp add: line_rep_def new_line_def holds_def screen_def)

lemma cread_line_entered:
  assumes "list_all good_stroke ss" and "length buffer = MAX_CMDBUF_SIZE" and "buffer ! 0 = 0"
    and "hist_rep h ls 0" and "list_all good_line ls"
  shows "\<exists>e. line_rep e (foldl edit_stroke (new_line ls) ss) \<and>
    cread_line complete listing buffer h (concat (map bytes_of ss) @ 13 # ks) =
      Some (case cread_finish (putch [10] e) of None \<Rightarrow> Outside | Some e \<Rightarrow> Entered e)"
proof -
  have "takeWhile (\<lambda>c. c \<noteq> 0) buffer = []" using assms(2,3) by (cases buffer) auto
  moreover obtain e where "line_rep e (foldl edit_stroke (new_line ls) ss)"
    "\<And>ks. cread_loop complete listing MAX_CMDBUF_SIZE (concat (map bytes_of ss) @ ks) (fresh_editor buffer h) =
      cread_loop complete listing MAX_CMDBUF_SIZE ks e"
    using strokes_rep [OF assms(1) line_rep_fresh [OF assms(2,4,5)]] by blast
  ultimately show ?thesis by (auto simp: cread_line_def cread_key_def)
qed

lemma cread_line_text:
  assumes "list_all good_stroke ss" and "length buffer = MAX_CMDBUF_SIZE" and "buffer ! 0 = 0"
    and "hist_rep h ls 0" and "list_all good_line ls"
    and s: "s = line_text (foldl edit_stroke (new_line ls) ss)"
  shows "\<exists>e junk k. eol_num e = length s \<and> buf e = s @ junk \<and> length s + length junk = MAX_CMDBUF_SIZE \<and>
    list_all visible s \<and> hist_rep (hist e) ls k \<and>
    cread_line complete listing buffer h (concat (map bytes_of ss) @ 13 # ks) =
      Some (case cread_finish e of None \<Rightarrow> Outside | Some e \<Rightarrow> Entered e)"
proof -
  obtain e where e: "line_rep e (foldl edit_stroke (new_line ls) ss)"
    "cread_line complete listing buffer h (concat (map bytes_of ss) @ 13 # ks) =
      Some (case cread_finish (putch [10] e) of None \<Rightarrow> Outside | Some e \<Rightarrow> Entered e)"
    using cread_line_entered [OF assms(1-5)] by blast
  then show ?thesis
    by (intro exI [of _ "putch [10] e"]) (auto simp: s line_text_def line_rep_def holds_def new_line_def)
qed

lemma cread_finish_rep:
  assumes e: "eol_num e = length s" "buf e = s @ junk" "length s + length junk = MAX_CMDBUF_SIZE"
    and vis: "list_all visible s" and hist: "hist_rep (hist e) ls k"
  shows "if length s < MAX_CMDBUF_SIZE
    then \<exists>e'. cread_finish e = Some e' \<and> takeWhile (\<lambda>c. c \<noteq> 0) (buf e') = s \<and>
      eol_num e' = length s \<and>
      hist_rep (hist e') (if s \<noteq> [] \<and> hd s \<noteq> chr8 CHR ''!'' then ls @ [s] else ls) 0
    else cread_finish e = None"
proof -
  show ?thesis
  proof (cases "length s < MAX_CMDBUF_SIZE")
    case True
    then obtain y junk' where junk: "junk = y # junk'" using e(3) by (cases junk) auto
    let ?b = "s @ 0 # junk'"
    have put: "buf_put (eol_num e) 0 e = Some (e\<lparr>buf := ?b\<rparr>)"
      using e junk by (simp add: buf_put_def list_update_append)
    have line: "takeWhile (\<lambda>c. c \<noteq> 0) ?b = s" using no_nul [OF vis] by simp
    define h where "h = (if s \<noteq> [] \<and> hd s \<noteq> chr8 CHR ''!'' then cread_add_to_hist s (hist e) else hist e)"
    have "cread_finish e = Some ((e\<lparr>buf := ?b\<rparr>)\<lparr>hist := h\<lparr>hist_cur := hist_add_idx h\<rparr>\<rparr>)"
      unfolding cread_finish_def put h_def by (simp add: line Let_def del: append_assoc)
    moreover have "hist_rep (h\<lparr>hist_cur := hist_add_idx h\<rparr>)
        (if s \<noteq> [] \<and> hd s \<noteq> chr8 CHR ''!'' then ls @ [s] else ls) 0"
      using hist_rep_add [OF hist, of s] hist
      by (auto simp: h_def hist_rep_def Let_def)
    ultimately show ?thesis using True e(1) line by auto
  next
    case False
    then have "\<not> eol_num e < length (buf e)" using e by (cases junk) simp_all
    then show ?thesis using False by (simp add: cread_finish_def buf_put_def)
  qed
qed

text \<open>
  C14: the editor is the two halves of a line: whatever editing keys are pressed, in any order, the
  buffer holds the text that the keys mean, no byte outside the buffer is written, and the terminal
  shows the text, nothing else, with the cursor where it belongs.
\<close>

theorem editor_refines_line:
  assumes "list_all good_stroke ss" and "line_rep e z"
  shows "\<exists>e'. (\<forall>ks. cread_loop complete listing MAX_CMDBUF_SIZE (concat (map bytes_of ss) @ ks) e =
      cread_loop complete listing MAX_CMDBUF_SIZE ks e') \<and>
    take (eol_num e') (buf e') = line_text (foldl edit_stroke z ss) \<and>
    num e' = length (before (foldl edit_stroke z ss)) \<and> length (buf e') = MAX_CMDBUF_SIZE \<and>
    (\<exists>k. term_bytes ([], 0) (tty e') =
      (line_text (foldl edit_stroke z ss) @ blanks k, length (before (foldl edit_stroke z ss))))"
proof -
  obtain e' where e': "line_rep e' (foldl edit_stroke z ss)"
    "\<forall>ks. cread_loop complete listing MAX_CMDBUF_SIZE (concat (map bytes_of ss) @ ks) e =
      cread_loop complete listing MAX_CMDBUF_SIZE ks e'"
    using strokes_rep [OF assms] by blast
  then have "holds e' (before (foldl edit_stroke z ss)) (behind (foldl edit_stroke z ss))"
    by (simp add: line_rep_def)
  then show ?thesis
    using e'(2) by (intro exI [of _ e']) (auto simp: line_text_def holds_def screen_def)
qed

definition blank_buffer :: "u8 list" where
  "blank_buffer = replicate MAX_CMDBUF_SIZE 0"

theorem editor_refines_line_witness:
  "\<exists>e' :: editor. take (eol_num e') (buf e') = cstr ''ab'' \<and> num e' = 1"
proof -
  let ?ss = "[Key (chr8 CHR ''b''), Arrow (chr8 CHR ''D''), Key (chr8 CHR ''a'')]"
  let ?e = "fresh_editor blank_buffer (hist_after [])"
  have rep: "line_rep ?e (new_line [])"
    by (rule line_rep_fresh [OF _ hist_rep_after]) (simp_all add: blank_buffer_def)
  have good: "list_all good_stroke ?ss"
    by (simp add: editing_key_def arrow_key_def key_defs)
  have z: "foldl edit_stroke (new_line []) ?ss =
      \<lparr>before = cstr ''a'', behind = cstr ''b'', inserting = True, past = [], steps = 0\<rparr>"
    by (simp add: new_line_def edit_key_def arrow_key_def key_defs typed_def MAX_CMDBUF_SIZE_def)
  obtain e' :: editor where "take (eol_num e') (buf e') = line_text (foldl edit_stroke (new_line []) ?ss)"
    "num e' = length (before (foldl edit_stroke (new_line []) ?ss))"
    using editor_refines_line [OF good rep, of "\<lambda>b n. NotHandled" "\<lambda>cs. []"]
    by blast
  then show ?thesis unfolding z by (intro exI [of _ e']) (simp add: line_text_def)
qed

text \<open>
  A line ended with Enter is returned as the text the keys mean, ended with a NUL, and joins the
  history unless it is empty or starts with an exclamation mark; the next walk starts from the end.
\<close>

theorem cread_line_returns:
  assumes "list_all good_stroke ss" and "length buffer = MAX_CMDBUF_SIZE" and "buffer ! 0 = 0"
    and "hist_rep h ls 0" and "list_all good_line ls"
    and "line = line_text (foldl edit_stroke (new_line ls) ss)"
    and "length line < MAX_CMDBUF_SIZE"
  shows "\<exists>e. cread_line complete listing buffer h (concat (map bytes_of ss) @ 13 # ks) = Some (Entered e) \<and>
    takeWhile (\<lambda>c. c \<noteq> 0) (buf e) = line \<and> eol_num e = length line \<and>
    hist_rep (hist e) (if line \<noteq> [] \<and> hd line \<noteq> chr8 CHR ''!'' then ls @ [line] else ls) 0"
proof -
  obtain e junk k where e: "eol_num e = length line" "buf e = line @ junk" "length line + length junk = MAX_CMDBUF_SIZE"
    "list_all visible line" "hist_rep (hist e) ls k"
    "cread_line complete listing buffer h (concat (map bytes_of ss) @ 13 # ks) =
      Some (case cread_finish e of None \<Rightarrow> Outside | Some e \<Rightarrow> Entered e)"
    using cread_line_text [OF assms(1-6)] by blast
  show ?thesis
    using cread_finish_rep [OF e(1-5)] e(6) assms(7) by auto
qed

theorem cread_line_returns_witness:
  "\<exists>e. cread_line (\<lambda>b n. NotHandled) (\<lambda>cs. []) blank_buffer (hist_after [])
      (cstr ''b'' @ [ESC] @ cstr ''[D'' @ cstr ''a'' @ [13]) = Some (Entered e) \<and> eol_num e = 2"
proof -
  let ?ss = "[Key (chr8 CHR ''b''), Arrow (chr8 CHR ''D''), Key (chr8 CHR ''a'')]"
  have good: "list_all good_stroke ?ss"
    by (simp add: editing_key_def arrow_key_def key_defs)
  have z: "cstr ''ab'' = line_text (foldl edit_stroke (new_line []) ?ss)"
    by (simp add: new_line_def edit_key_def arrow_key_def key_defs typed_def MAX_CMDBUF_SIZE_def line_text_def)
  have "concat (map bytes_of ?ss) @ 13 # [] = cstr ''b'' @ [ESC] @ cstr ''[D'' @ cstr ''a'' @ [13]"
    by (simp add: ESC_def)
  then show ?thesis
    using cread_line_returns [OF good _ _ hist_rep_after _ z, of blank_buffer "\<lambda>b n. NotHandled" "\<lambda>cs. []" "[]"]
    by (auto simp: blank_buffer_def MAX_CMDBUF_SIZE_def)
qed

text \<open>
  C16: the editor lets a line grow to 256 characters, the whole buffer, and Enter then writes the NUL
  one byte behind it.
\<close>

theorem cread_line_full_overruns:
  assumes "list_all good_stroke ss" and "length buffer = MAX_CMDBUF_SIZE" and "buffer ! 0 = 0"
    and "hist_rep h ls 0" and "list_all good_line ls"
    and "length (line_text (foldl edit_stroke (new_line ls) ss)) = MAX_CMDBUF_SIZE"
  shows "cread_line complete listing buffer h (concat (map bytes_of ss) @ 13 # ks) = Some Outside"
proof -
  let ?s = "line_text (foldl edit_stroke (new_line ls) ss)"
  obtain e junk k where e: "eol_num e = length ?s" "buf e = ?s @ junk" "length ?s + length junk = MAX_CMDBUF_SIZE"
    "list_all visible ?s" "hist_rep (hist e) ls k"
    "cread_line complete listing buffer h (concat (map bytes_of ss) @ 13 # ks) =
      Some (case cread_finish e of None \<Rightarrow> Outside | Some e \<Rightarrow> Entered e)"
    using cread_line_text [OF assms(1-5) refl] by blast
  show ?thesis
    using cread_finish_rep [OF e(1-5)] e(6) assms(6) by simp
qed

lemma typing_a:
  "n \<le> MAX_CMDBUF_SIZE \<Longrightarrow> foldl edit_stroke (new_line []) (replicate n (Key 97)) =
     \<lparr>before = replicate n 97, behind = [], inserting = True, past = [], steps = 0\<rparr>"
proof (induction n)
  case (Suc n)
  have "foldl edit_stroke (new_line []) (replicate (Suc n) (Key 97)) =
      edit_key 97 (foldl edit_stroke (new_line []) (replicate n (Key 97)))"
    by (simp only: replicate_append_same [symmetric] replicate_Suc foldl_append foldl.simps edit_stroke.simps)
  also have "\<dots> = \<lparr>before = replicate n 97 @ [97], behind = [], inserting = True, past = [], steps = 0\<rparr>"
    using Suc by (simp add: edit_key_def key_defs typed_def)
  finally show ?case by (simp only: replicate_append_same [symmetric] replicate_Suc)
qed (simp add: new_line_def)

theorem cread_line_full_overruns_witness:
  "cread_line (\<lambda>b n. NotHandled) (\<lambda>cs. []) blank_buffer (hist_after [])
     (replicate MAX_CMDBUF_SIZE 97 @ [13]) = Some Outside"
proof -
  let ?ss = "replicate MAX_CMDBUF_SIZE (Key 97)"
  have "list_all good_stroke ?ss"
    by (simp add: list_all_iff editing_key_def key_defs)
  moreover have "concat (map bytes_of ?ss) = replicate MAX_CMDBUF_SIZE 97"
    by (simp add: concat_replicate_single map_replicate_const)
  moreover have "length (line_text (foldl edit_stroke (new_line []) ?ss)) = MAX_CMDBUF_SIZE"
    by (simp add: typing_a line_text_def)
  ultimately show ?thesis
    using cread_line_full_overruns [of ?ss blank_buffer "hist_after []" "[]" "\<lambda>b n. NotHandled" "\<lambda>cs. []" "[]"]
      hist_rep_after by (simp add: blank_buffer_def MAX_CMDBUF_SIZE_def)
qed

section \<open>The plain reader\<close>

text \<open>The column behind a text.\<close>

definition column :: "nat \<Rightarrow> u8 list \<Rightarrow> nat" where
  "column = foldl (\<lambda>c b. if b = chr8 CHR 0x09 then c + tab_width c else c + 1)"

lemma column_simps [simp]:
  "column c [] = c" "column c (s @ t) = column (column c s) t"
  "column c (b # s) = column (if b = chr8 CHR 0x09 then c + tab_width c else c + 1) s"
  by (simp_all add: column_def)

lemma column_ge: "c \<le> column c s"
proof (induction s arbitrary: c)
  case (Cons b s)
  then show ?case using le_trans [OF _ Cons.IH [of "c + tab_width c"], of c] le_trans [OF _ Cons.IH [of "c + 1"], of c]
    by simp
qed simp

lemma column_no_tab: "chr8 CHR 0x09 \<notin> set s \<Longrightarrow> column c s = c + length s"
  by (induction s arbitrary: c) auto

lemma retype_column: "snd (retype s c) = column c s"
  by (induction s arbitrary: c) (auto simp: case_prod_beta Let_def)

definition plain_ok :: "nat \<Rightarrow> plain_reader \<Rightarrow> bool" where
  "plain_ok plen r \<longleftrightarrow> length (typed_text r) \<le> CONFIG_SYS_CBSIZE - 2 \<and> col r = column plen (typed_text r)"

lemma plain_ok_delete_char: "plain_ok plen r \<Longrightarrow> plain_ok plen (delete_char plen r)"
proof (cases "typed_text r" rule: rev_cases)
  case Nil
  then show "plain_ok plen r \<Longrightarrow> ?thesis" by (simp add: delete_char_def)
next
  case (snoc s b)
  assume "plain_ok plen r"
  then show ?thesis
    using snoc retype_column [of s plen] column_ge [of plen s] column_ge [of plen "s @ [b]"]
    by (auto simp: plain_ok_def delete_char_def Let_def case_prod_beta min_absorb2)
qed

lemma plain_ok_delete_word: "plain_ok plen r \<Longrightarrow> plain_ok plen (delete_word plen r)"
proof (induction plen r rule: delete_word.induct)
  case (1 plen r)
  then show ?case
    using plain_ok_delete_char [OF "1.prems"] by (subst delete_word.simps) (auto simp: Let_def)
qed

text \<open>
  C18: the reader used before relocation never has more than 254 characters in its 256-byte buffer, so
  that the NUL fits behind them, and its column counter is the column the text reaches, tabs counted
  to the next multiple of eight; this is kept by every key when completion adds what fits and no tabs.
\<close>

theorem plain_reader_invariant:
  assumes "plain_ok plen r"
    and "\<And>b n s exact. complete b n = Extend s exact \<Longrightarrow>
      n + length s \<le> CONFIG_SYS_CBSIZE - 2 \<and> chr8 CHR 0x09 \<notin> set s"
    and "plain_key complete listing plen c r = PlainMore r'"
  shows "plain_ok plen r'"
proof -
  have le: "plen \<le> col r" and len: "length (typed_text r) \<le> CONFIG_SYS_CBSIZE - 2"
    and col: "col r = column plen (typed_text r)"
    using assms(1) column_ge by (simp_all add: plain_ok_def)
  note deletes = plain_ok_delete_char [OF assms(1)] plain_ok_delete_word [OF assms(1)]
  show ?thesis
  proof (cases "complete (typed_text r) (length (typed_text r))")
    case (Extend s exact)
    then have "length (typed_text r) + length s \<le> CONFIG_SYS_CBSIZE - 2" "chr8 CHR 0x09 \<notin> set s"
      using assms(2) by blast+
    then show ?thesis
      using assms(1,3) Extend deletes le
      by (auto simp: plain_key_def plain_ok_def column_no_tab min_absorb2 split: if_splits)
  qed (use assms(1,3) deletes le in \<open>auto simp: plain_key_def plain_ok_def min_absorb2 split: if_splits\<close>)
qed

theorem plain_reader_invariant_witness:
  "plain_ok 2 \<lparr>typed_text = [chr8 CHR 0x09], col = 8, sent = replicate 6 (chr8 CHR '' '')\<rparr>"
  by (rule plain_reader_invariant [of 2 "\<lparr>typed_text = [], col = 2, sent = []\<rparr>" "\<lambda>b n. NotHandled"
        "\<lambda>cs. []" "chr8 CHR 0x09"])
    (simp_all add: plain_ok_def plain_key_def CONFIG_SYS_CBSIZE_def tab_seq_def tab_width_def)

end
