(* ===== verification/Net.thy ===== *)
theory Net
  imports Environment
begin

text \<open>
  The network core (\<open>net/net.c\<close>, \<open>include/net.h\<close>, \<open>net/eth.c\<close>): addresses and their text, the
  Internet checksum, building and taking apart Ethernet, ARP, IP, ICMP and UDP headers, address
  resolution with its waiting packet, and the dispatch of a received frame to the packet handler.
  The board has no CDP, no multicast, no IP defragmentation and no UDP checksums configured.
  A frame is the list of its bytes; an \<open>IPaddr_t\<close> is the word the processor reads from the four bytes
  on the wire, so that it is in network byte order.
\<close>

section \<open>Bytes on the wire\<close>

text \<open>Swapping the bytes of a short: \<open>htons\<close> and \<open>ntohs\<close>.\<close>

definition htons :: "u16 \<Rightarrow> u16" where
  "htons x = push_bit 8 x OR drop_bit 8 x"

text \<open>A 16-bit field that the code reads with \<open>ntohs\<close> and writes with \<open>htons\<close>.\<close>

definition be16 :: "u16 \<Rightarrow> u8 list" where
  "be16 x = [ucast (drop_bit 8 x), ucast x]"

definition get16 :: "u8 list \<Rightarrow> nat \<Rightarrow> u16" where
  "get16 p i = push_bit 8 (ucast (p ! i)) OR ucast (p ! (i + 1))"

text \<open>A 16-bit field as the processor loads it.\<close>

definition load16 :: "u8 \<Rightarrow> u8 \<Rightarrow> u16" where
  "load16 a b = ucast a OR push_bit 8 (ucast b)"

definition store16 :: "u16 \<Rightarrow> u8 list" where
  "store16 x = [ucast x, ucast (drop_bit 8 x)]"

text \<open>\<open>NetReadIP\<close>, and the bytes that \<open>NetWriteIP\<close> and \<open>NetCopyIP\<close> store.\<close>

definition NetReadIP :: "u8 list \<Rightarrow> nat \<Rightarrow> u32" where
  "NetReadIP p i = ucast (p ! i) OR push_bit 8 (ucast (p ! (i + 1)))
     OR push_bit 16 (ucast (p ! (i + 2))) OR push_bit 24 (ucast (p ! (i + 3)))"

definition NetWriteIP :: "u32 \<Rightarrow> u8 list" where
  "NetWriteIP ip = word32_bytes ip"

definition slice :: "u8 list \<Rightarrow> nat \<Rightarrow> nat \<Rightarrow> u8 list" where
  "slice p i n = take n (drop i p)"

definition ETHER_HDR_SIZE :: nat where "ETHER_HDR_SIZE = 14"
definition E802_HDR_SIZE :: nat where "E802_HDR_SIZE = 22"
definition VLAN_ETHER_HDR_SIZE :: nat where "VLAN_ETHER_HDR_SIZE = 18"
definition IP_HDR_SIZE :: nat where "IP_HDR_SIZE = 28"
definition IP_HDR_SIZE_NO_UDP :: nat where "IP_HDR_SIZE_NO_UDP = 20"
definition ARP_HDR_SIZE :: nat where "ARP_HDR_SIZE = 28"
definition PROT_IP :: u16 where "PROT_IP = 0x0800"
definition PROT_ARP :: u16 where "PROT_ARP = 0x0806"
definition PROT_RARP :: u16 where "PROT_RARP = 0x8035"
definition PROT_VLAN :: u16 where "PROT_VLAN = 0x8100"
definition VLAN_NONE :: u16 where "VLAN_NONE = 4095"
definition VLAN_IDMASK :: u16 where "VLAN_IDMASK = 0x0fff"
definition IP_OFFS :: u16 where "IP_OFFS = 0x1fff"
definition IP_FLAGS_DFRAG :: u16 where "IP_FLAGS_DFRAG = 0x4000"
definition IP_FLAGS_MFRAG :: u16 where "IP_FLAGS_MFRAG = 0x2000"
definition PKTSIZE_ALIGN :: nat where "PKTSIZE_ALIGN = 1536"

definition NetBcastAddr :: "u8 list" where
  "NetBcastAddr = replicate 6 0xff"

definition NetEtherNullAddr :: "u8 list" where
  "NetEtherNullAddr = replicate 6 0"

section \<open>The checksum\<close>

text \<open>
  The sum of the 16-bit words in the processor's byte order; the callers keep the words inside the
  buffer.
\<close>

fun cksum_loop :: "nat \<Rightarrow> u8 list \<Rightarrow> u32 \<Rightarrow> u32" where
  "cksum_loop (Suc len) (a # b # p) xsum = cksum_loop len p (xsum + ucast (load16 a b))"
| "cksum_loop len p xsum = xsum"

definition NetCksum :: "u8 list \<Rightarrow> int \<Rightarrow> u32" where
  "NetCksum ptr len =
     (let xsum = cksum_loop (nat len) ptr 0;
          xsum = (xsum AND 0xffff) + drop_bit 16 xsum;
          xsum = (xsum AND 0xffff) + drop_bit 16 xsum
      in xsum AND 0xffff)"

definition NetCksumOk :: "u8 list \<Rightarrow> int \<Rightarrow> bool" where
  "NetCksumOk ptr len \<longleftrightarrow> (NetCksum ptr len + 1) AND 0xfffe = 0"

text \<open>The bytes stored by \<open>ip_sum = ~NetCksum (...)\<close>.\<close>

definition cksum_field :: "u8 list \<Rightarrow> int \<Rightarrow> u8 list" where
  "cksum_field ptr len = store16 (ucast (NOT (NetCksum ptr len)))"

section \<open>The state\<close>

datatype loop_state = NETLOOP_CONTINUE | NETLOOP_RESTART | NETLOOP_SUCCESS | NETLOOP_FAIL

datatype rx_handler = NoHandler | StartAgainHandler | PingHandler | TftpHandler | RarpHandler

datatype timeout_handler = StartAgainTimeout | PingTimeout | TftpTimeout | RarpTimeout

text \<open>The arrays that a pointer to an Ethernet address can mean.\<close>

datatype mac_ref = ServerEther | BcastAddr | PingMac

text \<open>
  The globals of \<open>net.c\<close>. \<open>NetArpWaitTx\<close> is the waiting packet (\<open>NetArpWaitTxPacket\<close> and its size),
  \<open>ping_mac\<close> the static array of \<open>PingSend\<close>, \<open>eth_count\<close> and \<open>eth_current\<close> the ring of devices,
  \<open>env_var\<close> what \<open>getenv\<close> answers, \<open>clock\<close> the timer, \<open>sent\<close> the frames given to \<open>eth_send\<close>.
\<close>

record net =
  NetOurEther :: "u8 list"
  NetServerEther :: "u8 list"
  NetOurIP :: u32
  NetServerIP :: u32
  NetOurSubnetMask :: u32
  NetOurGatewayIP :: u32
  NetOurVLAN :: u16
  NetOurNativeVLAN :: u16
  NetIPID :: u32
  NetArpWaitPacketIP :: u32
  NetArpWaitReplyIP :: u32
  NetArpWaitPacketMAC :: "mac_ref option"
  NetArpWaitTx :: "u8 list"
  NetArpWaitTry :: nat
  NetArpWaitTimerStart :: u32
  ping_mac :: "u8 list"
  NetPingIP :: u32
  PingSeqNo :: u16
  NetState :: loop_state
  packetHandler :: rx_handler
  timeHandler :: "timeout_handler option"
  timeStart :: u32
  timeDelta :: u32
  NetTryCount :: u32
  NetRestarted :: bool
  NetDevExists :: bool
  NetRestartWrap :: bool
  eth_count :: nat
  eth_current :: nat
  first_failed :: "nat option"
  env_var :: "u8 list \<Rightarrow> u8 list option"
  clock :: u32
  sent :: "u8 list list"

fun mac_of :: "'a net_scheme \<Rightarrow> mac_ref \<Rightarrow> u8 list" where
  "mac_of n ServerEther = NetServerEther n"
| "mac_of n BcastAddr = NetBcastAddr"
| "mac_of n PingMac = ping_mac n"

fun set_mac :: "mac_ref \<Rightarrow> u8 list \<Rightarrow> 'a net_scheme \<Rightarrow> 'a net_scheme" where
  "set_mac ServerEther a n = n\<lparr>NetServerEther := a\<rparr>"
| "set_mac BcastAddr a n = n"
| "set_mac PingMac a n = n\<lparr>ping_mac := a\<rparr>"

definition eth_send :: "u8 list \<Rightarrow> 'a net_scheme \<Rightarrow> 'a net_scheme" where
  "eth_send frame n = n\<lparr>sent := sent n @ [frame]\<rparr>"

definition NetSetHandler :: "rx_handler \<Rightarrow> 'a net_scheme \<Rightarrow> 'a net_scheme" where
  "NetSetHandler f n = n\<lparr>packetHandler := f\<rparr>"

definition NetSetTimeout :: "u32 \<Rightarrow> timeout_handler \<Rightarrow> 'a net_scheme \<Rightarrow> 'a net_scheme" where
  "NetSetTimeout iv f n =
     (if iv = 0 then n\<lparr>timeHandler := None\<rparr>
      else n\<lparr>timeHandler := Some f, timeStart := clock n, timeDelta := iv\<rparr>)"

section \<open>Headers\<close>

text \<open>Our VLAN as the functions read it: -1 stands for none.\<close>

definition my_vlan :: "u16 \<Rightarrow> u16" where
  "my_vlan v = (if htons v = 0xFFFF then VLAN_NONE else htons v)"

definition NetEthHdrSize :: "'a net_scheme \<Rightarrow> nat" where
  "NetEthHdrSize n =
     (if my_vlan (NetOurVLAN n) AND VLAN_IDMASK = VLAN_NONE then ETHER_HDR_SIZE else VLAN_ETHER_HDR_SIZE)"

text \<open>The header \<open>NetSetEther\<close> writes; the size it returns is the length.\<close>

definition NetSetEther :: "'a net_scheme \<Rightarrow> u8 list \<Rightarrow> u16 \<Rightarrow> u8 list" where
  "NetSetEther n addr prot =
     (let myvlanid = my_vlan (NetOurVLAN n) in
      addr @ NetOurEther n @
      (if myvlanid AND VLAN_IDMASK = VLAN_NONE then be16 prot
       else be16 PROT_VLAN @ be16 (myvlanid AND VLAN_IDMASK) @ be16 prot))"

text \<open>
  The IP and UDP header \<open>NetSetIP\<close> writes for a body of \<open>len\<close> bytes. (For an odd length it also
  zeroes the byte behind the body, which is not part of the frame.)
\<close>

definition NetSetIP :: "u32 \<Rightarrow> u16 \<Rightarrow> u16 \<Rightarrow> nat \<Rightarrow> 'a net_scheme \<Rightarrow> u8 list \<times> 'a net_scheme" where
  "NetSetIP dest dport sport len n =
     (let front = [0x45, 0] @ be16 (of_nat (IP_HDR_SIZE + len)) @ be16 (ucast (NetIPID n)) @
                be16 IP_FLAGS_DFRAG @ [255, 17];
          addrs = NetWriteIP (NetOurIP n) @ NetWriteIP dest;
          udp = be16 sport @ be16 dport @ be16 (of_nat (8 + len)) @ [0, 0];
          sum = cksum_field (front @ [0, 0] @ addrs @ udp) (int (IP_HDR_SIZE_NO_UDP div 2))
      in (front @ sum @ addrs @ udp, n\<lparr>NetIPID := NetIPID n + 1\<rparr>))"

section \<open>Address resolution\<close>

definition ArpRequest :: "'a net_scheme \<Rightarrow> 'a net_scheme" where
  "ArpRequest n =
     (let n = (if NetArpWaitPacketIP n AND NetOurSubnetMask n \<noteq> NetOurIP n AND NetOurSubnetMask n
               then if NetOurGatewayIP n = 0 then n\<lparr>NetArpWaitReplyIP := NetArpWaitPacketIP n\<rparr>
                    else n\<lparr>NetArpWaitReplyIP := NetOurGatewayIP n\<rparr>
               else n\<lparr>NetArpWaitReplyIP := NetArpWaitPacketIP n\<rparr>);
          arp = be16 1 @ be16 PROT_IP @ [6, 4] @ be16 1 @
                NetOurEther n @ NetWriteIP (NetOurIP n) @ replicate 6 0 @ NetWriteIP (NetArpWaitReplyIP n)
      in eth_send (NetSetEther n NetBcastAddr PROT_ARP @ arp) n)"

text \<open>
  \<open>NetSendUDPPacket\<close> with the body that lies in the transmit packet; the second component tells
  whether it waits for the address.
\<close>

definition NetSendUDPPacket ::
  "mac_ref \<Rightarrow> u32 \<Rightarrow> u16 \<Rightarrow> u16 \<Rightarrow> u8 list \<Rightarrow> 'a net_scheme \<Rightarrow> 'a net_scheme \<times> bool" where
  "NetSendUDPPacket ether dest dport sport body n =
     (let dest = (if dest = 0 then 0xFFFFFFFF else dest);
          ether = (if dest = 0xFFFFFFFF then BcastAddr else ether)
      in if mac_of n ether = NetEtherNullAddr then
           (let n = n\<lparr>NetArpWaitPacketIP := dest, NetArpWaitPacketMAC := Some ether\<rparr>;
                eh = NetSetEther n (mac_of n ether) PROT_IP;
                (iph, n) = NetSetIP dest dport sport (length body) n;
                n = n\<lparr>NetArpWaitTx := eh @ iph @ body, NetArpWaitTry := 1, NetArpWaitTimerStart := clock n\<rparr>
            in (ArpRequest n, True))
         else
           (let eh = NetSetEther n (mac_of n ether) PROT_IP;
                (iph, n) = NetSetIP dest dport sport (length body) n
            in (eth_send (eh @ iph @ body) n, False)))"

section \<open>Starting again\<close>

text \<open>
  \<open>eth_try_another\<close>: the next device of the ring; \<open>NetRestartWrap\<close> when all have been tried.
\<close>

definition eth_try_another :: "bool \<Rightarrow> 'a net_scheme \<Rightarrow> 'a net_scheme" where
  "eth_try_another first_restart n =
     (if env_var n (cstr ''ethrotate'') = Some (cstr ''no'') then n
      else if eth_count n = 0 then n
      else
        let n = (if first_restart then n\<lparr>first_failed := Some (eth_current n)\<rparr> else n);
            n = n\<lparr>eth_current := (eth_current n + 1) mod eth_count n\<rparr>
        in if first_failed n = Some (eth_current n) then n\<lparr>NetRestartWrap := True\<rparr> else n)"

text \<open>How often \<open>netretry\<close> lets a transfer be tried; \<open>None\<close> is for ever.\<close>

definition retry_count :: "u8 list option \<Rightarrow> u32 option" where
  "retry_count nretry =
     (case nretry of
        None \<Rightarrow> None
      | Some s \<Rightarrow>
          if s = cstr ''yes'' then None
          else if s = cstr ''no'' then Some 0
          else if s = cstr ''once'' then Some 1
          else Some (fst (simple_strtoul s 0)))"

text \<open>
  The device is halted, changed and started; the loop then goes on, waits ten seconds, or gives up. The
  devices are taken to start without an error.
\<close>

definition start_over :: "'a net_scheme \<Rightarrow> 'a net_scheme" where
  "start_over n =
     (let n = eth_try_another (\<not> NetRestarted n) n in
      if NetRestartWrap n then
        (let n = n\<lparr>NetRestartWrap := False\<rparr> in
         if NetDevExists n
         then NetSetHandler StartAgainHandler (NetSetTimeout 10000 StartAgainTimeout n)
         else n\<lparr>NetState := NETLOOP_FAIL\<rparr>)
      else n\<lparr>NetState := NETLOOP_RESTART\<rparr>)"

definition NetStartAgain :: "'a net_scheme \<Rightarrow> 'a net_scheme" where
  "NetStartAgain n =
     (case retry_count (env_var n (cstr ''netretry'')) of
        Some retrycnt \<Rightarrow>
          if NetTryCount n \<ge> retrycnt then n\<lparr>NetState := NETLOOP_FAIL\<rparr>
          else start_over (n\<lparr>NetTryCount := NetTryCount n + 1\<rparr>)
      | None \<Rightarrow> start_over (n\<lparr>NetTryCount := NetTryCount n + 1\<rparr>))"

definition startAgainTimeout :: "'a net_scheme \<Rightarrow> 'a net_scheme" where
  "startAgainTimeout n = n\<lparr>NetState := NETLOOP_RESTART\<rparr>"

definition ARP_TIMEOUT :: u32 where "ARP_TIMEOUT = 5000"
definition ARP_TIMEOUT_COUNT :: nat where "ARP_TIMEOUT_COUNT = 5"

definition ArpTimeoutCheck :: "'a net_scheme \<Rightarrow> 'a net_scheme" where
  "ArpTimeoutCheck n =
     (if NetArpWaitPacketIP n = 0 then n
      else
        let t = clock n in
        if t - NetArpWaitTimerStart n > ARP_TIMEOUT then
          (let n = n\<lparr>NetArpWaitTry := NetArpWaitTry n + 1\<rparr> in
           if NetArpWaitTry n \<ge> ARP_TIMEOUT_COUNT then NetStartAgain (n\<lparr>NetArpWaitTry := 0\<rparr>)
           else ArpRequest (n\<lparr>NetArpWaitTimerStart := t\<rparr>))
        else n)"

section \<open>Ping\<close>

definition PingSend :: "'a net_scheme \<Rightarrow> 'a net_scheme" where
  "PingSend n =
     (let n = n\<lparr>ping_mac := NetEtherNullAddr, NetArpWaitPacketIP := NetPingIP n,
                NetArpWaitPacketMAC := Some PingMac\<rparr>;
          eh = NetSetEther n (ping_mac n) PROT_IP;
          front = [0x45, 0] @ be16 (of_nat (IP_HDR_SIZE_NO_UDP + 8)) @ be16 (ucast (NetIPID n)) @
                  be16 IP_FLAGS_DFRAG @ [255, 1];
          addrs = NetWriteIP (NetOurIP n) @ NetWriteIP (NetPingIP n);
          sum = cksum_field (front @ [0, 0] @ addrs) (int (IP_HDR_SIZE_NO_UDP div 2));
          icmp = be16 0x0800 @ [0, 0] @ [0, 0] @ be16 (PingSeqNo n);
          icmp = be16 0x0800 @ cksum_field icmp 4 @ [0, 0] @ be16 (PingSeqNo n)
      in ArpRequest (n\<lparr>NetIPID := NetIPID n + 1, PingSeqNo := PingSeqNo n + 1,
           NetArpWaitTx := eh @ front @ sum @ addrs @ icmp,
           NetArpWaitTry := 1, NetArpWaitTimerStart := clock n\<rparr>))"

definition ping_timeout :: "'a net_scheme \<Rightarrow> 'a net_scheme" where
  "ping_timeout n = n\<lparr>NetState := NETLOOP_FAIL\<rparr>"

text \<open>The handler is given the IP packet.\<close>

definition ping_handler :: "u8 list \<Rightarrow> 'a net_scheme \<Rightarrow> 'a net_scheme" where
  "ping_handler pkt n =
     (if NetReadIP pkt 12 \<noteq> NetPingIP n then n else n\<lparr>NetState := NETLOOP_SUCCESS\<rparr>)"

definition PingStart :: "'a net_scheme \<Rightarrow> 'a net_scheme" where
  "PingStart n = PingSend (NetSetHandler PingHandler (NetSetTimeout 10000 PingTimeout n))"

section \<open>Receiving a frame\<close>

definition ARPOP_REQUEST :: u16 where "ARPOP_REQUEST = 1"
definition ARPOP_REPLY :: u16 where "ARPOP_REPLY = 2"
definition RARPOP_REPLY :: u16 where "RARPOP_REPLY = 4"
definition IPPROTO_ICMP :: u8 where "IPPROTO_ICMP = 1"
definition IPPROTO_UDP :: u8 where "IPPROTO_UDP = 17"
definition ICMP_ECHO_REPLY :: u8 where "ICMP_ECHO_REPLY = 0"
definition ICMP_ECHO_REQUEST :: u8 where "ICMP_ECHO_REQUEST = 8"

text \<open>
  The receive buffer and the place in it where the frame's payload starts, the length left, the
  protocol and the VLAN; \<open>None\<close> when the frame is dropped.
\<close>

definition frame_payload :: "'a net_scheme \<Rightarrow> u8 list \<Rightarrow> int \<Rightarrow> (nat \<times> int \<times> u16) option" where
  "frame_payload n inpkt len =
     (if len < int ETHER_HDR_SIZE then None
      else
        let myvlanid = my_vlan (NetOurVLAN n); mynvlanid = my_vlan (NetOurNativeVLAN n);
            x = get16 inpkt 12;
            r = (if x < 1514 then Some (E802_HDR_SIZE, len - int E802_HDR_SIZE, get16 inpkt 20, VLAN_NONE)
                 else if x \<noteq> PROT_VLAN then Some (ETHER_HDR_SIZE, len - int ETHER_HDR_SIZE, x, VLAN_NONE)
                 else if len < int VLAN_ETHER_HDR_SIZE then None
                 else if htons (NetOurVLAN n) AND VLAN_IDMASK = VLAN_NONE then None
                 else Some (VLAN_ETHER_HDR_SIZE, len - int VLAN_ETHER_HDR_SIZE, get16 inpkt 16,
                            get16 inpkt 14 AND VLAN_IDMASK))
        in case r of
          None \<Rightarrow> None
        | Some (off, len, x, vlanid) \<Rightarrow>
            let vlanid = (if vlanid = VLAN_NONE then mynvlanid AND VLAN_IDMASK else vlanid) in
            if myvlanid AND VLAN_IDMASK \<noteq> VLAN_NONE \<and> vlanid \<noteq> myvlanid AND VLAN_IDMASK then None
            else Some (off, len, x))"

text \<open>The header of an ARP packet for Ethernet and IP.\<close>

definition arp_header_ok :: "u8 list \<Rightarrow> nat \<Rightarrow> bool" where
  "arp_header_ok p off \<longleftrightarrow> get16 p off = 1 \<and> get16 p (off + 2) = PROT_IP \<and> p ! (off + 4) = 6 \<and> p ! (off + 5) = 4"

text \<open>The answer to a request is made in the receive buffer.\<close>

definition arp_answer :: "'a net_scheme \<Rightarrow> u8 list \<Rightarrow> nat \<Rightarrow> u8 list" where
  "arp_answer n p off =
     (let eh = NetSetEther n (slice p 6 6) PROT_ARP;
          d = off + 8;
          p = overwrite p 0 eh;
          p = overwrite p (off + 6) (be16 ARPOP_REPLY);
          p = overwrite p (d + 10) (slice p d 6);
          p = overwrite p (d + 16) (slice p (d + 6) 4);
          p = overwrite p d (NetOurEther n);
          p = overwrite p (d + 6) (NetWriteIP (NetOurIP n))
      in take (length eh + ARP_HDR_SIZE) p)"

definition receive_arp :: "u8 list \<Rightarrow> nat \<Rightarrow> int \<Rightarrow> 'a net_scheme \<Rightarrow> 'a net_scheme" where
  "receive_arp p off len n =
     (let d = off + 8; op = get16 p (off + 6) in
      if len < int ARP_HDR_SIZE then n
      else if \<not> arp_header_ok p off then n
      else if NetOurIP n = 0 then n
      else if NetReadIP p (d + 16) \<noteq> NetOurIP n then n
      else if op = ARPOP_REQUEST then eth_send (arp_answer n p off) n
      else if op = ARPOP_REPLY then
        (case NetArpWaitPacketMAC n of
           None \<Rightarrow> n
         | Some mac \<Rightarrow>
             if NetArpWaitPacketIP n = 0 then n
             else if NetReadIP p (d + 6) = NetArpWaitReplyIP n then
               (let n = set_mac mac (slice p d 6) n;
                    n = n\<lparr>NetArpWaitTx := overwrite (NetArpWaitTx n) 0 (mac_of n mac)\<rparr>;
                    n = eth_send (NetArpWaitTx n) n
                in n\<lparr>NetArpWaitPacketIP := 0, NetArpWaitTx := [], NetArpWaitPacketMAC := None\<rparr>)
             else n)
      else n)"

text \<open>
  A packet handler is given the bytes of the buffer from the body on, the ports and the length of the
  body as the header states it; \<open>None\<close> is a read outside the buffer.
\<close>

type_synonym 'a handler =
  "rx_handler \<Rightarrow> u8 list \<Rightarrow> u16 \<Rightarrow> u16 \<Rightarrow> u32 \<Rightarrow> 'a net_scheme \<Rightarrow> 'a net_scheme option"

definition receive_rarp ::
  "'a handler \<Rightarrow> u8 list \<Rightarrow> nat \<Rightarrow> int \<Rightarrow> 'a net_scheme \<Rightarrow> 'a net_scheme option" where
  "receive_rarp handle p off len n =
     (let d = off + 8 in
      if len < int ARP_HDR_SIZE then Some n
      else if get16 p (off + 6) \<noteq> RARPOP_REPLY \<or> \<not> arp_header_ok p off then Some n
      else
        let n = n\<lparr>NetOurIP := NetReadIP p (d + 16)\<rparr>;
            n = (if NetServerIP n = 0 then n\<lparr>NetServerIP := NetReadIP p (d + 6)\<rparr> else n);
            n = n\<lparr>NetServerEther := slice p d 6\<rparr>
        in handle (packetHandler n) [] 0 0 0 n)"

text \<open>Without defragmentation a fragment is dropped.\<close>

definition NetDefragment :: "u8 list \<Rightarrow> nat \<Rightarrow> bool" where
  "NetDefragment p off \<longleftrightarrow> get16 p (off + 6) AND (IP_OFFS OR IP_FLAGS_MFRAG) = 0"

text \<open>The answer to an echo request, made in the receive buffer; \<open>len\<close> is the IP packet's length.\<close>

definition echo_answer :: "'a net_scheme \<Rightarrow> u8 list \<Rightarrow> nat \<Rightarrow> nat \<Rightarrow> u8 list" where
  "echo_answer n p off len =
     (let p = overwrite p 0 (slice p 6 6);
          p = overwrite p 6 (NetOurEther n);
          p = overwrite p (off + 10) [0, 0];
          p = overwrite p (off + 6) [0, 0];
          p = overwrite p (off + 16) (slice p (off + 12) 4);
          p = overwrite p (off + 12) (NetWriteIP (NetOurIP n));
          p = overwrite p (off + 10) (cksum_field (drop off p) (int (IP_HDR_SIZE_NO_UDP div 2)));
          p = overwrite p (off + 20) [ICMP_ECHO_REPLY];
          p = overwrite p (off + 22) [0, 0];
          p = overwrite p (off + 22)
                (cksum_field (drop (off + 20) p) ((int len - int IP_HDR_SIZE_NO_UDP) div 2))
      in take (ETHER_HDR_SIZE + len) p)"

text \<open>
  The packet's length is only compared with the length of the frame from above. An echo request that
  claims less than its header makes the number of words to sum wrap around, and the sum reads outside
  the buffer.
\<close>

definition receive_ip ::
  "'a handler \<Rightarrow> u8 list \<Rightarrow> nat \<Rightarrow> int \<Rightarrow> 'a net_scheme \<Rightarrow> 'a net_scheme option" where
  "receive_ip handle p off len n =
     (let ip_len = unat (get16 p (off + 2)); hl_v = p ! off; dst = NetReadIP p (off + 16) in
      if 0 \<le> len \<and> len < int IP_HDR_SIZE then Some n
      else if len < int ip_len then Some n
      else if hl_v AND 0xf0 \<noteq> 0x40 then Some n
      else if hl_v AND 0x0f > 0x05 then Some n
      else if \<not> NetCksumOk (drop off p) (int (IP_HDR_SIZE_NO_UDP div 2)) then Some n
      else if NetOurIP n \<noteq> 0 \<and> dst \<noteq> NetOurIP n \<and> dst \<noteq> 0xFFFFFFFF then Some n
      else if \<not> NetDefragment p off then Some n
      else if p ! (off + 9) = IPPROTO_ICMP then
        (if p ! (off + 20) = ICMP_ECHO_REPLY then handle (packetHandler n) (drop off p) 0 0 0 n
         else if p ! (off + 20) = ICMP_ECHO_REQUEST then
           (if ip_len < IP_HDR_SIZE_NO_UDP then None else Some (eth_send (echo_answer n p off ip_len) n))
         else Some n)
      else if p ! (off + 9) \<noteq> IPPROTO_UDP then Some n
      else handle (packetHandler n) (drop (off + IP_HDR_SIZE) p) (get16 p (off + 22)) (get16 p (off + 20))
             (ucast (get16 p (off + 24)) - 8) n)"

text \<open>\<open>inpkt\<close> is the receive buffer, \<open>len\<close> the length of the frame in it.\<close>

definition NetReceive :: "'a handler \<Rightarrow> u8 list \<Rightarrow> int \<Rightarrow> 'a net_scheme \<Rightarrow> 'a net_scheme option" where
  "NetReceive handle inpkt len n =
     (case frame_payload n inpkt len of
        None \<Rightarrow> Some n
      | Some (off, len, x) \<Rightarrow>
          if x = PROT_ARP then Some (receive_arp inpkt off len n)
          else if x = PROT_RARP then receive_rarp handle inpkt off len n
          else if x = PROT_IP then receive_ip handle inpkt off len n
          else Some n)"

section \<open>Addresses as text\<close>

definition dec_field :: "u32 \<Rightarrow> u8 list" where
  "dec_field x = number x 10 (- 1) (- 1) SIGN"

definition ip_to_string :: "u32 \<Rightarrow> u8 list" where
  "ip_to_string x =
     (let x = htonl x; dot = [chr8 CHR ''.''] in
      dec_field (drop_bit 24 x AND 0xff) @ dot @ dec_field (drop_bit 16 x AND 0xff) @ dot @
      dec_field (drop_bit 8 x AND 0xff) @ dot @ dec_field (x AND 0xff))"

text \<open>The four fields of an address, each ended by any one character.\<close>

fun ip_fields :: "nat \<Rightarrow> u32 \<Rightarrow> u8 list \<Rightarrow> u32" where
  "ip_fields 0 addr s = addr"
| "ip_fields (Suc i) addr s =
     (let (val, e) = simple_strtoul s 10
      in ip_fields i (push_bit 8 addr OR (val AND 0xFF)) (if e = [] then e else tl e))"

definition string_to_ip :: "u8 list option \<Rightarrow> u32" where
  "string_to_ip s = (case s of None \<Rightarrow> 0 | Some s \<Rightarrow> htonl (ip_fields 4 0 s))"

definition VLAN_to_string :: "u16 \<Rightarrow> u8 list" where
  "VLAN_to_string x =
     (let x = my_vlan x in
      if x = VLAN_NONE then cstr ''none'' else dec_field (ucast (x AND VLAN_IDMASK)))"

definition string_to_VLAN :: "u8 list option \<Rightarrow> u16" where
  "string_to_VLAN s =
     (case s of
        None \<Rightarrow> htons VLAN_NONE
      | Some s \<Rightarrow> htons (if peek s < chr8 CHR ''0'' \<or> chr8 CHR ''9'' < peek s then VLAN_NONE
                         else ucast (fst (simple_strtoul s 10))))"

definition getenv_IPaddr :: "'a net_scheme \<Rightarrow> u8 list \<Rightarrow> u32" where
  "getenv_IPaddr n var = string_to_ip (env_var n var)"

definition getenv_VLAN :: "'a net_scheme \<Rightarrow> u8 list \<Rightarrow> u16" where
  "getenv_VLAN n var = string_to_VLAN (env_var n var)"

fun enetaddr_fields :: "nat \<Rightarrow> u8 list \<Rightarrow> u8 list" where
  "enetaddr_fields 0 s = []"
| "enetaddr_fields (Suc i) s =
     (let (val, e) = simple_strtoul s 16
      in ucast val # enetaddr_fields i (if e = [] then e else tl e))"

definition eth_parse_enetaddr :: "u8 list option \<Rightarrow> u8 list" where
  "eth_parse_enetaddr addr = (case addr of None \<Rightarrow> replicate 6 0 | Some s \<Rightarrow> enetaddr_fields 6 s)"

definition is_zero_ether_addr :: "u8 list \<Rightarrow> bool" where
  "is_zero_ether_addr addr \<longleftrightarrow>
     addr ! 0 OR addr ! 1 OR addr ! 2 OR addr ! 3 OR addr ! 4 OR addr ! 5 = 0"

definition is_multicast_ether_addr :: "u8 list \<Rightarrow> bool" where
  "is_multicast_ether_addr addr \<longleftrightarrow> 0x01 AND addr ! 0 \<noteq> 0"

definition is_valid_ether_addr :: "u8 list \<Rightarrow> bool" where
  "is_valid_ether_addr addr \<longleftrightarrow> \<not> is_multicast_ether_addr addr \<and> \<not> is_zero_ether_addr addr"

definition eth_getenv_enetaddr :: "'a net_scheme \<Rightarrow> u8 list \<Rightarrow> u8 list \<times> bool" where
  "eth_getenv_enetaddr n name =
     (let a = eth_parse_enetaddr (env_var n name) in (a, is_valid_ether_addr a))"

text \<open>The environment has changed: the addresses are read again; \<open>ip\<close> is the board's.\<close>

definition NetInitLoop :: "u32 \<Rightarrow> 'a net_scheme \<Rightarrow> 'a net_scheme" where
  "NetInitLoop ip n =
     n\<lparr>NetOurIP := ip,
       NetOurGatewayIP := getenv_IPaddr n (cstr ''gatewayip''),
       NetOurSubnetMask := getenv_IPaddr n (cstr ''netmask''),
       NetServerIP := getenv_IPaddr n (cstr ''serverip''),
       NetOurNativeVLAN := getenv_VLAN n (cstr ''nvlan''),
       NetOurVLAN := getenv_VLAN n (cstr ''vlan'')\<rparr>"

end
