(* ===== verification/Tftp.thy ===== *)
theory Tftp
  imports Net
begin

text \<open>
  The TFTP client (\<open>net/tftp.c\<close>): the read request, acknowledgements, the handling of option
  acknowledgements, data and error packets, storing a block with its 16-bit number unwrapped, and the
  retries. Multicast, the \<open>tsize\<close> option and direct writing to flash are not configured.
\<close>

section \<open>The state\<close>

datatype tftp_state = STATE_RRQ | STATE_DATA | STATE_TOO_LARGE | STATE_BAD_MAGIC | STATE_OACK

text \<open>
  The statics of \<open>tftp.c\<close>, with the globals it shares: the boot file's name, the load address, the
  size transferred and the memory that blocks are stored to.
\<close>

record tftp = net +
  TftpServerIP :: u32
  TftpServerPort :: u16
  TftpOurPort :: u16
  TftpTimeoutCount :: nat
  TftpTimeoutMSecs :: u32
  TftpTimeoutCountMax :: nat
  TftpRRQTimeoutMSecs :: u32
  TftpRRQTimeoutCountMax :: nat
  TftpBlock :: u32
  TftpLastBlock :: u32
  TftpBlockWrap :: u32
  TftpBlockWrapOffset :: u32
  TftpState :: tftp_state
  TftpBlkSize :: u16
  TftpBlkSizeOption :: u16
  tftp_filename :: "u8 list"
  BootFile :: "u8 list"
  load_addr :: u32
  NetBootFileXferSize :: u32
  memory :: mem

definition WELL_KNOWN_PORT :: u16 where "WELL_KNOWN_PORT = 69"
definition TIMEOUT :: u32 where "TIMEOUT = 5000"
definition TIMEOUT_COUNT :: nat where "TIMEOUT_COUNT = 10"
definition TFTP_RRQ :: u16 where "TFTP_RRQ = 1"
definition TFTP_DATA :: u16 where "TFTP_DATA = 3"
definition TFTP_ACK :: u16 where "TFTP_ACK = 4"
definition TFTP_ERROR :: u16 where "TFTP_ERROR = 5"
definition TFTP_OACK :: u16 where "TFTP_OACK = 6"
definition TFTP_BLOCK_SIZE :: u16 where "TFTP_BLOCK_SIZE = 512"
definition TFTP_SEQUENCE_SIZE :: u32 where "TFTP_SEQUENCE_SIZE = 65536"
definition MAX_LEN :: nat where "MAX_LEN = 128"

section \<open>Sending\<close>

text \<open>The body of the packet for the state.\<close>

definition tftp_body :: "'a tftp_scheme \<Rightarrow> u8 list" where
  "tftp_body t =
     (case TftpState t of
        STATE_RRQ \<Rightarrow>
          be16 TFTP_RRQ @ tftp_filename t @ [0] @ cstr ''octet'' @ [0] @ cstr ''timeout'' @ [0] @
          number (TIMEOUT div 1000) 10 (- 1) (- 1) 0 @ [0] @
          cstr ''blksize'' @ [0] @ dec_field (ucast (TftpBlkSizeOption t)) @ [0]
      | STATE_OACK \<Rightarrow> be16 TFTP_ACK @ be16 (ucast (TftpBlock t))
      | STATE_DATA \<Rightarrow> be16 TFTP_ACK @ be16 (ucast (TftpBlock t))
      | STATE_TOO_LARGE \<Rightarrow> be16 TFTP_ERROR @ be16 3 @ cstr ''File too large'' @ [0]
      | STATE_BAD_MAGIC \<Rightarrow> be16 TFTP_ERROR @ be16 2 @ cstr ''File has bad magic'' @ [0])"

definition TftpSend :: "'a tftp_scheme \<Rightarrow> 'a tftp_scheme" where
  "TftpSend t =
     fst (NetSendUDPPacket ServerEther (TftpServerIP t) (TftpServerPort t) (TftpOurPort t) (tftp_body t) t)"

section \<open>Receiving\<close>

text \<open>
  \<open>memcpy\<close> from the receive buffer to the memory; \<open>None\<close> when it would read past the buffer.
\<close>

definition store_block :: "u32 \<Rightarrow> u8 list \<Rightarrow> u32 \<Rightarrow> 'a tftp_scheme \<Rightarrow> 'a tftp_scheme option" where
  "store_block block src len t =
     (let offset = block * ucast (TftpBlkSize t) + TftpBlockWrapOffset t;
          newsize = offset + len
      in if unat len \<le> length src then
           (let t = t\<lparr>memory := write_bytes (memory t) (unat (load_addr t + offset)) (take (unat len) src)\<rparr>
            in Some (if NetBootFileXferSize t < newsize then t\<lparr>NetBootFileXferSize := newsize\<rparr> else t))
         else None)"

text \<open>\<open>strcmp (p, literal) == 0\<close> where the literal includes its NUL; \<open>None\<close> at the end of the buffer.\<close>

fun literal_at :: "u8 list \<Rightarrow> u8 list \<Rightarrow> bool option" where
  "literal_at [] p = Some True"
| "literal_at (c # cs) [] = None"
| "literal_at (c # cs) (d # p) = (if c = d then literal_at cs p else Some False)"

text \<open>The scan of an option acknowledgement for the block size, from the index \<open>i\<close>.\<close>

function oack_scan :: "u8 list \<Rightarrow> nat \<Rightarrow> nat \<Rightarrow> u16 \<Rightarrow> u16 option" where
  "oack_scan pkt len i blksize =
     (if i + 8 < len then
        (case literal_at (cstr ''blksize'' @ [0]) (drop i pkt) of
           None \<Rightarrow> None
         | Some False \<Rightarrow> oack_scan pkt len (i + 1) blksize
         | Some True \<Rightarrow>
             (case simple_strtoul (drop (i + 8) pkt) 10 of
                (v, e) \<Rightarrow> if e = [] then None else oack_scan pkt len (i + 1) (ucast v)))
      else Some blksize)"
  by pat_completeness auto
termination
  by (relation "measure (\<lambda>(pkt, len, i, blksize). len - i)") auto

declare oack_scan.simps [simp del]

definition receive_oack :: "u8 list \<Rightarrow> u32 \<Rightarrow> u16 \<Rightarrow> 'a tftp_scheme \<Rightarrow> 'a tftp_scheme option" where
  "receive_oack pkt len src t =
     (case oack_scan pkt (unat len) 0 (TftpBlkSize t) of
        None \<Rightarrow> None
      | Some blksize \<Rightarrow>
          Some (TftpSend (t\<lparr>TftpState := STATE_OACK, TftpServerPort := src, TftpBlkSize := blksize\<rparr>)))"

definition receive_data :: "u8 list \<Rightarrow> u32 \<Rightarrow> u16 \<Rightarrow> 'a tftp_scheme \<Rightarrow> 'a tftp_scheme option" where
  "receive_data pkt len src t =
     (if len < 2 then Some t
      else
        let len = len - 2; block = ucast (get16 pkt 0);
            t = t\<lparr>TftpBlock := block\<rparr>;
            t = (if block = 0
                 then t\<lparr>TftpBlockWrap := TftpBlockWrap t + 1,
                        TftpBlockWrapOffset := TftpBlockWrapOffset t + ucast (TftpBlkSize t) * TFTP_SEQUENCE_SIZE\<rparr>
                 else t);
            first = (TftpState t = STATE_RRQ \<or> TftpState t = STATE_OACK);
            t = (if first
                 then t\<lparr>TftpState := STATE_DATA, TftpServerPort := src, TftpLastBlock := 0,
                        TftpBlockWrap := 0, TftpBlockWrapOffset := 0\<rparr>
                 else t)
        in if first \<and> block \<noteq> 1 then Some (NetStartAgain t)
           else if block = TftpLastBlock t then Some t
           else
             let t = t\<lparr>TftpLastBlock := block, TftpTimeoutMSecs := TIMEOUT, TftpTimeoutCountMax := TIMEOUT_COUNT\<rparr>;
                 t = NetSetTimeout (TftpTimeoutMSecs t) TftpTimeout t
             in case store_block (block - 1) (drop 2 pkt) len t of
                  None \<Rightarrow> None
                | Some t \<Rightarrow>
                    let t = TftpSend t in
                    Some (if len < ucast (TftpBlkSize t) then t\<lparr>NetState := NETLOOP_SUCCESS\<rparr> else t))"

text \<open>The handler: the packet, the two ports and the length the UDP header states.\<close>

definition tftp_handler ::
  "u8 list \<Rightarrow> u16 \<Rightarrow> u16 \<Rightarrow> u32 \<Rightarrow> 'a tftp_scheme \<Rightarrow> 'a tftp_scheme option" where
  "tftp_handler pkt dest src len t =
     (if dest \<noteq> TftpOurPort t then Some t
      else if TftpState t \<noteq> STATE_RRQ \<and> src \<noteq> TftpServerPort t then Some t
      else if len < 2 then Some t
      else
        let len = len - 2; proto = get16 pkt 0; pkt = drop 2 pkt in
        if proto = TFTP_OACK then receive_oack pkt len src t
        else if proto = TFTP_DATA then receive_data pkt len src t
        else if proto = TFTP_ERROR then Some (NetStartAgain t)
        else Some t)"

definition tftp_timeout :: "'a tftp_scheme \<Rightarrow> 'a tftp_scheme" where
  "tftp_timeout t =
     (let t = t\<lparr>TftpTimeoutCount := TftpTimeoutCount t + 1\<rparr> in
      if TftpTimeoutCount t > TftpTimeoutCountMax t then NetStartAgain t
      else TftpSend (NetSetTimeout (TftpTimeoutMSecs t) TftpTimeout t))"

text \<open>
  The call through \<open>packetHandler\<close>. The handler that waits before a restart ignores every packet; the
  handlers of the other protocols are given as \<open>other\<close>.
\<close>

definition call_handler :: "'a tftp_ext handler \<Rightarrow> 'a tftp_ext handler" where
  "call_handler other h pkt dest src len t =
     (case h of
        TftpHandler \<Rightarrow> tftp_handler pkt dest src len t
      | PingHandler \<Rightarrow> Some (ping_handler pkt t)
      | StartAgainHandler \<Rightarrow> Some t
      | _ \<Rightarrow> other h pkt dest src len t)"

section \<open>Starting a transfer\<close>

text \<open>The name made of our address when there is no boot file.\<close>

definition default_filename :: "u32 \<Rightarrow> u8 list" where
  "default_filename ip =
     (let hex = (\<lambda>x. number x 16 2 (- 1) ZEROPAD) in
      hex (ip AND 0xFF) @ hex (drop_bit 8 ip AND 0xFF) @ hex (drop_bit 16 ip AND 0xFF) @
      hex (drop_bit 24 ip AND 0xFF) @ cstr ''.img'')"

text \<open>The server and the file: a boot file of the form \<open>address:name\<close> names its own server.\<close>

definition tftp_source :: "'a tftp_scheme \<Rightarrow> u32 \<times> u8 list" where
  "tftp_source t =
     (let file = BootFile t; cut = take (MAX_LEN - 1) in
      if file = [] then (NetServerIP t, cut (default_filename (NetOurIP t)))
      else if chr8 CHR '':'' \<notin> set file then (NetServerIP t, cut file)
      else (string_to_ip (Some file), cut (tl (dropWhile (\<lambda>c. c \<noteq> chr8 CHR '':'') file))))"

definition TftpStart :: "'a tftp_scheme \<Rightarrow> 'a tftp_scheme" where
  "TftpStart t =
     (let t = (case env_var t (cstr ''tftpblocksize'') of
                 None \<Rightarrow> t
               | Some ep \<Rightarrow> t\<lparr>TftpBlkSizeOption := ucast (fst (simple_strtol ep 10))\<rparr>);
          t = t\<lparr>TftpServerIP := fst (tftp_source t), tftp_filename := snd (tftp_source t)\<rparr>;
          t = t\<lparr>TftpTimeoutMSecs := TftpRRQTimeoutMSecs t, TftpTimeoutCountMax := TftpRRQTimeoutCountMax t\<rparr>;
          t = NetSetHandler TftpHandler (NetSetTimeout (TftpTimeoutMSecs t) TftpTimeout t);
          t = t\<lparr>TftpServerPort := WELL_KNOWN_PORT, TftpTimeoutCount := 0, TftpState := STATE_RRQ,
                TftpOurPort := 1024 + ucast (clock t mod 3072), TftpBlock := 0,
                NetServerEther := replicate 6 0, TftpBlkSize := TFTP_BLOCK_SIZE\<rparr>
      in TftpSend t)"

end
