(* ===== verification/Net_Correct.thy ===== *)
theory Net_Correct
  imports Net Vsprintf_Correct
begin

text \<open>
  What the network core does: the checksum, a frame that is sent is the frame that is received,
  address resolution, and the text of addresses.
\<close>

section \<open>Bytes\<close>

lemma be16_join [simp]: "push_bit 8 (ucast (ucast (drop_bit 8 x) :: u8)) OR ucast (ucast x :: u8) = (x :: u16)"
  by (rule bit_word_eqI) (auto simp: bit_simps)

lemma store16_join [simp]: "load16 (ucast x) (ucast (drop_bit 8 x)) = x"
  unfolding load16_def by (rule bit_word_eqI) (auto simp: bit_simps)

lemma word32_join [simp]:
  "ucast (ucast x :: u8) OR push_bit 8 (ucast (ucast (drop_bit 8 x) :: u8))
     OR push_bit 16 (ucast (ucast (drop_bit 16 x) :: u8)) OR push_bit 24 (ucast (ucast (drop_bit 24 x) :: u8)) = (x :: u32)"
proof (rule bit_word_eqI)
  fix i
  assume "i < LENGTH(32)"
  then consider "i < 8" | "8 \<le> i" "i < 16" | "16 \<le> i" "i < 24" | "24 \<le> i" "i < 32"
    by (simp, linarith)
  then show "bit (ucast (ucast x :: u8) OR push_bit 8 (ucast (ucast (drop_bit 8 x) :: u8))
     OR push_bit 16 (ucast (ucast (drop_bit 16 x) :: u8)) OR push_bit 24 (ucast (ucast (drop_bit 24 x) :: u8)) :: u32) i =
     bit x i"
    by cases (auto simp: bit_simps)
qed

lemma get16_shift [simp]: "get16 (pre @ q) (length pre + i) = get16 q i"
  by (simp add: get16_def nth_append)

lemma NetReadIP_shift [simp]: "NetReadIP (pre @ q) (length pre + i) = NetReadIP q i"
  by (simp add: NetReadIP_def nth_append)

lemma length_wire [simp]:
  "length (be16 x) = 2" "length (store16 x) = 2" "length (NetWriteIP w) = 4" "length (cksum_field p k) = 2"
  by (simp_all add: be16_def store16_def NetWriteIP_def cksum_field_def)

section \<open>The checksum\<close>

fun sum16 :: "nat \<Rightarrow> u8 list \<Rightarrow> nat" where
  "sum16 (Suc n) (a # b # p) = unat (load16 a b) + sum16 n p"
| "sum16 n p = 0"

definition fold16 :: "nat \<Rightarrow> nat" where
  "fold16 x = x mod 65536 + x div 65536"

lemma cksum_loop_sum16: "cksum_loop n p x = x + of_nat (sum16 n p)"
  by (induction n p x rule: cksum_loop.induct) (simp_all add: add.assoc)

lemma sum16_bound: "sum16 n p \<le> n * 65535"
proof (induction n p rule: sum16.induct)
  case (1 n a b p)
  have "unat (load16 a b) \<le> 65535" using unat_u16_less [of "load16 a b"] by linarith
  with 1 show ?case by simp
qed simp_all

lemma sum16_append: "length p = 2 * n \<Longrightarrow> sum16 (n + k) (p @ q) = sum16 n p + sum16 k q"
proof (induction n arbitrary: p)
  case (Suc n)
  then obtain a b r where "p = a # b # r" by (cases p; cases "tl p") auto
  with Suc show ?case by simp
qed simp

lemma unat_and_ffff: "unat (w AND 0xffff :: u32) = unat w mod 65536"
proof -
  have "mask 16 = (0xffff :: u32)" by (simp add: mask_eq_exp_minus_1)
  then have "w AND 0xffff = take_bit 16 w" by (simp only: take_bit_eq_mask)
  then have "unat (w AND 0xffff) = take_bit 16 (unat w)" by (simp only: unsigned_take_bit_eq)
  then show ?thesis by (simp only: take_bit_eq_mod) simp
qed

lemma fold_word: "unat ((w AND 0xffff) + drop_bit 16 w :: u32) = fold16 (unat w)"
proof -
  have d: "unat (drop_bit 16 w) = unat w div 65536" proof -
    have "unat (drop_bit 16 w) = drop_bit 16 (unat w)" by (rule unat_drop_bit_eq)
    also have "\<dots> = unat w div 2 ^ 16" by (rule drop_bit_eq_div)
    finally show ?thesis by simp
  qed
  have "unat w div 65536 < 65536" using unat_u32_less [of w] by linarith
  then have "unat w mod 65536 + unat w div 65536 < 2 ^ 32" by (simp add: less_trans)
  then show ?thesis unfolding fold16_def by (simp add: unat_plus_if' unat_and_ffff d)
qed

lemma fold16_twice:
  assumes "x < 2 ^ 32"
  shows "fold16 (fold16 x) = (if x = 0 then 0 else (x - 1) mod 65535 + 1)"
proof -
  have y: "fold16 x \<le> 131070" using assms by (simp add: fold16_def)
  have "x = 65536 * (x div 65536) + x mod 65536" by simp
  then have xy: "x = 65535 * (x div 65536) + fold16 x" unfolding fold16_def by linarith
  have zy: "fold16 x = 65535 * (fold16 x div 65536) + fold16 (fold16 x)"
    unfolding fold16_def [of "fold16 x"] by (simp add: algebra_simps)
  have z: "fold16 (fold16 x) \<le> 65535"
  proof (cases "fold16 x < 65536")
    case True
    then show ?thesis unfolding fold16_def [of "fold16 x"] by simp
  next
    case False
    then have "fold16 x div 65536 = 1" "fold16 x mod 65536 = fold16 x - 65536"
      using y by (simp_all add: div_nat_eqI mod_if)
    then show ?thesis using y unfolding fold16_def [of "fold16 x"] by simp
  qed
  have fz: "y = 0" if "fold16 y = 0" for y
  proof -
    have "y mod 65536 = 0" "y div 65536 = 0" using that by (simp_all add: fold16_def)
    then show ?thesis using div_mult_mod_eq [of y 65536] by simp
  qed
  have z0: "fold16 (fold16 x) = 0 \<Longrightarrow> x = 0"
    using fz [OF fz, of x] by simp
  show ?thesis
  proof (cases "x = 0")
    case True
    then show ?thesis by (simp add: fold16_def)
  next
    case False
    then have "0 < fold16 (fold16 x)" using z0 by auto
    moreover have "x - 1 = 65535 * (x div 65536 + fold16 x div 65536) + (fold16 (fold16 x) - 1)"
      using xy zy calculation by (simp add: algebra_simps)
    ultimately have "(x - 1) mod 65535 = (fold16 (fold16 x) - 1) mod 65535"
      by (simp only: mod_mult_self4)
    then have "(x - 1) mod 65535 = fold16 (fold16 x) - 1"
      using z \<open>0 < fold16 (fold16 x)\<close> by simp
    then show ?thesis using False \<open>0 < fold16 (fold16 x)\<close> by simp
  qed
qed

lemma NetCksum_sum16:
  assumes "n \<le> 65537"
  shows "unat (NetCksum p (int n)) = fold16 (fold16 (sum16 n p))"
proof -
  have "sum16 n p \<le> n * 65535" by (rule sum16_bound)
  also have "\<dots> \<le> 65537 * 65535" using assms by (rule mult_le_mono1)
  finally have s: "sum16 n p < 2 ^ 32" by simp
  have u: "unat (of_nat (sum16 n p) :: u32) = sum16 n p" by (rule unat_of_nat_u32 [OF s])
  have "fold16 (fold16 (sum16 n p)) < 65536" using fold16_twice [OF s] by simp
  then show ?thesis
    unfolding NetCksum_def Let_def unat_and_ffff fold_word
    by (simp only: cksum_loop_sum16 nat_int add_0 u mod_less)
qed

lemma and_field: "w AND push_bit k (mask j) = push_bit k (take_bit j (drop_bit k (w :: u32)))"
  by (rule bit_word_eqI) (auto simp: bit_simps)

lemma cksum_ok_word:
  assumes "unat (c :: u32) \<le> 65535"
  shows "(c + 1) AND 0xfffe = 0 \<longleftrightarrow> unat c = 0 \<or> unat c = 65535"
proof -
  let ?w = "c + 1"
  have u: "unat ?w = unat c + 1" using assms by (simp add: unat_plus_if')
  have m: "0xfffe = push_bit 1 (mask 15 :: u32)" by (simp add: mask_eq_exp_minus_1)
  have e: "?w AND 0xfffe = push_bit 1 (take_bit 15 (drop_bit 1 ?w))"
    unfolding m by (rule and_field)
  let ?t = "take_bit 15 (drop_bit 1 ?w)"
  have "unat ?t = take_bit 15 (unat (drop_bit 1 ?w))" by (rule unsigned_take_bit_eq)
  also have "unat (drop_bit 1 ?w) = drop_bit 1 (unat ?w)" by (rule unat_drop_bit_eq)
  also have "drop_bit 1 (unat ?w) = (unat c + 1) div 2" unfolding u drop_bit_eq_div by simp
  also have "take_bit 15 ((unat c + 1) div 2) = ((unat c + 1) div 2) mod 32768"
    unfolding take_bit_eq_mod by simp
  finally have t: "unat ?t = ((unat c + 1) div 2) mod 32768" .
  then have "unat ?t < 32768" by simp
  then have "unat (push_bit 1 ?t) = 2 * unat ?t" by (simp add: unat_mult_lem [THEN iffD1] push_bit_eq_mult unat_word_ariths)
  then have "?w AND 0xfffe = 0 \<longleftrightarrow> unat ?t = 0" unfolding e by (simp add: unat_eq_0 [symmetric])
  also have "\<dots> \<longleftrightarrow> (unat c + 1) div 2 = 0 \<or> (unat c + 1) div 2 = 32768"
  proof -
    have "(unat c + 1) div 2 \<le> 32768" using assms by linarith
    then show ?thesis unfolding t by (auto simp: mod_if)
  qed
  also have "\<dots> \<longleftrightarrow> unat c = 0 \<or> unat c = 65535" using assms by auto
  finally show ?thesis .
qed

lemma NetCksumOk_iff:
  assumes "n \<le> 65537"
  shows "NetCksumOk p (int n) \<longleftrightarrow> sum16 n p mod 65535 = 0"
proof -
  let ?c = "NetCksum p (int n)" and ?s = "sum16 n p"
  have "?s \<le> n * 65535" by (rule sum16_bound)
  also have "\<dots> \<le> 65537 * 65535" using assms by (rule mult_le_mono1)
  finally have s: "?s < 2 ^ 32" by simp
  have c: "unat ?c = (if ?s = 0 then 0 else (?s - 1) mod 65535 + 1)"
    using NetCksum_sum16 [OF assms, of p] fold16_twice [OF s] by simp
  have "(?s - 1) mod 65535 < 65535" by (rule mod_less_divisor) simp
  with c have cb: "unat ?c \<le> 65535" by (simp split: if_splits)
  have "NetCksumOk p (int n) \<longleftrightarrow> unat ?c = 0 \<or> unat ?c = 65535"
    unfolding NetCksumOk_def using cb by (rule cksum_ok_word)
  also have "\<dots> \<longleftrightarrow> ?s mod 65535 = 0"
  proof (cases "?s = 0")
    case False
    then obtain k where k: "?s = Suc k" by (cases ?s) auto
    then show ?thesis using c by (auto simp: mod_Suc)
  qed (use c in simp)
  finally show ?thesis .
qed

lemma unat_not_u16:
  assumes "unat (c :: u32) \<le> 65535"
  shows "unat (ucast (NOT c) :: u16) = 65535 - unat c"
proof -
  have "ucast (NOT c) = NOT (ucast c :: u16)" by (rule bit_word_eqI) (auto simp: bit_simps)
  moreover have "unat (ucast c :: u16) = unat c" using assms by (simp add: unsigned_ucast_eq take_bit_eq_mod)
  moreover have "unat (NOT x) = 65535 - unat x" for x :: u16
  proof -
    have "NOT x = - 1 - x" by (simp add: not_eq_complement)
    moreover have "unat (- 1 - x) = unat (- 1 :: u16) - unat x"
      by (rule unat_sub) (rule word_order.extremum)
    moreover have "unat (- 1 :: u16) = 65535" by (simp add: unsigned_minus_1_eq_mask mask_eq_exp_minus_1)
    ultimately show ?thesis by simp
  qed
  ultimately show ?thesis by simp
qed

text \<open>Storing the complement of the sum of the other words makes the sum right.\<close>

lemma cksum_field_ok:
  assumes f: "length front = 2 * a" and b: "length back = 2 * b" and n: "n = a + Suc b" "n \<le> 65537"
  shows "NetCksumOk (front @ cksum_field (front @ [0, 0] @ back @ t) (int n) @ back @ t') (int n)"
proof -
  let ?p = "front @ [0, 0] @ back @ t"
  let ?c = "NetCksum ?p (int n)"
  define S where "S = sum16 a front + sum16 b back"
  have sum: "sum16 n (front @ [x, y] @ back @ u) = S + unat (load16 x y)" for x y u
    using sum16_append [OF f, of "Suc b" "x # y # back @ u"] sum16_append [OF b, of 0 u]
    by (simp add: n S_def)
  have load0: "unat (load16 0 0) = 0" by (simp add: load16_def)
  have "S \<le> n * 65535" using sum16_bound [of n ?p] sum [of 0 0 t] load0 by simp
  also have "\<dots> \<le> 65537 * 65535" using n(2) by (rule mult_le_mono1)
  finally have S: "S < 2 ^ 32" by simp
  have c: "unat ?c = (if S = 0 then 0 else (S - 1) mod 65535 + 1)"
    using NetCksum_sum16 [OF n(2), of ?p] fold16_twice [OF S] sum [of 0 0 t] load0 by simp
  have "(S - 1) mod 65535 < 65535" by (rule mod_less_divisor) simp
  with c have cb: "unat ?c \<le> 65535" by (simp split: if_splits)
  obtain x y where xy: "cksum_field ?p (int n) = [x, y]" "load16 x y = ucast (NOT ?c)"
    unfolding cksum_field_def store16_def by simp
  have "(S + (65535 - unat ?c)) mod 65535 = 0"
  proof (cases "S = 0")
    case True
    then show ?thesis using c by simp
  next
    case False
    then have "S - 1 = 65535 * ((S - 1) div 65535) + (unat ?c - 1)" "0 < unat ?c" using c by simp_all
    then have "S + (65535 - unat ?c) = 65535 * ((S - 1) div 65535) + 65535" using False cb by linarith
    then show ?thesis by simp
  qed
  then show ?thesis
    unfolding NetCksumOk_iff [OF n(2)] xy(1) sum xy(2) unat_not_u16 [OF cb] .
qed

section \<open>Sending and receiving\<close>

text \<open>The header of a UDP packet, byte by byte.\<close>

lemma NetSetIP_bytes:
  obtains s0 s1 where
    "fst (NetSetIP dest dport sport len n) =
      [0x45, 0] @ be16 (of_nat (28 + len)) @ be16 (ucast (NetIPID n)) @ [0x40, 0, 255, 17, s0, s1] @
      NetWriteIP (NetOurIP n) @ NetWriteIP dest @ be16 sport @ be16 dport @ be16 (of_nat (8 + len)) @ [0, 0]"
    "\<And>q. NetCksumOk (take 20 (fst (NetSetIP dest dport sport len n)) @ q) 10"
proof -
  let ?front = "[0x45, 0] @ be16 (of_nat (IP_HDR_SIZE + len)) @ be16 (ucast (NetIPID n)) @
                be16 IP_FLAGS_DFRAG @ [255, 17]"
  let ?addrs = "NetWriteIP (NetOurIP n) @ NetWriteIP dest"
  let ?udp = "be16 sport @ be16 dport @ be16 (of_nat (8 + len)) @ [0, 0]"
  let ?sum = "cksum_field (?front @ [0, 0] @ ?addrs @ ?udp) (int 10)"
  have h: "fst (NetSetIP dest dport sport len n) = ?front @ ?sum @ ?addrs @ ?udp"
    by (simp add: NetSetIP_def Let_def IP_HDR_SIZE_NO_UDP_def)
  obtain s0 s1 where s: "?sum = [s0, s1]" by (simp add: cksum_field_def store16_def)
  have d: "be16 IP_FLAGS_DFRAG = [0x40, 0]" by (simp add: be16_def IP_FLAGS_DFRAG_def)
  have "NetCksumOk (?front @ ?sum @ ?addrs @ q) (int 10)" for q
    by (rule cksum_field_ok [where a = 5 and b = 4]) simp_all
  then have ok: "NetCksumOk (take 20 (fst (NetSetIP dest dport sport len n)) @ q) 10" for q
    by (simp add: h)
  show thesis
    by (rule that [OF _ ok, of s0 s1]) (simp add: h [unfolded s] d IP_HDR_SIZE_def)
qed

lemma and_mask_idem: "(v AND VLAN_IDMASK) AND VLAN_IDMASK = v AND VLAN_IDMASK"
  by simp

lemma unat_of_nat_u16: "x < 2 ^ 16 \<Longrightarrow> unat (of_nat x :: u16) = x"
  by (simp add: unsigned_of_nat take_bit_nat_eq_self)

lemma get16_be16 [simp]: "get16 (be16 x @ q) 0 = x"
  by (simp add: get16_def be16_def)

lemma get16_at: "length pre = i \<Longrightarrow> get16 (pre @ be16 x @ q) i = x"
  using get16_shift [of pre "be16 x @ q" 0] by simp

definition good_prot :: "u16 \<Rightarrow> bool" where
  "good_prot prot \<longleftrightarrow> prot = PROT_IP \<or> prot = PROT_ARP \<or> prot = PROT_RARP"

lemma payload_of_sent:
  assumes mac: "length mac = 6" "length (NetOurEther n) = 6" and prot: "good_prot prot"
    and vlan: "NetOurVLAN m = NetOurVLAN n" and len: "int (length (NetSetEther n mac prot)) \<le> len"
  shows "frame_payload m (NetSetEther n mac prot @ q) len =
    Some (length (NetSetEther n mac prot), len - int (length (NetSetEther n mac prot)), prot)"
proof -
  let ?v = "my_vlan (NetOurVLAN n) AND VLAN_IDMASK" and ?p = "NetSetEther n mac prot @ q"
  have big: "\<not> prot < 1514" "prot \<noteq> PROT_VLAN"
    using prot by (auto simp: good_prot_def PROT_IP_def PROT_ARP_def PROT_RARP_def PROT_VLAN_def)
  have sizes: "length (mac @ NetOurEther n) = 12" using mac by simp
  show ?thesis
  proof (cases "?v = VLAN_NONE")
    case True
    have p: "?p = (mac @ NetOurEther n) @ be16 prot @ q"
      using True by (simp add: NetSetEther_def Let_def)
    have x: "get16 ?p 12 = prot" unfolding p using sizes by (rule get16_at)
    have l: "length (NetSetEther n mac prot) = 14"
      using True mac by (simp add: NetSetEther_def Let_def)
    show ?thesis
      using len True big unfolding frame_payload_def l vlan Let_def x
      by (simp add: ETHER_HDR_SIZE_def)
  next
    case False
    have p: "?p = (mac @ NetOurEther n) @ be16 PROT_VLAN @ be16 ?v @ be16 prot @ q"
      using False by (simp add: NetSetEther_def Let_def)
    have x: "get16 ?p 12 = PROT_VLAN" unfolding p using sizes by (rule get16_at)
    have "?p = ((mac @ NetOurEther n) @ be16 PROT_VLAN) @ be16 ?v @ be16 prot @ q" using p by simp
    then have tag: "get16 ?p 14 = ?v" by (simp only:) (rule get16_at, use sizes in simp)
    have "?p = ((mac @ NetOurEther n) @ be16 PROT_VLAN @ be16 ?v) @ be16 prot @ q" using p by simp
    then have ptype: "get16 ?p 16 = prot" by (simp only:) (rule get16_at, use sizes in simp)
    have l: "length (NetSetEther n mac prot) = 18"
      using False mac by (simp add: NetSetEther_def Let_def)
    have active: "htons (NetOurVLAN n) AND VLAN_IDMASK \<noteq> VLAN_NONE"
      using False by (auto simp: my_vlan_def VLAN_IDMASK_def VLAN_NONE_def split: if_splits)
    have vx: "\<not> PROT_VLAN < 1514" by (simp add: PROT_VLAN_def)
    show ?thesis
      using len False active vx unfolding frame_payload_def l vlan Let_def x tag ptype
      by (simp add: ETHER_HDR_SIZE_def VLAN_ETHER_HDR_SIZE_def)
  qed
qed

lemma NetReadIP_WriteIP [simp]: "NetReadIP (NetWriteIP w @ q) 0 = w"
  by (simp add: NetReadIP_def NetWriteIP_def word32_bytes_def)

lemma NetReadIP_at: "length pre = i \<Longrightarrow> NetReadIP (pre @ NetWriteIP w @ q) i = w"
  using NetReadIP_shift [of pre "NetWriteIP w @ q" 0] by simp

text \<open>
  A UDP packet as another machine with that address takes it apart; \<open>l\<close> is what its length field
  says.
\<close>

lemma receive_ip_of_sent_length:
  assumes "NetOurIP m = dest \<or> dest = 0xFFFFFFFF" and "length body \<le> 1472"
  shows "receive_ip handle (eh @ take 24 (fst (NetSetIP dest dport sport (length body) n)) @ be16 l @ [0, 0] @ body @ pad)
      (length eh) (int (28 + length body + k)) m =
    handle (packetHandler m) (body @ pad) dport sport (ucast l - 8) m"
proof -
  obtain s0 s1 where
    h: "fst (NetSetIP dest dport sport (length body) n) =
      [0x45, 0] @ be16 (of_nat (28 + length body)) @ be16 (ucast (NetIPID n)) @ [0x40, 0, 255, 17, s0, s1] @
      NetWriteIP (NetOurIP n) @ NetWriteIP dest @ be16 sport @ be16 dport @ be16 (of_nat (8 + length body)) @ [0, 0]"
    and ok: "\<And>q. NetCksumOk (take 20 (fst (NetSetIP dest dport sport (length body) n)) @ q) 10"
    using NetSetIP_bytes [of dest dport sport "length body" n] by metis
  define iph where "iph = take 24 (fst (NetSetIP dest dport sport (length body) n)) @ be16 l @ [0, 0]"
  let ?q = "iph @ body @ pad" and ?p = "eh @ iph @ body @ pad"
  let ?id = "[0x45, 0] @ be16 (of_nat (28 + length body)) @ be16 (ucast (NetIPID n))"
  let ?src = "?id @ [0x40, 0, 255, 17, s0, s1] @ NetWriteIP (NetOurIP n)"
  let ?ports = "?src @ NetWriteIP dest"
  have iph: "iph = ?ports @ be16 sport @ be16 dport @ be16 l @ [0, 0]" by (simp add: iph_def h)
  have ln: "length iph = 28" by (simp add: iph)
  have get: "get16 ?p (length eh + i) = get16 ?q i" "NetReadIP ?p (length eh + i) = NetReadIP ?q i"
    "?p ! (length eh + i) = ?q ! i" for i
    by (simp_all add: nth_append)
  have get0: "?p ! length eh = ?q ! 0" using get(3) [of 0] by simp
  have rest: "drop (length eh) ?p = ?q" "drop (length eh + IP_HDR_SIZE) ?p = body @ pad"
    using ln by (simp_all add: IP_HDR_SIZE_def)
  have f: "get16 ?q 2 = of_nat (28 + length body)"
    using get16_at [of "[0x45, 0]" 2 "of_nat (28 + length body)"] by (simp add: iph)
  have g: "get16 ?q 6 = 0x4000" "?q ! 9 = 17" "?q ! 0 = 0x45"
    by (simp_all add: iph get16_def be16_def)
  have d: "NetReadIP ?q 16 = dest"
    using NetReadIP_at [of ?src 16 dest] by (simp add: iph)
  have u: "get16 ?q 20 = sport" "get16 ?q 22 = dport" "get16 ?q 24 = l"
    using get16_at [of ?ports 20 sport] get16_at [of "?ports @ be16 sport" 22 dport]
      get16_at [of "?ports @ be16 sport @ be16 dport" 24 l]
    by (simp_all add: iph)
  have sz: "unat (of_nat (28 + length body) :: u16) = 28 + length body"
    by (rule unat_of_nat_u16) (use assms(2) in simp)
  have ck: "NetCksumOk ?q (int (IP_HDR_SIZE_NO_UDP div 2))"
  proof -
    have "?q = take 20 (fst (NetSetIP dest dport sport (length body) n)) @
        be16 sport @ be16 dport @ be16 l @ [0, 0] @ body @ pad"
      by (simp add: iph_def h)
    then show ?thesis using ok by (simp add: IP_HDR_SIZE_NO_UDP_def)
  qed
  have hv: "(0x45 :: u8) AND 0xf0 = 0x40" "\<not> (0x45 :: u8) AND 0x0f > 0x05"
    "(0x4000 :: u16) AND (IP_OFFS OR IP_FLAGS_MFRAG) = 0"
    by (simp_all add: IP_OFFS_def IP_FLAGS_MFRAG_def)
  have "receive_ip handle ?p (length eh) (int (28 + length body + k)) m =
      handle (packetHandler m) (body @ pad) dport sport (ucast l - 8) m"
    using assms(1) ck
    unfolding receive_ip_def Let_def NetDefragment_def get get0 rest f g d u sz
    using hv by (auto simp: IP_HDR_SIZE_def IPPROTO_ICMP_def IPPROTO_UDP_def)
  then show ?thesis by (simp add: iph_def)
qed

lemma receive_ip_of_sent:
  assumes "NetOurIP m = dest \<or> dest = 0xFFFFFFFF" and "length body \<le> 1472"
  shows "receive_ip handle (eh @ fst (NetSetIP dest dport sport (length body) n) @ body @ pad)
      (length eh) (int (28 + length body + k)) m =
    handle (packetHandler m) (body @ pad) dport sport (of_nat (length body)) m"
proof -
  let ?h = "fst (NetSetIP dest dport sport (length body) n)"
  have "?h = take 24 ?h @ be16 (of_nat (8 + length body)) @ [0, 0]"
    by (rule NetSetIP_bytes [of dest dport sport "length body" n]) simp
  then have h: "eh @ ?h @ body @ pad =
      eh @ take 24 ?h @ be16 (of_nat (8 + length body)) @ [0, 0] @ body @ pad"
    by (metis append_assoc)
  have "unat (of_nat (8 + length body) :: u16) = 8 + length body"
    by (rule unat_of_nat_u16) (use assms(2) in simp)
  moreover have "(ucast (of_nat (8 + length body) :: u16) :: u32) = of_nat (unat (of_nat (8 + length body) :: u16))"
    by (simp only: of_nat_unat)
  ultimately have ul: "ucast (of_nat (8 + length body) :: u16) - 8 = (of_nat (length body) :: u32)"
    by simp
  show ?thesis unfolding h receive_ip_of_sent_length [OF assms] ul ..
qed

lemma snd_NetSetIP [simp]: "snd (NetSetIP dest dport sport len n) = n\<lparr>NetIPID := NetIPID n + 1\<rparr>"
  by (simp add: NetSetIP_def Let_def)

text \<open>The frame that carries a body to a known address.\<close>

definition udp_frame :: "'a net_scheme \<Rightarrow> u8 list \<Rightarrow> u32 \<Rightarrow> u16 \<Rightarrow> u16 \<Rightarrow> u8 list \<Rightarrow> u8 list" where
  "udp_frame n mac dest dport sport body =
     NetSetEther n mac PROT_IP @ fst (NetSetIP dest dport sport (length body) n) @ body"

lemma send_known:
  assumes "mac_of n ether \<noteq> NetEtherNullAddr" "dest \<noteq> 0" "dest = 0xFFFFFFFF \<Longrightarrow> ether = BcastAddr"
  shows "NetSendUDPPacket ether dest dport sport body n =
    (n\<lparr>NetIPID := NetIPID n + 1, sent := sent n @ [udp_frame n (mac_of n ether) dest dport sport body]\<rparr>, False)"
proof -
  have "(if dest = 0xFFFFFFFF then BcastAddr else ether) = ether" using assms(3) by auto
  then show ?thesis
    using assms(1,2) snd_NetSetIP [of dest dport sport "length body" n]
    by (cases "NetSetIP dest dport sport (length body) n")
      (simp add: NetSendUDPPacket_def eth_send_def udp_frame_def)
qed

lemma length_NetSetIP [simp]: "length (fst (NetSetIP dest dport sport len n)) = 28"
  by (simp add: NetSetIP_def Let_def)

lemma receive_udp_frame:
  assumes mac: "length mac = 6" "length (NetOurEther n) = 6" and vlan: "NetOurVLAN m = NetOurVLAN n"
    and dest: "NetOurIP m = dest \<or> dest = 0xFFFFFFFF" and len: "length body \<le> 1472"
  shows "NetReceive handle (udp_frame n mac dest dport sport body @ pad)
      (int (length (udp_frame n mac dest dport sport body) + k)) m =
    handle (packetHandler m) (body @ pad) dport sport (of_nat (length body)) m"
proof -
  let ?eh = "NetSetEther n mac PROT_IP" and ?iph = "fst (NetSetIP dest dport sport (length body) n)"
  let ?len = "int (length (udp_frame n mac dest dport sport body) + k)"
  have frame: "udp_frame n mac dest dport sport body @ pad = ?eh @ ?iph @ body @ pad"
    by (simp add: udp_frame_def)
  have l: "?len = int (length ?eh) + int (28 + length body + k)" by (simp add: udp_frame_def)
  have "frame_payload m (?eh @ ?iph @ body @ pad) ?len = Some (length ?eh, ?len - int (length ?eh), PROT_IP)"
    using payload_of_sent [OF mac _ vlan, of PROT_IP ?len "?iph @ body @ pad"] l
    by (simp add: good_prot_def)
  moreover have "?len - int (length ?eh) = int (28 + length body + k)" using l by simp
  moreover have "PROT_IP \<noteq> PROT_ARP" "PROT_IP \<noteq> PROT_RARP"
    by (simp_all add: PROT_IP_def PROT_ARP_def PROT_RARP_def)
  ultimately show ?thesis
    unfolding NetReceive_def frame by (simp only: option.case prod.case if_False simp_thms receive_ip_of_sent [OF dest len])
      simp
qed

section \<open>Address resolution\<close>

lemma overwrite_at: "length a = i \<Longrightarrow> length b = length b' \<Longrightarrow> overwrite (a @ b @ c) i b' = a @ b' @ c"
  by (simp add: overwrite_def)

lemma slice_at: "length a = i \<Longrightarrow> length b = n \<Longrightarrow> slice (a @ b @ c) i n = b"
  by (simp add: slice_def)

text \<open>An ARP packet for Ethernet and IP.\<close>

definition arp_packet :: "u16 \<Rightarrow> u8 list \<Rightarrow> u32 \<Rightarrow> u8 list \<Rightarrow> u32 \<Rightarrow> u8 list" where
  "arp_packet op sha spa tha tpa =
     be16 1 @ be16 PROT_IP @ [6, 4] @ be16 op @ sha @ NetWriteIP spa @ tha @ NetWriteIP tpa"

lemma arp_packet_fields:
  assumes "length sha = 6" "length tha = 6" "length eh = off"
  shows "arp_header_ok (eh @ arp_packet op sha spa tha tpa @ q) off"
    "get16 (eh @ arp_packet op sha spa tha tpa @ q) (off + 6) = op"
    "slice (eh @ arp_packet op sha spa tha tpa @ q) (off + 8) 6 = sha"
    "NetReadIP (eh @ arp_packet op sha spa tha tpa @ q) (off + 14) = spa"
    "NetReadIP (eh @ arp_packet op sha spa tha tpa @ q) (off + 24) = tpa"
proof -
  let ?h = "be16 1 @ be16 PROT_IP @ [6, 4]"
  note arp = arp_packet_def
  show "get16 (eh @ arp_packet op sha spa tha tpa @ q) (off + 6) = op"
    using get16_at [of "eh @ ?h" "off + 6"] assms by (simp add: arp)
  show "slice (eh @ arp_packet op sha spa tha tpa @ q) (off + 8) 6 = sha"
    using slice_at [of "eh @ ?h @ be16 op" "off + 8" sha 6] assms by (simp add: arp)
  show "NetReadIP (eh @ arp_packet op sha spa tha tpa @ q) (off + 14) = spa"
    using NetReadIP_at [of "eh @ ?h @ be16 op @ sha" "off + 14"] assms by (simp add: arp)
  show "NetReadIP (eh @ arp_packet op sha spa tha tpa @ q) (off + 24) = tpa"
    using NetReadIP_at [of "eh @ ?h @ be16 op @ sha @ NetWriteIP spa @ tha" "off + 24"] assms by (simp add: arp)
  have "get16 (eh @ be16 1 @ r) off = 1" for r using get16_at [OF assms(3)] .
  moreover have "get16 (eh @ be16 1 @ be16 PROT_IP @ r) (off + 2) = PROT_IP" for r
    using get16_at [of "eh @ be16 1" "off + 2"] assms(3) by simp
  moreover have "(eh @ be16 1 @ be16 PROT_IP @ [6, 4] @ r) ! (off + 4) = 6"
      "(eh @ be16 1 @ be16 PROT_IP @ [6, 4] @ r) ! (off + 5) = 4" for r
    using assms(3) by (simp_all add: nth_append be16_def)
  ultimately show "arp_header_ok (eh @ arp_packet op sha spa tha tpa @ q) off"
    by (simp add: arp_header_ok_def arp)
qed

lemma length_arp_packet: "length sha = 6 \<Longrightarrow> length tha = 6 \<Longrightarrow> length (arp_packet op sha spa tha tpa) = 28"
  by (simp add: arp_packet_def)

lemma ArpRequest_sends:
  "ArpRequest n = (let r = (if NetArpWaitPacketIP n AND NetOurSubnetMask n \<noteq> NetOurIP n AND NetOurSubnetMask n
                            \<and> NetOurGatewayIP n \<noteq> 0 then NetOurGatewayIP n else NetArpWaitPacketIP n) in
     n\<lparr>NetArpWaitReplyIP := r, sent := sent n @ [NetSetEther n NetBcastAddr PROT_ARP @
         arp_packet ARPOP_REQUEST (NetOurEther n) (NetOurIP n) (replicate 6 0) r]\<rparr>)"
  by (simp add: ArpRequest_def arp_packet_def eth_send_def ARPOP_REQUEST_def NetSetEther_def Let_def)

lemma length_NetSetEther:
  assumes "length mac = 6" "length (NetOurEther n) = 6"
  shows "length (NetSetEther n mac prot) = NetEthHdrSize n"
  using assms by (simp add: NetSetEther_def NetEthHdrSize_def ETHER_HDR_SIZE_def VLAN_ETHER_HDR_SIZE_def Let_def)

lemma NetSetEther_source:
  assumes "length mac = 6" "length (NetOurEther n) = 6"
  shows "slice (NetSetEther n mac prot @ q) 6 6 = NetOurEther n"
  using assms slice_at [of mac 6 "NetOurEther n" 6] by (simp add: NetSetEther_def Let_def)

text \<open>A request for our address is answered with ours and the sender's addresses exchanged.\<close>

lemma arp_answer_packet:
  assumes mac: "length mac = 6" "length (NetOurEther n) = 6" "length (NetOurEther m) = 6"
    and vlan: "NetOurVLAN m = NetOurVLAN n"
  shows "arp_answer m (NetSetEther n mac PROT_ARP @ arp_packet op (NetOurEther n) spa (replicate 6 0) tpa @ q)
      (NetEthHdrSize n) =
    NetSetEther m (NetOurEther n) PROT_ARP @ arp_packet ARPOP_REPLY (NetOurEther m) (NetOurIP m) (NetOurEther n) spa"
proof -
  let ?eh = "NetSetEther m (NetOurEther n) PROT_ARP" and ?off = "NetEthHdrSize n"
  let ?h = "be16 1 @ be16 PROT_IP @ [6, 4]"
  have lm: "length ?eh = ?off"
    using length_NetSetEther [of "NetOurEther n" m] mac vlan by (simp add: NetEthHdrSize_def)
  have ln: "length (NetSetEther n mac PROT_ARP) = ?off" using mac(1,2) by (rule length_NetSetEther)
  have 1: "overwrite (NetSetEther n mac PROT_ARP @ r) 0 ?eh = ?eh @ r" for r
    using overwrite_at [of "[]" 0] lm ln by simp
  have 2: "overwrite (?eh @ ?h @ be16 op @ r) (?off + 6) (be16 ARPOP_REPLY) = ?eh @ ?h @ be16 ARPOP_REPLY @ r" for r
    using overwrite_at [of "?eh @ ?h" "?off + 6" "be16 op" "be16 ARPOP_REPLY"] lm by simp
  have s: "slice (?eh @ ?h @ be16 ARPOP_REPLY @ NetOurEther n @ r) (?off + 8) 6 = NetOurEther n" for r
    using slice_at [of "?eh @ ?h @ be16 ARPOP_REPLY" "?off + 8"] lm mac by simp
  have 3: "overwrite (?eh @ ?h @ be16 ARPOP_REPLY @ NetOurEther n @ NetWriteIP spa @ replicate 6 0 @ r) (?off + 18) a =
      ?eh @ ?h @ be16 ARPOP_REPLY @ NetOurEther n @ NetWriteIP spa @ a @ r" if "length a = 6" for a r
    using overwrite_at [of "?eh @ ?h @ be16 ARPOP_REPLY @ NetOurEther n @ NetWriteIP spa" "?off + 18" "replicate 6 0" a]
      lm mac that by simp
  have s': "slice (?eh @ ?h @ be16 ARPOP_REPLY @ NetOurEther n @ NetWriteIP spa @ r) (?off + 14) 4 = NetWriteIP spa" for r
    using slice_at [of "?eh @ ?h @ be16 ARPOP_REPLY @ NetOurEther n" "?off + 14" "NetWriteIP spa"] lm mac by simp
  have 4: "overwrite (?eh @ ?h @ be16 ARPOP_REPLY @ NetOurEther n @ NetWriteIP spa @ a @ NetWriteIP b @ r) (?off + 24) (NetWriteIP c) =
      ?eh @ ?h @ be16 ARPOP_REPLY @ NetOurEther n @ NetWriteIP spa @ a @ NetWriteIP c @ r" if "length a = 6" for a b c r
    using overwrite_at [of "?eh @ ?h @ be16 ARPOP_REPLY @ NetOurEther n @ NetWriteIP spa @ a" "?off + 24" "NetWriteIP b" "NetWriteIP c"]
      lm mac that by simp
  have 5: "overwrite (?eh @ ?h @ be16 ARPOP_REPLY @ NetOurEther n @ r) (?off + 8) a =
      ?eh @ ?h @ be16 ARPOP_REPLY @ a @ r" if "length a = 6" for a r
    using overwrite_at [of "?eh @ ?h @ be16 ARPOP_REPLY" "?off + 8" "NetOurEther n" a] lm mac that by simp
  have 6: "overwrite (?eh @ ?h @ be16 ARPOP_REPLY @ a @ NetWriteIP b @ r) (?off + 14) (NetWriteIP c) =
      ?eh @ ?h @ be16 ARPOP_REPLY @ a @ NetWriteIP c @ r" if "length a = 6" for a b c r
    using overwrite_at [of "?eh @ ?h @ be16 ARPOP_REPLY @ a" "?off + 14" "NetWriteIP b" "NetWriteIP c"] lm that by simp
  have c: "?off + 8 + 10 = ?off + 18" "?off + 8 + 16 = ?off + 24" "?off + 8 + 6 = ?off + 14" by simp_all
  have "arp_answer m (NetSetEther n mac PROT_ARP @ ?h @ be16 op @ NetOurEther n @ NetWriteIP spa @ replicate 6 0 @
        NetWriteIP tpa @ q) ?off =
      take (length ?eh + ARP_HDR_SIZE) (?eh @ ?h @ be16 ARPOP_REPLY @ NetOurEther m @ NetWriteIP (NetOurIP m) @
        NetOurEther n @ NetWriteIP spa @ q)"
    unfolding arp_answer_def Let_def NetSetEther_source [OF mac(1,2)] c
    by (simp only: 1 2 s 3 [OF mac(2)] s' 4 [OF mac(2)] 5 [OF mac(3)] 6 [OF mac(3)])
  then show ?thesis using mac by (simp add: arp_packet_def ARP_HDR_SIZE_def)
qed

lemma receive_sent_arp:
  assumes mac: "length mac = 6" "length (NetOurEther n) = 6" and vlan: "NetOurVLAN m = NetOurVLAN n"
    and arp: "length sha = 6" "length tha = 6"
  shows "NetReceive handle (NetSetEther n mac PROT_ARP @ arp_packet op sha spa tha tpa @ pad)
      (int (length (NetSetEther n mac PROT_ARP @ arp_packet op sha spa tha tpa) + k)) m =
    Some (receive_arp (NetSetEther n mac PROT_ARP @ arp_packet op sha spa tha tpa @ pad) (NetEthHdrSize n)
      (int (28 + k)) m)"
proof -
  let ?eh = "NetSetEther n mac PROT_ARP" and ?arp = "arp_packet op sha spa tha tpa"
  have l: "int (length (?eh @ ?arp) + k) = int (length ?eh) + int (28 + k)"
    by (simp add: length_arp_packet [OF arp])
  have "frame_payload m (?eh @ ?arp @ pad) (int (length ?eh) + int (28 + k)) =
      Some (length ?eh, int (28 + k), PROT_ARP)"
    using payload_of_sent [OF mac _ vlan, of PROT_ARP "int (length ?eh) + int (28 + k)" "?arp @ pad"]
    by (simp add: good_prot_def)
  then show ?thesis
    unfolding NetReceive_def l length_NetSetEther [OF mac] by simp
qed

text \<open>The owner of the address answers a request.\<close>

lemma request_answered:
  assumes mac: "length (NetOurEther n) = 6" "length (NetOurEther m) = 6"
    and vlan: "NetOurVLAN m = NetOurVLAN n" and ip: "NetOurIP m \<noteq> 0"
  shows "NetReceive handle (NetSetEther n NetBcastAddr PROT_ARP @
        arp_packet ARPOP_REQUEST (NetOurEther n) spa (replicate 6 0) (NetOurIP m) @ pad)
      (int (length (NetSetEther n NetBcastAddr PROT_ARP @
        arp_packet ARPOP_REQUEST (NetOurEther n) spa (replicate 6 0) (NetOurIP m)) + k)) m =
    Some (eth_send (NetSetEther m (NetOurEther n) PROT_ARP @
        arp_packet ARPOP_REPLY (NetOurEther m) (NetOurIP m) (NetOurEther n) spa) m)"
proof -
  let ?p = "NetSetEther n NetBcastAddr PROT_ARP @
    arp_packet ARPOP_REQUEST (NetOurEther n) spa (replicate 6 0) (NetOurIP m) @ pad"
  have b: "length NetBcastAddr = 6" by (simp add: NetBcastAddr_def)
  note f = arp_packet_fields [OF mac(1) length_replicate length_NetSetEther [OF b mac(1)],
    of PROT_ARP ARPOP_REQUEST spa "0" "NetOurIP m" pad]
  have "receive_arp ?p (NetEthHdrSize n) (int (28 + k)) m =
      eth_send (arp_answer m ?p (NetEthHdrSize n)) m"
    using f ip by (simp add: receive_arp_def Let_def ARP_HDR_SIZE_def add.assoc)
  then show ?thesis
    unfolding receive_sent_arp [OF b mac(1) vlan mac(1) length_replicate]
      arp_answer_packet [OF b mac vlan] by simp
qed

text \<open>The reply that was waited for releases the packet.\<close>

lemma reply_releases:
  assumes mac: "length (NetOurEther n) = 6" "length (NetOurEther m) = 6"
    and vlan: "NetOurVLAN m = NetOurVLAN n" and ip: "NetOurIP n \<noteq> 0"
    and wait: "NetArpWaitPacketMAC n = Some ether" "NetArpWaitPacketIP n \<noteq> 0" "NetArpWaitReplyIP n = spa"
    and tx: "NetArpWaitTx n = null @ rest" "length null = 6" and ref: "ether \<noteq> BcastAddr"
  shows "NetReceive handle (NetSetEther m (NetOurEther n) PROT_ARP @
        arp_packet ARPOP_REPLY (NetOurEther m) spa (NetOurEther n) (NetOurIP n) @ pad)
      (int (length (NetSetEther m (NetOurEther n) PROT_ARP @
        arp_packet ARPOP_REPLY (NetOurEther m) spa (NetOurEther n) (NetOurIP n)) + k)) n =
    Some (set_mac ether (NetOurEther m) (n\<lparr>sent := sent n @ [NetOurEther m @ rest],
      NetArpWaitPacketIP := 0, NetArpWaitTx := [], NetArpWaitPacketMAC := None\<rparr>))"
proof -
  let ?p = "NetSetEther m (NetOurEther n) PROT_ARP @
        arp_packet ARPOP_REPLY (NetOurEther m) spa (NetOurEther n) (NetOurIP n) @ pad"
  note f = arp_packet_fields [OF mac(2) mac(1) length_NetSetEther [OF mac(1) mac(2)],
    of PROT_ARP ARPOP_REPLY spa "NetOurIP n" pad]
  have o: "overwrite (null @ rest) 0 (NetOurEther m) = NetOurEther m @ rest"
    using overwrite_at [of "[]" 0 null "NetOurEther m" rest] tx(2) mac(2) by simp
  have "receive_arp ?p (NetEthHdrSize m) (int (28 + k)) n =
      set_mac ether (NetOurEther m) (n\<lparr>sent := sent n @ [NetOurEther m @ rest],
      NetArpWaitPacketIP := 0, NetArpWaitTx := [], NetArpWaitPacketMAC := None\<rparr>)"
    using f ip wait tx(1) ref
    by (cases ether) (simp_all add: receive_arp_def Let_def ARP_HDR_SIZE_def ARPOP_REQUEST_def ARPOP_REPLY_def
      eth_send_def o add.assoc)
  then show ?thesis
    unfolding receive_sent_arp [OF mac(1) mac(2) vlan [symmetric] mac(2) mac(1)] by simp
qed

text \<open>A packet for an address not known yet waits, and a request goes out.\<close>

lemma send_unknown:
  assumes null: "mac_of n ether = NetEtherNullAddr" and ref: "ether \<noteq> BcastAddr"
    and dest: "dest \<noteq> 0" "dest \<noteq> 0xFFFFFFFF" "dest AND NetOurSubnetMask n = NetOurIP n AND NetOurSubnetMask n"
  obtains rest n1 where
    "NetSendUDPPacket ether dest dport sport body n = (n1, True)"
    "NetArpWaitTx n1 = NetEtherNullAddr @ rest" "\<And>mac. udp_frame n mac dest dport sport body = mac @ rest"
    "sent n1 = sent n @ [NetSetEther n NetBcastAddr PROT_ARP @
       arp_packet ARPOP_REQUEST (NetOurEther n) (NetOurIP n) (replicate 6 0) dest]"
    "NetArpWaitPacketMAC n1 = Some ether" "NetArpWaitPacketIP n1 = dest" "NetArpWaitReplyIP n1 = dest"
    "NetOurEther n1 = NetOurEther n" "NetOurIP n1 = NetOurIP n" "NetOurVLAN n1 = NetOurVLAN n"
proof -
  obtain rest' where rest': "\<And>mac. NetSetEther n mac PROT_IP = mac @ rest'"
    unfolding NetSetEther_def Let_def by (cases "my_vlan (NetOurVLAN n) AND VLAN_IDMASK = VLAN_NONE") auto
  let ?iph = "fst (NetSetIP dest dport sport (length body) n)"
  let ?n = "n\<lparr>NetArpWaitPacketIP := dest, NetArpWaitPacketMAC := Some ether\<rparr>"
  have eth: "NetSetEther (n\<lparr>NetArpWaitPacketIP := a, NetArpWaitPacketMAC := b\<rparr>) mac prot = NetSetEther n mac prot"
    "NetSetEther (n\<lparr>NetIPID := j, NetArpWaitPacketIP := a, NetArpWaitPacketMAC := b, NetArpWaitTx := x,
       NetArpWaitTry := t, NetArpWaitTimerStart := u\<rparr>) mac prot = NetSetEther n mac prot" for a b j x t u mac prot
    by (simp_all add: NetSetEther_def)
  have ref_mac: "mac_of (n\<lparr>NetArpWaitPacketIP := a, NetArpWaitPacketMAC := b\<rparr>) ether = mac_of n ether" for a b
    by (cases ether) simp_all
  have ip: "NetSetIP dest dport sport (length body) ?n =
      (?iph, n\<lparr>NetIPID := NetIPID n + 1, NetArpWaitPacketIP := dest, NetArpWaitPacketMAC := Some ether\<rparr>)"
    by (simp add: NetSetIP_def Let_def)
  obtain n1 where n1: "NetSendUDPPacket ether dest dport sport body n = (n1, True)"
    "n1 = ArpRequest (n\<lparr>NetIPID := NetIPID n + 1, NetArpWaitPacketIP := dest, NetArpWaitPacketMAC := Some ether,
       NetArpWaitTx := NetEtherNullAddr @ rest' @ ?iph @ body, NetArpWaitTry := 1, NetArpWaitTimerStart := clock n\<rparr>)"
    using null dest(1,2) ip by (simp add: NetSendUDPPacket_def eth rest' ref_mac)
  show thesis
    by (rule that [OF n1(1), of "rest' @ ?iph @ body"])
      (simp_all add: n1(2) ArpRequest_sends dest(3) eth udp_frame_def rest' Let_def)
qed

text \<open>
  C21: address resolution works. A packet for a machine on the subnet whose Ethernet address is not
  known waits while a request is broadcast; that machine, on receiving the request, answers it; and
  the answer makes the sender send the waiting packet, which is then received by that machine as if
  the address had been known. The frames may be padded behind their end, as short frames are.
\<close>

theorem arp_exchange_delivers:
  assumes "length (NetOurEther n) = 6" and "length (NetOurEther m) = 6"
    and "mac_of n ether = NetEtherNullAddr" and "ether \<noteq> BcastAddr"
    and "NetOurVLAN m = NetOurVLAN n" and "NetOurIP n \<noteq> 0"
    and "NetOurIP m \<noteq> 0" and "NetOurIP m \<noteq> 0xFFFFFFFF"
    and "NetOurIP m AND NetOurSubnetMask n = NetOurIP n AND NetOurSubnetMask n"
    and "length body \<le> 1472"
  shows "\<exists>n1 request answer n2 frame.
    NetSendUDPPacket ether (NetOurIP m) dport sport body n = (n1, True) \<and>
    sent n1 = sent n @ [request] \<and>
    (\<forall>handle pad k. NetReceive handle (request @ pad) (int (length request + k)) m = Some (eth_send answer m)) \<and>
    (\<forall>handle pad k. NetReceive handle (answer @ pad) (int (length answer + k)) n1 = Some n2) \<and>
    sent n2 = sent n1 @ [frame] \<and> mac_of n2 ether = NetOurEther m \<and> NetArpWaitPacketIP n2 = 0 \<and>
    (\<forall>handle pad k. NetReceive handle (frame @ pad) (int (length frame + k)) m =
       handle (packetHandler m) (body @ pad) dport sport (of_nat (length body)) m)"
proof -
  obtain rest n1 where
    send: "NetSendUDPPacket ether (NetOurIP m) dport sport body n = (n1, True)"
    and tx: "NetArpWaitTx n1 = NetEtherNullAddr @ rest"
    and frame: "\<And>mac. udp_frame n mac (NetOurIP m) dport sport body = mac @ rest"
    and sent: "sent n1 = sent n @ [NetSetEther n NetBcastAddr PROT_ARP @
       arp_packet ARPOP_REQUEST (NetOurEther n) (NetOurIP n) (replicate 6 0) (NetOurIP m)]"
    and wait: "NetArpWaitPacketMAC n1 = Some ether" "NetArpWaitPacketIP n1 = NetOurIP m" "NetArpWaitReplyIP n1 = NetOurIP m"
    and same: "NetOurEther n1 = NetOurEther n" "NetOurIP n1 = NetOurIP n" "NetOurVLAN n1 = NetOurVLAN n"
    using send_unknown [OF assms(3,4,7,8,9)] by metis
  let ?request = "NetSetEther n NetBcastAddr PROT_ARP @
    arp_packet ARPOP_REQUEST (NetOurEther n) (NetOurIP n) (replicate 6 0) (NetOurIP m)"
  let ?answer = "NetSetEther m (NetOurEther n) PROT_ARP @
    arp_packet ARPOP_REPLY (NetOurEther m) (NetOurIP m) (NetOurEther n) (NetOurIP n)"
  let ?frame = "udp_frame n (NetOurEther m) (NetOurIP m) dport sport body"
  let ?n2 = "set_mac ether (NetOurEther m) (n1\<lparr>sent := sent n1 @ [?frame],
    NetArpWaitPacketIP := 0, NetArpWaitTx := [], NetArpWaitPacketMAC := None\<rparr>)"
  have answer: "NetReceive handle (?request @ pad) (int (length ?request + k)) m = Some (eth_send ?answer m)"
    for handle pad k
    using request_answered [OF assms(1,2,5,7)] by simp
  have release: "NetReceive handle (?answer @ pad) (int (length ?answer + k)) n1 = Some ?n2" for handle pad k
    using reply_releases [of n1 m ether "NetOurIP m" NetEtherNullAddr rest handle pad k] assms(1,2,4,5,6,7)
      tx wait same frame by (simp add: NetEtherNullAddr_def)
  have deliver: "NetReceive handle (?frame @ pad) (int (length ?frame + k)) m =
      handle (packetHandler m) (body @ pad) dport sport (of_nat (length body)) m" for handle pad k
    by (rule receive_udp_frame [OF assms(2,1,5) _ assms(10)]) simp
  have n2: "sent ?n2 = sent n1 @ [?frame]" "mac_of ?n2 ether = NetOurEther m" "NetArpWaitPacketIP ?n2 = 0"
    using assms(4) by (cases ether; simp)+
  show ?thesis
    by (intro exI conjI allI) (rule send sent answer release n2 deliver)+
qed

text \<open>A machine of the network, for examples.\<close>

definition machine :: "u8 list \<Rightarrow> u32 \<Rightarrow> net" where
  "machine mac ip =
     \<lparr>NetOurEther = mac, NetServerEther = NetEtherNullAddr, NetOurIP = ip, NetServerIP = 0, NetOurSubnetMask = 0x00FFFFFF,
      NetOurGatewayIP = 0, NetOurVLAN = 0xFFFF, NetOurNativeVLAN = 0xFFFF, NetIPID = 0, NetArpWaitPacketIP = 0,
      NetArpWaitReplyIP = 0, NetArpWaitPacketMAC = None, NetArpWaitTx = [], NetArpWaitTry = 0,
      NetArpWaitTimerStart = 0, ping_mac = NetEtherNullAddr, NetPingIP = 0, PingSeqNo = 0,
      NetState = NETLOOP_CONTINUE, packetHandler = NoHandler, timeHandler = None, timeStart = 0, timeDelta = 0,
      NetTryCount = 0, NetRestarted = False, NetDevExists = True, NetRestartWrap = False, eth_count = 1,
      eth_current = 0, first_failed = None, env_var = (\<lambda>v. None), clock = 0, sent = []\<rparr>"

theorem arp_exchange_delivers_witness:
  "\<exists>n1 request answer n2 frame.
    NetSendUDPPacket ServerEther 0x1E00A8C0 69 1024 [0, 1] (machine [2, 0, 0, 0, 0, 1] 0x0A00A8C0) = (n1, True) \<and>
    sent n1 = [request] \<and>
    (\<forall>handle pad k. NetReceive handle (request @ pad) (int (length request + k)) (machine [2, 0, 0, 0, 0, 2] 0x1E00A8C0) =
       Some (eth_send answer (machine [2, 0, 0, 0, 0, 2] 0x1E00A8C0))) \<and>
    (\<forall>handle pad k. NetReceive handle (answer @ pad) (int (length answer + k)) n1 = Some n2) \<and>
    sent n2 = [request, frame] \<and> NetServerEther n2 = [2, 0, 0, 0, 0, 2] \<and> NetArpWaitPacketIP n2 = 0 \<and>
    (\<forall>handle pad k. NetReceive handle (frame @ pad) (int (length frame + k)) (machine [2, 0, 0, 0, 0, 2] 0x1E00A8C0) =
       handle NoHandler ([0, 1] @ pad) 69 1024 2 (machine [2, 0, 0, 0, 0, 2] 0x1E00A8C0))"
proof -
  obtain n1 request answer n2 frame where
    "NetSendUDPPacket ServerEther 0x1E00A8C0 69 1024 [0, 1] (machine [2, 0, 0, 0, 0, 1] 0x0A00A8C0) = (n1, True)"
    "sent n1 = [] @ [request]"
    "\<forall>handle pad k. NetReceive handle (request @ pad) (int (length request + k)) (machine [2, 0, 0, 0, 0, 2] 0x1E00A8C0) =
       Some (eth_send answer (machine [2, 0, 0, 0, 0, 2] 0x1E00A8C0))"
    "\<forall>handle pad k. NetReceive handle (answer @ pad) (int (length answer + k)) n1 = Some n2"
    "sent n2 = sent n1 @ [frame]" "mac_of n2 ServerEther = [2, 0, 0, 0, 0, 2]" "NetArpWaitPacketIP n2 = 0"
    "\<forall>handle pad k. NetReceive handle (frame @ pad) (int (length frame + k)) (machine [2, 0, 0, 0, 0, 2] 0x1E00A8C0) =
       handle NoHandler ([0, 1] @ pad) 69 1024 2 (machine [2, 0, 0, 0, 0, 2] 0x1E00A8C0)"
    using arp_exchange_delivers [of "machine [2, 0, 0, 0, 0, 1] 0x0A00A8C0" "machine [2, 0, 0, 0, 0, 2] 0x1E00A8C0"
      ServerEther "[0, 1]" 69 1024] by (auto simp: machine_def)
  then show ?thesis by auto
qed

section \<open>Damage is noticed\<close>

lemma unat_load16: "unat (load16 a b) = unat a + 256 * unat b"
proof -
  have "load16 a b = ucast a + push_bit 8 (ucast b)"
    unfolding load16_def by (rule disjunctive_add [symmetric]) (auto simp: bit_simps)
  moreover have a: "unat (ucast a :: u16) = unat a" by (simp add: unsigned_ucast_eq take_bit_nat_eq_self less_trans [OF unat_u8_less])
  moreover have "push_bit 8 (ucast b) = (of_nat (256 * unat b) :: u16)"
    by (simp add: push_bit_eq_mult of_nat_unat)
  moreover have "unat (of_nat (256 * unat b) :: u16) = 256 * unat b"
  proof (rule unat_of_nat_u16)
    show "256 * unat b < 2 ^ 16" using unat_u8_less [of b] by simp
  qed
  moreover have "unat a + 256 * unat b < 65536" using unat_u8_less [of a] unat_u8_less [of b] by linarith
  ultimately show ?thesis by (simp add: unat_plus_if')
qed

lemma mult_add_cancel: "m * j + a = m * k + b \<Longrightarrow> a < m \<Longrightarrow> b < m \<Longrightarrow> a = (b :: nat)"
  by (metis mod_less mod_mult_self4)

lemma byte_weight: "a < 256 \<Longrightarrow> (if e then 1 else 256) * a < (65535 :: nat)"
  by (cases e) simp_all

lemma sum16_update:
  assumes "i < 2 * n" "2 * n \<le> length p"
  shows "sum16 n (p[i := x]) + (if even i then 1 else 256) * unat (p ! i) =
    sum16 n p + (if even i then 1 else 256) * unat x"
  using assms
proof (induction n arbitrary: p i)
  case (Suc n)
  then obtain a b r where p: "p = a # b # r" by (cases p; cases "tl p") auto
  consider "i = 0" | "i = 1" | j where "i = Suc (Suc j)" by (metis One_nat_def not0_implies_Suc)
  then show ?case
  proof cases
    case 3
    then show ?thesis using Suc.IH [of _ r] Suc.prems by (simp add: p)
  qed (simp_all add: p unat_load16)
qed simp

text \<open>
  C25: an IP packet in which one byte of the header has been damaged on the way is dropped: nothing is
  sent, no handler is called and no state changes.
\<close>

theorem damaged_ip_header_dropped:
  assumes "NetCksumOk (drop off p) 10" and "off + 20 \<le> length p"
    and "i < 20" and "x \<noteq> p ! (off + i)"
  shows "receive_ip handle (p[off + i := x]) off len n = Some n"
proof -
  let ?q = "drop off p" and ?w = "if even i then 1 else 256 :: nat"
  have q: "drop off (p[off + i := x]) = ?q[i := x]" "p ! (off + i) = ?q ! i"
    using assms(2,3) by (simp_all add: drop_update_swap)
  have ok: "NetCksumOk r (int 10) \<longleftrightarrow> sum16 10 r mod 65535 = 0" for r by (rule NetCksumOk_iff) simp
  have u: "sum16 10 (?q[i := x]) + ?w * unat (?q ! i) = sum16 10 ?q + ?w * unat x"
    by (rule sum16_update) (use assms(2,3) in simp_all)
  have ne: "unat (?q ! i) \<noteq> unat x" using assms(4) q(2) by (simp add: word_unat_eq_iff)
  have "sum16 10 (?q[i := x]) mod 65535 \<noteq> 0"
  proof
    assume z: "sum16 10 (?q[i := x]) mod 65535 = 0"
    have z': "sum16 10 ?q mod 65535 = 0" using assms(1) ok [of ?q] by simp
    have b: "unat (?q ! i) < 256" "unat x < 256" by simp_all
    obtain j k where jk: "sum16 10 (?q[i := x]) = 65535 * j" "sum16 10 ?q = 65535 * k"
      using z z' by (meson dvdE mod_0_imp_dvd)
    have "?w * unat (?q ! i) < 65535" "?w * unat x < 65535" by (rule byte_weight, rule b)+
    with u [unfolded jk] have "?w * unat (?q ! i) = ?w * unat x" by (rule mult_add_cancel)
    then show False using ne by (simp split: if_splits)
  qed
  then have "\<not> NetCksumOk (drop off (p[off + i := x])) (int (IP_HDR_SIZE_NO_UDP div 2))"
    using ok [of "?q[i := x]"] unfolding q by (simp add: IP_HDR_SIZE_NO_UDP_def)
  then show ?thesis unfolding receive_ip_def Let_def by simp
qed

theorem damaged_ip_header_dropped_witness:
  "\<forall>handle. receive_ip handle ((fst (NetSetIP 0x0A00A8C0 69 1024 0 (machine [2, 0, 0, 0, 0, 1] 0x1E00A8C0)))[0 + 9 := 1]) 0 28
     (machine [2, 0, 0, 0, 0, 2] 0x0A00A8C0) = Some (machine [2, 0, 0, 0, 0, 2] 0x0A00A8C0)"
proof (rule allI, rule damaged_ip_header_dropped)
  let ?h = "fst (NetSetIP 0x0A00A8C0 69 1024 0 (machine [2, 0, 0, 0, 0, 1] 0x1E00A8C0))"
  obtain s0 s1 where h: "?h = [0x45, 0] @ be16 (of_nat (28 + 0)) @ be16 (ucast (NetIPID (machine [2, 0, 0, 0, 0, 1] 0x1E00A8C0))) @
      [0x40, 0, 255, 17, s0, s1] @ NetWriteIP (NetOurIP (machine [2, 0, 0, 0, 0, 1] 0x1E00A8C0)) @ NetWriteIP 0x0A00A8C0 @
      be16 1024 @ be16 69 @ be16 (of_nat (8 + 0)) @ [0, 0]"
    and ok: "\<And>q. NetCksumOk (take 20 ?h @ q) 10"
    using NetSetIP_bytes [of "0x0A00A8C0" 69 1024 0 "machine [2, 0, 0, 0, 0, 1] 0x1E00A8C0"] by metis
  show "NetCksumOk (drop 0 ?h) 10" using ok [of "drop 20 ?h"] by simp
  show "1 \<noteq> ?h ! (0 + 9)" by (simp add: h be16_def)
qed simp_all

section \<open>Addresses as text\<close>

lemma dec_field_read:
  assumes "unat v < 256" and "rest = [] \<or> hd rest = chr8 CHR ''.''"
  shows "simple_strtoul (dec_field v @ rest) 10 = (v, rest)"
proof -
  have "0 \<le> sint v"
  proof -
    have "unat v < 2 ^ 31" using assms(1) by (rule less_trans) simp
    then have "int (unat v) < int (2 ^ 31)" by (simp only: of_nat_less_iff)
    then have "uint v < 2147483648" by simp
    moreover have "0 \<le> uint v" by (rule uint_nonneg)
    moreover from this have "- 2147483648 \<le> uint v" by linarith
    ultimately have "sint v = uint v" unfolding sint_uint by (intro signed_take_bit_int_eq_self) simp_all
    then show ?thesis using \<open>0 \<le> uint v\<close> by simp
  qed
  then have "\<not> v <s 0" by (simp add: word_sless_alt)
  then have "dec_field v = number v 10 (- 1) (- 1) 0"
    by (simp add: dec_field_def number_def number_sign_def number_pads_def pad_loop_eq number_tmp_def flag_defs)
  moreover have "rest = [] \<or> \<not> isxdigit (hd rest) \<and> hd rest \<noteq> chr8 CHR ''x''"
    using assms(2) by (auto simp: isxdigit_iff)
  ultimately show ?thesis using number_read_back [of 10 0 rest v] by simp
qed

lemma and_ff_join:
  "push_bit 8 (push_bit 8 (push_bit 8 (push_bit 8 0 OR (drop_bit 24 x AND 0xff)) OR (drop_bit 16 x AND 0xff)) OR
     (drop_bit 8 x AND 0xff)) OR (x AND 0xff) = (x :: u32)"
proof -
  have m: "(0xff :: u32) = mask 8" by (simp add: mask_eq_exp_minus_1)
  show ?thesis
    unfolding m
  proof (rule bit_word_eqI)
    fix i
    assume "i < LENGTH(32)"
    then consider "i < 8" | "8 \<le> i" "i < 16" | "16 \<le> i" "i < 24" | "24 \<le> i" "i < 32"
      by (simp, linarith)
    then show "bit (push_bit 8 (push_bit 8 (push_bit 8 (push_bit 8 0 OR (drop_bit 24 x AND mask 8)) OR
        (drop_bit 16 x AND mask 8)) OR (drop_bit 8 x AND mask 8)) OR (x AND mask 8) :: u32) i = bit x i"
      by cases (simp_all only: bit_or_iff bit_and_iff bit_push_bit_iff bit_drop_bit_eq bit_mask_iff comp_def, auto)
  qed
qed

lemma htonl_htonl: "htonl (htonl x) = x"
proof -
  have m: "(0xff :: u32) = mask 8" "(0xff00 :: u32) = push_bit 8 (mask 8)" by (simp_all add: mask_eq_exp_minus_1)
  have b: "bit (htonl y) i \<longleftrightarrow> (if i < 8 then bit y (i + 24) else if i < 16 then bit y (i + 8)
      else if i < 24 then bit y (i - 8) else i < 32 \<and> bit y (i - 24))" for y i
  proof -
    consider "i < 8" | "8 \<le> i" "i < 16" | "16 \<le> i" "i < 24" | "24 \<le> i" "i < 32" | "32 \<le> i" by linarith
    then show ?thesis
      unfolding htonl_def m bit_or_iff bit_and_iff bit_push_bit_iff bit_drop_bit_eq bit_mask_iff comp_def
      by cases (auto simp: add.commute dest: bit_imp_le_length)
  qed
  show ?thesis
    by (rule bit_word_eqI) (simp only: b, auto)
qed

text \<open>
  Every IP address survives being printed and read back.
\<close>

theorem ip_text_roundtrip: "string_to_ip (Some (ip_to_string x)) = x"
proof -
  let ?y = "htonl x" and ?dot = "chr8 CHR ''.''"
  let ?a = "drop_bit 24 ?y AND 0xff" and ?b = "drop_bit 16 ?y AND 0xff" and ?c = "drop_bit 8 ?y AND 0xff"
    and ?d = "?y AND 0xff"
  have r: "simple_strtoul (dec_field v @ ?dot # q) 10 = (v, ?dot # q)" "simple_strtoul (dec_field v) 10 = (v, [])"
    if "unat v < 256" for v q
    using dec_field_read [OF that, of "?dot # q"] dec_field_read [OF that, of "[]"] by simp_all
  have i: "(w AND 0xff) AND 0xff = w AND 0xff" for w :: u32 by simp
  have "ip_fields (Suc (Suc (Suc (Suc 0)))) 0 (ip_to_string x) =
      push_bit 8 (push_bit 8 (push_bit 8 (push_bit 8 0 OR ?a) OR ?b) OR ?c) OR ?d"
    unfolding ip_to_string_def Let_def append_Cons append_Nil
    by (simp only: ip_fields.simps r [OF unat_and_255] prod.case i list.distinct if_False list.sel if_True simp_thms Let_def)
  moreover have "(4 :: nat) = Suc (Suc (Suc (Suc 0)))" by simp
  ultimately have "ip_fields 4 0 (ip_to_string x) = ?y" unfolding and_ff_join by (simp only:)
  then show ?thesis by (simp add: string_to_ip_def htonl_htonl)
qed

end
