(* ===== verification/Tftp_Correct.thy ===== *)
theory Tftp_Correct
  imports Tftp Net_Correct
begin

text \<open>
  What the TFTP client does with the packets that a server sends it: a file arrives whole whatever
  packets are lost, repeated or delayed, as long as its blocks are numbered without wrap-around; a
  long file arrives whole when its packets come in order; and what goes wrong otherwise.
\<close>

section \<open>What sending leaves alone\<close>

lemma TftpSend_keeps [simp]:
  "TftpState (TftpSend t) = TftpState t" "TftpServerPort (TftpSend t) = TftpServerPort t"
  "TftpOurPort (TftpSend t) = TftpOurPort t" "TftpLastBlock (TftpSend t) = TftpLastBlock t"
  "TftpBlockWrapOffset (TftpSend t) = TftpBlockWrapOffset t" "TftpBlkSize (TftpSend t) = TftpBlkSize t"
  "load_addr (TftpSend t) = load_addr t" "NetBootFileXferSize (TftpSend t) = NetBootFileXferSize t"
  "memory (TftpSend t) = memory t" "NetState (TftpSend t) = NetState t"
  "TftpTimeoutCount (TftpSend t) = TftpTimeoutCount t" "TftpTimeoutCountMax (TftpSend t) = TftpTimeoutCountMax t"
  "TftpTimeoutMSecs (TftpSend t) = TftpTimeoutMSecs t" "timeHandler (TftpSend t) = timeHandler t"
  by (simp_all add: TftpSend_def NetSendUDPPacket_def eth_send_def ArpRequest_def NetSetIP_def Let_def)

lemma NetSetTimeout_keeps [simp]:
  "TftpState (NetSetTimeout iv f t) = TftpState t" "TftpServerPort (NetSetTimeout iv f t) = TftpServerPort t"
  "TftpOurPort (NetSetTimeout iv f t) = TftpOurPort t" "TftpLastBlock (NetSetTimeout iv f t) = TftpLastBlock t"
  "TftpBlockWrapOffset (NetSetTimeout iv f t) = TftpBlockWrapOffset t" "TftpBlkSize (NetSetTimeout iv f t) = TftpBlkSize t"
  "load_addr (NetSetTimeout iv f t) = load_addr t" "NetBootFileXferSize (NetSetTimeout iv f t) = NetBootFileXferSize t"
  "memory (NetSetTimeout iv f t) = memory t" "NetState (NetSetTimeout iv f t) = NetState t"
  "TftpTimeoutCount (NetSetTimeout iv f t) = TftpTimeoutCount t"
  "TftpTimeoutCountMax (NetSetTimeout iv f t) = TftpTimeoutCountMax t"
  "TftpTimeoutMSecs (NetSetTimeout iv f t) = TftpTimeoutMSecs t"
  by (simp_all add: NetSetTimeout_def)

section \<open>The blocks of a file\<close>

definition chunk :: "u8 list \<Rightarrow> nat \<Rightarrow> nat \<Rightarrow> u8 list" where
  "chunk F b k = take b (drop ((k - 1) * b) F)"

definition blocks :: "u8 list \<Rightarrow> nat \<Rightarrow> nat" where
  "blocks F b = length F div b + 1"

text \<open>The packet with block \<open>k\<close>, whose number is sent in 16 bits.\<close>

definition data_packet :: "u8 list \<Rightarrow> nat \<Rightarrow> nat \<Rightarrow> u8 list" where
  "data_packet F b k = be16 TFTP_DATA @ be16 (of_nat k) @ chunk F b k"

lemma block_start:
  assumes "k \<le> blocks F b"
  shows "(k - 1) * b \<le> length F"
proof -
  have "(k - 1) * b \<le> (length F div b) * b" using assms by (intro mult_le_mono1) (simp add: blocks_def)
  then show ?thesis using div_times_less_eq_dividend [of "length F" b] by linarith
qed

lemma block_end:
  assumes "1 \<le> k" "k \<le> blocks F b"
  shows "(k - 1) * b + length (chunk F b k) = min (k * b) (length F)"
proof -
  have "k * b = (k - 1) * b + b" using assms(1) by (cases k) simp_all
  then show ?thesis using block_start [OF assms(2)] by (simp add: chunk_def)
qed

lemma length_chunk_last:
  assumes "0 < b" "1 \<le> k" "k \<le> blocks F b"
  shows "length (chunk F b k) < b \<longleftrightarrow> k = blocks F b"
proof -
  have "k * b = (k - 1) * b + b" using assms(2) by (cases k) simp_all
  moreover have "length F < k * b \<longleftrightarrow> length F div b < k" using assms(1) by (rule div_less_iff_less_mult [symmetric])
  ultimately have "length F < k * b \<longleftrightarrow> k = blocks F b" "length F < k * b \<longleftrightarrow> length F - (k - 1) * b < b"
    using block_start [OF assms(3)] assms(3) by (auto simp: blocks_def)
  then show ?thesis by (simp add: chunk_def min_less_iff_disj)
qed

lemma write_chunk_next:
  assumes "k \<le> length F div b"
  shows "write_bytes (write_bytes m p (take (k * b) F)) (p + k * b) (chunk F b (Suc k)) =
    write_bytes m p (take (Suc k * b) F)"
proof -
  have "k * b \<le> length F" using block_start [of "Suc k" F b] assms by (simp add: blocks_def)
  moreover have "take (Suc k * b) F = take (k * b) F @ chunk F b (Suc k)"
    using take_add [of "k * b" b F] by (simp add: chunk_def add.commute)
  ultimately show ?thesis by (simp add: write_bytes_append)
qed

lemma write_chunk_again:
  assumes "1 \<le> k" "k \<le> K" "k \<le> blocks F b"
  shows "write_bytes (write_bytes m p (take (K * b) F)) (p + (k - 1) * b) (chunk F b k) =
    write_bytes m p (take (K * b) F)"
proof (rule ext)
  fix x
  have e: "(k - 1) * b + length (chunk F b k) = min (k * b) (length F)" using assms(1,3) by (rule block_end)
  have "k * b \<le> K * b" using assms(2) by (rule mult_le_mono1)
  then have l: "(k - 1) * b + length (chunk F b k) \<le> length (take (K * b) F)" unfolding e length_take by linarith
  have "chunk F b k ! (x - (p + (k - 1) * b)) = take (K * b) F ! (x - p)"
    if "p + (k - 1) * b \<le> x" "x < p + (k - 1) * b + length (chunk F b k)"
  proof -
    let ?i = "x - (p + (k - 1) * b)"
    have i: "x - p = (k - 1) * b + ?i" "?i < length (chunk F b k)" using that by linarith+
    then have "x - p < K * b" using l unfolding length_take by linarith
    then have "take (K * b) F ! (x - p) = F ! ((k - 1) * b + ?i)" using i(1) by simp
    moreover have "chunk F b k ! ?i = F ! ((k - 1) * b + ?i)" using i(2) block_start [OF assms(3)] by (simp add: chunk_def nth_drop)
    ultimately show ?thesis by (simp only:)
  qed
  then show "write_bytes (write_bytes m p (take (K * b) F)) (p + (k - 1) * b) (chunk F b k) x =
      write_bytes m p (take (K * b) F) x"
    using l by (auto simp: write_bytes_apply)
qed

section \<open>One data packet\<close>

text \<open>The client has the first block, and the packets come from its server.\<close>

definition in_transfer :: "u16 \<Rightarrow> nat \<Rightarrow> 'a tftp_scheme \<Rightarrow> bool" where
  "in_transfer sp b t \<longleftrightarrow> TftpState t = STATE_DATA \<and> TftpServerPort t = sp \<and> TftpBlkSize t = of_nat b"

abbreviation deliver :: "u8 list \<Rightarrow> u16 \<Rightarrow> 'a tftp_scheme \<Rightarrow> 'a tftp_scheme option" where
  "deliver pkt sp t \<equiv> tftp_handler pkt (TftpOurPort t) sp (of_nat (length pkt)) t"

lemma unat_plus_of_nat: "unat a + n < 2 ^ 32 \<Longrightarrow> unat (a + of_nat n :: u32) = unat a + n"
  using unat_of_nat_u32 [of n] by (simp add: unat_plus_if')

lemma block_number: "ucast (get16 (be16 (of_nat k) @ c) 0) = (of_nat (k mod 65536) :: u32)"
proof -
  have "ucast (of_nat k :: u16) = (of_nat (unat (of_nat k :: u16)) :: u32)" by (simp only: of_nat_unat)
  moreover have "unat (of_nat k :: u16) = k mod 65536" by (simp add: unsigned_of_nat take_bit_eq_mod)
  ultimately show ?thesis by simp
qed

lemma deliver_data:
  assumes "TftpState t = STATE_RRQ \<or> TftpServerPort t = sp" and "length c < 65536"
  shows "deliver (be16 TFTP_DATA @ be16 (of_nat k) @ c) sp t =
    receive_data (be16 (of_nat k) @ c) (of_nat (2 + length c)) sp t"
proof -
  let ?pkt = "be16 TFTP_DATA @ be16 (of_nat k) @ c"
  have l: "unat (of_nat (length ?pkt) :: u32) = 4 + length c" using assms(2) unat_of_nat_u32 [of "4 + length c"] by simp
  have two: "\<not> (of_nat (length ?pkt) :: u32) < 2" unfolding word_less_nat_alt l by simp
  have sub: "of_nat (length ?pkt) - 2 = (of_nat (2 + length c) :: u32)" by simp
  have d: "drop 2 ?pkt = be16 (of_nat k) @ c" by (simp add: be16_def)
  have types: "TFTP_DATA \<noteq> TFTP_OACK" by (simp add: TFTP_DATA_def TFTP_OACK_def)
  show ?thesis
    using assms(1) types two unfolding tftp_handler_def Let_def sub d get16_be16 by auto
qed

lemma ucast_of_nat_u16: "b < 65536 \<Longrightarrow> ucast (of_nat b :: u16) = (of_nat b :: u32)"
  by (metis of_nat_unat unat_of_nat_u16 [of b, simplified])

lemma data_length:
  assumes "n < 65536"
  shows "\<not> (of_nat (2 + n) :: u32) < 2" "of_nat (2 + n) - 2 = (of_nat n :: u32)"
  using assms unat_of_nat_u32 [of "2 + n"] by (simp_all add: word_less_nat_alt)

lemma store_block_ok:
  assumes "unat len \<le> length src" and "off = block * ucast (TftpBlkSize t) + TftpBlockWrapOffset t"
  shows "store_block block src len t =
    Some (t\<lparr>memory := write_bytes (memory t) (unat (load_addr t + off)) (take (unat len) src),
            NetBootFileXferSize := max (NetBootFileXferSize t) (off + len)\<rparr>)"
  using assms(1) unfolding store_block_def Let_def assms(2) max_def by (cases "NetBootFileXferSize t < off + len") auto

text \<open>A block that is not the last one received is stored and acknowledged.\<close>

lemma receive_new_block:
  assumes "TftpState t = STATE_DATA" and "\<not> len < 2" and "ucast (get16 pkt 0) = n" and "n \<noteq> TftpLastBlock t"
    and "unat (len - 2) \<le> length pkt - 2"
    and "W = TftpBlockWrapOffset t + (if n = 0 then ucast (TftpBlkSize t) * 65536 else 0)"
    and "off = (n - 1) * ucast (TftpBlkSize t) + W"
  shows "\<exists>t'. receive_data pkt len src t = Some t' \<and> TftpState t' = STATE_DATA \<and>
    TftpServerPort t' = TftpServerPort t \<and> TftpBlkSize t' = TftpBlkSize t \<and> load_addr t' = load_addr t \<and>
    TftpLastBlock t' = n \<and> TftpBlockWrapOffset t' = W \<and>
    memory t' = write_bytes (memory t) (unat (load_addr t + off)) (take (unat (len - 2)) (drop 2 pkt)) \<and>
    NetBootFileXferSize t' = max (NetBootFileXferSize t) (off + (len - 2)) \<and>
    NetState t' = (if len - 2 < ucast (TftpBlkSize t) then NETLOOP_SUCCESS else NetState t)"
proof -
  have l: "unat (len - 2) \<le> length (drop 2 pkt)" using assms(5) by simp
  define u where "u = NetSetTimeout TIMEOUT TftpTimeout (t\<lparr>TftpBlock := n,
    TftpBlockWrap := TftpBlockWrap t + (if n = 0 then 1 else 0), TftpBlockWrapOffset := W,
    TftpLastBlock := n, TftpTimeoutMSecs := TIMEOUT, TftpTimeoutCountMax := TIMEOUT_COUNT\<rparr>)"
  have u: "TftpBlkSize u = TftpBlkSize t" "TftpBlockWrapOffset u = W" "load_addr u = load_addr t" "memory u = memory t"
    "NetBootFileXferSize u = NetBootFileXferSize t" "TftpState u = STATE_DATA" "TftpServerPort u = TftpServerPort t"
    "TftpLastBlock u = n" "NetState u = NetState t"
    using assms(1) by (simp_all add: u_def)
  let ?v = "TftpSend (u\<lparr>memory := write_bytes (memory u) (unat (load_addr u + off)) (take (unat (len - 2)) (drop 2 pkt)),
            NetBootFileXferSize := max (NetBootFileXferSize u) (off + (len - 2))\<rparr>)"
  have store: "store_block (n - 1) (drop 2 pkt) (len - 2) u =
      Some (u\<lparr>memory := write_bytes (memory u) (unat (load_addr u + off)) (take (unat (len - 2)) (drop 2 pkt)),
            NetBootFileXferSize := max (NetBootFileXferSize u) (off + (len - 2))\<rparr>)"
    by (rule store_block_ok [OF l]) (simp add: u assms(7))
  have "receive_data pkt len src t =
      (case store_block (n - 1) (drop 2 pkt) (len - 2) u of None \<Rightarrow> None
       | Some t \<Rightarrow> let t = TftpSend t in
           Some (if len - 2 < ucast (TftpBlkSize t) then t\<lparr>NetState := NETLOOP_SUCCESS\<rparr> else t))"
    unfolding receive_data_def Let_def assms(3) u_def
    using assms(1,2,4) by (cases "n = 0") (simp_all add: assms(6) TFTP_SEQUENCE_SIZE_def)
  then have r: "receive_data pkt len src t =
      Some (if len - 2 < ucast (TftpBlkSize t) then ?v\<lparr>NetState := NETLOOP_SUCCESS\<rparr> else ?v)"
    unfolding store by (simp add: u)
  show ?thesis unfolding r by (cases "len - 2 < ucast (TftpBlkSize t)") (simp_all add: u)
qed

text \<open>A block that is not the last one received is stored where it belongs.\<close>

lemma deliver_new_block:
  assumes t: "in_transfer sp b t" and b: "0 < b" "b < 65536"
    and k: "1 \<le> k" "k \<le> blocks F b" and new: "TftpLastBlock t \<noteq> of_nat (k mod 65536)"
    and wrap: "TftpBlockWrapOffset t + (if k mod 65536 = 0 then of_nat b * 65536 else 0) =
      of_nat (k div 65536 * 65536 * b)"
    and fits: "unat (load_addr t) + length F < 2 ^ 32"
  shows "\<exists>t'. deliver (data_packet F b k) sp t = Some t' \<and> in_transfer sp b t' \<and>
    load_addr t' = load_addr t \<and> TftpLastBlock t' = of_nat (k mod 65536) \<and>
    TftpBlockWrapOffset t' = of_nat (k div 65536 * 65536 * b) \<and>
    memory t' = write_bytes (memory t) (unat (load_addr t) + (k - 1) * b) (chunk F b k) \<and>
    NetBootFileXferSize t' = max (NetBootFileXferSize t) (of_nat (min (k * b) (length F))) \<and>
    NetState t' = (if k = blocks F b then NETLOOP_SUCCESS else NetState t)"
proof -
  let ?c = "chunk F b k" and ?n = "of_nat (k mod 65536) :: u32"
  have c: "length ?c \<le> b" by (simp add: chunk_def)
  then have cl: "length ?c < 65536" using b by simp
  have e: "(k - 1) * b + length ?c = min (k * b) (length F)" using k by (rule block_end)
  then have le: "(k - 1) * b + length ?c \<le> length F" by simp
  have "(of_nat k :: u32) = of_nat (k div 65536 * 65536 + k mod 65536)" by simp
  then have kk: "(of_nat (k - 1) :: u32) = of_nat (k div 65536 * 65536) + ?n - 1"
    unfolding of_nat_add using k(1) by (simp add: of_nat_diff)
  have off: "(?n - 1) * of_nat b + of_nat (k div 65536 * 65536 * b) = (of_nat ((k - 1) * b) :: u32)"
    unfolding of_nat_mult [of "k - 1" b] kk of_nat_mult [of "k div 65536 * 65536" b] by (simp add: algebra_simps)
  have bs: "ucast (of_nat b :: u16) = (of_nat b :: u32)" using b(2) by (rule ucast_of_nat_u16)
  have fin: "of_nat ((k - 1) * b) + of_nat (length ?c) = (of_nat (min (k * b) (length F)) :: u32)"
    unfolding of_nat_add [symmetric] e ..
  have cu: "unat (of_nat (length ?c) :: u32) = length ?c" using cl by (simp add: unat_of_nat_u32)
  have bu: "unat (of_nat b :: u32) = b" using b by (simp add: unat_of_nat_u32)
  have last: "(of_nat (length ?c) :: u32) < of_nat b \<longleftrightarrow> k = blocks F b"
    unfolding word_less_nat_alt cu bu using b(1) k by (rule length_chunk_last)
  have addr: "unat (load_addr t + of_nat ((k - 1) * b)) = unat (load_addr t) + (k - 1) * b"
  proof -
    have "unat (load_addr t) + (k - 1) * b < 2 ^ 32" using le fits by linarith
    then show ?thesis by (rule unat_plus_of_nat)
  qed
  note two = data_length [OF cl]
  have zero: "?n = 0 \<longleftrightarrow> k mod 65536 = 0"
  proof -
    have "k mod 65536 < 2 ^ 32" by (rule less_trans [of _ 65536]) simp_all
    then show ?thesis by (rule of_nat_u32_eq_0)
  qed
  have d: "drop 2 (be16 (of_nat k) @ ?c) = ?c" by (simp add: be16_def)
  have port: "TftpState t = STATE_RRQ \<or> TftpServerPort t = sp" using t by (simp add: in_transfer_def)
  have deliver: "deliver (data_packet F b k) sp t = receive_data (be16 (of_nat k) @ ?c) (of_nat (2 + length ?c)) sp t"
    unfolding data_packet_def by (rule deliver_data [OF port cl])
  have size: "ucast (TftpBlkSize t) = (of_nat b :: u32)" using t bs by (simp add: in_transfer_def)
  have W: "of_nat (k div 65536 * 65536 * b) =
      TftpBlockWrapOffset t + (if ?n = 0 then ucast (TftpBlkSize t) * 65536 else 0)"
    using wrap unfolding zero size by (simp split: if_splits)
  have o': "of_nat ((k - 1) * b) = (?n - 1) * ucast (TftpBlkSize t) + of_nat (k div 65536 * 65536 * b)"
    unfolding size by (rule off [symmetric])
  have st: "TftpState t = STATE_DATA" using t by (simp add: in_transfer_def)
  have len: "unat (of_nat (2 + length ?c) - 2 :: u32) \<le> length (be16 (of_nat k) @ ?c) - 2"
    unfolding two cu by simp
  have tk: "take (unat (of_nat (length ?c) :: u32)) (drop 2 (be16 (of_nat k) @ ?c)) = ?c" unfolding d cu by simp
  show ?thesis
    using receive_new_block [OF st two(1) block_number _ len W o', of sp] new t last
    unfolding deliver two tk addr fin size in_transfer_def by auto
qed

text \<open>The first block starts the transfer, whether the server answered the options or not.\<close>

lemma deliver_first_block:
  assumes "TftpState t = STATE_RRQ \<or> TftpState t = STATE_OACK \<and> TftpServerPort t = sp" and "b < 65536"
  shows "deliver (data_packet F b 1) sp t =
    deliver (data_packet F b 1) sp (t\<lparr>TftpState := STATE_DATA, TftpServerPort := sp, TftpLastBlock := 0,
      TftpBlockWrap := 0, TftpBlockWrapOffset := 0\<rparr>)"
proof -
  let ?t = "t\<lparr>TftpState := STATE_DATA, TftpServerPort := sp, TftpLastBlock := 0,
      TftpBlockWrap := 0, TftpBlockWrapOffset := 0\<rparr>"
  have cl: "length (chunk F b 1) < 65536" using assms(2) by (simp add: chunk_def)
  have n: "ucast (get16 (be16 (of_nat 1) @ chunk F b 1) 0) = (1 :: u32)" using block_number [of 1] by simp
  have two: "\<not> (2 + of_nat (length (chunk F b 1)) :: u32) < 2"
    using cl unat_of_nat_u32 [of "2 + length (chunk F b 1)"] by (simp add: word_less_nat_alt)
  have t: "deliver (be16 TFTP_DATA @ be16 (of_nat 1) @ chunk F b 1) sp t =
      receive_data (be16 (of_nat 1) @ chunk F b 1) (of_nat (2 + length (chunk F b 1))) sp t"
    by (rule deliver_data [OF _ cl]) (use assms(1) in blast)
  have t': "deliver (be16 TFTP_DATA @ be16 (of_nat 1) @ chunk F b 1) sp ?t =
      receive_data (be16 (of_nat 1) @ chunk F b 1) (of_nat (2 + length (chunk F b 1))) sp ?t"
    by (rule deliver_data [OF _ cl]) simp
  show ?thesis
    using assms(1) two unfolding data_packet_def t t' receive_data_def Let_def n
    by (cases t; elim disjE conjE; simp)
qed

text \<open>A block that has just been received is not stored again.\<close>

lemma deliver_same_block:
  assumes "in_transfer sp b t" and "b < 65536" and "TftpLastBlock t = of_nat (k mod 65536)" and "k mod 65536 \<noteq> 0"
  shows "deliver (data_packet F b k) sp t = Some (t\<lparr>TftpBlock := of_nat (k mod 65536)\<rparr>)"
proof -
  have cl: "length (chunk F b k) < 65536" using assms(2) by (simp add: chunk_def)
  have port: "TftpState t = STATE_RRQ \<or> TftpServerPort t = sp" "TftpState t = STATE_DATA"
    using assms(1) by (simp_all add: in_transfer_def)
  have "k mod 65536 < 2 ^ 32" by (rule less_trans [of _ 65536]) simp_all
  then have nz: "(of_nat (k mod 65536) :: u32) \<noteq> 0" using assms(4) by (simp only: of_nat_u32_eq_0) simp
  have two: "\<not> (of_nat (2 + length (chunk F b k)) :: u32) < 2"
    using data_length(1) [OF cl] .
  show ?thesis
    using nz two port(2) assms(3)
    unfolding data_packet_def deliver_data [OF port(1) cl] receive_data_def Let_def block_number by simp
qed

section \<open>Sequences of packets\<close>

text \<open>
  Blocks up to \<open>K\<close> of the file have been received, the last one received is \<open>j\<close>; \<open>m\<close> is the memory
  before and \<open>L\<close> the load address.
\<close>

definition received :: "u16 \<Rightarrow> nat \<Rightarrow> u8 list \<Rightarrow> mem \<Rightarrow> u32 \<Rightarrow> nat \<Rightarrow> nat \<Rightarrow> 'a tftp_scheme \<Rightarrow> bool" where
  "received sp b F m L K j t \<longleftrightarrow> in_transfer sp b t \<and> load_addr t = L \<and> K \<le> blocks F b \<and>
     TftpLastBlock t = of_nat (j mod 65536) \<and> TftpBlockWrapOffset t = of_nat (j div 65536 * 65536 * b) \<and>
     memory t = write_bytes m (unat L) (take (K * b) F) \<and>
     NetBootFileXferSize t = of_nat (min (K * b) (length F)) \<and>
     NetState t = (if K = blocks F b then NETLOOP_SUCCESS else NETLOOP_CONTINUE)"

lemma of_nat_u32_inject: "x < 2 ^ 32 \<Longrightarrow> y < 2 ^ 32 \<Longrightarrow> (of_nat x :: u32) = of_nat y \<longleftrightarrow> x = y"
  by (metis unat_of_nat_u32)

lemma max_of_nat_u32: "x < 2 ^ 32 \<Longrightarrow> y < 2 ^ 32 \<Longrightarrow> max (of_nat x :: u32) (of_nat y) = of_nat (max x y)"
  by (simp add: max_def word_le_nat_alt unat_of_nat_u32)

lemma received_next:
  assumes r: "received sp b F m L K j t" and b: "0 < b" "b < 65536"
    and fits: "unat L + length F < 2 ^ 32"
    and k: "1 \<le> k" "k \<le> Suc K" "k \<le> blocks F b" "k \<noteq> j"
    and near: "k = Suc j \<or> k mod 65536 \<noteq> 0 \<and> k div 65536 = j div 65536"
  shows "\<exists>t'. deliver (data_packet F b k) sp t = Some t' \<and> received sp b F m L (max K k) k t'"
proof -
  note r = r [unfolded received_def]
  have m: "k mod 65536 < 2 ^ 32" "j mod 65536 < 2 ^ 32" by (rule less_trans [of _ 65536]; simp)+
  have "k mod 65536 \<noteq> j mod 65536"
  proof
    assume e: "k mod 65536 = j mod 65536"
    show False
    proof (cases "k = Suc j")
      case True
      with e have "Suc j mod 65536 = j mod 65536" by simp
      then show False by (simp add: mod_Suc split: if_splits)
    next
      case False
      then have "k div 65536 = j div 65536" using near by blast
      then have "k = j" using e by (metis div_mult_mod_eq)
      then show False using k(4) by simp
    qed
  qed
  then have new: "TftpLastBlock t \<noteq> of_nat (k mod 65536)" using r of_nat_u32_inject [OF m(2,1)] by simp
  have wrap: "TftpBlockWrapOffset t + (if k mod 65536 = 0 then of_nat b * 65536 else 0) = of_nat (k div 65536 * 65536 * b)"
  proof (cases "k mod 65536 = 0")
    case True
    then have "k = Suc j" using near by simp
    then have "k div 65536 = Suc (j div 65536)" using True by (simp add: div_Suc)
    then have "k div 65536 * 65536 * b = j div 65536 * 65536 * b + b * 65536" by (simp add: algebra_simps)
    then show ?thesis using r True by simp
  next
    case False
    then have "k div 65536 = j div 65536" using near by (auto simp: div_Suc mod_Suc split: if_splits)
    then show ?thesis using r False by simp
  qed
  obtain t' where t': "deliver (data_packet F b k) sp t = Some t'" "in_transfer sp b t'"
    "load_addr t' = L" "TftpLastBlock t' = of_nat (k mod 65536)"
    "TftpBlockWrapOffset t' = of_nat (k div 65536 * 65536 * b)"
    "memory t' = write_bytes (memory t) (unat L + (k - 1) * b) (chunk F b k)"
    "NetBootFileXferSize t' = max (NetBootFileXferSize t) (of_nat (min (k * b) (length F)))"
    "NetState t' = (if k = blocks F b then NETLOOP_SUCCESS else NetState t)"
    using deliver_new_block [OF _ b k(1,3) new wrap, of sp] r fits by auto
  have mem: "memory t' = write_bytes m (unat L) (take (max K k * b) F)"
  proof (cases "k \<le> K")
    case True
    then show ?thesis using r t'(6) write_chunk_again [OF k(1) True k(3)] by (simp add: max_absorb1)
  next
    case False
    then have "k = Suc K" using k(2) by simp
    moreover from this have "K \<le> length F div b" using k(3) by (simp add: blocks_def)
    ultimately show ?thesis using r t'(6) write_chunk_next [of K F b m "unat L"] by (simp add: max_absorb2)
  qed
  have "min (K * b) (length F) < 2 ^ 32" "min (k * b) (length F) < 2 ^ 32" using fits by linarith+
  then have "max (of_nat (min (K * b) (length F)) :: u32) (of_nat (min (k * b) (length F))) =
      of_nat (max (min (K * b) (length F)) (min (k * b) (length F)))"
    by (rule max_of_nat_u32)
  also have "max (min (K * b) (length F)) (min (k * b) (length F)) = min (max K k * b) (length F)"
  proof (cases "k \<le> K")
    case True
    then have "k * b \<le> K * b" by (rule mult_le_mono1)
    then show ?thesis using True by (simp add: max_absorb1 min_le_iff_disj)
  next
    case False
    then have "K * b \<le> k * b" by (intro mult_le_mono1) simp
    then show ?thesis using False by (simp add: max_absorb2 min_le_iff_disj)
  qed
  finally have size: "NetBootFileXferSize t' = of_nat (min (max K k * b) (length F))" using r t'(7) by simp
  have "NetState t' = (if max K k = blocks F b then NETLOOP_SUCCESS else NETLOOP_CONTINUE)"
    using r t'(8) k(3) by (auto simp: max_def)
  then have "received sp b F m L (max K k) k t'"
    unfolding received_def using t'(2-5) mem size r k(3) by simp
  then show ?thesis using t'(1) by blast
qed

lemma received_again:
  assumes "received sp b F m L K k t" and "b < 65536" and "k mod 65536 \<noteq> 0"
  shows "\<exists>t'. deliver (data_packet F b k) sp t = Some t' \<and> received sp b F m L K k t'"
proof -
  have "deliver (data_packet F b k) sp t = Some (t\<lparr>TftpBlock := of_nat (k mod 65536)\<rparr>)"
    using assms by (intro deliver_same_block) (simp_all add: received_def)
  moreover have "received sp b F m L K k (t\<lparr>TftpBlock := of_nat (k mod 65536)\<rparr>)"
    using assms(1) by (simp add: received_def in_transfer_def)
  ultimately show ?thesis by blast
qed

text \<open>The handler is given one packet after the other, all from the port \<open>sp\<close>.\<close>

fun deliver_all :: "u16 \<Rightarrow> u8 list list \<Rightarrow> 'a tftp_scheme \<Rightarrow> 'a tftp_scheme option" where
  "deliver_all sp [] t = Some t"
| "deliver_all sp (p # ps) t =
     (case deliver p sp t of None \<Rightarrow> None | Some t' \<Rightarrow> deliver_all sp ps t')"

lemma deliver_all_append:
  "deliver_all sp (ps @ qs) t = (case deliver_all sp ps t of None \<Rightarrow> None | Some t' \<Rightarrow> deliver_all sp qs t')"
  by (induction ps arbitrary: t) (simp_all split: option.splits)

text \<open>A client that has sent its request for the file, or acknowledged the options, and has no data yet.\<close>

definition awaiting :: "u16 \<Rightarrow> nat \<Rightarrow> 'a tftp_scheme \<Rightarrow> bool" where
  "awaiting sp b t \<longleftrightarrow>
     (TftpState t = STATE_RRQ \<or> TftpState t = STATE_OACK \<and> TftpServerPort t = sp) \<and>
     TftpBlkSize t = of_nat b \<and> NetBootFileXferSize t = 0 \<and> NetState t = NETLOOP_CONTINUE"

lemma received_first:
  assumes t: "awaiting sp b t" and b: "0 < b" "b < 65536" and fits: "unat (load_addr t) + length F < 2 ^ 32"
  shows "\<exists>t'. deliver (data_packet F b 1) sp t = Some t' \<and> received sp b F (memory t) (load_addr t) 1 1 t'"
proof -
  let ?t = "t\<lparr>TftpState := STATE_DATA, TftpServerPort := sp, TftpLastBlock := 0,
      TftpBlockWrap := 0, TftpBlockWrapOffset := 0\<rparr>"
  have "received sp b F (memory t) (load_addr t) 0 0 ?t"
    using t by (auto simp: received_def in_transfer_def awaiting_def blocks_def)
  from received_next [OF this b fits, of 1]
  have "\<exists>t'. deliver (data_packet F b 1) sp ?t = Some t' \<and> received sp b F (memory t) (load_addr t) 1 1 t'"
    by (simp add: blocks_def)
  moreover have "deliver (data_packet F b 1) sp t = deliver (data_packet F b 1) sp ?t"
    using t b(2) unfolding awaiting_def by (intro deliver_first_block) auto
  ultimately show ?thesis by simp
qed

text \<open>
  The sequences of blocks that can arrive from a server that keeps to the protocol, however packets
  are lost, repeated, delayed or reordered: it does not send a block before the one in front of it has
  been received and acknowledged.
\<close>

inductive served :: "nat \<Rightarrow> nat list \<Rightarrow> bool" for N where
  served_none: "served N []"
| served_block: "served N ks \<Longrightarrow> 1 \<le> k \<Longrightarrow> k \<le> N \<Longrightarrow> k \<le> Suc (Max (insert 0 (set ks))) \<Longrightarrow> served N (ks @ [k])"

lemma served_range: "served N ks \<Longrightarrow> k \<in> set ks \<Longrightarrow> 1 \<le> k \<and> k \<le> N"
  by (induction rule: served.induct) auto

lemma lossy_run:
  assumes t: "awaiting sp b t" and b: "0 < b" "b < 65536" and fits: "unat (load_addr t) + length F < 2 ^ 32"
    and short: "blocks F b \<le> 65535" and ks: "served (blocks F b) ks" "ks \<noteq> []"
  shows "\<exists>t'. deliver_all sp (map (data_packet F b) ks) t = Some t' \<and>
    received sp b F (memory t) (load_addr t) (Max (insert 0 (set ks))) (last ks) t'"
  using ks
proof (induction rule: served.induct)
  case (served_block ks k)
  show ?case
  proof (cases "ks = []")
    case True
    then have "k = 1" using served_block.hyps(2,4) by simp
    then show ?thesis using True received_first [OF t b fits] by auto
  next
    case False
    let ?K = "Max (insert 0 (set ks))"
    have j: "last ks \<in> set ks" using False by simp
    then have j: "1 \<le> last ks" "last ks \<le> 65535" using served_range [OF served_block.hyps(1) j] short by auto
    obtain t' where run: "deliver_all sp (map (data_packet F b) ks) t = Some t'"
      and t': "received sp b F (memory t) (load_addr t) ?K (last ks) t'"
      using served_block.IH False by blast
    have K: "Max (insert 0 (set (ks @ [k]))) = max ?K k" using False by (simp add: max.commute)
    have "\<exists>t''. deliver (data_packet F b k) sp t' = Some t'' \<and>
        received sp b F (memory t) (load_addr t) (max ?K k) k t''"
    proof (cases "k = last ks")
      case True
      then have "k \<le> ?K" using False by simp
      moreover have "k mod 65536 \<noteq> 0" using j True by simp
      ultimately show ?thesis using received_again [of sp b F "memory t" "load_addr t" ?K k t'] t' b(2) True
        by (simp add: max_absorb1)
    next
      case False
      have "k mod 65536 = k" using served_block.hyps(3) short by simp
      then show ?thesis
        using served_block.hyps(2-4) False j short
        by (intro received_next [OF t' b fits]) auto
    qed
    then show ?thesis using run K by (auto simp: deliver_all_append)
  qed
qed simp

text \<open>
  C20: a file of at most 65535 blocks is transferred correctly whatever the network does to the
  packets. After any sequence of data packets that a server can cause to arrive, the memory from the
  load address on holds the file up to the end of the highest block received and is otherwise as
  before, the size is the number of bytes there, and the transfer has succeeded exactly when the last
  block has been received; then the whole file is in memory.
\<close>

theorem tftp_transfer_correct:
  assumes "awaiting sp b t" and "0 < b" and "b < 65536" and "unat (load_addr t) + length F < 2 ^ 32"
    and "blocks F b \<le> 65535" and "served (blocks F b) ks" and "ks \<noteq> []"
  shows "\<exists>t'. deliver_all sp (map (data_packet F b) ks) t = Some t' \<and>
    memory t' = write_bytes (memory t) (unat (load_addr t)) (take (Max (set ks) * b) F) \<and>
    unat (NetBootFileXferSize t') = min (Max (set ks) * b) (length F) \<and>
    NetState t' = (if blocks F b \<in> set ks then NETLOOP_SUCCESS else NETLOOP_CONTINUE) \<and>
    (NetState t' = NETLOOP_SUCCESS \<longrightarrow>
       memory t' = write_bytes (memory t) (unat (load_addr t)) F \<and> unat (NetBootFileXferSize t') = length F)"
proof -
  let ?K = "Max (set ks)"
  have K: "Max (insert 0 (set ks)) = ?K" using assms(7) by simp
  obtain t' where run: "deliver_all sp (map (data_packet F b) ks) t = Some t'"
    and t': "received sp b F (memory t) (load_addr t) ?K (last ks) t'"
    using lossy_run [OF assms] K by auto
  have le: "?K \<le> blocks F b" using t' by (simp add: received_def)
  have mem: "?K = blocks F b \<longleftrightarrow> blocks F b \<in> set ks"
  proof
    assume "?K = blocks F b"
    moreover have "?K \<in> set ks" using assms(7) by (intro Max_in) simp_all
    ultimately show "blocks F b \<in> set ks" by simp
  next
    assume "blocks F b \<in> set ks"
    then have "blocks F b \<le> ?K" by (intro Max_ge) simp_all
    then show "?K = blocks F b" using le by simp
  qed
  have all: "length F \<le> blocks F b * b"
    using length_chunk_last [of b "blocks F b" F] assms(2) block_end [of "blocks F b" F b]
      div_less_iff_less_mult [of b "length F" "blocks F b"] by (simp add: blocks_def)
  have size: "unat (NetBootFileXferSize t') = min (?K * b) (length F)"
  proof -
    have "min (?K * b) (length F) < 2 ^ 32" using assms(4) by linarith
    then show ?thesis using t' by (simp add: received_def unat_of_nat_u32)
  qed
  have state: "NetState t' = (if blocks F b \<in> set ks then NETLOOP_SUCCESS else NETLOOP_CONTINUE)"
    using t' mem by (simp add: received_def)
  show ?thesis
    using run t' size state mem all by (auto simp: received_def min_absorb2 split: if_splits)
qed

text \<open>A client with its request sent, for examples.\<close>

definition client :: "u16 \<Rightarrow> tftp" where
  "client b =
     net.extend ((machine [2, 0, 0, 0, 0, 1] 0x0A00A8C0)\<lparr>NetServerEther := [2, 0, 0, 0, 0, 2]\<rparr>)
       (tftp.fields 0x1E00A8C0 69 1024 0 5000 10 5000 10 0 0 0 0 STATE_RRQ b 1468 (cstr ''f'') (cstr ''f'')
          0x30008000 0 (\<lambda>a. 0))"

lemma client_fields [simp]:
  "TftpState (client b) = STATE_RRQ" "TftpBlkSize (client b) = b" "NetBootFileXferSize (client b) = 0"
  "NetState (client b) = NETLOOP_CONTINUE" "load_addr (client b) = 0x30008000" "memory (client b) = (\<lambda>a. 0)"
  "TftpServerPort (client b) = 69" "TftpOurPort (client b) = 1024"
  by (simp_all add: client_def machine_def net.defs tftp.defs)

theorem tftp_transfer_correct_witness:
  "\<exists>t'. deliver_all 2000 (map (data_packet [1, 2, 3, 4, 5] 2) [1, 1, 2, 1, 3]) (client 2) = Some t' \<and>
     NetState t' = NETLOOP_SUCCESS \<and> memory t' = write_bytes (\<lambda>a. 0) 0x30008000 [1, 2, 3, 4, 5] \<and>
     unat (NetBootFileXferSize t') = 5"
proof -
  have n: "blocks [1, 2, 3, 4, 5 :: u8] 2 = 3" by (simp add: blocks_def)
  have "served 3 [1]" using served_block [OF served_none, of 1 3] by simp
  from served_block [OF this, of 1] have "served 3 [1, 1]" by simp
  from served_block [OF this, of 2] have "served 3 [1, 1, 2]" by simp
  from served_block [OF this, of 1] have "served 3 [1, 1, 2, 1]" by simp
  from served_block [OF this, of 3] have s: "served 3 [1, 1, 2, 1, 3]" by simp
  have a: "awaiting 2000 2 (client 2)" by (simp add: awaiting_def)
  show ?thesis
    using tftp_transfer_correct [OF a, of "[1, 2, 3, 4, 5]" "[1, 1, 2, 1, 3]"] s n by auto
qed

section \<open>Files of more than 65535 blocks\<close>

text \<open>
  The blocks arrive in order, each possibly several times, except those whose number is sent as 0.
\<close>

fun in_order :: "nat \<Rightarrow> nat list \<Rightarrow> bool" where
  "in_order j [] \<longleftrightarrow> True"
| "in_order j (k # ks) \<longleftrightarrow> (k = Suc j \<or> k = j \<and> k mod 65536 \<noteq> 0) \<and> in_order k ks"

lemma in_order_le_last: "in_order j ks \<Longrightarrow> j \<le> last (j # ks)"
  by (induction ks arbitrary: j) fastforce+

lemma in_order_upt: "in_order j [Suc j..<n]"
  by (induction "n - Suc j" arbitrary: j) (simp_all add: upt_rec [of "Suc _" n])

lemma received_in_order:
  assumes "received sp b F m L j j t" and "0 < b" "b < 65536" and "unat L + length F < 2 ^ 32"
    and "in_order j ks" and "last (j # ks) \<le> blocks F b"
  shows "\<exists>t'. deliver_all sp (map (data_packet F b) ks) t = Some t' \<and>
    received sp b F m L (last (j # ks)) (last (j # ks)) t'"
  using assms(1,5,6)
proof (induction ks arbitrary: j t)
  case (Cons k ks)
  have k: "k \<le> blocks F b" using in_order_le_last [of k ks] Cons.prems by simp
  consider "k = Suc j" | "k = j" "k mod 65536 \<noteq> 0" using Cons.prems(2) by auto
  then have "\<exists>t'. deliver (data_packet F b k) sp t = Some t' \<and> received sp b F m L k k t'"
  proof cases
    case 1
    then show ?thesis using received_next [OF Cons.prems(1) assms(2-4), of k] k by (simp add: max_absorb2)
  next
    case 2
    then show ?thesis using received_again [of sp b F m L k k t] Cons.prems(1) assms(3) by simp
  qed
  then obtain t' where "deliver (data_packet F b k) sp t = Some t'" "received sp b F m L k k t'" by blast
  moreover from this(2) obtain t'' where "deliver_all sp (map (data_packet F b) ks) t' = Some t''"
    "received sp b F m L (last (k # ks)) (last (k # ks)) t''"
    using Cons.IH [of k t'] Cons.prems by auto
  ultimately show ?case by auto
qed simp

lemma in_order_run:
  assumes t: "awaiting sp b t" and b: "0 < b" "b < 65536" and fits: "unat (load_addr t) + length F < 2 ^ 32"
    and ks: "in_order 0 ks" "ks \<noteq> []" "last ks \<le> blocks F b"
  shows "\<exists>t'. deliver_all sp (map (data_packet F b) ks) t = Some t' \<and>
    received sp b F (memory t) (load_addr t) (last ks) (last ks) t'"
proof -
  obtain ks' where ks': "ks = 1 # ks'" "in_order 1 ks'" using ks(1,2) by (cases ks) auto
  obtain t' where "deliver (data_packet F b 1) sp t = Some t'" "received sp b F (memory t) (load_addr t) 1 1 t'"
    using received_first [OF t b fits] by blast
  with received_in_order [OF this(2) b fits ks'(2)] ks(3) show ?thesis unfolding ks'(1) by auto
qed

text \<open>A repeated packet of a block numbered 0 spoils the place of the next block.\<close>

lemma wrap_repeated:
  assumes r: "received sp b F m L K K t" and b: "b < 65536"
    and K: "K mod 65536 = 0" and far: "unat L + (K + 65536) * b < 2 ^ 32"
  shows "\<exists>t''. deliver_all sp (map (data_packet F b) [K, Suc K]) t = Some t'' \<and>
    memory t'' = write_bytes (memory t) (unat L + (K + 65536) * b) (chunk F b (Suc K))"
proof -
  note r' = r [unfolded received_def in_transfer_def]
  have bs: "ucast (of_nat b :: u16) = (of_nat b :: u32)" using b by (rule ucast_of_nat_u16)
  have cl: "length (chunk F b k) < 65536" for k using b by (simp add: chunk_def)
  have cu: "unat (of_nat (length (chunk F b k)) :: u32) = length (chunk F b k)" for k
    using cl [of k] by (simp add: unat_of_nat_u32)
  note two = data_length [OF cl]
  have W: "TftpBlockWrapOffset t = of_nat (K * b)" "TftpLastBlock t = 0"
  proof -
    have "K div 65536 * 65536 = K" using K by (metis add_0_right div_mult_mod_eq)
    then show "TftpBlockWrapOffset t = of_nat (K * b)" "TftpLastBlock t = 0" using r' K by simp_all
  qed
  let ?u = "t\<lparr>TftpBlock := 0, TftpBlockWrap := TftpBlockWrap t + 1,
    TftpBlockWrapOffset := of_nat (K * b) + of_nat b * 65536\<rparr>"
  have port: "TftpState t = STATE_RRQ \<or> TftpServerPort t = sp" "TftpState t = STATE_DATA"
      "TftpBlkSize t = of_nat b" "load_addr t = L"
    using r' by simp_all
  have again: "deliver (data_packet F b K) sp t = Some ?u"
    using two(1) port(2,3) W bs K
    unfolding data_packet_def deliver_data [OF port(1) cl] receive_data_def Let_def block_number
    by (simp add: TFTP_SEQUENCE_SIZE_def)
  let ?p = "be16 (of_nat (Suc K)) @ chunk F b (Suc K)"
  have n: "ucast (get16 ?p 0) = (1 :: u32)" unfolding block_number using K by (simp add: mod_Suc)
  have off: "of_nat ((K + 65536) * b) =
      ((1 :: u32) - 1) * ucast (TftpBlkSize ?u) + (of_nat (K * b) + of_nat b * 65536)"
    by (simp add: algebra_simps)
  have addr: "unat (load_addr ?u + of_nat ((K + 65536) * b)) = unat L + (K + 65536) * b"
    using unat_plus_of_nat [OF far] port(4) by simp
  have len: "unat (of_nat (2 + length (chunk F b (Suc K))) - 2 :: u32) \<le> length ?p - 2"
    unfolding two cu by simp
  have d: "drop 2 ?p = chunk F b (Suc K)" by (simp add: be16_def)
  have dl: "deliver (data_packet F b (Suc K)) sp ?u = receive_data ?p (of_nat (2 + length (chunk F b (Suc K)))) sp ?u"
    unfolding data_packet_def by (rule deliver_data [OF _ cl]) (use port in simp)
  have st: "TftpState ?u = STATE_DATA" and last0: "1 \<noteq> TftpLastBlock ?u" using port(2) W(2) by simp_all
  have w: "of_nat (K * b) + of_nat b * 65536 =
      TftpBlockWrapOffset ?u + (if (1 :: u32) = 0 then ucast (TftpBlkSize ?u) * 65536 else 0)" by simp
  have "\<exists>t''. deliver (data_packet F b (Suc K)) sp ?u = Some t'' \<and>
      memory t'' = write_bytes (memory t) (unat L + (K + 65536) * b) (chunk F b (Suc K))"
    using receive_new_block [OF st two(1) n last0 len w off, of sp]
    unfolding dl addr two cu d by auto
  then show ?thesis using again by auto
qed

text \<open>
  C22: when the block number wraps. As long as packets come in order and no packet with the number 0
  is repeated, a file of any size that fits in the address space is stored correctly. But if the
  packet of a block numbered 0 is delivered twice, which only means that an acknowledgement was lost,
  the next block is stored 65536 blocks beyond its place.
\<close>

theorem tftp_block_wrap:
  assumes "awaiting sp b t" and "0 < b" and "b < 65536" and "unat (load_addr t) + length F < 2 ^ 32"
    and "in_order 0 ks" and "ks \<noteq> []" and "last ks \<le> blocks F b"
  shows "\<exists>t'. deliver_all sp (map (data_packet F b) ks) t = Some t' \<and>
    memory t' = write_bytes (memory t) (unat (load_addr t)) (take (last ks * b) F) \<and>
    NetState t' = (if last ks = blocks F b then NETLOOP_SUCCESS else NETLOOP_CONTINUE) \<and>
    (last ks mod 65536 = 0 \<and> last ks < blocks F b \<and>
       unat (load_addr t) + (last ks + 65536) * b < 2 ^ 32 \<longrightarrow>
     (\<exists>t''. deliver_all sp (map (data_packet F b) [last ks, Suc (last ks)]) t' = Some t'' \<and>
        memory t'' = write_bytes (memory t') (unat (load_addr t) + (last ks + 65536) * b)
          (chunk F b (Suc (last ks)))))"
proof -
  obtain t' where run: "deliver_all sp (map (data_packet F b) ks) t = Some t'"
    and r: "received sp b F (memory t) (load_addr t) (last ks) (last ks) t'"
    using in_order_run [OF assms] by blast
  then show ?thesis
    using wrap_repeated [OF r assms(3)] by (auto simp: received_def)
qed

theorem tftp_block_wrap_witness:
  "\<exists>t' t''. deliver_all 2000 (map (data_packet (replicate 70000 7) 1) [1..<65537]) (client 1) = Some t' \<and>
     memory t' = write_bytes (\<lambda>a. 0) 0x30008000 (replicate 65536 7) \<and>
     deliver_all 2000 (map (data_packet (replicate 70000 7) 1) [65536, 65537]) t' = Some t'' \<and>
     memory t'' = write_bytes (memory t') (0x30008000 + 131072) [7]"
proof -
  let ?F = "replicate 70000 (7 :: u8)" and ?ks = "[1..<65537] :: nat list"
  have a: "awaiting 2000 1 (client 1)" by (simp add: awaiting_def)
  have o: "in_order 0 ?ks" using in_order_upt [of 0 65537] by simp
  have l: "last ?ks = 65536" "?ks \<noteq> []" by simp_all
  have n: "blocks ?F 1 = 70001" by (simp add: blocks_def)
  have c: "chunk ?F 1 (Suc 65536) = [7]" by (simp add: chunk_def)
  show ?thesis
    using tftp_block_wrap [OF a _ _ _ o l(2), of ?F] unfolding l(1) n c by (auto simp: min_def)
qed

section \<open>A lying length\<close>

lemma handler_far:
  assumes "in_transfer sp b t" and "ucast blk \<noteq> TftpLastBlock t"
    and "\<not> len < 2" "len - 2 = len1" "\<not> len1 < 2" "len1 - 2 = len2" "\<not> unat len2 \<le> length c"
  shows "tftp_handler (be16 TFTP_DATA @ be16 blk @ c) (TftpOurPort t) sp len t = None"
proof -
  have none: "store_block bl c len2 u = None" for bl and u :: "'a tftp_scheme"
    using assms(7) by (simp add: store_block_def Let_def)
  have d: "drop 2 (be16 TFTP_DATA @ be16 blk @ c) = be16 blk @ c" "drop 2 (be16 blk @ c) = c"
    by (simp_all add: be16_def)
  have types: "TFTP_DATA \<noteq> TFTP_OACK" by (simp add: TFTP_DATA_def TFTP_OACK_def)
  have st: "TftpState t = STATE_DATA" "TftpServerPort t = sp" using assms(1) by (simp_all add: in_transfer_def)
  show ?thesis
    using types assms(2,3,5) st
    unfolding tftp_handler_def receive_data_def Let_def assms(4,6) d get16_be16 none by auto
qed

lemma handler_short_length:
  assumes t: "in_transfer sp b t" and new: "ucast blk \<noteq> TftpLastBlock t" and c: "length c \<le> 3000" and l: "l < 8"
  shows "tftp_handler (be16 TFTP_DATA @ be16 blk @ c) (TftpOurPort t) sp (ucast (l :: u16) - 8) t = None"
proof -
  have m: "unat l < 8" using l by (simp add: word_less_nat_alt)
  have "(ucast l :: u32) = of_nat (unat l)" by (simp only: of_nat_unat)
  then have e: "ucast l - 8 = (of_nat (unat l + 4294967288) :: u32)" "ucast l - 8 - 2 = (of_nat (unat l + 4294967286) :: u32)"
    "ucast l - 8 - 2 - 2 = (of_nat (unat l + 4294967284) :: u32)"
    by simp_all
  have u: "unat (of_nat (unat l + j) :: u32) = unat l + j" if "j \<le> 4294967288" for j
    by (rule unat_of_nat_u32) (use m that in simp)
  have two: "\<not> (of_nat (unat l + 4294967288) :: u32) < 2" "\<not> (of_nat (unat l + 4294967286) :: u32) < 2"
    unfolding word_less_nat_alt by (simp_all only: u, simp_all)
  have far: "\<not> unat (of_nat (unat l + 4294967284) :: u32) \<le> length c" using u [of 4294967284] c by simp
  show ?thesis
    unfolding e(1) by (rule handler_far [OF t new two(1) _ two(2) _ far]) (simp_all add: e(1) [symmetric] e(2,3) [symmetric])
qed

text \<open>
  C23: a data packet in a UDP datagram whose length field is less than 8, the size of its own header,
  makes the client copy almost four gigabytes from its receive buffer to the load address: the length
  is used after 8 and 4 have been subtracted from it without a test. In the model the handler reads
  outside the buffer.
\<close>

theorem tftp_short_udp_length:
  assumes "in_transfer sp b t" and "NetOurIP t = dest" and "packetHandler t = TftpHandler"
    and "length mac = 6" and "length (NetOurEther n) = 6" and "NetOurVLAN t = NetOurVLAN n"
    and "ucast blk \<noteq> TftpLastBlock t" and "length c \<le> 1468" and "length pad \<le> 1500" and "l < 8"
  shows "NetReceive (call_handler other) (NetSetEther n mac PROT_IP @
      take 24 (fst (NetSetIP dest (TftpOurPort t) sp (4 + length c) n)) @ be16 l @ [0, 0] @
      be16 TFTP_DATA @ be16 blk @ c @ pad)
    (int (length (NetSetEther n mac PROT_IP) + 32 + length c)) t = None"
proof -
  let ?body = "be16 TFTP_DATA @ be16 blk @ c" and ?eh = "NetSetEther n mac PROT_IP"
  let ?iph = "take 24 (fst (NetSetIP dest (TftpOurPort t) sp (length ?body) n)) @ be16 l @ [0, 0]"
  let ?len = "int (length ?eh + 32 + length c)"
  have b: "length ?body = 4 + length c" "length ?body \<le> 1472" using assms(8) by simp_all
  have l: "?len = int (length ?eh) + int (28 + length ?body + 0)" by simp
  have p: "frame_payload t (?eh @ ?iph @ ?body @ pad) ?len = Some (length ?eh, int (28 + length ?body + 0), PROT_IP)"
    using payload_of_sent [OF assms(4,5) _ assms(6), of PROT_IP ?len "?iph @ ?body @ pad"] l
    by (simp add: good_prot_def)
  have ip: "receive_ip (call_handler other) (?eh @ ?iph @ ?body @ pad) (length ?eh) (int (28 + length ?body + 0)) t =
      call_handler other (packetHandler t) (?body @ pad) (TftpOurPort t) sp (ucast l - 8) t"
    using receive_ip_of_sent_length [OF disjI1 [OF assms(2)] b(2), where k = 0] by (simp only: append_assoc)
  have prot: "PROT_IP \<noteq> PROT_ARP" "PROT_IP \<noteq> PROT_RARP"
    by (simp_all add: PROT_IP_def PROT_ARP_def PROT_RARP_def)
  have "NetReceive (call_handler other) (?eh @ ?iph @ ?body @ pad) ?len t =
      tftp_handler (be16 TFTP_DATA @ be16 blk @ (c @ pad)) (TftpOurPort t) sp (ucast l - 8) t"
    unfolding NetReceive_def p option.case prod.case ip using prot assms(3) by (simp add: call_handler_def)
  also have "\<dots> = None"
    using assms(8,9) by (intro handler_short_length [OF assms(1,7) _ assms(10)]) simp
  finally show ?thesis unfolding b(1) by simp
qed

text \<open>A client that has received the first block.\<close>

definition receiving :: tftp where
  "receiving = (client 512)\<lparr>TftpState := STATE_DATA, TftpServerPort := 2000, TftpLastBlock := 1,
     packetHandler := TftpHandler\<rparr>"

theorem tftp_short_udp_length_witness:
  "NetReceive (call_handler (\<lambda>h pkt dest src len t. Some t))
     (NetSetEther (machine [2, 0, 0, 0, 0, 2] 0x1E00A8C0) [2, 0, 0, 0, 0, 1] PROT_IP @
      take 24 (fst (NetSetIP 0x0A00A8C0 1024 2000 (4 + length [1 :: u8, 2]) (machine [2, 0, 0, 0, 0, 2] 0x1E00A8C0))) @
      be16 4 @ [0, 0] @ be16 TFTP_DATA @ be16 2 @ [1, 2] @ [])
     (int (length (NetSetEther (machine [2, 0, 0, 0, 0, 2] 0x1E00A8C0) [2, 0, 0, 0, 0, 1] PROT_IP) + 32 + length [1 :: u8, 2]))
     receiving = None"
proof -
  have f: "TftpOurPort receiving = 1024" "in_transfer 2000 512 receiving" "NetOurIP receiving = 0x0A00A8C0"
    "packetHandler receiving = TftpHandler" "NetOurVLAN receiving = 0xFFFF" "TftpLastBlock receiving = 1"
    by (simp_all add: receiving_def in_transfer_def) (simp_all add: client_def machine_def net.defs tftp.defs)
  show ?thesis
    using tftp_short_udp_length [OF f(2,3,4), of "[2, 0, 0, 0, 0, 1]" "machine [2, 0, 0, 0, 0, 2] 0x1E00A8C0" 2 "[1, 2]" "[]" 4
      "\<lambda>h pkt dest src len t. Some t"]
    by (simp add: f machine_def)
qed

section \<open>Timeouts\<close>

lemma NetStartAgain_state:
  "NetState (NetStartAgain n) \<in> {NETLOOP_FAIL, NETLOOP_RESTART} \<or>
   packetHandler (NetStartAgain n) = StartAgainHandler \<and> timeHandler (NetStartAgain n) = Some StartAgainTimeout"
  by (simp add: NetStartAgain_def start_over_def NetSetHandler_def NetSetTimeout_def Let_def split: option.split)

text \<open>
  The packet of the state as it goes to the server, in the \<open>i\<close>-th sending from here (only the
  identification of the IP header and its checksum differ); and the frame of that sending: the
  packet, or a request for the address of the server, or of the gateway to it, while it is not known.
\<close>

definition tftp_dest :: "'a tftp_scheme \<Rightarrow> u32" where
  "tftp_dest t = (if TftpServerIP t = 0 then 0xFFFFFFFF else TftpServerIP t)"

definition tftp_mac :: "'a tftp_scheme \<Rightarrow> u8 list" where
  "tftp_mac t = (if tftp_dest t = 0xFFFFFFFF then NetBcastAddr else NetServerEther t)"

definition tftp_packet :: "'a tftp_scheme \<Rightarrow> nat \<Rightarrow> u8 list" where
  "tftp_packet t i = udp_frame (t\<lparr>NetIPID := NetIPID t + of_nat i\<rparr>) (tftp_mac t) (tftp_dest t)
     (TftpServerPort t) (TftpOurPort t) (tftp_body t)"

definition tftp_next_hop :: "'a tftp_scheme \<Rightarrow> u32" where
  "tftp_next_hop t =
     (if tftp_dest t AND NetOurSubnetMask t \<noteq> NetOurIP t AND NetOurSubnetMask t \<and> NetOurGatewayIP t \<noteq> 0
      then NetOurGatewayIP t else tftp_dest t)"

definition tftp_frame :: "'a tftp_scheme \<Rightarrow> nat \<Rightarrow> u8 list" where
  "tftp_frame t i =
     (if tftp_mac t = NetEtherNullAddr
      then NetSetEther t NetBcastAddr PROT_ARP @
        arp_packet ARPOP_REQUEST (NetOurEther t) (NetOurIP t) (replicate 6 0) (tftp_next_hop t)
      else tftp_packet t i)"

lemma TftpSend_fields:
  "TftpServerIP (TftpSend t) = TftpServerIP t" "NetServerEther (TftpSend t) = NetServerEther t"
  "NetOurEther (TftpSend t) = NetOurEther t" "NetOurIP (TftpSend t) = NetOurIP t"
  "NetOurVLAN (TftpSend t) = NetOurVLAN t" "NetOurSubnetMask (TftpSend t) = NetOurSubnetMask t"
  "NetOurGatewayIP (TftpSend t) = NetOurGatewayIP t" "NetIPID (TftpSend t) = NetIPID t + 1"
  "TftpBlock (TftpSend t) = TftpBlock t" "tftp_filename (TftpSend t) = tftp_filename t"
  "TftpBlkSizeOption (TftpSend t) = TftpBlkSizeOption t"
  by (simp_all add: TftpSend_def NetSendUDPPacket_def eth_send_def ArpRequest_def NetSetIP_def Let_def)

lemma NetSetTimeout_fields:
  "TftpServerIP (NetSetTimeout iv f t) = TftpServerIP t" "NetServerEther (NetSetTimeout iv f t) = NetServerEther t"
  "NetOurEther (NetSetTimeout iv f t) = NetOurEther t" "NetOurIP (NetSetTimeout iv f t) = NetOurIP t"
  "NetOurVLAN (NetSetTimeout iv f t) = NetOurVLAN t" "NetOurSubnetMask (NetSetTimeout iv f t) = NetOurSubnetMask t"
  "NetOurGatewayIP (NetSetTimeout iv f t) = NetOurGatewayIP t" "NetIPID (NetSetTimeout iv f t) = NetIPID t"
  "TftpBlock (NetSetTimeout iv f t) = TftpBlock t" "tftp_filename (NetSetTimeout iv f t) = tftp_filename t"
  "TftpBlkSizeOption (NetSetTimeout iv f t) = TftpBlkSizeOption t"
  by (simp_all add: NetSetTimeout_def)

lemma tftp_body_cong:
  "TftpState u = TftpState t \<Longrightarrow> TftpBlock u = TftpBlock t \<Longrightarrow> tftp_filename u = tftp_filename t \<Longrightarrow>
   TftpBlkSizeOption u = TftpBlkSizeOption t \<Longrightarrow> tftp_body u = tftp_body t"
  by (simp add: tftp_body_def cong: tftp_state.case_cong)

lemma tftp_packet_cong:
  assumes "TftpServerIP u = TftpServerIP t" "NetServerEther u = NetServerEther t" "NetOurEther u = NetOurEther t"
    "NetOurIP u = NetOurIP t" "NetOurVLAN u = NetOurVLAN t" "NetOurSubnetMask u = NetOurSubnetMask t"
    "NetOurGatewayIP u = NetOurGatewayIP t" "NetIPID u + of_nat i = NetIPID t + of_nat k"
    "TftpServerPort u = TftpServerPort t" "TftpOurPort u = TftpOurPort t" "tftp_body u = tftp_body t"
  shows "tftp_packet u i = tftp_packet t k" "tftp_frame u i = tftp_frame t k" "tftp_mac u = tftp_mac t"
proof -
  show mac: "tftp_mac u = tftp_mac t"
    using assms by (simp add: tftp_mac_def tftp_dest_def)
  show "tftp_packet u i = tftp_packet t k"
    using assms mac by (simp add: tftp_packet_def udp_frame_def NetSetEther_def NetSetIP_def tftp_dest_def Let_def)
  with mac show "tftp_frame u i = tftp_frame t k"
    using assms by (simp add: tftp_frame_def tftp_next_hop_def tftp_dest_def NetSetEther_def)
qed

lemma TftpSend_sends:
  "sent (TftpSend t) = sent t @ [tftp_frame t 0]"
  "NetArpWaitTx (TftpSend t) = (if tftp_mac t = NetEtherNullAddr then tftp_packet t 0 else NetArpWaitTx t)"
  "tftp_frame (TftpSend t) i = tftp_frame t (Suc i)" "tftp_packet (TftpSend t) i = tftp_packet t (Suc i)"
  "tftp_mac (TftpSend t) = tftp_mac t"
proof -
  show "sent (TftpSend t) = sent t @ [tftp_frame t 0]"
    "NetArpWaitTx (TftpSend t) = (if tftp_mac t = NetEtherNullAddr then tftp_packet t 0 else NetArpWaitTx t)"
    by (simp_all add: TftpSend_def NetSendUDPPacket_def eth_send_def ArpRequest_sends tftp_frame_def tftp_packet_def
        tftp_mac_def tftp_dest_def tftp_next_hop_def udp_frame_def NetSetIP_def NetSetEther_def Let_def)
  have body: "tftp_body (TftpSend t) = tftp_body t"
    by (rule tftp_body_cong) (simp_all add: TftpSend_fields)
  show "tftp_frame (TftpSend t) i = tftp_frame t (Suc i)" "tftp_packet (TftpSend t) i = tftp_packet t (Suc i)"
    "tftp_mac (TftpSend t) = tftp_mac t"
    by (rule tftp_packet_cong [where i = i and k = "Suc i"]; simp add: TftpSend_fields body)+
qed

lemma tftp_timeout_retry:
  assumes "TftpTimeoutCount t < TftpTimeoutCountMax t"
  shows "NetState (tftp_timeout t) = NetState t" "TftpTimeoutCount (tftp_timeout t) = Suc (TftpTimeoutCount t)"
    "TftpTimeoutCountMax (tftp_timeout t) = TftpTimeoutCountMax t" "TftpTimeoutMSecs (tftp_timeout t) = TftpTimeoutMSecs t"
    "sent (tftp_timeout t) = sent t @ [tftp_frame t 0]"
    "NetArpWaitTx (tftp_timeout t) = (if tftp_mac t = NetEtherNullAddr then tftp_packet t 0 else NetArpWaitTx t)"
    "tftp_frame (tftp_timeout t) i = tftp_frame t (Suc i)" "tftp_packet (tftp_timeout t) i = tftp_packet t (Suc i)"
    "tftp_mac (tftp_timeout t) = tftp_mac t"
proof -
  let ?u = "NetSetTimeout (TftpTimeoutMSecs t) TftpTimeout (t\<lparr>TftpTimeoutCount := Suc (TftpTimeoutCount t)\<rparr>)"
  have t: "tftp_timeout t = TftpSend ?u"
    using assms by (simp add: tftp_timeout_def Let_def)
  have u: "sent ?u = sent t" "NetArpWaitTx ?u = NetArpWaitTx t"
    by (simp_all add: NetSetTimeout_def)
  have body: "tftp_body ?u = tftp_body t"
    by (rule tftp_body_cong) (simp_all add: NetSetTimeout_fields)
  have f: "tftp_packet ?u k = tftp_packet t k" "tftp_frame ?u k = tftp_frame t k" "tftp_mac ?u = tftp_mac t" for k
    by (rule tftp_packet_cong; simp add: NetSetTimeout_fields body)+
  show "NetState (tftp_timeout t) = NetState t" "TftpTimeoutCount (tftp_timeout t) = Suc (TftpTimeoutCount t)"
    "TftpTimeoutCountMax (tftp_timeout t) = TftpTimeoutCountMax t" "TftpTimeoutMSecs (tftp_timeout t) = TftpTimeoutMSecs t"
    unfolding t by simp_all
  show "sent (tftp_timeout t) = sent t @ [tftp_frame t 0]"
    "NetArpWaitTx (tftp_timeout t) = (if tftp_mac t = NetEtherNullAddr then tftp_packet t 0 else NetArpWaitTx t)"
    "tftp_frame (tftp_timeout t) i = tftp_frame t (Suc i)" "tftp_packet (tftp_timeout t) i = tftp_packet t (Suc i)"
    "tftp_mac (tftp_timeout t) = tftp_mac t"
    unfolding t TftpSend_sends u f by (rule refl)+
qed

text \<open>
  C24: the client does not wait for ever. After \<open>TftpSend\<close> has sent the packet of the state, each
  timeout sends that same packet to the server again, with the next IP identification, and sets the
  timer again; as long as the Ethernet address of the server is not known, each sends the address
  request again instead and leaves the packet waiting for the answer. When the number of timeouts
  exceeds its maximum the transfer has failed, is restarted, or waits ten seconds to be restarted.
\<close>

theorem tftp_timeouts_end:
  assumes "TftpTimeoutCount t \<le> TftpTimeoutCountMax t" and "TftpTimeoutMSecs t \<noteq> 0"
    and "n = TftpTimeoutCountMax t - TftpTimeoutCount t"
  shows "(\<forall>j \<le> n. let u = (tftp_timeout ^^ j) (TftpSend t) in
        NetState u = NetState t \<and>
        sent u = sent t @ map (tftp_frame t) [0..<Suc j] \<and>
        (tftp_mac t = NetEtherNullAddr \<longrightarrow> NetArpWaitTx u = tftp_packet t j) \<and>
        (0 < j \<longrightarrow> timeHandler u = Some TftpTimeout)) \<and>
     (let u = (tftp_timeout ^^ Suc n) (TftpSend t) in
        NetState u \<in> {NETLOOP_FAIL, NETLOOP_RESTART} \<or>
        packetHandler u = StartAgainHandler \<and> timeHandler u = Some StartAgainTimeout)"
proof -
  let ?u = "\<lambda>j. (tftp_timeout ^^ j) (TftpSend t)"
  have run: "NetState (?u j) = NetState t \<and> sent (?u j) = sent t @ map (tftp_frame t) [0..<Suc j] \<and>
      (tftp_mac t = NetEtherNullAddr \<longrightarrow> NetArpWaitTx (?u j) = tftp_packet t j) \<and>
      (\<forall>i. tftp_frame (?u j) i = tftp_frame t (Suc (j + i))) \<and>
      (\<forall>i. tftp_packet (?u j) i = tftp_packet t (Suc (j + i))) \<and> tftp_mac (?u j) = tftp_mac t \<and>
      TftpTimeoutCount (?u j) = TftpTimeoutCount t + j \<and>
      TftpTimeoutCountMax (?u j) = TftpTimeoutCountMax t \<and>
      TftpTimeoutMSecs (?u j) = TftpTimeoutMSecs t \<and>
      (0 < j \<longrightarrow> timeHandler (?u j) = Some TftpTimeout)"
    if "j \<le> n" for j
    using that
  proof (induction j)
    case 0
    then show ?case by (simp add: TftpSend_sends)
  next
    case (Suc j)
    then have IH: "TftpTimeoutCount (?u j) = TftpTimeoutCount t + j" "TftpTimeoutCountMax (?u j) = TftpTimeoutCountMax t"
      "TftpTimeoutMSecs (?u j) = TftpTimeoutMSecs t"
      by simp_all
    have less: "TftpTimeoutCount (?u j) < TftpTimeoutCountMax (?u j)" using IH Suc.prems assms(3) by simp
    have "timeHandler (tftp_timeout (?u j)) = Some TftpTimeout"
      using less IH(3) assms(2) by (simp add: tftp_timeout_def Let_def) (simp add: NetSetTimeout_def)
    then show ?case using tftp_timeout_retry [OF less] Suc by simp
  qed
  have "TftpTimeoutCount (?u n) = TftpTimeoutCountMax (?u n)" using run [of n] assms(1,3) by simp
  then have "?u (Suc n) = NetStartAgain ((?u n)\<lparr>TftpTimeoutCount := Suc (TftpTimeoutCount (?u n))\<rparr>)"
    by (simp add: tftp_timeout_def)
  then show ?thesis using run NetStartAgain_state unfolding Let_def by auto
qed

theorem tftp_timeouts_end_witness:
  "(let u = (tftp_timeout ^^ 10) (TftpSend (client 512)) in
      NetState u = NETLOOP_CONTINUE \<and>
      sent u = sent (client 512) @ map (tftp_frame (client 512)) [0..<Suc 10] \<and>
      timeHandler u = Some TftpTimeout) \<and>
   (let u = (tftp_timeout ^^ Suc 10) (TftpSend (client 512)) in
      NetState u \<in> {NETLOOP_FAIL, NETLOOP_RESTART} \<or>
      packetHandler u = StartAgainHandler \<and> timeHandler u = Some StartAgainTimeout)"
proof -
  have f: "TftpTimeoutCount (client 512) = 0" "TftpTimeoutCountMax (client 512) = 10" "TftpTimeoutMSecs (client 512) = 5000"
    by (simp_all add: client_def machine_def net.defs tftp.defs)
  have p: "TftpTimeoutCount (client 512) \<le> TftpTimeoutCountMax (client 512)" "TftpTimeoutMSecs (client 512) \<noteq> 0"
    "10 = TftpTimeoutCountMax (client 512) - TftpTimeoutCount (client 512)" by (simp_all add: f)
  note r = tftp_timeouts_end [OF p, unfolded client_fields Let_def]
  have "(0 :: nat) < 10" by simp
  then show ?thesis
    unfolding Let_def using r [THEN conjunct1, rule_format, of 10, OF order_refl] r [THEN conjunct2] by blast
qed

end
