(* ===== verification/Rtc.thy ===== *)
theory Rtc
  imports CString "HOL-Library.Signed_Division"
begin

text \<open>
  Dates and the real-time clock (\<open>drivers/rtc/date.c\<close>, \<open>drivers/rtc/s3c24x0_rtc.c\<close>,
  \<open>include/bcd.h\<close>, the parsing of \<open>common/cmd_date.c\<close>): seconds since 1970 to a calendar date and
  back, the day of the week, the date in the clock's BCD registers, and the date as the user types it.
  The division of C is \<open>sdiv\<close> with its remainder \<open>smod\<close>; the arithmetic of \<open>mktime\<close> is unsigned.
\<close>

section \<open>The calendar\<close>

record rtc_time =
  tm_sec :: int
  tm_min :: int
  tm_hour :: int
  tm_mday :: int
  tm_mon :: int
  tm_year :: int
  tm_wday :: int
  tm_yday :: int
  tm_isdst :: int

definition SECDAY :: int where "SECDAY = 86400"
definition STARTOFTIME :: int where "STARTOFTIME = 1970"

definition leapyear :: "int \<Rightarrow> bool" where
  "leapyear year \<longleftrightarrow> year smod 4 = 0"

definition days_in_year :: "int \<Rightarrow> int" where
  "days_in_year a = (if leapyear a then 366 else 365)"

definition month_days :: "int list" where
  "month_days = [31, 28, 31, 30, 31, 30, 31, 31, 30, 31, 30, 31]"

definition MonthOffset :: "int list" where
  "MonthOffset = [0, 31, 59, 90, 120, 151, 181, 212, 243, 273, 304, 334]"

text \<open>\<open>None\<close> is a month outside the table.\<close>

definition GregorianDay :: "rtc_time \<Rightarrow> rtc_time option" where
  "GregorianDay tm =
     (let lastYear = tm_year tm - 1;
          leapsToDate = lastYear sdiv 4 - lastYear sdiv 100 + lastYear sdiv 400;
          day = (if tm_year tm smod 4 = 0 \<and> (tm_year tm smod 100 \<noteq> 0 \<or> tm_year tm smod 400 = 0) \<and> tm_mon tm > 2
                 then 1 else 0)
      in if 1 \<le> tm_mon tm \<and> tm_mon tm \<le> 12 then
           (let day = day + (lastYear * 365 + leapsToDate + MonthOffset ! nat (tm_mon tm - 1) + tm_mday tm)
            in Some (tm\<lparr>tm_wday := day smod 7\<rparr>))
         else None)"

text \<open>The year a day belongs to, with the days left.\<close>

function year_loop :: "int \<Rightarrow> int \<Rightarrow> int \<times> int" where
  "year_loop i day = (if day \<ge> days_in_year i then year_loop (i + 1) (day - days_in_year i) else (i, day))"
  by pat_completeness auto
termination
  by (relation "measure (\<lambda>(i, day). nat day)") (auto simp: days_in_year_def split: if_splits)

declare year_loop.simps [simp del]

text \<open>The month, with the days left; the table is read to its end and not beyond.\<close>

fun month_loop :: "int list \<Rightarrow> int \<Rightarrow> int \<Rightarrow> (int \<times> int) option" where
  "month_loop [] i day = None"
| "month_loop (d # ds) i day = (if day \<ge> d then month_loop ds (i + 1) (day - d) else Some (i, day))"

definition to_tm :: "int \<Rightarrow> rtc_time \<Rightarrow> rtc_time option" where
  "to_tm tim tm =
     (let day = tim sdiv SECDAY; hms = tim smod SECDAY;
          tm = tm\<lparr>tm_hour := hms sdiv 3600, tm_min := (hms smod 3600) sdiv 60, tm_sec := (hms smod 3600) smod 60\<rparr>;
          (i, day) = year_loop STARTOFTIME day;
          tm = tm\<lparr>tm_year := i\<rparr>;
          days = (if leapyear (tm_year tm) then month_days[1 := 29] else month_days)
      in case month_loop days 1 day of
           None \<Rightarrow> None
         | Some (i, day) \<Rightarrow> GregorianDay (tm\<lparr>tm_mon := i, tm_mday := day + 1\<rparr>))"

definition mktime :: "u32 \<Rightarrow> u32 \<Rightarrow> u32 \<Rightarrow> u32 \<Rightarrow> u32 \<Rightarrow> u32 \<Rightarrow> u32" where
  "mktime year mon day hour minute sec =
     (let mon = mon - 2;
          (mon, year) = (if sint mon \<le> 0 then (mon + 12, year - 1) else (mon, year))
      in (((year div 4 - year div 100 + year div 400 + 367 * mon div 12 + day + year * 365 - 719499) * 24
           + hour) * 60 + minute) * 60 + sec)"

section \<open>The clock\<close>

definition bcd2bin :: "u8 \<Rightarrow> u32" where
  "bcd2bin val = ucast (val AND 0x0f) + ucast (drop_bit 4 val) * 10"

definition bin2bcd :: "u32 \<Rightarrow> u8" where
  "bin2bcd val = ucast (push_bit 4 (val div 10) OR val mod 10)"

record rtc_regs =
  BCDSEC :: u8
  BCDMIN :: u8
  BCDHOUR :: u8
  BCDDATE :: u8
  BCDDAY :: u8
  BCDMON :: u8
  BCDYEAR :: u8

text \<open>
  One pass of the reading loop yields the registers and the seconds read again after them; the loop
  ends with the first pass in which the seconds have not changed.
\<close>

fun read_regs :: "(rtc_regs \<times> u8) list \<Rightarrow> rtc_regs option" where
  "read_regs [] = None"
| "read_regs ((r, again) # passes) = (if BCDSEC r \<noteq> again then read_regs passes else Some r)"

definition rtc_get :: "(rtc_regs \<times> u8) list \<Rightarrow> rtc_time option" where
  "rtc_get passes =
     (case read_regs passes of
        None \<Rightarrow> None
      | Some r \<Rightarrow>
          let year = uint (bcd2bin (BCDYEAR r)) in
          Some \<lparr>tm_sec = uint (bcd2bin (BCDSEC r AND 0x7F)),
                tm_min = uint (bcd2bin (BCDMIN r AND 0x7F)),
                tm_hour = uint (bcd2bin (BCDHOUR r AND 0x3F)),
                tm_mday = uint (bcd2bin (BCDDATE r AND 0x3F)),
                tm_mon = uint (bcd2bin (BCDMON r AND 0x1F)),
                tm_year = (if year < 70 then year + 2000 else year + 1900),
                tm_wday = uint (bcd2bin (BCDDAY r AND 0x07)),
                tm_yday = 0, tm_isdst = 0\<rparr>)"

definition rtc_set :: "rtc_time \<Rightarrow> rtc_regs" where
  "rtc_set tm =
     \<lparr>BCDSEC = bin2bcd (of_int (tm_sec tm)), BCDMIN = bin2bcd (of_int (tm_min tm)),
      BCDHOUR = bin2bcd (of_int (tm_hour tm)), BCDDATE = bin2bcd (of_int (tm_mday tm)),
      BCDDAY = bin2bcd (of_int (tm_wday tm)), BCDMON = bin2bcd (of_int (tm_mon tm)),
      BCDYEAR = bin2bcd (of_int (tm_year tm smod 100))\<rparr>"

section \<open>The date as it is typed\<close>

text \<open>Two decimal digits; a NUL ends the string.\<close>

definition digit :: "u8 \<Rightarrow> bool" where
  "digit c \<longleftrightarrow> \<not> (c < chr8 CHR ''0'' \<or> c > chr8 CHR ''9'')"

fun cnvrt2 :: "u8 list \<Rightarrow> int option" where
  "cnvrt2 (a # b # s) =
     (if \<not> digit a then None else if \<not> digit b then None
      else Some (10 * uint (a - chr8 CHR ''0'') + uint (b - chr8 CHR ''0'')))"
| "cnvrt2 s = None"

text \<open>The seconds behind a point, and the string in front of it.\<close>

definition mk_seconds :: "u8 list \<Rightarrow> rtc_time \<Rightarrow> (u8 list \<times> rtc_time) option" where
  "mk_seconds datestr tm =
     (if chr8 CHR ''.'' \<in> set datestr then
        (let front = takeWhile (\<lambda>c. c \<noteq> chr8 CHR ''.'') datestr; ptr = drop (length front + 1) datestr
         in if length ptr \<noteq> 2 then None
            else case cnvrt2 ptr of None \<Rightarrow> None | Some sec \<Rightarrow> Some (front, tm\<lparr>tm_sec := sec\<rparr>))
      else Some (datestr, tm\<lparr>tm_sec := 0\<rparr>))"

definition mk_year :: "u8 list \<Rightarrow> rtc_time \<Rightarrow> rtc_time option" where
  "mk_year s tm =
     (if length s = 12 then
        (case (cnvrt2 (drop 8 s), cnvrt2 (drop 10 s)) of
           (Some century, Some year) \<Rightarrow> Some (tm\<lparr>tm_year := 100 * century + year\<rparr>)
         | _ \<Rightarrow> None)
      else if length s = 10 then
        (case cnvrt2 (drop 8 s) of
           Some year \<Rightarrow> Some (tm\<lparr>tm_year := 100 * (tm_year tm sdiv 100) + year\<rparr>)
         | None \<Rightarrow> None)
      else Some tm)"

definition field2 :: "u8 list \<Rightarrow> nat \<Rightarrow> int \<Rightarrow> int option" where
  "field2 s i limit = (case cnvrt2 (drop i s) of None \<Rightarrow> None | Some val \<Rightarrow> if val > limit then None else Some val)"

text \<open>
  \<open>MMDDhhmm[[CC]YY][.ss]\<close>. \<open>None\<close> is the return of -1; a month 00 passes the tests and makes
  \<open>GregorianDay\<close> read in front of its table, which is the second \<open>None\<close> of the result.
\<close>

definition mk_date :: "u8 list \<Rightarrow> rtc_time \<Rightarrow> rtc_time option option" where
  "mk_date datestr tm =
     (case mk_seconds datestr tm of
        None \<Rightarrow> None
      | Some (s, tm) \<Rightarrow>
          case mk_year s tm of
            None \<Rightarrow> None
          | Some tm \<Rightarrow>
              if length s \<notin> {8, 10, 12} then None
              else case field2 s 0 12 of None \<Rightarrow> None
              | Some mon \<Rightarrow> (case field2 s 2 (if mon = 2 then 29 else 31) of None \<Rightarrow> None
              | Some mday \<Rightarrow> (case field2 s 4 23 of None \<Rightarrow> None
              | Some hour \<Rightarrow> (case field2 s 6 59 of None \<Rightarrow> None
              | Some minute \<Rightarrow> Some (GregorianDay (tm\<lparr>tm_mon := mon, tm_mday := mday, tm_hour := hour, tm_min := minute\<rparr>))))))"

section \<open>Days and dates\<close>

lemma smod_mod [simp]: "0 \<le> a \<Longrightarrow> 0 < b \<Longrightarrow> (a :: int) smod b = a mod b"
  by (simp add: signed_modulo_int_def sgn_if)

lemma sdiv_div [simp]: "0 \<le> a \<Longrightarrow> 0 < b \<Longrightarrow> (a :: int) sdiv b = a div b"
  by (simp add: signed_divide_int_def sgn_if)

text \<open>The days before a year, from 1970 on, as long as every fourth year is a leap year.\<close>

definition year_start :: "int \<Rightarrow> int" where
  "year_start y = 365 * (y - 1970) + (y - 1969) div 4"

lemma year_start_next: "0 \<le> y \<Longrightarrow> year_start (y + 1) = year_start y + days_in_year y"
  unfolding year_start_def days_in_year_def leapyear_def by (simp, presburger)

lemma year_loop_result:
  assumes "1970 \<le> i" "0 \<le> day" "year_loop i day = (y, d)"
  shows "i \<le> y \<and> 0 \<le> d \<and> d < days_in_year y \<and> year_start i + day = year_start y + d"
  using assms
proof (induction i day rule: year_loop.induct)
  case (1 i day)
  show ?case
  proof (cases "days_in_year i \<le> day")
    case True
    then have "year_loop (i + 1) (day - days_in_year i) = (y, d)"
      using 1(4) by (simp add: year_loop.simps [of i day])
    with 1(1) [OF True] True 1(2) show ?thesis using year_start_next [of i] by simp
  next
    case False
    then show ?thesis using 1(2-4) by (simp add: year_loop.simps [of i day])
  qed
qed

text \<open>The month and the day of a day in the year.\<close>

definition month_start :: "bool \<Rightarrow> int \<Rightarrow> int" where
  "month_start leap m = MonthOffset ! nat (m - 1) + (if leap \<and> m > 2 then 1 else 0)"

lemma months_cases: "1 \<le> (m :: int) \<Longrightarrow> m \<le> 12 \<Longrightarrow> m \<in> {1, 2, 3, 4, 5, 6, 7, 8, 9, 10, 11, 12}"
  by (simp, presburger)

lemma month_loop_result:
  assumes "0 \<le> d" "d < (if leap then 366 else 365)"
  shows "\<exists>m r. month_loop (if leap then month_days[1 := 29] else month_days) 1 d = Some (m, r) \<and>
    1 \<le> m \<and> m \<le> 12 \<and> 0 \<le> r \<and> r < (if leap then month_days[1 := 29] else month_days) ! nat (m - 1) \<and>
    d = month_start leap m + r"
  using assms by (cases leap) (auto simp: month_days_def month_start_def MonthOffset_def)

text \<open>The days from 1970-01-01 to a date.\<close>

definition epoch_day :: "int \<Rightarrow> int \<Rightarrow> int \<Rightarrow> int" where
  "epoch_day y m d = year_start y + month_start (y mod 4 = 0) m + d - 1"

lemma centuries:
  assumes "1969 \<le> y" "y \<le> 2099"
  shows "(y :: int) div 400 - y div 100 = - 15"
proof (cases "y < 2000")
  case True
  then have "y div 100 = 19" "y div 400 = 4" using assms by linarith+
  then show ?thesis by simp
next
  case False
  then have "y div 100 = 20" "y div 400 = 5" using assms by linarith+
  then show ?thesis by simp
qed

lemma gregorian_leap_4:
  assumes "1970 \<le> y" "y \<le> 2099"
  shows "(y :: int) mod 100 \<noteq> 0 \<or> y mod 400 = 0"
proof (cases "y mod 100 = 0")
  case True
  define q where "q = y div 100"
  have "y = 100 * q" using True unfolding q_def by (metis add_0_right mult_div_mod_eq)
  moreover from this have "q = 20" using assms by linarith
  ultimately show ?thesis by simp
qed simp

lemma weekday_of_epoch_day:
  assumes "1970 \<le> tm_year tm" "tm_year tm \<le> 2099" "1 \<le> tm_mon tm" "tm_mon tm \<le> 12" "1 \<le> tm_mday tm"
  shows "GregorianDay tm = Some (tm\<lparr>tm_wday := (4 + epoch_day (tm_year tm) (tm_mon tm) (tm_mday tm)) mod 7\<rparr>)"
proof -
  let ?y = "tm_year tm" and ?m = "tm_mon tm"
  define day where "day = (if ?y mod 4 = 0 \<and> ?m > 2 then 1 else 0) +
    ((?y - 1) * 365 + ((?y - 1) div 4 - (?y - 1) div 100 + (?y - 1) div 400) + MonthOffset ! nat (?m - 1) + tm_mday tm)"
  have leap: "?y smod 4 = 0 \<and> (?y smod 100 \<noteq> 0 \<or> ?y smod 400 = 0) \<and> ?m > 2 \<longleftrightarrow> ?y mod 4 = 0 \<and> ?m > 2"
    using assms(1) gregorian_leap_4 [OF assms(1,2)] by auto
  have "day = epoch_day ?y ?m (tm_mday tm) + 719163"
  proof -
    have "(?y - 1) div 400 - (?y - 1) div 100 = - 15" using assms(1,2) by (intro centuries) simp_all
    moreover have "(?y - 1) div 4 = (?y - 1969) div 4 + 492" by presburger
    ultimately show ?thesis unfolding day_def epoch_day_def year_start_def month_start_def by simp
  qed
  moreover have "0 \<le> epoch_day ?y ?m (tm_mday tm)"
  proof -
    have "0 \<le> MonthOffset ! nat (?m - 1)" using months_cases [OF assms(3,4)] by (auto simp: MonthOffset_def)
    moreover have "0 \<le> year_start ?y" using assms(1) by (simp add: year_start_def)
    ultimately show ?thesis using assms(5) by (simp add: epoch_day_def month_start_def)
  qed
  moreover have "(e + 719163) mod 7 = (4 + e) mod 7" for e :: int by presburger
  ultimately have "day smod 7 = (4 + epoch_day ?y ?m (tm_mday tm)) mod 7" by simp
  moreover have "(?y - 1) sdiv 4 = (?y - 1) div 4" "(?y - 1) sdiv 100 = (?y - 1) div 100" "(?y - 1) sdiv 400 = (?y - 1) div 400"
    using assms(1) by simp_all
  ultimately show ?thesis
    unfolding GregorianDay_def Let_def leap day_def using assms(3,4) by (simp only: simp_thms if_True)
qed

lemma to_tm_date:
  assumes "0 \<le> tim" "tim < 2 ^ 31"
  shows "\<exists>tm'. to_tm tim tm = Some tm' \<and>
    1970 \<le> tm_year tm' \<and> tm_year tm' \<le> 2038 \<and> 1 \<le> tm_mon tm' \<and> tm_mon tm' \<le> 12 \<and>
    1 \<le> tm_mday tm' \<and> tm_mday tm' \<le> 31 \<and> epoch_day (tm_year tm') (tm_mon tm') (tm_mday tm') = tim div 86400 \<and>
    tm_hour tm' = tim mod 86400 div 3600 \<and> tm_min tm' = tim mod 86400 mod 3600 div 60 \<and>
    tm_sec tm' = tim mod 86400 mod 3600 mod 60 \<and> tm_wday tm' = (4 + tim div 86400) mod 7"
proof -
  let ?day = "tim div 86400"
  obtain y d where yd: "year_loop 1970 ?day = (y, d)" by fastforce
  have "0 \<le> ?day" using assms(1) by simp
  with year_loop_result [OF _ this yd] have y: "1970 \<le> y" "0 \<le> d" "d < days_in_year y" "?day = year_start y + d"
    by (simp_all add: year_start_def)
  have "y \<le> 2038"
  proof (rule ccontr)
    assume "\<not> y \<le> 2038"
    then have "2039 \<le> y" by simp
    moreover from this have "(2039 - 1969) div 4 \<le> (y - 1969) div 4" by (intro zdiv_mono1) simp_all
    ultimately have "365 * (2039 - 1970) + (2039 - 1969) div 4 \<le> year_start y" unfolding year_start_def by simp
    moreover have "?day \<le> 24855" using assms(2) by simp
    ultimately show False using y(2,4) by simp
  qed
  define leap where "leap = (y mod 4 = 0)"
  have leap: "leapyear y = leap" using y(1) by (simp add: leapyear_def leap_def)
  obtain m r where m: "month_loop (if leap then month_days[1 := 29] else month_days) 1 d = Some (m, r)"
    "1 \<le> m" "m \<le> 12" "0 \<le> r" "r < (if leap then month_days[1 := 29] else month_days) ! nat (m - 1)"
    "d = month_start leap m + r"
    using month_loop_result [of d leap] y(2,3) by (auto simp: days_in_year_def leap)
  have r: "r < 31" using m(5) months_cases [OF m(2,3)] by (auto simp: month_days_def split: if_splits)
  have e: "epoch_day y m (r + 1) = ?day" using y(4) m(6) by (simp add: epoch_day_def leap_def)
  define h mi sec where "h = tim mod 86400 div 3600" and "mi = tim mod 86400 mod 3600 div 60"
    and "sec = tim mod 86400 mod 3600 mod 60"
  let ?tm = "tm\<lparr>tm_hour := h, tm_min := mi, tm_sec := sec, tm_year := y, tm_mon := m, tm_mday := r + 1\<rparr>"
  have g: "GregorianDay ?tm = Some (?tm\<lparr>tm_wday := (4 + ?day) mod 7\<rparr>)"
    unfolding e [symmetric]
    by (subst weekday_of_epoch_day) (use y(1) \<open>y \<le> 2038\<close> m(2-4) in simp_all)
  have nonneg: "0 \<le> tim mod 86400" "0 \<le> tim mod 86400 mod 3600" by simp_all
  have c: "tim sdiv 86400 = ?day" "(tim smod 86400) sdiv 3600 = h" "((tim smod 86400) smod 3600) sdiv 60 = mi"
      "((tim smod 86400) smod 3600) smod 60 = sec"
    unfolding h_def mi_def sec_def using assms(1) nonneg by (simp_all only: smod_mod sdiv_div zero_less_numeral)
  have ty: "tm_year (tm\<lparr>tm_hour := h, tm_min := mi, tm_sec := sec, tm_year := y\<rparr>) = y" by simp
  have "to_tm tim tm = GregorianDay ?tm"
    unfolding to_tm_def Let_def SECDAY_def STARTOFTIME_def c yd prod.case
    by (simp only: ty leap m(1) option.case prod.case)
  then have tm: "to_tm tim tm = Some (?tm\<lparr>tm_wday := (4 + ?day) mod 7\<rparr>)" unfolding g .
  show ?thesis
    unfolding h_def [symmetric] mi_def [symmetric] sec_def [symmetric]
    by (intro exI [of _ "?tm\<lparr>tm_wday := (4 + ?day) mod 7\<rparr>"] conjI, rule tm)
      (use y(1) \<open>y \<le> 2038\<close> m(2-4) r e in simp_all)
qed

lemma u32_div:
  assumes "0 \<le> a" "a < 2 ^ 32" "0 \<le> b" "b < 2 ^ 32"
  shows "(of_int a :: u32) div of_int b = of_int (a div b)"
proof -
  have u: "uint (of_int k :: u32) = k" if "0 \<le> k" "k < 2 ^ 32" for k
    using that by (simp add: unsigned_of_int take_bit_int_eq_self)
  show ?thesis unfolding word_div_def u [OF assms(1,2)] u [OF assms(3,4)] ..
qed

lemma month_days_before:
  assumes "1 \<le> m" "m \<le> 12"
  shows "367 * (if m \<le> 2 then m + 10 else m - 2) div 12 = MonthOffset ! nat (m - 1) + (if m \<le> 2 then 336 else - 29)"
  using months_cases [OF assms] unfolding MonthOffset_def by (elim insertE emptyE) simp_all

lemma leap_sum:
  assumes "a' + l = a" "c400 - c100 = (- 15 :: int)"
  shows "a - c100 + c400 + (off - 29) + d + y * 365 - 719499 = 365 * (y - 1970) + (a' - 492) + (off + l) + d - 1"
  using assms by simp

text \<open>The unsigned arithmetic of \<open>mktime\<close> counts the days.\<close>

lemma mktime_seconds:
  assumes y: "1970 \<le> y" "y \<le> 2099" and m: "1 \<le> m" "m \<le> 12"
  shows "mktime (of_int y) (of_int m) (of_int d) (of_int h) (of_int mi) (of_int s) =
    of_int (((epoch_day y m d * 24 + h) * 60 + mi) * 60 + s)"
proof -
  define y' m' where "y' = (if m \<le> 2 then y - 1 else y)" and "m' = (if m \<le> 2 then m + 10 else m - 2)"
  have r: "1969 \<le> y'" "y' \<le> 2099" "1 \<le> m'" "m' \<le> 12" using y m by (simp_all add: y'_def m'_def)
  have shift: "(if sint (of_int m - 2 :: u32) \<le> 0 then (of_int m - 2 + 12, of_int y - 1) else (of_int m - 2, of_int y)) =
      (of_int m' :: u32, of_int y' :: u32)"
    using months_cases [OF m] unfolding y'_def m'_def by (elim insertE emptyE) simp_all
  have div: "(of_int y' :: u32) div 4 = of_int (y' div 4)" "(of_int y' :: u32) div 100 = of_int (y' div 100)"
    "(of_int y' :: u32) div 400 = of_int (y' div 400)" "(367 * of_int m' :: u32) div 12 = of_int (367 * m' div 12)"
  proof -
    have y32: "0 \<le> y'" "y' < 2 ^ 32" and m32: "0 \<le> 367 * m'" "367 * m' < 2 ^ 32" using r by simp_all
    show "(of_int y' :: u32) div 4 = of_int (y' div 4)" using u32_div [OF y32, of 4] by simp
    show "(of_int y' :: u32) div 100 = of_int (y' div 100)" using u32_div [OF y32, of 100] by simp
    show "(of_int y' :: u32) div 400 = of_int (y' div 400)" using u32_div [OF y32, of 400] by simp
    show "(367 * of_int m' :: u32) div 12 = of_int (367 * m' div 12)" using u32_div [OF m32, of 12] by simp
  qed
  have "y' div 4 - y' div 100 + y' div 400 + 367 * m' div 12 + d + y' * 365 - 719499 = epoch_day y m d"
  proof -
    have c: "y' div 400 - y' div 100 = - 15" using r(1,2) by (rule centuries)
    have l: "(y - 1969) div 4 = (y - 1) div 4 - 492" by presburger
    have q: "(y - 1) div 4 + (if y mod 4 = 0 then 1 else 0) = y div 4" by (cases "y mod 4 = 0") (simp_all, presburger+)
    have k: "367 * m' div 12 = MonthOffset ! nat (m - 1) + (if m \<le> 2 then 336 else - 29)"
      unfolding m'_def by (rule month_days_before [OF m])
    show ?thesis
    proof (cases "m \<le> 2")
      case True
      then have "y' = y - 1" by (simp add: y'_def)
      then show ?thesis
        using True c unfolding k epoch_day_def year_start_def month_start_def l by simp
    next
      case False
      then have y'y: "y' = y" by (simp add: y'_def)
      have k': "367 * m' div 12 = MonthOffset ! nat (m - 1) - 29" using k False by simp
      have ms: "month_start (y mod 4 = 0) m = MonthOffset ! nat (m - 1) + (if y mod 4 = 0 then 1 else 0)"
        using False by (simp add: month_start_def)
      show ?thesis
        unfolding k' epoch_day_def year_start_def ms l y'y by (rule leap_sum [OF q c [unfolded y'y]])
    qed
  qed
  then have "(of_int (y' div 4 - y' div 100 + y' div 400 + 367 * m' div 12 + d + y' * 365 - 719499) :: u32) =
      of_int (epoch_day y m d)" by (simp only:)
  then have "(of_int y' :: u32) div 4 - of_int y' div 100 + of_int y' div 400 + 367 * of_int m' div 12 + of_int d +
      of_int y' * 365 - 719499 = of_int (epoch_day y m d)"
    unfolding div by (simp only: of_int_add of_int_diff of_int_mult of_int_numeral)
  then show ?thesis
    unfolding mktime_def Let_def shift prod.case by simp
qed

lemma div_range:
  assumes "0 \<le> a" "a < n * b" "0 < b"
  shows "(a :: int) div b \<in> {0..n - 1}"
proof -
  have "a div b * b = a - a mod b" by (simp only: minus_mod_eq_div_mult)
  moreover have "0 \<le> a mod b" using assms(3) by simp
  ultimately have "a div b * b < n * b" using assms(2) by linarith
  then have "a div b < n" using assms(3) by (rule mult_right_less_imp_less [OF _ less_imp_le])
  moreover have "0 \<le> a div b" using assms by (simp add: pos_imp_zdiv_nonneg_iff)
  ultimately show ?thesis by simp
qed

text \<open>
  C26: \<open>to_tm\<close> and \<open>mktime\<close> are inverse: every time from 1970 to the end of the signed 32-bit range
  is turned into a date, with the right day of the week and an hour, minute and second in their
  ranges, and \<open>mktime\<close> of that date is the time again.
\<close>

theorem to_tm_mktime:
  assumes "0 \<le> tim" and "tim < 2 ^ 31"
  shows "\<exists>tm'. to_tm tim tm = Some tm' \<and>
    mktime (of_int (tm_year tm')) (of_int (tm_mon tm')) (of_int (tm_mday tm'))
      (of_int (tm_hour tm')) (of_int (tm_min tm')) (of_int (tm_sec tm')) = of_int tim \<and>
    tm_wday tm' = (4 + tim div 86400) mod 7 \<and>
    tm_hour tm' \<in> {0..23} \<and> tm_min tm' \<in> {0..59} \<and> tm_sec tm' \<in> {0..59} \<and>
    tm_mon tm' \<in> {1..12} \<and> tm_mday tm' \<in> {1..31}"
proof -
  obtain tm' where tm': "to_tm tim tm = Some tm'" "1970 \<le> tm_year tm'" "tm_year tm' \<le> 2038"
    "1 \<le> tm_mon tm'" "tm_mon tm' \<le> 12" "1 \<le> tm_mday tm'" "tm_mday tm' \<le> 31"
    "epoch_day (tm_year tm') (tm_mon tm') (tm_mday tm') = tim div 86400"
    "tm_hour tm' = tim mod 86400 div 3600" "tm_min tm' = tim mod 86400 mod 3600 div 60"
    "tm_sec tm' = tim mod 86400 mod 3600 mod 60" "tm_wday tm' = (4 + tim div 86400) mod 7"
    using to_tm_date [OF assms] by blast
  define hms where "hms = tim mod 86400"
  have h: "0 \<le> hms" "hms < 86400" by (simp_all add: hms_def)
  have "((tim div 86400 * 24 + hms div 3600) * 60 + hms mod 3600 div 60) * 60 + hms mod 3600 mod 60 = tim"
  proof -
    have "tim = 86400 * (tim div 86400) + hms" by (simp add: hms_def)
    moreover have "hms = 3600 * (hms div 3600) + hms mod 3600" by simp
    moreover have "hms mod 3600 = 60 * (hms mod 3600 div 60) + hms mod 3600 mod 60" by simp
    ultimately show ?thesis by (simp only: algebra_simps)
  qed
  then have "mktime (of_int (tm_year tm')) (of_int (tm_mon tm')) (of_int (tm_mday tm'))
      (of_int (tm_hour tm')) (of_int (tm_min tm')) (of_int (tm_sec tm')) = of_int tim"
    using mktime_seconds [OF tm'(2) _ tm'(4,5), of "tm_mday tm'" "tm_hour tm'" "tm_min tm'" "tm_sec tm'"] tm'(3)
    unfolding tm'(8-11) hms_def by (simp only:)
  moreover have "tm_hour tm' \<in> {0..24 - 1}" unfolding tm'(9) hms_def [symmetric] using h by (intro div_range) simp_all
  moreover have "tm_min tm' \<in> {0..60 - 1}" unfolding tm'(10) by (rule div_range) simp_all
  moreover have "tm_sec tm' \<in> {0..59}"
  proof -
    have "0 \<le> hms mod 3600 mod 60" "hms mod 3600 mod 60 < 60" by simp_all
    then show ?thesis unfolding tm'(11) hms_def by simp
  qed
  moreover have "tm_mon tm' \<in> {1..12}" "tm_mday tm' \<in> {1..31}" using tm'(4-7) by simp_all
  ultimately show ?thesis using tm'(1,12) by (intro exI [of _ tm'] conjI; simp)
qed

theorem to_tm_mktime_witness:
  "\<exists>tm'. to_tm 1258588800 \<lparr>tm_sec = 0, tm_min = 0, tm_hour = 0, tm_mday = 0, tm_mon = 0, tm_year = 0, tm_wday = 0,
      tm_yday = 0, tm_isdst = 0\<rparr> = Some tm' \<and>
    mktime (of_int (tm_year tm')) (of_int (tm_mon tm')) (of_int (tm_mday tm'))
      (of_int (tm_hour tm')) (of_int (tm_min tm')) (of_int (tm_sec tm')) = 1258588800 \<and> tm_wday tm' = 4"
proof -
  have "(0 :: int) \<le> 1258588800" "(1258588800 :: int) < 2 ^ 31" by simp_all
  from to_tm_mktime [OF this] show ?thesis by fastforce
qed

section \<open>The day of the week\<close>

text \<open>The Gregorian calendar, day by day.\<close>

definition gregorian_leap :: "int \<Rightarrow> bool" where
  "gregorian_leap y \<longleftrightarrow> y mod 4 = 0 \<and> (y mod 100 \<noteq> 0 \<or> y mod 400 = 0)"

definition month_length :: "int \<Rightarrow> int \<Rightarrow> int" where
  "month_length y m = (if m = 2 \<and> gregorian_leap y then 29 else month_days ! nat (m - 1))"

definition is_date :: "rtc_time \<Rightarrow> bool" where
  "is_date tm \<longleftrightarrow> 1 \<le> tm_year tm \<and> 1 \<le> tm_mon tm \<and> tm_mon tm \<le> 12 \<and>
     1 \<le> tm_mday tm \<and> tm_mday tm \<le> month_length (tm_year tm) (tm_mon tm)"

definition next_day :: "rtc_time \<Rightarrow> rtc_time" where
  "next_day tm =
     (if tm_mday tm < month_length (tm_year tm) (tm_mon tm) then tm\<lparr>tm_mday := tm_mday tm + 1\<rparr>
      else if tm_mon tm < 12 then tm\<lparr>tm_mon := tm_mon tm + 1, tm_mday := 1\<rparr>
      else tm\<lparr>tm_year := tm_year tm + 1, tm_mon := 1, tm_mday := 1\<rparr>)"

text \<open>The number that \<open>GregorianDay\<close> takes modulo 7.\<close>

definition day_number :: "rtc_time \<Rightarrow> int" where
  "day_number tm = (if gregorian_leap (tm_year tm) \<and> tm_mon tm > 2 then 1 else 0) +
     ((tm_year tm - 1) * 365 + ((tm_year tm - 1) div 4 - (tm_year tm - 1) div 100 + (tm_year tm - 1) div 400) +
      MonthOffset ! nat (tm_mon tm - 1) + tm_mday tm)"

lemma century_le: "0 \<le> (y :: int) \<Longrightarrow> y div 100 \<le> y div 4"
  by (intro zdiv_mono2) simp_all

lemma GregorianDay_number:
  assumes "is_date tm"
  shows "GregorianDay tm = Some (tm\<lparr>tm_wday := day_number tm mod 7\<rparr>)"
proof -
  let ?y = "tm_year tm - 1"
  have y: "0 \<le> ?y" "0 \<le> tm_year tm" and m: "1 \<le> tm_mon tm" "tm_mon tm \<le> 12" and d: "1 \<le> tm_mday tm"
    using assms by (simp_all add: is_date_def)
  have leap: "tm_year tm smod 4 = 0 \<and> (tm_year tm smod 100 \<noteq> 0 \<or> tm_year tm smod 400 = 0) \<and> tm_mon tm > 2 \<longleftrightarrow>
      gregorian_leap (tm_year tm) \<and> tm_mon tm > 2"
    using y by (auto simp: gregorian_leap_def)
  have sd: "?y sdiv 4 = ?y div 4" "?y sdiv 100 = ?y div 100" "?y sdiv 400 = ?y div 400" using y by simp_all
  have "0 \<le> ?y div 400" using y by simp
  moreover have "0 \<le> MonthOffset ! nat (tm_mon tm - 1)" using months_cases [OF m] by (auto simp: MonthOffset_def)
  ultimately have "0 \<le> day_number tm" using century_le [OF y(1)] y d unfolding day_number_def by simp
  then have n: "day_number tm smod 7 = day_number tm mod 7" by simp
  show ?thesis
    unfolding n [symmetric] unfolding GregorianDay_def Let_def leap sd day_number_def using m by (simp only: simp_thms if_True)
qed

lemma div_step:
  assumes "0 < n"
  shows "(y :: int) div n = (y - 1) div n + (if y mod n = 0 then 1 else 0)"
proof (cases "y mod n = 0")
  case True
  then have "n * (y div n) = y" by (metis add_0_right mult_div_mod_eq)
  then have "y - 1 = n * (y div n - 1) + (n - 1)" by (simp add: right_diff_distrib)
  then have "(y - 1) div n = y div n - 1" by (rule int_div_pos_eq) (use assms in simp_all)
  then show ?thesis using True by simp
next
  case False
  have m: "0 \<le> y mod n" "y mod n < n" using assms by simp_all
  have "y - 1 = n * (y div n) + (y mod n - 1)" by simp
  then have "(y - 1) div n = y div n"
  proof (rule int_div_pos_eq)
    show "0 \<le> y mod n - 1" "y mod n - 1 < n" using m False by linarith+
  qed
  then show ?thesis using False by simp
qed

lemma leap_sum_step:
  assumes "a = a' + (if p then 1 else 0)" "b = b' + (if q then 1 else 0)" "c = c' + (if r then 1 else 0)"
    and "q \<Longrightarrow> p" "r \<Longrightarrow> q"
  shows "a - b + c = (a' - b' + c') + (if p \<and> (\<not> q \<or> r) then 1 else (0 :: int))"
  using assms(4,5) unfolding assms(1-3) by (cases p; cases q; cases r; simp)

lemma leap_count:
  "y div 4 - y div 100 + y div 400 =
   ((y - 1) div 4 - (y - 1) div 100 + (y - 1) div 400) + (if gregorian_leap y then 1 else 0)"
proof -
  have "y mod 4 = 0" if "y mod 100 = 0"
    using that dvd_trans [of 4 100 y] by (simp add: mod_eq_0_iff_dvd)
  moreover have "y mod 100 = 0" if "y mod 400 = 0"
    using that dvd_trans [of 100 400 y] by (simp add: mod_eq_0_iff_dvd)
  ultimately show ?thesis
    unfolding gregorian_leap_def by (intro leap_sum_step div_step) simp_all
qed

lemma day_number_next:
  assumes "is_date tm"
  shows "day_number (next_day tm) = day_number tm + 1"
proof -
  have m: "1 \<le> tm_mon tm" "tm_mon tm \<le> 12" and d: "tm_mday tm \<le> month_length (tm_year tm) (tm_mon tm)"
    using assms by (simp_all add: is_date_def)
  consider "tm_mday tm < month_length (tm_year tm) (tm_mon tm)"
    | "tm_mday tm = month_length (tm_year tm) (tm_mon tm)" "tm_mon tm < 12"
    | "tm_mday tm = 31" "tm_mon tm = 12" "tm_mday tm = month_length (tm_year tm) (tm_mon tm)"
  proof -
    have "month_length y 12 = 31" for y by (simp add: month_length_def month_days_def)
    moreover have "tm_mon tm < 12 \<or> tm_mon tm = 12" using m(2) by linarith
    ultimately show thesis using that d by fastforce
  qed
  then show ?thesis
  proof cases
    case 1
    then show ?thesis by (simp add: next_day_def day_number_def)
  next
    case 2
    have "tm_mon tm \<in> {1, 2, 3, 4, 5, 6, 7, 8, 9, 10, 11}" using months_cases [OF m] 2(2) by auto
    then show ?thesis
      using 2 by (elim insertE emptyE)
        (simp_all add: next_day_def day_number_def month_length_def month_days_def MonthOffset_def)
  next
    case 3
    then show ?thesis using leap_count [of "tm_year tm"]
      by (simp add: next_day_def day_number_def MonthOffset_def algebra_simps)
  qed
qed

lemma is_date_next: "is_date tm \<Longrightarrow> is_date (next_day tm)"
proof -
  assume tm: "is_date tm"
  have "1 \<le> month_length y m" if "1 \<le> m" "m \<le> 12" for y m
    using months_cases [OF that] by (auto simp: month_length_def month_days_def)
  then show ?thesis using tm by (auto simp: is_date_def next_day_def)
qed

text \<open>
  \<open>GregorianDay\<close> knows the Gregorian calendar. From one day to the next the day of the week
  advances by one, at the ends of months, in leap years and in the century years that are none; and
  the first of January 1970 was a Thursday. So it is right for every date from the year 1 on.
\<close>

theorem weekday_advances:
  assumes "is_date tm"
  shows "\<exists>a b. GregorianDay tm = Some a \<and> GregorianDay (next_day tm) = Some b \<and>
    tm_wday b = (tm_wday a + 1) mod 7 \<and> is_date (next_day tm) \<and>
    (tm_year tm = 1970 \<and> tm_mon tm = 1 \<and> tm_mday tm = 1 \<longrightarrow> tm_wday a = 4)"
proof -
  have "(day_number tm + 1) mod 7 = (day_number tm mod 7 + 1) mod 7" by presburger
  moreover have "day_number tm mod 7 = 4" if "tm_year tm = 1970" "tm_mon tm = 1" "tm_mday tm = 1"
    using that by (simp add: day_number_def MonthOffset_def)
  ultimately show ?thesis
    using GregorianDay_number [OF assms] GregorianDay_number [OF is_date_next [OF assms]]
      day_number_next [OF assms] is_date_next [OF assms] by auto
qed

definition leap_day :: rtc_time where
  "leap_day = \<lparr>tm_sec = 0, tm_min = 0, tm_hour = 0, tm_mday = 29, tm_mon = 2, tm_year = 2000, tm_wday = 0,
      tm_yday = 0, tm_isdst = 0\<rparr>"

theorem weekday_advances_witness:
  "\<exists>a b. GregorianDay leap_day = Some a \<and> GregorianDay (leap_day\<lparr>tm_mon := 3, tm_mday := 1\<rparr>) = Some b \<and>
    tm_wday b = (tm_wday a + 1) mod 7"
proof -
  have "month_length 2000 2 = 29" by (simp add: month_length_def gregorian_leap_def)
  then have "is_date leap_day" "next_day leap_day = leap_day\<lparr>tm_mon := 3, tm_mday := 1\<rparr>"
    by (simp_all add: is_date_def leap_day_def next_day_def)
  then show ?thesis using weekday_advances [of leap_day] by auto
qed

section \<open>Setting the clock\<close>

lemma bcd_all:
  "list_all (\<lambda>n. bcd2bin (bin2bcd (of_nat n)) = of_nat n) [0..<100]"
  "list_all (\<lambda>n. bin2bcd (of_nat n) AND 0x7F = bin2bcd (of_nat n)) [0..<60]"
  "list_all (\<lambda>n. bin2bcd (of_nat n) AND 0x3F = bin2bcd (of_nat n)) [0..<32]"
  "list_all (\<lambda>n. bin2bcd (of_nat n) AND 0x1F = bin2bcd (of_nat n)) [0..<13]"
  "list_all (\<lambda>n. bin2bcd (of_nat n) AND 0x07 = bin2bcd (of_nat n)) [0..<7]"
  by (code_simp)+

lemma bcd_read:
  assumes "0 \<le> n" "n < 100"
  shows "uint (bcd2bin (bin2bcd (of_int n))) = n"
proof -
  have "nat n \<in> set [0..<100]" using assms by simp
  then have "bcd2bin (bin2bcd (of_nat (nat n))) = of_nat (nat n)" using bcd_all(1) unfolding list_all_iff by blast
  then have "bcd2bin (bin2bcd (of_int n)) = of_int n" using assms(1) by simp
  then show ?thesis using assms by (simp add: unsigned_of_int take_bit_int_eq_self)
qed

lemma bcd_mask:
  assumes "0 \<le> n"
  shows "n < 60 \<Longrightarrow> bin2bcd (of_int n) AND 0x7F = bin2bcd (of_int n)"
    "n < 32 \<Longrightarrow> bin2bcd (of_int n) AND 0x3F = bin2bcd (of_int n)"
    "n < 13 \<Longrightarrow> bin2bcd (of_int n) AND 0x1F = bin2bcd (of_int n)"
    "n < 7 \<Longrightarrow> bin2bcd (of_int n) AND 0x07 = bin2bcd (of_int n)"
proof -
  have n: "(of_int n :: u32) = of_nat (nat n)" using assms by simp
  have i: "nat n \<in> set [0..<k]" if "n < int k" for k using assms that by simp
  show "n < 60 \<Longrightarrow> bin2bcd (of_int n) AND 0x7F = bin2bcd (of_int n)"
    using bcd_all(2) i [of 60] unfolding n list_all_iff by simp
  show "n < 32 \<Longrightarrow> bin2bcd (of_int n) AND 0x3F = bin2bcd (of_int n)"
    using bcd_all(3) i [of 32] unfolding n list_all_iff by simp
  show "n < 13 \<Longrightarrow> bin2bcd (of_int n) AND 0x1F = bin2bcd (of_int n)"
    using bcd_all(4) i [of 13] unfolding n list_all_iff by simp
  show "n < 7 \<Longrightarrow> bin2bcd (of_int n) AND 0x07 = bin2bcd (of_int n)"
    using bcd_all(5) i [of 7] unfolding n list_all_iff by simp
qed

text \<open>What the clock keeps of a date.\<close>

lemma rtc_get_set:
  assumes "tm_sec tm \<in> {0..59}" "tm_min tm \<in> {0..59}" "tm_hour tm \<in> {0..23}" "tm_mday tm \<in> {0..31}"
    "tm_mon tm \<in> {0..12}" "tm_year tm \<in> {1970..2069}" "tm_wday tm \<in> {0..6}"
  shows "rtc_get [(rtc_set tm, BCDSEC (rtc_set tm))] = Some (tm\<lparr>tm_yday := 0, tm_isdst := 0\<rparr>)"
proof -
  let ?y = "tm_year tm mod 100"
  have y: "uint (bcd2bin (bin2bcd (of_int ?y))) = ?y" by (rule bcd_read) simp_all
  have year: "(if ?y < 70 then ?y + 2000 else ?y + 1900) = tm_year tm"
  proof -
    define q where "q = tm_year tm div 100"
    have "tm_year tm = 100 * q + ?y" "0 \<le> ?y" "?y < 100" by (simp_all add: q_def)
    moreover from this have "q = 19 \<or> q = 20" using assms(6) by auto
    ultimately show ?thesis using assms(6) by auto
  qed
  have sm: "tm_year tm smod 100 = ?y" using assms(6) by simp
  have "rtc_get [(rtc_set tm, BCDSEC (rtc_set tm))] =
      Some \<lparr>tm_sec = tm_sec tm, tm_min = tm_min tm, tm_hour = tm_hour tm, tm_mday = tm_mday tm, tm_mon = tm_mon tm,
        tm_year = (if ?y < 70 then ?y + 2000 else ?y + 1900), tm_wday = tm_wday tm, tm_yday = 0, tm_isdst = 0\<rparr>"
    unfolding rtc_get_def rtc_set_def Let_def sm
    using assms bcd_mask(1) [of "tm_sec tm"] bcd_mask(1) [of "tm_min tm"] bcd_mask(2) [of "tm_hour tm"]
      bcd_mask(2) [of "tm_mday tm"] bcd_mask(3) [of "tm_mon tm"] bcd_mask(4) [of "tm_wday tm"]
    by (simp add: bcd_read y)
  then show ?thesis unfolding year by simp
qed

definition two :: "int \<Rightarrow> u8 list" where
  "two n = [of_int (n div 10) + chr8 CHR ''0'', of_int (n mod 10) + chr8 CHR ''0'']"

lemma cnvrt2_all: "list_all (\<lambda>n. cnvrt2 (two (int n)) = Some (int n) \<and> chr8 CHR ''.'' \<notin> set (two (int n))) [0..<100]"
  by code_simp

lemma cnvrt2_two:
  assumes "0 \<le> n" "n < 100"
  shows "cnvrt2 (two n @ s) = Some n" "chr8 CHR ''.'' \<notin> set (two n)"
proof -
  have "nat n \<in> set [0..<100]" using assms by simp
  then have "cnvrt2 (two (int (nat n))) = Some (int (nat n)) \<and> chr8 CHR ''.'' \<notin> set (two (int (nat n)))"
    using cnvrt2_all unfolding list_all_iff by blast
  moreover have "cnvrt2 (two n @ s) = cnvrt2 (two n)" by (simp add: two_def)
  ultimately show "cnvrt2 (two n @ s) = Some n" "chr8 CHR ''.'' \<notin> set (two n)" using assms(1) by simp_all
qed

definition date_text :: "int \<Rightarrow> int \<Rightarrow> int \<Rightarrow> int \<Rightarrow> int \<Rightarrow> int \<Rightarrow> u8 list" where
  "date_text y mon mday hour minute sec =
     two mon @ two mday @ two hour @ two minute @ two (y div 100) @ two (y mod 100) @ [chr8 CHR ''.''] @ two sec"

lemma length_two [simp]: "length (two n) = 2"
  by (simp add: two_def)

lemma drop_two [simp]: "drop (Suc (Suc n)) (two a @ s) = drop n s"
  by (simp add: two_def)

lemma mk_date_text:
  assumes "0 \<le> y" "y < 10000" "0 \<le> mon" "mon \<le> 12" "0 \<le> mday" "mday \<le> (if mon = 2 then 29 else 31)"
    "0 \<le> hour" "hour \<le> 23" "0 \<le> minute" "minute \<le> 59" "0 \<le> sec" "sec \<le> 99"
  shows "mk_date (date_text y mon mday hour minute sec) tm =
    Some (GregorianDay (tm\<lparr>tm_sec := sec, tm_year := y, tm_mon := mon, tm_mday := mday,
      tm_hour := hour, tm_min := minute\<rparr>))"
proof -
  let ?front = "two mon @ two mday @ two hour @ two minute @ two (y div 100) @ two (y mod 100)"
  have y: "0 \<le> y div 100" "y div 100 < 100" "0 \<le> y mod 100" "y mod 100 < 100" "100 * (y div 100) + y mod 100 = y"
    using assms(1) div_range [of y 100 100] assms(2) by simp_all
  have d: "mday < 100" using assms(6) by (simp split: if_splits)
  have nodot: "chr8 CHR ''.'' \<notin> set ?front"
    using cnvrt2_two(2) assms y(1-4) d by auto
  have tw: "takeWhile (\<lambda>c. c \<noteq> chr8 CHR ''.'') (?front @ [chr8 CHR ''.''] @ two sec) = ?front"
    using nodot by (subst takeWhile_append2) auto
  have text_eq: "date_text y mon mday hour minute sec = ?front @ [chr8 CHR ''.''] @ two sec" by (simp add: date_text_def)
  have sec: "mk_seconds (date_text y mon mday hour minute sec) tm = Some (?front, tm\<lparr>tm_sec := sec\<rparr>)"
    using cnvrt2_two(1) [of sec "[]"] assms(11,12) unfolding mk_seconds_def text_eq tw Let_def by simp
  have year: "mk_year ?front (tm\<lparr>tm_sec := sec\<rparr>) = Some (tm\<lparr>tm_sec := sec, tm_year := y\<rparr>)"
    using cnvrt2_two(1) [of "y div 100" "two (y mod 100)"] cnvrt2_two(1) [of "y mod 100" "[]"] y
    by (simp add: mk_year_def eval_nat_numeral)
  have fields: "field2 ?front 0 12 = Some mon" "field2 ?front 2 (if mon = 2 then 29 else 31) = Some mday"
    "field2 ?front 4 23 = Some hour" "field2 ?front 6 59 = Some minute"
    using assms d by (simp_all add: field2_def cnvrt2_two(1) eval_nat_numeral)
  show ?thesis
    unfolding mk_date_def sec year option.case prod.case fields by simp
qed

text \<open>
  The date the user sets is the date the clock then shows. A date in the form
  \<open>MMDDhhmmCCYY.ss\<close> of the years 1970 to 2069 is accepted, its day of the week is computed, and what is
  written to the clock's registers is read back as the same date. But the month 00 is accepted too,
  and then the table of the months is read in front of its first entry.
\<close>

theorem date_entry:
  assumes "1970 \<le> y" and "y \<le> 2069" and "1 \<le> mon" and "mon \<le> 12"
    and "1 \<le> mday" and "mday \<le> (if mon = 2 then 29 else 31)"
    and "0 \<le> hour" and "hour \<le> 23" and "0 \<le> minute" and "minute \<le> 59" and "0 \<le> sec" and "sec \<le> 59"
  shows "(\<exists>tm'. mk_date (date_text y mon mday hour minute sec) tm = Some (Some tm') \<and>
      tm_year tm' = y \<and> tm_mon tm' = mon \<and> tm_mday tm' = mday \<and>
      tm_hour tm' = hour \<and> tm_min tm' = minute \<and> tm_sec tm' = sec \<and>
      tm_wday tm' = (4 + epoch_day y mon mday) mod 7 \<and>
      rtc_get [(rtc_set tm', BCDSEC (rtc_set tm'))] = Some (tm'\<lparr>tm_yday := 0, tm_isdst := 0\<rparr>)) \<and>
    mk_date (date_text y 0 mday hour minute sec) tm = Some None"
proof -
  let ?tm = "tm\<lparr>tm_sec := sec, tm_year := y, tm_mon := mon, tm_mday := mday, tm_hour := hour, tm_min := minute\<rparr>"
  have d: "mday \<le> 31" using assms(6) by (simp split: if_splits)
  have g: "GregorianDay ?tm = Some (?tm\<lparr>tm_wday := (4 + epoch_day y mon mday) mod 7\<rparr>)"
    by (subst weekday_of_epoch_day) (use assms in simp_all)
  have "mk_date (date_text y mon mday hour minute sec) tm = Some (GregorianDay ?tm)"
    by (rule mk_date_text) (use assms in simp_all)
  then have ok: "mk_date (date_text y mon mday hour minute sec) tm =
      Some (Some (?tm\<lparr>tm_wday := (4 + epoch_day y mon mday) mod 7\<rparr>))" unfolding g .
  have w: "(4 + epoch_day y mon mday) mod 7 \<in> {0..6}"
  proof -
    have "0 \<le> (4 + epoch_day y mon mday) mod 7" "(4 + epoch_day y mon mday) mod 7 < 7" by simp_all
    then show ?thesis by simp
  qed
  have clock: "rtc_get [(rtc_set (?tm\<lparr>tm_wday := v\<rparr>), BCDSEC (rtc_set (?tm\<lparr>tm_wday := v\<rparr>)))] =
      Some (?tm\<lparr>tm_wday := v, tm_yday := 0, tm_isdst := 0\<rparr>)" if "v \<in> {0..6}" for v
    by (subst rtc_get_set) (use assms d that in simp_all)
  have "mk_date (date_text y 0 mday hour minute sec) tm = Some None"
    by (subst mk_date_text) (use assms d in \<open>simp_all add: GregorianDay_def Let_def\<close>)
  then show ?thesis using ok clock [OF w] by (intro conjI exI [of _ "?tm\<lparr>tm_wday := (4 + epoch_day y mon mday) mod 7\<rparr>"]) simp_all
qed

theorem date_entry_witness:
  "(\<exists>tm'. mk_date (date_text 2009 11 19 12 30 45) leap_day = Some (Some tm') \<and> tm_year tm' = 2009 \<and>
      rtc_get [(rtc_set tm', BCDSEC (rtc_set tm'))] = Some (tm'\<lparr>tm_yday := 0, tm_isdst := 0\<rparr>)) \<and>
    mk_date (date_text 2009 0 19 12 30 45) leap_day = Some None"
  using date_entry [of 2009 11 19 12 30 45 leap_day] by auto

end
