(* ===== verification/NandFlash.thy ===== *)
theory NandFlash
  imports NandEcc
begin

text \<open>
  The NAND layer of \<open>drivers/mtd/nand/nand_base.c\<close> and \<open>nand_bbt.c\<close>: reading and writing pages
  with software error correction, the spare area, the bad block table, marking and erasing blocks.

  The chip and its controller are reached through function pointers; here they are the record
  \<open>nand_io\<close>, a parameter of everything below: what a page reads as, what a program and an erase
  command do and whether they report a failure (a timeout of \<open>nand_wait\<close> reports one too), and the
  write protection. The other fields of \<open>nand\<close> are those of \<open>struct mtd_info\<close> and
  \<open>struct nand_chip\<close> that the code reads or changes. There is one chip (the board's
  \<open>CONFIG_SYS_NAND_MAX_CHIPS\<close>), eight bits wide, with software ECC and a bad block table in memory.
  Sizes are powers of two, kept as the shifts of the code; an offset \<open>ofs >> page_shift\<close> is
  \<open>ofs div 2 ^ page_shift\<close>. Offsets are 64 bits wide in the code (\<open>loff_t\<close>) and never come near
  that limit, so they are natural numbers here.
\<close>

section \<open>The device\<close>

definition EIO :: int where "EIO = 5"
definition ENOMEM :: int where "ENOMEM = 12"
definition EINVAL :: int where "EINVAL = 22"
definition EROFS :: int where "EROFS = 30"
definition EUCLEAN :: int where "EUCLEAN = 117"

lemmas errno_defs = EIO_def ENOMEM_def EINVAL_def EROFS_def EUCLEAN_def EBADMSG_def

record 'c nand_io =
  io_read :: "'c \<Rightarrow> nat \<Rightarrow> u8 list"
  io_program :: "'c \<Rightarrow> nat \<Rightarrow> nat \<Rightarrow> u8 list \<Rightarrow> 'c \<times> bool"
  io_erase :: "'c \<Rightarrow> nat \<Rightarrow> 'c \<times> bool"
  io_protected :: "'c \<Rightarrow> bool"

datatype oob_mode = MTD_OOB_PLACE | MTD_OOB_AUTO | MTD_OOB_RAW

record nand_ecclayout =
  eccpos :: "nat list"
  oobfree :: "(nat \<times> nat) list"

record 'c nand =
  io :: "'c nand_io"
  chip :: 'c
  page_shift :: nat
  erase_shift :: nat
  chip_shift :: nat
  oobsize :: nat
  layout :: nand_ecclayout
  subpage_sft :: nat
  badblockpos :: nat
  pagebuf :: "nat option"
  databuf :: "u8 list"
  oob_poi :: "u8 list"
  ops_mode :: oob_mode
  ops_ooboffs :: nat
  bbt :: "u8 list option"
  bbt_scanned :: bool
  bad_scrub :: bool
  heap_ok :: bool
  ecc_failed :: u32
  ecc_corrected :: u32
  badblocks :: u32
  rw_oob :: bool
  skipfirstblk :: bool

definition writesize :: "'c nand \<Rightarrow> nat" where "writesize n = 2 ^ page_shift n"
definition erasesize :: "'c nand \<Rightarrow> nat" where "erasesize n = 2 ^ erase_shift n"
definition msize :: "'c nand \<Rightarrow> nat" where "msize n = 2 ^ chip_shift n"
definition subpagesize :: "'c nand \<Rightarrow> nat" where "subpagesize n = writesize n div 2 ^ subpage_sft n"

text \<open>The page of an offset on the chip: \<open>(ofs >> page_shift) & pagemask\<close>.\<close>

definition chip_page :: "'c nand \<Rightarrow> nat \<Rightarrow> nat" where
  "chip_page n realpage = realpage mod (msize n div writesize n)"

definition nand_oob_8 :: nand_ecclayout where
  "nand_oob_8 = \<lparr>eccpos = [0, 1, 2], oobfree = [(3, 2), (6, 2)]\<rparr>"

definition nand_oob_16 :: nand_ecclayout where
  "nand_oob_16 = \<lparr>eccpos = [0, 1, 2, 3, 6, 7], oobfree = [(8, 8)]\<rparr>"

definition nand_oob_64 :: nand_ecclayout where
  "nand_oob_64 = \<lparr>eccpos = [40..<64], oobfree = [(2, 38)]\<rparr>"

definition nand_oob_128 :: nand_ecclayout where
  "nand_oob_128 = \<lparr>eccpos = [80..<128], oobfree = [(2, 78)]\<rparr>"

text \<open>The spare bytes a client may use.\<close>

definition oobavail :: "'c nand \<Rightarrow> nat" where
  "oobavail n = sum_list (map snd (takeWhile (\<lambda>f. snd f \<noteq> 0) (oobfree (layout n))))"

section \<open>Pages with error correction\<close>

definition ecc_steps :: "'c nand \<Rightarrow> nat" where
  "ecc_steps n = writesize n div 256"

text \<open>The page and its spare area are transferred one after the other.\<close>

definition nand_read_page_raw :: "'c nand \<Rightarrow> nat \<Rightarrow> u8 list \<times> 'c nand" where
  "nand_read_page_raw n page =
     (let cells = io_read (io n) (chip n) page
      in (take (writesize n) cells,
          n\<lparr>oob_poi := overwrite (oob_poi n) 0 (take (oobsize n) (drop (writesize n) cells))\<rparr>))"

text \<open>The codes of consecutive steps of 256 bytes, three bytes each.\<close>

fun calc_steps :: "nat \<Rightarrow> u8 list \<Rightarrow> u8 list" where
  "calc_steps 0 p = []"
| "calc_steps (Suc steps) p = (case nand_calculate_ecc p of (a, b, c) \<Rightarrow> [a, b, c] @ calc_steps steps (drop 256 p))"

text \<open>Each step corrected in place, with the statistics.\<close>

fun correct_steps :: "nat \<Rightarrow> u8 list \<Rightarrow> u8 list \<Rightarrow> u8 list \<Rightarrow> u32 \<Rightarrow> u32 \<Rightarrow> u8 list \<times> u32 \<times> u32" where
  "correct_steps 0 p read_ecc calc_ecc failed corrected = (p, failed, corrected)"
| "correct_steps (Suc steps) p read_ecc calc_ecc failed corrected =
     (case nand_correct_data p (read_ecc ! 0, read_ecc ! 1, read_ecc ! 2) (calc_ecc ! 0, calc_ecc ! 1, calc_ecc ! 2) of
        (p, stat) \<Rightarrow>
          case correct_steps steps (drop 256 p) (drop 3 read_ecc) (drop 3 calc_ecc)
                 (if stat < 0 then failed + 1 else failed)
                 (if stat < 0 then corrected else corrected + of_int stat) of
            (q, failed, corrected) \<Rightarrow> (take 256 p @ q, failed, corrected))"

definition nand_read_page_swecc :: "'c nand \<Rightarrow> nat \<Rightarrow> u8 list \<times> 'c nand" where
  "nand_read_page_swecc n page =
     (let (p, n) = nand_read_page_raw n page;
          calc_ecc = calc_steps (ecc_steps n) p;
          read_ecc = map (\<lambda>i. oob_poi n ! (eccpos (layout n) ! i)) [0..<3 * ecc_steps n];
          (p, failed, corrected) = correct_steps (ecc_steps n) p read_ecc calc_ecc (ecc_failed n) (ecc_corrected n)
      in (p, n\<lparr>ecc_failed := failed, ecc_corrected := corrected\<rparr>))"

text \<open>
  Only the steps that hold the bytes asked for, into the page buffer. Where the code bytes have no
  gaps between them only they are transferred, else the whole spare area.
\<close>

definition nand_read_subpage :: "'c nand \<Rightarrow> nat \<Rightarrow> nat \<Rightarrow> nat \<Rightarrow> 'c nand" where
  "nand_read_subpage n page data_offs readlen =
     (let cells = io_read (io n) (chip n) page;
          start_step = data_offs div 256;
          end_step = (data_offs + readlen - 1) div 256;
          num_steps = end_step - start_step + 1;
          datafrag_len = num_steps * 256;
          eccfrag_len = num_steps * 3;
          data_col_addr = start_step * 256;
          p = take datafrag_len (drop data_col_addr cells);
          calc_ecc = calc_steps num_steps p;
          pos = (\<lambda>i. eccpos (layout n) ! (i + start_step * 3));
          gaps = list_ex (\<lambda>i. pos i + 1 \<noteq> pos (i + 1)) [0..<eccfrag_len - 1];
          oob = (if gaps then overwrite (oob_poi n) 0 (take (oobsize n) (drop (writesize n) cells))
                 else overwrite (oob_poi n) (pos 0) (take eccfrag_len (drop (writesize n + pos 0) cells)));
          read_ecc = map (\<lambda>i. oob ! pos i) [0..<eccfrag_len];
          (p, failed, corrected) = correct_steps num_steps p read_ecc calc_ecc (ecc_failed n) (ecc_corrected n)
      in n\<lparr>oob_poi := oob, databuf := overwrite (databuf n) data_col_addr p,
           ecc_failed := failed, ecc_corrected := corrected\<rparr>)"

definition nand_write_page_raw :: "'c nand \<Rightarrow> u8 list \<Rightarrow> u8 list" where
  "nand_write_page_raw n buf = take (writesize n) buf @ take (oobsize n) (oob_poi n)"

text \<open>The bytes sent to the chip, after the codes have been put into the spare area.\<close>

fun store_ecc :: "nat list \<Rightarrow> u8 list \<Rightarrow> u8 list \<Rightarrow> u8 list" where
  "store_ecc (pos # poss) (c # cs) oob = store_ecc poss cs (oob[pos := c])"
| "store_ecc _ _ oob = oob"

definition nand_write_page_swecc :: "'c nand \<Rightarrow> u8 list \<Rightarrow> u8 list \<times> 'c nand" where
  "nand_write_page_swecc n buf =
     (let n = n\<lparr>oob_poi := store_ecc (eccpos (layout n)) (calc_steps (ecc_steps n) buf) (oob_poi n)\<rparr>
      in (nand_write_page_raw n buf, n))"

definition nand_write_page :: "'c nand \<Rightarrow> u8 list \<Rightarrow> nat \<Rightarrow> bool \<Rightarrow> int \<times> 'c nand" where
  "nand_write_page n buf page raw =
     (let (bytes, n) = (if raw then (nand_write_page_raw n buf, n) else nand_write_page_swecc n buf);
          (c, fail) = io_program (io n) (chip n) page 0 bytes
      in (if fail then - EIO else 0, n\<lparr>chip := c\<rparr>))"

section \<open>Reading\<close>

definition subpage_read :: "'c nand \<Rightarrow> bool" where
  "subpage_read n \<longleftrightarrow> page_shift n > 9"

text \<open>
  One page of a read, \<open>bytes\<close> bytes from column \<open>col\<close>, with the page buffer as a cache. No reading
  function of the software ECC returns an error. Reading without ECC in the mode \<open>MTD_OOB_RAW\<close> is left
  out: only the writing of a page with its spare area sets that mode, and sets it back.
\<close>

definition read_one :: "'c nand \<Rightarrow> nat \<Rightarrow> nat \<Rightarrow> nat \<Rightarrow> u8 list \<times> 'c nand" where
  "read_one n realpage col bytes =
     (if Some realpage \<noteq> pagebuf n then
        let page = chip_page n realpage in
        if bytes = writesize n then nand_read_page_swecc n page
        else if subpage_read n then
          (let n = nand_read_subpage n page col bytes in (take bytes (drop col (databuf n)), n))
        else
          (let (p, n) = nand_read_page_swecc n page;
               n = n\<lparr>databuf := overwrite (databuf n) 0 p, pagebuf := Some realpage\<rparr>
           in (take bytes (drop col (databuf n)), n))
      else (take bytes (drop col (databuf n)), n))"

function read_loop :: "'c nand \<Rightarrow> nat \<Rightarrow> nat \<Rightarrow> nat \<Rightarrow> u8 list \<times> 'c nand" where
  "read_loop n realpage col readlen =
     (let bytes = min (writesize n - col) readlen;
          (buf, n') = read_one n realpage col bytes
      in if readlen - bytes = 0 then (buf, n')
         else case read_loop n' (realpage + 1) 0 (readlen - bytes) of (rest, n'') \<Rightarrow> (buf @ rest, n''))"
  by pat_completeness auto
termination
  by (relation "measures [\<lambda>(n, realpage, col, readlen). readlen, \<lambda>(n, realpage, col, readlen). col]")
    (auto simp: writesize_def intro: gr0I)

declare read_loop.simps [simp del]

text \<open>The whole read: the bytes, and -EBADMSG or -EUCLEAN from the statistics.\<close>

definition nand_do_read_ops :: "'c nand \<Rightarrow> nat \<Rightarrow> nat \<Rightarrow> int \<times> u8 list \<times> 'c nand" where
  "nand_do_read_ops n from readlen =
     (case read_loop n (from div writesize n) (from mod writesize n) readlen of
        (buf, n') \<Rightarrow>
          (if ecc_failed n' - ecc_failed n \<noteq> 0 then - EBADMSG
           else if ecc_corrected n' - ecc_corrected n \<noteq> 0 then - EUCLEAN else 0,
           buf, n'))"

text \<open>The result, what \<open>*len\<close> has become, the bytes stored and the device.\<close>

definition nand_read :: "'c nand \<Rightarrow> nat \<Rightarrow> nat \<Rightarrow> int \<times> nat \<times> u8 list \<times> 'c nand" where
  "nand_read n from len =
     (if from + len > msize n then (- EINVAL, len, [], n)
      else if len = 0 then (0, len, [], n)
      else case nand_do_read_ops n from len of (ret, buf, n) \<Rightarrow> (ret, len, buf, n))"

section \<open>The spare area\<close>

text \<open>The pieces of the free spare bytes that a request of \<open>len\<close> bytes from \<open>offs\<close> on covers.\<close>

fun oob_pieces :: "(nat \<times> nat) list \<Rightarrow> nat \<Rightarrow> nat \<Rightarrow> (nat \<times> nat) list" where
  "oob_pieces [] offs len = []"
| "oob_pieces ((offset, flen) # free) offs len =
     (if flen = 0 \<or> len = 0 then []
      else if offs \<noteq> 0 then
        (if offs \<ge> flen then oob_pieces free (offs - flen) len
         else let bytes = min len (flen - offs)
              in (offset + offs, bytes) # oob_pieces free 0 (len - bytes))
      else let bytes = min len flen in (offset, bytes) # oob_pieces free 0 (len - bytes))"

definition nand_transfer_oob :: "'c nand \<Rightarrow> oob_mode \<Rightarrow> nat \<Rightarrow> nat \<Rightarrow> u8 list" where
  "nand_transfer_oob n mode ooboffs len =
     (case mode of
        MTD_OOB_AUTO \<Rightarrow> concat (map (\<lambda>(boffs, bytes). take bytes (drop boffs (oob_poi n)))
                                 (oob_pieces (oobfree (layout n)) ooboffs len))
      | _ \<Rightarrow> take len (drop ooboffs (oob_poi n)))"

fun fill_pieces :: "(nat \<times> nat) list \<Rightarrow> u8 list \<Rightarrow> u8 list \<Rightarrow> u8 list \<times> u8 list" where
  "fill_pieces [] oob poi = (oob, poi)"
| "fill_pieces ((boffs, bytes) # ps) oob poi =
     fill_pieces ps (drop bytes oob) (overwrite poi boffs (take bytes oob))"

text \<open>The bytes of the client that are left, and the device with its spare buffer filled.\<close>

definition nand_fill_oob :: "'c nand \<Rightarrow> oob_mode \<Rightarrow> nat \<Rightarrow> nat \<Rightarrow> u8 list \<Rightarrow> u8 list \<times> 'c nand" where
  "nand_fill_oob n mode ooboffs len oob =
     (let (oob, poi) =
        (case mode of
           MTD_OOB_AUTO \<Rightarrow> fill_pieces (oob_pieces (oobfree (layout n)) ooboffs len) oob (oob_poi n)
         | _ \<Rightarrow> (drop len oob, overwrite (oob_poi n) ooboffs (take len oob)))
      in (oob, n\<lparr>oob_poi := poi\<rparr>))"

definition nand_read_oob_std :: "'c nand \<Rightarrow> nat \<Rightarrow> 'c nand" where
  "nand_read_oob_std n page =
     n\<lparr>oob_poi := overwrite (oob_poi n) 0 (take (oobsize n) (drop (writesize n) (io_read (io n) (chip n) page)))\<rparr>"

definition oob_len :: "'c nand \<Rightarrow> oob_mode \<Rightarrow> nat" where
  "oob_len n mode = (if mode = MTD_OOB_AUTO then oobavail n else oobsize n)"

text \<open>The pages one after the other; \<open>len\<close> is positive after the tests of the caller.\<close>

function read_oob_loop :: "'c nand \<Rightarrow> oob_mode \<Rightarrow> nat \<Rightarrow> nat \<Rightarrow> nat \<Rightarrow> nat \<Rightarrow> u8 list \<times> 'c nand" where
  "read_oob_loop n mode ooboffs realpage len readlen =
     (let n = nand_read_oob_std n (chip_page n realpage);
          len = min len readlen;
          buf = nand_transfer_oob n mode ooboffs len
      in if len = 0 \<or> readlen - len = 0 then (buf, n)
         else case read_oob_loop n mode ooboffs (realpage + 1) len (readlen - len) of
                (rest, n) \<Rightarrow> (buf @ rest, n))"
  by pat_completeness auto
termination
  by (relation "measure (\<lambda>(n, mode, ooboffs, realpage, len, readlen). readlen)") auto

declare read_oob_loop.simps [simp del]

definition nand_do_read_oob :: "'c nand \<Rightarrow> nat \<Rightarrow> oob_mode \<Rightarrow> nat \<Rightarrow> nat \<Rightarrow> int \<times> u8 list \<times> 'c nand" where
  "nand_do_read_oob n from mode ooboffs readlen =
     (let len = oob_len n mode in
      if ooboffs \<ge> len then (- EINVAL, [], n)
      else if from \<ge> msize n \<or>
              ooboffs + readlen > (msize n div writesize n - from div writesize n) * len then (- EINVAL, [], n)
      else case read_oob_loop n mode ooboffs (from div writesize n) len readlen of (buf, n) \<Rightarrow> (0, buf, n))"

definition nand_write_oob_std :: "'c nand \<Rightarrow> nat \<Rightarrow> int \<times> 'c nand" where
  "nand_write_oob_std n page =
     (case io_program (io n) (chip n) page (writesize n) (take (oobsize n) (oob_poi n)) of
        (c, fail) \<Rightarrow> (if fail then - EIO else 0, n\<lparr>chip := c\<rparr>))"

definition fill_ff :: "'c nand \<Rightarrow> 'c nand" where
  "fill_ff n = n\<lparr>oob_poi := overwrite (oob_poi n) 0 (replicate (oobsize n) 0xff)\<rparr>"

definition nand_do_write_oob :: "'c nand \<Rightarrow> nat \<Rightarrow> oob_mode \<Rightarrow> nat \<Rightarrow> u8 list \<Rightarrow> int \<times> 'c nand" where
  "nand_do_write_oob n to mode ooboffs oob =
     (let len = oob_len n mode; ooblen = length oob in
      if ooboffs + ooblen > len then (- EINVAL, n)
      else if ooboffs \<ge> len then (- EINVAL, n)
      else if to \<ge> msize n \<or>
              ooboffs + ooblen > (msize n div writesize n - to div writesize n) * len then (- EINVAL, n)
      else if io_protected (io n) (chip n) then (- EROFS, n)
      else
        (let page = to div writesize n;
             n = (if pagebuf n = Some page then n\<lparr>pagebuf := None\<rparr> else n);
             n = snd (nand_fill_oob (fill_ff n) mode ooboffs ooblen oob);
             (status, n) = nand_write_oob_std n (chip_page n page)
         in (status, fill_ff n)))"

section \<open>Writing\<close>

text \<open>
  The pages of a write. A partial page goes through the page buffer, filled up with \<open>0xff\<close>; \<open>oob\<close>
  is what is left of the client's spare bytes, if there are any. The result is the status and the
  number of bytes not written.
\<close>

function write_loop ::
  "'c nand \<Rightarrow> nat \<Rightarrow> nat \<Rightarrow> u8 list \<Rightarrow> u8 list option \<Rightarrow> nat \<Rightarrow> int \<times> nat \<times> 'c nand" where
  "write_loop n realpage column buf oob writelen =
     (let partial = (column \<noteq> 0 \<or> writelen < writesize n - 1);
          bytes = (if partial then min (writesize n - column) writelen else writesize n);
          n1 = (if partial then n\<lparr>pagebuf := None,
                  databuf := overwrite (overwrite (databuf n) 0 (replicate (writesize n) 0xff)) column (take bytes buf)\<rparr>
                else n);
          wbuf = (if partial then databuf n1 else buf);
          (oob', n2) = (case oob of
             None \<Rightarrow> (None, n1)
           | Some oob \<Rightarrow> (case nand_fill_oob n1 (ops_mode n1) (ops_ooboffs n1) (oobsize n1) oob of
               (oob, n2) \<Rightarrow> (Some oob, n2)));
          (ret, n3) = nand_write_page n2 wbuf (chip_page n2 realpage) (ops_mode n2 = MTD_OOB_RAW)
      in if ret \<noteq> 0 then (ret, writelen, n3)
         else if writelen - bytes = 0 then (0, 0, n3)
         else write_loop n3 (realpage + 1) 0 (drop bytes buf) oob' (writelen - bytes))"
  by pat_completeness auto
termination
  by (relation "measures [\<lambda>(n, realpage, column, buf, oob, writelen). writelen,
        \<lambda>(n, realpage, column, buf, oob, writelen). column]")
    (auto simp: writesize_def intro: gr0I)

declare write_loop.simps [simp del]

definition nand_do_write_ops ::
  "'c nand \<Rightarrow> nat \<Rightarrow> u8 list \<Rightarrow> u8 list option \<Rightarrow> nat \<Rightarrow> int \<times> nat \<times> 'c nand" where
  "nand_do_write_ops n to buf oob writelen =
     (if writelen = 0 then (0, 0, n)
      else if to mod subpagesize n \<noteq> 0 \<or> writelen mod subpagesize n \<noteq> 0 then (- EINVAL, 0, n)
      else let column = to mod writesize n in
        if (column \<noteq> 0 \<or> writelen mod writesize n \<noteq> 0) \<and> oob \<noteq> None then (- EINVAL, 0, n)
        else if io_protected (io n) (chip n) then (- EIO, 0, n)
        else
          (let n = (case pagebuf n of
                 Some p \<Rightarrow> if to \<le> p * writesize n \<and> p * writesize n < to + writelen then n\<lparr>pagebuf := None\<rparr> else n
               | None \<Rightarrow> n);
               n = (if oob = None then fill_ff n else n);
               (ret, left, n) = write_loop n (to div writesize n) column buf oob writelen
           in (ret, writelen - left, n)))"

text \<open>
  A yaffs image holds each page with its spare bytes behind it; \<open>nand_write\<close> moves, in the
  caller's buffer, the spare bytes of the pages one after the other to the end.
\<close>

definition move_oob :: "nat \<Rightarrow> nat \<Rightarrow> nat \<Rightarrow> nat \<Rightarrow> u8 list \<Rightarrow> u8 list" where
  "move_oob datasize spare datapages i buf =
     (let at = datasize * (i + 1);
          oobtemp = take spare (drop at buf);
          buf = overwrite buf at
            (take ((datapages - (i + 1)) * datasize + (datapages - 1) * spare) (drop (at + spare) buf))
      in overwrite buf (datapages * (datasize + spare) - spare) oobtemp)"

text \<open>The result, what \<open>*len\<close> has become, the caller's buffer and the device.\<close>

definition nand_write :: "'c nand \<Rightarrow> nat \<Rightarrow> nat \<Rightarrow> u8 list \<Rightarrow> int \<times> nat \<times> u8 list \<times> 'c nand" where
  "nand_write n to len buf =
     (let datapages = len div writesize n;
          buf = (if rw_oob n then fold (move_oob (writesize n) (oobsize n) datapages) [0..<datapages] buf else buf)
      in if to + len > msize n then (- EINVAL, len, buf, n)
         else if len = 0 then (0, len, buf, n)
         else
           (let oldopsmode = (if rw_oob n then ops_mode n else MTD_OOB_PLACE);
                oob = (if rw_oob n then Some (drop len buf) else None);
                n = (if rw_oob n then n\<lparr>ops_mode := MTD_OOB_RAW\<rparr> else n);
                (ret, retlen, n) = nand_do_write_ops n to buf oob len
            in (ret, retlen, buf, n\<lparr>ops_mode := oldopsmode\<rparr>)))"

section \<open>The bad block table\<close>

record nand_bbt_descr =
  bd_scan2nd :: bool
  bd_offs :: nat
  bd_pattern :: "u8 list"

definition smallpage_memorybased :: nand_bbt_descr where
  "smallpage_memorybased = \<lparr>bd_scan2nd = True, bd_offs = 5, bd_pattern = [0xff]\<rparr>"

definition largepage_memorybased :: nand_bbt_descr where
  "largepage_memorybased = \<lparr>bd_scan2nd = False, bd_offs = 0, bd_pattern = [0xff, 0xff]\<rparr>"

text \<open>Whether the pattern is missing.\<close>

definition check_short_pattern :: "u8 list \<Rightarrow> nand_bbt_descr \<Rightarrow> bool" where
  "check_short_pattern buf td \<longleftrightarrow>
     list_ex (\<lambda>i. buf ! (bd_offs td + i) \<noteq> bd_pattern td ! i) [0..<length (bd_pattern td)]"

text \<open>The spare areas of the first pages of a block, read into the page buffer.\<close>

fun scan_block_fast :: "'c nand \<Rightarrow> nand_bbt_descr \<Rightarrow> nat \<Rightarrow> nat \<Rightarrow> int \<times> 'c nand" where
  "scan_block_fast n bd offs 0 = (0, n)"
| "scan_block_fast n bd offs (Suc len) =
     (case nand_do_read_oob n offs MTD_OOB_PLACE 0 (oobsize n) of
        (ret, oob, n) \<Rightarrow>
          let n = n\<lparr>databuf := overwrite (databuf n) 0 oob\<rparr> in
          if ret \<noteq> 0 then (ret, n)
          else if check_short_pattern (databuf n) bd then (1, n)
          else scan_block_fast n bd (offs + writesize n) len)"

text \<open>Bits of the table are set; \<open>None\<close> is an access outside it.\<close>

definition bbt_mark :: "'c nand \<Rightarrow> nat \<Rightarrow> u8 \<Rightarrow> 'c nand option" where
  "bbt_mark n i bits =
     (case bbt n of
        None \<Rightarrow> None
      | Some t \<Rightarrow> if i < length t then Some (n\<lparr>bbt := Some (t[i := t ! i OR bits])\<rparr>) else None)"

text \<open>The blocks of the chip, which the code counts doubled.\<close>

fun create_bbt :: "nand_bbt_descr \<Rightarrow> nat list \<Rightarrow> 'c nand \<Rightarrow> (int \<times> 'c nand) option" where
  "create_bbt bd [] n = Some (0, n)"
| "create_bbt bd (block # blocks) n =
     (case scan_block_fast n bd (block * erasesize n) (if bd_scan2nd bd then 2 else 1) of
        (ret, n) \<Rightarrow>
          if ret < 0 then Some (ret, n)
          else if ret \<noteq> 0 then
            (let i = 2 * block in
             case bbt_mark n (i div 8) (push_bit (i AND 6) 3) of
               None \<Rightarrow> None
             | Some n \<Rightarrow> create_bbt bd blocks (n\<lparr>badblocks := badblocks n + 1\<rparr>))
          else create_bbt bd blocks n)"

definition nand_scan_bbt :: "'c nand \<Rightarrow> nand_bbt_descr \<Rightarrow> (int \<times> 'c nand) option" where
  "nand_scan_bbt n bd =
     (if \<not> heap_ok n then Some (- ENOMEM, n\<lparr>bbt := None\<rparr>)
      else
        (case create_bbt bd [0..<msize n div erasesize n]
                (n\<lparr>bbt := Some (replicate (msize n div 2 ^ (erase_shift n + 2)) 0)\<rparr>) of
           None \<Rightarrow> None
         | Some (res, n) \<Rightarrow> Some (res, if res \<noteq> 0 then n\<lparr>bbt := None\<rparr> else n)))"

definition nand_default_bbt :: "'c nand \<Rightarrow> (int \<times> 'c nand) option" where
  "nand_default_bbt n =
     nand_scan_bbt n (if writesize n > 512 then largepage_memorybased else smallpage_memorybased)"

definition nand_isbad_bbt :: "'c nand \<Rightarrow> nat \<Rightarrow> bool \<Rightarrow> int option" where
  "nand_isbad_bbt n offs allowbbt =
     (case bbt n of
        None \<Rightarrow> None
      | Some t \<Rightarrow>
          let block = offs div 2 ^ (erase_shift n - 1) in
          if block div 8 < length t then
            (let res = drop_bit (block AND 6) (t ! (block div 8)) AND 3
             in Some (if res = 0 then 0 else if res = 1 then 1
                      else if res = 2 then (if allowbbt then 0 else 1) else 1))
          else None)"

text \<open>The marker of the block itself; while scrubbing every block passes for good.\<close>

definition nand_block_bad :: "'c nand \<Rightarrow> nat \<Rightarrow> int" where
  "nand_block_bad n ofs =
     (if io_read (io n) (chip n) (chip_page n (ofs div writesize n)) ! (writesize n + badblockpos n) \<noteq> 0xff
      then 1 else 0)"

definition nand_block_bad_scrub :: "'c nand \<Rightarrow> nat \<Rightarrow> int" where
  "nand_block_bad_scrub n ofs = 0"

definition nand_block_checkbad :: "'c nand \<Rightarrow> nat \<Rightarrow> bool \<Rightarrow> (int \<times> 'c nand) option" where
  "nand_block_checkbad n ofs allowbbt = do {
     n \<leftarrow> (if bbt_scanned n then Some n else map_option snd (nand_default_bbt (n\<lparr>bbt_scanned := True\<rparr>)));
     if bbt n = None then Some (if bad_scrub n then nand_block_bad_scrub n ofs else nand_block_bad n ofs, n)
     else map_option (\<lambda>r. (r, n)) (nand_isbad_bbt n ofs allowbbt) }"

definition nand_block_isbad :: "'c nand \<Rightarrow> nat \<Rightarrow> (int \<times> 'c nand) option" where
  "nand_block_isbad n offs =
     (if offs > msize n then Some (- EINVAL, n) else nand_block_checkbad n offs False)"

definition nand_default_block_markbad :: "'c nand \<Rightarrow> nat \<Rightarrow> (int \<times> 'c nand) option" where
  "nand_default_block_markbad n ofs = do {
     n \<leftarrow> (let block = ofs div erasesize n in
          if bbt n = None then Some n
          else bbt_mark n (block div 4) (push_bit (push_bit 1 (block AND 3)) 1));
     (let offs = 2 * (badblockpos n div 2);
          (ret, n) = nand_do_write_oob (n\<lparr>ops_ooboffs := offs\<rparr>) (ofs + oobsize n) (ops_mode n) offs [0, 0]
      in Some (ret, if ret = 0 then n\<lparr>badblocks := badblocks n + 1\<rparr> else n)) }"

definition nand_block_markbad :: "'c nand \<Rightarrow> nat \<Rightarrow> (int \<times> 'c nand) option" where
  "nand_block_markbad n ofs = do {
     (ret, n) \<leftarrow> nand_block_isbad n ofs;
     if ret \<noteq> 0 then Some (if ret > 0 then 0 else ret, n)
     else nand_default_block_markbad n ofs }"

section \<open>Erasing\<close>

text \<open>The blocks of an erase request, up to the first that is bad or cannot be erased.\<close>

fun erase_loop :: "'c nand \<Rightarrow> nat \<Rightarrow> nat \<Rightarrow> bool \<Rightarrow> (bool \<times> 'c nand) option" where
  "erase_loop n page 0 allowbbt = Some (True, n)"
| "erase_loop n page (Suc blocks) allowbbt = do {
     (bad, n) \<leftarrow> nand_block_checkbad n (page * writesize n) allowbbt;
     if bad \<noteq> 0 then Some (False, n)
     else
       (let pages_per_block = 2 ^ (erase_shift n - page_shift n);
            n = (case pagebuf n of
                   Some p \<Rightarrow> if page \<le> p \<and> p < page + pages_per_block then n\<lparr>pagebuf := None\<rparr> else n
                 | None \<Rightarrow> n);
            (c, fail) = io_erase (io n) (chip n) (chip_page n page);
            n = n\<lparr>chip := c\<rparr>
        in if fail then Some (False, n) else erase_loop n (page + pages_per_block) blocks allowbbt) }"

definition nand_erase_nand :: "'c nand \<Rightarrow> nat \<Rightarrow> nat \<Rightarrow> bool \<Rightarrow> (int \<times> 'c nand) option" where
  "nand_erase_nand n addr len allowbbt =
     (if addr mod erasesize n \<noteq> 0 then Some (- EINVAL, n)
      else if len mod erasesize n \<noteq> 0 then Some (- EINVAL, n)
      else if len + addr > msize n then Some (- EINVAL, n)
      else if io_protected (io n) (chip n) then Some (- EIO, n)
      else map_option (\<lambda>(ok, n). (if ok then 0 else - EIO, n))
             (erase_loop n (addr div writesize n) (len div erasesize n) allowbbt))"

definition nand_erase :: "'c nand \<Rightarrow> nat \<Rightarrow> nat \<Rightarrow> (int \<times> 'c nand) option" where
  "nand_erase n addr len = nand_erase_nand n addr len False"


section \<open>What the queries leave alone\<close>

text \<open>What describes the device and the request, as against what the operations change.\<close>

definition device :: "'c nand \<Rightarrow> 'c nand_io \<times> nat \<times> nat \<times> nat \<times> nat \<times> nand_ecclayout \<times> nat \<times> nat \<times> bool" where
  "device n = (io n, page_shift n, erase_shift n, chip_shift n, oobsize n, layout n, subpage_sft n, badblockpos n,
     heap_ok n)"

lemma device_sizes:
  assumes "device n' = device n"
  shows "io n' = io n" "page_shift n' = page_shift n" "erase_shift n' = erase_shift n"
    "chip_shift n' = chip_shift n" "oobsize n' = oobsize n" "layout n' = layout n"
    "subpage_sft n' = subpage_sft n" "badblockpos n' = badblockpos n" "heap_ok n' = heap_ok n"
    "writesize n' = writesize n" "erasesize n' = erasesize n" "msize n' = msize n"
    "subpagesize n' = subpagesize n" "oobavail n' = oobavail n" "ecc_steps n' = ecc_steps n"
    "subpage_read n' = subpage_read n" "chip_page n' = chip_page n"
  using assms
  by (auto simp: device_def writesize_def erasesize_def msize_def subpagesize_def oobavail_def ecc_steps_def
      subpage_read_def chip_page_def)

text \<open>What a query of the bad block table leaves alone: all but the buffers and the table.\<close>

definition quiet :: "'c nand \<Rightarrow> 'c nand \<Rightarrow> bool" where
  "quiet n n' \<longleftrightarrow> device n' = device n \<and> chip n' = chip n \<and> pagebuf n' = pagebuf n \<and>
     ops_mode n' = ops_mode n \<and> ops_ooboffs n' = ops_ooboffs n \<and> bad_scrub n' = bad_scrub n \<and>
     ecc_failed n' = ecc_failed n \<and> ecc_corrected n' = ecc_corrected n \<and>
     rw_oob n' = rw_oob n \<and> skipfirstblk n' = skipfirstblk n"

lemma quiet_refl [simp]: "quiet n n"
  by (simp add: quiet_def)

lemma quiet_trans: "quiet n n' \<Longrightarrow> quiet n' n'' \<Longrightarrow> quiet n n''"
  by (simp add: quiet_def)

lemma read_oob_loop_quiet:
  "read_oob_loop n mode ooboffs realpage len readlen = (buf, n') \<Longrightarrow>
     quiet n n' \<and> bbt n' = bbt n \<and> bbt_scanned n' = bbt_scanned n \<and> databuf n' = databuf n"
proof (induction n mode ooboffs realpage len readlen arbitrary: buf n' rule: read_oob_loop.induct)
  case (1 n mode ooboffs realpage len readlen)
  have one: "quiet n (nand_read_oob_std n p) \<and> bbt (nand_read_oob_std n p) = bbt n \<and>
      bbt_scanned (nand_read_oob_std n p) = bbt_scanned n \<and> databuf (nand_read_oob_std n p) = databuf n" for p
    by (simp add: nand_read_oob_std_def quiet_def device_def)
  show ?case
    using "1.IH" [OF refl refl refl] "1.prems" one [of "chip_page n realpage"]
    by (subst (asm) read_oob_loop.simps) (auto simp: Let_def split: if_splits prod.splits dest: quiet_trans)
qed

lemma scan_block_fast_quiet:
  "scan_block_fast n bd offs len = (ret, n') \<Longrightarrow> quiet n n' \<and> bbt n' = bbt n \<and> bbt_scanned n' = bbt_scanned n"
proof (induction len arbitrary: n offs)
  case (Suc len)
  obtain r oob m where one: "nand_do_read_oob n offs MTD_OOB_PLACE 0 (oobsize n) = (r, oob, m)"
    by (cases "nand_do_read_oob n offs MTD_OOB_PLACE 0 (oobsize n)")
  let ?m = "m\<lparr>databuf := overwrite (databuf m) 0 oob\<rparr>"
  have m: "quiet n m \<and> bbt m = bbt n \<and> bbt_scanned m = bbt_scanned n"
    using one
    by (auto simp: nand_do_read_oob_def Let_def split: if_splits prod.splits dest: read_oob_loop_quiet)
  then have "quiet n ?m \<and> bbt ?m = bbt n \<and> bbt_scanned ?m = bbt_scanned n"
    by (simp add: quiet_def device_def)
  then show ?case
    using Suc.prems Suc.IH [of ?m "offs + writesize ?m"] one
    by (auto simp: Let_def split: if_splits dest: quiet_trans)
qed simp

lemma create_bbt_quiet:
  "create_bbt bd blocks n = Some (ret, n') \<Longrightarrow> quiet n n' \<and> bbt_scanned n' = bbt_scanned n"
proof (induction blocks arbitrary: n)
  case (Cons block blocks)
  obtain r m where one: "scan_block_fast n bd (block * erasesize n) (if bd_scan2nd bd then 2 else 1) = (r, m)"
    by (cases "scan_block_fast n bd (block * erasesize n) (if bd_scan2nd bd then 2 else 1)")
  have m: "quiet n m \<and> bbt_scanned m = bbt_scanned n"
    using scan_block_fast_quiet [OF one] by simp
  have mark: "quiet m k \<and> bbt_scanned k = bbt_scanned m" if "bbt_mark m i bits = Some k" for i bits k
    using that by (auto simp: bbt_mark_def quiet_def device_def split: option.splits if_splits)
  have count: "quiet k (k\<lparr>badblocks := b\<rparr>)" for k b
    by (simp add: quiet_def device_def)
  show ?case
    using Cons.prems one m
    by (auto simp: Let_def split: if_splits option.splits
        dest!: Cons.IH mark intro: quiet_trans quiet_trans [OF count] quiet_trans [OF _ quiet_trans [OF _ quiet_trans [OF count]]])
qed simp

lemma nand_block_isbad_quiet:
  "nand_block_isbad n offs = Some (r, n') \<Longrightarrow> quiet n n'"
  "nand_block_checkbad n offs allow = Some (r, n') \<Longrightarrow> quiet n n' \<and> bbt_scanned n'"
proof -
  have scan: "quiet n m \<and> bbt_scanned m" if "nand_default_bbt (n\<lparr>bbt_scanned := True\<rparr>) = Some (a, m)" for a m
  proof -
    have init: "quiet n (n\<lparr>bbt_scanned := True, bbt := t\<rparr>)" for t
      by (simp add: quiet_def device_def)
    have fin: "quiet k (k\<lparr>bbt := t\<rparr>)" for k t
      by (simp add: quiet_def device_def)
    show ?thesis
      using that
      by (auto simp: nand_default_bbt_def nand_scan_bbt_def split: if_splits option.splits
          dest!: create_bbt_quiet intro: init quiet_trans [OF init] quiet_trans [OF quiet_trans [OF init] fin])
  qed
  show check: "nand_block_checkbad n offs allow = Some (r, n') \<Longrightarrow> quiet n n' \<and> bbt_scanned n'" for r n' allow
    by (auto simp: nand_block_checkbad_def Option.bind_eq_Some_conv split: if_splits dest!: scan)
  show "nand_block_isbad n offs = Some (r, n') \<Longrightarrow> quiet n n'"
    using check by (auto simp: nand_block_isbad_def split: if_splits)
qed


text \<open>Reads and writes keep the device and the table.\<close>

definition steady :: "'c nand \<Rightarrow> 'c nand \<Rightarrow> bool" where
  "steady n n' \<longleftrightarrow> device n' = device n \<and> bbt n' = bbt n \<and> bbt_scanned n' = bbt_scanned n \<and>
     bad_scrub n' = bad_scrub n \<and> rw_oob n' = rw_oob n \<and> skipfirstblk n' = skipfirstblk n"

lemma steady_refl [simp]: "steady n n"
  by (simp add: steady_def)

lemma steady_trans: "steady n n' \<Longrightarrow> steady n' n'' \<Longrightarrow> steady n n''"
  by (simp add: steady_def)

lemma steady_updates [simp]:
  "steady n (n\<lparr>oob_poi := a\<rparr>)" "steady n (n\<lparr>databuf := a\<rparr>)" "steady n (n\<lparr>pagebuf := b\<rparr>)"
  "steady n (n\<lparr>chip := c\<rparr>)" "steady n (n\<lparr>ecc_failed := d\<rparr>)" "steady n (n\<lparr>ecc_corrected := d\<rparr>)"
  "steady n (n\<lparr>ops_mode := m\<rparr>)" "steady n (n\<lparr>ops_ooboffs := f\<rparr>)"
  by (simp_all add: steady_def device_def)

lemma steady_mode: "steady (n\<lparr>ops_mode := a\<rparr>) n' \<Longrightarrow> steady n (n'\<lparr>ops_mode := b\<rparr>)"
  by (simp add: steady_def device_def)

lemma nand_fill_oob_steady: "steady n (snd (nand_fill_oob n mode offs len oob))"
  by (simp add: nand_fill_oob_def steady_def device_def split: prod.splits)

lemma nand_write_page_steady: "steady n (snd (nand_write_page n buf page raw))"
  by (simp add: nand_write_page_def nand_write_page_swecc_def steady_def device_def Let_def split: prod.splits)

lemma write_loop_steady:
  "write_loop n realpage column buf oob writelen = (ret, left, n') \<Longrightarrow> steady n n' \<and> (ret = 0 \<longrightarrow> left = 0)"
proof (induction n realpage column buf oob writelen arbitrary: ret left n' rule: write_loop.induct)
  case (1 n realpage column buf oob writelen)
  define partial where "partial = (column \<noteq> 0 \<or> writelen < writesize n - 1)"
  define bytes where "bytes = (if partial then min (writesize n - column) writelen else writesize n)"
  define n1 where "n1 = (if partial then n\<lparr>pagebuf := None,
      databuf := overwrite (overwrite (databuf n) 0 (replicate (writesize n) 0xff)) column (take bytes buf)\<rparr>
    else n)"
  define wbuf where "wbuf = (if partial then databuf n1 else buf)"
  obtain oob' n2 where oob: "(case oob of None \<Rightarrow> (None, n1)
      | Some oob \<Rightarrow> (case nand_fill_oob n1 (ops_mode n1) (ops_ooboffs n1) (oobsize n1) oob of
          (oob, n2) \<Rightarrow> (Some oob, n2))) = (oob', n2)"
    by fastforce
  obtain r n3 where page: "nand_write_page n2 wbuf (chip_page n2 realpage) (ops_mode n2 = MTD_OOB_RAW) = (r, n3)"
    by fastforce
  have n1: "steady n n1"
    by (auto simp: n1_def steady_def device_def)
  have n2: "steady n1 n2"
    using oob nand_fill_oob_steady [of n1 "ops_mode n1" "ops_ooboffs n1" "oobsize n1"]
    by (auto split: option.splits prod.splits) (metis snd_conv)
  have n3: "steady n2 n3"
    using page nand_write_page_steady [of n2 wbuf "chip_page n2 realpage"] by (metis snd_conv)
  have n: "steady n n3"
    by (rule steady_trans [OF n1 steady_trans [OF n2 n3]])
  have body: "write_loop n realpage column buf oob writelen =
      (if r \<noteq> 0 then (r, writelen, n3) else if writelen - bytes = 0 then (0, 0, n3)
       else write_loop n3 (realpage + 1) 0 (drop bytes buf) oob' (writelen - bytes))"
    by (subst write_loop.simps) (simp only: Let_def partial_def [symmetric] bytes_def [symmetric]
        n1_def [symmetric] wbuf_def [symmetric] oob prod.case page)
  show ?case
  proof (cases "r \<noteq> 0 \<or> writelen - bytes = 0")
    case True
    then show ?thesis using "1.prems" n by (auto simp: body split: if_splits)
  next
    case False
    then have rec: "write_loop n3 (realpage + 1) 0 (drop bytes buf) oob' (writelen - bytes) = (ret, left, n')"
      using "1.prems" body by simp
    have "steady n3 n' \<and> (ret = 0 \<longrightarrow> left = 0)"
      by (rule "1.IH" [OF partial_def bytes_def n1_def wbuf_def oob [symmetric] refl page [symmetric] refl _ _ rec])
        (use False in simp_all)
    then show ?thesis using steady_trans [OF n] by blast
  qed
qed

lemma nand_write_steady:
  assumes "nand_write n to len buf = (ret, retlen, buf', n')"
  shows "steady n n'" and "ret = 0 \<Longrightarrow> retlen = len"
proof -
  have pick: "steady m (case pagebuf m of Some p \<Rightarrow> if c p then m\<lparr>pagebuf := None\<rparr> else m | None \<Rightarrow> m)" for m :: "'c nand" and c
    by (auto split: option.splits)
  have fill: "steady m (if c then fill_ff m else m)" for m :: "'c nand" and c
    by (simp add: fill_ff_def)
  have ops: "steady m m' \<and> (r = 0 \<longrightarrow> l = k)" if "nand_do_write_ops m to b oob k = (r, l, m')" for m m' :: "'c nand" and b oob k r l
    using that
    by (auto simp: nand_do_write_ops_def errno_defs Let_def split: if_splits prod.splits
        dest!: write_loop_steady intro: steady_trans [OF pick] steady_trans [OF steady_trans [OF pick fill]])
  show "steady n n'" "ret = 0 \<Longrightarrow> retlen = len"
    using assms steady_updates(7)
    by (auto simp: nand_write_def errno_defs Let_def split: if_splits prod.splits dest!: ops intro: steady_mode steady_trans)
qed

lemma nand_read_page_swecc_steady: "steady n (snd (nand_read_page_swecc n page))"
proof -
  have "steady n (n\<lparr>oob_poi := a, ecc_failed := c, ecc_corrected := d\<rparr>)" for a c d
    by (simp add: steady_def device_def)
  then show ?thesis
    unfolding nand_read_page_swecc_def nand_read_page_raw_def Let_def case_prod_beta fst_conv snd_conv .
qed

lemma nand_read_subpage_steady: "steady n (nand_read_subpage n page col bytes)"
proof -
  have "steady n (n\<lparr>oob_poi := a, databuf := b, ecc_failed := c, ecc_corrected := d\<rparr>)" for a b c d
    by (simp add: steady_def device_def)
  then show ?thesis
    unfolding nand_read_subpage_def Let_def case_prod_beta .
qed

lemma read_one_steady: "read_one n realpage col bytes = (buf, n') \<Longrightarrow> steady n n'"
proof -
  assume "read_one n realpage col bytes = (buf, n')"
  moreover have "steady n (m\<lparr>databuf := b, pagebuf := c\<rparr>)" if "steady n m" for m b c
    using that by (simp add: steady_def device_def)
  moreover note nand_read_page_swecc_steady [of n "chip_page n realpage"]
    nand_read_subpage_steady [of n "chip_page n realpage" col bytes]
  ultimately show ?thesis
    by (auto simp: read_one_def Let_def split: if_splits prod.splits)
qed

lemma read_loop_steady: "read_loop n realpage col readlen = (buf, n') \<Longrightarrow> steady n n'"
proof (induction n realpage col readlen arbitrary: buf n' rule: read_loop.induct)
  case (1 n realpage col readlen)
  obtain a m where one: "read_one n realpage col (min (writesize n - col) readlen) = (a, m)"
    by fastforce
  show ?case
    using "1.prems" "1.IH" [OF refl one [symmetric] refl] read_one_steady [OF one]
    by (subst (asm) read_loop.simps) (auto simp: Let_def one split: if_splits prod.splits intro: steady_trans)
qed

lemma nand_read_steady:
  assumes "nand_read n from len = (ret, retlen, buf, n')"
  shows "steady n n'" and "retlen = len"
  using assms
  by (auto simp: nand_read_def nand_do_read_ops_def split: if_splits prod.splits dest: read_loop_steady)

end
