(* ===== verification/NandUtil.thy ===== *)
theory NandUtil
  imports NandFlash
begin

text \<open>
  \<open>drivers/mtd/nand/nand_util.c\<close>: erasing ranges, and the transfers that skip bad blocks. A result
  \<open>None\<close> is an access outside the bad block table or, in the transfers, a loop without an end.
\<close>

section \<open>Erasing a range\<close>

record nand_erase_options =
  opt_length :: nat
  opt_offset :: nat
  opt_jffs2 :: bool
  opt_scrub :: bool

text \<open>\<open>JFFS2_MAGIC_BITMASK\<close>, \<open>JFFS2_NODETYPE_CLEANMARKER\<close> and the length 8, little endian.\<close>

definition cleanmarker :: "u8 list" where
  "cleanmarker = [0x85, 0x19, 0x03, 0x20, 8, 0, 0, 0]"

text \<open>Up to \<open>blocks\<close> blocks; the flag of the result says whether the loop ran to its end.\<close>

fun erase_opts_loop :: "nand_erase_options \<Rightarrow> 'c nand \<Rightarrow> nat \<Rightarrow> nat \<Rightarrow> (bool \<times> 'c nand) option" where
  "erase_opts_loop opts n addr 0 = Some (True, n)"
| "erase_opts_loop opts n addr (Suc blocks) = do {
     (bad, n) \<leftarrow> (if opt_scrub opts then Some (0, n) else nand_block_isbad n addr);
     if bad > 0 then erase_opts_loop opts n (addr + erasesize n) blocks
     else if bad < 0 then Some (False, n)
     else do {
       (result, n) \<leftarrow> nand_erase n addr (erasesize n);
       if result \<noteq> 0 then erase_opts_loop opts n (addr + erasesize n) blocks
       else
         (let n = (if opt_jffs2 opts \<and> oobavail n \<ge> 8 then
                     snd (nand_do_write_oob (n\<lparr>ops_ooboffs := 0, ops_mode := MTD_OOB_AUTO\<rparr>) addr MTD_OOB_AUTO 0 cleanmarker)
                   else n)
          in erase_opts_loop opts n (addr + erasesize n) blocks) } }"

definition nand_erase_opts :: "nand_erase_options \<Rightarrow> 'c nand \<Rightarrow> (int \<times> 'c nand) option" where
  "nand_erase_opts opts n = do {
     let n = (if opt_scrub opts then n\<lparr>bad_scrub := True, bbt := None\<rparr> else n);
     let erase_length = max (opt_length opts) (erasesize n);
     (fin, n) \<leftarrow> erase_opts_loop opts n (opt_offset opts) ((erase_length + erasesize n - 1) div erasesize n);
     if \<not> fin then Some (- 1, n)
     else if opt_scrub opts then map_option (\<lambda>(_, n). (0, n)) (nand_default_bbt (n\<lparr>bad_scrub := False\<rparr>))
     else Some (0, n) }"

section \<open>Skipping bad blocks\<close>

lemma isbad_msize: "nand_block_isbad n offs = Some (r, n') \<Longrightarrow> msize n' = msize n"
  using nand_block_isbad_quiet(1) [of n offs r n'] device_sizes(12) [of n' n] by (simp add: quiet_def)

lemma block_rest: "0 < erasesize n - offset mod erasesize n"
  by (simp add: erasesize_def)

text \<open>The length of an image with the bad blocks in its way; the loop also ends with the device.\<close>

function len_incl_bad_loop :: "'c nand \<Rightarrow> nat \<Rightarrow> nat \<Rightarrow> nat \<Rightarrow> nat \<Rightarrow> (nat \<times> 'c nand) option" where
  "len_incl_bad_loop n offset len excl_bad incl_bad =
     (if excl_bad < len then
        (let block_len = erasesize n - offset mod erasesize n
         in case nand_block_isbad n (offset - offset mod erasesize n) of
              None \<Rightarrow> None
            | Some (bad, n') \<Rightarrow>
                if offset + block_len \<ge> msize n then Some (incl_bad + block_len, n')
                else len_incl_bad_loop n' (offset + block_len) len
                       (if bad = 0 then excl_bad + block_len else excl_bad) (incl_bad + block_len))
      else Some (incl_bad, n))"
  by pat_completeness auto
termination
proof (relation "measure (\<lambda>(n, offset, len, excl_bad, incl_bad). msize n - offset)", goal_cases)
  case (2 n offset len excl_bad incl_bad block_len p bad n')
  then show ?case
    using isbad_msize [of n _ bad n'] block_rest [of n offset] by auto
qed simp

declare len_incl_bad_loop.simps [simp del]

definition get_len_incl_bad :: "'c nand \<Rightarrow> nat \<Rightarrow> nat \<Rightarrow> (nat \<times> 'c nand) option" where
  "get_len_incl_bad n offset len = len_incl_bad_loop n offset len 0 0"

text \<open>
  The blocks of a write. An offset beyond the device is refused by \<open>nand_block_isbad\<close>, which the
  loop takes for one more bad block, and so for ever.
\<close>

function write_skip_loop ::
  "'c nand \<Rightarrow> nat \<Rightarrow> nat \<Rightarrow> u8 list \<Rightarrow> (int \<times> nat \<times> u8 list \<times> 'c nand) option" where
  "write_skip_loop n offset left buffer =
     (if left = 0 then Some (0, 0, buffer, n)
      else if offset > msize n then None
      else
        (let block_offset = offset mod erasesize n; rest = erasesize n - block_offset
         in case nand_block_isbad n (offset - block_offset) of
              None \<Rightarrow> None
            | Some (bad, n1) \<Rightarrow>
                if bad \<noteq> 0 then write_skip_loop n1 (offset + rest) left buffer
                else if skipfirstblk n1 then
                  write_skip_loop (n1\<lparr>skipfirstblk := False\<rparr>) (offset + rest) left buffer
                else
                  (case nand_write n1 offset (min left rest) buffer of
                     (rval, write_size, buffer, n2) \<Rightarrow>
                       if rval \<noteq> 0 then Some (rval, left, buffer, n2)
                       else
                         (let size = write_size + (if rw_oob n2 then write_size div writesize n2 * oobsize n2 else 0)
                          in map_option (\<lambda>(rval, left, rest, n). (rval, left, take size buffer @ rest, n))
                               (write_skip_loop n2 (offset + write_size) (left - write_size) (drop size buffer))))))"
  by pat_completeness auto
termination
proof (relation "measure (\<lambda>(n, offset, left, buffer). msize n + 1 - offset)", goal_cases)
  case (2 n offset left buffer block_offset rest p bad n1)
  then show ?case
    using isbad_msize [of n _ bad n1] block_rest [of n offset] by auto
next
  case (3 n offset left buffer block_offset rest p bad n1)
  then show ?case
    using isbad_msize [of n _ bad n1] block_rest [of n offset] by (auto simp: msize_def)
next
  case (4 n offset left buffer block_offset rest p bad n1 rval q write_size r buf n2 size)
  have "msize n1 = msize n" "0 < rest"
    using 4(3-6) isbad_msize [of n _ bad n1] block_rest [of n offset] by auto
  moreover have "nand_write n1 offset (min left rest) buffer = (rval, write_size, buf, n2)"
    by (simp add: 4(9-11))
  then have "msize n2 = msize n1" "write_size = min left rest"
    using nand_write_steady [of n1 offset "min left rest" buffer rval write_size buf n2]
      device_sizes(12) [of n2 n1] 4(12)
    by (simp_all add: steady_def)
  ultimately show ?case using 4(1,2) by simp
qed simp

declare write_skip_loop.simps [simp del]

text \<open>The result, what \<open>*length\<close> has become, the caller's buffer and the device.\<close>

definition nand_write_skip_bad :: "'c nand \<Rightarrow> nat \<Rightarrow> nat \<Rightarrow> u8 list \<Rightarrow> (int \<times> nat \<times> u8 list \<times> 'c nand) option" where
  "nand_write_skip_bad n offset len buffer =
     (if rw_oob n \<and> len mod (oobsize n + writesize n) \<noteq> 0 then Some (- EINVAL, len, buffer, n)
      else
        (let len = (if rw_oob n then len div (writesize n + oobsize n) * writesize n else len) in
         if offset mod writesize n \<noteq> 0 \<or> len mod writesize n \<noteq> 0 then Some (- EINVAL, len, buffer, n)
         else case get_len_incl_bad n offset len of
           None \<Rightarrow> None
         | Some (len_incl_bad, n) \<Rightarrow>
             if offset + len_incl_bad > msize n then Some (- EINVAL, len, buffer, n)
             else map_option (\<lambda>(rval, left, buffer, n). (rval, len - left, buffer, n))
                    (write_skip_loop n offset len buffer)))"

function read_skip_loop :: "'c nand \<Rightarrow> nat \<Rightarrow> nat \<Rightarrow> (int \<times> nat \<times> u8 list \<times> 'c nand) option" where
  "read_skip_loop n offset left =
     (if left = 0 then Some (0, 0, [], n)
      else if offset > msize n then None
      else
        (let block_offset = offset mod erasesize n; rest = erasesize n - block_offset
         in case nand_block_isbad n (offset - block_offset) of
              None \<Rightarrow> None
            | Some (bad, n1) \<Rightarrow>
                if bad \<noteq> 0 then read_skip_loop n1 (offset + rest) left
                else
                  (case nand_read n1 offset (min left rest) of
                     (rval, read_length, buf, n2) \<Rightarrow>
                       if rval \<noteq> 0 \<and> rval \<noteq> - EUCLEAN then Some (rval, left, buf, n2)
                       else map_option (\<lambda>(rval, left, rest, n). (rval, left, buf @ rest, n))
                              (read_skip_loop n2 (offset + read_length) (left - read_length)))))"
  by pat_completeness auto
termination
proof (relation "measure (\<lambda>(n, offset, left). msize n + 1 - offset)", goal_cases)
  case (2 n offset left block_offset rest p bad n1)
  then show ?case
    using isbad_msize [of n _ bad n1] block_rest [of n offset] by auto
next
  case (3 n offset left block_offset rest p bad n1 rval q read_length r buf n2)
  have "msize n1 = msize n" "0 < rest"
    using 3(3-6) isbad_msize [of n _ bad n1] block_rest [of n offset] by auto
  moreover have "nand_read n1 offset (min left rest) = (rval, read_length, buf, n2)"
    by (simp add: 3(8-10))
  then have "msize n2 = msize n1" "read_length = min left rest"
    using nand_read_steady [of n1 offset "min left rest" rval read_length buf n2]
      device_sizes(12) [of n2 n1]
    by (simp_all add: steady_def)
  ultimately show ?case using 3(1,2) by simp
qed simp

declare read_skip_loop.simps [simp del]

text \<open>The result, what \<open>*length\<close> has become, the bytes stored and the device.\<close>

definition nand_read_skip_bad :: "'c nand \<Rightarrow> nat \<Rightarrow> nat \<Rightarrow> (int \<times> nat \<times> u8 list \<times> 'c nand) option" where
  "nand_read_skip_bad n offset len =
     (case get_len_incl_bad n offset len of
        None \<Rightarrow> None
      | Some (len_incl_bad, n) \<Rightarrow>
          if offset + len_incl_bad > msize n then Some (- EINVAL, len, [], n)
          else if len_incl_bad = len then
            (case nand_read n offset len of
               (rval, retlen, buf, n) \<Rightarrow> Some (if rval = - EUCLEAN then 0 else rval, retlen, buf, n))
          else map_option (\<lambda>(rval, left, buf, n). (rval, len - left, buf, n)) (read_skip_loop n offset len))"

end
