(* ===== verification/EnvNand.thy ===== *)
theory EnvNand
  imports NandUtil Environment
begin

text \<open>
  \<open>common/env_nand.c\<close>: the environment in the NAND flash of the board, in the blocks from
  \<open>CONFIG_ENV_OFFSET\<close> on, without a redundant copy. \<open>CONFIG_ENV_RANGE\<close> and \<open>CONFIG_ENV_SIZE\<close> are
  the size of \<open>env_t\<close>: the CRC followed by the array. A result \<open>None\<close> is an access outside a
  table or a buffer.
\<close>

definition CONFIG_ENV_OFFSET :: nat where
  "CONFIG_ENV_OFFSET = 0x60000"

text \<open>\<open>env_t\<close> as it lies in memory.\<close>

definition env_bytes :: "env_state \<Rightarrow> u8 list" where
  "env_bytes st = word32_bytes (env_crc st) @ env_data st"

definition env_of_bytes :: "env_state \<Rightarrow> u8 list \<Rightarrow> env_state" where
  "env_of_bytes st buf =
     \<lparr>env_data = drop ENV_HEADER_SIZE buf,
      env_crc = ucast (buf ! 0) OR push_bit 8 (ucast (buf ! 1)) OR push_bit 16 (ucast (buf ! 2))
                  OR push_bit 24 (ucast (buf ! 3)),
      env_id = env_id st, gd_baudrate = gd_baudrate st, bi_ip_addr = bi_ip_addr st,
      load_addr = load_addr st, BootFile = BootFile st\<rparr>"

function writeenv_loop :: "'c nand \<Rightarrow> nat \<Rightarrow> nat \<Rightarrow> nat \<Rightarrow> nat \<Rightarrow> u8 list \<Rightarrow> (int \<times> 'c nand) option" where
  "writeenv_loop n offset fin len amount_saved buf =
     (if amount_saved < length buf \<and> offset < fin then
        (case nand_block_isbad n offset of
           None \<Rightarrow> None
         | Some (bad, n1) \<Rightarrow>
             if bad \<noteq> 0 then writeenv_loop n1 (offset + erasesize n1) fin len amount_saved buf
             else
               (case nand_write n1 offset len (drop amount_saved buf) of
                  (ret, len', _, n2) \<Rightarrow>
                    if ret \<noteq> 0 then Some (1, n2)
                    else writeenv_loop n2 (offset + erasesize n2) fin len' (amount_saved + len') buf))
      else Some (if amount_saved \<noteq> length buf then 1 else 0, n))"
  by pat_completeness auto
termination
  by (relation "measure (\<lambda>(n, offset, fin, len, amount_saved, buf). fin - offset)")
    (auto simp: erasesize_def intro!: diff_less_mono2)

declare writeenv_loop.simps [simp del]

definition writeenv :: "'c nand \<Rightarrow> nat \<Rightarrow> u8 list \<Rightarrow> (int \<times> 'c nand) option" where
  "writeenv n offset buf =
     writeenv_loop n offset (offset + length buf) (min (erasesize n) (length buf)) 0 buf"

definition saveenv :: "env_state \<Rightarrow> 'c nand \<Rightarrow> (int \<times> 'c nand) option" where
  "saveenv st n =
     (let buf = env_bytes st in
      case nand_erase_opts \<lparr>opt_length = length buf, opt_offset = CONFIG_ENV_OFFSET, opt_jffs2 = False,
             opt_scrub = False\<rparr> n of
        None \<Rightarrow> None
      | Some (ret, n) \<Rightarrow>
          if ret \<noteq> 0 then Some (1, n)
          else case writeenv n CONFIG_ENV_OFFSET buf of
            None \<Rightarrow> None
          | Some (ret, n) \<Rightarrow> Some (if ret \<noteq> 0 then 1 else 0, n))"

text \<open>The bytes are stored in the buffer as they come.\<close>

function readenv_loop ::
  "'c nand \<Rightarrow> nat \<Rightarrow> nat \<Rightarrow> nat \<Rightarrow> nat \<Rightarrow> u8 list \<Rightarrow> (int \<times> u8 list \<times> 'c nand) option" where
  "readenv_loop n offset fin len amount_loaded buf =
     (if amount_loaded < length buf \<and> offset < fin then
        (case nand_block_isbad n offset of
           None \<Rightarrow> None
         | Some (bad, n1) \<Rightarrow>
             if bad \<noteq> 0 then readenv_loop n1 (offset + erasesize n1) fin len amount_loaded buf
             else
               (case nand_read n1 offset len of
                  (ret, len', bytes, n2) \<Rightarrow>
                    if amount_loaded + length bytes > length buf then None
                    else
                      (let buf = overwrite buf amount_loaded bytes
                       in if ret \<noteq> 0 then Some (1, buf, n2)
                          else readenv_loop n2 (offset + erasesize n2) fin len' (amount_loaded + len') buf)))
      else Some (if amount_loaded \<noteq> length buf then 1 else 0, buf, n))"
  by pat_completeness auto
termination
  by (relation "measure (\<lambda>(n, offset, fin, len, amount_loaded, buf). fin - offset)")
    (auto simp: erasesize_def intro!: diff_less_mono2)

declare readenv_loop.simps [simp del]

definition readenv :: "'c nand \<Rightarrow> nat \<Rightarrow> u8 list \<Rightarrow> (int \<times> u8 list \<times> 'c nand) option" where
  "readenv n offset buf =
     readenv_loop n offset (offset + length buf) (min (erasesize n) (length buf)) 0 buf"

text \<open>The environment is loaded at start-up, or replaced by the default one.\<close>

definition env_relocate_spec :: "env_state \<Rightarrow> 'c nand \<Rightarrow> (env_state \<times> 'c nand) option" where
  "env_relocate_spec st n =
     (case readenv n CONFIG_ENV_OFFSET (env_bytes st) of
        None \<Rightarrow> None
      | Some (ret, buf, n) \<Rightarrow>
          let st = env_of_bytes st buf
          in if ret \<noteq> 0 then Some (set_default_env st, n)
             else if crc32 0 (env_data st) \<noteq> env_crc st then Some (set_default_env st, n)
             else Some (st, n))"

end
