(* ===== verification/Nand_Correct.thy ===== *)
theory Nand_Correct
  imports NandUtil
begin

text \<open>
  Why the NAND layer keeps data. A page is written with the codes of its data in the spare area and
  is read back whole although in each of its steps of 256 bytes a bit may have flipped, in the data
  or in the code; writing and reading an image put its pages into the good pages one after the
  other, whatever blocks are bad.
\<close>

section \<open>One page\<close>

text \<open>One step as it was written and as it is read: at most one bit differs.\<close>

definition one_flip :: "u8 list \<Rightarrow> u8 \<times> u8 \<times> u8 \<Rightarrow> u8 list \<Rightarrow> u8 \<times> u8 \<times> u8 \<Rightarrow> bool" where
  "one_flip dat code dat' code' \<longleftrightarrow>
     dat' = dat \<and> code' = code \<or>
     (\<exists>i<256. \<exists>b<8. dat' = flip_at i b dat \<and> code' = code) \<or>
     (\<exists>k<24. dat' = dat \<and> code' = flip_code k code)"

lemma ecc_fold_append:
  "\<forall>i \<in> set is. i < length dat \<Longrightarrow> foldl (ecc_step (dat @ rest)) r is = foldl (ecc_step dat) r is"
  by (induction "is" arbitrary: r) (simp_all add: ecc_step_def nth_append)

lemma nand_calculate_ecc_append: "256 \<le> length dat \<Longrightarrow> nand_calculate_ecc (dat @ rest) = nand_calculate_ecc dat"
  by (simp only: nand_calculate_ecc_def) (subst ecc_fold_append, auto)

lemma flip_at_append: "i < length dat \<Longrightarrow> flip_at i b (dat @ rest) = flip_at i b dat @ rest"
  by (simp add: flip_at_def list_update_append nth_append)

lemma correct_one_flip:
  assumes "one_flip dat (nand_calculate_ecc dat) dat' code'" and "length dat = 256"
  shows "\<exists>stat \<in> {0, 1}. nand_correct_data (dat' @ rest) code' (nand_calculate_ecc (dat' @ rest)) = (dat @ rest, stat)"
proof -
  have calc: "nand_calculate_ecc (dat @ rest) = nand_calculate_ecc dat"
    using assms(2) by (simp add: nand_calculate_ecc_append)
  show ?thesis
    using assms
    by (auto simp: one_flip_def calc nand_correct_intact_data flip_at_append [symmetric]
        nand_correct_flip [where dat = "dat @ rest", unfolded calc])
qed

text \<open>The consecutive steps of a page.\<close>

fun worn_steps :: "nat \<Rightarrow> u8 list \<Rightarrow> u8 list \<Rightarrow> u8 list \<Rightarrow> bool" where
  "worn_steps 0 dat p code \<longleftrightarrow> True"
| "worn_steps (Suc steps) dat p code \<longleftrightarrow>
     one_flip (take 256 dat) (nand_calculate_ecc (take 256 dat)) (take 256 p) (code ! 0, code ! 1, code ! 2) \<and>
     worn_steps steps (drop 256 dat) (drop 256 p) (drop 3 code)"

lemma length_calc_steps [simp]: "length (calc_steps steps p) = 3 * steps"
  by (induction steps arbitrary: p) (simp_all split: prod.split)

lemma correct_steps_restores:
  assumes "worn_steps steps dat p code" "length dat = 256 * steps" "length p = 256 * steps"
  shows "\<exists>corrected'. correct_steps steps p code (calc_steps steps p) failed corrected = (dat, failed, corrected')"
  using assms
proof (induction steps arbitrary: dat p code corrected)
  case (Suc steps)
  obtain c0 c1 c2 where calc: "nand_calculate_ecc p = (c0, c1, c2)"
    by (cases "nand_calculate_ecc p")
  have parts: "take 256 p @ drop 256 p = p" "take 256 dat @ drop 256 dat = dat" "length (take 256 dat) = 256"
    using Suc.prems by simp_all
  have "\<exists>stat \<in> {0, 1}. nand_correct_data p (code ! 0, code ! 1, code ! 2) (nand_calculate_ecc p) =
      (take 256 dat @ drop 256 p, stat)"
    using correct_one_flip [of "take 256 dat" "take 256 p" "(code ! 0, code ! 1, code ! 2)" "drop 256 p"] Suc.prems parts
    by simp
  then obtain stat where stat: "stat \<in> {0, 1}" "nand_correct_data p (code ! 0, code ! 1, code ! 2) (c0, c1, c2) =
      (take 256 dat @ drop 256 p, stat)"
    using calc by auto
  obtain corrected' where rec: "correct_steps steps (drop 256 p) (drop 3 code) (calc_steps steps (drop 256 p)) failed
      (corrected + of_int stat) = (drop 256 dat, failed, corrected')"
    using Suc.IH [of "drop 256 dat" "drop 256 p" "drop 3 code" "corrected + of_int stat"] Suc.prems by auto
  have "\<not> stat < 0" using stat by auto
  then show ?case
    using stat(2) rec parts calc by simp
qed simp

text \<open>The statistics only count up, and by how much does not depend on where they stand.\<close>

lemma correct_steps_shift:
  "correct_steps steps p code calc failed corrected =
     (case correct_steps steps p code calc 0 0 of (q, f, c) \<Rightarrow> (q, failed + f, corrected + c))"
proof (induction steps arbitrary: p code calc failed corrected)
  case (Suc steps)
  obtain q stat where one: "nand_correct_data p (code ! 0, code ! 1, code ! 2) (calc ! 0, calc ! 1, calc ! 2) = (q, stat)"
    by fastforce
  obtain u f c where rest: "correct_steps steps (drop 256 q) (drop 3 code) (drop 3 calc) 0 0 = (u, f, c)"
    by (cases "correct_steps steps (drop 256 q) (drop 3 code) (drop 3 calc) 0 0")
  show ?case
    unfolding correct_steps.simps one prod.case
    by (subst (1 2) Suc.IH) (simp add: rest)
qed simp

definition count_fixes :: "nat \<Rightarrow> u8 list \<Rightarrow> u8 list \<Rightarrow> u32" where
  "count_fixes steps p code = snd (snd (correct_steps steps p code (calc_steps steps p) 0 0))"

lemma calc_steps_Suc:
  "calc_steps (Suc steps) p ! 0 = fst (nand_calculate_ecc p)"
  "calc_steps (Suc steps) p ! 1 = fst (snd (nand_calculate_ecc p))"
  "calc_steps (Suc steps) p ! 2 = snd (snd (nand_calculate_ecc p))"
  "calc_steps (Suc steps) p ! Suc 0 = fst (snd (nand_calculate_ecc p))"
  "drop 3 (calc_steps (Suc steps) p) = calc_steps steps (drop 256 p)"
  by (simp_all split: prod.split)

lemma count_fixes_perfect: "length p = 256 * steps \<Longrightarrow> count_fixes steps p (calc_steps steps p) = 0"
proof (induction steps arbitrary: p)
  case (Suc steps)
  then have "count_fixes steps (drop 256 p) (calc_steps steps (drop 256 p)) = 0" by simp
  then show ?case
    unfolding count_fixes_def
    by (simp add: nand_correct_intact_data calc_steps_Suc case_prod_beta del: calc_steps.simps)
qed (simp add: count_fixes_def)

lemma count_fixes_flip:
  "length dat = 256 * steps \<Longrightarrow> i < length dat \<Longrightarrow> b < 8 \<Longrightarrow>
     count_fixes steps (flip_at i b dat) (calc_steps steps dat) = 1"
proof (induction steps arbitrary: dat i)
  case (Suc steps)
  show ?case
  proof (cases "i < 256")
    case True
    have one: "nand_correct_data (flip_at i b dat) (nand_calculate_ecc dat) (nand_calculate_ecc (flip_at i b dat)) = (dat, 1)"
      using Suc.prems True by (intro nand_correct_flip) simp_all
    have drop: "drop 256 (flip_at i b dat) = drop 256 dat" using True by (simp add: flip_at_def)
    have zero: "count_fixes steps (drop 256 dat) (calc_steps steps (drop 256 dat)) = 0"
      using Suc.prems by (intro count_fixes_perfect) simp
    have "snd (snd (correct_steps steps (drop 256 dat) (calc_steps steps (drop 256 dat)) (calc_steps steps (drop 256 dat)) 0 1)) = 1"
      using zero by (subst correct_steps_shift) (simp add: count_fixes_def case_prod_beta)
    then show ?thesis
      unfolding count_fixes_def correct_steps.simps calc_steps_Suc prod.collapse one prod.case drop
      by (simp add: case_prod_beta)
  next
    case False
    have take: "take 256 (flip_at i b dat) = take 256 dat" using False by (simp add: flip_at_def)
    have drop: "drop 256 (flip_at i b dat) = flip_at (i - 256) b (drop 256 dat)"
      using False Suc.prems(2) by (simp add: flip_at_def drop_update_swap)
    have "nand_calculate_ecc (take 256 d @ drop 256 d) = nand_calculate_ecc (take 256 d)" if "256 \<le> length d" for d
      using that by (intro nand_calculate_ecc_append) simp
    then have calc: "nand_calculate_ecc (flip_at i b dat) = nand_calculate_ecc dat"
      using Suc.prems(1) take by (metis append_take_drop_id flip_at_def le_add1 length_list_update mult_Suc_right)
    have rec: "count_fixes steps (flip_at (i - 256) b (drop 256 dat)) (calc_steps steps (drop 256 dat)) = 1"
      using Suc.prems False by (intro Suc.IH) simp_all
    then show ?thesis
      unfolding count_fixes_def correct_steps.simps calc_steps_Suc prod.collapse calc
      by (simp add: nand_correct_intact_data drop case_prod_beta)
  qed
qed simp

text \<open>The codes in the spare area.\<close>

lemma length_store_ecc [simp]: "length (store_ecc ps cs oob) = length oob"
  by (induction ps cs oob rule: store_ecc.induct) simp_all

lemma store_ecc_other: "i \<notin> set ps \<Longrightarrow> store_ecc ps cs oob ! i = oob ! i"
  by (induction ps cs oob rule: store_ecc.induct) auto

lemma store_ecc_nth:
  "distinct ps \<Longrightarrow> length ps = length cs \<Longrightarrow> \<forall>p \<in> set ps. p < length oob \<Longrightarrow> i < length ps \<Longrightarrow>
     store_ecc ps cs oob ! (ps ! i) = cs ! i"
proof (induction ps cs oob arbitrary: i rule: store_ecc.induct)
  case (1 pos poss c cs oob)
  then show ?case
    by (cases i) (simp_all add: store_ecc_other)
qed auto

lemma store_ecc_get:
  assumes "distinct ps" "length ps = length cs" "\<forall>p \<in> set ps. p < length oob"
  shows "map (\<lambda>i. store_ecc ps cs oob ! (ps ! i)) [0..<length cs] = cs"
  using assms by (intro nth_equalityI) (simp_all add: store_ecc_nth)

text \<open>A spare area in which only code bytes have been put.\<close>

definition spare_blank :: "nat list \<Rightarrow> u8 list \<Rightarrow> bool" where
  "spare_blank ps oob \<longleftrightarrow> (\<forall>i < length oob. i \<notin> set ps \<longrightarrow> oob ! i = 0xff)"

lemma store_ecc_blank:
  assumes "spare_blank ps oob" "distinct ps" "length ps = length cs" "\<forall>p \<in> set ps. p < length oob"
  shows "store_ecc ps cs oob = store_ecc ps cs (replicate (length oob) 0xff)"
proof (rule nth_equalityI)
  fix i assume i: "i < length (store_ecc ps cs oob)"
  show "store_ecc ps cs oob ! i = store_ecc ps cs (replicate (length oob) 0xff) ! i"
  proof (cases "i \<in> set ps")
    case True
    then obtain k where "i = ps ! k" "k < length ps" by (metis in_set_conv_nth)
    then show ?thesis using assms by (simp add: store_ecc_nth)
  next
    case False
    then show ?thesis using assms(1) i by (simp add: store_ecc_other spare_blank_def)
  qed
qed simp

lemma spare_blank_store: "spare_blank ps oob \<Longrightarrow> spare_blank ps (store_ecc ps cs oob)"
  by (simp add: spare_blank_def store_ecc_other)

section \<open>The device\<close>

text \<open>The devices \<open>nand_scan_tail\<close> knows a layout for, with buffers of the sizes it gives them.\<close>

definition nand_ok :: "'c nand \<Rightarrow> bool" where
  "nand_ok n \<longleftrightarrow>
     (page_shift n, oobsize n, layout n) \<in>
       {(8, 8, nand_oob_8), (9, 16, nand_oob_16), (11, 64, nand_oob_64), (12, 128, nand_oob_128)} \<and>
     page_shift n \<le> erase_shift n \<and> erase_shift n + 2 \<le> chip_shift n \<and> subpage_sft n \<le> 2 \<and>
     oobsize n \<le> length (oob_poi n) \<and> writesize n \<le> length (databuf n)"

lemma nand_ok_layout:
  assumes "nand_ok n"
  shows "length (eccpos (layout n)) = 3 * ecc_steps n" "distinct (eccpos (layout n))"
    "\<forall>p \<in> set (eccpos (layout n)). p < oobsize n" "writesize n = 256 * ecc_steps n" "0 < ecc_steps n"
  using assms
  by (auto simp: nand_ok_def ecc_steps_def writesize_def nand_oob_8_def nand_oob_16_def nand_oob_64_def
      nand_oob_128_def)

text \<open>What is programmed into a page that holds the data.\<close>

definition page_image :: "'c nand \<Rightarrow> u8 list \<Rightarrow> u8 list" where
  "page_image n dat =
     dat @ store_ecc (eccpos (layout n)) (calc_steps (ecc_steps n) dat) (replicate (oobsize n) 0xff)"

text \<open>What a worn page may read as: in every step at most one bit is wrong.\<close>

definition worn :: "'c nand \<Rightarrow> u8 list \<Rightarrow> u8 list \<Rightarrow> bool" where
  "worn n dat cells \<longleftrightarrow>
     length cells = writesize n + oobsize n \<and>
     worn_steps (ecc_steps n) dat (take (writesize n) cells)
       (map (\<lambda>i. cells ! (writesize n + eccpos (layout n) ! i)) [0..<3 * ecc_steps n])"

text \<open>A read of whole pages changes no more than the statistics of the corrected bits.\<close>

definition kept :: "'c nand \<Rightarrow> 'c nand \<Rightarrow> bool" where
  "kept n n' \<longleftrightarrow> steady n n' \<and> chip n' = chip n \<and> pagebuf n' = pagebuf n \<and> ecc_failed n' = ecc_failed n \<and>
     ops_mode n' = ops_mode n \<and> (nand_ok n \<longrightarrow> nand_ok n')"

lemma kept_refl [simp]: "kept n n"
  by (simp add: kept_def)

lemma kept_trans: "kept n n' \<Longrightarrow> kept n' n'' \<Longrightarrow> kept n n''"
  by (auto simp: kept_def intro: steady_trans)

lemma kept_device: "kept n n' \<Longrightarrow> device n' = device n"
  by (simp add: kept_def steady_def)

text \<open>A page from which the data can be had.\<close>

definition stored :: "'c nand \<Rightarrow> nat \<Rightarrow> u8 list \<Rightarrow> bool" where
  "stored n page dat \<longleftrightarrow> length dat = writesize n \<and> worn n dat (io_read (io n) (chip n) page)"

text \<open>The bits that reading a page corrects.\<close>

definition cell_fixes :: "'c nand \<Rightarrow> u8 list \<Rightarrow> u32" where
  "cell_fixes n cells = count_fixes (ecc_steps n) (take (writesize n) cells)
     (map (\<lambda>i. cells ! (writesize n + eccpos (layout n) ! i)) [0..<3 * ecc_steps n])"

definition page_fixes :: "'c nand \<Rightarrow> nat \<Rightarrow> u32" where
  "page_fixes n page = cell_fixes n (io_read (io n) (chip n) page)"

lemma same_device:
  assumes "device n' = device n"
  shows "page_image n' = page_image n" "worn n' = worn n"
    "chip n' = chip n \<Longrightarrow> stored n' = stored n" "cell_fixes n' = cell_fixes n"
    "chip n' = chip n \<Longrightarrow> page_fixes n' = page_fixes n"
  using device_sizes [OF assms]
  by (simp_all add: fun_eq_iff page_image_def worn_def stored_def cell_fixes_def page_fixes_def)

lemma read_page_stored:
  assumes "nand_ok n" and "stored n page dat"
  obtains n' where "nand_read_page_swecc n page = (dat, n')" "kept n n'"
    "ecc_corrected n' = ecc_corrected n + page_fixes n page"
proof -
  note lay = nand_ok_layout [OF assms(1)]
  define cells where "cells = io_read (io n) (chip n) page"
  have cells: "length cells = writesize n + oobsize n" "length dat = writesize n"
    and steps: "worn_steps (ecc_steps n) dat (take (writesize n) cells)
       (map (\<lambda>i. cells ! (writesize n + eccpos (layout n) ! i)) [0..<3 * ecc_steps n])"
    using assms(2) by (simp_all add: stored_def worn_def cells_def)
  let ?oob = "overwrite (oob_poi n) 0 (take (oobsize n) (drop (writesize n) cells))"
  have "?oob ! (eccpos (layout n) ! i) = cells ! (writesize n + eccpos (layout n) ! i)" if "i < 3 * ecc_steps n" for i
  proof -
    have "eccpos (layout n) ! i < oobsize n" using lay(1,3) that by simp
    then show ?thesis using cells by (simp add: overwrite_def nth_append)
  qed
  then have code: "map (\<lambda>i. ?oob ! (eccpos (layout n) ! i)) [0..<3 * ecc_steps n] =
      map (\<lambda>i. cells ! (writesize n + eccpos (layout n) ! i)) [0..<3 * ecc_steps n]"
    by simp
  obtain corrected' where corr: "correct_steps (ecc_steps n) (take (writesize n) cells)
      (map (\<lambda>i. ?oob ! (eccpos (layout n) ! i)) [0..<3 * ecc_steps n]) (calc_steps (ecc_steps n) (take (writesize n) cells))
      (ecc_failed n) (ecc_corrected n) = (dat, ecc_failed n, corrected')"
    unfolding code using correct_steps_restores [OF steps] cells lay(4) by force
  have "corrected' = ecc_corrected n + page_fixes n page"
    using arg_cong [OF corr, of "\<lambda>x. snd (snd x)"] unfolding code
    by (subst (asm) correct_steps_shift)
      (simp add: page_fixes_def cell_fixes_def count_fixes_def cells_def case_prod_beta)
  let ?n = "n\<lparr>oob_poi := ?oob, ecc_failed := ecc_failed n, ecc_corrected := corrected'\<rparr>"
  have "nand_read_page_swecc n page = (dat, ?n)"
    using corr by (simp add: nand_read_page_swecc_def nand_read_page_raw_def Let_def cells_def ecc_steps_def writesize_def)
  moreover have "kept n ?n"
    using assms(1) cells
    by (simp add: kept_def steady_def device_def nand_ok_def length_overwrite writesize_def)
  ultimately show thesis
    by (rule that) (simp add: \<open>corrected' = ecc_corrected n + page_fixes n page\<close>)
qed

lemma read_loop_stored:
  assumes "nand_ok n" "dats \<noteq> []" "\<forall>i < length dats. stored n (chip_page n (p + i)) (dats ! i)"
    and "\<forall>i < length dats. pagebuf n \<noteq> Some (p + i)"
  shows "\<exists>n'. read_loop n p 0 (length dats * writesize n) = (concat dats, n') \<and> kept n n' \<and>
    ecc_corrected n' = ecc_corrected n + (\<Sum>i<length dats. page_fixes n (chip_page n (p + i)))"
  using assms
proof (induction dats arbitrary: n p)
  case (Cons dat dats)
  have "stored n (chip_page n p) dat" "pagebuf n \<noteq> Some p"
    using Cons.prems(3,4) by (auto dest: spec [of _ 0])
  from read_page_stored [OF Cons.prems(1) this(1)]
  obtain m where page: "nand_read_page_swecc n (chip_page n p) = (dat, m)" and kept: "kept n m"
    and cnt: "ecc_corrected m = ecc_corrected n + page_fixes n (chip_page n p)" .
  have dev: "device m = device n" by (rule kept_device [OF kept])
  have one: "read_one n p 0 (writesize n) = (dat, m)"
    using page \<open>pagebuf n \<noteq> Some p\<close> by (simp add: read_one_def Let_def eq_commute)
  have pos: "0 < writesize n" by (simp add: writesize_def)
  have len: "min (writesize n - 0) (length (dat # dats) * writesize n) = writesize n" by simp
  have left: "length (dat # dats) * writesize n - writesize n = length dats * writesize n" by simp
  show ?case
  proof (cases "dats = []")
    case True
    then show ?thesis
      using kept cnt by (subst read_loop.simps) (simp add: one Let_def)
  next
    case False
    have "\<forall>i < length dats. stored m (chip_page m (p + 1 + i)) (dats ! i)"
    proof (intro allI impI)
      fix i assume "i < length dats"
      then show "stored m (chip_page m (p + 1 + i)) (dats ! i)"
        using Cons.prems(3) [rule_format, of "Suc i"] same_device(3) [OF dev] kept device_sizes(17) [OF dev]
        by (simp add: kept_def)
    qed
    moreover have "\<forall>i < length dats. pagebuf m \<noteq> Some (p + 1 + i)"
    proof (intro allI impI)
      fix i assume "i < length dats"
      then show "pagebuf m \<noteq> Some (p + 1 + i)"
        using Cons.prems(4) [rule_format, of "Suc i"] kept by (simp add: kept_def)
    qed
    moreover have "nand_ok m" using kept Cons.prems(1) by (simp add: kept_def)
    ultimately obtain n' where rest: "read_loop m (p + 1) 0 (length dats * writesize m) = (concat dats, n')" "kept m n'"
      "ecc_corrected n' = ecc_corrected m + (\<Sum>i<length dats. page_fixes m (chip_page m (p + 1 + i)))"
      using Cons.IH [of m "p + 1"] False by auto
    have "writesize m = writesize n" by (rule device_sizes(10) [OF dev])
    then have "read_loop n p 0 (length (dat # dats) * writesize n) = (dat @ concat dats, n')"
      using rest(1) False pos by (subst read_loop.simps) (simp only: len left one Let_def prod.case, simp)
    moreover have "ecc_corrected n' = ecc_corrected n + (\<Sum>i<length (dat # dats). page_fixes n (chip_page n (p + i)))"
      using rest(3) same_device(5) [OF dev] device_sizes(17) [OF dev] kept
      by (simp add: cnt kept_def sum.lessThan_Suc_shift del: sum.lessThan_Suc)
    ultimately show ?thesis
      using kept_trans [OF kept rest(2)] by auto
  qed
qed simp

lemma nand_read_stored:
  assumes "nand_ok n" "dats \<noteq> []" "\<forall>i < length dats. stored n (chip_page n (p + i)) (dats ! i)"
    and "\<forall>i < length dats. pagebuf n \<noteq> Some (p + i)" "(p + length dats) * writesize n \<le> msize n"
  obtains ret n' where "nand_read n (p * writesize n) (length dats * writesize n) =
      (ret, length dats * writesize n, concat dats, n')" "ret \<in> {0, - EUCLEAN}" "kept n n'"
    "ret = 0 \<longleftrightarrow> (\<Sum>i<length dats. page_fixes n (chip_page n (p + i))) = 0"
proof -
  obtain n' where loop: "read_loop n p 0 (length dats * writesize n) = (concat dats, n')" "kept n n'"
    "ecc_corrected n' = ecc_corrected n + (\<Sum>i<length dats. page_fixes n (chip_page n (p + i)))"
    using read_loop_stored [OF assms(1-4)] by blast
  then have "ecc_failed n' - ecc_failed n = 0"
    by (simp add: kept_def)
  moreover have "0 < writesize n" by (simp add: writesize_def)
  ultimately show thesis
    using that loop assms(2,5) by (simp add: nand_read_def nand_do_read_ops_def add_mult_distrib EUCLEAN_def)
qed

lemma page_fixes_image:
  assumes "nand_ok n" "length dat = writesize n"
  shows "cell_fixes n (page_image n dat) = 0" "worn n dat (page_image n dat)"
    "i < writesize n \<Longrightarrow> b < 8 \<Longrightarrow> cell_fixes n (flip_at i b (page_image n dat)) = 1"
    "i < writesize n \<Longrightarrow> b < 8 \<Longrightarrow> worn n dat (flip_at i b (page_image n dat))"
proof -
  note lay = nand_ok_layout [OF assms(1)]
  let ?code = "calc_steps (ecc_steps n) dat"
  have pos: "eccpos (layout n) ! i < oobsize n" if "i < 3 * ecc_steps n" for i
    using lay(1,3) that by simp
  have code: "map (\<lambda>i. page_image n dat ! (writesize n + eccpos (layout n) ! i)) [0..<3 * ecc_steps n] = ?code"
    using lay(1-3) assms(2) store_ecc_get [of "eccpos (layout n)" ?code "replicate (oobsize n) 0xff"]
    by (simp add: page_image_def nth_append)
  have flip: "flip_at i b (page_image n dat) = flip_at i b dat @ drop (writesize n) (page_image n dat)"
    if "i < writesize n" for i b
    using that assms(2) by (simp add: page_image_def flip_at_append)
  have taken: "take (writesize n) (flip_at i b (page_image n dat)) = flip_at i b dat" if "i < writesize n" for i b
    using flip [OF that] assms(2) by (simp add: flip_at_def)
  have codef: "map (\<lambda>j. flip_at i b (page_image n dat) ! (writesize n + eccpos (layout n) ! j)) [0..<3 * ecc_steps n] = ?code"
    if "i < writesize n" for i b
    using code that by (simp add: flip_at_def nth_list_update)
  have len: "length dat = 256 * ecc_steps n" using assms(2) lay(4) by simp
  show "cell_fixes n (page_image n dat) = 0"
    unfolding cell_fixes_def code using assms(2) len count_fixes_perfect by (simp add: page_image_def)
  show "cell_fixes n (flip_at i b (page_image n dat)) = 1" if "i < writesize n" "b < 8"
    unfolding cell_fixes_def codef [OF that(1)] taken [OF that(1)]
    using assms(2) len count_fixes_flip that by simp
  have perfect: "worn_steps steps dat dat (calc_steps steps dat)" if "length dat = 256 * steps" for steps dat
    using that
  proof (induction steps arbitrary: dat)
    case (Suc steps)
    then have "nand_calculate_ecc (take 256 dat) = nand_calculate_ecc dat"
      using nand_calculate_ecc_append [of "take 256 dat" "drop 256 dat"] by simp
    then show ?case
      using Suc by (simp add: calc_steps_Suc one_flip_def del: calc_steps.simps)
  qed simp
  show "worn n dat (page_image n dat)"
    unfolding worn_def code using assms(2) len perfect by (simp add: page_image_def)
  have flipped: "worn_steps steps dat (flip_at i b dat) (calc_steps steps dat)"
    if "length dat = 256 * steps" "i < length dat" "b < 8" for steps dat i b
    using that
  proof (induction steps arbitrary: dat i)
    case (Suc steps)
    have calc: "nand_calculate_ecc (take 256 dat) = nand_calculate_ecc dat"
      using Suc.prems(1) nand_calculate_ecc_append [of "take 256 dat" "drop 256 dat"] by simp
    show ?case
    proof (cases "i < 256")
      case True
      then have "take 256 (flip_at i b dat) = flip_at i b (take 256 dat)" "drop 256 (flip_at i b dat) = drop 256 dat"
        using Suc.prems(1) by (simp_all add: flip_at_def take_update_swap)
      then show ?thesis
        using Suc.prems True perfect [of "drop 256 dat" steps] calc
        by (auto simp: calc_steps_Suc one_flip_def simp del: calc_steps.simps)
    next
      case False
      then have "take 256 (flip_at i b dat) = take 256 dat" "drop 256 (flip_at i b dat) = flip_at (i - 256) b (drop 256 dat)"
        using Suc.prems(2) by (simp_all add: flip_at_def drop_update_swap)
      then show ?thesis
        using Suc.prems False Suc.IH [of "drop 256 dat" "i - 256"] calc
        by (auto simp: calc_steps_Suc one_flip_def simp del: calc_steps.simps)
    qed
  qed simp
  show "worn n dat (flip_at i b (page_image n dat))" if "i < writesize n" "b < 8"
    unfolding worn_def codef [OF that(1)] taken [OF that(1)] using assms(2) len flipped [OF len] that
    by (simp add: flip_at_def page_image_def)
qed


section \<open>Writing pages\<close>

lemma calc_steps_take: "256 * steps \<le> length p \<Longrightarrow> calc_steps steps (take (256 * steps) p) = calc_steps steps p"
proof (induction steps arbitrary: p)
  case (Suc steps)
  have split: "p = take 256 p @ drop 256 p" by simp
  have "nand_calculate_ecc (take (256 * Suc steps) p) = nand_calculate_ecc (take 256 p)"
    using Suc.prems nand_calculate_ecc_append [of "take 256 p" "take (256 * steps) (drop 256 p)"]
    by (simp add: take_add [symmetric])
  moreover have "nand_calculate_ecc p = nand_calculate_ecc (take 256 p)"
    using Suc.prems nand_calculate_ecc_append [of "take 256 p" "drop 256 p"] by simp
  moreover have "drop 256 (take (256 * Suc steps) p) = take (256 * steps) (drop 256 p)"
    by (simp add: drop_take)
  ultimately show ?case
    using Suc.IH [of "drop 256 p"] Suc.prems by simp
qed simp

lemma store_ecc_take: "\<forall>p \<in> set ps. p < k \<Longrightarrow> take k (store_ecc ps cs oob) = store_ecc ps cs (take k oob)"
  by (induction ps cs oob rule: store_ecc.induct) (simp_all add: take_update_swap)

text \<open>Programming pages until one fails.\<close>

fun program_all :: "'c nand_io \<Rightarrow> 'c \<Rightarrow> (nat \<times> u8 list) list \<Rightarrow> 'c \<times> bool" where
  "program_all h c [] = (c, True)"
| "program_all h c ((page, bytes) # ps) =
     (case io_program h c page 0 bytes of (c, fail) \<Rightarrow> if fail then (c, False) else program_all h c ps)"

lemma program_all_append:
  "program_all h c (xs @ ys) = (case program_all h c xs of (c, ok) \<Rightarrow> if ok then program_all h c ys else (c, False))"
  by (induction h c xs rule: program_all.induct) (auto split: prod.split)

text \<open>The spare buffer holds nothing but codes.\<close>

definition spare_clean :: "'c nand \<Rightarrow> bool" where
  "spare_clean n \<longleftrightarrow> spare_blank (eccpos (layout n)) (take (oobsize n) (oob_poi n))"

text \<open>What a write changes: the chip and the buffers.\<close>

definition written :: "'c nand \<Rightarrow> 'c nand \<Rightarrow> bool" where
  "written n n' \<longleftrightarrow> steady n n' \<and> nand_ok n' \<and> ecc_failed n' = ecc_failed n \<and> ecc_corrected n' = ecc_corrected n"

lemma written_trans: "written n n' \<Longrightarrow> written n' n'' \<Longrightarrow> written n n''"
  by (auto simp: written_def intro: steady_trans)

lemma written_device: "written n n' \<Longrightarrow> device n' = device n"
  by (simp add: written_def steady_def)

lemma written_mode: "written n n' \<Longrightarrow> written n (n'\<lparr>ops_mode := b\<rparr>)"
proof -
  assume "written n n'"
  moreover have "nand_ok (n'\<lparr>ops_mode := b\<rparr>) = nand_ok n'"
    by (simp add: nand_ok_def writesize_def)
  ultimately show ?thesis
    using steady_trans [OF _ steady_updates(7)] by (auto simp: written_def)
qed

lemma nand_write_page_image:
  assumes "nand_ok n" "spare_clean n" "writesize n \<le> length buf"
  obtains n' where "nand_write_page n buf page False =
      (if snd (io_program (io n) (chip n) page 0 (page_image n (take (writesize n) buf))) then - EIO else 0, n')"
    "chip n' = fst (io_program (io n) (chip n) page 0 (page_image n (take (writesize n) buf)))"
    "written n n'" "spare_clean n'" "pagebuf n' = pagebuf n" "ops_mode n' = ops_mode n"
proof -
  note lay = nand_ok_layout [OF assms(1)]
  have oob: "oobsize n \<le> length (oob_poi n)" using assms(1) by (simp add: nand_ok_def)
  let ?cs = "calc_steps (ecc_steps n) buf" and ?ps = "eccpos (layout n)"
  let ?oob = "store_ecc ?ps ?cs (oob_poi n)"
  have cs: "?cs = calc_steps (ecc_steps n) (take (writesize n) buf)"
    using assms(3) lay(4) calc_steps_take [of "ecc_steps n" buf] by simp
  have len: "length (take (oobsize n) (oob_poi n)) = oobsize n" using oob by simp
  have spare: "take (oobsize n) ?oob = store_ecc ?ps ?cs (replicate (oobsize n) 0xff)"
    unfolding store_ecc_take [OF lay(3)]
    using store_ecc_blank [of ?ps "take (oobsize n) (oob_poi n)" ?cs, unfolded len] assms(2) lay(1-3)
    by (simp add: spare_clean_def)
  let ?n = "n\<lparr>oob_poi := ?oob, chip := fst (io_program (io n) (chip n) page 0 (page_image n (take (writesize n) buf)))\<rparr>"
  show thesis
  proof (rule that [of ?n])
    show "nand_write_page n buf page False =
      (if snd (io_program (io n) (chip n) page 0 (page_image n (take (writesize n) buf))) then - EIO else 0, ?n)"
      using spare cs
      by (simp add: nand_write_page_def nand_write_page_swecc_def nand_write_page_raw_def page_image_def Let_def
          writesize_def ecc_steps_def split: prod.split)
    show "written n ?n"
      using assms(1) by (simp add: written_def steady_def device_def nand_ok_def writesize_def)
    have "take (oobsize n) ?oob = store_ecc ?ps ?cs (take (oobsize n) (oob_poi n))"
      by (rule store_ecc_take [OF lay(3)])
    then show "spare_clean ?n"
      using assms(2) by (simp add: spare_clean_def spare_blank_store)
  qed simp_all
qed

text \<open>The pages of a buffer.\<close>

definition pages_of :: "'c nand \<Rightarrow> nat \<Rightarrow> u8 list \<Rightarrow> u8 list list" where
  "pages_of n k buf = map (\<lambda>i. take (writesize n) (drop (i * writesize n) buf)) [0..<k]"

lemma length_pages_of [simp]: "length (pages_of n k buf) = k"
  by (simp add: pages_of_def)

lemma pages_of_Suc: "pages_of n (Suc k) buf = take (writesize n) buf # pages_of n k (drop (writesize n) buf)"
  by (simp add: pages_of_def upt_rec [of 0] map_Suc_upt [symmetric] add.commute del: upt_Suc)

lemma pages_of_add: "pages_of n (j + k) buf = pages_of n j buf @ pages_of n k (drop (j * writesize n) buf)"
  by (induction j arbitrary: buf) (simp_all add: pages_of_Suc pages_of_def [of _ 0] add.commute)

lemma concat_pages_of: "k * writesize n \<le> length buf \<Longrightarrow> concat (pages_of n k buf) = take (k * writesize n) buf"
  by (induction k arbitrary: buf) (simp_all add: pages_of_Suc pages_of_def [of _ 0] take_add)

lemma pages_of_device: "device n' = device n \<Longrightarrow> pages_of n' = pages_of n"
  using device_sizes(10) [of n' n] by (simp add: fun_eq_iff pages_of_def)

lemma write_loop_pages:
  assumes "nand_ok n" "spare_clean n" "ops_mode n \<noteq> MTD_OOB_RAW" "Suc k * writesize n \<le> length buf"
    and "program_all (io n) (chip n)
      (map2 (\<lambda>i dat. (chip_page n i, page_image n dat)) [p..<p + Suc k] (pages_of n (Suc k) buf)) = (c, ok)"
  shows "\<exists>ret left n'. write_loop n p 0 buf None (Suc k * writesize n) = (ret, left, n') \<and> (ret = 0 \<longleftrightarrow> ok) \<and>
    chip n' = c \<and> written n n' \<and> pagebuf n' = pagebuf n"
  using assms
proof (induction k arbitrary: n p buf)
  case (0 n p buf)
  obtain n' where page: "nand_write_page n buf (chip_page n p) False =
      (if snd (io_program (io n) (chip n) (chip_page n p) 0 (page_image n (take (writesize n) buf))) then - EIO else 0, n')"
    and n': "chip n' = fst (io_program (io n) (chip n) (chip_page n p) 0 (page_image n (take (writesize n) buf)))"
      "written n n'" "pagebuf n' = pagebuf n"
    using nand_write_page_image [OF "0.prems"(1,2), of buf "chip_page n p"] "0.prems"(4) by auto
  have "c = chip n'" "ok = (\<not> snd (io_program (io n) (chip n) (chip_page n p) 0 (page_image n (take (writesize n) buf))))"
    using "0.prems"(5) n'(1) by (auto simp: pages_of_Suc split: prod.splits if_splits)
  then show ?case
    using page n' "0.prems"(3)
    by (subst write_loop.simps) (auto simp: Let_def EIO_def)
next
  case (Suc k n p buf)
  let ?dat = "take (writesize n) buf"
  obtain m where page: "nand_write_page n buf (chip_page n p) False =
      (if snd (io_program (io n) (chip n) (chip_page n p) 0 (page_image n ?dat)) then - EIO else 0, m)"
    and m: "chip m = fst (io_program (io n) (chip n) (chip_page n p) 0 (page_image n ?dat))"
      "written n m" "spare_clean m" "pagebuf m = pagebuf n" "ops_mode m = ops_mode n"
    using nand_write_page_image [OF Suc.prems(1,2), of buf "chip_page n p"] Suc.prems(4) by auto
  have pos: "0 < writesize n" by (simp add: writesize_def)
  have body: "write_loop n p 0 buf None (Suc (Suc k) * writesize n) =
      (if snd (io_program (io n) (chip n) (chip_page n p) 0 (page_image n ?dat)) then (- EIO, Suc (Suc k) * writesize n, m)
       else write_loop m (p + 1) 0 (drop (writesize n) buf) None (Suc k * writesize n))"
    using page Suc.prems(3) pos by (subst write_loop.simps) (simp add: Let_def EIO_def)
  note dev = written_device [OF m(2)]
  have list: "map2 (\<lambda>i dat. (chip_page n i, page_image n dat)) [p..<p + Suc (Suc k)] (pages_of n (Suc (Suc k)) buf) =
      (chip_page n p, page_image n ?dat) #
      map2 (\<lambda>i dat. (chip_page n i, page_image n dat)) [p + 1..<p + 1 + Suc k] (pages_of n (Suc k) (drop (writesize n) buf))"
    by (subst upt_conv_Cons, simp, subst pages_of_Suc) simp
  show ?case
  proof (cases "snd (io_program (io n) (chip n) (chip_page n p) 0 (page_image n ?dat))")
    case True
    then have "c = chip m" "\<not> ok"
      using Suc.prems(5) m(1) unfolding list by (auto split: prod.splits)
    then show ?thesis
      using body True m by (auto simp: EIO_def)
  next
    case False
    have "program_all (io m) (chip m)
        (map2 (\<lambda>i dat. (chip_page m i, page_image m dat)) [p + 1..<p + 1 + Suc k] (pages_of m (Suc k) (drop (writesize n) buf))) = (c, ok)"
      using Suc.prems(5) m(1) False unfolding list device_sizes(1,17) [OF dev] same_device(1) [OF dev] pages_of_device [OF dev]
      by (auto split: prod.splits)
    moreover have "nand_ok m" using m(2) by (simp add: written_def)
    moreover have ws: "writesize m = writesize n" by (rule device_sizes(10) [OF dev])
    moreover have "Suc k * writesize m \<le> length (drop (writesize n) buf)"
    proof -
      have "writesize n + Suc k * writesize n \<le> length buf" using Suc.prems(4) by simp
      then show ?thesis by (simp only: ws length_drop)
    qed
    ultimately obtain ret left n' where "write_loop m (p + 1) 0 (drop (writesize n) buf) None (Suc k * writesize n) = (ret, left, n')"
      "ret = 0 \<longleftrightarrow> ok" "chip n' = c" "written m n'" "pagebuf n' = pagebuf m"
      using Suc.IH [of m "drop (writesize n) buf" "p + 1"] m(3,5) Suc.prems(3) by (auto simp del: upt_Suc mult_Suc)
    then show ?thesis
      using body False written_trans [OF m(2)] m(4) by auto
  qed
qed


text \<open>A write of whole pages through the interface.\<close>

lemma nand_write_pages:
  assumes "nand_ok n" "\<not> rw_oob n" "\<not> io_protected (io n) (chip n)" "ops_mode n \<noteq> MTD_OOB_RAW"
    and "0 < k" "k * writesize n \<le> length buf" "(p + k) * writesize n \<le> msize n"
    and "program_all (io n) (chip n)
      (map2 (\<lambda>i dat. (chip_page n i, page_image n dat)) [p..<p + k] (pages_of n k buf)) = (c, ok)"
  obtains ret retlen n' where "nand_write n (p * writesize n) (k * writesize n) buf = (ret, retlen, buf, n')"
    "ret = 0 \<longleftrightarrow> ok" "chip n' = c" "written n n'" "\<forall>i<k. pagebuf n' \<noteq> Some (p + i)" "pagebuf n' \<in> {pagebuf n, None}"
    "ops_mode n' = MTD_OOB_PLACE"
proof -
  have pos: "0 < writesize n" by (simp add: writesize_def)
  have "subpagesize n dvd writesize n"
  proof -
    have "subpage_sft n \<le> page_shift n" using assms(1) by (auto simp: nand_ok_def)
    then have "writesize n = subpagesize n * 2 ^ subpage_sft n"
      by (simp add: subpagesize_def writesize_def le_imp_power_dvd)
    then show ?thesis by simp
  qed
  then have aligned: "p * writesize n mod subpagesize n = 0" "k * writesize n mod subpagesize n = 0"
    by (simp_all add: dvd_imp_mod_0)
  obtain k' where k: "k = Suc k'" using assms(5) by (cases k) auto
  define n1 where "n1 = (case pagebuf n of
      Some q \<Rightarrow> if p * writesize n \<le> q * writesize n \<and> q * writesize n < p * writesize n + k * writesize n
        then n\<lparr>pagebuf := None\<rparr> else n
    | None \<Rightarrow> n)"
  have buf1: "pagebuf n1 \<noteq> Some (p + i)" if "i < k" for i
    using that pos by (auto simp: n1_def add_mult_distrib [symmetric] split: option.splits)
  have same1: "device n1 = device n" "nand_ok n1" "chip n1 = chip n" "ops_mode n1 = ops_mode n" "written n n1"
    using assms(1) by (auto simp: n1_def device_def nand_ok_def written_def steady_def writesize_def split: option.splits)
  have len: "length (replicate (oobsize n1) (0xff :: u8)) = oobsize n1" by simp
  have oob: "oobsize n1 \<le> length (oob_poi n1)" using same1(2) by (simp add: nand_ok_def)
  have take: "take (oobsize n1) (overwrite (oob_poi n1) 0 (replicate (oobsize n1) 0xff)) = replicate (oobsize n1) 0xff"
    using take_overwrite_0 [of "replicate (oobsize n1) 0xff"] by simp
  then have clean: "spare_clean (fill_ff n1)"
    by (simp add: spare_clean_def fill_ff_def spare_blank_def)
  have same2: "device (fill_ff n1) = device n" "nand_ok (fill_ff n1)" "written n (fill_ff n1)"
    "chip (fill_ff n1) = chip n" "ops_mode (fill_ff n1) = ops_mode n" "pagebuf (fill_ff n1) = pagebuf n1"
    using same1 oob by (simp_all add: fill_ff_def device_def nand_ok_def written_def steady_def length_overwrite writesize_def)
  note sz = device_sizes [OF same2(1)]
  have prog: "program_all (io (fill_ff n1)) (chip (fill_ff n1))
      (map2 (\<lambda>i dat. (chip_page (fill_ff n1) i, page_image (fill_ff n1) dat)) [p..<p + Suc k'] (pages_of (fill_ff n1) (Suc k') buf)) = (c, ok)"
    using assms(8) unfolding k sz(1,17) same2(4) same_device(1) [OF same2(1)] pages_of_device [OF same2(1)] .
  obtain ret left n' where loop: "write_loop (fill_ff n1) p 0 buf None (Suc k' * writesize n) = (ret, left, n')"
    "ret = 0 \<longleftrightarrow> ok" "chip n' = c" "written (fill_ff n1) n'" "pagebuf n' = pagebuf n1"
    using write_loop_pages [OF same2(2) clean _ _ prog] assms(4,6) same2(5,6) sz(10) k by auto
  show thesis
  proof (rule that)
    have "nand_do_write_ops n (p * writesize n) buf None (k * writesize n) = (ret, k * writesize n - left, n')"
      using loop(1) aligned assms(3,5) pos sz(10) unfolding k [symmetric] nand_do_write_ops_def Let_def n1_def [symmetric]
      by simp
    then show "nand_write n (p * writesize n) (k * writesize n) buf =
        (ret, k * writesize n - left, buf, n'\<lparr>ops_mode := MTD_OOB_PLACE\<rparr>)"
      using assms(2,5,7) pos by (simp add: nand_write_def Let_def add_mult_distrib)
    have "written n n'" by (rule written_trans [OF same2(3) loop(4)])
    then show "written n (n'\<lparr>ops_mode := MTD_OOB_PLACE\<rparr>)"
      by (rule written_mode)
    show "\<forall>i<k. pagebuf (n'\<lparr>ops_mode := MTD_OOB_PLACE\<rparr>) \<noteq> Some (p + i)"
      using buf1 loop(5) by simp
    show "pagebuf (n'\<lparr>ops_mode := MTD_OOB_PLACE\<rparr>) \<in> {pagebuf n, None}"
      using loop(5) by (simp add: n1_def split: option.splits)
  qed (use loop in simp_all)
qed


section \<open>Good and bad blocks\<close>

definition pages_per_block :: "'c nand \<Rightarrow> nat" where "pages_per_block n = 2 ^ (erase_shift n - page_shift n)"
definition pages :: "'c nand \<Rightarrow> nat" where "pages n = 2 ^ (chip_shift n - page_shift n)"
definition blocks :: "'c nand \<Rightarrow> nat" where "blocks n = 2 ^ (chip_shift n - erase_shift n)"

lemma nand_ok_sizes:
  assumes "nand_ok n"
  shows "erasesize n = pages_per_block n * writesize n" "msize n = pages n * writesize n"
    "msize n = blocks n * erasesize n" "pages n = blocks n * pages_per_block n" "0 < pages_per_block n"
    "0 < writesize n" "0 < erasesize n" "msize n div writesize n = pages n" "msize n div erasesize n = blocks n"
    "msize n div 2 ^ (erase_shift n + 2) = blocks n div 4" "4 dvd blocks n" "1 < erase_shift n"
proof -
  have le: "page_shift n \<le> erase_shift n" "erase_shift n \<le> chip_shift n" "page_shift n \<le> chip_shift n"
    "2 \<le> chip_shift n - erase_shift n" "8 \<le> page_shift n"
    using assms by (auto simp: nand_ok_def)
  show "erasesize n = pages_per_block n * writesize n" "msize n = pages n * writesize n"
    "msize n = blocks n * erasesize n" "pages n = blocks n * pages_per_block n"
    using le by (simp_all add: erasesize_def pages_per_block_def writesize_def msize_def pages_def blocks_def
        flip: power_add)
  moreover have "0 < writesize n" "0 < erasesize n"
    by (simp_all add: writesize_def erasesize_def)
  ultimately show "msize n div writesize n = pages n" "msize n div erasesize n = blocks n"
    by (metis nonzero_mult_div_cancel_right less_not_refl2)+
  have "(2 :: nat) ^ 2 dvd 2 ^ (chip_shift n - erase_shift n)"
    by (rule le_imp_power_dvd [OF le(4)])
  then show "4 dvd blocks n"
    by (simp add: blocks_def)
  have "msize n div 2 ^ (erase_shift n + 2) = msize n div erasesize n div 4"
    by (simp only: power_add erasesize_def div_mult2_eq) simp
  then show "msize n div 2 ^ (erase_shift n + 2) = blocks n div 4"
    using \<open>msize n div erasesize n = blocks n\<close> by simp
qed (use assms in \<open>auto simp: pages_per_block_def writesize_def erasesize_def nand_ok_def\<close>)

text \<open>The table in memory, and what it says of a block.\<close>

definition table_ok :: "'c nand \<Rightarrow> u8 list \<Rightarrow> bool" where
  "table_ok n t \<longleftrightarrow> bbt_scanned n \<and> bbt n = Some t \<and> length t = blocks n div 4"

definition bad_block :: "u8 list \<Rightarrow> nat \<Rightarrow> bool" where
  "bad_block t b \<longleftrightarrow> drop_bit (2 * b AND 6) (t ! (2 * b div 8)) AND 3 \<noteq> 0"

lemma isbad_table:
  assumes "nand_ok n" "table_ok n t"
  shows "b < blocks n \<Longrightarrow> \<exists>r \<ge> 0. nand_block_isbad n (b * erasesize n) = Some (r, n) \<and> (r \<noteq> 0 \<longleftrightarrow> bad_block t b)"
    and "nand_block_isbad n (msize n) = None"
    and "b < blocks n \<Longrightarrow> \<exists>r \<ge> 0. nand_block_checkbad n (b * erasesize n) False = Some (r, n) \<and> (r \<noteq> 0 \<longleftrightarrow> bad_block t b)"
proof -
  note sz = nand_ok_sizes [OF assms(1)]
  have half: "b * erasesize n div 2 ^ (erase_shift n - 1) = 2 * b" for b
  proof -
    have "erasesize n = 2 * 2 ^ (erase_shift n - 1)"
      using sz(12) by (simp add: erasesize_def flip: power_Suc)
    then show ?thesis by simp
  qed
  have len: "2 * b div 8 < length t \<longleftrightarrow> b < blocks n" for b
    using assms(2) sz(11) by (auto simp: table_ok_def elim!: dvdE)
  have check: "nand_block_checkbad n (b * erasesize n) False =
      (if b < blocks n then Some (if drop_bit (2 * b AND 6) (t ! (2 * b div 8)) AND 3 = 0 then 0 else 1, n) else None)" for b
  proof -
    have "nand_isbad_bbt n (b * erasesize n) False =
        (if b < blocks n then Some (if drop_bit (2 * b AND 6) (t ! (2 * b div 8)) AND 3 = 0 then 0 else 1) else None)"
      using assms(2) unfolding nand_isbad_bbt_def half Let_def len [symmetric] by (simp add: table_ok_def)
    then show ?thesis
      using assms(2) by (simp add: nand_block_checkbad_def table_ok_def)
  qed
  show check': "\<exists>r \<ge> 0. nand_block_checkbad n (b * erasesize n) False = Some (r, n) \<and> (r \<noteq> 0 \<longleftrightarrow> bad_block t b)" if "b < blocks n" for b
    using that by (simp add: check bad_block_def)
  show "\<exists>r \<ge> 0. nand_block_isbad n (b * erasesize n) = Some (r, n) \<and> (r \<noteq> 0 \<longleftrightarrow> bad_block t b)" if "b < blocks n" for b
    using that check' [OF that] sz(3) by (auto simp: nand_block_isbad_def)
  show "nand_block_isbad n (msize n) = None"
    using check [of "blocks n"] sz(3) by (simp add: nand_block_isbad_def)
qed

text \<open>The good pages from a page on, in the order in which an image fills them.\<close>

definition good_from :: "'c nand \<Rightarrow> u8 list \<Rightarrow> nat \<Rightarrow> nat list" where
  "good_from n t p = filter (\<lambda>q. \<not> bad_block t (q div pages_per_block n)) [p..<pages n]"

lemma block_bounds:
  assumes "nand_ok n" "p < pages n" "r = pages_per_block n - p mod pages_per_block n"
  shows "p div pages_per_block n < blocks n" "p + r \<le> pages n" "0 < r"
    "p * writesize n mod erasesize n = p mod pages_per_block n * writesize n"
    "p * writesize n - p * writesize n mod erasesize n = p div pages_per_block n * erasesize n"
    "erasesize n - p * writesize n mod erasesize n = r * writesize n"
    "i < r \<Longrightarrow> (p + i) div pages_per_block n = p div pages_per_block n"
    "chip_page n p = p" "p * writesize n < msize n"
proof -
  note sz = nand_ok_sizes [OF assms(1)]
  let ?m = "pages_per_block n" and ?w = "writesize n"
  show b: "p div ?m < blocks n"
    using assms(2) sz(4) by (simp add: less_mult_imp_div_less)
  have p: "p div ?m * ?m + p mod ?m = p" by simp
  have "Suc (p div ?m) * ?m \<le> blocks n * ?m" using b by (intro mult_le_mono1) simp
  then show "p + r \<le> pages n"
    using assms(3) p sz(4) mod_less_divisor [OF sz(5), of p] unfolding mult_Suc by linarith
  show "0 < r" using assms(3) sz(5) by simp
  show mod: "p * ?w mod erasesize n = p mod ?m * ?w"
    using sz(1) by (simp add: mod_mult_mult2)
  have "p * ?w = p div ?m * erasesize n + p mod ?m * ?w"
    by (subst p [symmetric], simp only: add_mult_distrib sz(1) mult.assoc)
  then show "p * ?w - p * ?w mod erasesize n = p div ?m * erasesize n"
    using mod by linarith
  show "erasesize n - p * ?w mod erasesize n = r * ?w"
    by (simp only: mod assms(3) diff_mult_distrib sz(1) [symmetric])
  show "(p + i) div ?m = p div ?m" if "i < r"
  proof -
    have "p + i = p div ?m * ?m + (p mod ?m + i)" using p by simp
    moreover have "p mod ?m + i < ?m" using that assms(3) by simp
    then have "(p div ?m * ?m + (p mod ?m + i)) div ?m = p div ?m"
      using sz(5) by (subst div_mult_self3) (simp, simp only: div_less add_0_right)
    ultimately show ?thesis by (simp only:)
  qed
  show "chip_page n p = p"
    using assms(2) sz(8) by (simp add: chip_page_def)
  show "p * ?w < msize n"
    using assms(2) sz(2,6) by simp
qed

lemma good_from_block:
  assumes "nand_ok n" "p < pages n" "r = pages_per_block n - p mod pages_per_block n" "j \<le> r"
  shows "good_from n t p = (if bad_block t (p div pages_per_block n) then [] else [p..<p + j]) @ good_from n t (p + j)"
proof -
  note b = block_bounds [OF assms(1-3)]
  have "[p..<pages n] = [p..<p + j] @ [p + j..<pages n]"
    using b(2) assms(4) upt_add_eq_append [of p "p + j" "pages n - (p + j)"] by simp
  moreover have same: "q div pages_per_block n = p div pages_per_block n" if "q \<in> set [p..<p + j]" for q
    using that b(7) [of "q - p"] assms(4) by (simp add: less_diff_conv2)
  have "filter (\<lambda>q. \<not> bad_block t (q div pages_per_block n)) [p..<p + j] =
      (if bad_block t (p div pages_per_block n) then [] else [p..<p + j])"
  proof (cases "bad_block t (p div pages_per_block n)")
    case True
    have "filter (\<lambda>q. \<not> bad_block t (q div pages_per_block n)) [p..<p + j] = []"
      unfolding filter_empty_conv using True same by metis
    then show ?thesis using True by (simp only: if_True)
  next
    case False
    have "\<forall>q \<in> set [p..<p + j]. \<not> bad_block t (q div pages_per_block n)" using False same by metis
    then show ?thesis using False by (simp only: filter_True if_False)
  qed
  ultimately show ?thesis
    unfolding good_from_def by (simp only: filter_append)
qed

lemma good_from_device: "device n' = device n \<Longrightarrow> good_from n' = good_from n"
  using device_sizes(2-4) [of n' n] by (simp add: fun_eq_iff good_from_def pages_per_block_def pages_def)


section \<open>Images across bad blocks\<close>

lemma map2_append:
  "length xs = length us \<Longrightarrow> map2 f (xs @ ys) (us @ vs) = map2 f xs us @ map2 f ys vs"
  by (simp add: zip_append)

lemma write_skip_pages:
  assumes "nand_ok n" "table_ok n t" "\<not> rw_oob n" "\<not> skipfirstblk n" "\<forall>c. \<not> io_protected (io n) c"
    and "ops_mode n \<noteq> MTD_OOB_RAW" "p \<le> pages n" "k \<le> length (good_from n t p)" "k * writesize n \<le> length buf"
    and "program_all (io n) (chip n) (map2 (\<lambda>q dat. (q, page_image n dat)) (take k (good_from n t p)) (pages_of n k buf)) = (c, ok)"
  shows "\<exists>ret left n'. write_skip_loop n (p * writesize n) (k * writesize n) buf = Some (ret, left, buf, n') \<and>
    (ret = 0 \<longleftrightarrow> ok) \<and> (ok \<longrightarrow> left = 0) \<and> chip n' = c \<and> written n n' \<and> pagebuf n' \<in> {pagebuf n, None} \<and>
    (ok \<longrightarrow> (\<forall>q \<in> set (take k (good_from n t p)). pagebuf n' \<noteq> Some q))"
  using assms
proof (induction "pages n - p" arbitrary: n p k buf rule: less_induct)
  case less
  note ok = less.prems(1) and table = less.prems(2)
  note sz = nand_ok_sizes [OF ok]
  show ?case
  proof (cases k)
    case 0
    then show ?thesis
      using less.prems(1,10) by (subst write_skip_loop.simps) (auto simp: pages_of_def written_def)
  next
    case (Suc k')
    then have pos: "0 < k" by simp
    have p: "p < pages n"
    proof (rule ccontr)
      assume "\<not> p < pages n"
      then have "good_from n t p = []" by (simp add: good_from_def)
      then show False using less.prems(8) pos by simp
    qed
    define r where "r = pages_per_block n - p mod pages_per_block n"
    note b = block_bounds [OF ok p r_def]
    obtain bad where isbad: "nand_block_isbad n (p div pages_per_block n * erasesize n) = Some (bad, n)"
      and bad: "bad \<noteq> 0 \<longleftrightarrow> bad_block t (p div pages_per_block n)"
      using isbad_table(1) [OF ok table b(1)] by blast
    have nz: "k * writesize n \<noteq> 0" "\<not> msize n < p * writesize n"
      using pos sz(6) b(9) by simp_all
    note body = write_skip_loop.simps [of n "p * writesize n" "k * writesize n" buf, unfolded Let_def b(5,6) isbad
        option.case prod.case if_not_P [OF nz(1)] if_not_P [OF nz(2)]]
    show ?thesis
    proof (cases "bad_block t (p div pages_per_block n)")
      case True
      have "good_from n t p = good_from n t (p + r)"
        using good_from_block [OF ok p r_def, of r t] True by simp
      then have "\<exists>ret left n'. write_skip_loop n ((p + r) * writesize n) (k * writesize n) buf = Some (ret, left, buf, n') \<and>
          (ret = 0 \<longleftrightarrow> ok) \<and> (ok \<longrightarrow> left = 0) \<and> chip n' = c \<and> written n n' \<and> pagebuf n' \<in> {pagebuf n, None} \<and>
          (ok \<longrightarrow> (\<forall>q \<in> set (take k (good_from n t (p + r))). pagebuf n' \<noteq> Some q))"
        using less.prems b(2,3) p by (intro less.hyps) simp_all
      then show ?thesis
        using body True bad \<open>good_from n t p = good_from n t (p + r)\<close> by (simp add: add_mult_distrib)
    next
      case False
      define j where "j = min k r"
      have j: "0 < j" "j \<le> r" "j \<le> k" using pos b(3) by (simp_all add: j_def)
      have goods: "good_from n t p = [p..<p + j] @ good_from n t (p + j)"
        using good_from_block [OF ok p r_def j(2), of t] False by simp
      have takes: "take k (good_from n t p) = [p..<p + j] @ take (k - j) (good_from n t (p + j))"
        using goods j(3) by simp
      have split: "pages_of n k buf = pages_of n j buf @ pages_of n (k - j) (drop (j * writesize n) buf)"
        using pages_of_add [of n j "k - j" buf] j(3) by simp
      obtain c1 ok1 where first: "program_all (io n) (chip n)
          (map2 (\<lambda>q dat. (q, page_image n dat)) [p..<p + j] (pages_of n j buf)) = (c1, ok1)"
        by fastforce
      have whole: "(if ok1 then program_all (io n) c1
          (map2 (\<lambda>q dat. (q, page_image n dat)) (take (k - j) (good_from n t (p + j))) (pages_of n (k - j) (drop (j * writesize n) buf)))
        else (c1, False)) = (c, ok)"
        using less.prems(10) first unfolding takes split by (simp add: map2_append program_all_append)
      have ids: "map2 (\<lambda>i dat. (chip_page n i, page_image n dat)) [p..<p + j] (pages_of n j buf) =
          map2 (\<lambda>q dat. (q, page_image n dat)) [p..<p + j] (pages_of n j buf)"
        using b(2) j(2) sz(8) by (auto simp: chip_page_def dest!: set_zip_leftD)
      have fits: "(p + j) * writesize n \<le> msize n" "j * writesize n \<le> length buf"
        using b(2) j(2) sz(2) le_trans [OF mult_le_mono1 [OF j(3)] less.prems(9)] by simp_all
      obtain ret retlen m where wr: "nand_write n (p * writesize n) (j * writesize n) buf = (ret, retlen, buf, m)"
        and m: "ret = 0 \<longleftrightarrow> ok1" "chip m = c1" "written n m" "\<forall>i<j. pagebuf m \<noteq> Some (p + i)"
          "pagebuf m \<in> {pagebuf n, None}" "ops_mode m = MTD_OOB_PLACE"
        using nand_write_pages [OF ok less.prems(3) less.prems(5) [rule_format] less.prems(6) j(1) fits(2,1), of c1 ok1]
          first ids by auto
      have len: "min (k * writesize n) (r * writesize n) = j * writesize n"
        by (simp add: j_def nat_mult_min_left)
      note dev = written_device [OF m(3)]
      have same: "bbt_scanned m = bbt_scanned n" "bbt m = bbt n" "rw_oob m = rw_oob n" "skipfirstblk m = skipfirstblk n"
        using m(3) by (simp_all add: written_def steady_def)
      note mz = device_sizes [OF dev]
      have pages: "pages m = pages n" "blocks m = blocks n"
        using mz(2-4) by (simp_all add: pages_def blocks_def)
      have step: "write_skip_loop n (p * writesize n) (k * writesize n) buf =
          (if ret \<noteq> 0 then Some (ret, k * writesize n, buf, m)
           else map_option (\<lambda>(rval, left, rest, d). (rval, left, take (j * writesize n) buf @ rest, d))
             (write_skip_loop m ((p + j) * writesize n) ((k - j) * writesize n) (drop (j * writesize n) buf)))"
        using body False bad less.prems(3,4) len wr nand_write_steady(2) [OF wr] same(3)
        by (cases "ret = 0") (simp_all add: add_mult_distrib diff_mult_distrib)
      show ?thesis
      proof (cases ok1)
        case ok1: False
        then show ?thesis using step m whole by auto
      next
        case ok1: True
        have "\<exists>ret left n'. write_skip_loop m ((p + j) * writesize m) ((k - j) * writesize m) (drop (j * writesize n) buf) =
            Some (ret, left, drop (j * writesize n) buf, n') \<and>
            (ret = 0 \<longleftrightarrow> ok) \<and> (ok \<longrightarrow> left = 0) \<and> chip n' = c \<and> written m n' \<and> pagebuf n' \<in> {pagebuf m, None} \<and>
            (ok \<longrightarrow> (\<forall>q \<in> set (take (k - j) (good_from m t (p + j))). pagebuf n' \<noteq> Some q))"
        proof (rule less.hyps)
          show "pages m - (p + j) < pages n - p" using p j(1) pages by simp
          show "nand_ok m" using m(3) by (simp add: written_def)
          show "table_ok m t" using table same pages by (simp add: table_ok_def)
          show "\<forall>c. \<not> io_protected (io m) c" using less.prems(5) mz(1) by simp
          show "p + j \<le> pages m" using b(2) j(2) pages by simp
          show "k - j \<le> length (good_from m t (p + j))"
            using less.prems(8) goods good_from_device [OF dev] by simp
          show "(k - j) * writesize m \<le> length (drop (j * writesize n) buf)"
            using less.prems(9) mz(10) by (simp add: diff_mult_distrib)
          show "program_all (io m) (chip m) (map2 (\<lambda>q dat. (q, page_image m dat)) (take (k - j) (good_from m t (p + j)))
              (pages_of m (k - j) (drop (j * writesize n) buf))) = (c, ok)"
            using whole ok1 m(2) mz(1) same_device(1) [OF dev] pages_of_device [OF dev] good_from_device [OF dev] by simp
        qed (use less.prems same m(6) in simp_all)
        then obtain ret' left n' where rest: "write_skip_loop m ((p + j) * writesize n) ((k - j) * writesize n) (drop (j * writesize n) buf) =
            Some (ret', left, drop (j * writesize n) buf, n')"
          and n': "ret' = 0 \<longleftrightarrow> ok" "ok \<longrightarrow> left = 0" "chip n' = c" "written m n'" "pagebuf n' \<in> {pagebuf m, None}"
            "ok \<longrightarrow> (\<forall>q \<in> set (take (k - j) (good_from n t (p + j))). pagebuf n' \<noteq> Some q)"
          unfolding mz(10) good_from_device [OF dev] by blast
        have "pagebuf n' \<noteq> Some q" if "q \<in> set [p..<p + j]" for q
          using m(4) [rule_format, of "q - p"] n'(5) that by auto
        then have "ok \<longrightarrow> (\<forall>q \<in> set (take k (good_from n t p)). pagebuf n' \<noteq> Some q)"
          using n'(6) unfolding takes set_append by blast
        moreover have "pagebuf n' \<in> {pagebuf n, None}"
          using m(5) n'(5) by auto
        ultimately show ?thesis
          using step m(1) ok1 rest n'(1-3) written_trans [OF m(3) n'(4)] by simp
      qed
    qed
  qed
qed


lemma read_skip_pages:
  assumes "nand_ok n" "table_ok n t" "p \<le> pages n" "length dats \<le> length (good_from n t p)"
    and "\<forall>i < length dats. stored n (good_from n t p ! i) (dats ! i)"
    and "\<forall>q \<in> set (take (length dats) (good_from n t p)). pagebuf n \<noteq> Some q"
  shows "\<exists>n'. read_skip_loop n (p * writesize n) (length dats * writesize n) = Some (0, 0, concat dats, n') \<and> kept n n'"
  using assms
proof (induction "pages n - p" arbitrary: n p dats rule: less_induct)
  case less
  note ok = less.prems(1) and table = less.prems(2)
  note sz = nand_ok_sizes [OF ok]
  define k where "k = length dats"
  show ?case
  proof (cases "dats = []")
    case True
    then show ?thesis by (subst read_skip_loop.simps) simp
  next
    case False
    then have pos: "0 < k" by (simp add: k_def)
    have p: "p < pages n"
    proof (rule ccontr)
      assume "\<not> p < pages n"
      then have "good_from n t p = []" by (simp add: good_from_def)
      then show False using less.prems(4) pos by (simp add: k_def)
    qed
    define r where "r = pages_per_block n - p mod pages_per_block n"
    note b = block_bounds [OF ok p r_def]
    obtain bad where isbad: "nand_block_isbad n (p div pages_per_block n * erasesize n) = Some (bad, n)"
      and bad: "bad \<noteq> 0 \<longleftrightarrow> bad_block t (p div pages_per_block n)"
      using isbad_table(1) [OF ok table b(1)] by blast
    have nz: "k * writesize n \<noteq> 0" "\<not> msize n < p * writesize n"
      using pos sz(6) b(9) by simp_all
    note body = read_skip_loop.simps [of n "p * writesize n" "k * writesize n", unfolded Let_def b(5,6) isbad
        option.case prod.case if_not_P [OF nz(1)] if_not_P [OF nz(2)]]
    show ?thesis
    proof (cases "bad_block t (p div pages_per_block n)")
      case True
      have goods: "good_from n t p = good_from n t (p + r)"
        using good_from_block [OF ok p r_def, of r t] True by simp
      have "\<exists>n'. read_skip_loop n ((p + r) * writesize n) (length dats * writesize n) = Some (0, 0, concat dats, n') \<and> kept n n'"
        using less.prems b(2,3) p goods by (intro less.hyps) simp_all
      then show ?thesis
        using body True bad by (simp add: add_mult_distrib k_def)
    next
      case False
      define j where "j = min k r"
      have j: "0 < j" "j \<le> r" "j \<le> k" using pos b(3) by (simp_all add: j_def)
      have goods: "good_from n t p = [p..<p + j] @ good_from n t (p + j)"
        using good_from_block [OF ok p r_def j(2), of t] False by simp
      have takes: "take k (good_from n t p) = [p..<p + j] @ take (k - j) (good_from n t (p + j))"
        using goods j(3) by simp
      let ?d1 = "take j dats" and ?d2 = "drop j dats"
      have lens: "length ?d1 = j" "length ?d2 = k - j" using j(3) by (simp_all add: k_def)
      have "\<forall>i < length ?d1. stored n (chip_page n (p + i)) (?d1 ! i)"
      proof (intro allI impI)
        fix i assume i: "i < length ?d1"
        then have "good_from n t p ! i = p + i" "chip_page n (p + i) = p + i"
          using lens goods b(2) j(2) sz(8) by (simp_all add: nth_append chip_page_def)
        then show "stored n (chip_page n (p + i)) (?d1 ! i)"
          using less.prems(5) [rule_format, of i] i lens j(3) by (simp add: k_def)
      qed
      moreover have "\<forall>i < length ?d1. pagebuf n \<noteq> Some (p + i)"
        using less.prems(6) lens takes by (auto simp: k_def [symmetric])
      moreover have "?d1 \<noteq> []" "(p + length ?d1) * writesize n \<le> msize n"
        using j b(2) lens sz(2) by auto
      ultimately obtain ret m where rd: "nand_read n (p * writesize n) (length ?d1 * writesize n) =
          (ret, length ?d1 * writesize n, concat ?d1, m)" "ret \<in> {0, - EUCLEAN}" "kept n m"
        using nand_read_stored [OF ok, of ?d1 p] by metis
      have len: "min (k * writesize n) (r * writesize n) = j * writesize n"
        by (simp add: j_def nat_mult_min_left)
      have step: "read_skip_loop n (p * writesize n) (k * writesize n) =
          map_option (\<lambda>(rval, left, rest, d). (rval, left, concat ?d1 @ rest, d))
            (read_skip_loop m ((p + j) * writesize n) ((k - j) * writesize n))"
        using body False bad len rd(1,2) lens(1) by (auto simp: add_mult_distrib diff_mult_distrib)
      note dev = kept_device [OF rd(3)]
      note mz = device_sizes [OF dev]
      have same: "bbt_scanned m = bbt_scanned n" "bbt m = bbt n" "chip m = chip n" "pagebuf m = pagebuf n" "nand_ok m"
        using rd(3) ok by (simp_all add: kept_def steady_def)
      have pages: "pages m = pages n" "blocks m = blocks n"
        using mz(2-4) by (simp_all add: pages_def blocks_def)
      have "\<exists>n'. read_skip_loop m ((p + j) * writesize m) (length ?d2 * writesize m) = Some (0, 0, concat ?d2, n') \<and> kept m n'"
      proof (rule less.hyps)
        show "pages m - (p + j) < pages n - p" using p j(1) pages by simp
        show "table_ok m t" using table same pages by (simp add: table_ok_def)
        show "p + j \<le> pages m" using b(2) j(2) pages by simp
        show "length ?d2 \<le> length (good_from m t (p + j))"
          using less.prems(4) goods good_from_device [OF dev] by simp
        show "\<forall>i < length ?d2. stored m (good_from m t (p + j) ! i) (?d2 ! i)"
        proof (intro allI impI)
          fix i assume "i < length ?d2"
          then show "stored m (good_from m t (p + j) ! i) (?d2 ! i)"
            using less.prems(5) [rule_format, of "j + i"] goods lens same_device(3) [OF dev same(3)] good_from_device [OF dev] j(3)
            by (simp add: nth_append k_def)
        qed
        show "\<forall>q \<in> set (take (length ?d2) (good_from m t (p + j))). pagebuf m \<noteq> Some q"
          using less.prems(6) takes lens same(4) good_from_device [OF dev] by (simp add: k_def [symmetric] ball_Un)
      qed (use same in simp)
      then show ?thesis
        using step lens mz(10) kept_trans [OF rd(3)] by (auto simp: k_def [symmetric] concat_append [symmetric] simp del: concat_append)
    qed
  qed
qed

text \<open>The length with the bad blocks in the way, and where it ends.\<close>

lemma len_incl_bad_pages:
  assumes "nand_ok n" "table_ok n t" "p < pages n"
  shows "\<exists>p'. p \<le> p' \<and> p' \<le> pages n \<and> len_incl_bad_loop n (p * writesize n) len e i = Some (i + (p' - p) * writesize n, n) \<and>
    (p' = pages n \<or> len \<le> e + length (filter (\<lambda>q. \<not> bad_block t (q div pages_per_block n)) [p..<p']) * writesize n)"
  using assms
proof (induction "pages n - p" arbitrary: p e i rule: less_induct)
  case less
  note ok = less.prems(1) and table = less.prems(2)
  note sz = nand_ok_sizes [OF ok]
  define r where "r = pages_per_block n - p mod pages_per_block n"
  note b = block_bounds [OF ok less.prems(3) r_def]
  obtain bad where isbad: "nand_block_isbad n (p div pages_per_block n * erasesize n) = Some (bad, n)"
    and bad: "bad \<noteq> 0 \<longleftrightarrow> bad_block t (p div pages_per_block n)"
    using isbad_table(1) [OF ok table b(1)] by blast
  note body = len_incl_bad_loop.simps [of n "p * writesize n" len e i, unfolded Let_def b(5,6) isbad option.case prod.case]
  show ?case
  proof (cases "e < len")
    case False
    then show ?thesis using body less.prems(3) by (intro exI [of _ p]) simp
  next
    case True
    show ?thesis
    proof (cases "p + r = pages n")
      case last: True
      then have "msize n = p * writesize n + r * writesize n"
        using sz(2) by (metis add_mult_distrib)
      then show ?thesis
        using body True last diff_add_inverse [of p r] by (intro exI [of _ "p + r"]) (simp add: last [symmetric])
    next
      case False
      then have more: "p + r < pages n" using b(2) by simp
      then have lt: "(p + r) * writesize n < msize n"
        unfolding sz(2) using sz(6) by (simp only: mult_less_mono1)
      let ?e = "if bad = 0 then e + r * writesize n else e"
      obtain p' where p': "p + r \<le> p'" "p' \<le> pages n"
        "len_incl_bad_loop n ((p + r) * writesize n) len ?e (i + r * writesize n) =
          Some (i + r * writesize n + (p' - (p + r)) * writesize n, n)"
        "p' = pages n \<or> len \<le> ?e + length (filter (\<lambda>q. \<not> bad_block t (q div pages_per_block n)) [p + r..<p']) * writesize n"
        using less.hyps [OF _ ok table more, of ?e "i + r * writesize n"] less.prems(3) b(3) by (meson diff_less_mono2 less_add_same_cancel1)
      have "p' - p = r + (p' - (p + r))" using p'(1) by simp
      then have total: "i + r * writesize n + (p' - (p + r)) * writesize n = i + (p' - p) * writesize n"
        by (simp add: add_mult_distrib)
      have split: "[p..<p'] = [p..<p + r] @ [p + r..<p']"
        using p'(1) upt_add_eq_append [of p "p + r" "p' - (p + r)"] by simp
      have same: "q div pages_per_block n = p div pages_per_block n" if "q \<in> set [p..<p + r]" for q
        using that b(7) [of "q - p"] by (simp add: less_diff_conv2)
      have first: "length (filter (\<lambda>q. \<not> bad_block t (q div pages_per_block n)) [p..<p + r]) = (if bad = 0 then r else 0)"
      proof (cases "bad = 0")
        case True
        then have "\<forall>q \<in> set [p..<p + r]. \<not> bad_block t (q div pages_per_block n)" using bad same by metis
        then show ?thesis using True by (simp only: filter_True) simp
      next
        case False
        have "filter (\<lambda>q. \<not> bad_block t (q div pages_per_block n)) [p..<p + r] = []"
          unfolding filter_empty_conv using bad False same by metis
        then show ?thesis using False by simp
      qed
      have "len_incl_bad_loop n (p * writesize n) len e i = Some (i + (p' - p) * writesize n, n)"
        using body True lt p'(3) total by (simp add: add_mult_distrib)
      moreover have "p' = pages n \<or> len \<le> e + length (filter (\<lambda>q. \<not> bad_block t (q div pages_per_block n)) [p..<p']) * writesize n"
        using p'(4) first unfolding split filter_append length_append by (auto simp: add_mult_distrib)
      ultimately show ?thesis
        using p'(1,2) by (intro exI [of _ p']) simp
    qed
  qed
qed


lemma get_len_incl_bad_pages:
  assumes "nand_ok n" "table_ok n t" "0 < k" "k \<le> length (good_from n t p)"
  obtains incl where "get_len_incl_bad n (p * writesize n) (k * writesize n) = Some (incl, n)"
    "p * writesize n + incl \<le> msize n"
    "incl = k * writesize n \<Longrightarrow> take k (good_from n t p) = [p..<p + k]" "p < pages n"
proof -
  note sz = nand_ok_sizes [OF assms(1)]
  let ?good = "\<lambda>q. \<not> bad_block t (q div pages_per_block n)"
  have p: "p < pages n"
    using assms(3,4) by (cases "p < pages n") (simp_all add: good_from_def)
  obtain p' where p': "p \<le> p'" "p' \<le> pages n"
    "len_incl_bad_loop n (p * writesize n) (k * writesize n) 0 0 = Some ((p' - p) * writesize n, n)"
    "p' = pages n \<or> k * writesize n \<le> length (filter ?good [p..<p']) * writesize n"
    using len_incl_bad_pages [OF assms(1,2) p, of "k * writesize n" 0 0] by auto
  have enough: "k \<le> length (filter ?good [p..<p'])"
    using p'(4) assms(4) sz(6) by (auto simp: good_from_def)
  show thesis
  proof (rule that)
    show "get_len_incl_bad n (p * writesize n) (k * writesize n) = Some ((p' - p) * writesize n, n)"
      using p'(3) by (simp add: get_len_incl_bad_def)
    have "p * writesize n + (p' - p) * writesize n = p' * writesize n"
      using p'(1) by (simp add: add_mult_distrib [symmetric])
    then show "p * writesize n + (p' - p) * writesize n \<le> msize n"
      using p'(2) by (simp add: sz(2))
    assume "(p' - p) * writesize n = k * writesize n"
    then have k: "k = p' - p" using sz(6) by simp
    have "length (filter ?good [p..<p']) = length [p..<p']"
      using enough k length_filter_le [of ?good "[p..<p']"] by simp
    then have "filter ?good [p..<p'] = [p..<p']"
      by (metis filter_id_conv length_filter_less less_irrefl)
    moreover have "[p..<pages n] = [p..<p'] @ [p'..<pages n]"
      using p'(1,2) upt_add_eq_append [of p p' "pages n - p'"] by simp
    ultimately show "take k (good_from n t p) = [p..<p + k]"
      using k p'(1) by (simp add: good_from_def)
  qed (rule p)
qed

text \<open>Programming blank pages, for a chip that keeps what is programmed.\<close>

definition blank_page :: "'c nand \<Rightarrow> u8 list" where
  "blank_page n = replicate (writesize n + oobsize n) 0xff"

definition keeps_data :: "'c nand \<Rightarrow> ('c \<Rightarrow> nat \<Rightarrow> u8 list) \<Rightarrow> bool" where
  "keeps_data n holds \<longleftrightarrow> (\<forall>c page bytes.
     holds c page = blank_page n \<longrightarrow> length bytes = writesize n + oobsize n \<longrightarrow>
     \<not> snd (io_program (io n) c page 0 bytes) \<longrightarrow>
     holds (fst (io_program (io n) c page 0 bytes)) = (holds c)(page := bytes))"

lemma program_all_holds:
  assumes "keeps_data n holds" "program_all (io n) c ps = (c', True)" "distinct (map fst ps)"
    and "\<forall>(q, b) \<in> set ps. holds c q = blank_page n \<and> length b = writesize n + oobsize n"
  shows "(\<forall>(q, b) \<in> set ps. holds c' q = b) \<and> (\<forall>q. q \<notin> fst ` set ps \<longrightarrow> holds c' q = holds c q)"
  using assms(2-4)
proof (induction ps arbitrary: c)
  case (Cons x ps)
  obtain q b where x: "x = (q, b)" by (cases x)
  define c1 where "c1 = fst (io_program (io n) c q 0 b)"
  have ok: "\<not> snd (io_program (io n) c q 0 b)" "program_all (io n) c1 ps = (c', True)"
    using Cons.prems(1) x by (auto simp: c1_def split: prod.splits if_splits)
  have c1: "holds c1 = (holds c)(q := b)"
    using assms(1) Cons.prems(3) x ok(1) unfolding keeps_data_def c1_def by auto
  have "\<forall>(q, b) \<in> set ps. holds c1 q = blank_page n \<and> length b = writesize n + oobsize n"
    using Cons.prems(2,3) x by (force simp: c1)
  note rest = Cons.IH [OF ok(2) _ this]
  show ?case
    using rest Cons.prems(2) c1 x by (auto simp: fst_eq_Domain Domain.simps)
qed simp

lemma program_all_no_fail:
  "\<forall>c page bytes. \<not> snd (io_program h c page 0 bytes) \<Longrightarrow> snd (program_all h c ps)"
  by (induction h c ps rule: program_all.induct) (auto split: prod.split, metis snd_conv)


lemma pages_of_lengths:
  assumes "k * writesize n \<le> length buf" "dat \<in> set (pages_of n k buf)"
  shows "length dat = writesize n"
proof -
  obtain i where i: "i < k" "dat = take (writesize n) (drop (i * writesize n) buf)"
    using assms(2) by (auto simp: pages_of_def)
  have "Suc i * writesize n \<le> k * writesize n" using i(1) by (intro mult_le_mono1) simp
  then show ?thesis using i(2) assms(1) by simp
qed

lemma length_page_image: "length dat = writesize n \<Longrightarrow> length (page_image n dat) = writesize n + oobsize n"
  by (simp add: page_image_def)

lemma distinct_good_from: "distinct (good_from n t p)" "q \<in> set (good_from n t p) \<Longrightarrow> q < pages n"
  by (simp_all add: good_from_def)

lemma table_ok_device:
  "device n' = device n \<Longrightarrow> bbt n' = bbt n \<Longrightarrow> bbt_scanned n' = bbt_scanned n \<Longrightarrow> table_ok n' t = table_ok n t"
  using device_sizes(3,4) [of n' n] by (simp add: table_ok_def blocks_def)

text \<open>A read of pages that hold their data, skipping the bad blocks.\<close>

lemma nand_read_skip_stored:
  assumes "nand_ok n" "table_ok n t" "dats \<noteq> []" "length dats \<le> length (good_from n t p)"
    and "\<forall>i < length dats. stored n (good_from n t p ! i) (dats ! i)"
    and "\<forall>q \<in> set (take (length dats) (good_from n t p)). pagebuf n \<noteq> Some q"
  shows "\<exists>n'. nand_read_skip_bad n (p * writesize n) (length dats * writesize n) =
    Some (0, length dats * writesize n, concat dats, n') \<and> kept n n'"
proof -
  let ?k = "length dats"
  have "0 < ?k" using assms(3) by simp
  obtain incl where incl: "get_len_incl_bad n (p * writesize n) (?k * writesize n) = Some (incl, n)"
    "p * writesize n + incl \<le> msize n" "incl = ?k * writesize n \<Longrightarrow> take ?k (good_from n t p) = [p..<p + ?k]" "p < pages n"
    using get_len_incl_bad_pages [OF assms(1,2) \<open>0 < ?k\<close> assms(4)] by metis
  show ?thesis
  proof (cases "incl = ?k * writesize n")
    case True
    note straight = incl(3) [OF True]
    have nth: "good_from n t p ! i = p + i" if "i < ?k" for i
      using arg_cong [OF straight, of "\<lambda>xs. xs ! i"] that by simp
    have "p + i < pages n" if "i < ?k" for i
      using nth [OF that] distinct_good_from(2) [of "p + i" n t p] nth_mem [of i "good_from n t p"] that assms(4) by simp
    then have "chip_page n (p + i) = p + i" if "i < ?k" for i
      using that nand_ok_sizes(8) [OF assms(1)] by (simp add: chip_page_def)
    then have "\<forall>i < ?k. stored n (chip_page n (p + i)) (dats ! i)"
      using assms(5) nth by auto
    moreover have "\<forall>i < ?k. pagebuf n \<noteq> Some (p + i)"
      using assms(6) straight by auto
    moreover have "(p + ?k) * writesize n \<le> msize n"
      using incl(2) True by (simp add: add_mult_distrib)
    ultimately obtain ret n' where "nand_read n (p * writesize n) (?k * writesize n) = (ret, ?k * writesize n, concat dats, n')"
      "ret \<in> {0, - EUCLEAN}" "kept n n'"
      using nand_read_stored [OF assms(1,3)] by metis
    then show ?thesis
      using incl(1,2) True by (auto simp: nand_read_skip_bad_def EUCLEAN_def)
  next
    case False
    obtain n' where "read_skip_loop n (p * writesize n) (?k * writesize n) = Some (0, 0, concat dats, n')" "kept n n'"
      using read_skip_pages [OF assms(1,2) _ assms(4-6)] incl(4) by auto
    then show ?thesis
      using incl(1,2) False by (auto simp: nand_read_skip_bad_def)
  qed
qed

lemma image_write_read:
  assumes "nand_ok n" "table_ok n t" "\<not> rw_oob n" "\<not> skipfirstblk n" "\<forall>c. \<not> io_protected (io n) c"
    and "ops_mode n \<noteq> MTD_OOB_RAW" "0 < k" "k \<le> length (good_from n t p)" "k * writesize n \<le> length buf"
    and "keeps_data n holds" "\<forall>q \<in> set (take k (good_from n t p)). holds (chip n) q = blank_page n"
    and "\<forall>c q dat. length dat = writesize n \<longrightarrow> holds c q = page_image n dat \<longrightarrow> worn n dat (io_read (io n) c q)"
  obtains ret len n' where
    "nand_write_skip_bad n (p * writesize n) (k * writesize n) buf = Some (ret, len, buf, n')"
    "(\<forall>c q bytes. \<not> snd (io_program (io n) c q 0 bytes)) \<longrightarrow> ret = 0"
    "ret = 0 \<longrightarrow> len = k * writesize n \<and>
      (\<forall>q. q \<notin> set (take k (good_from n t p)) \<longrightarrow> holds (chip n') q = holds (chip n) q) \<and>
      (\<exists>n''. nand_read_skip_bad n' (p * writesize n) (k * writesize n) = Some (0, k * writesize n, take (k * writesize n) buf, n''))"
proof -
  let ?goods = "take k (good_from n t p)"
  let ?prog = "map2 (\<lambda>q dat. (q, page_image n dat)) ?goods (pages_of n k buf)"
  obtain incl where incl: "get_len_incl_bad n (p * writesize n) (k * writesize n) = Some (incl, n)"
    "p * writesize n + incl \<le> msize n" "p < pages n"
    using get_len_incl_bad_pages [OF assms(1,2,7,8)] by metis
  obtain c ok where prog: "program_all (io n) (chip n) ?prog = (c, ok)" by fastforce
  obtain ret left n' where loop: "write_skip_loop n (p * writesize n) (k * writesize n) buf = Some (ret, left, buf, n')"
    "ret = 0 \<longleftrightarrow> ok" "ok \<longrightarrow> left = 0" "chip n' = c" "written n n'"
    "ok \<longrightarrow> (\<forall>q \<in> set ?goods. pagebuf n' \<noteq> Some q)"
    using write_skip_pages [OF assms(1-6) less_imp_le [OF incl(3)] assms(8,9) prog] by blast
  have wr: "nand_write_skip_bad n (p * writesize n) (k * writesize n) buf = Some (ret, k * writesize n - left, buf, n')"
    using loop(1) incl assms(3) by (simp add: nand_write_skip_bad_def Let_def)
  have lens: "length ?goods = k" using assms(8) by simp
  have "(\<forall>q. q \<notin> set ?goods \<longrightarrow> holds c q = holds (chip n) q) \<and>
      (\<exists>n''. nand_read_skip_bad n' (p * writesize n) (k * writesize n) = Some (0, k * writesize n, take (k * writesize n) buf, n''))"
    if ok
  proof -
    have fst: "map fst ?prog = ?goods"
      using lens by (simp add: comp_def case_prod_beta')
    have pre: "\<forall>(q, b) \<in> set ?prog. holds (chip n) q = blank_page n \<and> length b = writesize n + oobsize n"
      using assms(11) length_page_image [OF pages_of_lengths [OF assms(9)]]
      by (auto dest: set_zip_leftD set_zip_rightD)
    have "distinct (map fst ?prog)" unfolding fst by (simp add: distinct_good_from distinct_take)
    note holds = program_all_holds [OF assms(10) prog [unfolded eqTrueI [OF that]] this pre]
    have other: "\<forall>q. q \<notin> set ?goods \<longrightarrow> holds c q = holds (chip n) q"
      using conjunct2 [OF holds, folded set_map, unfolded fst] .
    note dev = written_device [OF loop(5)]
    note ws = device_sizes(10) [OF dev] and goods = good_from_device [OF dev]
    have n': "nand_ok n'" "table_ok n' t"
      using loop(5) assms(2) table_ok_device [OF dev] by (simp_all add: written_def steady_def)
    have "stored n' (good_from n' t p ! i) (pages_of n k buf ! i)" if i: "i < k" for i
    proof -
      have "(good_from n t p ! i, page_image n (pages_of n k buf ! i)) \<in> set ?prog"
        using nth_mem [of i ?prog] i lens by simp
      then have "holds c (good_from n t p ! i) = page_image n (pages_of n k buf ! i)"
        using conjunct1 [OF holds] by auto
      moreover have "length (pages_of n k buf ! i) = writesize n"
        using i by (intro pages_of_lengths [OF assms(9)] nth_mem) simp
      ultimately show ?thesis
        using assms(12) same_device(2) [OF dev] device_sizes(1,10) [OF dev] loop(4) goods by (simp add: stored_def)
    qed
    then have "\<exists>n''. nand_read_skip_bad n' (p * writesize n') (length (pages_of n k buf) * writesize n') =
        Some (0, length (pages_of n k buf) * writesize n', concat (pages_of n k buf), n'') \<and> kept n' n''"
      using assms(7,8) loop(6) that goods
      by (intro nand_read_skip_stored [OF n']) (auto simp: pages_of_def)
    then show ?thesis
      using other ws concat_pages_of [OF assms(9)] by auto
  qed
  moreover have "(\<forall>c q bytes. \<not> snd (io_program (io n) c q 0 bytes)) \<longrightarrow> ret = 0"
    using program_all_no_fail [of "io n" "chip n" ?prog] prog loop(2) by auto
  ultimately show thesis
    using that [OF wr] loop(2-4) by simp
qed

text \<open>
  C27: an image written to flash comes back. \<open>nand_write_skip_bad\<close> puts its pages into the good pages
  from its offset on, whatever blocks are bad, and touches no other page; when it returns 0, and it does
  when no program command fails, \<open>nand_read_skip_bad\<close> returns the image, although in the meantime a bit
  may have flipped in every 256 bytes of data or in their code. The chip is any that keeps what is
  programmed into blank pages.
\<close>

theorem image_roundtrip:
  assumes "nand_ok n" "table_ok n t" "\<not> rw_oob n" "\<not> skipfirstblk n" "\<forall>c. \<not> io_protected (io n) c"
    and "ops_mode n \<noteq> MTD_OOB_RAW" "0 < k" "k \<le> length (good_from n t p)" "k * writesize n \<le> length buf"
    and "keeps_data n holds" "\<forall>q \<in> set (take k (good_from n t p)). holds (chip n) q = blank_page n"
    and "\<forall>c q dat. length dat = writesize n \<longrightarrow> holds c q = page_image n dat \<longrightarrow> worn n dat (io_read (io n) c q)"
  shows "\<exists>ret len n'. nand_write_skip_bad n (p * writesize n) (k * writesize n) buf = Some (ret, len, buf, n') \<and>
    ((\<forall>c q bytes. \<not> snd (io_program (io n) c q 0 bytes)) \<longrightarrow> ret = 0) \<and>
    (ret = 0 \<longrightarrow> len = k * writesize n \<and>
      (\<forall>q. q \<notin> set (take k (good_from n t p)) \<longrightarrow> holds (chip n') q = holds (chip n) q) \<and>
      (\<exists>n''. nand_read_skip_bad n' (p * writesize n) (k * writesize n) = Some (0, k * writesize n, take (k * writesize n) buf, n'')))"
  using image_write_read [OF assms] by metis

text \<open>A chip of four blocks of two pages each, the second block bad; every page reads with a wrong bit.\<close>

definition sample_io :: "(nat \<Rightarrow> u8 list) nand_io" where
  "sample_io = \<lparr>io_read = (\<lambda>c page. flip_at 5 3 (c page)),
     io_program = (\<lambda>c page col bytes. (c(page := map2 (AND) (c page) (replicate col 0xff @ bytes)), False)),
     io_erase = (\<lambda>c page. (\<lambda>q. if page \<le> q \<and> q < page + 2 then replicate 264 0xff else c q, False)),
     io_protected = (\<lambda>c. False)\<rparr>"

definition sample_nand :: "(nat \<Rightarrow> u8 list) nand" where
  "sample_nand = \<lparr>io = sample_io, chip = (\<lambda>_. replicate 264 0xff), page_shift = 8, erase_shift = 9, chip_shift = 11,
     oobsize = 8, layout = nand_oob_8, subpage_sft = 0, badblockpos = 5, pagebuf = None, databuf = replicate 256 0,
     oob_poi = replicate 8 0, ops_mode = MTD_OOB_PLACE, ops_ooboffs = 0, bbt = Some [0x0c], bbt_scanned = True,
     bad_scrub = False, heap_ok = True, ecc_failed = 0, ecc_corrected = 0, badblocks = 1, rw_oob = False,
     skipfirstblk = False\<rparr>"

lemma sample_sizes:
  "nand_ok sample_nand" "table_ok sample_nand [0x0c]" "writesize sample_nand = 256" "oobsize sample_nand = 8"
  "io sample_nand = sample_io" "layout sample_nand = nand_oob_8" "ecc_steps sample_nand = 1"
  "take 3 (good_from sample_nand [0x0c] 1) = [1, 4, 5]" "length (good_from sample_nand [0x0c] 1) = 5"
proof -
  show "nand_ok sample_nand" "table_ok sample_nand [0x0c]"
    by (simp_all add: nand_ok_def sample_nand_def table_ok_def blocks_def writesize_def)
  show "writesize sample_nand = 256" "oobsize sample_nand = 8" "ecc_steps sample_nand = 1"
    "io sample_nand = sample_io" "layout sample_nand = nand_oob_8"
    by (simp_all add: sample_nand_def writesize_def ecc_steps_def)
  have "pages sample_nand = 8" "pages_per_block sample_nand = 2"
    by (simp_all add: sample_nand_def pages_def pages_per_block_def)
  then have "good_from sample_nand [0x0c] 1 = [1, 4, 5, 6, 7]"
    by (simp add: good_from_def upt_rec bad_block_def)
  then show "take 3 (good_from sample_nand [0x0c] 1) = [1, 4, 5]" "length (good_from sample_nand [0x0c] 1) = 5"
    by simp_all
qed

lemma map2_and_ff: "length bytes = k \<Longrightarrow> map2 (AND) (replicate k (0xff :: u8)) bytes = bytes"
proof (rule nth_equalityI)
  have "(0xff :: u8) AND b = b" for b
    by (rule bit_word_eqI) (auto simp: bit_simps less_8_cases numeral_eq_Suc less_Suc_eq)
  then show "map2 (AND) (replicate k (0xff :: u8)) bytes ! i = bytes ! i"
    if "length bytes = k" "i < length (map2 (AND) (replicate k (0xff :: u8)) bytes)" for i
    using that by simp
qed simp

lemma sample_keeps: "keeps_data sample_nand (\<lambda>c. c)"
  by (simp add: keeps_data_def blank_page_def sample_sizes sample_io_def map2_and_ff)

lemma sample_worn:
  assumes "length dat = 256" "c q = page_image sample_nand dat"
  shows "worn sample_nand dat (io_read sample_io c q)"
proof -
  let ?ps = "[0, 1, 2] :: nat list"
  obtain a b d where calc: "nand_calculate_ecc dat = (a, b, d)" by (cases "nand_calculate_ecc dat")
  have "nand_calculate_ecc (take 256 dat) = (a, b, d)" using calc assms(1) by simp
  moreover have "page_image sample_nand dat = dat @ [a, b, d, 0xff, 0xff, 0xff, 0xff, 0xff]"
    using calc by (simp add: page_image_def sample_sizes nand_oob_8_def numeral_eq_Suc)
  moreover have "flip_at 5 3 (dat @ xs) = flip_at 5 3 dat @ xs" for xs
    using assms(1) by (simp add: flip_at_append)
  moreover have "length (flip_at 5 3 dat) = 256" using assms(1) by (simp add: flip_at_def)
  moreover have "one_flip dat (a, b, d) (flip_at 5 3 dat) (a, b, d)"
    unfolding one_flip_def by (rule disjI2, rule disjI1, rule exI [of _ 5], simp, rule exI [of _ 3], simp)
  ultimately show ?thesis
    using assms by (simp add: worn_def sample_sizes sample_io_def nand_oob_8_def upt_rec nth_append)
qed

theorem image_roundtrip_witness:
  "\<exists>n' n''. nand_write_skip_bad sample_nand 256 768 (replicate 768 7) = Some (0, 768, replicate 768 7, n') \<and>
     nand_read_skip_bad n' 256 768 = Some (0, 768, replicate 768 7, n'')"
proof -
  have "\<forall>q \<in> set (take 3 (good_from sample_nand [0x0c] 1)). chip sample_nand q = blank_page sample_nand"
    by (simp add: sample_sizes blank_page_def) (simp add: sample_nand_def)
  note this [unfolded sample_sizes]
  from image_roundtrip [of sample_nand "[0x0c]" 3 1 "replicate 768 7" "\<lambda>c. c", unfolded sample_sizes, OF _ _ _ _ _ _ _ _ _ _ this]
  show ?thesis
    using sample_keeps sample_worn sample_sizes by (simp add: sample_io_def) (auto simp: sample_nand_def)
qed

end
