(* ===== verification/Nand_Blocks.thy ===== *)
theory Nand_Blocks
  imports Nand_Correct
begin

text \<open>
  Blocks: what erasing a range does and does not report, the bad block table against the markers of
  the chip, and what the code does at the edges: images that do not fit, marking a block bad after
  formatting for JFFS2, the page buffer while scrubbing.
\<close>

section \<open>Erasing\<close>

lemma erase_one:
  assumes "nand_ok n" "table_ok n t" "b < blocks n" "\<not> io_protected (io n) (chip n)" "\<not> bad_block t b"
  obtains n' where "nand_erase n (b * erasesize n) (erasesize n) =
      Some (if snd (io_erase (io n) (chip n) (b * pages_per_block n)) then - EIO else 0, n')"
    "chip n' = fst (io_erase (io n) (chip n) (b * pages_per_block n))" "steady n n'" "nand_ok n'"
    "pagebuf n' \<in> {pagebuf n, None}" "ops_mode n' = ops_mode n"
proof -
  note sz = nand_ok_sizes [OF assms(1)]
  have page: "b * erasesize n div writesize n = b * pages_per_block n"
    using sz(1,6) by (metis mult.assoc nonzero_mult_div_cancel_right not_less_zero)
  have bck: "b * pages_per_block n * writesize n = b * erasesize n"
    using sz(1) by simp
  have fits: "erasesize n + b * erasesize n \<le> msize n"
    unfolding sz(3) using mult_le_mono1 [of "Suc b" "blocks n" "erasesize n"] assms(3) by simp
  have "b * pages_per_block n < pages n"
    unfolding sz(4) using assms(3) sz(5) by simp
  then have cp: "chip_page m (b * pages_per_block n) = b * pages_per_block n" if "device m = device n" for m :: "'a nand"
    using device_sizes(17) [OF that] sz(8) by (simp add: chip_page_def)
  obtain r where r: "nand_block_checkbad n (b * erasesize n) False = Some (r, n)" "r = 0"
    using isbad_table(3) [OF assms(1-3)] assms(5) by blast
  define m where "m = (case pagebuf n of
      Some p \<Rightarrow> if b * pages_per_block n \<le> p \<and> p < b * pages_per_block n + pages_per_block n then n\<lparr>pagebuf := None\<rparr> else n
    | None \<Rightarrow> n)"
  have m: "device m = device n" "chip m = chip n" "steady n m" "nand_ok m" "pagebuf m \<in> {pagebuf n, None}" "ops_mode m = ops_mode n"
    using assms(1) by (auto simp: m_def device_def nand_ok_def steady_def writesize_def split: option.splits)
  obtain c fail where e: "io_erase (io n) (chip n) (b * pages_per_block n) = (c, fail)" by fastforce
  have "erasesize n div erasesize n = Suc 0" using sz(7) by simp
  then have "nand_erase n (b * erasesize n) (erasesize n) = map_option (\<lambda>(ok, n). (if ok then 0 else - EIO, n))
      (erase_loop n (b * pages_per_block n) (Suc 0) False)"
    using fits assms(4) page by (simp add: nand_erase_def nand_erase_nand_def)
  also have "erase_loop n (b * pages_per_block n) (Suc 0) False = Some (\<not> fail, m\<lparr>chip := c\<rparr>)"
    using r e device_sizes(1) [OF m(1)] m(2) cp [OF m(1)]
    by (simp add: bck Let_def pages_per_block_def [symmetric] m_def [symmetric])
  finally show thesis
    using that [of "m\<lparr>chip := c\<rparr>"] e m(3-6) steady_trans [OF m(3) steady_updates(4)]
    by (simp add: nand_ok_def writesize_def)
qed

text \<open>The erase commands of a range of blocks: the good ones, whether they succeed or not.\<close>

fun erase_all :: "'c nand_io \<Rightarrow> nat \<Rightarrow> u8 list \<Rightarrow> 'c \<Rightarrow> nat \<Rightarrow> nat \<Rightarrow> 'c" where
  "erase_all h ppb t c b 0 = c"
| "erase_all h ppb t c b (Suc m) =
     erase_all h ppb t (if bad_block t b then c else fst (io_erase h c (b * ppb))) (b + 1) m"

lemma erase_opts_loop_blocks:
  assumes "nand_ok n" "table_ok n t" "b + m \<le> blocks n" "\<forall>c. \<not> io_protected (io n) c"
    and "\<not> opt_scrub opts" "\<not> opt_jffs2 opts"
  shows "\<exists>n'. erase_opts_loop opts n (b * erasesize n) m = Some (True, n') \<and>
    chip n' = erase_all (io n) (pages_per_block n) t (chip n) b m \<and> steady n n' \<and> nand_ok n' \<and>
    pagebuf n' \<in> {pagebuf n, None} \<and> ops_mode n' = ops_mode n"
  using assms(1-4)
proof (induction m arbitrary: n b)
  case (Suc m)
  have b: "b < blocks n" using Suc.prems(3) by simp
  obtain bad where isbad: "nand_block_isbad n (b * erasesize n) = Some (bad, n)" "0 \<le> bad" "bad \<noteq> 0 \<longleftrightarrow> bad_block t b"
    using isbad_table(1) [OF Suc.prems(1,2) b] by blast
  show ?case
  proof (cases "bad_block t b")
    case True
    then show ?thesis
      using Suc.IH [of n "b + 1"] Suc.prems isbad assms(5) by (simp add: add.commute)
  next
    case False
    obtain k where er: "nand_erase n (b * erasesize n) (erasesize n) =
      Some (if snd (io_erase (io n) (chip n) (b * pages_per_block n)) then - EIO else 0, k)"
      and k: "chip k = fst (io_erase (io n) (chip n) (b * pages_per_block n))" "steady n k" "nand_ok k"
        "pagebuf k \<in> {pagebuf n, None}" "ops_mode k = ops_mode n"
      using erase_one [OF Suc.prems(1,2) b Suc.prems(4) [rule_format] False] by metis
    have dev: "device k = device n" using k(2) by (simp add: steady_def)
    note kz = device_sizes [OF dev]
    have "table_ok k t" "blocks k = blocks n" "pages_per_block k = pages_per_block n"
      using Suc.prems(2) table_ok_device [OF dev] k(2) kz(2-4)
      by (simp_all add: steady_def blocks_def pages_per_block_def)
    then obtain n' where rest: "erase_opts_loop opts k ((b + 1) * erasesize k) m = Some (True, n')"
      "chip n' = erase_all (io k) (pages_per_block k) t (chip k) (b + 1) m" "steady k n'" "nand_ok n'"
      "pagebuf n' \<in> {pagebuf k, None}" "ops_mode n' = ops_mode k"
      using Suc.IH [of k "b + 1"] k(3) Suc.prems(3,4) kz(1) by auto
    have "erase_opts_loop opts n (b * erasesize n) (Suc m) = erase_opts_loop opts k ((b + 1) * erasesize k) m"
      using isbad False er assms(5,6) kz(11) by (simp add: add.commute Let_def)
    then show ?thesis
      using rest k False steady_trans [OF k(2) rest(3)] kz(1) \<open>pages_per_block k = pages_per_block n\<close> by auto
  qed
qed auto

lemma nand_erase_opts_blocks:
  assumes "nand_ok n" "table_ok n t" "b + m \<le> blocks n" "\<forall>c. \<not> io_protected (io n) c"
    and "\<not> opt_scrub opts" "\<not> opt_jffs2 opts" "opt_offset opts = b * erasesize n"
    and "m = (max (opt_length opts) (erasesize n) + erasesize n - 1) div erasesize n"
  shows "\<exists>n'. nand_erase_opts opts n = Some (0, n') \<and>
    chip n' = erase_all (io n) (pages_per_block n) t (chip n) b m \<and> steady n n' \<and> nand_ok n' \<and>
    pagebuf n' \<in> {pagebuf n, None} \<and> ops_mode n' = ops_mode n"
  using erase_opts_loop_blocks [OF assms(1-6)] assms(5,7,8) by (auto simp: nand_erase_opts_def Let_def)

text \<open>A chip whose erase command blanks the pages of the block and no others.\<close>

definition erases_blocks :: "'c nand \<Rightarrow> ('c \<Rightarrow> nat \<Rightarrow> u8 list) \<Rightarrow> bool" where
  "erases_blocks n holds \<longleftrightarrow> (\<forall>c b q. b < blocks n \<longrightarrow>
     holds (fst (io_erase (io n) c (b * pages_per_block n))) q =
       (if q div pages_per_block n = b \<and> \<not> snd (io_erase (io n) c (b * pages_per_block n)) then blank_page n
        else holds c q))"

lemma erase_all_other:
  assumes "erases_blocks n holds" "b + m \<le> blocks n"
    and "q div pages_per_block n < b \<or> b + m \<le> q div pages_per_block n \<or> bad_block t (q div pages_per_block n)"
  shows "holds (erase_all (io n) (pages_per_block n) t c b m) q = holds c q"
  using assms(2,3)
proof (induction m arbitrary: b c)
  case (Suc m)
  then show ?case
    using assms(1) by (auto simp: erases_blocks_def)
qed simp

lemma erase_all_blank:
  assumes "erases_blocks n holds" "b + m \<le> blocks n" "\<forall>c page. \<not> snd (io_erase (io n) c page)"
    and "b \<le> q div pages_per_block n" "q div pages_per_block n < b + m" "\<not> bad_block t (q div pages_per_block n)"
  shows "holds (erase_all (io n) (pages_per_block n) t c b m) q = blank_page n"
  using assms(2,4,5)
proof (induction m arbitrary: b c)
  case (Suc m)
  show ?case
  proof (cases "q div pages_per_block n = b")
    case True
    then have "holds (fst (io_erase (io n) c (b * pages_per_block n))) q = blank_page n"
      using assms(1,3) Suc.prems(1) by (simp add: erases_blocks_def)
    then show ?thesis
      using erase_all_other [OF assms(1), of "b + 1" m q t] Suc.prems(1) True assms(6) by simp
  qed (use Suc in simp)
qed simp

text \<open>
  C28: \<open>nand_erase_opts\<close> erases the good blocks of its range and leaves bad ones and the rest of the
  chip alone; a block whose erase command fails keeps its contents, and the result is 0 all the same.
\<close>

theorem erase_range:
  assumes "nand_ok n" "table_ok n t" "b + m \<le> blocks n" "\<forall>c. \<not> io_protected (io n) c"
    and "\<not> opt_scrub opts" "\<not> opt_jffs2 opts" "opt_offset opts = b * erasesize n"
    and "m = (max (opt_length opts) (erasesize n) + erasesize n - 1) div erasesize n" "erases_blocks n holds"
  shows "\<exists>n'. nand_erase_opts opts n = Some (0, n') \<and>
    (\<forall>q. q div pages_per_block n < b \<or> b + m \<le> q div pages_per_block n \<or> bad_block t (q div pages_per_block n) \<longrightarrow>
      holds (chip n') q = holds (chip n) q) \<and>
    ((\<forall>c page. \<not> snd (io_erase (io n) c page)) \<longrightarrow>
      (\<forall>q. b \<le> q div pages_per_block n \<and> q div pages_per_block n < b + m \<and> \<not> bad_block t (q div pages_per_block n) \<longrightarrow>
        holds (chip n') q = blank_page n)) \<and>
    ((\<forall>c page. snd (io_erase (io n) c page)) \<longrightarrow> (\<forall>q. holds (chip n') q = holds (chip n) q))"
proof -
  obtain n' where n': "nand_erase_opts opts n = Some (0, n')"
    "chip n' = erase_all (io n) (pages_per_block n) t (chip n) b m"
    using nand_erase_opts_blocks [OF assms(1-8)] by blast
  have "holds (erase_all (io n) (pages_per_block n) t c b m) q = holds c q"
    if "\<forall>c page. snd (io_erase (io n) c page)" for q c
    using assms(3)
  proof (induction m arbitrary: b c)
    case (Suc m)
    then show ?case
      using assms(9) that by (simp add: erases_blocks_def)
  qed simp
  then show ?thesis
    using n' erase_all_other [OF assms(9,3)] erase_all_blank [OF assms(9,3)] by simp
qed

definition sample_used :: "(nat \<Rightarrow> u8 list) nand" where
  "sample_used = sample_nand\<lparr>chip := \<lambda>_. replicate 264 0\<rparr>"

lemma sample_used_sizes:
  "nand_ok sample_used" "table_ok sample_used [0x0c]" "io sample_used = sample_io" "blocks sample_used = 4"
  "pages_per_block sample_used = 2" "erasesize sample_used = 512" "chip sample_used = (\<lambda>_. replicate 264 0)"
  "blank_page sample_used = replicate 264 0xff"
  by (simp_all add: sample_used_def sample_nand_def nand_ok_def table_ok_def blocks_def pages_per_block_def
      erasesize_def writesize_def blank_page_def)

lemma sample_erases: "erases_blocks sample_used (\<lambda>c. c)"
proof -
  have "b * 2 \<le> q \<and> q < b * 2 + 2 \<longleftrightarrow> q div 2 = b" for b q :: nat by auto
  then show ?thesis
    by (simp add: erases_blocks_def sample_used_sizes) (simp add: sample_io_def)
qed

theorem erase_range_witness:
  "\<exists>n'. nand_erase_opts \<lparr>opt_length = 1000, opt_offset = 0, opt_jffs2 = False, opt_scrub = False\<rparr> sample_used = Some (0, n') \<and>
     chip n' 0 = replicate 264 0xff \<and> chip n' 2 = replicate 264 0 \<and> chip n' 7 = replicate 264 0"
proof -
  let ?opts = "\<lparr>opt_length = 1000, opt_offset = 0, opt_jffs2 = False, opt_scrub = False\<rparr>"
  have bad: "bad_block [0x0c] 1" "\<not> bad_block [0x0c] 0"
    by (simp_all add: bad_block_def)
  have notFalse: "\<not> False" by simp
  have io: "\<forall>c. \<not> io_protected sample_io c" "\<forall>c page. \<not> snd (io_erase sample_io c page)"
    by (simp_all add: sample_io_def)
  have pre: "0 + 2 \<le> (4 :: nat)" "(0 :: nat) = 0 * 512" "(2 :: nat) = (max 1000 512 + 512 - 1) div 512"
    by simp_all
  obtain n' where n': "nand_erase_opts ?opts sample_used = Some (0, n')"
    "\<forall>q. q div 2 < 0 \<or> 0 + 2 \<le> q div 2 \<or> bad_block [0x0c] (q div 2) \<longrightarrow> chip n' q = replicate 264 0"
    "\<forall>q. 0 \<le> q div 2 \<and> q div 2 < 0 + 2 \<and> \<not> bad_block [0x0c] (q div 2) \<longrightarrow> chip n' q = replicate 264 0xff"
    using erase_range [of sample_used "[0x0c]" 0 2 ?opts "\<lambda>c. c", unfolded sample_used_sizes nand_erase_options.simps,
        OF sample_used_sizes(1,2) pre(1) io(1) notFalse notFalse pre(2,3) sample_erases] io(2)
    by (elim exE conjE) (erule that; simp)
  show ?thesis
    using n'(1) n'(2) [rule_format, of 2] n'(2) [rule_format, of 7] n'(3) [rule_format, of 0] bad by auto
qed

section \<open>The table and the markers\<close>

lemma and_6: "2 * b AND 6 = 2 * (b mod 4 :: nat)"
proof -
  have "2 * b AND 6 = 2 * (b AND 3)"
    by (subst and_nat_rec) simp
  also have "b AND 3 = b mod 4"
    using take_bit_eq_mask [of 2 b] by (simp add: mask_eq_exp_minus_1 take_bit_eq_mod)
  finally show ?thesis .
qed

text \<open>The two bits of a block.\<close>

definition bbt_slot :: "u8 list \<Rightarrow> nat \<Rightarrow> u8" where
  "bbt_slot t b = drop_bit (2 * (b mod 4)) (t ! (b div 4)) AND 3"

lemma bad_block_slot: "bad_block t b \<longleftrightarrow> bbt_slot t b \<noteq> 0"
proof -
  have "2 * b div 8 = b div 4" by simp
  then show ?thesis unfolding bad_block_def bbt_slot_def and_6 by simp
qed

lemma slot_bits:
  fixes x :: u8
  assumes "i < 4" "j < 4" "m \<in> {1, 3}"
  shows "drop_bit (2 * i) (x OR push_bit (2 * j) m) AND 3 =
    (if i = j then (drop_bit (2 * i) x OR m) AND 3 else drop_bit (2 * i) x AND 3)"
proof -
  have "i \<in> {0, 1, 2, 3}" "j \<in> {0, 1, 2, 3}" using assms by auto
  then show ?thesis
    using assms(3) by (elim insertE emptyE; simp add: u8_eq_bits bit_simps)
qed

lemma bbt_slot_mark:
  assumes "b div 4 < length t" "m \<in> {1, 3}"
  shows "bbt_slot (t[b div 4 := t ! (b div 4) OR push_bit (2 * (b mod 4)) m]) b' =
    (if b' = b then (bbt_slot t b OR m) AND 3 else bbt_slot t b')"
proof -
  have eq: "b' = b \<longleftrightarrow> b' div 4 = b div 4 \<and> b' mod 4 = b mod 4"
    by (metis div_mult_mod_eq)
  have or: "(x OR m) AND 3 = (x AND 3 OR m) AND 3" for x :: u8
    by (rule bit_word_eqI) (auto simp: bit_simps)
  show ?thesis
    using slot_bits [of "b' mod 4" "b mod 4" m "t ! (b div 4)"] assms or
    by (auto simp: bbt_slot_def eq nth_list_update)
qed


text \<open>The spare area of a page as it reads, and whether a block carries a marker.\<close>

definition spare :: "'c nand \<Rightarrow> nat \<Rightarrow> u8 list" where
  "spare n page = take (oobsize n) (drop (writesize n) (io_read (io n) (chip n) page))"

definition full_pages :: "'c nand \<Rightarrow> bool" where
  "full_pages n \<longleftrightarrow> (\<forall>page. length (io_read (io n) (chip n) page) = writesize n + oobsize n)"

definition bbt_descr :: "'c nand \<Rightarrow> nand_bbt_descr" where
  "bbt_descr n = (if writesize n > 512 then largepage_memorybased else smallpage_memorybased)"

definition scanned_pages :: "'c nand \<Rightarrow> nat" where
  "scanned_pages n = (if bd_scan2nd (bbt_descr n) then 2 else 1)"

definition marked :: "'c nand \<Rightarrow> nat \<Rightarrow> bool" where
  "marked n b \<longleftrightarrow> (\<exists>j < scanned_pages n. check_short_pattern (spare n (b * pages_per_block n + j)) (bbt_descr n))"

lemma length_spare: "full_pages n \<Longrightarrow> length (spare n page) = oobsize n"
  by (simp add: full_pages_def spare_def)

lemma same_spare:
  assumes "device n' = device n" "chip n' = chip n"
  shows "spare n' = spare n" "full_pages n' = full_pages n" "bbt_descr n' = bbt_descr n"
    "scanned_pages n' = scanned_pages n" "marked n' = marked n" "pages n' = pages n" "blocks n' = blocks n"
    "pages_per_block n' = pages_per_block n"
  using assms(2) device_sizes [OF assms(1)]
  by (simp_all add: fun_eq_iff spare_def full_pages_def bbt_descr_def scanned_pages_def marked_def pages_def
      blocks_def pages_per_block_def)

lemma read_spare:
  assumes "nand_ok n" "full_pages n" "p < pages n"
  shows "nand_do_read_oob n (p * writesize n) MTD_OOB_PLACE 0 (oobsize n) =
    (0, spare n p, n\<lparr>oob_poi := overwrite (oob_poi n) 0 (spare n p)\<rparr>)"
proof -
  note sz = nand_ok_sizes [OF assms(1)]
  have pos: "0 < oobsize n" using assms(1) by (auto simp: nand_ok_def)
  have in_dev: "p * writesize n < msize n" using assms(3) sz(2,6) by simp
  have "1 * oobsize n \<le> (pages n - p) * oobsize n"
    using assms(3) by (intro mult_le_mono1) simp
  then have room: "\<not> oobsize n > (msize n div writesize n - p * writesize n div writesize n) * oobsize n"
    using sz(6,8) assms(3) by simp
  have cp: "chip_page n p = p" using assms(3) sz(8) by (simp add: chip_page_def)
  have "take (oobsize n) (overwrite (oob_poi n) 0 (spare n p)) = spare n p"
    using take_overwrite_0 [of "spare n p"] length_spare [OF assms(2)] by simp
  then have "read_oob_loop n MTD_OOB_PLACE 0 p (oobsize n) (oobsize n) =
      (spare n p, n\<lparr>oob_poi := overwrite (oob_poi n) 0 (spare n p)\<rparr>)"
    by (subst read_oob_loop.simps)
      (simp add: Let_def cp nand_read_oob_std_def spare_def [symmetric] nand_transfer_oob_def)
  then show ?thesis
    using pos in_dev room sz(6) by (simp add: nand_do_read_oob_def oob_len_def)
qed

lemma check_pattern_buffer:
  assumes "nand_ok n" "length sp = oobsize n"
  shows "check_short_pattern (overwrite buf 0 sp) (bbt_descr n) = check_short_pattern sp (bbt_descr n)"
proof -
  have "oobsize n \<ge> 8" using assms(1) by (auto simp: nand_ok_def)
  then have "bd_offs (bbt_descr n) + i < length sp" if "i < length (bd_pattern (bbt_descr n))" for i
    using that assms(2) by (auto simp: bbt_descr_def largepage_memorybased_def smallpage_memorybased_def split: if_splits)
  then show ?thesis
    unfolding check_short_pattern_def list_ex_iff by (auto simp: overwrite_def nth_append)
qed

text \<open>What scanning a page leaves behind: its spare area in both buffers.\<close>

definition after_scan :: "'c nand \<Rightarrow> nat \<Rightarrow> 'c nand" where
  "after_scan n p = n\<lparr>oob_poi := overwrite (oob_poi n) 0 (spare n p), databuf := overwrite (databuf n) 0 (spare n p)\<rparr>"

lemma after_scan_same:
  assumes "nand_ok n" "full_pages n"
  shows "quiet n (after_scan n p)" "bbt (after_scan n p) = bbt n" "nand_ok (after_scan n p)"
    "take (oobsize n) (databuf (after_scan n p)) = spare n p"
proof -
  show "quiet n (after_scan n p)" "bbt (after_scan n p) = bbt n"
    by (simp_all add: after_scan_def quiet_def device_def)
  have "oobsize n \<le> writesize n" "oobsize n \<le> length (oob_poi n)" "writesize n \<le> length (databuf n)"
    using assms(1) by (auto simp: nand_ok_def writesize_def)
  then show "nand_ok (after_scan n p)"
    using assms(1) length_spare [OF assms(2), of p]
    by (simp add: nand_ok_def after_scan_def length_overwrite writesize_def)
  show "take (oobsize n) (databuf (after_scan n p)) = spare n p"
    using take_overwrite_0 [of "spare n p" "databuf n"] length_spare [OF assms(2), of p]
    by (simp add: after_scan_def)
qed

lemma scan_one:
  assumes "nand_ok n" "full_pages n" "p < pages n"
  shows "scan_block_fast n (bbt_descr n) (p * writesize n) (Suc len) =
    (if check_short_pattern (spare n p) (bbt_descr n) then (1, after_scan n p)
     else scan_block_fast (after_scan n p) (bbt_descr n) ((p + 1) * writesize n) len)"
proof -
  let ?n = "n\<lparr>oob_poi := overwrite (oob_poi n) 0 (spare n p)\<rparr>"
  have eq: "?n\<lparr>databuf := overwrite (databuf ?n) 0 (spare n p)\<rparr> = after_scan n p"
    by (simp add: after_scan_def)
  have ws: "writesize (after_scan n p) = writesize n" by (simp add: writesize_def after_scan_def)
  have check: "check_short_pattern (databuf (after_scan n p)) (bbt_descr n) = check_short_pattern (spare n p) (bbt_descr n)"
    using check_pattern_buffer [OF assms(1) length_spare [OF assms(2)]] by (simp add: after_scan_def)
  have off: "p * writesize n + writesize n = (p + 1) * writesize n" by simp
  show ?thesis
    by (simp only: scan_block_fast.simps(2) read_spare [OF assms] prod.case Let_def eq ws check off simp_thms if_False)
qed

lemma scan_block:
  assumes "nand_ok n" "full_pages n" "b < blocks n" "1 < pages_per_block n"
  obtains n' j where "scan_block_fast n (bbt_descr n) (b * erasesize n) (if bd_scan2nd (bbt_descr n) then 2 else 1) =
      (if marked n b then 1 else 0, n')" "quiet n n'" "bbt n' = bbt n" "nand_ok n'"
    "j < 2" "take (oobsize n) (databuf n') = spare n (b * pages_per_block n + j)"
proof -
  note sz = nand_ok_sizes [OF assms(1)]
  let ?p = "b * pages_per_block n"
  have "Suc b * pages_per_block n \<le> pages n" unfolding sz(4) using assms(3) by (intro mult_le_mono1) simp
  then have p: "?p < pages n" "?p + 1 < pages n" using assms(4) by simp_all
  have off: "b * erasesize n = ?p * writesize n" using sz(1) by simp
  let ?m = "after_scan n ?p"
  note m = after_scan_same [OF assms(1,2), of ?p]
  have dev: "device ?m = device n" "chip ?m = chip n" using m(1) by (simp_all add: quiet_def)
  note sp = same_spare [OF dev]
  have ws: "writesize ?m = writesize n" by (rule device_sizes(10) [OF dev(1)])
  have m2: "full_pages ?m" "?p + 1 < pages ?m" using assms(2) p(2) sp by simp_all
  note one = scan_one [OF assms(1,2) p(1)] and two = scan_one [OF m(3) m2, unfolded sp ws]
  note m' = after_scan_same [OF m(3) m2(1), of "?p + 1", unfolded sp device_sizes(5) [OF dev(1)]]
  show thesis
  proof (cases "check_short_pattern (spare n ?p) (bbt_descr n)")
    case True
    then have "marked n b"
      by (auto simp: marked_def scanned_pages_def intro!: exI [of _ 0])
    then show thesis
      using that [of ?m 0] m True one unfolding off by (simp add: numeral_2_eq_2 del: scan_block_fast.simps)
  next
    case False
    show thesis
    proof (cases "bd_scan2nd (bbt_descr n)")
      case True
      then have "marked n b \<longleftrightarrow> check_short_pattern (spare n (?p + 1)) (bbt_descr n)"
        using False by (auto simp: marked_def scanned_pages_def numeral_2_eq_2 less_Suc_eq)
      then show thesis
        using that [of "after_scan ?m (?p + 1)" 1] m(1,2) m' one two False True quiet_trans [OF m(1) m'(1)]
        unfolding off by (simp add: numeral_2_eq_2)
    next
      case second: False
      then have "\<not> marked n b"
        using False by (simp add: marked_def scanned_pages_def)
      then show thesis
        using that [of ?m 0] m one second False unfolding off by simp
    qed
  qed
qed


lemma create_bbt_marks:
  assumes "nand_ok n" "full_pages n" "1 < pages_per_block n" "bbt n = Some t" "length t = blocks n div 4"
    and "\<forall>b \<in> set bs. b < blocks n"
  shows "\<exists>n' t'. create_bbt (bbt_descr n) bs n = Some (0, n') \<and> quiet n n' \<and> nand_ok n' \<and> bbt n' = Some t' \<and>
    length t' = length t \<and> (\<forall>b. bbt_slot t' b = (if b \<in> set bs \<and> marked n b then 3 else bbt_slot t b)) \<and>
    (bs \<noteq> [] \<longrightarrow> (\<exists>j < 2. take (oobsize n) (databuf n') = spare n (last bs * pages_per_block n + j)))"
  using assms
proof (induction bs arbitrary: n t)
  case (Cons b bs)
  have b: "b < blocks n" using Cons.prems(6) by simp
  obtain m j where scan: "scan_block_fast n (bbt_descr n) (b * erasesize n) (if bd_scan2nd (bbt_descr n) then 2 else 1) =
      (if marked n b then 1 else 0, m)"
    and m: "quiet n m" "bbt m = bbt n" "nand_ok m" "j < 2" "take (oobsize n) (databuf m) = spare n (b * pages_per_block n + j)"
    using scan_block [OF Cons.prems(1,2) b Cons.prems(3)] by metis
  define t1 where "t1 = (if marked n b then t[b div 4 := t ! (b div 4) OR push_bit (2 * (b mod 4)) 3] else t)"
  define m1 where "m1 = (if marked n b then m\<lparr>bbt := Some t1, badblocks := badblocks m + 1\<rparr> else m)"
  have len: "b div 4 < length t"
    using b Cons.prems(5) nand_ok_sizes(11) [OF Cons.prems(1)] by (auto elim!: dvdE)
  have div8: "2 * b div 8 = b div 4" by simp
  have mark: "bbt_mark m (2 * b div 8) (push_bit (2 * b AND 6) 3) = Some (m\<lparr>bbt := Some (t[b div 4 := t ! (b div 4) OR push_bit (2 * (b mod 4)) 3])\<rparr>)"
    unfolding div8 and_6 using m(2) Cons.prems(4) len by (simp add: bbt_mark_def)
  have body: "create_bbt (bbt_descr n) (b # bs) n = create_bbt (bbt_descr n) bs m1"
    unfolding create_bbt.simps scan prod.case Let_def mark option.case m1_def t1_def by simp
  have m1: "quiet n m1" "nand_ok m1" "bbt m1 = Some t1" "databuf m1 = databuf m"
    using m Cons.prems(4) by (auto simp: m1_def t1_def quiet_def device_def nand_ok_def writesize_def)
  have dev: "device m1 = device n" "chip m1 = chip n" using m1(1) by (simp_all add: quiet_def)
  note sp = same_spare [OF dev]
  have "length t1 = length t" by (simp add: t1_def)
  then have pre: "full_pages m1" "1 < pages_per_block m1" "length t1 = blocks m1 div 4" "\<forall>b \<in> set bs. b < blocks m1"
    using Cons.prems(2,3,5,6) sp by simp_all
  obtain n' t' where rest: "create_bbt (bbt_descr m1) bs m1 = Some (0, n')" "quiet m1 n'" "nand_ok n'" "bbt n' = Some t'"
    "length t' = length t1" "\<forall>b. bbt_slot t' b = (if b \<in> set bs \<and> marked m1 b then 3 else bbt_slot t1 b)"
    "bs \<noteq> [] \<longrightarrow> (\<exists>j < 2. take (oobsize m1) (databuf n') = spare m1 (last bs * pages_per_block m1 + j))"
    using Cons.IH [OF m1(2) _ _ m1(3)] pre by blast
  have slot: "bbt_slot t1 b' = (if b' = b \<and> marked n b then 3 else bbt_slot t b')" for b'
  proof -
    have "(x OR 3) AND 3 = 3" for x :: u8
      by (rule bit_word_eqI) (auto simp: bit_simps)
    note or3 = this
    show ?thesis
    proof (cases "marked n b")
      case True
      then show ?thesis
        using bbt_slot_mark [OF len, of 3 b'] or3 by (simp only: t1_def) simp
    qed (simp add: t1_def)
  qed
  have last: "\<exists>j < 2. take (oobsize n) (databuf n') = spare n (last (b # bs) * pages_per_block n + j)"
  proof (cases "bs = []")
    case True
    then show ?thesis
      using rest(1) m(4,5) m1(4) sp(3) by auto
  next
    case False
    then show ?thesis
      using rest(7) sp device_sizes(5) [OF dev(1)] by simp
  qed
  have "\<forall>c. bbt_slot t' c = (if c \<in> set (b # bs) \<and> marked n c then 3 else bbt_slot t c)"
    using rest(6) slot sp(5) by auto
  then show ?case
    using body rest(1-5) sp(3) quiet_trans [OF m1(1) rest(2)] last \<open>length t1 = length t\<close> by auto
qed simp

lemma default_bbt_marks:
  assumes "nand_ok n" "full_pages n" "1 < pages_per_block n" "heap_ok n"
  obtains n' t j where "nand_default_bbt n = Some (0, n')" "quiet n n'" "nand_ok n'" "bbt n' = Some t"
    "length t = blocks n div 4" "\<forall>b < blocks n. bad_block t b \<longleftrightarrow> marked n b"
    "j < 2" "take (oobsize n) (databuf n') = spare n ((blocks n - 1) * pages_per_block n + j)"
proof -
  note sz = nand_ok_sizes [OF assms(1)]
  let ?t = "replicate (blocks n div 4) 0 :: u8 list"
  let ?m = "n\<lparr>bbt := Some ?t\<rparr>"
  have dev: "device ?m = device n" "chip ?m = chip n" by (simp_all add: device_def)
  note sp = same_spare [OF dev]
  have "quiet n ?m" by (simp add: quiet_def device_def)
  have ok: "nand_ok ?m" using assms(1) by (simp add: nand_ok_def writesize_def)
  have pos: "0 < blocks n" by (simp add: blocks_def)
  obtain n' t where n': "create_bbt (bbt_descr ?m) [0..<blocks n] ?m = Some (0, n')" "quiet ?m n'" "nand_ok n'" "bbt n' = Some t"
    "length t = length ?t" "\<forall>b. bbt_slot t b = (if b \<in> set [0..<blocks n] \<and> marked ?m b then 3 else bbt_slot ?t b)"
    "\<exists>j < 2. take (oobsize ?m) (databuf n') = spare ?m (last [0..<blocks n] * pages_per_block ?m + j)"
    using create_bbt_marks [OF ok, of ?t "[0..<blocks n]"] assms(2,3) sp pos by auto
  have zero: "bbt_slot ?t b = 0" if "b < blocks n" for b
  proof -
    have "b div 4 < blocks n div 4" using that sz(11) by (auto elim!: dvdE)
    then show ?thesis by (simp add: bbt_slot_def)
  qed
  have "nand_default_bbt n = Some (0, n')"
    using n'(1) assms(4) sp(3) sz(9,10) by (simp add: nand_default_bbt_def nand_scan_bbt_def bbt_descr_def [symmetric])
  moreover have "quiet n n'" by (rule quiet_trans [OF \<open>quiet n ?m\<close> n'(2)])
  moreover have "\<forall>b < blocks n. bad_block t b \<longleftrightarrow> marked n b"
    using n'(6) zero sp(5) by (simp add: bad_block_slot)
  ultimately show thesis
    using that n'(3-5,7) sp pos device_sizes(5) [OF dev(1)] by (auto simp: last_upt)
qed

text \<open>
  C29: the table in memory says what the chip says. Scanning the chip makes a table in which a block is
  bad exactly if the spare area of its first page, and on chips with small pages of its first two, is not
  blank where the marker goes; the chip and the statistics are left as they are. A query on a device
  that has not been scanned yet scans it first.
\<close>

theorem bbt_matches_markers:
  assumes "nand_ok n" "full_pages n" "1 < pages_per_block n" "heap_ok n" "\<not> bbt_scanned n" "b < blocks n"
  shows "\<exists>n' t r. nand_block_isbad n (b * erasesize n) = Some (r, n') \<and> (r \<noteq> 0 \<longleftrightarrow> marked n b) \<and>
    table_ok n' t \<and> (\<forall>b < blocks n. bad_block t b \<longleftrightarrow> marked n b) \<and> chip n' = chip n \<and>
    nand_block_isbad n' (b * erasesize n) = Some (r, n')"
proof -
  let ?m = "n\<lparr>bbt_scanned := True\<rparr>"
  have dev: "device ?m = device n" "chip ?m = chip n" by (simp_all add: device_def)
  note sp = same_spare [OF dev]
  have ok: "nand_ok ?m" using assms(1) by (simp add: nand_ok_def writesize_def)
  obtain n' t where n': "nand_default_bbt ?m = Some (0, n')" "quiet ?m n'" "nand_ok n'" "bbt n' = Some t"
    "length t = blocks ?m div 4" "\<forall>b < blocks ?m. bad_block t b \<longleftrightarrow> marked ?m b"
    by (rule default_bbt_marks [OF ok]) (use assms(2-4) sp in simp_all)
  have dev': "device n' = device n" "chip n' = chip n"
    using n'(2) dev by (simp_all add: quiet_def)
  have scanned: "bbt_scanned n'"
    using n'(1) by (auto simp: nand_default_bbt_def nand_scan_bbt_def split: if_splits option.splits dest!: create_bbt_quiet)
  have table: "table_ok n' t"
    using n'(4,5) scanned sp same_spare(7) [OF dev'] by (simp add: table_ok_def)
  have es: "erasesize n' = erasesize n" "msize n' = msize n" by (rule device_sizes(11,12) [OF dev'(1)])+
  have b': "b < blocks n'" using assms(6) same_spare(7) [OF dev'] by simp
  obtain r where r: "nand_block_isbad n' (b * erasesize n') = Some (r, n')" "r \<noteq> 0 \<longleftrightarrow> bad_block t b"
    using isbad_table(1) [OF n'(3) table b'] by blast
  have fits: "b * erasesize n \<le> msize n"
    using assms(6) nand_ok_sizes(3) [OF assms(1)] by simp
  have "nand_block_isbad n (b * erasesize n) = nand_block_isbad n' (b * erasesize n')"
    unfolding es nand_block_isbad_def nand_block_checkbad_def using assms(5) n'(1) scanned fits by simp
  then show ?thesis
    using r es n'(6) table sp assms(6) dev'(2) by (metis)
qed


definition sample_marked :: "(nat \<Rightarrow> u8 list) nand" where
  "sample_marked = sample_nand\<lparr>bbt := None, bbt_scanned := False,
     chip := (\<lambda>_. replicate 264 0xff)(3 := (replicate 264 0xff)[261 := 0])\<rparr>"

lemma sample_marked_sizes:
  "nand_ok sample_marked" "io sample_marked = sample_io" "blocks sample_marked = 4" "writesize sample_marked = 256"
  "pages_per_block sample_marked = 2" "erasesize sample_marked = 512" "oobsize sample_marked = 8"
  "chip sample_marked = (\<lambda>_. replicate 264 0xff)(3 := (replicate 264 0xff)[261 := 0])"
  "heap_ok sample_marked" "\<not> bbt_scanned sample_marked"
  by (simp_all add: sample_marked_def sample_nand_def nand_ok_def blocks_def pages_per_block_def
      erasesize_def writesize_def)

lemma sample_marked_pages: "full_pages sample_marked"
  by (simp add: full_pages_def sample_marked_sizes) (simp add: sample_io_def flip_at_def)

lemma sample_marker: "marked sample_marked 1" "\<not> marked sample_marked 0"
proof -
  have spare: "spare sample_marked q = (if q = 3 then [0xff, 0xff, 0xff, 0xff, 0xff, 0, 0xff, 0xff] else replicate 8 0xff)" for q
    by (simp add: spare_def sample_marked_sizes sample_io_def flip_at_def drop_update_swap)
      (simp add: numeral_eq_Suc)
  have descr: "bbt_descr sample_marked = smallpage_memorybased" "scanned_pages sample_marked = 2"
    by (simp_all add: bbt_descr_def scanned_pages_def sample_marked_sizes smallpage_memorybased_def)
  show "marked sample_marked 1"
    unfolding marked_def descr sample_marked_sizes
    by (rule exI [of _ 1]) (simp add: spare check_short_pattern_def smallpage_memorybased_def)
  show "\<not> marked sample_marked 0"
    by (auto simp: marked_def descr sample_marked_sizes spare check_short_pattern_def smallpage_memorybased_def less_2_cases_iff)
qed

theorem bbt_matches_markers_witness:
  "\<exists>n' r. nand_block_isbad sample_marked 512 = Some (r, n') \<and> r \<noteq> 0"
  using bbt_matches_markers [of sample_marked 1] sample_marked_sizes sample_marked_pages sample_marker(1) by auto


section \<open>Marking a block bad\<close>

lemma take_overwrite_within:
  "i + length bs \<le> k \<Longrightarrow> k \<le> length p \<Longrightarrow> take k (overwrite p i bs) = overwrite (take k p) i bs"
  by (simp add: overwrite_def drop_take min_absorb1)

text \<open>Programming spare bytes can only clear bits of that page's spare area.\<close>

definition programs_spare :: "'c nand \<Rightarrow> bool" where
  "programs_spare n \<longleftrightarrow> (\<forall>c q bytes. length bytes = oobsize n \<longrightarrow>
     \<not> snd (io_program (io n) c q (writesize n) bytes) \<longrightarrow>
     take (oobsize n) (drop (writesize n) (io_read (io n) (fst (io_program (io n) c q (writesize n) bytes)) q)) =
       map2 (AND) (take (oobsize n) (drop (writesize n) (io_read (io n) c q))) bytes \<and>
     (\<forall>q'. q' \<noteq> q \<longrightarrow> io_read (io n) (fst (io_program (io n) c q (writesize n) bytes)) q' = io_read (io n) c q'))"

text \<open>The spare bytes that marking a block programs.\<close>

definition marker_bytes :: "'c nand \<Rightarrow> u8 list" where
  "marker_bytes n =
     (let offs = 2 * (badblockpos n div 2)
      in overwrite (replicate (oobsize n) 0xff)
           (if ops_mode n = MTD_OOB_AUTO then fst (hd (oobfree (layout n))) + offs else offs) [0, 0])"

definition std_marker_pos :: "'c nand \<Rightarrow> bool" where
  "std_marker_pos n \<longleftrightarrow> page_shift n > 8 \<and> badblockpos n = (if page_shift n > 9 then 0 else 5)"

lemma marker_oob:
  assumes "nand_ok n" "std_marker_pos n"
    and same: "oob_poi k = oob_poi n" "oobsize k = oobsize n" "layout k = layout n"
  defines "offs \<equiv> 2 * (badblockpos n div 2)"
  shows "take (oobsize n) (oob_poi (snd (nand_fill_oob (fill_ff k) (ops_mode n) offs 2 [0, 0]))) = marker_bytes n"
    and "offs + 2 \<le> oob_len n (ops_mode n)" "offs < oob_len n (ops_mode n)"
proof -
  have len: "oobsize n \<le> length (oob_poi n)" using assms(1) by (simp add: nand_ok_def)
  let ?ff = "replicate (oobsize n) (0xff :: u8)"
  have ff: "take (oobsize n) (oob_poi (fill_ff k)) = ?ff" "oobsize n \<le> length (oob_poi (fill_ff k))"
    using same len take_overwrite_0 [of ?ff "oob_poi n"] by (simp_all add: fill_ff_def length_overwrite)
  have cases: "page_shift n = 9 \<and> oobsize n = 16 \<and> layout n = nand_oob_16 \<and> offs = 4 \<or>
      page_shift n = 11 \<and> oobsize n = 64 \<and> layout n = nand_oob_64 \<and> offs = 0 \<or>
      page_shift n = 12 \<and> oobsize n = 128 \<and> layout n = nand_oob_128 \<and> offs = 0"
    using assms(1,2) by (auto simp: nand_ok_def std_marker_pos_def offs_def)
  show "offs + 2 \<le> oob_len n (ops_mode n)" "offs < oob_len n (ops_mode n)"
    using cases by (auto simp: oob_len_def oobavail_def nand_oob_16_def nand_oob_64_def nand_oob_128_def)
  have lay: "layout (fill_ff k) = layout n" using same(3) by (simp add: fill_ff_def)
  define at where "at = (if ops_mode n = MTD_OOB_AUTO then fst (hd (oobfree (layout n))) + offs else offs)"
  have at: "at + length [0, 0 :: u8] \<le> oobsize n"
    using cases by (auto simp: at_def nand_oob_16_def nand_oob_64_def nand_oob_128_def)
  have "oob_poi (snd (nand_fill_oob (fill_ff k) (ops_mode n) offs 2 [0, 0])) = overwrite (oob_poi (fill_ff k)) at [0, 0]"
  proof (cases "ops_mode n")
    case MTD_OOB_AUTO
    then show ?thesis
      using cases lay by (auto simp: nand_fill_oob_def at_def nand_oob_16_def nand_oob_64_def nand_oob_128_def Let_def)
  qed (simp_all add: nand_fill_oob_def at_def)
  then have "take (oobsize n) (oob_poi (snd (nand_fill_oob (fill_ff k) (ops_mode n) offs 2 [0, 0]))) = overwrite ?ff at [0, 0]"
    using take_overwrite_within [OF at ff(2)] ff(1) by simp
  then show "take (oobsize n) (oob_poi (snd (nand_fill_oob (fill_ff k) (ops_mode n) offs 2 [0, 0]))) = marker_bytes n"
    by (simp add: marker_bytes_def at_def offs_def Let_def)
qed


lemma map2_and_blank: "length bytes = k \<Longrightarrow> map2 (AND) (replicate k (0xff :: u8)) bytes = bytes"
  by (rule map2_and_ff)

lemma marker_shows:
  assumes "nand_ok n" "std_marker_pos n"
  shows "check_short_pattern (marker_bytes n) (bbt_descr n) \<longleftrightarrow> ops_mode n \<noteq> MTD_OOB_AUTO"
    and "length (marker_bytes n) = oobsize n"
    and "\<not> check_short_pattern (replicate (oobsize n) 0xff) (bbt_descr n)"
proof -
  have cases: "page_shift n = 9 \<and> oobsize n = 16 \<and> layout n = nand_oob_16 \<and> badblockpos n = 5 \<or>
      page_shift n = 11 \<and> oobsize n = 64 \<and> layout n = nand_oob_64 \<and> badblockpos n = 0 \<or>
      page_shift n = 12 \<and> oobsize n = 128 \<and> layout n = nand_oob_128 \<and> badblockpos n = 0"
    using assms by (auto simp: nand_ok_def std_marker_pos_def)
  note defs = marker_bytes_def bbt_descr_def writesize_def check_short_pattern_def smallpage_memorybased_def
    largepage_memorybased_def nand_oob_16_def nand_oob_64_def nand_oob_128_def overwrite_def Let_def nth_append
  show "check_short_pattern (marker_bytes n) (bbt_descr n) \<longleftrightarrow> ops_mode n \<noteq> MTD_OOB_AUTO"
    using cases by (elim disjE conjE) (simp_all add: defs upt_rec nth_Cons')
  show "length (marker_bytes n) = oobsize n"
    using cases by (elim disjE conjE) (simp_all add: defs)
  show "\<not> check_short_pattern (replicate (oobsize n) 0xff) (bbt_descr n)"
    using cases by (elim disjE conjE) (simp_all add: defs upt_rec nth_Cons')
qed

lemma markbad_effect:
  assumes "nand_ok n" "table_ok n t" "b < blocks n" "std_marker_pos n" "\<not> io_protected (io n) (chip n)" "\<not> bad_block t b"
    and "\<not> snd (io_program (io n) (chip n) (b * pages_per_block n) (writesize n) (marker_bytes n))"
  obtains n' where "nand_block_markbad n (b * erasesize n) = Some (0, n')" "device n' = device n" "bbt_scanned n'"
    "chip n' = fst (io_program (io n) (chip n) (b * pages_per_block n) (writesize n) (marker_bytes n))"
    "bbt n' = Some (t[b div 4 := t ! (b div 4) OR push_bit (2 * (b mod 4)) 1])"
proof -
  note sz = nand_ok_sizes [OF assms(1)]
  define offs where "offs = 2 * (badblockpos n div 2)"
  define t1 where "t1 = t[b div 4 := t ! (b div 4) OR push_bit (2 * (b mod 4)) 1]"
  define m where "m = n\<lparr>bbt := Some t1, ops_ooboffs := offs\<rparr>"
  have dev: "device m = device n" and m: "chip m = chip n" "oob_poi m = oob_poi n" "ops_mode m = ops_mode n" "bbt m = Some t1"
    by (simp_all add: m_def device_def)
  note mz = device_sizes [OF dev]
  let ?p = "b * pages_per_block n"
  have p: "?p < pages n" unfolding sz(4) using assms(3) sz(5) by simp
  have lt: "oobsize n < writesize n" "0 < oobsize n" using assms(1) by (auto simp: nand_ok_def writesize_def)
  have page: "(b * erasesize n + oobsize n) div writesize n = ?p"
    using lt sz(1,6) by (metis add.commute div_less div_mult_self1 less_not_refl2 mult.assoc add_0_right)
  have "?p * writesize n + writesize n \<le> msize n"
    unfolding sz(2) using mult_le_mono1 [of "Suc ?p" "pages n" "writesize n"] p by simp
  then have inside: "b * erasesize n + oobsize n < msize n"
    using lt sz(1) by simp
  note oob = marker_oob(2,3) [OF assms(1,4) refl refl refl, folded offs_def]
  have "1 * oob_len n (ops_mode n) \<le> (pages n - ?p) * oob_len n (ops_mode n)"
    using p by (intro mult_le_mono1) linarith
  from le_trans [OF oob(1) this [unfolded mult_1]]
  have room: "offs + 2 \<le> (msize n div writesize n - ?p) * oob_len n (ops_mode n)"
    by (simp only: sz(8))
  have olen: "oob_len m (ops_mode n) = oob_len n (ops_mode n)"
    using mz(5,14) by (simp add: oob_len_def)
  define k where "k = (if pagebuf m = Some ?p then m\<lparr>pagebuf := None\<rparr> else m)"
  have k: "device k = device n" "chip k = chip n" "oob_poi k = oob_poi n" "bbt k = Some t1" "bbt_scanned k = bbt_scanned n"
    using dev m by (auto simp: k_def device_def m_def)
  note kz = device_sizes [OF k(1)]
  define f where "f = snd (nand_fill_oob (fill_ff k) (ops_mode n) offs 2 [0, 0])"
  have f: "device f = device n" "chip f = chip n" "bbt f = Some t1" "bbt_scanned f = bbt_scanned n"
    using k nand_fill_oob_steady [of "fill_ff k" "ops_mode n" offs 2 "[0, 0]"]
    by (auto simp: f_def steady_def fill_ff_def device_def nand_fill_oob_def Let_def split: prod.splits)
  note fz = device_sizes [OF f(1)]
  have bytes: "take (oobsize n) (oob_poi f) = marker_bytes n"
    unfolding f_def offs_def by (rule marker_oob(1) [OF assms(1,4) k(3) kz(5,6)])
  have cp: "chip_page n ?p = ?p" using p sz(8) by (simp add: chip_page_def)
  obtain c where c: "io_program (io n) (chip n) ?p (writesize n) (marker_bytes n) = (c, False)"
    using assms(7) by (metis (full_types) prod.collapse)
  define g where "g = fill_ff (f\<lparr>chip := c\<rparr>)"
  have "nand_do_write_oob m (b * erasesize n + oobsize n) (ops_mode n) offs [0, 0] = (0, g)"
    using oob olen inside room assms(5) mz m page c bytes fz cp f(2) kz
    by (simp add: nand_do_write_oob_def Let_def k_def [symmetric] numeral_2_eq_2 [symmetric] f_def [symmetric]
        nand_write_oob_std_def g_def)
  moreover have "nand_block_isbad n (b * erasesize n) = Some (0, n)"
    using isbad_table(1) [OF assms(1,2,3)] assms(6) by auto
  moreover have "bbt_mark n (b div 4) (push_bit (push_bit 1 (b AND 3)) 1) = Some (n\<lparr>bbt := Some t1\<rparr>)"
  proof -
    have "b div 4 < length t"
      using assms(2,3) sz(11) by (auto simp: table_ok_def elim!: dvdE)
    moreover have "b AND 3 = b mod 4"
      using take_bit_eq_mask [of 2 b] by (simp add: mask_eq_exp_minus_1 take_bit_eq_mod)
    ultimately show ?thesis
      using assms(2) by (simp add: bbt_mark_def table_ok_def t1_def push_bit_eq_mult mult.commute)
  qed
  moreover have "b * erasesize n div erasesize n = b" "bbt n = Some t"
    using sz(7) assms(2) by (simp_all add: table_ok_def)
  ultimately have "nand_block_markbad n (b * erasesize n) = Some (0, g\<lparr>badblocks := badblocks g + 1\<rparr>)"
    by (simp add: nand_block_markbad_def nand_default_block_markbad_def Let_def offs_def [symmetric] m_def)
  moreover have "device (g\<lparr>badblocks := badblocks g + 1\<rparr>) = device n"
    using f(1) by (simp add: g_def fill_ff_def device_def)
  ultimately show thesis
    using that c f assms(2) unfolding t1_def [symmetric] by (simp add: g_def fill_ff_def table_ok_def)
qed

text \<open>
  C30: marking a block bad. The table in memory then counts the block, and only it, as bad. But whether
  the marker that will be found at the next start is really on the chip depends on what was done before:
  \<open>nand_default_block_markbad\<close> writes with the mode the last operation on the spare area left behind, and
  after a format for JFFS2 the two zero bytes go into the free spare bytes, where no scan looks.
\<close>

theorem markbad_lasts:
  assumes "nand_ok n" "table_ok n t" "full_pages n" "b < blocks n" "std_marker_pos n"
    and "\<not> io_protected (io n) (chip n)" "\<not> bad_block t b" "programs_spare n"
    and "\<not> snd (io_program (io n) (chip n) (b * pages_per_block n) (writesize n) (marker_bytes n))"
    and "\<forall>j < 2. spare n (b * pages_per_block n + j) = replicate (oobsize n) 0xff"
  shows "\<exists>n' t'. nand_block_markbad n (b * erasesize n) = Some (0, n') \<and> table_ok n' t' \<and>
    (\<forall>c. bad_block t' c \<longleftrightarrow> c = b \<or> bad_block t c) \<and> (marked n' b \<longleftrightarrow> ops_mode n \<noteq> MTD_OOB_AUTO)"
proof -
  let ?p = "b * pages_per_block n" and ?t = "t[b div 4 := t ! (b div 4) OR push_bit (2 * (b mod 4)) 1]"
  obtain n' where n': "nand_block_markbad n (b * erasesize n) = Some (0, n')" "device n' = device n" "bbt_scanned n'"
    "chip n' = fst (io_program (io n) (chip n) ?p (writesize n) (marker_bytes n))" "bbt n' = Some ?t"
    using markbad_effect [OF assms(1,2,4,5,6,7,9)] by metis
  note nz = device_sizes [OF n'(2)]
  note shows' = marker_shows [OF assms(1,5)]
  have blocks: "blocks n' = blocks n" "pages_per_block n' = pages_per_block n"
    using nz(2-4) by (simp_all add: blocks_def pages_per_block_def)
  have table: "table_ok n' ?t"
    using assms(2) n'(3,5) blocks by (simp add: table_ok_def)
  have len: "b div 4 < length t"
    using assms(2,4) nand_ok_sizes(11) [OF assms(1)] by (auto simp: table_ok_def elim!: dvdE)
  have or1: "(bbt_slot t b OR 1) AND 3 \<noteq> 0"
  proof
    assume "(bbt_slot t b OR 1) AND 3 = 0"
    then have "bit ((bbt_slot t b OR 1) AND 3) 0 = bit (0 :: u8) 0" by simp
    then show False by (simp add: bit_simps)
  qed
  have bad: "bad_block ?t c \<longleftrightarrow> c = b \<or> bad_block t c" for c
    using bbt_slot_mark [OF len, of 1 c] or1 by (simp add: bad_block_slot)
  have law: "spare n' ?p = marker_bytes n" "\<forall>q. q \<noteq> ?p \<longrightarrow> spare n' q = spare n q"
    using assms(8,9) assms(10) [rule_format, of 0] shows'(2) nz n'(4) map2_and_blank [OF shows'(2)]
    unfolding programs_spare_def spare_def by (metis add_0_right zero_less_numeral, metis)
  have descr: "bbt_descr n' = bbt_descr n" "scanned_pages n' = scanned_pages n"
    using nz(10) by (simp_all add: bbt_descr_def scanned_pages_def)
  have second: "check_short_pattern (spare n' (?p + 1)) (bbt_descr n) = False"
    using law(2) [rule_format, of "?p + 1"] assms(10) [rule_format, of 1] shows'(3) by simp
  have "marked n' b \<longleftrightarrow> check_short_pattern (spare n' ?p) (bbt_descr n)"
    unfolding marked_def descr blocks using second
    by (auto simp: scanned_pages_def less_2_cases_iff split: if_splits)
  then show ?thesis
    using n'(1) table bad law(1) shows'(1) by auto
qed

text \<open>A chip of four blocks of two 512 byte pages, after an operation that left the free spare bytes selected.\<close>

definition sample_formatted :: "(nat \<Rightarrow> u8 list) nand" where
  "sample_formatted = sample_nand\<lparr>io := sample_io\<lparr>io_read := \<lambda>c. c\<rparr>, chip := \<lambda>_. replicate 528 0xff, page_shift := 9,
     erase_shift := 10, chip_shift := 12, oobsize := 16, layout := nand_oob_16, databuf := replicate 512 0,
     oob_poi := replicate 16 0, ops_mode := MTD_OOB_AUTO\<rparr>"

lemma sample_formatted_sizes:
  "nand_ok sample_formatted" "table_ok sample_formatted [0x0c]" "blocks sample_formatted = 4"
  "pages_per_block sample_formatted = 2" "erasesize sample_formatted = 1024" "writesize sample_formatted = 512"
  "oobsize sample_formatted = 16" "io sample_formatted = sample_io\<lparr>io_read := \<lambda>c. c\<rparr>"
  "chip sample_formatted = (\<lambda>_. replicate 528 0xff)" "std_marker_pos sample_formatted"
  "ops_mode sample_formatted = MTD_OOB_AUTO"
  by (simp_all add: sample_formatted_def sample_nand_def nand_ok_def table_ok_def blocks_def pages_per_block_def
      erasesize_def writesize_def std_marker_pos_def)

lemma sample_formatted_pages:
  "full_pages sample_formatted" "programs_spare sample_formatted"
  "spare sample_formatted q = replicate (oobsize sample_formatted) 0xff"
  by (simp_all add: full_pages_def programs_spare_def spare_def sample_formatted_sizes)
    (simp_all add: sample_io_def drop_zip take_zip drop_map take_map)

theorem markbad_lasts_witness:
  "\<exists>n' t'. nand_block_markbad sample_formatted 2048 = Some (0, n') \<and> table_ok n' t' \<and> bad_block t' 2 \<and> \<not> marked n' 2"
proof -
  have "\<not> bad_block [0x0c] 2" by (simp add: bad_block_def)
  moreover have "\<not> io_protected (io sample_formatted) (chip sample_formatted)"
    "\<not> snd (io_program (io sample_formatted) (chip sample_formatted) (2 * pages_per_block sample_formatted)
       (writesize sample_formatted) (marker_bytes sample_formatted))"
    by (simp_all add: sample_formatted_sizes sample_io_def)
  ultimately show ?thesis
    using markbad_lasts [of sample_formatted "[0x0c]" 2] sample_formatted_sizes sample_formatted_pages by auto
qed

end
