(* ===== verification/EnvNand_Correct.thy ===== *)
theory EnvNand_Correct
  imports EnvNand Nand_Blocks Environment_Correct
begin

text \<open>
  The environment across a restart: what \<open>saveenv\<close> leaves on the chip and what the next start makes
  of it, for a range of whole erase blocks.
\<close>

section \<open>The pages of a range of blocks\<close>

definition range_pages :: "'c nand \<Rightarrow> u8 list \<Rightarrow> nat \<Rightarrow> nat \<Rightarrow> nat list" where
  "range_pages n t b m =
     filter (\<lambda>q. \<not> bad_block t (q div pages_per_block n)) [b * pages_per_block n..<(b + m) * pages_per_block n]"

lemma range_pages_0 [simp]: "range_pages n t b 0 = []"
  by (simp add: range_pages_def)

lemma range_pages_Suc:
  assumes "nand_ok n"
  shows "range_pages n t b (Suc m) =
    (if bad_block t b then [] else [b * pages_per_block n..<b * pages_per_block n + pages_per_block n]) @
    range_pages n t (b + 1) m"
proof -
  let ?k = "pages_per_block n"
  have "[b * ?k..<(b + Suc m) * ?k] = [b * ?k..<b * ?k + ?k] @ [(b + 1) * ?k..<(b + 1 + m) * ?k]"
    using upt_add_eq_append [of "b * ?k" "b * ?k + ?k" "m * ?k"] by (simp add: algebra_simps)
  moreover have "q div ?k = b" if "q \<in> set [b * ?k..<b * ?k + ?k]" for q
    using that by (intro div_nat_eqI) (auto simp: mult.commute)
  then have "filter (\<lambda>q. \<not> bad_block t (q div ?k)) [b * ?k..<b * ?k + ?k] =
      (if bad_block t b then [] else [b * ?k..<b * ?k + ?k])"
    by (auto simp: filter_empty_conv intro!: filter_True)
  ultimately show ?thesis
    by (simp add: range_pages_def)
qed

lemma set_range_pages:
  assumes "nand_ok n"
  shows "q \<in> set (range_pages n t b m) \<longleftrightarrow>
    b \<le> q div pages_per_block n \<and> q div pages_per_block n < b + m \<and> \<not> bad_block t (q div pages_per_block n)"
  using nand_ok_sizes(5) [OF assms]
  by (auto simp: range_pages_def less_eq_div_iff_mult_less_eq div_less_iff_less_mult)

lemma range_pages_device: "device n' = device n \<Longrightarrow> range_pages n' = range_pages n"
  using device_sizes(2,3) [of n' n] by (simp add: fun_eq_iff range_pages_def pages_per_block_def)

lemma range_pages_good:
  assumes "\<forall>c. b \<le> c \<and> c < b + m \<longrightarrow> \<not> bad_block t c" "nand_ok n"
  shows "range_pages n t b m = [b * pages_per_block n..<(b + m) * pages_per_block n]"
  using assms nand_ok_sizes(5) [OF assms(2)]
  by (auto simp: range_pages_def less_eq_div_iff_mult_less_eq div_less_iff_less_mult intro!: filter_True)


section \<open>Writing\<close>

lemma block_page:
  assumes "nand_ok n" "b < blocks n"
  shows "b * erasesize n = b * pages_per_block n * writesize n"
    "b * pages_per_block n + pages_per_block n \<le> pages n"
    "i < pages_per_block n \<Longrightarrow> chip_page n (b * pages_per_block n + i) = b * pages_per_block n + i"
    "(b * pages_per_block n + pages_per_block n) * writesize n \<le> msize n"
proof -
  note sz = nand_ok_sizes [OF assms(1)]
  show "b * erasesize n = b * pages_per_block n * writesize n" using sz(1) by simp
  show le: "b * pages_per_block n + pages_per_block n \<le> pages n"
    using sz(4) mult_le_mono1 [of "Suc b" "blocks n" "pages_per_block n"] assms(2) by simp
  show "chip_page n (b * pages_per_block n + i) = b * pages_per_block n + i" if "i < pages_per_block n"
    using le sz(8) that by (simp add: chip_page_def)
  show "(b * pages_per_block n + pages_per_block n) * writesize n \<le> msize n"
    unfolding sz(2) by (rule mult_le_mono1 [OF le])
qed

lemma writeenv_loop_blocks:
  assumes "nand_ok n" "table_ok n t" "\<not> rw_oob n" "\<forall>c. \<not> io_protected (io n) c" "ops_mode n \<noteq> MTD_OOB_RAW"
    and "\<forall>c page bytes. \<not> snd (io_program (io n) c page 0 bytes)" "b + m \<le> blocks n"
    and "amount + length (range_pages n t b m) * writesize n \<le> length buf"
  shows "\<exists>n'. writeenv_loop n (b * erasesize n) ((b + m) * erasesize n) (erasesize n) amount buf =
      Some (if amount + length (range_pages n t b m) * writesize n = length buf then 0 else 1, n') \<and>
    program_all (io n) (chip n) (map2 (\<lambda>q dat. (q, page_image n dat)) (range_pages n t b m)
      (pages_of n (length (range_pages n t b m)) (drop amount buf))) = (chip n', True) \<and>
    written n n' \<and> pagebuf n' \<in> {pagebuf n, None} \<and> (\<forall>q \<in> set (range_pages n t b m). pagebuf n' \<noteq> Some q)"
  using assms
proof (induction m arbitrary: n b amount)
  case 0
  then show ?case by (subst writeenv_loop.simps) (simp add: written_def)
next
  case (Suc m)
  note ok = Suc.prems(1) and table = Suc.prems(2)
  note sz = nand_ok_sizes [OF ok]
  let ?k = "pages_per_block n" and ?w = "writesize n"
  have b: "b < blocks n" using Suc.prems(7) by simp
  note bp = block_page [OF ok b]
  obtain bad where isbad: "nand_block_isbad n (b * erasesize n) = Some (bad, n)" "bad \<noteq> 0 \<longleftrightarrow> bad_block t b"
    using isbad_table(1) [OF ok table b] by blast
  have inside: "b * erasesize n < (b + Suc m) * erasesize n" using sz(7) by (simp only: mult_less_cancel2) simp
  have fin: "(b + Suc m) * erasesize n = (b + 1 + m) * erasesize n" by simp
  have nxt: "b * erasesize n + erasesize n = (b + 1) * erasesize n" by simp
  note rp = range_pages_Suc [OF ok, of t b m]
  show ?case
  proof (cases "bad_block t b")
    case True
    have "writeenv_loop n (b * erasesize n) ((b + Suc m) * erasesize n) (erasesize n) amount buf =
        (if amount < length buf then writeenv_loop n ((b + 1) * erasesize n) ((b + 1 + m) * erasesize n) (erasesize n) amount buf
         else Some (0, n))"
      using isbad True inside Suc.prems(8)
      by (subst writeenv_loop.simps) (auto simp only: fin nxt option.case prod.case if_True if_False simp_thms split: if_splits)
    moreover have "range_pages n t (b + 1) m = []" if "\<not> amount < length buf"
      using that Suc.prems(8) sz(6) rp True by (cases "range_pages n t (Suc b) m") simp_all
    ultimately show ?thesis
      using Suc.IH [of n "b + 1" amount] Suc.prems rp True by (auto simp: written_def pages_of_def)
  next
    case False
    let ?rest = "range_pages n t (b + 1) m"
    have len: "length (range_pages n t b (Suc m)) = ?k + length ?rest" using rp False by simp
    have room: "amount + ?k * ?w + length ?rest * ?w \<le> length buf"
      using Suc.prems(8) len by (simp add: add_mult_distrib)
    then have more: "amount < length buf" using sz(5,6) by (metis add_gr_0 le_add1 less_add_same_cancel1 less_le_trans nat_0_less_mult_iff)
    define ps where "ps = map2 (\<lambda>q dat. (q, page_image n dat)) [b * ?k..<b * ?k + ?k] (pages_of n ?k (drop amount buf))"
    obtain c ok1 where first: "program_all (io n) (chip n) ps = (c, ok1)" by fastforce
    have ok1 using program_all_no_fail [OF Suc.prems(6), of "chip n" ps] first by simp
    have cp: "chip_page n q = q" if "q \<in> set [b * ?k..<b * ?k + ?k]" for q
      using bp(3) [of "q - b * ?k"] that by auto
    have ids: "map2 (\<lambda>i dat. (chip_page n i, page_image n dat)) [b * ?k..<b * ?k + ?k] (pages_of n ?k (drop amount buf)) = ps"
      unfolding ps_def using cp by (intro map_cong refl) (clarsimp simp del: set_upt dest!: set_zip_leftD)
    have le: "?k * ?w \<le> length (drop amount buf)" using room by simp
    obtain ret retlen n1 where wr: "nand_write n (b * ?k * ?w) (?k * ?w) (drop amount buf) = (ret, retlen, drop amount buf, n1)"
      and n1: "ret = 0 \<longleftrightarrow> ok1" "chip n1 = c" "written n n1" "\<forall>i<?k. pagebuf n1 \<noteq> Some (b * ?k + i)"
        "pagebuf n1 \<in> {pagebuf n, None}" "ops_mode n1 = MTD_OOB_PLACE"
      by (rule nand_write_pages [OF ok Suc.prems(3) Suc.prems(4) [rule_format] Suc.prems(5) sz(5) le bp(4) first [folded ids]])
    have retlen: "retlen = erasesize n" "ret = 0"
      using nand_write_steady(2) [OF wr] n1(1) \<open>ok1\<close> sz(1) by simp_all
    note dev = written_device [OF n1(3)]
    note mz = device_sizes [OF dev]
    have sizes: "blocks n1 = blocks n" "pages_per_block n1 = ?k"
      using mz(2-4) by (simp_all add: blocks_def pages_per_block_def)
    have step: "writeenv_loop n (b * erasesize n) ((b + Suc m) * erasesize n) (erasesize n) amount buf =
        writeenv_loop n1 ((b + 1) * erasesize n1) ((b + 1 + m) * erasesize n1) (erasesize n1) (amount + ?k * ?w) buf"
    proof -
      have "nand_write n (b * erasesize n) (erasesize n) (drop amount buf) = (0, erasesize n, drop amount buf, n1)"
        using wr retlen by (simp only: bp(1) sz(1) [symmetric])
      moreover have "bad = 0" using isbad(2) False by simp
      ultimately show ?thesis
        using isbad(1) inside more mz(11)
        by (subst writeenv_loop.simps) (simp only: fin nxt option.case prod.case simp_thms if_True if_False sz(1) [symmetric])
    qed
    have "table_ok n1 t"
      using table n1(3) table_ok_device [OF dev] by (simp add: written_def steady_def)
    then obtain n' where n': "writeenv_loop n1 ((b + 1) * erasesize n1) ((b + 1 + m) * erasesize n1) (erasesize n1) (amount + ?k * ?w) buf =
        Some (if amount + ?k * ?w + length ?rest * ?w = length buf then 0 else 1, n')"
      "program_all (io n) c (map2 (\<lambda>q dat. (q, page_image n dat)) ?rest (pages_of n (length ?rest) (drop (amount + ?k * ?w) buf))) = (chip n', True)"
      "written n1 n'" "pagebuf n' \<in> {pagebuf n1, None}" "\<forall>q \<in> set ?rest. pagebuf n' \<noteq> Some q"
      using Suc.IH [of n1 "b + 1" "amount + ?k * ?w"] n1 Suc.prems room sizes mz(1,10) range_pages_device [OF dev]
        same_device(1) [OF dev] pages_of_device [OF dev]
      by (auto simp: written_def steady_def)
    have whole: "range_pages n t b (Suc m) = [b * ?k..<b * ?k + ?k] @ ?rest" using rp False by simp
    have "program_all (io n) (chip n) (map2 (\<lambda>q dat. (q, page_image n dat)) (range_pages n t b (Suc m))
        (pages_of n (length (range_pages n t b (Suc m))) (drop amount buf))) = (chip n', True)"
      unfolding whole using first \<open>ok1\<close> n'(2)
      by (simp add: pages_of_add map2_append program_all_append ps_def add.commute)
    moreover have "pagebuf n' \<noteq> Some q" if "q \<in> set [b * ?k..<b * ?k + ?k]" for q
      using n1(4) [rule_format, of "q - b * ?k"] n'(4) that by auto
    then have "\<forall>q \<in> set (range_pages n t b (Suc m)). pagebuf n' \<noteq> Some q"
      using n'(5) unfolding whole set_append by blast
    moreover have "pagebuf n' \<in> {pagebuf n, None}" using n'(4) n1(5) by auto
    moreover have "amount + length (range_pages n t b (Suc m)) * ?w = amount + ?k * ?w + length ?rest * ?w"
      using len by (simp add: add_mult_distrib)
    ultimately show ?thesis
      using step n'(1) written_trans [OF n1(3) n'(3)] by simp
  qed
qed


section \<open>Reading\<close>

definition block_fixes :: "'c nand \<Rightarrow> nat \<Rightarrow> u32" where
  "block_fixes n b = (\<Sum>i<pages_per_block n. page_fixes n (b * pages_per_block n + i))"

lemma block_fixes_device: "device n' = device n \<Longrightarrow> chip n' = chip n \<Longrightarrow> block_fixes n' = block_fixes n"
  using device_sizes(2,3) [of n' n] same_device(5) [of n' n] by (simp add: fun_eq_iff block_fixes_def pages_per_block_def)

lemma length_concat_stored:
  "\<forall>i < length dats. stored n (f i) (dats ! i) \<Longrightarrow> length (concat dats) = length dats * writesize n"
proof -
  assume "\<forall>i < length dats. stored n (f i) (dats ! i)"
  then have "\<forall>d \<in> set dats. length d = writesize n"
    by (auto simp: stored_def in_set_conv_nth)
  then show ?thesis by (induction dats) simp_all
qed

lemma readenv_loop_blocks:
  assumes "nand_ok n" "table_ok n t" "b + m \<le> blocks n" "length dats = length (range_pages n t b m)"
    and "\<forall>i < length dats. stored n (range_pages n t b m ! i) (dats ! i)"
    and "\<forall>q \<in> set (range_pages n t b m). pagebuf n \<noteq> Some q"
    and "amount + length dats * writesize n \<le> length buf"
  shows "\<exists>ret buf' n'. readenv_loop n (b * erasesize n) ((b + m) * erasesize n) (erasesize n) amount buf = Some (ret, buf', n') \<and>
    length buf' = length buf \<and>
    (ret = 0 \<longleftrightarrow> amount + length dats * writesize n = length buf \<and>
       (\<forall>c. b \<le> c \<and> c < b + m \<and> \<not> bad_block t c \<longrightarrow> block_fixes n c = 0)) \<and>
    (ret = 0 \<longrightarrow> buf' = overwrite buf amount (concat dats))"
  using assms
proof (induction m arbitrary: n b amount dats buf)
  case 0
  then show ?case by (subst readenv_loop.simps) (auto simp: overwrite_def)
next
  case (Suc m)
  note ok = Suc.prems(1) and table = Suc.prems(2)
  note sz = nand_ok_sizes [OF ok]
  let ?k = "pages_per_block n" and ?w = "writesize n" and ?rest = "range_pages n t (b + 1) m"
  have b: "b < blocks n" using Suc.prems(3) by simp
  note bp = block_page [OF ok b]
  obtain bad where isbad: "nand_block_isbad n (b * erasesize n) = Some (bad, n)" "bad \<noteq> 0 \<longleftrightarrow> bad_block t b"
    using isbad_table(1) [OF ok table b] by blast
  have inside: "b * erasesize n < (b + Suc m) * erasesize n" using sz(7) by (simp only: mult_less_cancel2) simp
  have fin: "(b + Suc m) * erasesize n = (b + 1 + m) * erasesize n" by simp
  have nxt: "b * erasesize n + erasesize n = (b + 1) * erasesize n" by simp
  note rp = range_pages_Suc [OF ok, of t b m]
  have split: "(\<forall>c. b \<le> c \<and> c < b + Suc m \<and> \<not> bad_block t c \<longrightarrow> block_fixes n c = 0) \<longleftrightarrow>
      (\<not> bad_block t b \<longrightarrow> block_fixes n b = 0) \<and>
      (\<forall>c. b + 1 \<le> c \<and> c < b + 1 + m \<and> \<not> bad_block t c \<longrightarrow> block_fixes n c = 0)"
  proof -
    have "b \<le> c \<and> c < b + Suc m \<longleftrightarrow> c = b \<or> b + 1 \<le> c \<and> c < b + 1 + m" for c by auto
    then show ?thesis by metis
  qed
  show ?case
  proof (cases "amount < length buf")
    case False
    then have dats: "dats = []" "amount = length buf"
      using Suc.prems(7) sz(6) by (cases dats, simp_all)
    have bad: "bad_block t c" if "b \<le> c" "c < b + Suc m" for c
    proof (rule ccontr)
      assume "\<not> bad_block t c"
      then have "c * ?k \<in> set (range_pages n t b (Suc m))"
        using that sz(5) by (subst set_range_pages [OF ok]) simp
      then show False using dats Suc.prems(4) by simp
    qed
    then show ?thesis
      using False dats by (subst readenv_loop.simps) (auto simp: overwrite_def)
  next
    case more: True
    show ?thesis
    proof (cases "bad_block t b")
      case True
      have "readenv_loop n (b * erasesize n) ((b + Suc m) * erasesize n) (erasesize n) amount buf =
          readenv_loop n ((b + 1) * erasesize n) ((b + 1 + m) * erasesize n) (erasesize n) amount buf"
        using isbad True inside more
        by (subst readenv_loop.simps) (simp only: fin nxt option.case prod.case simp_thms if_True if_False)
      then show ?thesis
        using Suc.IH [of n "b + 1" dats amount buf] Suc.prems rp True split by simp
    next
      case False
      let ?d1 = "take ?k dats" and ?d2 = "drop ?k dats"
      have whole: "range_pages n t b (Suc m) = [b * ?k..<b * ?k + ?k] @ ?rest" using rp False by simp
      have lens: "length ?d1 = ?k" "length ?d2 = length ?rest" using Suc.prems(4) whole by simp_all
      have "\<forall>i < length ?d1. stored n (chip_page n (b * ?k + i)) (?d1 ! i)"
      proof (intro allI impI)
        fix i assume "i < length ?d1"
        then show "stored n (chip_page n (b * ?k + i)) (?d1 ! i)"
          using Suc.prems(5) [rule_format, of i] lens bp(3) whole by (simp add: nth_append)
      qed
      moreover have "\<forall>i < length ?d1. pagebuf n \<noteq> Some (b * ?k + i)"
        using Suc.prems(6) lens(1) unfolding whole by auto
      moreover have "?d1 \<noteq> []" using lens(1) sz(5) by auto
      moreover have "(b * ?k + length ?d1) * ?w \<le> msize n" unfolding lens(1) by (rule bp(4))
      ultimately obtain ret n1 where rd: "nand_read n (b * ?k * ?w) (length ?d1 * ?w) = (ret, length ?d1 * ?w, concat ?d1, n1)"
        "ret \<in> {0, - EUCLEAN}" "kept n n1" "ret = 0 \<longleftrightarrow> (\<Sum>i<length ?d1. page_fixes n (chip_page n (b * ?k + i))) = 0"
        using nand_read_stored [OF ok, of ?d1 "b * ?k"] by metis
      have clean: "ret = 0 \<longleftrightarrow> block_fixes n b = 0"
        using rd(4) bp(3) by (simp only: lens(1) block_fixes_def) simp
      have rd': "nand_read n (b * erasesize n) (erasesize n) = (ret, erasesize n, concat ?d1, n1)"
        using rd(1) by (simp only: lens(1) bp(1) sz(1) [symmetric])
      have all1: "\<forall>i < length ?d1. stored n (range_pages n t b (Suc m) ! i) (?d1 ! i)"
        using Suc.prems(5) by simp
      have clen: "length (concat ?d1) = ?k * ?w" using length_concat_stored [OF all1] lens(1) by simp
      have total: "length dats = ?k + length ?d2" using lens(1) Suc.prems(4) whole by simp
      have len2: "amount + ?k * ?w + length ?d2 * ?w = amount + length dats * ?w"
        using arg_cong [OF total, of "\<lambda>x. x * ?w"] by (simp only: add_mult_distrib add.assoc)
      have room: "amount + ?k * ?w + length ?d2 * ?w \<le> length buf"
        using Suc.prems(7) by (simp only: len2)
      define buf1 where "buf1 = overwrite buf amount (concat ?d1)"
      have buf1: "length buf1 = length buf"
        unfolding buf1_def using clen room by (intro length_overwrite) simp
      note dev = kept_device [OF rd(3)]
      note mz = device_sizes [OF dev]
      have n1: "chip n1 = chip n" "pagebuf n1 = pagebuf n" "nand_ok n1" "blocks n1 = blocks n" "pages_per_block n1 = ?k"
        "table_ok n1 t"
        using rd(3) ok mz(2-4) table table_ok_device [OF dev]
        by (simp_all add: kept_def steady_def blocks_def pages_per_block_def)
      have noover: "\<not> length buf < amount + length (concat ?d1)" using clen room by simp
      have step: "readenv_loop n (b * erasesize n) ((b + Suc m) * erasesize n) (erasesize n) amount buf =
          (if ret \<noteq> 0 then Some (1, buf1, n1)
           else readenv_loop n1 ((b + 1) * erasesize n1) ((b + 1 + m) * erasesize n1) (erasesize n1) (amount + ?k * ?w) buf1)"
      proof -
        have "bad = 0" using isbad(2) False by simp
        then show ?thesis
          using isbad(1) inside more rd' noover
          by (subst readenv_loop.simps)
            (simp only: fin nxt option.case prod.case simp_thms if_True if_False sz(1) [symmetric] Let_def buf1_def [symmetric] mz(11))
      qed
      show ?thesis
      proof (cases "ret = 0")
        case False
        then show ?thesis using step buf1 clean split \<open>\<not> bad_block t b\<close> by auto
      next
        case True
        have "\<forall>i < length ?d2. stored n1 (range_pages n1 t (b + 1) m ! i) (?d2 ! i)"
        proof (intro allI impI)
          fix i assume i: "i < length ?d2"
          have inside: "?k + i < length dats" using i unfolding length_drop by linarith
          then have "range_pages n t b (Suc m) ! (?k + i) = ?rest ! i" "?d2 ! i = dats ! (?k + i)"
            unfolding whole by (simp_all add: nth_append)
          then show "stored n1 (range_pages n1 t (b + 1) m ! i) (?d2 ! i)"
            using Suc.prems(5) [rule_format, OF inside] same_device(3) [OF dev n1(1)] range_pages_device [OF dev]
            by simp
        qed
        then obtain ret' buf' n' where rest: "readenv_loop n1 ((b + 1) * erasesize n1) ((b + 1 + m) * erasesize n1) (erasesize n1) (amount + ?k * ?w) buf1 =
            Some (ret', buf', n')" "length buf' = length buf1"
          "ret' = 0 \<longleftrightarrow> amount + ?k * ?w + length ?d2 * ?w = length buf1 \<and>
             (\<forall>c. b + 1 \<le> c \<and> c < b + 1 + m \<and> \<not> bad_block t c \<longrightarrow> block_fixes n c = 0)"
          "ret' = 0 \<longrightarrow> buf' = overwrite buf1 (amount + ?k * ?w) (concat ?d2)"
          using Suc.IH [of n1 "b + 1" ?d2 "amount + ?k * ?w" buf1] n1 Suc.prems lens mz(10) room buf1
            range_pages_device [OF dev] block_fixes_device [OF dev n1(1)] unfolding whole
          by auto
        have join: "overwrite buf1 (amount + ?k * ?w) (concat ?d2) = overwrite buf amount (concat dats)"
        proof -
          have "length (concat ?d2) = length ?d2 * ?w"
            by (rule length_concat_stored [where f = "\<lambda>i. range_pages n t b (Suc m) ! (?k + i)"])
              (use Suc.prems(5) in \<open>auto simp: less_diff_conv add.commute\<close>)
          then have "overwrite buf1 (amount + length (concat ?d1)) (concat ?d2) = overwrite buf amount (concat ?d1 @ concat ?d2)"
            unfolding buf1_def using room clen by (intro overwrite_twice) simp
          then show ?thesis by (simp only: clen concat_append [symmetric] append_take_drop_id)
        qed
        show ?thesis
          using step True rest buf1 join clean split False len2 by auto
      qed
    qed
  qed
qed


section \<open>Saving and starting again\<close>

lemma word32_assemble: "ucast (ucast w :: u8) OR push_bit 8 (ucast (ucast (drop_bit 8 w) :: u8)) OR
    push_bit 16 (ucast (ucast (drop_bit 16 w) :: u8)) OR push_bit 24 (ucast (ucast (drop_bit 24 w) :: u8)) = (w :: u32)"
proof (rule bit_word_eqI)
  fix k assume "k < LENGTH(32)"
  then consider "k < 8" | "8 \<le> k" "k < 16" | "16 \<le> k" "k < 24" | "24 \<le> k" "k < 32" by fastforce
  then show "bit (ucast (ucast w :: u8) OR push_bit 8 (ucast (ucast (drop_bit 8 w) :: u8)) OR
      push_bit 16 (ucast (ucast (drop_bit 16 w) :: u8)) OR push_bit 24 (ucast (ucast (drop_bit 24 w) :: u8)) :: u32) k = bit w k"
    by cases (auto simp: bit_simps)
qed

text \<open>The state of a new start with the array and the checksum of an old one.\<close>

definition restored :: "env_state \<Rightarrow> env_state \<Rightarrow> env_state" where
  "restored st0 st = \<lparr>env_data = env_data st, env_crc = env_crc st, env_id = env_id st0, gd_baudrate = gd_baudrate st0,
     bi_ip_addr = bi_ip_addr st0, load_addr = load_addr st0, BootFile = BootFile st0\<rparr>"

lemma env_of_bytes_saved: "env_of_bytes st0 (env_bytes st) = restored st0 st"
proof -
  have bytes: "env_bytes st ! 0 = ucast (env_crc st)" "env_bytes st ! 1 = ucast (drop_bit 8 (env_crc st))"
    "env_bytes st ! 2 = ucast (drop_bit 16 (env_crc st))" "env_bytes st ! 3 = ucast (drop_bit 24 (env_crc st))"
    "drop 4 (env_bytes st) = env_data st"
    by (simp_all add: env_bytes_def word32_bytes_def)
  show ?thesis
    unfolding env_of_bytes_def restored_def ENV_HEADER_SIZE_def bytes word32_assemble ..
qed

lemma set_default_env_any:
  assumes "length buf = length (env_bytes st)" "length default_environment < length (env_data st)"
  shows "set_default_env (env_of_bytes st buf) = set_default_env st"
  using assms by (simp add: set_default_env_def env_crc_update_def env_of_bytes_def env_bytes_def ENV_HEADER_SIZE_def)

text \<open>The range of the environment, a chip that does what it is told, and what is on it afterwards.\<close>

definition env_place :: "'c nand \<Rightarrow> nat \<Rightarrow> nat \<Rightarrow> nat \<Rightarrow> bool" where
  "env_place n b m len \<longleftrightarrow> CONFIG_ENV_OFFSET = b * erasesize n \<and> len = m * erasesize n \<and> 0 < m \<and> b + m \<le> blocks n"

definition obeys :: "'c nand \<Rightarrow> ('c \<Rightarrow> nat \<Rightarrow> u8 list) \<Rightarrow> bool" where
  "obeys n holds \<longleftrightarrow> erases_blocks n holds \<and> keeps_data n holds \<and> (\<forall>c. \<not> io_protected (io n) c) \<and>
     (\<forall>c page. \<not> snd (io_erase (io n) c page)) \<and> (\<forall>c page bytes. \<not> snd (io_program (io n) c page 0 bytes))"

lemma saveenv_blocks:
  assumes "nand_ok n" "table_ok n t" "\<not> rw_oob n" "ops_mode n \<noteq> MTD_OOB_RAW" "obeys n holds"
    and "env_place n b m (length (env_bytes st))"
  defines "rp \<equiv> range_pages n t b m"
  obtains n' where "saveenv st n = Some (if length rp = m * pages_per_block n then 0 else 1, n')" "steady n n'" "nand_ok n'"
    "\<forall>i < length rp. holds (chip n') (rp ! i) = page_image n (pages_of n (m * pages_per_block n) (env_bytes st) ! i)"
proof -
  note sz = nand_ok_sizes [OF assms(1)]
  have chip: "erases_blocks n holds" "keeps_data n holds" "\<forall>c. \<not> io_protected (io n) c"
    "\<forall>c page. \<not> snd (io_erase (io n) c page)" "\<forall>c page bytes. \<not> snd (io_program (io n) c page 0 bytes)"
    using assms(5) by (simp_all add: obeys_def)
  let ?buf = "env_bytes st"
  have place: "CONFIG_ENV_OFFSET = b * erasesize n" "length ?buf = m * erasesize n" "0 < m" "b + m \<le> blocks n"
    using assms(6) by (simp_all add: env_place_def)
  have big: "erasesize n \<le> length ?buf"
    using place(2,3) by (cases m) simp_all
  let ?opts = "\<lparr>opt_length = length ?buf, opt_offset = CONFIG_ENV_OFFSET, opt_jffs2 = False, opt_scrub = False\<rparr>"
  have "m = (max (length ?buf) (erasesize n) + erasesize n - 1) div erasesize n"
  proof -
    have "(max (length ?buf) (erasesize n) + erasesize n - 1) = m * erasesize n + (erasesize n - 1)"
      using big place(2) sz(7) by (simp add: max_def)
    then show ?thesis using sz(7) by (simp only: div_mult_self3 div_less)
  qed
  then obtain n1 where n1: "nand_erase_opts ?opts n = Some (0, n1)"
    "chip n1 = erase_all (io n) (pages_per_block n) t (chip n) b m" "steady n n1" "nand_ok n1"
    "pagebuf n1 \<in> {pagebuf n, None}" "ops_mode n1 = ops_mode n"
    using nand_erase_opts_blocks [OF assms(1,2) place(4) chip(3), of ?opts] place(1) by auto
  have dev: "device n1 = device n" using n1(3) by (simp add: steady_def)
  note mz = device_sizes [OF dev]
  have n1': "table_ok n1 t" "\<not> rw_oob n1" "blocks n1 = blocks n" "range_pages n1 t b m = rp"
    using assms(2,3) n1(3) table_ok_device [OF dev] range_pages_device [OF dev] mz(3,4)
    by (simp_all add: steady_def blocks_def rp_def)
  have few: "length rp \<le> m * pages_per_block n"
    unfolding rp_def range_pages_def by (rule order_trans [OF length_filter_le]) (simp add: add_mult_distrib)
  have fits: "0 + length (range_pages n1 t b m) * writesize n1 \<le> length ?buf"
    using mult_le_mono1 [OF few, of "writesize n"] n1'(4) mz(10) place(2) sz(1) by simp
  obtain n' where n': "writeenv_loop n1 (b * erasesize n1) ((b + m) * erasesize n1) (erasesize n1) 0 ?buf =
      Some (if 0 + length rp * writesize n1 = length ?buf then 0 else 1, n')"
    "program_all (io n) (chip n1) (map2 (\<lambda>q dat. (q, page_image n dat)) rp (pages_of n (length rp) ?buf)) = (chip n', True)"
    "written n1 n'"
    using writeenv_loop_blocks [OF n1(4) n1'(1,2), of b m 0 ?buf, OF _ _ _ _ fits] chip(3,5) assms(4) n1(6) n1'(3,4)
      place(4) mz(1) same_device(1) [OF dev] pages_of_device [OF dev] by auto
  have full: "0 + length rp * writesize n1 = length ?buf \<longleftrightarrow> length rp = m * pages_per_block n"
    using sz(1,6) mz(10) place(2) by (simp add: mult.assoc [symmetric] del: mult.assoc)
  have "writeenv n1 CONFIG_ENV_OFFSET ?buf = Some (if length rp = m * pages_per_block n then 0 else 1, n')"
    using n'(1) full place(1,2) big mz(11) by (simp add: writeenv_def add_mult_distrib)
  then have "saveenv st n = Some (if length rp = m * pages_per_block n then 0 else 1, n')"
    using n1(1) by (simp add: saveenv_def Let_def)
  moreover have "steady n n'" "nand_ok n'"
    using n'(3) steady_trans [OF n1(3)] by (simp_all add: written_def)
  moreover have "holds (chip n') (rp ! i) = page_image n (pages_of n (m * pages_per_block n) ?buf ! i)" if "i < length rp" for i
  proof -
    let ?prog = "map2 (\<lambda>q dat. (q, page_image n dat)) rp (pages_of n (length rp) ?buf)"
    have fst: "map fst ?prog = rp" by (simp add: comp_def case_prod_beta')
    have lens: "length rp * writesize n \<le> length ?buf" using fits n1'(4) mz(10) by simp
    have blank: "holds (chip n1) q = blank_page n" if "q \<in> set rp" for q
      using erase_all_blank [OF chip(1) place(4) chip(4)] that n1(2) by (simp add: rp_def set_range_pages [OF assms(1)])
    have pre: "\<forall>(q, d) \<in> set ?prog. holds (chip n1) q = blank_page n \<and> length d = writesize n + oobsize n"
      using blank length_page_image [OF pages_of_lengths [OF lens]]
      by (auto dest: set_zip_leftD set_zip_rightD)
    have "distinct (map fst ?prog)" unfolding fst by (simp add: rp_def range_pages_def)
    note conjunct1 [OF program_all_holds [OF chip(2) n'(2) this pre]]
    moreover have "(rp ! i, page_image n (pages_of n (length rp) ?buf ! i)) \<in> set ?prog"
      using nth_mem [of i ?prog] that by simp
    moreover have "pages_of n (length rp) ?buf ! i = pages_of n (m * pages_per_block n) ?buf ! i"
      using that few by (simp add: pages_of_def)
    ultimately show ?thesis by auto
  qed
  ultimately show thesis using that by blast
qed

text \<open>What a start makes of a range from whose pages the data can be had.\<close>

lemma load_blocks:
  assumes "nand_ok n" "table_ok n t" "pagebuf n = None" "env_place n b m (length (env_bytes st))"
    and "\<forall>c. b \<le> c \<and> c < b + m \<longrightarrow> \<not> bad_block t c" "length dats = m * pages_per_block n"
    and "\<forall>i < length dats. stored n (b * pages_per_block n + i) (dats ! i)"
    and "length default_environment < length (env_data st)"
  defines "st' \<equiv> env_of_bytes st (concat dats)"
  shows "\<exists>n'. env_relocate_spec st n = Some
    (if (\<forall>c. b \<le> c \<and> c < b + m \<longrightarrow> block_fixes n c = 0) \<and> crc32 0 (env_data st') = env_crc st' then st'
     else set_default_env st, n')"
proof -
  note sz = nand_ok_sizes [OF assms(1)]
  let ?rp = "range_pages n t b m" and ?buf = "env_bytes st"
  have place: "CONFIG_ENV_OFFSET = b * erasesize n" "length ?buf = m * erasesize n" "0 < m" "b + m \<le> blocks n"
    using assms(4) by (simp_all add: env_place_def)
  have big: "min (erasesize n) (length ?buf) = erasesize n"
    using place(2,3) by (cases m) simp_all
  have rp: "?rp = [b * pages_per_block n..<(b + m) * pages_per_block n]"
    by (rule range_pages_good [OF assms(5,1)])
  then have len: "length dats = length ?rp" using assms(6) by (simp add: add_mult_distrib)
  have all: "\<forall>i < length dats. stored n (?rp ! i) (dats ! i)"
    using assms(6,7) rp by (simp add: add_mult_distrib)
  have full: "0 + length dats * writesize n = length ?buf"
    using assms(6) place(2) sz(1) by simp
  then have clen: "length (concat dats) = length ?buf"
    using length_concat_stored [OF all] by simp
  obtain ret buf' n' where rd: "readenv_loop n (b * erasesize n) ((b + m) * erasesize n) (erasesize n) 0 ?buf = Some (ret, buf', n')"
    "length buf' = length ?buf"
    "ret = 0 \<longleftrightarrow> (\<forall>c. b \<le> c \<and> c < b + m \<and> \<not> bad_block t c \<longrightarrow> block_fixes n c = 0)"
    "ret = 0 \<longrightarrow> buf' = overwrite ?buf 0 (concat dats)"
    using readenv_loop_blocks [OF assms(1,2) place(4) len all, of 0 ?buf] assms(3) full by auto
  have rd': "readenv n CONFIG_ENV_OFFSET ?buf = Some (ret, buf', n')"
    using rd(1) big place(1,2) by (simp add: readenv_def add_mult_distrib)
  have clean: "ret = 0 \<longleftrightarrow> (\<forall>c. b \<le> c \<and> c < b + m \<longrightarrow> block_fixes n c = 0)"
    using rd(3) assms(5) by blast
  have dflt: "set_default_env (env_of_bytes st xs) = set_default_env st" if "length xs = length ?buf" for xs
    by (rule set_default_env_any [OF that assms(8)])
  show ?thesis
  proof (cases "ret = 0")
    case True
    then have "buf' = concat dats" using rd(4) clen by (simp add: overwrite_all)
    then show ?thesis
      using rd' True clean dflt [OF rd(2)] by (auto simp: env_relocate_spec_def st'_def Let_def)
  next
    case False
    then show ?thesis
      using rd' clean dflt [OF rd(2)] by (auto simp: env_relocate_spec_def Let_def)
  qed
qed

text \<open>The pages of the range read as they were stored, up to one flipped bit of data in one page.\<close>

definition reads_back :: "'c nand \<Rightarrow> nat \<Rightarrow> nat \<Rightarrow> (nat \<Rightarrow> u8 list) \<Rightarrow> (nat \<times> nat \<times> nat) option \<Rightarrow> bool" where
  "reads_back n b m cells flip \<longleftrightarrow>
     (\<forall>q. b \<le> q div pages_per_block n \<and> q div pages_per_block n < b + m \<longrightarrow>
        io_read (io n) (chip n) q =
          (case flip of Some (q', i, j) \<Rightarrow> if q = q' then flip_at i j (cells q) else cells q | None \<Rightarrow> cells q)) \<and>
     (case flip of Some (q', i, j) \<Rightarrow> b \<le> q' div pages_per_block n \<and> q' div pages_per_block n < b + m \<and> i < writesize n \<and> j < 8
      | None \<Rightarrow> True)"

lemma reads_back_stored:
  assumes "nand_ok n" "reads_back n b m cells flip" "cells q = page_image n dat" "length dat = writesize n"
    and "b \<le> q div pages_per_block n" "q div pages_per_block n < b + m"
  shows "stored n q dat" "page_fixes n q = (case flip of Some (q', _) \<Rightarrow> if q = q' then 1 else 0 | None \<Rightarrow> 0)"
  using assms page_fixes_image [OF assms(1,4)]
  by (auto simp: reads_back_def stored_def page_fixes_def split: option.splits if_splits)

lemma reads_back_fixes:
  assumes "nand_ok n" "reads_back n b m cells flip"
    and "\<forall>q. b \<le> q div pages_per_block n \<and> q div pages_per_block n < b + m \<longrightarrow>
      (\<exists>dat. cells q = page_image n dat \<and> length dat = writesize n)"
  shows "(\<forall>c. b \<le> c \<and> c < b + m \<longrightarrow> block_fixes n c = 0) \<longleftrightarrow> flip = None"
proof -
  let ?k = "pages_per_block n"
  have k: "0 < ?k" by (rule nand_ok_sizes(5) [OF assms(1)])
  have one: "block_fixes n c = (\<Sum>i<?k. case flip of Some (q', _) \<Rightarrow> if c * ?k + i = q' then 1 else 0 | None \<Rightarrow> 0)"
    if "b \<le> c" "c < b + m" for c
    unfolding block_fixes_def
  proof (rule sum.cong [OF refl])
    fix i assume "i \<in> {..<?k}"
    then have "(c * ?k + i) div ?k = c" by (intro div_nat_eqI) (auto simp: mult.commute)
    then show "page_fixes n (c * ?k + i) = (case flip of Some (q', _) \<Rightarrow> if c * ?k + i = q' then 1 else 0 | None \<Rightarrow> 0)"
      using assms(3) [rule_format, of "c * ?k + i"] that reads_back_stored(2) [OF assms(1,2)] by force
  qed
  show ?thesis
  proof (cases flip)
    case None
    then show ?thesis using one by simp
  next
    case (Some f)
    obtain q i j where f: "f = (q, i, j)" by (cases f)
    have q: "b \<le> q div ?k" "q div ?k < b + m" using assms(2) Some f by (simp_all add: reads_back_def)
    have "block_fixes n (q div ?k) = (\<Sum>i<?k. if i = q mod ?k then 1 else 0)"
      unfolding one [OF q] using Some f by (intro sum.cong refl) (auto, metis div_mult_mod_eq add_left_cancel)
    then have "block_fixes n (q div ?k) \<noteq> 0" using k by (simp add: sum.delta)
    then show ?thesis using q Some by auto
  qed
qed

text \<open>A device after a restart: the same chip, with a page buffer that holds nothing.\<close>

definition restarted :: "'c nand \<Rightarrow> 'c nand \<Rightarrow> nat \<Rightarrow> nat \<Rightarrow> bool" where
  "restarted n n2 b m \<longleftrightarrow> device n2 = device n \<and> nand_ok n2 \<and> pagebuf n2 = None \<and>
     (\<exists>t. table_ok n2 t \<and> (\<forall>c. b \<le> c \<and> c < b + m \<longrightarrow> \<not> bad_block t c))"

lemma save_restart_load:
  assumes "nand_ok n" "table_ok n t" "\<not> rw_oob n" "ops_mode n \<noteq> MTD_OOB_RAW" "obeys n holds"
    and "env_place n b m (length (env_bytes st))" "\<forall>c. b \<le> c \<and> c < b + m \<longrightarrow> \<not> bad_block t c"
    and "env_crc st = crc32 0 (env_data st)" "length default_environment < length (env_data st)"
  obtains n' where "saveenv st n = Some (0, n')"
    "\<And>n2 st0 flip. restarted n n2 b m \<Longrightarrow> length (env_data st0) = length (env_data st) \<Longrightarrow>
       reads_back n2 b m (holds (chip n')) flip \<Longrightarrow>
       \<exists>n3. env_relocate_spec st0 n2 = Some (if flip = None then restored st0 st else set_default_env st0, n3)"
proof -
  note sz = nand_ok_sizes [OF assms(1)]
  let ?k = "pages_per_block n" and ?buf = "env_bytes st" and ?rp = "range_pages n t b m"
  have rp: "?rp = [b * ?k..<(b + m) * ?k]" by (rule range_pages_good [OF assms(7,1)])
  then have len: "length ?rp = m * ?k" by (simp add: add_mult_distrib)
  obtain n' where raw: "saveenv st n = Some (if length ?rp = m * ?k then 0 else 1, n')"
    "\<forall>i < length ?rp. holds (chip n') (?rp ! i) = page_image n (pages_of n (m * ?k) ?buf ! i)"
    by (rule saveenv_blocks [OF assms(1-6)])
  note n' = raw [unfolded len, simplified, folded len]
  have blen: "length ?buf = m * ?k * writesize n"
    using assms(6) sz(1) by (simp add: env_place_def)
  have dlen: "length (pages_of n (m * ?k) ?buf ! i) = writesize n" if "i < m * ?k" for i
    using that blen by (intro pages_of_lengths [of "m * ?k" n ?buf] nth_mem) simp_all
  have cells: "holds (chip n') (b * ?k + i) = page_image n (pages_of n (m * ?k) ?buf ! i)" if "i < m * ?k" for i
    using n'(2) that unfolding len rp by (simp add: add_mult_distrib)
  have inside: "b \<le> q div ?k \<and> q div ?k < b + m \<longleftrightarrow> b * ?k \<le> q \<and> q - b * ?k < m * ?k" for q
  proof -
    have "b \<le> q div ?k \<longleftrightarrow> b * ?k \<le> q" "q div ?k < b + m \<longleftrightarrow> q < (b + m) * ?k"
      using sz(5) by (simp_all add: less_eq_div_iff_mult_less_eq div_less_iff_less_mult)
    then show ?thesis by (auto simp: add_mult_distrib)
  qed
  have "\<exists>n3. env_relocate_spec st0 n2 = Some (if flip = None then restored st0 st else set_default_env st0, n3)"
    if r: "restarted n n2 b m" and l: "length (env_data st0) = length (env_data st)"
      and rb: "reads_back n2 b m (holds (chip n')) flip" for n2 st0 flip
  proof -
    obtain t2 where t2: "table_ok n2 t2" "\<forall>c. b \<le> c \<and> c < b + m \<longrightarrow> \<not> bad_block t2 c"
      and dev: "device n2 = device n" and ok: "nand_ok n2" and pb: "pagebuf n2 = None"
      using r by (auto simp: restarted_def)
    note mz = device_sizes [OF dev]
    have k2: "pages_per_block n2 = ?k" "blocks n2 = blocks n"
      using mz(2-4) by (simp_all add: pages_per_block_def blocks_def)
    let ?dats = "pages_of n (m * ?k) ?buf"
    have page: "stored n2 (b * ?k + i) (?dats ! i)" if "i < m * ?k" for i
      using reads_back_stored(1) [OF ok rb, of "b * ?k + i" "?dats ! i"] cells [OF that] dlen [OF that] that
        inside [of "b * ?k + i"] same_device(1) [OF dev] mz(10) k2(1) by simp
    have cover: "\<exists>dat. holds (chip n') q = page_image n2 dat \<and> length dat = writesize n2"
      if "b \<le> q div pages_per_block n2 \<and> q div pages_per_block n2 < b + m" for q
      using that inside [of q] cells [of "q - b * ?k"] dlen [of "q - b * ?k"] same_device(1) [OF dev] mz(10) k2(1) by auto
    have "env_place n2 b m (length (env_bytes st0))"
      using assms(6) l mz(11) k2(2) by (simp add: env_place_def env_bytes_def)
    then obtain n3 where n3: "env_relocate_spec st0 n2 = Some
      (if (\<forall>c. b \<le> c \<and> c < b + m \<longrightarrow> block_fixes n2 c = 0) \<and>
          crc32 0 (env_data (env_of_bytes st0 (concat ?dats))) = env_crc (env_of_bytes st0 (concat ?dats))
       then env_of_bytes st0 (concat ?dats) else set_default_env st0, n3)"
      using load_blocks [OF ok t2(1) pb _ t2(2), of st0 ?dats] page assms(9) l k2(1) by auto
    have "concat ?dats = ?buf"
      using concat_pages_of [of "m * ?k" n ?buf] blen by simp
    then have "env_of_bytes st0 (concat ?dats) = restored st0 st" by (simp add: env_of_bytes_saved)
    then show ?thesis
      using n3 reads_back_fixes [OF ok rb] cover assms(8) by (auto simp: restored_def)
  qed
  then show thesis using that n'(1) by blast
qed

text \<open>
  C31: the environment survives a restart, and what it does not survive. \<open>saveenv\<close> into a range of good
  blocks succeeds, and the next start finds the variables that were saved if every page reads exactly as
  it was written. If a single bit anywhere in the range reads wrong, the flash layer corrects it and says so
  with \<open>-EUCLEAN\<close>; \<open>readenv\<close> takes that for a failure, and the start uses the default environment.
\<close>

theorem env_survives_restart:
  assumes "nand_ok n" "table_ok n t" "\<not> rw_oob n" "ops_mode n \<noteq> MTD_OOB_RAW" "obeys n holds"
    and "env_place n b m (length (env_bytes st))" "\<forall>c. b \<le> c \<and> c < b + m \<longrightarrow> \<not> bad_block t c"
    and "env_crc st = crc32 0 (env_data st)" "length default_environment < length (env_data st)"
  shows "\<exists>n'. saveenv st n = Some (0, n') \<and>
    (\<forall>n2 st0. restarted n n2 b m \<and> length (env_data st0) = length (env_data st) \<longrightarrow>
       (reads_back n2 b m (holds (chip n')) None \<longrightarrow> (\<exists>n3. env_relocate_spec st0 n2 = Some (restored st0 st, n3))) \<and>
       (\<forall>q i j. reads_back n2 b m (holds (chip n')) (Some (q, i, j)) \<longrightarrow>
          (\<exists>n3. env_relocate_spec st0 n2 = Some (set_default_env st0, n3))))"
  by (rule save_restart_load [OF assms]) force

text \<open>
  there is no block to spare for the environment. When a block of its range is bad, \<open>saveenv\<close>
  fails, after it has put the first part of the new environment over the old one in the good blocks.
\<close>

theorem saveenv_bad_block:
  assumes "nand_ok n" "table_ok n t" "\<not> rw_oob n" "ops_mode n \<noteq> MTD_OOB_RAW" "obeys n holds"
    and "env_place n b m (length (env_bytes st))" "b \<le> c" "c < b + m" "bad_block t c"
  shows "\<exists>n'. saveenv st n = Some (1, n') \<and>
    (\<forall>i < length (range_pages n t b m). holds (chip n') (range_pages n t b m ! i) =
       page_image n (take (writesize n) (drop (i * writesize n) (env_bytes st))))"
proof -
  let ?k = "pages_per_block n" and ?rp = "range_pages n t b m"
  have "c * ?k \<in> set [b * ?k..<(b + m) * ?k]" "c * ?k div ?k = c"
    using assms(7,8) nand_ok_sizes(5) [OF assms(1)] by simp_all
  then have "length ?rp < length [b * ?k..<(b + m) * ?k]"
    unfolding range_pages_def using assms(9) by (intro length_filter_less [of "c * ?k"]) simp_all
  then have less: "length ?rp < m * ?k" by (simp add: add_mult_distrib)
  obtain n' where "saveenv st n = Some (if length ?rp = m * ?k then 0 else 1, n')"
    "\<forall>i < length ?rp. holds (chip n') (?rp ! i) = page_image n (pages_of n (m * ?k) (env_bytes st) ! i)"
    by (rule saveenv_blocks [OF assms(1-6)])
  then show ?thesis
    using less by (auto simp: pages_of_def)
qed

text \<open>A chip with large pages and four blocks, of which the last holds the environment.\<close>

definition board_io :: "(nat \<Rightarrow> u8 list) nand_io" where
  "board_io = \<lparr>io_read = (\<lambda>c. c),
     io_program = (\<lambda>c page col bytes. (c(page := map2 (AND) (c page) (replicate col 0xff @ bytes)), False)),
     io_erase = (\<lambda>c page. (\<lambda>q. if q div 64 = page div 64 then replicate 2112 0xff else c q, False)),
     io_protected = (\<lambda>c. False)\<rparr>"

definition board_nand :: "u8 \<Rightarrow> (nat \<Rightarrow> u8 list) nand" where
  "board_nand table = \<lparr>io = board_io, chip = (\<lambda>_. replicate 2112 0), page_shift = 11, erase_shift = 17, chip_shift = 19,
     oobsize = 64, layout = nand_oob_64, subpage_sft = 0, badblockpos = 0, pagebuf = None, databuf = replicate 2048 0,
     oob_poi = replicate 64 0, ops_mode = MTD_OOB_PLACE, ops_ooboffs = 0, bbt = Some [table], bbt_scanned = True,
     bad_scrub = False, heap_ok = True, ecc_failed = 0, ecc_corrected = 0, badblocks = 0, rw_oob = False,
     skipfirstblk = False\<rparr>"

definition board_env :: "u8 list \<Rightarrow> env_state" where
  "board_env vars = \<lparr>env_data = vars @ replicate (0x1fffc - length vars) 0,
     env_crc = crc32 0 (vars @ replicate (0x1fffc - length vars) 0),
     env_id = 1, gd_baudrate = 115200, bi_ip_addr = 0, load_addr = 0, BootFile = []\<rparr>"

lemma board_sizes:
  "nand_ok (board_nand x)" "table_ok (board_nand x) [x]" "io (board_nand x) = board_io" "blocks (board_nand x) = 4"
  "pages_per_block (board_nand x) = 64" "erasesize (board_nand x) = 0x20000" "writesize (board_nand x) = 2048"
  "blank_page (board_nand x) = replicate 2112 0xff" "oobsize (board_nand x) = 64" "pagebuf (board_nand x) = None"
  "device ((board_nand x)\<lparr>chip := c\<rparr>) = device (board_nand x)" "\<not> rw_oob (board_nand x)"
  "ops_mode (board_nand x) \<noteq> MTD_OOB_RAW"
  by (simp_all add: board_nand_def nand_ok_def table_ok_def blocks_def pages_per_block_def
      erasesize_def writesize_def blank_page_def device_def)

lemma board_obeys: "obeys (board_nand x) (\<lambda>c. c)"
  by (auto simp: obeys_def erases_blocks_def keeps_data_def board_sizes board_io_def map2_and_ff)

lemma board_place: "length vars < 0x1fffc \<Longrightarrow> env_place (board_nand x) 3 1 (length (env_bytes (board_env vars)))"
  by (simp add: env_place_def board_sizes CONFIG_ENV_OFFSET_def env_bytes_def board_env_def)

lemma board_default: "length vars < 0x1fffc \<Longrightarrow> length default_environment < length (env_data (board_env vars))"
  by (simp add: board_env_def default_environment_def default_variables_def)

lemma board_restarted: "restarted (board_nand x) ((board_nand 0)\<lparr>chip := c\<rparr>) 3 1"
  unfolding restarted_def
  by (intro conjI exI [of _ "[0]"])
    (simp_all add: board_nand_def nand_ok_def table_ok_def blocks_def writesize_def device_def bad_block_def le_antisym less_Suc_eq_le)

theorem env_survives_restart_witness:
  "\<exists>n'. saveenv (board_env (cstr ''a=b'')) (board_nand 0) = Some (0, n') \<and>
     (\<exists>n3. env_relocate_spec (board_env []) ((board_nand 0)\<lparr>chip := chip n'\<rparr>) =
        Some (restored (board_env []) (board_env (cstr ''a=b'')), n3)) \<and>
     (\<exists>n3. env_relocate_spec (board_env []) ((board_nand 0)\<lparr>chip := (chip n')(192 := flip_at 5 3 (chip n' 192))\<rparr>) =
        Some (set_default_env (board_env []), n3))"
proof -
  let ?st = "board_env (cstr ''a=b'')"
  have good: "\<forall>c. 3 \<le> c \<and> c < 3 + (1 :: nat) \<longrightarrow> \<not> bad_block [0] c"
    by (simp add: bad_block_def le_antisym less_Suc_eq_le)
  have short: "length (cstr ''a=b'') < 0x1fffc" by simp
  have crc: "env_crc ?st = crc32 0 (env_data ?st)" by (simp add: board_env_def)
  obtain n' where n': "saveenv ?st (board_nand 0) = Some (0, n')"
    "\<forall>n2 st0. restarted (board_nand 0) n2 3 1 \<and> length (env_data st0) = length (env_data ?st) \<longrightarrow>
       (reads_back n2 3 1 (chip n') None \<longrightarrow> (\<exists>n3. env_relocate_spec st0 n2 = Some (restored st0 ?st, n3))) \<and>
       (\<forall>q i j. reads_back n2 3 1 (chip n') (Some (q, i, j)) \<longrightarrow>
          (\<exists>n3. env_relocate_spec st0 n2 = Some (set_default_env st0, n3)))"
    using env_survives_restart [OF board_sizes(1,2,12,13) board_obeys board_place [OF short] good crc board_default [OF short]]
    by blast
  have len: "length (env_data (board_env [])) = length (env_data ?st)" by (simp add: board_env_def)
  have perfect: "reads_back ((board_nand 0)\<lparr>chip := chip n'\<rparr>) 3 1 (chip n') None"
    "reads_back ((board_nand 0)\<lparr>chip := (chip n')(192 := flip_at 5 3 (chip n' 192))\<rparr>) 3 1 (chip n') (Some (192, 5, 3))"
    by (simp_all add: reads_back_def board_nand_def board_io_def pages_per_block_def writesize_def)
  show ?thesis
    using n'(1) n'(2) [rule_format, OF conjI [OF board_restarted len]] perfect by blast
qed

theorem saveenv_bad_block_witness: "\<exists>n'. saveenv (board_env []) (board_nand 0xc0) = Some (1, n')"
proof -
  have "bad_block [0xc0] 3" by (simp add: bad_block_def)
  then show ?thesis
    using saveenv_bad_block [OF board_sizes(1,2,12,13) board_obeys board_place, of "[]" 3 "0xc0"] by auto
qed

end
