(* ===== verification/BlockDev.thy ===== *)
theory BlockDev
  imports UBoot_Prelude
begin

text \<open>
  Block devices as \<open>disk/part_dos.c\<close> and \<open>fs/fat/fat.c\<close> use them, and fields of structures laid over
  a sector. The driver behind \<open>block_read\<close> (USB storage, MMC) is a parameter: for a start sector and a
  number of sectors it returns a count and the bytes it has stored at the buffer. A result \<open>None\<close> of a
  definition is an access outside a buffer, or a loop that does not end.
\<close>

type_synonym block_read = "u32 \<Rightarrow> u32 \<Rightarrow> u32 \<times> u8 list"

record block_dev =
  block_read :: "block_read option"
  if_type :: int
  dev_no :: int
  part_type :: int
  lba :: u32

definition le16 :: "u8 list \<Rightarrow> nat \<Rightarrow> u16" where
  "le16 b i = ucast (b ! i) OR push_bit 8 (ucast (b ! (i + 1)))"

definition le32 :: "u8 list \<Rightarrow> nat \<Rightarrow> u32" where
  "le32 b i = ucast (b ! i) OR push_bit 8 (ucast (b ! (i + 1))) OR push_bit 16 (ucast (b ! (i + 2)))
     OR push_bit 24 (ucast (b ! (i + 3)))"

text \<open>Part of a buffer, when it is inside.\<close>

definition sub_bytes :: "u8 list \<Rightarrow> nat \<Rightarrow> nat \<Rightarrow> u8 list option" where
  "sub_bytes b i k = (if i + k \<le> length b then Some (take k (drop i b)) else None)"

text \<open>Bytes stored into a buffer, when it has room for them.\<close>

definition store_bytes :: "u8 list \<Rightarrow> nat \<Rightarrow> u8 list \<Rightarrow> u8 list option" where
  "store_bytes b i bs = (if i + length bs \<le> length b then Some (overwrite b i bs) else None)"

text \<open>A driver that serves a range of sectors without errors.\<close>

definition sectors :: "(u32 \<Rightarrow> u8 list) \<Rightarrow> u32 \<Rightarrow> nat \<Rightarrow> u8 list" where
  "sectors disk s k = concat (map (\<lambda>i. disk (s + of_nat i)) [0..<k])"

definition serves :: "block_read \<Rightarrow> (u32 \<Rightarrow> u8 list) \<Rightarrow> bool" where
  "serves rd disk \<longleftrightarrow> (\<forall>s. length (disk s) = 512) \<and>
     (\<forall>s c. unat c < 2 ^ 22 \<longrightarrow> rd s c = (c, sectors disk s (unat c)))"

lemma length_sectors: "(\<forall>s. length (disk s) = 512) \<Longrightarrow> length (sectors disk s k) = 512 * k"
  by (induction k) (simp_all add: sectors_def)

lemma sectors_0 [simp]: "sectors disk s 0 = []"
  by (simp add: sectors_def)

lemma sectors_add: "sectors disk s (j + k) = sectors disk s j @ sectors disk (s + of_nat j) k"
proof (induction k)
  case (Suc k)
  then show ?case by (simp add: sectors_def add.assoc)
qed simp

lemma sectors_one: "sectors disk s 1 = disk s"
  by (simp add: sectors_def)

end
