(* ===== verification/DosPart.thy ===== *)
theory DosPart
  imports BlockDev
begin

text \<open>
  DOS partition tables, \<open>disk/part_dos.c\<close>, and their dispatch in \<open>disk/part.c\<close> (no other kind of table
  is configured). The logical partitions hang in a chain of tables, which may be circular: a search that
  follows it for ever is \<open>None\<close>.
\<close>

section \<open>Layouts\<close>

record dos_partition =
  boot_ind :: u8
  sys_ind :: u8
  start4 :: u32
  size4 :: u32

definition DOS_PART_TBL_OFFSET :: nat where "DOS_PART_TBL_OFFSET = 0x1be"
definition DOS_PART_MAGIC_OFFSET :: nat where "DOS_PART_MAGIC_OFFSET = 0x1fe"
definition DOS_PBR_FSTYPE_OFFSET :: nat where "DOS_PBR_FSTYPE_OFFSET = 0x36"
definition DOS_PBR_MEDIA_TYPE_OFFSET :: nat where "DOS_PBR_MEDIA_TYPE_OFFSET = 0x15"

text \<open>The fields of an entry that the code reads, the numbers put together by \<open>le32_to_int\<close>.\<close>

definition le32_to_int :: "u8 list \<Rightarrow> nat \<Rightarrow> u32" where
  "le32_to_int b i = push_bit 24 (ucast (b ! (i + 3))) + push_bit 16 (ucast (b ! (i + 2)))
     + push_bit 8 (ucast (b ! (i + 1))) + ucast (b ! i)"

definition dos_partition_at :: "u8 list \<Rightarrow> nat \<Rightarrow> dos_partition" where
  "dos_partition_at buffer i =
     (let p = DOS_PART_TBL_OFFSET + 16 * i
      in \<lparr>boot_ind = buffer ! p, sys_ind = buffer ! (p + 4), start4 = le32_to_int buffer (p + 8),
          size4 = le32_to_int buffer (p + 12)\<rparr>)"

record disk_partition =
  dp_start :: u32
  dp_size :: u32
  dp_blksz :: u32
  dp_name :: "u8 list \<times> u8 \<times> int"
  dp_type :: "u8 list"

section \<open>Searching\<close>

definition is_extended :: "u8 \<Rightarrow> bool" where
  "is_extended ptype \<longleftrightarrow> ptype = 0x5 \<or> ptype = 0xf \<or> ptype = 0x85"

definition signed_sector :: "u8 list \<Rightarrow> bool" where
  "signed_sector buffer \<longleftrightarrow> buffer ! DOS_PART_MAGIC_OFFSET = 0x55 \<and> buffer ! (DOS_PART_MAGIC_OFFSET + 1) = 0xaa"

text \<open>
  One sector read to a buffer of the stack, which holds \<open>junk\<close> before; the flag says whether the driver
  has reported one sector.
\<close>

definition read_sector :: "block_dev \<Rightarrow> u8 list \<Rightarrow> u32 \<Rightarrow> (bool \<times> u8 list) option" where
  "read_sector dev junk s =
     (case block_read dev of
        None \<Rightarrow> None
      | Some rd \<Rightarrow> (case rd s 1 of (r, bytes) \<Rightarrow> map_option (\<lambda>b. (r = 1, b)) (store_bytes junk 0 bytes)))"

definition test_part_dos :: "block_dev \<Rightarrow> u8 list \<Rightarrow> int option" where
  "test_part_dos dev junk =
     (case read_sector dev junk 0 of
        None \<Rightarrow> None
      | Some (ok, buffer) \<Rightarrow> Some (if \<not> ok \<or> \<not> signed_sector buffer then -1 else 0))"

definition PART_TYPE_DOS :: int where "PART_TYPE_DOS = 2"

definition init_part :: "block_dev \<Rightarrow> u8 list \<Rightarrow> block_dev option" where
  "init_part dev junk =
     map_option (\<lambda>r. if r = 0 then dev\<lparr>part_type := PART_TYPE_DOS\<rparr> else dev) (test_part_dos dev junk)"

definition name_prefix :: "int \<Rightarrow> u8 list" where
  "name_prefix iftype =
     (if iftype \<in> {1, 8, 3} then cstr ''hd'' else if iftype = 2 then cstr ''sd''
      else if iftype = 4 then cstr ''usbd'' else if iftype = 5 then cstr ''docd'' else cstr ''xx'')"

definition partition_info :: "block_dev \<Rightarrow> u32 \<Rightarrow> int \<Rightarrow> dos_partition \<Rightarrow> disk_partition" where
  "partition_info dev ext_part_sector part_num pt =
     \<lparr>dp_start = ext_part_sector + start4 pt, dp_size = size4 pt, dp_blksz = 512,
      dp_name = (name_prefix (if_type dev), chr8 CHR ''a'' + word_of_int (dev_no dev), part_num),
      dp_type = cstr ''U-Boot''\<rparr>"

text \<open>The entries of a table from the \<open>i\<close>-th on: the partition found, or the number of the next one.\<close>

fun scan_table ::
  "block_dev \<Rightarrow> u32 \<Rightarrow> dos_partition list \<Rightarrow> int \<Rightarrow> int \<Rightarrow> disk_partition + int" where
  "scan_table dev ext_part_sector [] part_num which_part = Inr part_num"
| "scan_table dev ext_part_sector (pt # pts) part_num which_part =
     (if boot_ind pt AND NOT 0x80 = 0 \<and> sys_ind pt \<noteq> 0 \<and> part_num = which_part \<and> \<not> is_extended (sys_ind pt)
      then Inl (partition_info dev ext_part_sector part_num pt)
      else scan_table dev ext_part_sector pts
        (if ext_part_sector = 0 \<or> sys_ind pt \<noteq> 0 \<and> \<not> is_extended (sys_ind pt) then part_num + 1 else part_num)
        which_part)"

definition table_of :: "u8 list \<Rightarrow> dos_partition list" where
  "table_of buffer = map (dos_partition_at buffer) [0..<4]"

text \<open>What the sectors of the next table are relative to.\<close>

definition chain_base :: "u32 \<Rightarrow> u32 \<Rightarrow> dos_partition \<Rightarrow> u32" where
  "chain_base ext_part_sector relative pt = (if ext_part_sector = 0 then start4 pt + relative else relative)"

partial_function (option) get_partition_info_extended ::
  "block_dev \<Rightarrow> u8 list \<Rightarrow> u32 \<Rightarrow> u32 \<Rightarrow> int \<Rightarrow> int \<Rightarrow> disk_partition option option" where
  "get_partition_info_extended dev junk ext_part_sector relative part_num which_part =
     (case read_sector dev junk ext_part_sector of
        None \<Rightarrow> None
      | Some (ok, buffer) \<Rightarrow>
          if \<not> ok \<or> \<not> signed_sector buffer then Some None
          else (case scan_table dev ext_part_sector (table_of buffer) part_num which_part of
              Inl info \<Rightarrow> Some (Some info)
            | Inr part_num \<Rightarrow>
                (case find (\<lambda>pt. is_extended (sys_ind pt)) (table_of buffer) of
                   None \<Rightarrow> Some None
                 | Some pt \<Rightarrow>
                     get_partition_info_extended dev junk (start4 pt + relative)
                       (chain_base ext_part_sector relative pt) part_num which_part)))"

definition get_partition_info_dos :: "block_dev \<Rightarrow> u8 list \<Rightarrow> int \<Rightarrow> disk_partition option option" where
  "get_partition_info_dos dev junk part = get_partition_info_extended dev junk 0 0 1 part"

definition get_partition_info :: "block_dev \<Rightarrow> u8 list \<Rightarrow> int \<Rightarrow> disk_partition option option" where
  "get_partition_info dev junk part =
     (if part_type dev = PART_TYPE_DOS then get_partition_info_dos dev junk part else Some None)"

section \<open>Printing\<close>

datatype part_line =
    PartLine int u32 u32 u8 bool
  | PbrLine u32 u8
  | BadSector u32
  | BadSignature u8 u8

datatype sector_kind = DOS_MBR | DOS_PBR | DOS_NONE

definition test_block_type :: "u8 list \<Rightarrow> sector_kind" where
  "test_block_type buffer =
     (if \<not> signed_sector buffer then DOS_NONE
      else if take 3 (drop DOS_PBR_FSTYPE_OFFSET buffer) = cstr ''FAT'' then DOS_PBR
      else DOS_MBR)"

fun print_table :: "u32 \<Rightarrow> dos_partition list \<Rightarrow> int \<Rightarrow> part_line list \<times> int" where
  "print_table ext_part_sector [] part_num = ([], part_num)"
| "print_table ext_part_sector (pt # pts) part_num =
     (let line = (if sys_ind pt \<noteq> 0 \<and> (ext_part_sector = 0 \<or> \<not> is_extended (sys_ind pt))
                  then [PartLine part_num (ext_part_sector + start4 pt) (size4 pt) (sys_ind pt) (is_extended (sys_ind pt))]
                  else []);
          (lines, fin) = print_table ext_part_sector pts
            (if ext_part_sector = 0 \<or> sys_ind pt \<noteq> 0 \<and> \<not> is_extended (sys_ind pt) then part_num + 1 else part_num)
      in (line @ lines, fin))"

partial_function (option) print_partition_extended ::
  "block_dev \<Rightarrow> u8 list \<Rightarrow> u32 \<Rightarrow> u32 \<Rightarrow> int \<Rightarrow> part_line list option" where
  "print_partition_extended dev junk ext_part_sector relative part_num =
     (case read_sector dev junk ext_part_sector of
        None \<Rightarrow> None
      | Some (ok, buffer) \<Rightarrow>
          if \<not> ok then Some [BadSector ext_part_sector]
          else if test_block_type buffer = DOS_NONE then
            Some [BadSignature (buffer ! DOS_PART_MAGIC_OFFSET) (buffer ! (DOS_PART_MAGIC_OFFSET + 1))]
          else if test_block_type buffer = DOS_PBR then
            Some [PbrLine (lba dev) (buffer ! DOS_PBR_MEDIA_TYPE_OFFSET)]
          else
            (case print_table ext_part_sector (table_of buffer) part_num of (lines, part_num) \<Rightarrow>
             do {
               l0 \<leftarrow> (if is_extended (sys_ind (dos_partition_at buffer 0))
                      then print_partition_extended dev junk (start4 (dos_partition_at buffer 0) + relative)
                             (chain_base ext_part_sector relative (dos_partition_at buffer 0)) part_num
                      else Some []);
               l1 \<leftarrow> (if is_extended (sys_ind (dos_partition_at buffer 1))
                      then print_partition_extended dev junk (start4 (dos_partition_at buffer 1) + relative)
                             (chain_base ext_part_sector relative (dos_partition_at buffer 1)) part_num
                      else Some []);
               l2 \<leftarrow> (if is_extended (sys_ind (dos_partition_at buffer 2))
                      then print_partition_extended dev junk (start4 (dos_partition_at buffer 2) + relative)
                             (chain_base ext_part_sector relative (dos_partition_at buffer 2)) part_num
                      else Some []);
               l3 \<leftarrow> (if is_extended (sys_ind (dos_partition_at buffer 3))
                      then print_partition_extended dev junk (start4 (dos_partition_at buffer 3) + relative)
                             (chain_base ext_part_sector relative (dos_partition_at buffer 3)) part_num
                      else Some []);
               Some (lines @ l0 @ l1 @ l2 @ l3)
             }))"

definition print_part_dos :: "block_dev \<Rightarrow> u8 list \<Rightarrow> part_line list option" where
  "print_part_dos dev junk = print_partition_extended dev junk 0 0 1"

end
