(* ===== verification/Fat.thy ===== *)
theory Fat
  imports DosPart
begin

text \<open>
  The file allocation table file system of \<open>fs/fat/fat.c\<close>: reading the table, cluster chains, directories
  with long names, and files by their path. What a function leaves in its buffers is part of the state,
  the uninitialised ones of the stack as a parameter.
\<close>

section \<open>Layouts\<close>

record boot_sector =
  ignored :: "u8 list"
  system_id :: "u8 list"
  sector_size :: "u8 list"
  cluster_size :: u8
  reserved :: u16
  fats :: u8
  dir_entries :: "u8 list"
  bs_sectors :: "u8 list"
  media :: u8
  fat_length :: u16
  secs_track :: u16
  heads :: u16
  hidden :: u32
  total_sect :: u32
  fat32_length :: u32
  bs_flags :: u16
  version :: "u8 list"
  root_cluster :: u32
  info_sector :: u16
  backup_boot :: u16

definition boot_sector_of :: "u8 list \<Rightarrow> boot_sector" where
  "boot_sector_of b = \<lparr>ignored = take 3 b, system_id = take 8 (drop 3 b), sector_size = take 2 (drop 11 b),
     cluster_size = b ! 13, reserved = le16 b 14, fats = b ! 16, dir_entries = take 2 (drop 17 b),
     bs_sectors = take 2 (drop 19 b), media = b ! 21, fat_length = le16 b 22, secs_track = le16 b 24,
     heads = le16 b 26, hidden = le32 b 28, total_sect = le32 b 32, fat32_length = le32 b 36,
     bs_flags = le16 b 40, version = take 2 (drop 42 b), root_cluster = le32 b 44, info_sector = le16 b 48,
     backup_boot = le16 b 50\<rparr>"

record volume_info =
  drive_number :: u8
  vi_reserved :: u8
  ext_boot_sign :: u8
  volume_id :: "u8 list"
  volume_label :: "u8 list"
  fs_type :: "u8 list"

definition volume_info_of :: "u8 list \<Rightarrow> volume_info" where
  "volume_info_of b = \<lparr>drive_number = b ! 0, vi_reserved = b ! 1, ext_boot_sign = b ! 2,
     volume_id = take 4 (drop 3 b), volume_label = take 11 (drop 7 b), fs_type = take 8 (drop 18 b)\<rparr>"

record dir_entry =
  de_name :: "u8 list"
  de_ext :: "u8 list"
  de_attr :: u8
  de_lcase :: u8
  de_ctime_ms :: u8
  de_ctime :: u16
  de_cdate :: u16
  de_adate :: u16
  de_starthi :: u16
  de_time :: u16
  de_date :: u16
  de_start :: u16
  de_size :: u32

definition dir_entry_of :: "u8 list \<Rightarrow> dir_entry" where
  "dir_entry_of b = \<lparr>de_name = take 8 b, de_ext = take 3 (drop 8 b), de_attr = b ! 11, de_lcase = b ! 12,
     de_ctime_ms = b ! 13, de_ctime = le16 b 14, de_cdate = le16 b 16, de_adate = le16 b 18,
     de_starthi = le16 b 20, de_time = le16 b 22, de_date = le16 b 24, de_start = le16 b 26, de_size = le32 b 28\<rparr>"

record dir_slot =
  slot_id :: u8
  name0_4 :: "u8 list"
  slot_attr :: u8
  slot_reserved :: u8
  alias_checksum :: u8
  name5_10 :: "u8 list"
  slot_start :: u16
  name11_12 :: "u8 list"

definition dir_slot_of :: "u8 list \<Rightarrow> dir_slot" where
  "dir_slot_of b = \<lparr>slot_id = b ! 0, name0_4 = take 10 (drop 1 b), slot_attr = b ! 11, slot_reserved = b ! 12,
     alias_checksum = b ! 13, name5_10 = take 12 (drop 14 b), slot_start = le16 b 26, name11_12 = take 4 (drop 28 b)\<rparr>"

text \<open>The bytes of the \<open>i\<close>-th entry of a directory buffer.\<close>

definition ent_at :: "u8 list \<Rightarrow> nat \<Rightarrow> u8 list option" where
  "ent_at buf i = sub_bytes buf (32 * i) 32"

definition ATTR_VOLUME :: u8 where "ATTR_VOLUME = 8"
definition ATTR_DIR :: u8 where "ATTR_DIR = 16"
definition ATTR_VFAT :: u8 where "ATTR_VFAT = 1 OR 2 OR 4 OR 8"
definition DELETED_FLAG :: u8 where "DELETED_FLAG = 0xe5"
definition aRING :: u8 where "aRING = 0x05"
definition LAST_LONG_ENTRY_MASK :: u8 where "LAST_LONG_ENTRY_MASK = 0x40"

definition FATBUFBLOCKS :: nat where "FATBUFBLOCKS = 6"
definition FATBUFSIZE :: nat where "FATBUFSIZE = 512 * FATBUFBLOCKS"
definition FAT12BUFSIZE :: nat where "FAT12BUFSIZE = FATBUFSIZE * 2 div 3"
definition FAT16BUFSIZE :: nat where "FAT16BUFSIZE = FATBUFSIZE div 2"
definition FAT32BUFSIZE :: nat where "FAT32BUFSIZE = FATBUFSIZE div 4"
definition MAX_CLUSTSIZE :: nat where "MAX_CLUSTSIZE = 65536"

text \<open>How much is to be listed: \<open>LS_NO\<close>, \<open>LS_YES\<close> and \<open>LS_ROOT\<close>; what is printed then.\<close>

datatype ls_mode = LS_NO | LS_YES | LS_ROOT

datatype ls_line = LsFile u32 "u8 list" | LsDir "u8 list" | LsTotal int int

section \<open>The state\<close>

text \<open>
  The device the file system is on, and what uninitialised buffers of the stack hold. \<open>block_read\<close> is
  called with sectors of the device, \<open>disk_read\<close> with sectors of the partition; the count is returned as
  an \<open>int\<close>.
\<close>

record fat_dev =
  cur_dev :: "block_dev option"
  part_offset :: u32
  cur_part :: int
  stack_junk :: "u8 list"

definition disk_read :: "fat_dev \<Rightarrow> u32 \<Rightarrow> u32 \<Rightarrow> int \<times> u8 list" where
  "disk_read fd startblock getsize =
     (case cur_dev fd of
        None \<Rightarrow> (-1, [])
      | Some d \<Rightarrow> (case block_read d of
          None \<Rightarrow> (-1, [])
        | Some rd \<Rightarrow> (case rd (startblock + part_offset fd) getsize of (r, bytes) \<Rightarrow> (sint r, bytes))))"

record fsdata =
  fatbuf :: "u8 list"
  fatsize :: int
  fatlength :: u16
  fat_sect :: u16
  rootdir_sect :: u16
  clust_size :: u16
  data_begin :: u16
  fatbufnum :: u32

text \<open>The static buffers, and the lines printed so far.\<close>

record fat_state = fsdata +
  get_vfatname_block :: "u8 list"
  get_dentfromdir_block :: "u8 list"
  do_fat_read_block :: "u8 list"
  ls_out :: "ls_line list"

definition START :: "fat_state \<Rightarrow> dir_entry \<Rightarrow> u32" where
  "START fs d = ucast (de_start d) + (if fatsize fs \<noteq> 32 then 0 else push_bit 16 (ucast (de_starthi d)))"

definition CHECK_CLUST :: "u32 \<Rightarrow> int \<Rightarrow> bool" where
  "CHECK_CLUST x bits \<longleftrightarrow> x \<le> 1 \<or> (if bits \<noteq> 32 then 0xfff0 else 0xffffff0) \<le> x"

section \<open>Names\<close>

definition to_lower :: "u8 \<Rightarrow> u8" where
  "to_lower c = (if chr8 CHR ''A'' \<le> c \<and> c \<le> chr8 CHR ''Z'' then c + (chr8 CHR ''a'' - chr8 CHR ''A'') else c)"

definition downcase :: "u8 list \<Rightarrow> u8 list" where
  "downcase = map to_lower"

definition ISDIRDELIM :: "u8 \<Rightarrow> bool" where
  "ISDIRDELIM c \<longleftrightarrow> c = chr8 CHR ''/'' \<or> c = chr8 CHR 0x5C"

text \<open>The part before the first delimiter and, if there is one, the part behind it.\<close>

definition dirdelim :: "u8 list \<Rightarrow> (u8 list \<times> u8 list) option" where
  "dirdelim str =
     (let pre = takeWhile (\<lambda>c. \<not> ISDIRDELIM c) str
      in if length pre < length str then Some (pre, drop (length pre + 1) str) else None)"

definition name_end :: "u8 \<Rightarrow> bool" where
  "name_end c \<longleftrightarrow> c = 0 \<or> c = chr8 CHR '' ''"

text \<open>A first character \<open>0xe5\<close> marks a deleted entry; the character itself is written as \<open>0x05\<close>.\<close>

definition fix_first :: "u8 list \<Rightarrow> u8 list" where
  "fix_first s = (case s of [] \<Rightarrow> []
     | c # r \<Rightarrow> if c = DELETED_FLAG then [] else if c = aRING then DELETED_FLAG # r else c # r)"

definition get_name :: "dir_entry \<Rightarrow> u8 list" where
  "get_name d =
     (let base = takeWhile (\<lambda>c. \<not> name_end c) (de_name d);
          ext = (if \<not> name_end (hd (de_ext d)) then chr8 CHR ''.'' # takeWhile (\<lambda>c. \<not> name_end c) (de_ext d) else [])
      in downcase (fix_first (base @ ext)))"

definition mkcksum :: "u8 list \<Rightarrow> u8" where
  "mkcksum str = foldl (\<lambda>ret c. (push_bit 7 (ret AND 1) OR drop_bit 1 (ret AND 0xfe)) + c) 0 (take 11 str)"

section \<open>The table\<close>

text \<open>An entry of the part of the table in the buffer.\<close>

definition fat12_entry :: "u8 list \<Rightarrow> nat \<Rightarrow> u32" where
  "fat12_entry buf offset =
     (let off16 = offset * 3 div 4; half = (\<lambda>i. le16 buf (2 * i))
      in if offset mod 4 = 0 then ucast (half off16) AND 0xfff
         else if offset mod 4 = 1 then
           push_bit 4 (ucast (half (off16 + 1) AND 0x00ff)) OR ucast (drop_bit 12 (half off16 AND 0xf000))
         else if offset mod 4 = 2 then
           push_bit 8 (ucast (half (off16 + 1) AND 0x000f)) OR ucast (drop_bit 8 (half off16 AND 0xff00))
         else drop_bit 4 (ucast (half off16) AND 0xfff0))"

definition buffered_entry :: "fat_state \<Rightarrow> nat \<Rightarrow> u32" where
  "buffered_entry fs offset =
     (if fatsize fs = 32 then le32 (fatbuf fs) (4 * offset)
      else if fatsize fs = 16 then ucast (le16 (fatbuf fs) (2 * offset))
      else if fatsize fs = 12 then fat12_entry (fatbuf fs) offset
      else 0)"

definition get_fatent :: "fat_dev \<Rightarrow> fat_state \<Rightarrow> u32 \<Rightarrow> (u32 \<times> fat_state) option" where
  "get_fatent fd fs entry =
     (if fatsize fs \<notin> {32, 16, 12} then Some (0, fs)
      else
        let per = (if fatsize fs = 32 then FAT32BUFSIZE else if fatsize fs = 16 then FAT16BUFSIZE else FAT12BUFSIZE);
            bufnum = entry div of_nat per;
            offset = unat (entry - bufnum * of_nat per)
        in if bufnum \<noteq> fatbufnum fs then
             (let fatbytes = ucast (fatlength fs) * 512 :: u32;
                  startblock = bufnum * of_nat FATBUFBLOCKS + ucast (fat_sect fs);
                  getsize = (if fatbytes < of_nat FATBUFBLOCKS then fatbytes else of_nat FATBUFBLOCKS);
                  (r, bytes) = disk_read fd startblock getsize
              in do {
                buf \<leftarrow> store_bytes (fatbuf fs) 0 bytes;
                let fs = fs\<lparr>fatbuf := buf\<rparr>;
                if r < 0 then Some (0, fs)
                else let fs = fs\<lparr>fatbufnum := bufnum\<rparr> in Some (buffered_entry fs offset, fs)
              })
           else Some (buffered_entry fs offset, fs))"

section \<open>Clusters\<close>

text \<open>
  \<open>get_cluster\<close> reads \<open>len\<close> bytes of a cluster, or of the root directory, to the place \<open>at\<close> of a
  buffer; the last part of a sector goes through a buffer of its own.
\<close>

definition start_sector :: "fat_state \<Rightarrow> u32 \<Rightarrow> u32" where
  "start_sector fs clustnum =
     (if 0 < clustnum then scast (data_begin fs) + clustnum * ucast (clust_size fs) else ucast (rootdir_sect fs))"

definition get_cluster ::
  "fat_dev \<Rightarrow> fat_state \<Rightarrow> u32 \<Rightarrow> u8 list \<Rightarrow> nat \<Rightarrow> u32 \<Rightarrow> (int \<times> u8 list) option" where
  "get_cluster fd fs clustnum buffer at len =
     (let startsect = start_sector fs clustnum;
          (r, bytes) = disk_read fd startsect (len div 512)
      in do {
        buffer \<leftarrow> store_bytes buffer at bytes;
        if r < 0 then Some (-1, buffer)
        else if len mod 512 \<noteq> 0 then
          (let idx = len div 512; (r, bytes) = disk_read fd (startsect + idx) 1
           in do {
             tmpbuf \<leftarrow> store_bytes (stack_junk fd) 0 bytes;
             if r < 0 then Some (-1, buffer)
             else do {
               buffer \<leftarrow> store_bytes buffer (at + unat (idx * 512)) (take (unat (len mod 512)) tmpbuf);
               Some (0, buffer)
             }
           })
        else Some (0, buffer)
      })"

section \<open>Files\<close>

text \<open>
  The inner loop of \<open>get_contents\<close> follows the chain as long as the clusters lie behind one another. It
  ends with the end of the file, with a gap, or with an invalid entry of the table.
\<close>

datatype run = RunEnd | RunGap | RunBad

partial_function (option) consecutive ::
  "fat_dev \<Rightarrow> u32 \<Rightarrow> u32 \<Rightarrow> fat_state \<Rightarrow> u32 \<Rightarrow> u32 \<Rightarrow> (run \<times> fat_state \<times> u32 \<times> u32) option" where
  "consecutive fd bytesperclust filesize fs endclust actsize =
     (if actsize < filesize then
        do {
          (newclust, fs) \<leftarrow> get_fatent fd fs endclust;
          if newclust - 1 \<noteq> endclust then Some (RunGap, fs, endclust, actsize)
          else if CHECK_CLUST newclust (fatsize fs) then Some (RunBad, fs, endclust, actsize)
          else consecutive fd bytesperclust filesize fs newclust (actsize + bytesperclust)
        }
      else Some (RunEnd, fs, endclust, actsize))"

partial_function (option) contents_loop ::
  "fat_dev \<Rightarrow> u32 \<Rightarrow> fat_state \<Rightarrow> u32 \<Rightarrow> u32 \<Rightarrow> u32 \<Rightarrow> u8 list \<Rightarrow> nat \<Rightarrow> (int \<times> fat_state \<times> u8 list) option" where
  "contents_loop fd bytesperclust fs curclust filesize gotsize buffer at =
     do {
       (run, fs, endclust, actsize) \<leftarrow> consecutive fd bytesperclust filesize fs curclust bytesperclust;
       if run = RunBad then Some (sint gotsize, fs, buffer)
       else if run = RunEnd then do {
         (r, buffer) \<leftarrow> get_cluster fd fs curclust buffer at (actsize - bytesperclust);
         if r \<noteq> 0 then Some (-1, fs, buffer)
         else do {
           (r, buffer) \<leftarrow> get_cluster fd fs endclust buffer (at + unat (actsize - bytesperclust))
                           (filesize - (actsize - bytesperclust));
           if r \<noteq> 0 then Some (-1, fs, buffer) else Some (sint (gotsize + filesize), fs, buffer)
         }
       }
       else do {
         (r, buffer) \<leftarrow> get_cluster fd fs curclust buffer at actsize;
         if r \<noteq> 0 then Some (-1, fs, buffer)
         else do {
           (newclust, fs) \<leftarrow> get_fatent fd fs endclust;
           if CHECK_CLUST newclust (fatsize fs) then Some (sint (gotsize + actsize), fs, buffer)
           else contents_loop fd bytesperclust fs newclust (filesize - actsize) (gotsize + actsize) buffer
                  (at + unat actsize)
         }
       }
     }"

definition get_contents ::
  "fat_dev \<Rightarrow> fat_state \<Rightarrow> dir_entry \<Rightarrow> u8 list \<Rightarrow> u32 \<Rightarrow> (int \<times> fat_state \<times> u8 list) option" where
  "get_contents fd fs dentptr buffer maxsize =
     (let filesize = (if 0 < maxsize \<and> maxsize < de_size dentptr then maxsize else de_size dentptr)
      in contents_loop fd (ucast (clust_size fs) * 512) fs (START fs dentptr) filesize 0 buffer 0)"

section \<open>Long names\<close>

text \<open>
  A slot holds 13 characters of two bytes, of which the first is taken. \<open>l_name\<close> has room for 256
  characters; \<open>slot2str\<close> adds those of a slot up to a zero and says whether there was one.
\<close>

definition slot_chars :: "dir_slot \<Rightarrow> u8 list" where
  "slot_chars s = map (nth (name0_4 s)) [0, 2, 4, 6, 8] @ map (nth (name5_10 s)) [0, 2, 4, 6, 8, 10]
     @ map (nth (name11_12 s)) [0, 2]"

definition slot2str :: "dir_slot \<Rightarrow> u8 list \<Rightarrow> (bool \<times> u8 list) option" where
  "slot2str s l_name =
     (let part = takeWhile (\<lambda>c. c \<noteq> 0) (slot_chars s);
          zero = length part < length (slot_chars s)
      in if length l_name + length part + (if zero then 1 else 0) \<le> 256 then Some (zero, l_name @ part) else None)"

text \<open>
  The slots of a name precede its entry in descending order; the first loop of \<open>get_vfatname\<close> counts
  them down from the first and stops at the entry or at the end of the cluster.
\<close>

fun vfat_slots :: "u8 list \<Rightarrow> nat \<Rightarrow> nat \<Rightarrow> nat \<Rightarrow> nat option option" where
  "vfat_slots cluster limit k 0 = Some (Some k)"
| "vfat_slots cluster limit k (Suc c) =
     (if limit \<le> 32 * k then Some (Some k)
      else case ent_at cluster k of
        None \<Rightarrow> None
      | Some e \<Rightarrow> if unat (slot_id (dir_slot_of e) AND NOT LAST_LONG_ENTRY_MASK) \<noteq> Suc c then Some None
                 else vfat_slots cluster limit (k + 1) c)"

text \<open>In the next cluster: the first slot with a number up to 1, and all slots from it back to the start.\<close>

function last_slot :: "u8 list \<Rightarrow> nat \<Rightarrow> nat option" where
  "last_slot block k =
     (case ent_at block k of
        None \<Rightarrow> None
      | Some e \<Rightarrow> if 0x01 < slot_id (dir_slot_of e) then last_slot block (k + 1) else Some k)"
  by pat_completeness auto
termination
  by (relation "measure (\<lambda>(block, k). length block - k)") (auto simp: ent_at_def sub_bytes_def split: if_splits)

declare last_slot.simps [simp del]

fun names_to_start :: "u8 list \<Rightarrow> nat \<Rightarrow> u8 list \<Rightarrow> u8 list option" where
  "names_to_start block 0 l_name = Some l_name"
| "names_to_start block (Suc k) l_name =
     do { e \<leftarrow> ent_at block k; (_, l_name) \<leftarrow> slot2str (dir_slot_of e) l_name; names_to_start block k l_name }"

text \<open>From the slot before the \<open>k\<close>-th back to the one marked as the last of the name.\<close>

fun names_back :: "u8 list \<Rightarrow> nat \<Rightarrow> u8 list \<Rightarrow> u8 list option" where
  "names_back cluster 0 l_name = None"
| "names_back cluster (Suc k) l_name =
     do {
       e \<leftarrow> ent_at cluster k;
       (zero, l_name) \<leftarrow> slot2str (dir_slot_of e) l_name;
       if zero \<or> slot_id (dir_slot_of e) AND LAST_LONG_ENTRY_MASK \<noteq> 0 then Some l_name
       else names_back cluster k l_name
     }"

text \<open>
  The result, the buffer with the entry copied over the first slot at \<open>i\<close>, and the name, which is
  empty where the function fails.
\<close>

definition get_vfatname ::
  "fat_dev \<Rightarrow> fat_state \<Rightarrow> u32 \<Rightarrow> u8 list \<Rightarrow> nat \<Rightarrow> (int \<times> fat_state \<times> u8 list \<times> u8 list) option" where
  "get_vfatname fd fs curclust cluster i =
     do {
       first \<leftarrow> ent_at cluster i;
       let limit = unat (clust_size fs) * 512;
       let counter = unat (slot_id (dir_slot_of first) AND NOT LAST_LONG_ENTRY_MASK);
       up \<leftarrow> vfat_slots cluster limit i counter;
       (case up of
          None \<Rightarrow> Some (-1, fs, cluster, [])
        | Some k \<Rightarrow>
            if limit \<le> 32 * k then do {
              (curclust, fs) \<leftarrow> get_fatent fd fs curclust;
              if CHECK_CLUST curclust (fatsize fs) then Some (-1, fs, cluster, [])
              else do {
                (r, block) \<leftarrow> get_cluster fd fs curclust (get_vfatname_block fs) 0 (ucast (clust_size fs) * 512);
                let fs = fs\<lparr>get_vfatname_block := block\<rparr>;
                if r \<noteq> 0 then Some (-1, fs, cluster, [])
                else do {
                  k2 \<leftarrow> last_slot block 0;
                  l_name \<leftarrow> names_to_start block (k2 + 1) [];
                  l_name \<leftarrow> names_back cluster (k - 1) l_name;
                  realdent \<leftarrow> ent_at block (k2 + 1);
                  if 256 \<le> length l_name then None
                  else Some (0, fs, overwrite cluster (32 * i) realdent, downcase (fix_first l_name))
                }
              }
            }
            else do {
              l_name \<leftarrow> names_back cluster k [];
              realdent \<leftarrow> ent_at cluster k;
              if 256 \<le> length l_name then None
              else Some (0, fs, overwrite cluster (32 * i) realdent, downcase (fix_first l_name))
            })
     }"

section \<open>Directories\<close>

text \<open>A line of a listing; \<open>strict\<close> leaves out directories without a name as well as files.\<close>

definition list_dent :: "bool \<Rightarrow> dir_entry \<Rightarrow> u8 list \<Rightarrow> int \<Rightarrow> int \<Rightarrow> fat_state \<Rightarrow> int \<times> int \<times> fat_state" where
  "list_dent strict d nm files dirs fs =
     (if de_attr d AND ATTR_DIR \<noteq> 0 then
        (if strict \<and> nm = [] then (files, dirs, fs) else (files, dirs + 1, fs\<lparr>ls_out := ls_out fs @ [LsDir nm]\<rparr>))
      else if nm \<noteq> [] then (files + 1, dirs, fs\<lparr>ls_out := ls_out fs @ [LsFile (de_size d) nm]\<rparr>)
      else (files, dirs, fs))"

definition is_long :: "dir_entry \<Rightarrow> bool" where
  "is_long d \<longleftrightarrow> de_attr d AND ATTR_VFAT \<noteq> 0 \<and> hd (de_name d) AND LAST_LONG_ENTRY_MASK \<noteq> 0"

text \<open>What the scan of a cluster ends with: the entry found, the end of the directory, or the next cluster.\<close>

datatype dent_result = DentFound "u8 list" | DentNull | DentMore u16 int int

fun dent_scan ::
  "fat_dev \<Rightarrow> u32 \<Rightarrow> u8 list \<Rightarrow> bool \<Rightarrow> nat \<Rightarrow> nat \<Rightarrow> u16 \<Rightarrow> int \<Rightarrow> int \<Rightarrow> fat_state \<Rightarrow> (dent_result \<times> fat_state) option" where
  "dent_scan fd curclust filename dols i 0 prevcksum files dirs fs = Some (DentMore prevcksum files dirs, fs)"
| "dent_scan fd curclust filename dols i (Suc k) prevcksum files dirs fs =
     do {
       e \<leftarrow> ent_at (get_dentfromdir_block fs) i;
       let d = dir_entry_of e;
       let volume = (de_attr d AND ATTR_VOLUME \<noteq> 0);
       if hd (de_name d) = DELETED_FLAG \<or> volume \<and> \<not> is_long d then
         dent_scan fd curclust filename dols (i + 1) k prevcksum files dirs fs
       else do {
         (prevcksum, fs, l_name) \<leftarrow>
           (if volume then do {
              (_, fs, block, l_name) \<leftarrow> get_vfatname fd fs curclust (get_dentfromdir_block fs) i;
              Some (ucast (alias_checksum (dir_slot_of e)), fs\<lparr>get_dentfromdir_block := block\<rparr>, l_name)
            }
            else Some (prevcksum, fs, []));
         e \<leftarrow> ent_at (get_dentfromdir_block fs) i;
         let d = dir_entry_of e;
         if volume \<and> dols then
           (case list_dent False d l_name files dirs fs of (files, dirs, fs) \<Rightarrow>
              dent_scan fd curclust filename dols (i + 1) k prevcksum files dirs fs)
         else if hd (de_name d) = 0 then
           Some (DentNull, if dols then fs\<lparr>ls_out := ls_out fs @ [LsTotal files dirs]\<rparr> else fs)
         else if dols \<and> ucast (mkcksum e) = prevcksum then
           dent_scan fd curclust filename dols (i + 1) k prevcksum files dirs fs
         else if dols then
           (case list_dent False d (get_name d) files dirs fs of (files, dirs, fs) \<Rightarrow>
              dent_scan fd curclust filename dols (i + 1) k prevcksum files dirs fs)
         else if filename \<noteq> get_name d \<and> filename \<noteq> l_name then
           dent_scan fd curclust filename dols (i + 1) k prevcksum files dirs fs
         else Some (DentFound e, fs)
       }
     }"

partial_function (option) dentfromdir_loop ::
  "fat_dev \<Rightarrow> u8 list \<Rightarrow> bool \<Rightarrow> u32 \<Rightarrow> u16 \<Rightarrow> int \<Rightarrow> int \<Rightarrow> fat_state \<Rightarrow> (u8 list option \<times> fat_state) option" where
  "dentfromdir_loop fd filename dols curclust prevcksum files dirs fs =
     do {
       (r, block) \<leftarrow> get_cluster fd fs curclust (get_dentfromdir_block fs) 0 (ucast (clust_size fs) * 512);
       if r \<noteq> 0 then Some (None, fs\<lparr>get_dentfromdir_block := block\<rparr>)
       else do {
         (res, fs) \<leftarrow> dent_scan fd curclust filename dols 0 (unat (clust_size fs) * 16) prevcksum files dirs
                       (fs\<lparr>get_dentfromdir_block := block\<rparr>);
         (case res of
            DentFound e \<Rightarrow> Some (Some e, fs)
          | DentNull \<Rightarrow> Some (None, fs)
          | DentMore prevcksum files dirs \<Rightarrow> do {
              (newclust, fs) \<leftarrow> get_fatent fd fs curclust;
              if CHECK_CLUST newclust (fatsize fs) then Some (None, fs)
              else dentfromdir_loop fd filename dols newclust prevcksum files dirs fs
            })
       }
     }"

definition get_dentfromdir ::
  "fat_dev \<Rightarrow> fat_state \<Rightarrow> u8 list \<Rightarrow> dir_entry \<Rightarrow> bool \<Rightarrow> (u8 list option \<times> fat_state) option" where
  "get_dentfromdir fd fs filename retdent dols =
     dentfromdir_loop fd filename dols (START fs retdent) 0xffff 0 0 fs"

section \<open>The volume\<close>

text \<open>\<open>None\<close> inside is the result -1.\<close>

definition read_bootsectandvi :: "fat_dev \<Rightarrow> (boot_sector \<times> volume_info \<times> int) option option" where
  "read_bootsectandvi fd =
     (case disk_read fd 0 1 of (r, bytes) \<Rightarrow>
       do {
         block \<leftarrow> store_bytes (stack_junk fd) 0 bytes;
         if r < 0 then Some None
         else
           (let bs = boot_sector_of block;
                fat32 = (fat_length bs = 0);
                vistart = volume_info_of (drop (if fat32 then 64 else 36) block)
            in Some (if fat32 \<and> fs_type vistart = cstr ''FAT32   '' then Some (bs, vistart, 32)
                     else if \<not> fat32 \<and> fs_type vistart = cstr ''FAT12   '' then Some (bs, vistart, 12)
                     else if \<not> fat32 \<and> fs_type vistart = cstr ''FAT16   '' then Some (bs, vistart, 16)
                     else None))
       })"

text \<open>The private parameters that \<open>do_fat_read\<close> derives from the boot sector; all are 16 bits wide.\<close>

definition rootdir_size :: "boot_sector \<Rightarrow> u32" where
  "rootdir_size bs = (ucast (dir_entries bs ! 1) * 256 + ucast (dir_entries bs ! 0)) * 32 div 512"

definition mount :: "boot_sector \<Rightarrow> int \<Rightarrow> fat_state \<Rightarrow> fat_state" where
  "mount bs bits fs =
     (let length16 = (if bits = 32 then ucast (fat32_length bs) else fat_length bs);
          root = reserved bs + length16 * ucast (fats bs);
          clust = ucast (cluster_size bs)
      in fs\<lparr>fatsize := bits, fatlength := length16, fat_sect := reserved bs, rootdir_sect := root,
            clust_size := clust,
            data_begin := (if bits = 32 then root - clust * 2 else root + ucast (rootdir_size bs) - clust * 2),
            fatbufnum := - 1\<rparr>)"

section \<open>The root directory\<close>

datatype root_result = RootFound "u8 list" | RootReturn int | RootMore u16 int int

fun root_scan ::
  "fat_dev \<Rightarrow> u8 list \<Rightarrow> ls_mode \<Rightarrow> nat \<Rightarrow> nat \<Rightarrow> u16 \<Rightarrow> int \<Rightarrow> int \<Rightarrow> fat_state \<Rightarrow> (root_result \<times> fat_state) option" where
  "root_scan fd fnamecopy dols i 0 prevcksum files dirs fs = Some (RootMore prevcksum files dirs, fs)"
| "root_scan fd fnamecopy dols i (Suc k) prevcksum files dirs fs =
     do {
       e \<leftarrow> ent_at (do_fat_read_block fs) i;
       let d = dir_entry_of e;
       let volume = (de_attr d AND ATTR_VOLUME \<noteq> 0);
       if volume \<and> \<not> is_long d then root_scan fd fnamecopy dols (i + 1) k prevcksum files dirs fs
       else if \<not> volume \<and> hd (de_name d) = 0 then
         Some (if dols = LS_ROOT then (RootReturn 0, fs\<lparr>ls_out := ls_out fs @ [LsTotal files dirs]\<rparr>)
               else (RootReturn (-1), fs))
       else if \<not> volume \<and> dols = LS_ROOT \<and> ucast (mkcksum e) = prevcksum then
         root_scan fd fnamecopy dols (i + 1) k prevcksum files dirs fs
       else do {
         (prevcksum, fs, l_name) \<leftarrow>
           (if volume then do {
              (_, fs, block, l_name) \<leftarrow> get_vfatname fd fs 0 (do_fat_read_block fs) i;
              Some (ucast (alias_checksum (dir_slot_of e)), fs\<lparr>do_fat_read_block := block\<rparr>, l_name)
            }
            else Some (prevcksum, fs, []));
         e \<leftarrow> ent_at (do_fat_read_block fs) i;
         let d = dir_entry_of e;
         if dols = LS_ROOT then
           (case list_dent (\<not> volume) d (if volume then l_name else get_name d) files dirs fs of (files, dirs, fs) \<Rightarrow>
              root_scan fd fnamecopy dols (i + 1) k prevcksum files dirs fs)
         else if fnamecopy \<noteq> get_name d \<and> fnamecopy \<noteq> l_name then
           root_scan fd fnamecopy dols (i + 1) k prevcksum files dirs fs
         else Some (RootFound e, fs)
       }
     }"

text \<open>Sector after sector, until the entry or an entry without a name is found.\<close>

partial_function (option) root_loop ::
  "fat_dev \<Rightarrow> u8 list \<Rightarrow> ls_mode \<Rightarrow> u32 \<Rightarrow> u16 \<Rightarrow> int \<Rightarrow> int \<Rightarrow> fat_state \<Rightarrow> ((int + u8 list) \<times> fat_state) option" where
  "root_loop fd fnamecopy dols cursect prevcksum files dirs fs =
     (case disk_read fd cursect (ucast (clust_size fs)) of (r, bytes) \<Rightarrow>
       do {
         block \<leftarrow> store_bytes (do_fat_read_block fs) 0 bytes;
         if r < 0 then Some (Inl (-1), fs\<lparr>do_fat_read_block := block\<rparr>)
         else do {
           (res, fs) \<leftarrow> root_scan fd fnamecopy dols 0 16 prevcksum files dirs (fs\<lparr>do_fat_read_block := block\<rparr>);
           (case res of
              RootFound e \<Rightarrow> Some (Inr e, fs)
            | RootReturn ret \<Rightarrow> Some (Inl ret, fs)
            | RootMore prevcksum files dirs \<Rightarrow>
                root_loop fd fnamecopy dols (cursect + 1) prevcksum files dirs fs)
         }
       })"

section \<open>Paths\<close>

text \<open>
  Down the directories of a path: the value to return, or the entry of the file. \<open>dols\<close> and \<open>firsttime\<close>
  make the last directory be listed.
\<close>

partial_function (option) path_loop ::
  "fat_dev \<Rightarrow> bool \<Rightarrow> bool \<Rightarrow> bool \<Rightarrow> u8 list \<Rightarrow> u8 list \<Rightarrow> fat_state \<Rightarrow> ((int + u8 list) \<times> fat_state) option" where
  "path_loop fd dols isdir firsttime subname dent fs =
     (if \<not> isdir then Some (Inr dent, fs)
      else case dirdelim subname of
        Some (name, rest) \<Rightarrow> do {
          (res, fs) \<leftarrow> get_dentfromdir fd fs name (dir_entry_of dent) False;
          (case res of
             None \<Rightarrow> Some (Inl (-1), fs)
           | Some e \<Rightarrow>
               if de_attr (dir_entry_of e) AND ATTR_DIR = 0 then Some (Inl (-1), fs)
               else path_loop fd dols True (if dols \<and> dropWhile ISDIRDELIM rest = [] then False else firsttime)
                      (dropWhile ISDIRDELIM rest) e fs)
        }
      | None \<Rightarrow> do {
          (res, fs) \<leftarrow> get_dentfromdir fd fs subname (dir_entry_of dent) (if dols \<and> firsttime then False else dols);
          (case res of
             None \<Rightarrow> Some (Inl (if dols \<and> \<not> (dols \<and> firsttime) then 0 else -1), fs)
           | Some e \<Rightarrow> path_loop fd dols (dols \<and> firsttime) (if dols \<and> firsttime then False else firsttime) subname e fs)
        })"

definition do_fat_read ::
  "fat_dev \<Rightarrow> fat_state \<Rightarrow> u8 list \<Rightarrow> u8 list \<Rightarrow> u32 \<Rightarrow> ls_mode \<Rightarrow> (int \<times> fat_state \<times> u8 list) option" where
  "do_fat_read fd fs filename buffer maxsize dols =
     do {
       vi \<leftarrow> read_bootsectandvi fd;
       (case vi of
          None \<Rightarrow> Some (-1, fs, buffer)
        | Some (bs, volinfo, bits) \<Rightarrow>
            let fs = mount bs bits fs;
                filename = dropWhile ISDIRDELIM filename;
                fnamecopy = downcase filename
            in if 2048 \<le> length filename then None
               else if fnamecopy = [] \<and> dols = LS_NO then Some (-1, fs, buffer)
               else
                 (case (if fnamecopy = [] then ([], [], False)
                        else case dirdelim fnamecopy of
                          Some (name, rest) \<Rightarrow> (name, dropWhile ISDIRDELIM rest, True)
                        | None \<Rightarrow> (fnamecopy, [], dols \<noteq> LS_NO)) of
                    (name, subname, isdir) \<Rightarrow> do {
                      (res, fs) \<leftarrow> root_loop fd name (if fnamecopy = [] then LS_ROOT else dols)
                                    (ucast (rootdir_sect fs)) 0xffff 0 0 fs;
                      (case res of
                         Inl ret \<Rightarrow> Some (ret, fs, buffer)
                       | Inr dent \<Rightarrow>
                           if isdir \<and> de_attr (dir_entry_of dent) AND ATTR_DIR = 0 then Some (-1, fs, buffer)
                           else do {
                             (res, fs) \<leftarrow> path_loop fd (dols \<noteq> LS_NO) isdir True subname dent fs;
                             (case res of
                                Inl ret \<Rightarrow> Some (ret, fs, buffer)
                              | Inr dent \<Rightarrow> get_contents fd fs (dir_entry_of dent) buffer maxsize)
                           })
                    }))
     }"

definition file_fat_ls :: "fat_dev \<Rightarrow> fat_state \<Rightarrow> u8 list \<Rightarrow> (int \<times> fat_state \<times> u8 list) option" where
  "file_fat_ls fd fs dir = do_fat_read fd fs dir [] 0 LS_YES"

definition file_fat_read ::
  "fat_dev \<Rightarrow> fat_state \<Rightarrow> u8 list \<Rightarrow> u8 list \<Rightarrow> u32 \<Rightarrow> (int \<times> fat_state \<times> u8 list) option" where
  "file_fat_read fd fs filename buffer maxsize = do_fat_read fd fs filename buffer maxsize LS_NO"

section \<open>Registering a device\<close>

text \<open>A partition, or the whole device when it has no table but a boot sector; -1 leaves the device current.\<close>

definition fat_register_device :: "fat_dev \<Rightarrow> block_dev \<Rightarrow> int \<Rightarrow> (int \<times> fat_dev) option" where
  "fat_register_device fd dev part_no =
     (if block_read dev = None then Some (-1, fd)
      else do {
        (ok, buffer) \<leftarrow> read_sector dev (stack_junk fd) 0;
        let fd = fd\<lparr>cur_dev := Some dev\<rparr>;
        if \<not> ok \<or> \<not> signed_sector buffer then Some (-1, fd)
        else do {
          info \<leftarrow> get_partition_info dev (stack_junk fd) part_no;
          (case info of
             Some i \<Rightarrow> Some (0, fd\<lparr>part_offset := dp_start i, cur_part := part_no\<rparr>)
           | None \<Rightarrow>
               if take 3 (drop DOS_PBR_FSTYPE_OFFSET buffer) = cstr ''FAT''
               then Some (0, fd\<lparr>cur_part := 1, part_offset := 0\<rparr>)
               else Some (-1, fd))
        }
      })"

text \<open>\<open>file_fat_detectfs\<close>: the type and the label that are printed, or that there is no file system.\<close>

definition file_fat_detectfs :: "fat_dev \<Rightarrow> (int \<times> (u8 list \<times> u8 list) option) option" where
  "file_fat_detectfs fd =
     (case cur_dev fd of
        None \<Rightarrow> Some (1, None)
      | Some _ \<Rightarrow>
          map_option (\<lambda>vi. case vi of
              None \<Rightarrow> (1, None)
            | Some (bs, volinfo, bits) \<Rightarrow>
                (0, Some (takeWhile (\<lambda>c. c \<noteq> 0) (take 5 (fs_type volinfo)), takeWhile (\<lambda>c. c \<noteq> 0) (volume_label volinfo))))
            (read_bootsectandvi fd))"

end
