(* ===== verification/Fat_Correct.thy ===== *)
theory Fat_Correct
  imports Fat
begin

text \<open>
  What the FAT code reads from a disk that works: the table entries against the bit string they are packed
  into, the contents of files against their cluster chains, directory searches and paths.
\<close>

section \<open>The packed table\<close>

text \<open>
  The reference: an entry of \<open>w\<close> bits is the \<open>i\<close>-th group of \<open>w\<close> bits of the table, least significant
  bit first.
\<close>

definition table_entry :: "nat \<Rightarrow> (nat \<Rightarrow> u8) \<Rightarrow> nat \<Rightarrow> u32" where
  "table_entry w byte i = horner_sum of_bool 2 (map (\<lambda>j. bit (byte ((w * i + j) div 8)) ((w * i + j) mod 8)) [0..<w])"

lemma bit_table_entry: "w \<le> 32 \<Longrightarrow> bit (table_entry w byte i) j \<longleftrightarrow> j < w \<and> bit (byte ((w * i + j) div 8)) ((w * i + j) mod 8)"
  by (auto simp: table_entry_def bit_horner_sum_bit_iff)

lemma bit_le16: "bit (le16 b i) j \<longleftrightarrow> j < 16 \<and> bit (b ! (i + j div 8)) (j mod 8)"
proof -
  consider "j < 8" | "8 \<le> j" "j < 16" | "16 \<le> j" by linarith
  then show ?thesis
  proof cases
    case 2
    then have "j div 8 = 1" "j mod 8 = j - 8" by (auto simp: div_nat_eqI le_mod_geq)
    then show ?thesis using 2 by (auto simp: le16_def bit_simps)
  qed (auto simp: le16_def bit_simps)
qed

lemma bit_le32: "bit (le32 b i) j \<longleftrightarrow> j < 32 \<and> bit (b ! (i + j div 8)) (j mod 8)"
proof -
  consider "j < 8" | "8 \<le> j" "j < 16" | "16 \<le> j" "j < 24" | "24 \<le> j" "j < 32" | "32 \<le> j" by linarith
  then show ?thesis
  proof cases
    case 2
    then have "j div 8 = 1" "j mod 8 = j - 8" by (auto simp: div_nat_eqI le_mod_geq)
    then show ?thesis using 2 by (auto simp: le32_def bit_simps)
  next
    case 3
    then have "j div 8 = 2" "j mod 8 = j - 16" by (auto simp: div_nat_eqI le_mod_geq)
    then show ?thesis using 3 by (auto simp: le32_def bit_simps)
  next
    case 4
    then have "j div 8 = 3" "j mod 8 = j - 24" by (auto simp: div_nat_eqI le_mod_geq)
    then show ?thesis using 4 by (auto simp: le32_def bit_simps)
  qed (auto simp: le32_def bit_simps)
qed

lemma le_entries:
  "le32 buf (4 * i) = table_entry 32 ((!) buf) i"
  "ucast (le16 buf (2 * i)) = table_entry 16 ((!) buf) i"
proof -
  have "(32 * i + j) div 8 = 4 * i + j div 8" "(32 * i + j) mod 8 = j mod 8"
    "(16 * i + j) div 8 = 2 * i + j div 8" "(16 * i + j) mod 8 = j mod 8" for j :: nat
    by presburger+
  then show "le32 buf (4 * i) = table_entry 32 ((!) buf) i" "ucast (le16 buf (2 * i)) = table_entry 16 ((!) buf) i"
    by (auto intro!: bit_word_eqI simp: bit_table_entry bit_le32 bit_le16 bit_simps)
qed

lemma masks:
  "(0xfff :: u32) = mask 12" "(0x00ff :: u16) = mask 8" "(0x000f :: u16) = mask 4"
  "(0xf000 :: u16) = push_bit 12 (mask 4)" "(0xff00 :: u16) = push_bit 8 (mask 8)"
  "(0xfff0 :: u32) = push_bit 4 (mask 12)"
  by (simp_all add: mask_eq_exp_minus_1 push_bit_eq_mult)

lemma fat12_bits:
  fixes q :: nat
  shows "j < 12 \<Longrightarrow> bit (fat12_entry buf (4 * q)) j = bit (buf ! (6 * q + j div 8)) (j mod 8)"
    and "j < 12 \<Longrightarrow> bit (fat12_entry buf (4 * q + 1)) j = bit (buf ! (6 * q + (12 + j) div 8)) ((12 + j) mod 8)"
    and "j < 12 \<Longrightarrow> bit (fat12_entry buf (4 * q + 2)) j = bit (buf ! (6 * q + (24 + j) div 8)) ((24 + j) mod 8)"
    and "j < 12 \<Longrightarrow> bit (fat12_entry buf (4 * q + 3)) j = bit (buf ! (6 * q + (36 + j) div 8)) ((36 + j) mod 8)"
    and "12 \<le> j \<Longrightarrow> \<not> bit (fat12_entry buf (4 * q)) j" "12 \<le> j \<Longrightarrow> \<not> bit (fat12_entry buf (4 * q + 1)) j"
    "12 \<le> j \<Longrightarrow> \<not> bit (fat12_entry buf (4 * q + 2)) j" "12 \<le> j \<Longrightarrow> \<not> bit (fat12_entry buf (4 * q + 3)) j"
proof -
  have half: "4 * q * 3 div 4 = 3 * q" "(4 * q + 1) * 3 div 4 = 3 * q" "(4 * q + 2) * 3 div 4 = 3 * q + 1"
    "(4 * q + 3) * 3 div 4 = 3 * q + 2" "4 * q mod 4 = 0" "(4 * q + 1) mod 4 = 1" "(4 * q + 2) mod 4 = 2" "(4 * q + 3) mod 4 = 3"
    by presburger+
  have range: "j \<in> {0, 1, 2, 3, 4, 5, 6, 7, 8, 9, 10, 11}" if "j < 12" for j :: nat using that by simp presburger
  have sucs: "Suc (Suc (Suc (6 * q))) = 6 * q + 3" "Suc (Suc (Suc (Suc (6 * q)))) = 6 * q + 4"
    "Suc (Suc (Suc (Suc (Suc (6 * q))))) = 6 * q + 5" by simp_all
  have e0: "fat12_entry buf (4 * q) = take_bit 12 (ucast (le16 buf (2 * (3 * q))))"
    by (simp only: fat12_entry_def Let_def half masks take_bit_eq_mask simp_thms if_True)
  show "bit (fat12_entry buf (4 * q)) j = bit (buf ! (6 * q + j div 8)) (j mod 8)" if "j < 12"
    using that by (auto simp: e0 bit_simps bit_le16)
  have e1: "fat12_entry buf (4 * q + 1) = push_bit 4 (ucast (take_bit 8 (le16 buf (2 * (3 * q + 1))))) OR
      ucast (drop_bit 12 (le16 buf (2 * (3 * q)) AND push_bit 12 (mask 4)))"
    by (simp only: fat12_entry_def Let_def half masks take_bit_eq_mask) simp
  show "bit (fat12_entry buf (4 * q + 1)) j = bit (buf ! (6 * q + (12 + j) div 8)) ((12 + j) mod 8)" if "j < 12"
    using range [OF that] unfolding e1
    by (elim insertE emptyE; simp add: bit_simps bit_le16)
  have e2: "fat12_entry buf (4 * q + 2) = push_bit 8 (ucast (take_bit 4 (le16 buf (2 * (3 * q + 1 + 1))))) OR
      ucast (drop_bit 8 (le16 buf (2 * (3 * q + 1)) AND push_bit 8 (mask 8)))"
    by (simp only: fat12_entry_def Let_def half masks take_bit_eq_mask) simp
  show "bit (fat12_entry buf (4 * q + 2)) j = bit (buf ! (6 * q + (24 + j) div 8)) ((24 + j) mod 8)" if "j < 12"
    using range [OF that] unfolding e2
    by (elim insertE emptyE; simp add: bit_simps bit_le16 sucs add.commute)
  have e3: "fat12_entry buf (4 * q + 3) = drop_bit 4 (ucast (le16 buf (2 * (3 * q + 2))) AND push_bit 4 (mask 12))"
    by (simp only: fat12_entry_def Let_def half masks) simp
  show "bit (fat12_entry buf (4 * q + 3)) j = bit (buf ! (6 * q + (36 + j) div 8)) ((36 + j) mod 8)" if "j < 12"
    using range [OF that] unfolding e3
    by (elim insertE emptyE; simp add: bit_simps bit_le16 sucs add.commute)
  show "\<not> bit (fat12_entry buf (4 * q)) j" "\<not> bit (fat12_entry buf (4 * q + 1)) j"
    "\<not> bit (fat12_entry buf (4 * q + 2)) j" "\<not> bit (fat12_entry buf (4 * q + 3)) j" if "12 \<le> j"
    unfolding e0 e1 e2 e3 using that by (auto simp: bit_simps bit_le16)
qed

lemma fat12_entry_packed: "fat12_entry buf i = table_entry 12 ((!) buf) i"
proof (rule bit_word_eqI)
  fix j
  define q where "q = i div 4"
  have "i = 4 * q + i mod 4" "i mod 4 < 4" by (simp_all add: q_def)
  then have i: "i = 4 * q + 0 \<or> i = 4 * q + 1 \<or> i = 4 * q + 2 \<or> i = 4 * q + 3" by linarith
  have pos: "(12 * (4 * q + r) + j) div 8 = 6 * q + (12 * r + j) div 8" "(12 * (4 * q + r) + j) mod 8 = (12 * r + j) mod 8" for r
    by presburger+
  have le: "(12 :: nat) \<le> 32" by simp
  have twelve: "12 * 0 + j = j" "12 * (1 :: nat) = 12" "12 * (2 :: nat) = 24" "12 * (3 :: nat) = 36" by simp_all
  note bits = fat12_bits [of j buf q]
  show "bit (fat12_entry buf i) j = bit (table_entry 12 ((!) buf) i) j"
  proof (cases "j < 12")
    case True
    show ?thesis
      using i by (elim disjE)
        (simp_all only: bit_table_entry [OF le] pos pos [of 0, unfolded add_0_right] twelve True bits(1-4) [OF True] simp_thms add_0_right)
  next
    case False
    then have "12 \<le> j" by simp
    note off = bits(5-8) [OF this]
    show ?thesis
      using i by (elim disjE) (simp_all only: bit_table_entry [OF le] False off simp_thms add_0_right)
  qed
qed

section \<open>Reading the table\<close>

text \<open>A partition on a disk that works, and a volume mounted from it whose buffer is right or empty.\<close>

definition on_disk :: "fat_dev \<Rightarrow> (u32 \<Rightarrow> u8 list) \<Rightarrow> bool" where
  "on_disk fd disk \<longleftrightarrow> (\<exists>d rd. cur_dev fd = Some d \<and> block_read d = Some rd \<and> serves rd disk) \<and>
     512 \<le> length (stack_junk fd)"

definition table_place :: "fat_dev \<Rightarrow> fat_state \<Rightarrow> u32" where
  "table_place fd fs = ucast (fat_sect fs) + part_offset fd"

definition table_byte :: "(u32 \<Rightarrow> u8 list) \<Rightarrow> fat_dev \<Rightarrow> fat_state \<Rightarrow> nat \<Rightarrow> u8" where
  "table_byte disk fd fs k = disk (table_place fd fs + of_nat (k div 512)) ! (k mod 512)"

definition fat_next :: "(u32 \<Rightarrow> u8 list) \<Rightarrow> fat_dev \<Rightarrow> fat_state \<Rightarrow> u32 \<Rightarrow> u32" where
  "fat_next disk fd fs c = table_entry (nat (fatsize fs)) (table_byte disk fd fs) (unat c)"

definition mounted :: "fat_dev \<Rightarrow> (u32 \<Rightarrow> u8 list) \<Rightarrow> fat_state \<Rightarrow> bool" where
  "mounted fd disk fs \<longleftrightarrow> fatsize fs \<in> {12, 16, 32} \<and> fatlength fs \<noteq> 0 \<and> length (fatbuf fs) = 3072 \<and>
     (fatbufnum fs = - 1 \<or> fatbuf fs = sectors disk (table_place fd fs + fatbufnum fs * 6) 6)"

text \<open>Nothing but the buffer of the table has changed.\<close>

definition cached :: "fat_state \<Rightarrow> fat_state \<Rightarrow> bool" where
  "cached fs fs' \<longleftrightarrow> (\<exists>b k. fs' = fs\<lparr>fatbuf := b, fatbufnum := k\<rparr>)"

lemma cached_refl [simp]: "cached fs fs"
  unfolding cached_def by (intro exI [of _ "fatbuf fs"] exI [of _ "fatbufnum fs"]) simp

lemma cached_trans: "cached fs fs' \<Longrightarrow> cached fs' fs'' \<Longrightarrow> cached fs fs''"
  unfolding cached_def by (elim exE) force

lemma cached_same:
  assumes "cached fs fs'"
  shows "fatsize fs' = fatsize fs" "clust_size fs' = clust_size fs" "start_sector fs' = start_sector fs"
    "fat_next disk fd fs' = fat_next disk fd fs" "START fs' = START fs"
    "get_dentfromdir_block fs' = get_dentfromdir_block fs" "do_fat_read_block fs' = do_fat_read_block fs"
    "ls_out fs' = ls_out fs"
  using assms
  by (auto simp: cached_def start_sector_def fat_next_def table_byte_def [abs_def] table_place_def START_def fun_eq_iff)

lemma sint_small: "unat (c :: u32) < 2 ^ 31 \<Longrightarrow> sint c = int (unat c)"
proof -
  assume "unat c < 2 ^ 31"
  then have "int (unat c) < int (2 ^ 31)" by (simp only: of_nat_less_iff)
  then have "uint c < 2 ^ 31" by simp
  then have "signed_take_bit 31 (uint c) = uint c"
    by (intro signed_take_bit_int_eq_self) (use uint_ge_0 [of c] in linarith)+
  then show ?thesis by (simp add: sint_uint)
qed

lemma disk_read_ok:
  assumes "on_disk fd disk" "unat c < 2 ^ 22"
  shows "disk_read fd s c = (int (unat c), sectors disk (s + part_offset fd) (unat c))"
proof -
  have "sint c = int (unat c)"
    by (rule sint_small [OF assms(2) [THEN less_trans]]) simp
  then show ?thesis
    using assms by (auto simp: on_disk_def disk_read_def serves_def)
qed

lemma disk_length: "on_disk fd disk \<Longrightarrow> length (disk s) = 512"
  by (auto simp: on_disk_def serves_def)

lemma nth_sectors:
  assumes "\<forall>s. length (disk s) = 512" "m < 512 * k"
  shows "sectors disk s k ! m = disk (s + of_nat (m div 512)) ! (m mod 512)"
  using assms(2)
proof (induction k arbitrary: m)
  case (Suc k)
  have len: "length (sectors disk s k) = 512 * k" by (rule length_sectors [OF assms(1)])
  have split: "sectors disk s (Suc k) = sectors disk s k @ disk (s + of_nat k)" by (simp add: sectors_def)
  show ?case
  proof (cases "m < 512 * k")
    case True
    then show ?thesis using Suc.IH len split by (simp add: nth_append)
  next
    case False
    then have "m div 512 = k" using Suc.prems by (auto intro: div_nat_eqI)
    moreover from this have "m mod 512 = m - 512 * k" by (simp add: modulo_nat_def)
    ultimately have "m div 512 = k" "m mod 512 = m - 512 * k" by simp_all
    then show ?thesis using False len split by (simp add: nth_append)
  qed
qed simp

lemma buffered_entry_ok:
  assumes "on_disk fd disk" "fatsize fs \<in> {12, 16, 32}" "fatbuf fs = sectors disk (table_place fd fs + bufnum * 6) 6"
    and "nat (fatsize fs) * per = 24576" "offset < per" "unat c = unat bufnum * per + offset"
  shows "buffered_entry fs offset = fat_next disk fd fs c"
proof -
  let ?w = "nat (fatsize fs)" and ?buf = "fatbuf fs"
  have "buffered_entry fs offset = table_entry ?w ((!) ?buf) offset"
    using assms(2) by (auto simp: buffered_entry_def le_entries fat12_entry_packed)
  also have "\<dots> = table_entry ?w (table_byte disk fd fs) (unat c)"
    unfolding table_entry_def
  proof (rule arg_cong [where f = "horner_sum of_bool 2"], rule map_cong [OF refl])
    fix j assume "j \<in> set [0..<?w]"
    then have j: "j < ?w" by simp
    define m where "m = (?w * offset + j) div 8"
    have "?w * offset + j < ?w * per"
      using j mult_le_mono2 [of "Suc offset" per ?w] assms(5) by simp
    then have m: "m < 3072" unfolding m_def assms(4) by simp
    have groups: "(8 * a + y) div 8 = a + y div 8" "(8 * a + y) mod 8 = y mod 8" for a y :: nat by simp_all
    have "?w * unat c + j = 8 * (3072 * unat bufnum) + (?w * offset + j)"
      using assms(4,6) by (simp add: algebra_simps)
    then have pos: "(?w * unat c + j) div 8 = 3072 * unat bufnum + m" "(?w * unat c + j) mod 8 = (?w * offset + j) mod 8"
      by (simp_all only: m_def groups)
    have "?buf ! m = table_byte disk fd fs (3072 * unat bufnum + m)"
    proof -
      have "(512 * a + y) div 512 = a + y div 512" "(512 * a + y) mod 512 = y mod 512" for a y :: nat by simp_all
      from this [of "unat bufnum * 6" m]
      have "(3072 * unat bufnum + m) div 512 = unat bufnum * 6 + m div 512" "(3072 * unat bufnum + m) mod 512 = m mod 512"
        by (simp_all add: mult.commute)
      then show ?thesis
        using nth_sectors [of disk m 6] disk_length [OF assms(1)] m
        by (simp add: assms(3) table_byte_def add.assoc)
    qed
    then show "bit (?buf ! ((?w * offset + j) div 8)) ((?w * offset + j) mod 8) =
        bit (table_byte disk fd fs ((?w * unat c + j) div 8)) ((?w * unat c + j) mod 8)"
      using pos by (simp only: m_def [symmetric])
  qed
  finally show ?thesis by (simp only: fat_next_def)
qed

lemma unat_ucast_u16 [simp]: "unat (ucast (x :: u16) :: u32) = unat x"
proof -
  have "unat x < 2 ^ 32" by (rule less_trans [OF unat_u16_less]) simp
  then show ?thesis by (simp only: unsigned_ucast_eq) (simp add: take_bit_nat_eq_self)
qed

lemma get_fatent_ok:
  assumes "on_disk fd disk" "mounted fd disk fs"
  obtains fs' where "get_fatent fd fs c = Some (fat_next disk fd fs c, fs')" "cached fs fs'" "mounted fd disk fs'"
proof -
  have size: "fatsize fs \<in> {12, 16, 32}" and len: "length (fatbuf fs) = 3072" and nz: "fatlength fs \<noteq> 0"
    using assms(2) by (simp_all add: mounted_def)
  define per where "per = (if fatsize fs = 32 then FAT32BUFSIZE else if fatsize fs = 16 then FAT16BUFSIZE else FAT12BUFSIZE)"
  have per: "nat (fatsize fs) * per = 24576" "0 < per" "per < 2 ^ 32" "768 \<le> per"
    using size by (auto simp: per_def FAT32BUFSIZE_def FAT16BUFSIZE_def FAT12BUFSIZE_def FATBUFSIZE_def FATBUFBLOCKS_def)
  have unper: "unat (of_nat per :: u32) = per" using per(3) by (simp add: unsigned_of_nat take_bit_nat_eq_self)
  define bufnum where "bufnum = c div of_nat per"
  define offset where "offset = unat (c - bufnum * of_nat per)"
  have ub: "unat bufnum = unat c div per" by (simp add: bufnum_def unat_div unper)
  have "c - bufnum * of_nat per = c mod of_nat per"
    by (simp add: bufnum_def minus_div_mult_eq_mod)
  then have off: "offset = unat c mod per" by (simp add: offset_def unat_mod unper)
  then have idx: "offset < per" "unat c = unat bufnum * per + offset" using per(2) ub by simp_all
  have "unat bufnum \<le> unat c div 768" unfolding ub by (rule div_le_mono2) (use per(4) in simp_all)
  moreover have "x div 768 < 4294967295" if "x < 4294967296" for x :: nat using that by simp
  ultimately have "unat bufnum < 4294967295" using unat_u32_less [of c] le_less_trans by blast
  then have nonneg: "bufnum \<noteq> - 1" by (auto simp: unsigned_minus_1_eq_mask mask_eq_exp_minus_1)
  have "unat (fatlength fs) * 512 < 4294967296"
    using unat_u16_less [of "fatlength fs"] by linarith
  then have "unat (ucast (fatlength fs) * 512 :: u32) = unat (fatlength fs) * 512"
    by (simp add: unat_word_ariths)
  moreover have "0 < unat (fatlength fs)" using nz by (simp add: unat_gt_0)
  ultimately have long: "\<not> ucast (fatlength fs) * 512 < (6 :: u32)" by (simp add: word_less_nat_alt)
  have known: "fatsize fs \<noteq> 32 \<Longrightarrow> fatsize fs \<noteq> 16 \<Longrightarrow> fatsize fs = 12" using size by auto
  have body: "get_fatent fd fs c =
      (if bufnum \<noteq> fatbufnum fs then
         (let (r, bytes) = disk_read fd (bufnum * of_nat FATBUFBLOCKS + ucast (fat_sect fs)) 6
          in do {
            buf \<leftarrow> store_bytes (fatbuf fs) 0 bytes;
            if r < 0 then Some (0, fs\<lparr>fatbuf := buf\<rparr>)
            else Some (buffered_entry (fs\<lparr>fatbuf := buf, fatbufnum := bufnum\<rparr>) offset, fs\<lparr>fatbuf := buf, fatbufnum := bufnum\<rparr>)
          })
       else Some (buffered_entry fs offset, fs))"
    using long known unfolding get_fatent_def Let_def per_def [symmetric] bufnum_def [symmetric] offset_def [symmetric]
    by (auto simp: FATBUFBLOCKS_def)
  show thesis
  proof (cases "bufnum = fatbufnum fs")
    case True
    then have "fatbuf fs = sectors disk (table_place fd fs + bufnum * 6) 6"
      using assms(2) nonneg by (auto simp: mounted_def)
    then have "buffered_entry fs offset = fat_next disk fd fs c"
      using buffered_entry_ok [OF assms(1) size _ per(1) idx] by blast
    then show ?thesis using that [of fs] body True assms(2) by simp
  next
    case False
    have read: "disk_read fd (bufnum * of_nat FATBUFBLOCKS + ucast (fat_sect fs)) 6 =
        (6, sectors disk (table_place fd fs + bufnum * 6) 6)"
    proof -
      have six: "unat (6 :: u32) = 6" by simp
      show ?thesis
        using disk_read_ok [OF assms(1), of 6 "bufnum * of_nat FATBUFBLOCKS + ucast (fat_sect fs)", unfolded six]
        by (simp add: FATBUFBLOCKS_def table_place_def ac_simps)
    qed
    have lens: "length (sectors disk (table_place fd fs + bufnum * 6) 6) = 3072"
      using length_sectors [of disk _ 6] disk_length [OF assms(1)] by simp
    let ?fs = "fs\<lparr>fatbuf := sectors disk (table_place fd fs + bufnum * 6) 6, fatbufnum := bufnum\<rparr>"
    have same: "cached fs ?fs" by (auto simp: cached_def)
    have "mounted fd disk ?fs"
      using assms(2) lens by (simp add: mounted_def table_place_def)
    moreover have "buffered_entry ?fs offset = fat_next disk fd ?fs c"
      by (rule buffered_entry_ok [OF assms(1) _ _ _ idx]) (use size per(1) in \<open>simp_all add: table_place_def\<close>)
    ultimately show ?thesis
      using that [of ?fs] body False read lens len same cached_same(4) [OF same]
      by (simp add: store_bytes_def overwrite_all)
  qed
qed

section \<open>Reading clusters\<close>

lemma take_sectors:
  assumes "on_disk fd disk" "m \<le> 512 * j" "m \<le> 512 * k"
  shows "take m (sectors disk s j) = take m (sectors disk s k)"
proof -
  have len: "length (sectors disk s i) = 512 * i" for i
    using disk_length [OF assms(1)] by (intro length_sectors) simp
  have "take m (sectors disk s (i + e)) = take m (sectors disk s i)" if "m \<le> 512 * i" for i e
    using that len [of i] by (simp add: sectors_add)
  from this [of j "k - j"] this [of k "j - k"] show ?thesis
    using assms(2,3) by (cases "j \<le> k") simp_all
qed

lemma get_cluster_ok:
  assumes "on_disk fd disk" "unat len < 2 ^ 31" "at + unat len \<le> length buffer" "unat len \<le> 512 * k"
  shows "get_cluster fd fs c buffer at len =
    Some (0, overwrite buffer at (take (unat len) (sectors disk (start_sector fs c + part_offset fd) k)))"
proof -
  let ?s = "start_sector fs c + part_offset fd"
  define q where "q = unat len div 512"
  define r where "r = unat len mod 512"
  have five: "unat (512 :: u32) = 512" by simp
  have qr: "unat len = q * 512 + r" "r < 512" by (simp_all add: q_def r_def)
  have uq: "unat (len div 512) = q" "unat (len mod 512) = r"
    by (simp_all only: unat_div unat_mod five q_def r_def)
  have q22: "unat (len div 512) < 2 ^ 22" using assms(2) unfolding uq(1) q_def by simp
  have slen: "length (sectors disk ?s i) = 512 * i" for i
    using disk_length [OF assms(1)] by (intro length_sectors) simp
  have first: "disk_read fd (start_sector fs c) (len div 512) = (int q, sectors disk ?s q)"
    using disk_read_ok [OF assms(1) q22] uq(1) by simp
  have st1: "store_bytes buffer at (sectors disk ?s q) = Some (overwrite buffer at (sectors disk ?s q))"
    using assms(3) slen [of q] qr(1) by (simp add: store_bytes_def)
  show ?thesis
  proof (cases "r = 0")
    case True
    then have "len mod 512 = 0" using uq(2) by (simp add: unat_eq_zero)
    moreover have "take (unat len) (sectors disk ?s k) = sectors disk ?s q"
      using take_sectors [OF assms(1), of "unat len" q k ?s] slen [of q] qr True assms(4) by simp
    ultimately show ?thesis using first st1 by (simp add: get_cluster_def)
  next
    case False
    then have nz: "len mod 512 \<noteq> 0" using uq(2) by (metis unat_eq_zero)
    have one: "unat (1 :: u32) = 1" by simp
    have "start_sector fs c + len div 512 + part_offset fd = ?s + of_nat q"
      unfolding uq(1) [symmetric] by simp
    then have second: "disk_read fd (start_sector fs c + len div 512) 1 = (1, disk (?s + of_nat q))"
      using disk_read_ok [OF assms(1), of 1 "start_sector fs c + len div 512", unfolded one] sectors_one [unfolded One_nat_def]
      by (simp add: ac_simps)
    have jl: "512 \<le> length (stack_junk fd)" using assms(1) by (simp add: on_disk_def)
    have dl: "length (disk (?s + of_nat q)) = 512" by (rule disk_length [OF assms(1)])
    have st2: "store_bytes (stack_junk fd) 0 (disk (?s + of_nat q)) = Some (overwrite (stack_junk fd) 0 (disk (?s + of_nat q)))"
      using jl dl by (simp add: store_bytes_def)
    have tmp: "take r (overwrite (stack_junk fd) 0 (disk (?s + of_nat q))) = take r (disk (?s + of_nat q))"
      using dl qr(2) by (simp add: overwrite_def)
    have "unat ((len div 512) * 512) = q * 512"
    proof -
      have "q * 512 < 2 ^ 32" using assms(2) qr(1) by simp
      then show ?thesis using uq(1) by (simp add: unat_word_ariths)
    qed
    then have st3: "store_bytes (overwrite buffer at (sectors disk ?s q)) (at + unat ((len div 512) * 512)) (take r (disk (?s + of_nat q))) =
        Some (overwrite buffer at (sectors disk ?s q @ take r (disk (?s + of_nat q))))"
      using assms(3) slen [of q] qr dl overwrite_twice [of at "sectors disk ?s q" "take r (disk (?s + of_nat q))" buffer]
      by (simp add: store_bytes_def length_overwrite ac_simps)
    have "take (unat len) (sectors disk ?s k) = take (unat len) (sectors disk ?s (q + 1))"
      using qr assms(4) by (intro take_sectors [OF assms(1)]) simp_all
    also have "\<dots> = sectors disk ?s q @ take r (disk (?s + of_nat q))"
      using slen [of q] qr(1) by (simp add: sectors_add sectors_one del: One_nat_def)
    finally show ?thesis
      using first st1 second nz st2 tmp st3 uq by (simp add: get_cluster_def Let_def)
  qed
qed

text \<open>The bytes of a cluster, and of clusters that lie behind one another.\<close>

definition cluster_bytes :: "(u32 \<Rightarrow> u8 list) \<Rightarrow> fat_dev \<Rightarrow> fat_state \<Rightarrow> u32 \<Rightarrow> u8 list" where
  "cluster_bytes disk fd fs c = sectors disk (start_sector fs c + part_offset fd) (unat (clust_size fs))"

lemma cluster_run:
  assumes "0 < c" "\<forall>i < length run. run ! i = c + of_nat (Suc i) \<and> 0 < run ! i"
  shows "concat (map (cluster_bytes disk fd fs) (c # run)) =
    sectors disk (start_sector fs c + part_offset fd) (Suc (length run) * unat (clust_size fs))"
  using assms(2)
proof (induction run rule: rev_induct)
  case (snoc d run)
  have prev: "\<forall>i < length run. run ! i = c + of_nat (Suc i) \<and> 0 < run ! i"
  proof (intro allI impI)
    fix i assume "i < length run"
    then have "(run @ [d]) ! i = run ! i" "i < length (run @ [d])" by (simp_all add: nth_append)
    then show "run ! i = c + of_nat (Suc i) \<and> 0 < run ! i" using snoc.prems by metis
  qed
  have "(run @ [d]) ! length run = d" "length run < length (run @ [d])" by simp_all
  then have d: "d = c + of_nat (Suc (length run))" "0 < d" using snoc.prems by metis+
  have start: "start_sector fs d + part_offset fd =
      start_sector fs c + part_offset fd + of_nat (Suc (length run) * unat (clust_size fs))"
    using d assms(1) by (simp add: start_sector_def algebra_simps)
  have here: "cluster_bytes disk fd fs d =
      sectors disk (start_sector fs c + part_offset fd + of_nat (Suc (length run) * unat (clust_size fs))) (unat (clust_size fs))"
    by (simp only: cluster_bytes_def start)
  have "concat (map (cluster_bytes disk fd fs) (c # run @ [d])) =
      concat (map (cluster_bytes disk fd fs) (c # run)) @ cluster_bytes disk fd fs d" by simp
  moreover have "Suc (length (run @ [d])) * unat (clust_size fs) =
      Suc (length run) * unat (clust_size fs) + unat (clust_size fs)" by simp
  ultimately show ?case
    unfolding snoc.IH [OF prev] here by (simp only: sectors_add)
qed (simp add: cluster_bytes_def)

section \<open>Files\<close>

text \<open>A chain of valid entries from a cluster on.\<close>

fun chain :: "(u32 \<Rightarrow> u32) \<Rightarrow> int \<Rightarrow> u32 \<Rightarrow> u32 list \<Rightarrow> bool" where
  "chain nxt bits c [] = True"
| "chain nxt bits c (d # ds) = (nxt c = d \<and> \<not> CHECK_CLUST d bits \<and> chain nxt bits d ds)"

lemma chain_append: "chain nxt bits c (run @ rest) \<longleftrightarrow> chain nxt bits c run \<and> chain nxt bits (last (c # run)) rest"
  by (induction run arbitrary: c) auto

lemma chain_positive: "chain nxt bits c ds \<Longrightarrow> d \<in> set ds \<Longrightarrow> 0 < d"
  by (induction ds arbitrary: c) (auto simp: CHECK_CLUST_def word_gt_0_no word_gt_0)

lemma consecutive_ok:
  assumes "on_disk fd disk" "mounted fd disk fs" "chain (fat_next disk fd fs) (fatsize fs) c ds"
    and "unat a + length ds * unat B < 2 ^ 32" "unat filesize \<le> unat a + length ds * unat B"
    and "ds \<noteq> [] \<longrightarrow> unat a + (length ds - 1) * unat B < unat filesize"
  shows "\<exists>run rest fs'. ds = run @ rest \<and> (\<forall>i < length run. run ! i = c + of_nat (Suc i)) \<and>
    cached fs fs' \<and> mounted fd disk fs' \<and>
    consecutive fd B filesize fs c a =
      Some (if rest = [] then RunEnd else RunGap, fs', last (c # run), a + of_nat (length run) * B) \<and>
    (rest \<noteq> [] \<longrightarrow> unat a + length run * unat B < unat filesize)"
  using assms(2-6)
proof (induction ds arbitrary: c a fs)
  case Nil
  then have "\<not> a < filesize" by (simp add: word_less_nat_alt)
  then show ?case
    using Nil.prems(1) by (intro exI [of _ "[]"] exI [of _ fs]) (simp add: consecutive.simps)
next
  case (Cons d ds)
  have less: "unat a < unat filesize"
    using Cons.prems(5) by (simp add: le_less_trans [OF le_add1])
  obtain fs1 where fs1: "get_fatent fd fs c = Some (d, fs1)" "cached fs fs1" "mounted fd disk fs1"
    using get_fatent_ok [OF assms(1) Cons.prems(1), of c] Cons.prems(2) by auto
  note same = cached_same [OF fs1(2)]
  have body: "consecutive fd B filesize fs c a =
      (if d - 1 \<noteq> c then Some (RunGap, fs1, c, a) else consecutive fd B filesize fs1 d (a + B))"
    using less fs1(1) Cons.prems(2) same(1) by (subst consecutive.simps) (simp add: word_less_nat_alt)
  show ?case
  proof (cases "d - 1 = c")
    case False
    then show ?thesis
      using body fs1 less by (intro exI [of _ "[]"] exI [of _ "d # ds"] exI [of _ fs1]) simp
  next
    case True
    have "unat a + unat B < 2 ^ 32" using Cons.prems(3) by simp
    then have ab: "unat (a + B) = unat a + unat B" by (simp add: unat_word_ariths)
    have "ds \<noteq> [] \<longrightarrow> unat a + unat B + (length ds - 1) * unat B < unat filesize"
      using Cons.prems(5) by (cases ds) simp_all
    then obtain run rest fs' where ih: "ds = run @ rest" "\<forall>i < length run. run ! i = d + of_nat (Suc i)"
      "cached fs1 fs'" "mounted fd disk fs'"
      "consecutive fd B filesize fs1 d (a + B) =
         Some (if rest = [] then RunEnd else RunGap, fs', last (d # run), a + B + of_nat (length run) * B)"
      "rest \<noteq> [] \<longrightarrow> unat a + unat B + length run * unat B < unat filesize"
      using Cons.IH [of fs1 d "a + B"] fs1(3) Cons.prems(2-4) same ab by auto
    have d: "d = c + 1" using True by (simp add: algebra_simps)
    have "(d # run) ! i = c + of_nat (Suc i)" if "i < length (d # run)" for i
      using ih(2) that d by (cases i) simp_all
    then show ?thesis
      using body True ih cached_trans [OF fs1(2) ih(3)]
      by (intro exI [of _ "d # run"] exI [of _ rest] exI [of _ fs']) (auto simp: algebra_simps)
  qed
qed

definition bytes_per_clust :: "fat_state \<Rightarrow> nat" where
  "bytes_per_clust fs = 512 * unat (clust_size fs)"

lemma unat_mult_small: "unat (x :: u32) * k < 2 ^ 32 \<Longrightarrow> k < 2 ^ 32 \<Longrightarrow> unat (of_nat k * x) = k * unat x"
  by (simp add: unat_word_ariths unsigned_of_nat take_bit_nat_eq_self mult.commute)

lemma contents_loop_ok:
  assumes "on_disk fd disk" "mounted fd disk fs" "chain (fat_next disk fd fs) (fatsize fs) c ds" "0 < c"
    and "unat B = bytes_per_clust fs" "0 < clust_size fs"
    and "length ds * bytes_per_clust fs < unat filesize" "unat filesize \<le> Suc (length ds) * bytes_per_clust fs"
    and "Suc (length ds) * bytes_per_clust fs < 2 ^ 31" "unat got + unat filesize < 2 ^ 31"
    and "at + unat filesize \<le> length buffer"
  shows "\<exists>fs'. contents_loop fd B fs c filesize got buffer at =
      Some (int (unat got + unat filesize), fs',
        overwrite buffer at (take (unat filesize) (concat (map (cluster_bytes disk fd fs) (c # ds))))) \<and>
    cached fs fs' \<and> mounted fd disk fs'"
  using assms(2-)
proof (induction "length ds" arbitrary: c ds fs filesize got buffer at rule: less_induct)
  case less
  let ?b = "bytes_per_clust fs" and ?k = "unat (clust_size fs)"
  have pos: "0 < ?b" "0 < ?k" using less.prems(5) by (simp_all add: bytes_per_clust_def unat_gt_0)
  have slen: "length (sectors disk s i) = 512 * i" for s i
    using disk_length [OF assms(1)] by (intro length_sectors) simp
  have p1: "unat B + length ds * unat B < 2 ^ 32" using less.prems(4,8) by simp
  have p2: "unat filesize \<le> unat B + length ds * unat B" using less.prems(4,7) by simp
  have p3: "ds \<noteq> [] \<longrightarrow> unat B + (length ds - 1) * unat B < unat filesize"
    using less.prems(4,6) by (cases ds) simp_all
  from consecutive_ok [OF assms(1) less.prems(1,2) p1 p2 p3] obtain run rest fs1 where split: "ds = run @ rest" "\<forall>i < length run. run ! i = c + of_nat (Suc i)"
    and fs1: "cached fs fs1" "mounted fd disk fs1"
    and run: "consecutive fd B filesize fs c B =
       Some (if rest = [] then RunEnd else RunGap, fs1, last (c # run), B + of_nat (length run) * B)"
    and more: "rest \<noteq> [] \<longrightarrow> unat B + length run * unat B < unat filesize"
    by blast
  note same = cached_same [OF fs1(1)]
  have chains: "chain (fat_next disk fd fs) (fatsize fs) c run" "chain (fat_next disk fd fs) (fatsize fs) (last (c # run)) rest"
    using less.prems(2) split(1) by (simp_all only: chain_append)
  have steps: "\<forall>i < length run. run ! i = c + of_nat (Suc i) \<and> 0 < run ! i"
    using split(2) chain_positive [OF chains(1) nth_mem] by blast
  define r where "r = length run"
  have rds: "r \<le> length ds" using split(1) by (simp add: r_def)
  have rb: "r * ?b \<le> length ds * ?b" using rds by (rule mult_le_mono1)
  have ur: "unat (of_nat r * B) = r * ?b"
  proof -
    have small: "r * ?b < 2 ^ 31"
      by (rule le_less_trans [OF rb]) (use less.prems(8) in simp)
    have "r \<le> r * ?b" using pos(1) by (cases ?b) simp_all
    from le_less_trans [OF this small] have "r < 2 ^ 32" by (rule less_trans) simp
    moreover have "unat B * r < 2 ^ 32"
      unfolding less.prems(4) mult.commute [of ?b] by (rule less_trans [OF small]) simp
    ultimately show ?thesis using unat_mult_small [of B r] less.prems(4) by simp
  qed
  have bytes: "concat (map (cluster_bytes disk fd fs) (c # run)) = sectors disk (start_sector fs c + part_offset fd) (Suc r * ?k)"
    unfolding r_def by (rule cluster_run [OF less.prems(3) steps])
  show ?case
  proof (cases "rest = []")
    case True
    then have ds: "ds = run" "length ds = r" using split(1) by (simp_all add: r_def)
    have last: "cluster_bytes disk fd fs (last (c # run)) =
        sectors disk (start_sector fs c + part_offset fd + of_nat (r * ?k)) ?k"
    proof (cases run rule: rev_cases)
      case (snoc init d)
      then have "run ! length init = d" "length init < length run" "r = Suc (length init)" by (simp_all add: r_def)
      then have "d = c + of_nat r" "0 < d" using steps by metis+
      then show ?thesis using snoc less.prems(3) by (simp add: cluster_bytes_def start_sector_def algebra_simps)
    qed (simp add: r_def cluster_bytes_def)
    have len2: "unat (filesize - of_nat r * B) = unat filesize - r * ?b"
      using ur less.prems(6) ds(2) by (simp add: unat_sub word_le_nat_alt)
    have fits: "at + unat (of_nat r * B) \<le> length buffer" "unat (of_nat r * B) < 2 ^ 31" "unat (of_nat r * B) \<le> 512 * (r * ?k)"
      unfolding ur using less.prems(6,8,10) ds(2) by (simp_all add: bytes_per_clust_def)
    note one = get_cluster_ok [OF assms(1) fits(2,1,3), of fs1 c, unfolded ur same]
    define front where "front = sectors disk (start_sector fs c + part_offset fd) (r * ?k)"
    have front: "length front = r * ?b" "take (r * ?b) front = front"
      using slen by (simp_all add: front_def bytes_per_clust_def)
    define buf1 where "buf1 = overwrite buffer at front"
    have buf1: "length buf1 = length buffer"
      using fits(1) ur front(1) by (simp add: buf1_def length_overwrite)
    have fits2: "at + r * ?b + unat (filesize - of_nat r * B) \<le> length buf1" "unat (filesize - of_nat r * B) < 2 ^ 31"
      "unat (filesize - of_nat r * B) \<le> 512 * ?k"
      unfolding len2 buf1 using less.prems(6,7,9,10) ds(2) by (simp_all add: bytes_per_clust_def)
    note two = get_cluster_ok [OF assms(1) fits2(2,1,3), of fs1 "last (c # run)", unfolded len2 same]
    define tail where "tail = take (unat filesize - r * ?b) (cluster_bytes disk fd fs (last (c # run)))"
    have whole: "concat (map (cluster_bytes disk fd fs) (c # run)) = front @ cluster_bytes disk fd fs (last (c # run))"
      unfolding bytes last front_def by (simp only: mult_Suc add.commute [of ?k "r * ?k"] sectors_add)
    have "front @ tail = take (unat filesize) (concat (map (cluster_bytes disk fd fs) (c # run)))"
      unfolding whole tail_def using front(1) less.prems(6) ds(2) by simp
    moreover have "overwrite buf1 (at + r * ?b) tail = overwrite buffer at (front @ tail)"
      using overwrite_twice [of at front tail buffer] fits2(1) front(1) buf1
      by (simp add: buf1_def tail_def len2 cluster_bytes_def slen bytes_per_clust_def)
    moreover have "unat (got + filesize) = unat got + unat filesize"
      using less.prems(9) by (simp add: unat_word_ariths)
    then have "sint (got + filesize) = int (unat got + unat filesize)"
      using sint_small [of "got + filesize"] less.prems(9) by simp
    moreover have "contents_loop fd B fs c filesize got buffer at =
        Some (sint (got + filesize), fs1, overwrite buf1 (at + r * ?b) tail)"
      using run True one two front(2) ur
      by (subst contents_loop.simps) (simp add: front_def [symmetric] buf1_def [symmetric] r_def [symmetric] tail_def cluster_bytes_def)
    ultimately show ?thesis using fs1 ds(1) by auto
  next
    case False
    then obtain d rest' where rest: "rest = d # rest'" by (cases rest) auto
    let ?len = "B + of_nat r * B" and ?n = "Suc r * ?b"
    have n: "?n < unat filesize" using more False less.prems(4) by (simp add: r_def)
    then have n31: "?n < 2 ^ 31" using less.prems(9) by linarith
    have ulen: "unat ?len = ?n"
      using ur less.prems(4) n31 by (simp add: unat_word_ariths)
    have fits: "at + unat ?len \<le> length buffer" "unat ?len < 2 ^ 31" "unat ?len \<le> 512 * (Suc r * ?k)"
      unfolding ulen using n n31 less.prems(10) by (simp_all add: bytes_per_clust_def)
    note one = get_cluster_ok [OF assms(1) fits(2,1,3), of fs1 c, unfolded ulen same]
    define front where "front = sectors disk (start_sector fs c + part_offset fd) (Suc r * ?k)"
    have front: "length front = ?n" "take ?n front = front"
      using slen [of _ "Suc r * ?k"] by (simp_all add: front_def bytes_per_clust_def)
    define buf1 where "buf1 = overwrite buffer at front"
    have buf1: "length buf1 = length buffer"
      using fits(1) ulen front(1) by (simp add: buf1_def length_overwrite)
    have d: "fat_next disk fd fs (last (c # run)) = d" "\<not> CHECK_CLUST d (fatsize fs)"
      "chain (fat_next disk fd fs) (fatsize fs) d rest'" using chains(2) rest by simp_all
    obtain fs2 where fs2: "get_fatent fd fs1 (last (c # run)) = Some (d, fs2)" "cached fs1 fs2" "mounted fd disk fs2"
      using get_fatent_ok [OF assms(1) fs1(2), of "last (c # run)"] d(1) same(4) by metis
    note same2 = cached_same [OF fs2(2)]
    have sub: "unat (filesize - ?len) = unat filesize - ?n" "unat (got + ?len) = unat got + ?n"
    proof -
      show "unat (filesize - ?len) = unat filesize - ?n"
        using n ulen by (simp only: unat_sub word_le_nat_alt less_imp_le)
      have "unat got + ?n < 2 ^ 31" using n less.prems(9) by linarith
      then have "unat got + unat ?len < 2 ^ 32" unfolding ulen by (rule less_trans) simp
      then show "unat (got + ?len) = unat got + ?n" unfolding ulen [symmetric] by (simp only: unat_word_ariths) simp
    qed
    have lds: "length ds = r + Suc (length rest')" using split(1) rest by (simp add: r_def)
    have "\<exists>fs'. contents_loop fd B fs2 d (filesize - ?len) (got + ?len) buf1 (at + ?n) =
        Some (int (unat (got + ?len) + unat (filesize - ?len)), fs',
          overwrite buf1 (at + ?n) (take (unat (filesize - ?len)) (concat (map (cluster_bytes disk fd fs2) (d # rest'))))) \<and>
      cached fs2 fs' \<and> mounted fd disk fs'"
    proof (rule less.hyps)
      show "length rest' < length ds" using lds by simp
      show "chain (fat_next disk fd fs2) (fatsize fs2) d rest'" using d(3) same same2 by simp
      show "0 < d" using d(2) by (auto simp: CHECK_CLUST_def word_gt_0)
      have b: "bytes_per_clust fs2 = ?b" using same(2) same2(2) by (simp add: bytes_per_clust_def)
      show "unat B = bytes_per_clust fs2" "0 < clust_size fs2" using b less.prems(4,5) same(2) same2(2) by simp_all
      show "length rest' * bytes_per_clust fs2 < unat (filesize - ?len)"
        "unat (filesize - ?len) \<le> Suc (length rest') * bytes_per_clust fs2"
        "Suc (length rest') * bytes_per_clust fs2 < 2 ^ 31"
        unfolding sub(1) b using less.prems(6-8) n lds by (simp_all add: add_mult_distrib)
      show "unat (got + ?len) + unat (filesize - ?len) < 2 ^ 31" unfolding sub using less.prems(9) n by linarith
      show "at + ?n + unat (filesize - ?len) \<le> length buf1" unfolding sub(1) buf1 using less.prems(10) n by linarith
    qed (rule fs2(3))
    then obtain fs' where rec: "contents_loop fd B fs2 d (filesize - ?len) (got + ?len) buf1 (at + ?n) =
        Some (int (unat got + unat filesize), fs',
          overwrite buf1 (at + ?n) (take (unat filesize - ?n) (concat (map (cluster_bytes disk fd fs) (d # rest')))))"
      "cached fs2 fs'" "mounted fd disk fs'"
      using sub n same same2 by (auto simp: cluster_bytes_def [abs_def])
    define tail where "tail = take (unat filesize - ?n) (concat (map (cluster_bytes disk fd fs) (d # rest')))"
    have "front @ tail = take (unat filesize) (concat (map (cluster_bytes disk fd fs) (c # ds)))"
    proof -
      have "concat (map (cluster_bytes disk fd fs) (c # ds)) = front @ concat (map (cluster_bytes disk fd fs) (d # rest'))"
        unfolding front_def bytes [symmetric] using split(1) rest by simp
      then show ?thesis using front(1) n by (simp only: tail_def take_append) simp
    qed
    moreover have "overwrite buf1 (at + ?n) tail = overwrite buffer at (front @ tail)"
    proof -
      have "at + length front + length tail \<le> length buffer"
        using less.prems(10) n front(1) by (simp only: tail_def length_take)
      then show ?thesis unfolding buf1_def front(1) [symmetric] by (rule overwrite_twice)
    qed
    moreover have "contents_loop fd B fs c filesize got buffer at =
        contents_loop fd B fs2 d (filesize - ?len) (got + ?len) buf1 (at + ?n)"
    proof -
      have read: "get_cluster fd fs1 c buffer at ?len = Some (0, buf1)"
        using one front(2) by (simp only: buf1_def front_def)
      have "consecutive fd B filesize fs c B = Some (RunGap, fs1, last (c # run), ?len)"
        using run False by (simp add: r_def)
      with read fs2(1) d(2) same(1) same2(1) show ?thesis
        by (subst contents_loop.simps) (simp only: bind.bind_lunit prod.case run.simps if_False ulen; simp)
    qed
    ultimately show ?thesis
      using rec cached_trans [OF fs1(1) cached_trans [OF fs2(2) rec(2)]] by (simp only: tail_def [symmetric]) blast
  qed
qed


text \<open>Files without contents, whatever their first cluster.\<close>

lemma contents_loop_empty:
  assumes "on_disk fd disk"
  shows "contents_loop fd B fs c 0 0 buffer 0 = Some (0, fs, buffer)"
proof -
  have zero: "unat (0 :: u32) < 2 ^ 31" "0 + unat (0 :: u32) \<le> length buffer" "unat (0 :: u32) \<le> 512 * 0" by simp_all
  have "overwrite buffer 0 [] = buffer" by (simp add: overwrite_def)
  with get_cluster_ok [OF assms zero] have "get_cluster fd fs c buffer 0 0 = Some (0, buffer)" for fs c by simp
  then show ?thesis by (simp add: contents_loop.simps consecutive.simps)
qed

text \<open>The size that is read: the size of the file, bounded by a non-zero \<open>maxsize\<close>.\<close>

definition read_size :: "dir_entry \<Rightarrow> u32 \<Rightarrow> nat" where
  "read_size d maxsize = (if maxsize = 0 then unat (de_size d) else min (unat maxsize) (unat (de_size d)))"

definition has_file :: "(u32 \<Rightarrow> u8 list) \<Rightarrow> fat_dev \<Rightarrow> fat_state \<Rightarrow> dir_entry \<Rightarrow> nat \<Rightarrow> u8 list \<Rightarrow> bool" where
  "has_file disk fd fs d n contents \<longleftrightarrow>
     (if n = 0 then contents = []
      else \<exists>ds. chain (fat_next disk fd fs) (fatsize fs) (START fs d) ds \<and> 0 < START fs d \<and> 0 < clust_size fs \<and>
        length ds * bytes_per_clust fs < n \<and> n \<le> Suc (length ds) * bytes_per_clust fs \<and>
        Suc (length ds) * bytes_per_clust fs < 2 ^ 31 \<and>
        contents = take n (concat (map (cluster_bytes disk fd fs) (START fs d # ds))))"

lemma get_contents_ok:
  assumes "on_disk fd disk" "mounted fd disk fs" "has_file disk fd fs d (read_size d maxsize) contents"
    and "read_size d maxsize \<le> length buffer"
  shows "\<exists>fs'. get_contents fd fs d buffer maxsize =
      Some (int (read_size d maxsize), fs', overwrite buffer 0 contents) \<and> cached fs fs' \<and> mounted fd disk fs'"
proof -
  define filesize where "filesize = (if 0 < maxsize \<and> maxsize < de_size d then maxsize else de_size d)"
  have size: "read_size d maxsize = unat filesize"
    by (auto simp: read_size_def filesize_def word_less_nat_alt unat_gt_0)
  have body: "get_contents fd fs d buffer maxsize =
      contents_loop fd (ucast (clust_size fs) * 512) fs (START fs d) filesize 0 buffer 0"
    by (simp only: get_contents_def filesize_def Let_def)
  show ?thesis
  proof (cases "filesize = 0")
    case True
    then show ?thesis
      using assms(2,3) contents_loop_empty [OF assms(1)] unfolding body size
      by (intro exI [of _ fs]) (simp add: has_file_def overwrite_def)
  next
    case False
    then have "unat filesize \<noteq> 0" by (simp add: unat_eq_zero)
    then obtain ds where ds: "chain (fat_next disk fd fs) (fatsize fs) (START fs d) ds" "0 < START fs d" "0 < clust_size fs"
      "length ds * bytes_per_clust fs < unat filesize" "unat filesize \<le> Suc (length ds) * bytes_per_clust fs"
      "Suc (length ds) * bytes_per_clust fs < 2 ^ 31"
      "contents = take (unat filesize) (concat (map (cluster_bytes disk fd fs) (START fs d # ds)))"
      using assms(3) unfolding has_file_def size by auto
    have "bytes_per_clust fs \<le> Suc (length ds) * bytes_per_clust fs" by simp
    with ds(6) have "bytes_per_clust fs < 2 ^ 31" by linarith
    then have "unat (ucast (clust_size fs) :: u32) * 512 < 2 ^ 32" by (simp add: bytes_per_clust_def)
    then have B: "unat (ucast (clust_size fs) * 512 :: u32) = bytes_per_clust fs"
      by (simp add: unat_word_ariths bytes_per_clust_def)
    have bound: "unat (0 :: u32) + unat filesize < 2 ^ 31" "0 + unat filesize \<le> length buffer"
      using ds(5,6) assms(4) by (simp_all add: size)
    show ?thesis
      using contents_loop_ok [OF assms(1,2) ds(1,2) B ds(3-6) bound] unfolding body size ds(7) by simp
  qed
qed

end
