(* ===== verification/Fat_Scan.thy ===== *)
theory Fat_Scan
  imports Fat_Correct
begin

text \<open>
  Directory blocks as lists of entries, the specification of a search in them, short and long names, and
  the scans of the root directory and of the others against it.
\<close>

section \<open>Directories as lists of entries\<close>

definition block_entries :: "u8 list \<Rightarrow> u8 list list" where
  "block_entries b = map (\<lambda>i. take 32 (drop (32 * i) b)) [0..<length b div 32]"

definition volume_bit :: "u8 list \<Rightarrow> bool" where
  "volume_bit e \<longleftrightarrow> de_attr (dir_entry_of e) AND ATTR_VOLUME \<noteq> 0"

text \<open>
  Slots of a long name: numbered down to 1 before the entry they belong to, the first of them marked_last. What
  remains behind them, or nothing where the numbers do not fit.
\<close>

definition long_slot :: "u8 list \<Rightarrow> bool" where
  "long_slot e \<longleftrightarrow> volume_bit e \<and> is_long (dir_entry_of e)"

definition slot_no :: "u8 list \<Rightarrow> nat" where
  "slot_no e = unat (slot_id (dir_slot_of e) AND NOT LAST_LONG_ENTRY_MASK)"

definition marked_last :: "u8 list \<Rightarrow> bool" where
  "marked_last e \<longleftrightarrow> slot_id (dir_slot_of e) AND LAST_LONG_ENTRY_MASK \<noteq> 0"

fun after_slots :: "nat \<Rightarrow> u8 list list \<Rightarrow> u8 list list option" where
  "after_slots 0 es = Some es"
| "after_slots (Suc n) [] = Some []"
| "after_slots (Suc n) (e # es) = (if slot_no e = Suc n then after_slots n es else None)"

definition long_name :: "u8 list list \<Rightarrow> u8 list" where
  "long_name slots = downcase (fix_first (takeWhile (\<lambda>c. c \<noteq> 0) (concat (map (slot_chars \<circ> dir_slot_of) (rev slots)))))"

text \<open>
  The reference for a search: labels are passed over, an entry without a name is the end, and the first
  entry of the name, short or long, is the one that is found. \<open>Hidden\<close> is what the specification leaves
  open: names of more than 19 slots, and slots that are cut off by the end of the block.
\<close>

datatype dir_answer = Found "u8 list" | Absent | Hidden | Open

fun dir_search :: "u8 list \<Rightarrow> u8 list list \<Rightarrow> dir_answer" where
  "dir_search name [] = Open"
| "dir_search name (e # es) =
     (if long_slot e then
        (let n = slot_no e
         in case after_slots n (e # es) of
           None \<Rightarrow> if get_name (dir_entry_of e) = name then Found e else dir_search name es
         | Some [] \<Rightarrow> Hidden
         | Some (r # rs) \<Rightarrow>
             if n = 0 \<or> 19 < n \<or> list_ex marked_last (take (n - 1) es) \<or> hd (de_name (dir_entry_of r)) = 0 then Hidden
             else if get_name (dir_entry_of r) = name \<or> long_name (take n (e # es)) = name then Found r
             else dir_search name es)
      else if volume_bit e then dir_search name es
      else if hd (de_name (dir_entry_of e)) = 0 then Absent
      else if get_name (dir_entry_of e) = name then Found e
      else dir_search name es)"

text \<open>Block after block, up to the first that answers.\<close>

fun blocks_search :: "u8 list \<Rightarrow> u8 list list list \<Rightarrow> dir_answer" where
  "blocks_search name [] = Open"
| "blocks_search name (b # bs) = (case dir_search name b of Open \<Rightarrow> blocks_search name bs | r \<Rightarrow> r)"

lemma ent_at_entry: "32 * Suc i \<le> length b \<Longrightarrow> ent_at b i = Some (take 32 (drop (32 * i) b))"
  by (simp add: ent_at_def sub_bytes_def)

text \<open>The block_entries from the \<open>i\<close>-th on.\<close>

definition window :: "u8 list \<Rightarrow> nat \<Rightarrow> nat \<Rightarrow> u8 list list" where
  "window b i k = map (\<lambda>j. take 32 (drop (32 * j) b)) [i..<i + k]"

lemma window_Suc: "window b i (Suc k) = take 32 (drop (32 * i) b) # window b (i + 1) k"
  by (simp add: window_def upt_conv_Cons del: upt_Suc)

lemma window_0 [simp]: "window b i 0 = []"
  by (simp add: window_def)

lemma window_entries:
  assumes "512 * k \<le> length b"
  shows "window b 0 (16 * k) = block_entries (take (512 * k) b)"
proof -
  have "length (take (512 * k) b) div 32 = 16 * k" using assms by simp
  moreover have "take 32 (drop (32 * i) b) = take 32 (drop (32 * i) (take (512 * k) b))" if "i < 16 * k" for i
    using that by (simp only: drop_take take_take) (simp add: min_def)
  ultimately show ?thesis by (simp add: window_def block_entries_def)
qed

lemma get_name_deleted: "hd (de_name d) = DELETED_FLAG \<Longrightarrow> length (de_name d) = 8 \<Longrightarrow> get_name d = []"
  by (cases "de_name d")
    (auto simp: get_name_def fix_first_def downcase_def name_end_def DELETED_FLAG_def Let_def)

section \<open>Scanning\<close>

lemma slot_chars_length: "length (slot_chars d) = 13"
  by (simp add: slot_chars_def)

lemma vfat_slots_ok:
  assumes "32 * (i + k) \<le> limit" "limit \<le> length b" "after_slots n (window b i k) \<noteq> Some []"
  shows "vfat_slots b limit i n = Some (if after_slots n (window b i k) = None then None else Some (i + n))"
    and "after_slots n (window b i k) = Some (r # rs) \<Longrightarrow> n < k \<and> r = take 32 (drop (32 * (i + n)) b)"
proof -
  show "vfat_slots b limit i n = Some (if after_slots n (window b i k) = None then None else Some (i + n))"
    using assms(1,3)
  proof (induction n arbitrary: i k)
    case (Suc n)
    then obtain k' where k: "k = Suc k'" by (cases k) simp_all
    have e: "ent_at b i = Some (take 32 (drop (32 * i) b))" "\<not> limit \<le> 32 * i"
      using Suc.prems(1) assms(2) k by (simp_all add: ent_at_entry)
    show ?case
      using Suc.IH [of "i + 1" k'] Suc.prems e k by (auto simp: window_Suc slot_no_def)
  qed simp
  show "n < k \<and> r = take 32 (drop (32 * (i + n)) b)" if "after_slots n (window b i k) = Some (r # rs)"
    using assms(1) that
  proof (induction n arbitrary: i k)
    case 0
    then show ?case by (cases k) (simp_all add: window_Suc)
  next
    case (Suc n)
    then obtain k' where k: "k = Suc k'" by (cases k) simp_all
    show ?case
      using Suc.IH [of "i + 1" k'] Suc.prems k by (auto simp: window_Suc split: if_splits)
  qed
qed

lemma names_back_ok:
  assumes "32 * (i + n) \<le> length b" "marked_last (take 32 (drop (32 * i) b))" "0 < j" "j \<le> n"
    and "\<forall>m. 0 < m \<and> m < j \<longrightarrow> \<not> marked_last (take 32 (drop (32 * (i + m)) b))" "length acc + 13 * j < 256"
  shows "names_back b (i + j) acc =
    Some (acc @ takeWhile (\<lambda>c. c \<noteq> 0) (concat (map (slot_chars \<circ> dir_slot_of) (rev (window b i j)))))"
  using assms(3-)
proof (induction j arbitrary: acc)
  case (Suc j)
  define e where "e = take 32 (drop (32 * (i + j)) b)"
  define part where "part = takeWhile (\<lambda>c. c \<noteq> 0) (slot_chars (dir_slot_of e))"
  have ent: "ent_at b (i + j) = Some e" using Suc.prems(2) assms(1) unfolding e_def by (intro ent_at_entry) simp
  have plen: "length part \<le> 13" using length_takeWhile_le [of _ "slot_chars (dir_slot_of e)"] by (simp add: part_def slot_chars_length)
  then have slot: "slot2str (dir_slot_of e) acc = Some (length part < 13, acc @ part)"
    using Suc.prems(4) by (simp add: slot2str_def slot_chars_length Let_def part_def [symmetric])
  have win: "rev (window b i (Suc j)) = e # rev (window b i j)" by (simp add: window_def e_def)
  show ?case
  proof (cases "length part < 13")
    case True
    then have "\<exists>c \<in> set (slot_chars (dir_slot_of e)). c = 0"
      unfolding part_def by (metis (mono_tags, lifting) less_irrefl slot_chars_length takeWhile_eq_all_conv)
    then have "takeWhile (\<lambda>c. c \<noteq> 0) (slot_chars (dir_slot_of e) @ r) = part" for r
      unfolding part_def by (metis (mono_tags, lifting) takeWhile_append1)
    then show ?thesis using True ent slot win by simp
  next
    case False
    have full: "part = slot_chars (dir_slot_of e)" "length part = 13"
    proof -
      show "length part = 13" using plen False by simp
      then show "part = slot_chars (dir_slot_of e)"
        by (metis part_def order_refl slot_chars_length take_all takeWhile_eq_take)
    qed
    have "takeWhile (\<lambda>c. c \<noteq> 0) (slot_chars (dir_slot_of e)) = slot_chars (dir_slot_of e)" using full(1) by (simp only: part_def)
    then have tw: "takeWhile (\<lambda>c. c \<noteq> 0) (slot_chars (dir_slot_of e) @ r) =
        slot_chars (dir_slot_of e) @ takeWhile (\<lambda>c. c \<noteq> 0) r" for r
      by (metis (mono_tags, lifting) takeWhile_append2 takeWhile_eq_all_conv)
    show ?thesis
    proof (cases "j = 0")
      case True
      then have "marked_last e" using assms(2) by (simp add: e_def)
      have tw0: "takeWhile (\<lambda>c. c \<noteq> 0) (slot_chars (dir_slot_of e)) = slot_chars (dir_slot_of e)" using tw [of "[]"] by simp
      show ?thesis using True \<open>marked_last e\<close> ent slot win by (simp add: full marked_last_def tw0)
    next
      case nz: False
      then have "\<not> marked_last e" using Suc.prems(3) by (simp add: e_def)
      then show ?thesis
        using Suc.IH [of "acc @ slot_chars (dir_slot_of e)"] Suc.prems nz ent slot win tw
        by (simp add: full marked_last_def slot_chars_length)
    qed
  qed
qed simp

text \<open>Reading a long name whose slots are followed by their entry in the same block.\<close>

lemma get_vfatname_ok:
  assumes "32 * (i + k) \<le> bytes_per_clust fs" "bytes_per_clust fs \<le> length b" "window b i k = e # es" "long_slot e"
    and "after_slots (slot_no e) (e # es) \<noteq> Some []"
  shows "after_slots (slot_no e) (e # es) = None \<Longrightarrow> get_vfatname fd fs c b i = Some (-1, fs, b, [])"
    and "after_slots (slot_no e) (e # es) = Some (r # rs) \<Longrightarrow> 0 < slot_no e \<Longrightarrow> slot_no e \<le> 19 \<Longrightarrow>
      \<not> list_ex marked_last (take (slot_no e - 1) es) \<Longrightarrow>
      get_vfatname fd fs c b i = Some (0, fs, overwrite b (32 * i) r, long_name (take (slot_no e) (e # es))) \<and>
      length r = 32"
proof -
  obtain k' where k: "k = Suc k'" using assms(3) by (cases k) simp_all
  have first: "e = take 32 (drop (32 * i) b)" "es = window b (i + 1) k'" using assms(3) k by (simp_all add: window_Suc)
  have ent: "ent_at b i = Some e" using assms(1,2) k first(1) by (simp add: ent_at_entry)
  let ?n = "slot_no e"
  note slots = vfat_slots_ok [OF assms(1,2), of ?n, unfolded assms(3), OF assms(5)]
  have limit: "unat (clust_size fs) * 512 = bytes_per_clust fs" by (simp add: bytes_per_clust_def)
  show "get_vfatname fd fs c b i = Some (-1, fs, b, [])" if "after_slots ?n (e # es) = None"
    using that slots(1) ent by (simp add: get_vfatname_def limit slot_no_def [symmetric])
  show "get_vfatname fd fs c b i = Some (0, fs, overwrite b (32 * i) r, long_name (take ?n (e # es))) \<and> length r = 32"
    if rest: "after_slots ?n (e # es) = Some (r # rs)" "0 < ?n" "?n \<le> 19" "\<not> list_ex marked_last (take (?n - 1) es)"
  proof -
    have r: "?n < k" "r = take 32 (drop (32 * (i + ?n)) b)" using slots(2) rest(1) by blast+
    have inside: "32 * Suc (i + ?n) \<le> bytes_per_clust fs" using assms(1) r(1) by simp
    then have rent: "ent_at b (i + ?n) = Some r" "length r = 32"
      using r(2) assms(2) by (simp_all add: ent_at_entry)
    have "hd (de_name (dir_entry_of e)) = slot_id (dir_slot_of e)"
      using ent by (cases e) (auto simp: dir_entry_of_def dir_slot_of_def ent_at_def sub_bytes_def split: if_splits)
    then have mark: "marked_last e" using assms(4) by (simp add: long_slot_def is_long_def marked_last_def)
    have "\<not> marked_last (take 32 (drop (32 * (i + m)) b))" if m0: "0 < m" and m1: "m < ?n" for m
    proof -
      obtain m' where m: "m = Suc m'" using m0 by (cases m) simp_all
      have "m' < k'" "m' < ?n - 1" using m1 r(1) k m by simp_all
      then have "m' < length (take (?n - 1) es)" "take (?n - 1) es ! m' = take 32 (drop (32 * (i + m)) b)"
        using first(2) m by (simp_all add: window_def del: upt_Suc)
      then have "take 32 (drop (32 * (i + m)) b) \<in> set (take (?n - 1) es)" by (metis nth_mem)
      then show ?thesis using rest(4) by (auto simp: list_ex_iff)
    qed
    then have names: "names_back b (i + ?n) [] =
        Some (takeWhile (\<lambda>c. c \<noteq> 0) (concat (map (slot_chars \<circ> dir_slot_of) (rev (window b i ?n)))))"
      using names_back_ok [of i ?n b ?n "[]"] inside assms(2) mark first(1) rest(2,3) by simp
    have win: "window b i ?n = take ?n (e # es)"
      using r(1) unfolding assms(3) [symmetric] by (simp add: window_def take_map)
    let ?l = "takeWhile (\<lambda>c. c \<noteq> 0) (concat (map (slot_chars \<circ> dir_slot_of) (rev (take ?n (e # es)))))"
    have "length (concat (map (slot_chars \<circ> dir_slot_of) xs)) = 13 * length xs" for xs
      by (induction xs) (simp_all add: slot_chars_length)
    then have "length ?l \<le> 13 * length (rev (take ?n (e # es)))" by (metis length_takeWhile_le)
    moreover have "length (rev (take ?n (e # es))) \<le> 19" using rest(3) by simp
    ultimately have "length ?l < 256" by linarith
    then show ?thesis
      using slots(1) rest(1) ent names rent inside
      by (simp add: get_vfatname_def limit slot_no_def [symmetric] win long_name_def)
  qed
qed

lemma window_overwrite:
  assumes "length r = 32" "32 * (i + 1 + k) \<le> length b"
  shows "window (overwrite b (32 * i) r) (i + 1) k = window b (i + 1) k"
proof -
  have "drop (32 * j) (overwrite b (32 * i) r) = drop (32 * j) b" if "i < j" for j
    using that assms by (simp add: overwrite_def)
  then show ?thesis by (simp add: window_def del: upt_Suc)
qed

lemma root_scan_ok:
  assumes "32 * (i + k) \<le> bytes_per_clust fs" "bytes_per_clust fs \<le> length (do_fat_read_block fs)"
    and "dir_search name (window (do_fat_read_block fs) i k) \<noteq> Hidden" "name \<noteq> []"
  shows "\<exists>b pc'. length b = length (do_fat_read_block fs) \<and> root_scan fd name LS_NO i k pc files dirs fs =
    Some (case dir_search name (window (do_fat_read_block fs) i k) of
        Found e \<Rightarrow> RootFound e | Absent \<Rightarrow> RootReturn (-1) | _ \<Rightarrow> RootMore pc' files dirs, fs\<lparr>do_fat_read_block := b\<rparr>)"
  using assms(1-3)
proof (induction k arbitrary: i pc fs)
  case 0
  show ?case by (intro exI [of _ "do_fat_read_block fs"]) simp
next
  case (Suc k)
  let ?b = "do_fat_read_block fs"
  define e where "e = take 32 (drop (32 * i) ?b)"
  define es where "es = window ?b (i + 1) k"
  have win: "window ?b i (Suc k) = e # es" by (simp add: window_Suc e_def es_def)
  have ent: "ent_at ?b i = Some e" using Suc.prems(1,2) by (simp add: e_def ent_at_entry)
  show ?case
  proof (cases "long_slot e")
    case False
    have IH: "dir_search name es \<noteq> Hidden \<Longrightarrow> \<exists>b pc'. length b = length ?b \<and> root_scan fd name LS_NO (i + 1) k pc files dirs fs =
      Some (case dir_search name es of
        Found e \<Rightarrow> RootFound e | Absent \<Rightarrow> RootReturn (-1) | _ \<Rightarrow> RootMore pc' files dirs, fs\<lparr>do_fat_read_block := b\<rparr>)"
      using Suc.IH [of "i + 1" fs pc] Suc.prems(1,2) by (simp add: es_def)
    show ?thesis
    proof (cases "volume_bit e \<or> hd (de_name (dir_entry_of e)) \<noteq> 0 \<and> get_name (dir_entry_of e) \<noteq> name")
      case True
      have "root_scan fd name LS_NO i (Suc k) pc files dirs fs = root_scan fd name LS_NO (i + 1) k pc files dirs fs"
        using True False ent assms(4) by (cases "volume_bit e") (auto simp: long_slot_def volume_bit_def)
      moreover have "dir_search name (e # es) = dir_search name es" using True False by auto
      ultimately show ?thesis using IH Suc.prems(3) unfolding win by (simp only: not_False_eq_True)
    next
      case stop: False
      then show ?thesis using False ent unfolding win
        by (intro exI [of _ ?b]) (auto simp: long_slot_def volume_bit_def)
    qed
  next
    case True
    let ?n = "slot_no e"
    have some: "after_slots ?n (e # es) \<noteq> Some []"
      using Suc.prems(3) True unfolding win by (auto simp: Let_def)
    note vfat = get_vfatname_ok [OF Suc.prems(1,2) win True some]
    have vol: "de_attr (dir_entry_of e) AND ATTR_VOLUME \<noteq> 0" "is_long (dir_entry_of e)"
      using True by (simp_all add: long_slot_def volume_bit_def)
    let ?pc = "ucast (alias_checksum (dir_slot_of e)) :: u16"
    show ?thesis
    proof (cases "after_slots ?n (e # es)")
      case None
      have IH: "dir_search name es \<noteq> Hidden \<Longrightarrow> \<exists>b pc'. length b = length ?b \<and> root_scan fd name LS_NO (i + 1) k ?pc files dirs fs =
        Some (case dir_search name es of
          Found e \<Rightarrow> RootFound e | Absent \<Rightarrow> RootReturn (-1) | _ \<Rightarrow> RootMore pc' files dirs, fs\<lparr>do_fat_read_block := b\<rparr>)"
        using Suc.IH [of "i + 1" fs ?pc] Suc.prems(1,2) by (simp add: es_def)
      have body: "root_scan fd name LS_NO i (Suc k) pc files dirs fs =
          (if get_name (dir_entry_of e) = name then Some (RootFound e, fs)
           else root_scan fd name LS_NO (i + 1) k ?pc files dirs fs)"
        using ent vol vfat(1) [OF None] assms(4) by auto
      show ?thesis
      proof (cases "get_name (dir_entry_of e) = name")
        case True
        then show ?thesis using body None \<open>long_slot e\<close> unfolding win by (intro exI [of _ ?b]) (simp add: Let_def)
      next
        case False
        then show ?thesis using body None IH Suc.prems(3) \<open>long_slot e\<close> unfolding win by (simp add: Let_def)
      qed
    next
      case (Some rest)
      then obtain r rs where rest: "after_slots ?n (e # es) = Some (r # rs)" using some by (cases rest) auto
      have conds: "0 < ?n" "?n \<le> 19" "\<not> list_ex marked_last (take (?n - 1) es)"
        using Suc.prems(3) True rest unfolding win by (auto simp: Let_def split: if_splits)
      note vf = vfat(2) [OF rest conds, of fd 0]
      let ?b' = "overwrite ?b (32 * i) r" and ?l = "long_name (take ?n (e # es))"
      let ?fs = "fs\<lparr>do_fat_read_block := ?b'\<rparr>"
      have len: "length ?b' = length ?b"
        using vf Suc.prems(1,2) by (simp add: length_overwrite)
      have ent': "ent_at ?b' i = Some r"
        using vf Suc.prems(1,2) len by (simp add: ent_at_entry) (simp add: overwrite_def)
      have same: "window ?b' (i + 1) k = es"
        unfolding es_def by (rule window_overwrite) (use vf Suc.prems(1,2) in simp_all)
      have IH: "dir_search name es \<noteq> Hidden \<Longrightarrow> \<exists>b pc'. length b = length ?b \<and> root_scan fd name LS_NO (i + 1) k ?pc files dirs ?fs =
        Some (case dir_search name es of
          Found e \<Rightarrow> RootFound e | Absent \<Rightarrow> RootReturn (-1) | _ \<Rightarrow> RootMore pc' files dirs, fs\<lparr>do_fat_read_block := b\<rparr>)"
        using Suc.IH [of "i + 1" ?fs ?pc] Suc.prems(1,2) len same by (simp add: bytes_per_clust_def)
      have body: "root_scan fd name LS_NO i (Suc k) pc files dirs fs =
          (if get_name (dir_entry_of r) = name \<or> ?l = name then Some (RootFound r, ?fs)
           else root_scan fd name LS_NO (i + 1) k ?pc files dirs ?fs)"
        using ent vol conjunct1 [OF vf] ent' by auto
      show ?thesis
      proof (cases "get_name (dir_entry_of r) = name \<or> ?l = name")
        case True
        then show ?thesis using body rest conds len Suc.prems(3) \<open>long_slot e\<close> unfolding win
          by (intro exI [of _ ?b']) (auto simp: Let_def split: if_splits)
      next
        case False
        then show ?thesis using body rest conds IH Suc.prems(3) \<open>long_slot e\<close> unfolding win
          by (auto simp: Let_def split: if_splits)
      qed
    qed
  qed
qed


lemma dent_scan_ok:
  assumes "32 * (i + k) \<le> bytes_per_clust fs" "bytes_per_clust fs \<le> length (get_dentfromdir_block fs)"
    and "dir_search name (window (get_dentfromdir_block fs) i k) \<noteq> Hidden" "name \<noteq> []"
  shows "\<exists>b pc'. length b = length (get_dentfromdir_block fs) \<and> dent_scan fd c name False i k pc files dirs fs =
    Some (case dir_search name (window (get_dentfromdir_block fs) i k) of
        Found e \<Rightarrow> DentFound e | Absent \<Rightarrow> DentNull | _ \<Rightarrow> DentMore pc' files dirs, fs\<lparr>get_dentfromdir_block := b\<rparr>)"
  using assms(1-3)
proof (induction k arbitrary: i pc fs)
  case 0
  show ?case by (intro exI [of _ "get_dentfromdir_block fs"]) simp
next
  case (Suc k)
  let ?b = "get_dentfromdir_block fs"
  define e where "e = take 32 (drop (32 * i) ?b)"
  define es where "es = window ?b (i + 1) k"
  have win: "window ?b i (Suc k) = e # es" by (simp add: window_Suc e_def es_def)
  have ent: "ent_at ?b i = Some e" using Suc.prems(1,2) by (simp add: e_def ent_at_entry)
  have "length e = 32" using Suc.prems(1,2) by (simp add: e_def)
  then have del: "hd (de_name (dir_entry_of e)) = DELETED_FLAG \<Longrightarrow> get_name (dir_entry_of e) \<noteq> name"
    using get_name_deleted [of "dir_entry_of e"] assms(4) by (auto simp: dir_entry_of_def)
  have nz: "DELETED_FLAG \<noteq> 0" by (simp add: DELETED_FLAG_def)
  show ?case
  proof (cases "long_slot e")
    case False
    have IH: "dir_search name es \<noteq> Hidden \<Longrightarrow> \<exists>b pc'. length b = length ?b \<and> dent_scan fd c name False (i + 1) k pc files dirs fs =
      Some (case dir_search name es of
        Found e \<Rightarrow> DentFound e | Absent \<Rightarrow> DentNull | _ \<Rightarrow> DentMore pc' files dirs, fs\<lparr>get_dentfromdir_block := b\<rparr>)"
      using Suc.IH [of "i + 1" fs pc] Suc.prems(1,2) by (simp add: es_def)
    show ?thesis
    proof (cases "volume_bit e \<or> hd (de_name (dir_entry_of e)) \<noteq> 0 \<and> get_name (dir_entry_of e) \<noteq> name")
      case True
      have "dent_scan fd c name False i (Suc k) pc files dirs fs = dent_scan fd c name False (i + 1) k pc files dirs fs"
        using True False ent assms(4) del nz by (cases "volume_bit e") (auto simp: long_slot_def volume_bit_def)
      moreover have "dir_search name (e # es) = dir_search name es" using True False by auto
      ultimately show ?thesis using IH Suc.prems(3) unfolding win by (simp only: not_False_eq_True)
    next
      case stop: False
      then show ?thesis using False ent del nz unfolding win
        by (intro exI [of _ ?b]) (auto simp: long_slot_def volume_bit_def)
    qed
  next
    case True
    let ?n = "slot_no e"
    have some: "after_slots ?n (e # es) \<noteq> Some []"
      using Suc.prems(3) True unfolding win by (auto simp: Let_def)
    note vfat = get_vfatname_ok [OF Suc.prems(1,2) win True some]
    have vol: "de_attr (dir_entry_of e) AND ATTR_VOLUME \<noteq> 0" "is_long (dir_entry_of e)"
      using True by (simp_all add: long_slot_def volume_bit_def)
    have hd_id: "hd (de_name (dir_entry_of e)) = slot_id (dir_slot_of e)"
      using \<open>length e = 32\<close> by (cases e) (simp_all add: dir_entry_of_def dir_slot_of_def)
    have longhd: "hd (de_name (dir_entry_of e)) \<noteq> 0" using vol(2) by (auto simp: is_long_def)
    let ?pc = "ucast (alias_checksum (dir_slot_of e)) :: u16"
    show ?thesis
    proof (cases "after_slots ?n (e # es)")
      case None
      have IH: "dir_search name es \<noteq> Hidden \<Longrightarrow> \<exists>b pc'. length b = length ?b \<and> dent_scan fd c name False (i + 1) k pc1 files dirs fs =
        Some (case dir_search name es of
          Found e \<Rightarrow> DentFound e | Absent \<Rightarrow> DentNull | _ \<Rightarrow> DentMore pc' files dirs, fs\<lparr>get_dentfromdir_block := b\<rparr>)" for pc1
        using Suc.IH [of "i + 1" fs pc1] Suc.prems(1,2) by (simp add: es_def)
      obtain pc1 where body: "dent_scan fd c name False i (Suc k) pc files dirs fs =
          (if get_name (dir_entry_of e) = name then Some (DentFound e, fs)
           else dent_scan fd c name False (i + 1) k pc1 files dirs fs)"
      proof (cases "hd (de_name (dir_entry_of e)) = DELETED_FLAG")
        case True
        then show ?thesis using that [of pc] ent del by auto
      next
        case False
        then show ?thesis using that [of ?pc] ent vol vfat(1) [OF None] assms(4) longhd by auto
      qed
      show ?thesis
      proof (cases "get_name (dir_entry_of e) = name")
        case True
        then show ?thesis using body None \<open>long_slot e\<close> unfolding win by (intro exI [of _ ?b]) (simp add: Let_def)
      next
        case False
        then show ?thesis using body None IH Suc.prems(3) \<open>long_slot e\<close> unfolding win by (simp add: Let_def)
      qed
    next
      case (Some rest)
      then obtain r rs where rest: "after_slots ?n (e # es) = Some (r # rs)" using some by (cases rest) auto
      have conds: "0 < ?n" "?n \<le> 19" "\<not> list_ex marked_last (take (?n - 1) es)"
        using Suc.prems(3) True rest unfolding win by (auto simp: Let_def split: if_splits)
      have rhd: "hd (de_name (dir_entry_of r)) \<noteq> 0"
        using Suc.prems(3) True rest unfolding win by (auto simp: Let_def split: if_splits)
      have notdel: "hd (de_name (dir_entry_of e)) \<noteq> DELETED_FLAG"
        using conds(2) by (auto simp: hd_id slot_no_def DELETED_FLAG_def LAST_LONG_ENTRY_MASK_def)
      note vf = vfat(2) [OF rest conds, of fd c]
      let ?b' = "overwrite ?b (32 * i) r" and ?l = "long_name (take ?n (e # es))"
      let ?fs = "fs\<lparr>get_dentfromdir_block := ?b'\<rparr>"
      have len: "length ?b' = length ?b"
        using vf Suc.prems(1,2) by (simp add: length_overwrite)
      have ent': "ent_at ?b' i = Some r"
        using vf Suc.prems(1,2) len by (simp add: ent_at_entry) (simp add: overwrite_def)
      have same: "window ?b' (i + 1) k = es"
        unfolding es_def by (rule window_overwrite) (use vf Suc.prems(1,2) in simp_all)
      have IH: "dir_search name es \<noteq> Hidden \<Longrightarrow> \<exists>b pc'. length b = length ?b \<and> dent_scan fd c name False (i + 1) k ?pc files dirs ?fs =
        Some (case dir_search name es of
          Found e \<Rightarrow> DentFound e | Absent \<Rightarrow> DentNull | _ \<Rightarrow> DentMore pc' files dirs, fs\<lparr>get_dentfromdir_block := b\<rparr>)"
        using Suc.IH [of "i + 1" ?fs ?pc] Suc.prems(1,2) len same by (simp add: bytes_per_clust_def)
      have body: "dent_scan fd c name False i (Suc k) pc files dirs fs =
          (if get_name (dir_entry_of r) = name \<or> ?l = name then Some (DentFound r, ?fs)
           else dent_scan fd c name False (i + 1) k ?pc files dirs ?fs)"
        using ent vol conjunct1 [OF vf] ent' notdel rhd by auto
      show ?thesis
      proof (cases "get_name (dir_entry_of r) = name \<or> ?l = name")
        case True
        then show ?thesis using body rest conds len Suc.prems(3) \<open>long_slot e\<close> unfolding win
          by (intro exI [of _ ?b']) (auto simp: Let_def split: if_splits)
      next
        case False
        then show ?thesis using body rest conds IH Suc.prems(3) \<open>long_slot e\<close> unfolding win
          by (auto simp: Let_def split: if_splits)
      qed
    qed
  qed
qed


end
