(* ===== verification/Fat_Files.thy ===== *)
theory Fat_Files
  imports Fat_Scan
begin

text \<open>
  Directory searches and paths on a FAT volume against the specification of a search, down to the contents
  of the file that is named.
\<close>

section \<open>Searching directories\<close>

text \<open>The buffers that a search of directories overwrites.\<close>

definition buffered :: "fat_state \<Rightarrow> fat_state \<Rightarrow> bool" where
  "buffered fs fs' \<longleftrightarrow> (\<exists>b k r d. length r = length (do_fat_read_block fs) \<and> length d = length (get_dentfromdir_block fs) \<and>
     fs' = fs\<lparr>fatbuf := b, fatbufnum := k, do_fat_read_block := r, get_dentfromdir_block := d\<rparr>)"

lemma buffered_refl [simp]: "buffered fs fs"
  unfolding buffered_def
  by (intro exI [of _ "fatbuf fs"] exI [of _ "fatbufnum fs"] exI [of _ "do_fat_read_block fs"]
    exI [of _ "get_dentfromdir_block fs"]) simp

lemma buffered_trans: "buffered fs fs' \<Longrightarrow> buffered fs' fs'' \<Longrightarrow> buffered fs fs''"
  unfolding buffered_def by (elim exE) force

lemma cached_buffered: "cached fs fs' \<Longrightarrow> buffered fs fs'"
  unfolding cached_def buffered_def by force

lemma buffered_blocks:
  "length r = length (do_fat_read_block fs) \<Longrightarrow> buffered fs (fs\<lparr>do_fat_read_block := r\<rparr>)"
  "length d = length (get_dentfromdir_block fs) \<Longrightarrow> buffered fs (fs\<lparr>get_dentfromdir_block := d\<rparr>)"
  unfolding buffered_def
  subgoal by (intro exI [of _ "fatbuf fs"] exI [of _ "fatbufnum fs"] exI [of _ r] exI [of _ "get_dentfromdir_block fs"]) simp
  subgoal by (intro exI [of _ "fatbuf fs"] exI [of _ "fatbufnum fs"] exI [of _ "do_fat_read_block fs"] exI [of _ d]) simp
  done

lemma buffered_fields:
  assumes "buffered fs fs'"
  shows "fatsize fs' = fatsize fs" "clust_size fs' = clust_size fs" "start_sector fs' = start_sector fs"
    "fat_next disk fd fs' = fat_next disk fd fs" "START fs' = START fs" "rootdir_sect fs' = rootdir_sect fs"
    "length (do_fat_read_block fs') = length (do_fat_read_block fs)"
    "length (get_dentfromdir_block fs') = length (get_dentfromdir_block fs)"
  using assms
  by (auto simp: buffered_def start_sector_def fat_next_def table_byte_def [abs_def] table_place_def START_def fun_eq_iff)

lemma buffered_derived:
  assumes "buffered fs fs'"
  shows "cluster_bytes disk fd fs' = cluster_bytes disk fd fs" "bytes_per_clust fs' = bytes_per_clust fs"
    "has_file disk fd fs' = has_file disk fd fs"
proof -
  note same = buffered_fields [OF assms]
  show bytes: "cluster_bytes disk fd fs' = cluster_bytes disk fd fs" "bytes_per_clust fs' = bytes_per_clust fs"
    by (simp_all only: cluster_bytes_def [abs_def] bytes_per_clust_def same)
  show "has_file disk fd fs' = has_file disk fd fs"
    by (intro ext) (simp only: has_file_def same bytes)
qed

lemmas buffered_same = buffered_fields buffered_derived

lemma mounted_blocks [simp]:
  "mounted fd disk (fs\<lparr>do_fat_read_block := r\<rparr>) = mounted fd disk fs"
  "mounted fd disk (fs\<lparr>get_dentfromdir_block := d\<rparr>) = mounted fd disk fs"
  by (simp_all add: mounted_def table_place_def)

text \<open>The root directory lies in sectors behind one another; only the first of those read at a time is searched.\<close>

definition root_blocks :: "(u32 \<Rightarrow> u8 list) \<Rightarrow> fat_dev \<Rightarrow> u32 \<Rightarrow> nat \<Rightarrow> u8 list list list" where
  "root_blocks disk fd s m = map (\<lambda>i. block_entries (disk (s + part_offset fd + of_nat i))) [0..<m]"

lemma root_blocks_Suc: "root_blocks disk fd s (Suc m) = block_entries (disk (s + part_offset fd)) # root_blocks disk fd (s + 1) m"
proof -
  have "[0..<Suc m] = 0 # map Suc [0..<m]" by (simp add: upt_conv_Cons map_Suc_upt del: upt_Suc)
  moreover have "s + 1 + part_offset fd + of_nat i = s + part_offset fd + of_nat (Suc i)" for i by simp
  ultimately show ?thesis by (simp only: root_blocks_def list.map map_map comp_def) simp
qed

lemma root_loop_ok:
  assumes "on_disk fd disk" "mounted fd disk fs" "name \<noteq> []" "0 < clust_size fs"
    and "bytes_per_clust fs \<le> length (do_fat_read_block fs)"
    and "blocks_search name (root_blocks disk fd s m) \<in> {Absent} \<union> range Found"
  shows "\<exists>fs'. root_loop fd name LS_NO s pc files dirs fs =
      Some (case blocks_search name (root_blocks disk fd s m) of Found e \<Rightarrow> Inr e | _ \<Rightarrow> Inl (-1), fs') \<and>
    buffered fs fs' \<and> mounted fd disk fs'"
  using assms(2,4-)
proof (induction m arbitrary: s pc files dirs fs)
  case 0
  then show ?case by (simp add: root_blocks_def image_iff)
next
  case (Suc m)
  let ?k = "unat (clust_size fs)" and ?s = "s + part_offset fd"
  have pos: "1 \<le> ?k" using Suc.prems(2) by (simp add: unat_gt_0 Suc_le_eq)
  have k: "unat (ucast (clust_size fs) :: u32) < 2 ^ 22"
    unfolding unat_ucast_u16 by (rule less_trans [OF unat_u16_less]) simp
  define block where "block = overwrite (do_fat_read_block fs) 0 (sectors disk ?s ?k)"
  have slen: "length (sectors disk ?s ?k) = 512 * ?k"
    using disk_length [OF assms(1)] by (intro length_sectors) simp
  have blen: "length block = length (do_fat_read_block fs)" "512 * 1 \<le> length block"
    using Suc.prems(3) slen pos by (simp_all add: block_def length_overwrite bytes_per_clust_def)
  have "take 512 (sectors disk ?s ?k) = take 512 (sectors disk ?s 1)"
    using pos by (intro take_sectors [OF assms(1)]) simp_all
  then have "take 512 block = disk ?s"
    using slen pos disk_length [OF assms(1)] by (simp add: block_def overwrite_def sectors_one del: One_nat_def)
  with window_entries [OF blen(2)] have win: "window block 0 16 = block_entries (disk ?s)" by simp
  let ?fs0 = "fs\<lparr>do_fat_read_block := block\<rparr>"
  have split: "blocks_search name (root_blocks disk fd s (Suc m)) =
      (case dir_search name (block_entries (disk ?s)) of Open \<Rightarrow> blocks_search name (root_blocks disk fd (s + 1) m) | r \<Rightarrow> r)"
    by (simp only: root_blocks_Suc blocks_search.simps)
  have shape: "dir_search name (block_entries (disk ?s)) \<noteq> Hidden" using Suc.prems(4) split by auto
  have "16 * 32 \<le> bytes_per_clust fs" using pos by (simp add: bytes_per_clust_def)
  then obtain b pc' where b: "length b = length block" and scan: "root_scan fd name LS_NO 0 16 pc files dirs ?fs0 =
      Some (case dir_search name (block_entries (disk ?s)) of
        Found e \<Rightarrow> RootFound e | Absent \<Rightarrow> RootReturn (-1) | _ \<Rightarrow> RootMore pc' files dirs, fs\<lparr>do_fat_read_block := b\<rparr>)"
    using root_scan_ok [of 0 16 ?fs0 name fd pc files dirs] Suc.prems(3) blen(1) assms(3) win shape
    by (auto simp: bytes_per_clust_def)
  let ?fs = "fs\<lparr>do_fat_read_block := b\<rparr>"
  have body: "root_loop fd name LS_NO s pc files dirs fs =
      (case dir_search name (block_entries (disk ?s)) of
         Found e \<Rightarrow> Some (Inr e, ?fs) | Absent \<Rightarrow> Some (Inl (-1), ?fs)
       | _ \<Rightarrow> root_loop fd name LS_NO (s + 1) pc' files dirs ?fs)"
    using disk_read_ok [OF assms(1) k, of s] Suc.prems(3) slen scan
    by (subst root_loop.simps)
      (simp add: store_bytes_def block_def [symmetric] bytes_per_clust_def split: dir_answer.split)
  have here: "buffered fs ?fs" "mounted fd disk ?fs"
    using b blen(1) buffered_blocks(1) Suc.prems(1) by simp_all
  show ?case
  proof (cases "dir_search name (block_entries (disk ?s)) = Open")
    case True
    have "\<exists>fs'. root_loop fd name LS_NO (s + 1) pc' files dirs ?fs =
        Some (case blocks_search name (root_blocks disk fd (s + 1) m) of Found e \<Rightarrow> Inr e | _ \<Rightarrow> Inl (-1), fs') \<and>
      buffered ?fs fs' \<and> mounted fd disk fs'"
      using Suc.prems(2-4) b blen(1) True split here(2)
      by (intro Suc.IH) (simp_all add: bytes_per_clust_def)
    then show ?thesis using body True split buffered_trans [OF here(1)] by fastforce
  next
    case False
    then show ?thesis
      using body split here Suc.prems(4) by (intro exI [of _ ?fs]) (auto split: dir_answer.splits)
  qed
qed

text \<open>The block_entries of a directory that lies in a chain of clusters, and what a search of it has to answer.\<close>

definition chain_blocks :: "(u32 \<Rightarrow> u8 list) \<Rightarrow> fat_dev \<Rightarrow> fat_state \<Rightarrow> u32 list \<Rightarrow> u8 list list list" where
  "chain_blocks disk fd fs cs = map (\<lambda>c. block_entries (cluster_bytes disk fd fs c)) cs"

definition dir_lists :: "(u32 \<Rightarrow> u8 list) \<Rightarrow> fat_dev \<Rightarrow> fat_state \<Rightarrow> u32 \<Rightarrow> u8 list \<Rightarrow> u8 list option \<Rightarrow> bool" where
  "dir_lists disk fd fs c name res \<longleftrightarrow>
     (\<exists>ds. chain (fat_next disk fd fs) (fatsize fs) c ds \<and>
        (case blocks_search name (chain_blocks disk fd fs (c # ds)) of
           Found e \<Rightarrow> res = Some e
         | Absent \<Rightarrow> res = None
         | Open \<Rightarrow> res = None \<and> CHECK_CLUST (fat_next disk fd fs (last (c # ds))) (fatsize fs)
         | Hidden \<Rightarrow> False))"

definition dir_block_ok :: "fat_state \<Rightarrow> bool" where
  "dir_block_ok fs \<longleftrightarrow> 0 < clust_size fs \<and> bytes_per_clust fs < 2 ^ 31 \<and>
     bytes_per_clust fs \<le> length (get_dentfromdir_block fs)"

lemma buffered_dir_block: "buffered fs fs' \<Longrightarrow> dir_block_ok fs' = dir_block_ok fs"
  by (simp add: dir_block_ok_def buffered_same)

lemma dentfromdir_step:
  assumes "on_disk fd disk" "mounted fd disk fs" "name \<noteq> []" "dir_block_ok fs"
    and "dir_search name (block_entries (cluster_bytes disk fd fs c)) \<noteq> Hidden"
  shows "\<exists>block pc'. length block = length (get_dentfromdir_block fs) \<and>
    dentfromdir_loop fd name False c pc files dirs fs =
      (case dir_search name (block_entries (cluster_bytes disk fd fs c)) of
         Found e \<Rightarrow> Some (Some e, fs\<lparr>get_dentfromdir_block := block\<rparr>)
       | Absent \<Rightarrow> Some (None, fs\<lparr>get_dentfromdir_block := block\<rparr>)
       | _ \<Rightarrow> do {
           (newclust, fs') \<leftarrow> get_fatent fd (fs\<lparr>get_dentfromdir_block := block\<rparr>) c;
           if CHECK_CLUST newclust (fatsize fs') then Some (None, fs')
           else dentfromdir_loop fd name False newclust pc' files dirs fs'
         })"
proof -
  let ?k = "unat (clust_size fs)"
  have size: "unat (ucast (clust_size fs) * 512 :: u32) = bytes_per_clust fs"
    using assms(4) by (simp add: dir_block_ok_def unat_word_ariths bytes_per_clust_def)
  have fit: "unat (ucast (clust_size fs) * 512 :: u32) < 2 ^ 31"
    "0 + unat (ucast (clust_size fs) * 512 :: u32) \<le> length (get_dentfromdir_block fs)"
    "unat (ucast (clust_size fs) * 512 :: u32) \<le> 512 * ?k"
    unfolding size using assms(4) by (simp_all add: dir_block_ok_def bytes_per_clust_def)
  have clen: "length (cluster_bytes disk fd fs c) = 512 * ?k"
    unfolding cluster_bytes_def using disk_length [OF assms(1)] by (intro length_sectors) simp
  define block where "block = overwrite (get_dentfromdir_block fs) 0 (cluster_bytes disk fd fs c)"
  have read: "get_cluster fd fs c (get_dentfromdir_block fs) 0 (ucast (clust_size fs) * 512) = Some (0, block)"
    using get_cluster_ok [OF assms(1) fit, of fs c] clen
    by (simp add: size bytes_per_clust_def block_def cluster_bytes_def)
  have blen: "length block = length (get_dentfromdir_block fs)" "512 * ?k \<le> length block"
    using fit(2) clen size by (simp_all add: block_def length_overwrite bytes_per_clust_def)
  have "take (512 * ?k) block = cluster_bytes disk fd fs c"
    using clen by (simp add: block_def overwrite_def)
  with window_entries [OF blen(2)] have win: "window block 0 (?k * 16) = block_entries (cluster_bytes disk fd fs c)"
    by (simp add: mult.commute)
  let ?fs0 = "fs\<lparr>get_dentfromdir_block := block\<rparr>"
  have "32 * (0 + ?k * 16) \<le> bytes_per_clust ?fs0" "bytes_per_clust ?fs0 \<le> length (get_dentfromdir_block ?fs0)"
    using blen(2) by (simp_all add: bytes_per_clust_def)
  from dent_scan_ok [OF this _ assms(3), of fd c pc files dirs] obtain b pc' where b: "length b = length block"
    and scan: "dent_scan fd c name False 0 (?k * 16) pc files dirs ?fs0 =
      Some (case dir_search name (block_entries (cluster_bytes disk fd fs c)) of
        Found e \<Rightarrow> DentFound e | Absent \<Rightarrow> DentNull | _ \<Rightarrow> DentMore pc' files dirs, fs\<lparr>get_dentfromdir_block := b\<rparr>)"
    using win assms(5) by auto
  show ?thesis
    using read scan blen(1) b
    by (intro exI [of _ b] exI [of _ pc'] conjI, simp) (subst dentfromdir_loop.simps, simp split: dir_answer.split)
qed

lemma dentfromdir_loop_ok:
  assumes "on_disk fd disk" "mounted fd disk fs" "name \<noteq> []" "dir_block_ok fs" "dir_lists disk fd fs c name res"
  shows "\<exists>fs'. dentfromdir_loop fd name False c pc files dirs fs = Some (res, fs') \<and>
    buffered fs fs' \<and> mounted fd disk fs'"
proof -
  obtain ds where ds: "chain (fat_next disk fd fs) (fatsize fs) c ds"
    "case blocks_search name (chain_blocks disk fd fs (c # ds)) of
       Found e \<Rightarrow> res = Some e | Absent \<Rightarrow> res = None
     | Open \<Rightarrow> res = None \<and> CHECK_CLUST (fat_next disk fd fs (last (c # ds))) (fatsize fs) | Hidden \<Rightarrow> False"
    using assms(5) by (auto simp: dir_lists_def)
  show ?thesis
    using assms(2,4) ds
  proof (induction ds arbitrary: c pc files dirs fs)
    case (Nil c pc files dirs fs)
    let ?a = "dir_search name (block_entries (cluster_bytes disk fd fs c))"
    have shape: "?a \<noteq> Hidden" using Nil.prems(4) by (auto simp: chain_blocks_def)
    obtain block pc' where b: "length block = length (get_dentfromdir_block fs)"
      "dentfromdir_loop fd name False c pc files dirs fs =
      (case ?a of
         Found e \<Rightarrow> Some (Some e, fs\<lparr>get_dentfromdir_block := block\<rparr>)
       | Absent \<Rightarrow> Some (None, fs\<lparr>get_dentfromdir_block := block\<rparr>)
       | _ \<Rightarrow> do {
           (newclust, fs') \<leftarrow> get_fatent fd (fs\<lparr>get_dentfromdir_block := block\<rparr>) c;
           if CHECK_CLUST newclust (fatsize fs') then Some (None, fs')
           else dentfromdir_loop fd name False newclust pc' files dirs fs'
         })"
      using dentfromdir_step [OF assms(1) Nil.prems(1) assms(3) Nil.prems(2) shape] by blast
    let ?fs = "fs\<lparr>get_dentfromdir_block := block\<rparr>"
    have here: "buffered fs ?fs" "mounted fd disk ?fs" using buffered_blocks(2) [OF b(1)] Nil.prems(1) by simp_all
    obtain fs1 where fs1: "get_fatent fd ?fs c = Some (fat_next disk fd ?fs c, fs1)" "cached ?fs fs1" "mounted fd disk fs1"
      using get_fatent_ok [OF assms(1) here(2)] by metis
    have all: "buffered fs fs1" using buffered_trans [OF here(1) cached_buffered [OF fs1(2)]] .
    show ?case
      using b(2) fs1(1,3) here all Nil.prems(4) buffered_same(1,4) [OF here(1)] buffered_same(1) [OF all]
      by (cases ?a) (auto simp: chain_blocks_def)
  next
    case (Cons d ds c pc files dirs fs)
    let ?a = "dir_search name (block_entries (cluster_bytes disk fd fs c))"
    have split: "blocks_search name (chain_blocks disk fd fs (c # d # ds)) =
        (case ?a of Open \<Rightarrow> blocks_search name (chain_blocks disk fd fs (d # ds)) | r \<Rightarrow> r)"
    proof -
      have "chain_blocks disk fd fs (c # d # ds) = block_entries (cluster_bytes disk fd fs c) # chain_blocks disk fd fs (d # ds)"
        by (simp add: chain_blocks_def)
      then show ?thesis by (simp only: blocks_search.simps)
    qed
    have shape: "?a \<noteq> Hidden" using Cons.prems(4) split by auto
    obtain block pc' where b: "length block = length (get_dentfromdir_block fs)"
      "dentfromdir_loop fd name False c pc files dirs fs =
      (case ?a of
         Found e \<Rightarrow> Some (Some e, fs\<lparr>get_dentfromdir_block := block\<rparr>)
       | Absent \<Rightarrow> Some (None, fs\<lparr>get_dentfromdir_block := block\<rparr>)
       | _ \<Rightarrow> do {
           (newclust, fs') \<leftarrow> get_fatent fd (fs\<lparr>get_dentfromdir_block := block\<rparr>) c;
           if CHECK_CLUST newclust (fatsize fs') then Some (None, fs')
           else dentfromdir_loop fd name False newclust pc' files dirs fs'
         })"
      using dentfromdir_step [OF assms(1) Cons.prems(1) assms(3) Cons.prems(2) shape] by blast
    let ?fs = "fs\<lparr>get_dentfromdir_block := block\<rparr>"
    have here: "buffered fs ?fs" "mounted fd disk ?fs" using buffered_blocks(2) [OF b(1)] Cons.prems(1) by simp_all
    obtain fs1 where fs1: "get_fatent fd ?fs c = Some (fat_next disk fd ?fs c, fs1)" "cached ?fs fs1" "mounted fd disk fs1"
      using get_fatent_ok [OF assms(1) here(2)] by metis
    have all: "buffered fs fs1" using buffered_trans [OF here(1) cached_buffered [OF fs1(2)]] .
    note same = buffered_same [OF all]
    have d: "fat_next disk fd fs c = d" "\<not> CHECK_CLUST d (fatsize fs)" "chain (fat_next disk fd fs) (fatsize fs) d ds"
      using Cons.prems(3) by simp_all
    show ?case
    proof (cases "?a = Open")
      case True
      have "\<exists>fs'. dentfromdir_loop fd name False d pc' files dirs fs1 = Some (res, fs') \<and>
          buffered fs1 fs' \<and> mounted fd disk fs'"
      proof (rule Cons.IH [OF fs1(3)])
        show "dir_block_ok fs1" using Cons.prems(2) buffered_dir_block [OF all] by simp
        show "chain (fat_next disk fd fs1) (fatsize fs1) d ds" using d(3) by (simp only: same)
        have "chain_blocks disk fd fs1 = chain_blocks disk fd fs" by (intro ext) (simp only: chain_blocks_def same)
        then show "case blocks_search name (chain_blocks disk fd fs1 (d # ds)) of
           Found e \<Rightarrow> res = Some e | Absent \<Rightarrow> res = None
         | Open \<Rightarrow> res = None \<and> CHECK_CLUST (fat_next disk fd fs1 (last (d # ds))) (fatsize fs1) | Hidden \<Rightarrow> False"
          unfolding same using Cons.prems(4) split True last_ConsR [of "d # ds" c]
          by (simp only: dir_answer.case list.distinct simp_thms not_False_eq_True)
      qed
      then show ?thesis
        using b(2) True fs1(1) d(1,2) buffered_same(4) [OF here(1)] same(1) buffered_trans [OF all] by auto
    next
      case False
      then show ?thesis using b(2) here shape Cons.prems(4) split by (cases ?a) auto
    qed
  qed
qed

section \<open>Paths\<close>

definition path_name :: "u8 list \<Rightarrow> bool" where
  "path_name n \<longleftrightarrow> n \<noteq> [] \<and> list_all (\<lambda>c. \<not> ISDIRDELIM c) n"

fun path_of :: "u8 list list \<Rightarrow> u8 list" where
  "path_of [] = []"
| "path_of [n] = n"
| "path_of (n # m # ns) = n @ chr8 CHR ''/'' # path_of (m # ns)"

lemma delim_slash [simp]: "ISDIRDELIM 47"
  by (simp add: ISDIRDELIM_def)

lemma no_delim_dropWhile: "path_name n \<Longrightarrow> dropWhile ISDIRDELIM (n @ r) = n @ r"
  by (cases n) (simp_all add: path_name_def)

lemma dirdelim_name: "path_name n \<Longrightarrow> dirdelim n = None"
  by (auto simp: path_name_def dirdelim_def list_all_iff takeWhile_eq_all_conv [THEN iffD2])

lemma dirdelim_slash: "path_name n \<Longrightarrow> dirdelim (n @ chr8 CHR ''/'' # r) = Some (n, r)"
  by (auto simp: path_name_def dirdelim_def list_all_iff takeWhile_append2 Let_def)

lemma path_of_front: "list_all path_name (m # ns) \<Longrightarrow> dropWhile ISDIRDELIM (path_of (m # ns)) = path_of (m # ns)"
  using no_delim_dropWhile [of m "[]"] by (cases ns) (simp_all add: no_delim_dropWhile)

lemma path_of_nonempty: "list_all path_name (m # ns) \<Longrightarrow> path_of (m # ns) \<noteq> []"
  by (cases ns) (auto simp: path_name_def)

text \<open>What the walk from an entry down to a name has to answer; everything but the last has to be a directory.\<close>

definition is_dir :: "u8 list \<Rightarrow> bool" where
  "is_dir e \<longleftrightarrow> de_attr (dir_entry_of e) AND ATTR_DIR \<noteq> 0"

fun walks :: "(u32 \<Rightarrow> u8 list) \<Rightarrow> fat_dev \<Rightarrow> fat_state \<Rightarrow> u8 list \<Rightarrow> u8 list list \<Rightarrow> u8 list option \<Rightarrow> bool" where
  "walks disk fd fs e [] res = (res = Some e)"
| "walks disk fd fs e (n # ns) res =
     (if \<not> is_dir e then res = None
      else \<exists>r. dir_lists disk fd fs (START fs (dir_entry_of e)) n r \<and>
        (case r of None \<Rightarrow> res = None | Some e' \<Rightarrow> walks disk fd fs e' ns res))"

definition path_answer :: "u8 list option \<Rightarrow> int + u8 list" where
  "path_answer res = (case res of None \<Rightarrow> Inl (-1) | Some e \<Rightarrow> Inr e)"

lemma dir_lists_buffered: "buffered fs fs' \<Longrightarrow> dir_lists disk fd fs' = dir_lists disk fd fs"
  by (intro ext) (simp only: dir_lists_def chain_blocks_def buffered_same)

lemma walks_buffered: "buffered fs fs' \<Longrightarrow> walks disk fd fs' e ns res = walks disk fd fs e ns res"
proof (induction ns arbitrary: e)
  case (Cons n ns)
  show ?case
    by (simp only: walks.simps dir_lists_buffered [OF Cons.prems] buffered_same(5) [OF Cons.prems] Cons.IH [OF Cons.prems])
qed simp

lemma path_loop_ok:
  assumes "on_disk fd disk" "mounted fd disk fs" "dir_block_ok fs" "list_all path_name (n # ns)" "is_dir e"
    and "walks disk fd fs e (n # ns) res"
  shows "\<exists>fs'. path_loop fd False True True (path_of (n # ns)) e fs = Some (path_answer res, fs') \<and>
    buffered fs fs' \<and> mounted fd disk fs'"
  using assms(2-)
proof (induction ns arbitrary: n e fs)
  case (Nil n e fs)
  then have name: "path_name n" "n \<noteq> []" by (simp_all add: path_name_def)
  have lists: "dir_lists disk fd fs (START fs (dir_entry_of e)) n res"
    using Nil.prems(4,5) by (auto split: option.splits)
  obtain fs' where fs': "get_dentfromdir fd fs n (dir_entry_of e) False = Some (res, fs')" "buffered fs fs'" "mounted fd disk fs'"
    using dentfromdir_loop_ok [OF assms(1) Nil.prems(1) name(2) Nil.prems(2) lists, where pc = "0xffff" and files = 0 and dirs = 0]
    by (auto simp: get_dentfromdir_def)
  show ?case
    using fs' dirdelim_name [OF name(1)]
    by (subst path_loop.simps) (cases res; simp add: path_loop.simps [of _ _ False] path_answer_def)
next
  case (Cons m ns n e fs)
  then have name: "path_name n" "list_all path_name (m # ns)" by simp_all
  then have "n \<noteq> []" by (simp add: path_name_def)
  obtain r where lists: "dir_lists disk fd fs (START fs (dir_entry_of e)) n r"
    and r: "case r of None \<Rightarrow> res = None | Some e' \<Rightarrow> walks disk fd fs e' (m # ns) res"
    using Cons.prems(4,5) by auto
  obtain fs1 where fs1: "get_dentfromdir fd fs n (dir_entry_of e) False = Some (r, fs1)" "buffered fs fs1" "mounted fd disk fs1"
    using dentfromdir_loop_ok [OF assms(1) Cons.prems(1) \<open>n \<noteq> []\<close> Cons.prems(2) lists, where pc = "0xffff" and files = 0 and dirs = 0]
    by (auto simp: get_dentfromdir_def)
  have body: "path_loop fd False True True (path_of (n # m # ns)) e fs =
      (case r of None \<Rightarrow> Some (Inl (-1), fs1)
       | Some e' \<Rightarrow> if \<not> is_dir e' then Some (Inl (-1), fs1) else path_loop fd False True True (path_of (m # ns)) e' fs1)"
    using fs1(1) dirdelim_slash [OF name(1)] path_of_front [OF name(2)]
    by (subst path_loop.simps) (simp add: is_dir_def split: option.split)
  show ?case
  proof (cases r)
    case None
    then show ?thesis using body r fs1(2,3) by (simp add: path_answer_def)
  next
    case (Some e')
    show ?thesis
    proof (cases "is_dir e'")
      case False
      then show ?thesis using body Some r fs1(2,3) by (simp add: path_answer_def)
    next
      case True
      have "\<exists>fs'. path_loop fd False True True (path_of (m # ns)) e' fs1 = Some (path_answer res, fs') \<and>
          buffered fs1 fs' \<and> mounted fd disk fs'"
      proof (rule Cons.IH [OF fs1(3) _ name(2) True])
        show "dir_block_ok fs1" using Cons.prems(2) buffered_dir_block [OF fs1(2)] by simp
        show "walks disk fd fs1 e' (m # ns) res" using r Some walks_buffered [OF fs1(2)] by (simp del: walks.simps)
      qed
      then show ?thesis using body Some True buffered_trans [OF fs1(2)] by auto
    qed
  qed
qed

section \<open>From a name to the bytes of the file\<close>

text \<open>
  A volume that can be used: its boot sector is recognised, the parameters derived from it fit the buffers,
  and the table is not empty.
\<close>

definition usable :: "fat_dev \<Rightarrow> (u32 \<Rightarrow> u8 list) \<Rightarrow> fat_state \<Rightarrow> bool" where
  "usable fd disk fs \<longleftrightarrow> on_disk fd disk \<and> mounted fd disk fs \<and> dir_block_ok fs \<and>
     bytes_per_clust fs \<le> length (do_fat_read_block fs)"

text \<open>What a path names: the first component in the root directory, the others below it.\<close>

fun lookup :: "(u32 \<Rightarrow> u8 list) \<Rightarrow> fat_dev \<Rightarrow> fat_state \<Rightarrow> u8 list list \<Rightarrow> u8 list option \<Rightarrow> bool" where
  "lookup disk fd fs [] res = False"
| "lookup disk fd fs (n # ns) res =
     (\<exists>m. case blocks_search n (root_blocks disk fd (ucast (rootdir_sect fs)) m) of
        Found e \<Rightarrow> walks disk fd fs e ns res
      | Absent \<Rightarrow> res = None
      | _ \<Rightarrow> False)"

lemma downcase_names:
  "downcase (path_of ns) = path_of (map downcase ns)"
  "list_all path_name ns \<Longrightarrow> list_all path_name (map downcase ns)"
proof -
  have "to_lower 47 = 47" by (simp add: to_lower_def)
  then show "downcase (path_of ns) = path_of (map downcase ns)"
    by (induction ns rule: path_of.induct) (simp_all add: downcase_def)
  have "ISDIRDELIM (to_lower c) = ISDIRDELIM c" for c
    by (simp add: ISDIRDELIM_def to_lower_def) unat_arith
  then show "list_all path_name ns \<Longrightarrow> list_all path_name (map downcase ns)"
    by (simp add: list_all_iff path_name_def downcase_def)
qed

lemma walks_file_nil: "walks disk fd fs e [] res \<Longrightarrow> res = Some e"
  by simp

lemma do_fat_read_ok:
  assumes "read_bootsectandvi fd = Some (Some (bs, volinfo, bits))" "usable fd disk (mount bs bits fs0)"
    and "list_all path_name ns" "length (path_of ns) < 2048"
    and "lookup disk fd (mount bs bits fs0) (map downcase ns) res"
  shows "\<exists>fs. do_fat_read fd fs0 (path_of ns) buffer maxsize LS_NO =
      (case res of None \<Rightarrow> Some (-1, fs, buffer) | Some d \<Rightarrow> get_contents fd fs (dir_entry_of d) buffer maxsize) \<and>
    buffered (mount bs bits fs0) fs \<and> mounted fd disk fs"
proof -
  define fs where "fs = mount bs bits fs0"
  have use: "on_disk fd disk" "mounted fd disk fs" "dir_block_ok fs" "bytes_per_clust fs \<le> length (do_fat_read_block fs)"
    using assms(2) by (simp_all add: usable_def fs_def)
  obtain k ks where ns: "map downcase ns = k # ks" using assms(5) by (cases "map downcase ns") auto
  then obtain k0 ks0 where ns0: "ns = k0 # ks0" by auto
  have ok: "list_all path_name (k # ks)" using downcase_names(2) [OF assms(3)] ns by simp
  then have k: "path_name k" "k \<noteq> []" by (simp_all add: path_name_def)
  obtain m where m: "case blocks_search k (root_blocks disk fd (ucast (rootdir_sect fs)) m) of
      Found e \<Rightarrow> walks disk fd fs e ks res | Absent \<Rightarrow> res = None | _ \<Rightarrow> False"
    using assms(5) unfolding ns lookup.simps fs_def by blast
  let ?a = "blocks_search k (root_blocks disk fd (ucast (rootdir_sect fs)) m)"
  have "?a \<in> {Absent} \<union> range Found" using m by (cases ?a) auto
  moreover have "0 < clust_size fs" using use(3) by (simp add: dir_block_ok_def)
  ultimately obtain fs1 where root: "root_loop fd k LS_NO (ucast (rootdir_sect fs)) 0xffff 0 0 fs =
      Some (case ?a of Found e \<Rightarrow> Inr e | _ \<Rightarrow> Inl (-1), fs1)" "buffered fs fs1" "mounted fd disk fs1"
    using root_loop_ok [OF use(1,2) k(2) _ use(4), of "ucast (rootdir_sect fs)" m "0xffff" 0 0] by blast
  have front: "dropWhile ISDIRDELIM (path_of ns) = path_of ns" using path_of_front assms(3) unfolding ns0 by blast
  have down: "downcase (path_of ns) = path_of (k # ks)" by (simp only: downcase_names(1) ns)
  have nonempty: "path_of (k # ks) \<noteq> []" by (rule path_of_nonempty [OF ok])
  have first: "(case dirdelim (path_of (k # ks)) of Some (name, rest) \<Rightarrow> (name, dropWhile ISDIRDELIM rest, True)
      | None \<Rightarrow> (path_of (k # ks), [], LS_NO \<noteq> LS_NO)) = (k, path_of ks, ks \<noteq> [])"
  proof (cases ks)
    case (Cons k' ks')
    then have "list_all path_name (k' # ks')" using ok by simp
    from path_of_front [OF this] show ?thesis using dirdelim_slash [OF k(1)] Cons by simp
  qed (simp add: dirdelim_name [OF k(1)])
  have body: "do_fat_read fd fs0 (path_of ns) buffer maxsize LS_NO =
      (case ?a of
         Found e \<Rightarrow> if ks \<noteq> [] \<and> \<not> is_dir e then Some (-1, fs1, buffer)
           else do {
             (r, fs2) \<leftarrow> path_loop fd False (ks \<noteq> []) True (path_of ks) e fs1;
             (case r of Inl ret \<Rightarrow> Some (ret, fs2, buffer) | Inr d \<Rightarrow> get_contents fd fs2 (dir_entry_of d) buffer maxsize)
           }
       | _ \<Rightarrow> Some (-1, fs1, buffer))"
    unfolding do_fat_read_def assms(1) Let_def front down fs_def [symmetric]
    using assms(4) nonempty first root(1) by (simp add: fs_def [symmetric] is_dir_def split: dir_answer.split)
  show ?thesis
  proof (cases ?a)
    case (Found e)
    then have w: "walks disk fd fs e ks res" using m by simp
    show ?thesis
    proof (cases ks)
      case Nil
      then show ?thesis
        using body Found w root(2,3) by (intro exI [of _ fs1]) (simp add: path_loop.simps [of _ _ False] fs_def [symmetric])
    next
      case (Cons k' ks')
      then have names: "list_all path_name (k' # ks')" using ok by simp
      show ?thesis
      proof (cases "is_dir e")
        case False
        then show ?thesis using body Found w Cons root(2,3) by (auto simp: fs_def [symmetric])
      next
        case True
        have w1: "walks disk fd fs1 e (k' # ks') res" using w Cons walks_buffered [OF root(2)] by (simp del: walks.simps)
        have "dir_block_ok fs1" using use(3) buffered_dir_block [OF root(2)] by simp
        from path_loop_ok [OF use(1) root(3) this names True w1] obtain fs2 where
          "path_loop fd False True True (path_of ks) e fs1 = Some (path_answer res, fs2)" "buffered fs1 fs2" "mounted fd disk fs2"
          unfolding Cons by blast
        then show ?thesis
          using body Found True Cons buffered_trans [OF root(2)]
          by (intro exI [of _ fs2]) (cases res; simp add: path_answer_def fs_def [symmetric])
      qed
    qed
  next
    case Absent
    then show ?thesis using body m root(2,3) by (intro exI [of _ fs1]) (simp add: fs_def [symmetric])
  qed (use m in simp_all)
qed

text \<open>A short directory entry, a slot of a long name, and a volume of a few sectors for the witnesses.\<close>

definition pad_sector :: "u8 list \<Rightarrow> u8 list" where
  "pad_sector b = take 512 (b @ replicate 512 0)"

definition example_entry :: "string \<Rightarrow> u8 \<Rightarrow> u8 \<Rightarrow> u8 list \<Rightarrow> u8 list" where
  "example_entry nm attr first len = cstr nm @ [attr] @ replicate 14 0 @ [first, 0] @ len"

definition example_slot :: "u8 \<Rightarrow> string \<Rightarrow> u8 list" where
  "example_slot i nm = [i] @ concat (map (\<lambda>c. [c, 0]) (take 5 (cstr nm))) @ [0x0f, 0, 0]
     @ concat (map (\<lambda>c. [c, 0]) (take 6 (drop 5 (cstr nm)))) @ [0, 0] @ concat (map (\<lambda>c. [c, 0]) (drop 11 (cstr nm)))"

definition example_disk :: "u32 \<Rightarrow> u8 list" where
  "example_disk s =
     (if s = 0 then pad_sector (replicate 13 0 @ [1, 1, 0, 1, 16, 0, 0, 0, 0, 1, 0] @ replicate 30 0 @ cstr ''FAT16   '')
      else if s = 1 then pad_sector [0xf8, 0xff, 0xff, 0xff, 0xff, 0xff, 5, 0, 0, 0, 0xff, 0xff]
      else if s = 2 then pad_sector (example_entry ''VOLUME     '' 8 0 [0, 0, 0, 0] @ example_entry ''BIN        '' 0x10 2 [0, 0, 0, 0])
      else if s = 3 then pad_sector (example_slot 0x41 ''Longname.text'' @ example_entry ''LONGNA~1TEX'' 0 3 [88, 2, 0, 0])
      else if s = 4 then replicate 512 1
      else pad_sector [2, 3])"

definition example_dev :: fat_dev where
  "example_dev = \<lparr>cur_dev = Some \<lparr>block_read = Some (\<lambda>s c. (c, sectors example_disk s (unat c))), if_type = 4, dev_no = 0,
     part_type = 2, lba = 100\<rparr>, part_offset = 0, cur_part = 1, stack_junk = replicate 512 0\<rparr>"

definition example_state :: fat_state where
  "example_state = \<lparr>fatbuf = replicate 3072 0, fatsize = 0, fatlength = 0, fat_sect = 0, rootdir_sect = 0, clust_size = 0,
     data_begin = 0, fatbufnum = 0, get_vfatname_block = replicate 512 0, get_dentfromdir_block = replicate 512 0,
     do_fat_read_block = replicate 512 0, ls_out = []\<rparr>"

definition example_mounted :: fat_state where
  "example_mounted = mount (boot_sector_of (example_disk 0)) 16 example_state"

lemma example_length: "length (example_disk s) = 512"
  by (simp add: example_disk_def pad_sector_def example_entry_def example_slot_def)

lemma example_on_disk: "on_disk example_dev example_disk"
  by (simp add: on_disk_def example_dev_def serves_def example_length)

lemma example_front:
  "block_entries (example_disk s) = take 32 (example_disk s) # take 32 (drop 32 (example_disk s)) #
    take 32 (drop 64 (example_disk s)) # window (example_disk s) 3 13"
proof -
  have "512 * 1 \<le> length (example_disk s)" by (simp add: example_length)
  from window_entries [OF this] have "block_entries (example_disk s) = window (example_disk s) 0 16" by (simp add: example_length)
  moreover have "(16 :: nat) = Suc (Suc (Suc 13))" by simp
  ultimately show ?thesis by (simp only: window_Suc) (simp add: numeral_3_eq_3)
qed

lemma example_dirs:
  "take 32 (example_disk 2) = example_entry ''VOLUME     '' 8 0 [0, 0, 0, 0]"
  "take 32 (drop 32 (example_disk 2)) = example_entry ''BIN        '' 0x10 2 [0, 0, 0, 0]"
  "take 32 (example_disk 3) = example_slot 0x41 ''Longname.text''"
  "take 32 (drop 32 (example_disk 3)) = example_entry ''LONGNA~1TEX'' 0 3 [88, 2, 0, 0]"
  "take 32 (drop 64 (example_disk 3)) = replicate 32 0"
  by (simp_all add: example_disk_def pad_sector_def example_entry_def example_slot_def)

lemma example_scan:
  "dir_search (cstr ''bin'') (example_entry ''VOLUME     '' 8 0 [0, 0, 0, 0] # example_entry ''BIN        '' 0x10 2 [0, 0, 0, 0] # es) =
    Found (example_entry ''BIN        '' 0x10 2 [0, 0, 0, 0])"
  "dir_search (cstr ''longname.text'') (example_slot 0x41 ''Longname.text'' # example_entry ''LONGNA~1TEX'' 0 3 [88, 2, 0, 0] # es) =
    Found (example_entry ''LONGNA~1TEX'' 0 3 [88, 2, 0, 0])"
  "dir_search (cstr ''other.txt'') (example_slot 0x41 ''Longname.text'' # example_entry ''LONGNA~1TEX'' 0 3 [88, 2, 0, 0] #
    replicate 32 0 # es) = Absent"
  by code_simp+

lemma example_search:
  "dir_search (cstr ''bin'') (block_entries (example_disk 2)) = Found (example_entry ''BIN        '' 0x10 2 [0, 0, 0, 0])"
  "dir_search (cstr ''longname.text'') (block_entries (example_disk 3)) = Found (example_entry ''LONGNA~1TEX'' 0 3 [88, 2, 0, 0])"
  "dir_search (cstr ''other.txt'') (block_entries (example_disk 3)) = Absent"
  unfolding example_front example_dirs by (rule example_scan)+

lemma example_fields: "fs_type (volume_info_of (drop 36 (example_disk 0))) = cstr ''FAT16   ''"
  "cluster_size (boot_sector_of (example_disk 0)) = 1"
  "reserved (boot_sector_of (example_disk 0)) = 1"
  "fats (boot_sector_of (example_disk 0)) = 1"
  "rootdir_size (boot_sector_of (example_disk 0)) = 1"
  "fat_length (boot_sector_of (example_disk 0)) = 1"
  by code_simp+

lemma example_boot:
  "read_bootsectandvi example_dev =
    Some (Some (boot_sector_of (example_disk 0), volume_info_of (drop 36 (example_disk 0)), 16))"
proof -
  have one: "unat (1 :: u32) = 1" "unat (1 :: u32) < 2 ^ 22" by simp_all
  have "disk_read example_dev 0 1 = (1, example_disk 0)"
    using disk_read_ok [OF example_on_disk one(2), of 0] sectors_one [unfolded One_nat_def]
    by (simp add: example_dev_def)
  moreover have "store_bytes (stack_junk example_dev) 0 (example_disk 0) = Some (example_disk 0)"
    by (simp add: store_bytes_def example_length example_dev_def overwrite_all)
  ultimately show ?thesis
    by (simp add: read_bootsectandvi_def example_fields Let_def)
qed

lemma example_mounted_fields:
  "fatsize example_mounted = 16" "fatlength example_mounted = 1" "fat_sect example_mounted = 1"
  "rootdir_sect example_mounted = 2" "clust_size example_mounted = 1" "data_begin example_mounted = 1"
  "fatbufnum example_mounted = - 1" "length (fatbuf example_mounted) = 3072"
  "length (get_dentfromdir_block example_mounted) = 512" "length (do_fat_read_block example_mounted) = 512"
  by (simp_all add: example_mounted_def mount_def example_fields example_state_def Let_def)

lemma example_usable: "usable example_dev example_disk example_mounted"
  by (simp add: usable_def example_on_disk mounted_def dir_block_ok_def bytes_per_clust_def example_mounted_fields)

lemma example_clusters:
  "cluster_bytes example_disk example_dev example_mounted 2 = example_disk 3"
  "cluster_bytes example_disk example_dev example_mounted 3 = example_disk 4"
  "cluster_bytes example_disk example_dev example_mounted 5 = example_disk 6"
  using sectors_one [of example_disk]
  by (simp_all add: cluster_bytes_def start_sector_def example_mounted_fields example_dev_def)

lemma example_next:
  "fat_next example_disk example_dev example_mounted 3 = 5"
proof -
  have "example_disk 1 ! 6 = 5" "example_disk 1 ! 7 = 0" by code_simp+
  then show ?thesis
    by (simp add: fat_next_def table_entry_def table_byte_def table_place_def example_mounted_fields example_dev_def upt_conv_Cons del: upt_Suc)
qed

section \<open>Properties\<close>

lemma example_lookup:
  "lookup example_disk example_dev example_mounted (map downcase [cstr ''BIN'', cstr ''LongName.text''])
     (Some (example_entry ''LONGNA~1TEX'' 0 3 [88, 2, 0, 0]))"
  "lookup example_disk example_dev example_mounted (map downcase [cstr ''BIN'', cstr ''Other.txt'']) None"
proof -
  have names: "map downcase [cstr ''BIN'', cstr ''LongName.text''] = [cstr ''bin'', cstr ''longname.text'']"
    "map downcase [cstr ''BIN'', cstr ''Other.txt''] = [cstr ''bin'', cstr ''other.txt'']"
    by code_simp+
  have root: "blocks_search (cstr ''bin'') (root_blocks example_disk example_dev 2 1) =
      Found (example_entry ''BIN        '' 0x10 2 [0, 0, 0, 0])"
    using example_search(1) by (simp add: root_blocks_def example_dev_def)
  have root_ucast: "ucast (2 :: u16) = (2 :: u32)" by simp
  have dir: "is_dir (example_entry ''BIN        '' 0x10 2 [0, 0, 0, 0])" by code_simp
  have start: "START example_mounted (dir_entry_of (example_entry ''BIN        '' 0x10 2 [0, 0, 0, 0])) = 2"
  proof -
    have "de_start (dir_entry_of (example_entry ''BIN        '' 0x10 2 [0, 0, 0, 0])) = 2" by code_simp
    then show ?thesis by (simp add: START_def example_mounted_fields)
  qed
  have lists: "dir_lists example_disk example_dev example_mounted 2 (cstr ''longname.text'')
      (Some (example_entry ''LONGNA~1TEX'' 0 3 [88, 2, 0, 0]))"
    "dir_lists example_disk example_dev example_mounted 2 (cstr ''other.txt'') None"
    unfolding dir_lists_def using example_search(2,3)
    by (intro exI [of _ "[]"], simp add: chain_blocks_def example_clusters)+
  show "lookup example_disk example_dev example_mounted (map downcase [cstr ''BIN'', cstr ''LongName.text''])
     (Some (example_entry ''LONGNA~1TEX'' 0 3 [88, 2, 0, 0]))"
    "lookup example_disk example_dev example_mounted (map downcase [cstr ''BIN'', cstr ''Other.txt'']) None"
    unfolding names lookup.simps walks.simps example_mounted_fields root_ucast
    by (rule exI [of _ 1], unfold root dir_answer.case walks.simps, simp only: dir start simp_thms if_True if_False,
      rule exI, rule conjI, rule lists, simp)+
qed

text \<open>C32: A file that is named by a path of short or long names is read to the buffer, as the first bytes of its cluster chain up to its size or the given maximum; the rest of the buffer is unchanged.\<close>

theorem file_read_by_path:
  assumes "read_bootsectandvi fd = Some (Some (bs, volinfo, bits))" "usable fd disk (mount bs bits fs0)"
    and "list_all path_name ns" "length (path_of ns) < 2048"
    and "lookup disk fd (mount bs bits fs0) (map downcase ns) (Some e)"
    and "has_file disk fd (mount bs bits fs0) (dir_entry_of e) (read_size (dir_entry_of e) maxsize) contents"
    and "read_size (dir_entry_of e) maxsize \<le> length buffer"
  shows "\<exists>fs. file_fat_read fd fs0 (path_of ns) buffer maxsize =
    Some (int (read_size (dir_entry_of e) maxsize), fs, overwrite buffer 0 contents)"
proof -
  obtain fs where fs: "do_fat_read fd fs0 (path_of ns) buffer maxsize LS_NO =
      get_contents fd fs (dir_entry_of e) buffer maxsize" "buffered (mount bs bits fs0) fs" "mounted fd disk fs"
    using do_fat_read_ok [OF assms(1-5)] by auto
  have "on_disk fd disk" using assms(2) by (simp add: usable_def)
  moreover have "has_file disk fd fs (dir_entry_of e) (read_size (dir_entry_of e) maxsize) contents"
    using assms(6) buffered_same(9) [OF fs(2)] buffered_derived(3) [OF fs(2)] by simp
  ultimately show ?thesis
    using get_contents_ok [OF _ fs(3) _ assms(7)] fs(1) by (auto simp: file_fat_read_def)
qed

lemma example_has_file:
  "has_file example_disk example_dev example_mounted (dir_entry_of (example_entry ''LONGNA~1TEX'' 0 3 [88, 2, 0, 0])) 600
    (replicate 512 1 @ take 88 (pad_sector [2, 3]))"
proof -
  have "de_start (dir_entry_of (example_entry ''LONGNA~1TEX'' 0 3 [88, 2, 0, 0])) = 3" by code_simp
  then have start: "START example_mounted (dir_entry_of (example_entry ''LONGNA~1TEX'' 0 3 [88, 2, 0, 0])) = 3"
    by (simp add: START_def example_mounted_fields)
  have disk: "example_disk 4 = replicate 512 1" "example_disk 6 = pad_sector [2, 3]"
    by (simp_all only: example_disk_def) simp_all
  have "take 600 (concat (map (cluster_bytes example_disk example_dev example_mounted) [3, 5])) =
      replicate 512 1 @ take 88 (pad_sector [2, 3])"
    by (simp add: example_clusters disk)
  then show ?thesis
    unfolding has_file_def start
    by (subst if_not_P, simp, intro exI [of _ "[5]"])
      (simp add: example_next example_mounted_fields bytes_per_clust_def CHECK_CLUST_def word_le_nat_alt)
qed

lemma example_size: "read_size (dir_entry_of (example_entry ''LONGNA~1TEX'' 0 3 [88, 2, 0, 0])) 0 = 600"
proof -
  have "de_size (dir_entry_of (example_entry ''LONGNA~1TEX'' 0 3 [88, 2, 0, 0])) = 600" by code_simp
  then show ?thesis by (simp add: read_size_def)
qed

theorem file_read_by_path_witness:
  "\<exists>fs. file_fat_read example_dev example_state (path_of [cstr ''BIN'', cstr ''LongName.text'']) (replicate 601 7) 0 =
    Some (600, fs, replicate 512 1 @ take 88 (pad_sector [2, 3]) @ [7])"
proof -
  have names: "list_all path_name [cstr ''BIN'', cstr ''LongName.text'']"
    "length (path_of [cstr ''BIN'', cstr ''LongName.text'']) < 2048"
    by (simp_all add: path_name_def ISDIRDELIM_def)
  have "overwrite (replicate 601 7) 0 (replicate 512 1 @ take 88 (pad_sector [2, 3])) =
      replicate 512 1 @ take 88 (pad_sector [2, 3]) @ [7 :: u8]"
    by (simp add: overwrite_def pad_sector_def)
  moreover have "600 \<le> length (replicate 601 (7 :: u8))" by simp
  ultimately show ?thesis
    using file_read_by_path [OF example_boot example_usable [unfolded example_mounted_def] names
        example_lookup(1) [unfolded example_mounted_def], of 0 "replicate 512 1 @ take 88 (pad_sector [2, 3])" "replicate 601 7"]
      example_has_file
    by (simp only: example_size example_mounted_def [symmetric]) simp
qed

text \<open>C33: When a component of a path is missing, or one but the last is no directory, reading fails with -1 and the buffer is unchanged.\<close>

theorem file_missing:
  assumes "read_bootsectandvi fd = Some (Some (bs, volinfo, bits))" "usable fd disk (mount bs bits fs0)"
    and "list_all path_name ns" "length (path_of ns) < 2048"
    and "lookup disk fd (mount bs bits fs0) (map downcase ns) None"
  shows "\<exists>fs. file_fat_read fd fs0 (path_of ns) buffer maxsize = Some (-1, fs, buffer)"
  using do_fat_read_ok [OF assms] by (auto simp: file_fat_read_def)

lemma example_missing:
  "\<exists>fs. file_fat_read example_dev example_state (path_of [cstr ''BIN'', cstr ''Other.txt'']) [1, 2] 0 = Some (-1, fs, [1, 2])"
proof -
  have "list_all path_name [cstr ''BIN'', cstr ''Other.txt'']" "length (path_of [cstr ''BIN'', cstr ''Other.txt'']) < 2048"
    by (simp_all add: path_name_def ISDIRDELIM_def)
  from do_fat_read_ok [OF example_boot example_usable [unfolded example_mounted_def] this
      example_lookup(2) [unfolded example_mounted_def]]
  show ?thesis by (auto simp: file_fat_read_def)
qed

theorem file_missing_witness:
  "\<exists>fs. file_fat_read example_dev example_state (path_of [cstr ''BIN'', cstr ''Other.txt'']) [1, 2] 0 = Some (-1, fs, [1, 2])"
proof -
  have "list_all path_name [cstr ''BIN'', cstr ''Other.txt'']" "length (path_of [cstr ''BIN'', cstr ''Other.txt'']) < 2048"
    by (simp_all add: path_name_def ISDIRDELIM_def)
  then show ?thesis
    using file_missing [OF example_boot example_usable [unfolded example_mounted_def] _ _
        example_lookup(2) [unfolded example_mounted_def]] by blast
qed

text \<open>C34: An entry of the table is the group of 12, 16 or 32 bits at its place in the sectors of the table, whichever part of it is in the buffer.\<close>

theorem get_fatent_unpacks:
  assumes "on_disk fd disk" "mounted fd disk fs"
  shows "\<exists>fs'. get_fatent fd fs c =
      Some (table_entry (nat (fatsize fs)) (table_byte disk fd fs) (unat c), fs') \<and> cached fs fs' \<and> mounted fd disk fs'"
  using get_fatent_ok [OF assms, of c] by (metis fat_next_def)

theorem get_fatent_unpacks_witness:
  "\<exists>fs'. get_fatent example_dev example_mounted 3 = Some (5, fs')"
  using get_fatent_unpacks [of example_dev example_disk example_mounted 3] example_next example_usable
  by (auto simp: usable_def fat_next_def)

text \<open>No entry of a table of 12 bits ends a chain but 0 and 1: the marks \<open>0xff8\<close> to \<open>0xfff\<close> are taken for clusters.\<close>

theorem fat12_end_missed:
  "CHECK_CLUST (table_entry 12 byte i) 12 \<longleftrightarrow> table_entry 12 byte i \<le> 1"
proof -
  have "take_bit 12 (table_entry 12 byte i) = table_entry 12 byte i"
    by (rule bit_word_eqI) (auto simp: bit_table_entry bit_simps)
  then have "table_entry 12 byte i AND mask 12 = table_entry 12 byte i" by (simp only: take_bit_eq_mask)
  then have "table_entry 12 byte i \<le> mask 12" using word_and_le1 [of "table_entry 12 byte i" "mask 12"] by simp
  then have "table_entry 12 byte i < 0xfff0" by (rule le_less_trans) (simp add: mask_eq_exp_minus_1)
  then show ?thesis by (auto simp: CHECK_CLUST_def)
qed

end
