(* ===== verification/DosPart_Correct.thy ===== *)
theory DosPart_Correct
  imports DosPart
begin

text \<open>
  Chains of partition tables that end, the numbers of their entries, and the search for a partition and
  the listing of all partitions as two views of one enumeration.
\<close>

section \<open>Chains of tables\<close>

text \<open>The tables that are visited, with the sector that their entries are relative to; each has at most one extended entry.\<close>

fun table_chain :: "block_dev \<Rightarrow> u8 list \<Rightarrow> u32 \<Rightarrow> u32 \<Rightarrow> (u32 \<times> dos_partition list) list \<Rightarrow> bool" where
  "table_chain dev junk ext rel [] = False"
| "table_chain dev junk ext rel ((s, pts) # ts) =
     (s = ext \<and> (\<exists>b. read_sector dev junk ext = Some (True, b) \<and> test_block_type b = DOS_MBR \<and> pts = table_of b) \<and>
      (case filter (\<lambda>pt. is_extended (sys_ind pt)) pts of
         [] \<Rightarrow> ts = []
       | [pt] \<Rightarrow> table_chain dev junk (start4 pt + rel) (chain_base ext rel pt) ts
       | _ \<Rightarrow> False))"

text \<open>
  The reference enumeration: in the first table every entry has a number, in the others those of
  partitions that are not extended.
\<close>

definition counted :: "u32 \<Rightarrow> dos_partition \<Rightarrow> bool" where
  "counted ext pt \<longleftrightarrow> ext = 0 \<or> sys_ind pt \<noteq> 0 \<and> \<not> is_extended (sys_ind pt)"

fun numbers :: "u32 \<Rightarrow> dos_partition list \<Rightarrow> int \<Rightarrow> (int \<times> u32 \<times> dos_partition) list" where
  "numbers ext [] n = []"
| "numbers ext (pt # pts) n = (n, ext, pt) # numbers ext pts (if counted ext pt then n + 1 else n)"

fun next_number :: "u32 \<Rightarrow> dos_partition list \<Rightarrow> int \<Rightarrow> int" where
  "next_number ext [] n = n"
| "next_number ext (pt # pts) n = next_number ext pts (if counted ext pt then n + 1 else n)"

fun all_numbers :: "(u32 \<times> dos_partition list) list \<Rightarrow> int \<Rightarrow> (int \<times> u32 \<times> dos_partition) list" where
  "all_numbers [] n = []"
| "all_numbers ((ext, pts) # ts) n = numbers ext pts n @ all_numbers ts (next_number ext pts n)"

definition usable_part :: "dos_partition \<Rightarrow> bool" where
  "usable_part pt \<longleftrightarrow> boot_ind pt AND NOT 0x80 = 0 \<and> sys_ind pt \<noteq> 0 \<and> \<not> is_extended (sys_ind pt)"

definition wanted :: "int \<Rightarrow> int \<times> u32 \<times> dos_partition \<Rightarrow> bool" where
  "wanted k e = (case e of (m, ext, pt) \<Rightarrow> m = k \<and> usable_part pt)"

definition part_line_of :: "int \<times> u32 \<times> dos_partition \<Rightarrow> part_line" where
  "part_line_of e = (case e of (m, ext, pt) \<Rightarrow> PartLine m (ext + start4 pt) (size4 pt) (sys_ind pt) (is_extended (sys_ind pt)))"

definition listed :: "int \<times> u32 \<times> dos_partition \<Rightarrow> bool" where
  "listed e = (case e of (m, ext, pt) \<Rightarrow> sys_ind pt \<noteq> 0 \<and> (ext = 0 \<or> \<not> is_extended (sys_ind pt)))"

definition info_of :: "block_dev \<Rightarrow> int \<times> u32 \<times> dos_partition \<Rightarrow> disk_partition" where
  "info_of dev e = (case e of (m, ext, pt) \<Rightarrow> partition_info dev ext m pt)"

lemma find_append: "find P (xs @ ys) = (case find P xs of None \<Rightarrow> find P ys | Some x \<Rightarrow> Some x)"
  by (induction xs) auto

lemma find_filter_hd: "find P xs = (case filter P xs of [] \<Rightarrow> None | x # _ \<Rightarrow> Some x)"
  by (induction xs) auto

lemma scan_table_numbers:
  "scan_table dev ext pts n k = (case find (wanted k) (numbers ext pts n) of
     Some e \<Rightarrow> Inl (info_of dev e) | None \<Rightarrow> Inr (next_number ext pts n))"
  by (induction pts arbitrary: n)
    (auto simp: wanted_def usable_part_def info_of_def counted_def split: option.split)

lemma print_table_numbers:
  "print_table ext pts n =
     (map part_line_of (filter listed (numbers ext pts n)), next_number ext pts n)"
  by (induction pts arbitrary: n)
    (auto simp: listed_def part_line_of_def counted_def Let_def)

lemma table_chain_Cons:
  assumes "table_chain dev junk ext rel ((s, pts) # ts)"
  obtains b where "s = ext" "read_sector dev junk ext = Some (True, b)" "test_block_type b = DOS_MBR" "pts = table_of b"
    and "filter (\<lambda>pt. is_extended (sys_ind pt)) pts = [] \<and> ts = [] \<or>
      (\<exists>pt. filter (\<lambda>pt. is_extended (sys_ind pt)) pts = [pt] \<and>
        table_chain dev junk (start4 pt + rel) (chain_base ext rel pt) ts)"
  using assms by (auto split: list.splits)

lemma get_extended_numbers:
  "table_chain dev junk ext rel ts \<Longrightarrow>
    get_partition_info_extended dev junk ext rel n k = Some (map_option (info_of dev) (find (wanted k) (all_numbers ts n)))"
proof (induction ts arbitrary: ext rel n)
  case (Cons t ts)
  obtain s pts where t: "t = (s, pts)" by (cases t)
  obtain b where b: "s = ext" "read_sector dev junk ext = Some (True, b)" "test_block_type b = DOS_MBR" "pts = table_of b"
    and more: "filter (\<lambda>pt. is_extended (sys_ind pt)) pts = [] \<and> ts = [] \<or>
      (\<exists>pt. filter (\<lambda>pt. is_extended (sys_ind pt)) pts = [pt] \<and>
        table_chain dev junk (start4 pt + rel) (chain_base ext rel pt) ts)"
    using Cons.prems unfolding t by (rule table_chain_Cons)
  have signed: "signed_sector b" using b(3) by (auto simp: test_block_type_def split: if_splits)
  have body: "get_partition_info_extended dev junk ext rel n k =
      (case find (wanted k) (numbers ext pts n) of
         Some e \<Rightarrow> Some (Some (info_of dev e))
       | None \<Rightarrow> (case filter (\<lambda>pt. is_extended (sys_ind pt)) pts of
           [] \<Rightarrow> Some None
         | pt # _ \<Rightarrow> get_partition_info_extended dev junk (start4 pt + rel) (chain_base ext rel pt) (next_number ext pts n) k))"
    using b(2) signed
    by (subst get_partition_info_extended.simps)
      (simp add: scan_table_numbers b(4) [symmetric] find_filter_hd [of _ pts] split: option.split list.split)
  from more show ?case
  proof (elim disjE exE conjE)
    assume "filter (\<lambda>pt. is_extended (sys_ind pt)) pts = []" "ts = []"
    then show ?thesis using body t b(1) by (cases "find (wanted k) (numbers ext pts n)") (simp_all add: find_append)
  next
    fix pt assume "filter (\<lambda>pt. is_extended (sys_ind pt)) pts = [pt]"
      "table_chain dev junk (start4 pt + rel) (chain_base ext rel pt) ts"
    then show ?thesis using body t b(1) Cons.IH
      by (cases "find (wanted k) (numbers ext pts n)") (simp_all add: find_append)
  qed
qed simp

lemma table_of_four: "table_of b = [dos_partition_at b 0, dos_partition_at b 1, dos_partition_at b 2, dos_partition_at b 3]"
  by (simp add: table_of_def upt_conv_Cons numeral_eq_Suc)

lemma print_extended_numbers:
  "table_chain dev junk ext rel ts \<Longrightarrow>
    print_partition_extended dev junk ext rel n = Some (map part_line_of (filter listed (all_numbers ts n)))"
proof (induction ts arbitrary: ext rel n)
  case (Cons t ts)
  obtain s pts where t: "t = (s, pts)" by (cases t)
  obtain b where b: "s = ext" "read_sector dev junk ext = Some (True, b)" "test_block_type b = DOS_MBR" "pts = table_of b"
    and more: "filter (\<lambda>pt. is_extended (sys_ind pt)) pts = [] \<and> ts = [] \<or>
      (\<exists>pt. filter (\<lambda>pt. is_extended (sys_ind pt)) pts = [pt] \<and>
        table_chain dev junk (start4 pt + rel) (chain_base ext rel pt) ts)"
    using Cons.prems unfolding t by (rule table_chain_Cons)
  let ?n = "next_number ext pts n"
  let ?rec = "\<lambda>pt. if is_extended (sys_ind pt)
    then print_partition_extended dev junk (start4 pt + rel) (chain_base ext rel pt) ?n else Some []"
  define p0 where "p0 = dos_partition_at b 0"
  define p1 where "p1 = dos_partition_at b 1"
  define p2 where "p2 = dos_partition_at b 2"
  define p3 where "p3 = dos_partition_at b 3"
  have four: "pts = [p0, p1, p2, p3]" unfolding b(4) table_of_four p0_def p1_def p2_def p3_def by simp
  have body: "print_partition_extended dev junk ext rel n = do {
      l0 \<leftarrow> ?rec p0; l1 \<leftarrow> ?rec p1; l2 \<leftarrow> ?rec p2; l3 \<leftarrow> ?rec p3;
      Some (map part_line_of (filter listed (numbers ext pts n)) @ l0 @ l1 @ l2 @ l3) }"
    using b(2,3) by (subst print_partition_extended.simps)
      (simp add: print_table_numbers b(4) [symmetric] p0_def p1_def p2_def p3_def)
  from more show ?case
  proof (elim disjE exE conjE)
    assume none: "filter (\<lambda>pt. is_extended (sys_ind pt)) pts = []" "ts = []"
    then have "\<not> is_extended (sys_ind p0)" "\<not> is_extended (sys_ind p1)" "\<not> is_extended (sys_ind p2)" "\<not> is_extended (sys_ind p3)"
      unfolding four by (simp_all split: if_splits)
    then show ?thesis using body none(2) t b(1) by simp
  next
    fix pt assume one: "filter (\<lambda>pt. is_extended (sys_ind pt)) pts = [pt]"
      and chain: "table_chain dev junk (start4 pt + rel) (chain_base ext rel pt) ts"
    define rest where "rest = map part_line_of (filter listed (all_numbers ts ?n))"
    have rec: "?rec pt = Some rest"
    proof -
      have "is_extended (sys_ind pt)" using one by (metis (mono_tags, lifting) filter_eq_Cons_iff)
      then show ?thesis using Cons.IH [OF chain, of ?n] by (simp add: rest_def)
    qed
    have "print_partition_extended dev junk ext rel n = Some (map part_line_of (filter listed (numbers ext pts n)) @ rest)"
      unfolding body using one rec unfolding four
      by (cases "is_extended (sys_ind p0)"; cases "is_extended (sys_ind p1)"; cases "is_extended (sys_ind p2)";
        cases "is_extended (sys_ind p3)"; simp)
    then show ?thesis using t b(1) by (simp add: rest_def)
  qed
qed simp

section \<open>One number, one partition\<close>

lemma next_number_ge: "n \<le> next_number ext pts n"
proof (induction pts arbitrary: n)
  case (Cons p pts)
  have "n + 1 \<le> next_number ext pts (n + 1)" "n \<le> next_number ext pts n" by (rule Cons.IH)+
  then show ?case by simp
qed simp

lemma numbers_ge: "(m, e, pt) \<in> set (numbers ext pts n) \<Longrightarrow> n \<le> m"
proof (induction pts arbitrary: n)
  case (Cons p pts)
  then show ?case using Cons.IH [of n] Cons.IH [of "n + 1"] by (fastforce split: if_splits)
qed simp

lemma all_numbers_ge: "(m, e, pt) \<in> set (all_numbers ts n) \<Longrightarrow> n \<le> m"
proof (induction ts n rule: all_numbers.induct)
  case (2 ext pts ts n)
  then show ?case using numbers_ge [of m e pt ext pts n] next_number_ge [of n ext pts] by auto
qed simp

lemma numbers_lt:
  "(m, e, pt) \<in> set (numbers ext pts n) \<Longrightarrow> usable_part pt \<Longrightarrow> m < next_number ext pts n"
proof (induction pts arbitrary: n)
  case (Cons p pts)
  show ?case using Cons next_number_ge [of "n + 1" ext pts]
    by (auto simp: usable_part_def counted_def split: if_splits)
qed simp

lemma find_numbers:
  "(m, e, pt) \<in> set (numbers ext pts n) \<Longrightarrow> usable_part pt \<Longrightarrow> find (wanted m) (numbers ext pts n) = Some (m, e, pt)"
proof (induction pts arbitrary: n)
  case (Cons p pts)
  show ?case
  proof (cases "(m, e, pt) = (n, ext, p)")
    case True
    then show ?thesis using Cons.prems(2) by (simp add: wanted_def)
  next
    case False
    then have tail: "(m, e, pt) \<in> set (numbers ext pts (if counted ext p then n + 1 else n))" using Cons.prems(1) by auto
    have "\<not> wanted m (n, ext, p)"
    proof (cases "counted ext p")
      case True
      then have "n < m" using numbers_ge [OF tail] by simp
      then show ?thesis by (simp add: wanted_def)
    qed (auto simp: wanted_def usable_part_def counted_def)
    then show ?thesis using Cons.IH [OF tail Cons.prems(2)] by simp
  qed
qed simp

lemma find_all_numbers:
  "(m, e, pt) \<in> set (all_numbers ts n) \<Longrightarrow> usable_part pt \<Longrightarrow> find (wanted m) (all_numbers ts n) = Some (m, e, pt)"
proof (induction ts n rule: all_numbers.induct)
  case (2 ext pts ts n)
  show ?case
  proof (cases "(m, e, pt) \<in> set (numbers ext pts n)")
    case True
    then show ?thesis using find_numbers [OF True 2(3)] by (simp add: find_append)
  next
    case False
    then have tail: "(m, e, pt) \<in> set (all_numbers ts (next_number ext pts n))" using 2(2) by simp
    have "find (wanted m) (numbers ext pts n) = None"
    proof (rule ccontr)
      assume "find (wanted m) (numbers ext pts n) \<noteq> None"
      then obtain m' e' pt' where x: "(m', e', pt') \<in> set (numbers ext pts n)" "wanted m (m', e', pt')"
        by (auto simp: find_None_iff)
      then have "m' = m" "usable_part pt'" by (simp_all add: wanted_def)
      then show False using numbers_lt [OF x(1)] all_numbers_ge [OF tail] by simp
    qed
    then show ?thesis using 2(1) [OF tail 2(3)] by (simp add: find_append)
  qed
qed simp

text \<open>C36: On a chain of partition tables that ends, with valid boot flags, every partition that is listed and not extended is found under its number, with the start and the size of the listing.\<close>

theorem listed_partition_found:
  assumes "table_chain dev junk 0 0 ts" "part_type dev = PART_TYPE_DOS"
    and "list_all (\<lambda>(m, ext, pt). boot_ind pt AND NOT 0x80 = 0) (all_numbers ts 1)"
    and "print_part_dos dev junk = Some lines" "PartLine n start len sys False \<in> set lines"
  shows "\<exists>info. get_partition_info dev junk n = Some (Some info) \<and> dp_start info = start \<and> dp_size info = len"
proof -
  have "PartLine n start len sys False \<in> part_line_of ` set (filter listed (all_numbers ts 1))"
  proof -
    have "lines = map part_line_of (filter listed (all_numbers ts 1))"
      using print_extended_numbers [OF assms(1), of 1] assms(4) by (simp add: print_part_dos_def)
    then show ?thesis using assms(5) by (simp only: set_map)
  qed
  then obtain ext pt where e: "(n, ext, pt) \<in> set (all_numbers ts 1)" "sys_ind pt \<noteq> 0" "\<not> is_extended (sys_ind pt)"
    "start = ext + start4 pt" "len = size4 pt"
    by (auto simp: part_line_of_def listed_def)
  then have "usable_part pt" using assms(3) by (auto simp: list_all_iff usable_part_def)
  then show ?thesis
    using get_extended_numbers [OF assms(1), of 1 n] find_all_numbers [OF e(1)] assms(2) e(4,5)
    by (simp add: get_partition_info_def get_partition_info_dos_def info_of_def partition_info_def)
qed

text \<open>A disk with a primary partition and a logical one in an extended partition.\<close>

definition example_part :: "u8 \<Rightarrow> u8 \<Rightarrow> u8 \<Rightarrow> u8 list" where
  "example_part sys first len = [0x80, 0, 0, 0, sys, 0, 0, 0, first, 0, 0, 0, len, 0, 0, 0]"

definition example_table :: "u8 list \<Rightarrow> u8 list \<Rightarrow> u8 list" where
  "example_table p q = replicate 0x1be 0 @ p @ q @ replicate 32 0 @ [0x55, 0xaa]"

definition example_mbr :: "u8 list" where
  "example_mbr = example_table (example_part 6 10 20) (example_part 5 100 50)"

definition example_ebr :: "u8 list" where
  "example_ebr = example_table (example_part 6 5 8) (replicate 16 0)"

definition example_block_dev :: block_dev where
  "example_block_dev = \<lparr>block_read = Some (\<lambda>s c. (1, if s = 0 then example_mbr else example_ebr)), if_type = 4, dev_no = 0,
     part_type = PART_TYPE_DOS, lba = 200\<rparr>"

definition dos_entry :: "u8 \<Rightarrow> u8 \<Rightarrow> u32 \<Rightarrow> u32 \<Rightarrow> dos_partition" where
  "dos_entry boot sys first len = \<lparr>boot_ind = boot, sys_ind = sys, start4 = first, size4 = len\<rparr>"

lemma example_sectors:
  "table_of example_mbr = [dos_entry 0x80 6 10 20, dos_entry 0x80 5 100 50, dos_entry 0 0 0 0, dos_entry 0 0 0 0]"
  "table_of example_ebr = [dos_entry 0x80 6 5 8, dos_entry 0 0 0 0, dos_entry 0 0 0 0, dos_entry 0 0 0 0]"
  "test_block_type example_mbr = DOS_MBR" "test_block_type example_ebr = DOS_MBR"
  by code_simp+

lemma sector_length:
  "length example_mbr = 512" "length example_ebr = 512"
  by (simp_all add: example_mbr_def example_ebr_def example_table_def example_part_def)

lemma example_reads:
  "read_sector example_block_dev (replicate 512 0) 0 = Some (True, example_mbr)"
  "read_sector example_block_dev (replicate 512 0) 100 = Some (True, example_ebr)"
  by (simp_all add: read_sector_def example_block_dev_def store_bytes_def sector_length overwrite_all)

lemma example_chain:
  "table_chain example_block_dev (replicate 512 0) 0 0 [(0, table_of example_mbr), (100, table_of example_ebr)]"
  unfolding example_sectors(1,2)
  by (simp add: example_reads example_sectors dos_entry_def is_extended_def chain_base_def)

theorem listed_partition_found_witness:
  "\<exists>info. get_partition_info example_block_dev (replicate 512 0) 5 = Some (Some info) \<and> dp_start info = 105 \<and> dp_size info = 8"
proof (rule listed_partition_found [OF example_chain])
  let ?all = "all_numbers [(0, table_of example_mbr), (100, table_of example_ebr)] 1"
  show "part_type example_block_dev = PART_TYPE_DOS" by (simp add: example_block_dev_def)
  show "list_all (\<lambda>(m, ext, pt). boot_ind pt AND NOT 0x80 = 0) ?all"
    unfolding example_sectors(1,2) by code_simp
  show "print_part_dos example_block_dev (replicate 512 0) = Some (map part_line_of (filter listed ?all))"
    using print_extended_numbers [OF example_chain] by (simp only: print_part_dos_def)
  show "PartLine 5 105 8 6 False \<in> set (map part_line_of (filter listed ?all))"
    unfolding example_sectors(1,2) by code_simp
qed

end
