(* ===== verification/Image.thy ===== *)
theory Image
  imports Environment CString
begin

text \<open>
  Legacy boot images: the header of \<open>include/image.h\<close> and the legacy half of \<open>common/image.c\<close> (FIT images
  are not configured). Addresses are 32 bits wide, memory is that of \<open>CMem\<close>; a result \<open>None\<close> is a loop
  that does not end or a read outside the environment. Messages are left out.
\<close>

section \<open>The header\<close>

record image_header =
  ih_magic :: u32
  ih_hcrc :: u32
  ih_time :: u32
  ih_size :: u32
  ih_load :: u32
  ih_ep :: u32
  ih_dcrc :: u32
  ih_os :: u8
  ih_arch :: u8
  ih_type :: u8
  ih_comp :: u8
  ih_name :: "u8 list"

definition uimage_to_cpu :: "u8 list \<Rightarrow> u32" where
  "uimage_to_cpu b = push_bit 24 (ucast (b ! 0)) OR push_bit 16 (ucast (b ! 1)) OR push_bit 8 (ucast (b ! 2)) OR ucast (b ! 3)"

definition cpu_to_uimage :: "u32 \<Rightarrow> u8 list" where
  "cpu_to_uimage w = [ucast (drop_bit 24 w), ucast (drop_bit 16 w), ucast (drop_bit 8 w), ucast w]"

text \<open>The fields of a header that lies in memory in network byte order, and back.\<close>

definition image_header_of :: "u8 list \<Rightarrow> image_header" where
  "image_header_of b = \<lparr>ih_magic = uimage_to_cpu (drop 0 b), ih_hcrc = uimage_to_cpu (drop 4 b),
     ih_time = uimage_to_cpu (drop 8 b), ih_size = uimage_to_cpu (drop 12 b), ih_load = uimage_to_cpu (drop 16 b),
     ih_ep = uimage_to_cpu (drop 20 b), ih_dcrc = uimage_to_cpu (drop 24 b), ih_os = b ! 28, ih_arch = b ! 29,
     ih_type = b ! 30, ih_comp = b ! 31, ih_name = drop 32 b\<rparr>"

definition image_header_bytes :: "image_header \<Rightarrow> u8 list" where
  "image_header_bytes h = cpu_to_uimage (ih_magic h) @ cpu_to_uimage (ih_hcrc h) @ cpu_to_uimage (ih_time h) @
     cpu_to_uimage (ih_size h) @ cpu_to_uimage (ih_load h) @ cpu_to_uimage (ih_ep h) @ cpu_to_uimage (ih_dcrc h) @
     [ih_os h, ih_arch h, ih_type h, ih_comp h] @ ih_name h"

definition image_get_header_size :: u32 where "image_get_header_size = 64"

definition header_at :: "mem \<Rightarrow> u32 \<Rightarrow> image_header" where
  "header_at m hdr = image_header_of (read_bytes m (unat hdr) 64)"

definition image_get_data :: "u32 \<Rightarrow> u32" where
  "image_get_data hdr = hdr + image_get_header_size"

definition image_get_image_end :: "mem \<Rightarrow> u32 \<Rightarrow> u32" where
  "image_get_image_end m hdr = hdr + (ih_size (header_at m hdr) + image_get_header_size)"

definition IH_MAGIC :: u32 where "IH_MAGIC = 0x27051956"

definition IH_OS_NETBSD :: u8 where "IH_OS_NETBSD = 2"
definition IH_OS_LINUX :: u8 where "IH_OS_LINUX = 5"
definition IH_OS_VXWORKS :: u8 where "IH_OS_VXWORKS = 14"
definition IH_OS_QNX :: u8 where "IH_OS_QNX = 16"
definition IH_OS_RTEMS :: u8 where "IH_OS_RTEMS = 18"
definition IH_ARCH_ARM :: u8 where "IH_ARCH_ARM = 2"
definition IH_TYPE_STANDALONE :: u8 where "IH_TYPE_STANDALONE = 1"
definition IH_TYPE_KERNEL :: u8 where "IH_TYPE_KERNEL = 2"
definition IH_TYPE_RAMDISK :: u8 where "IH_TYPE_RAMDISK = 3"
definition IH_TYPE_MULTI :: u8 where "IH_TYPE_MULTI = 4"
definition IH_TYPE_SCRIPT :: u8 where "IH_TYPE_SCRIPT = 6"
definition IH_COMP_NONE :: u8 where "IH_COMP_NONE = 0"
definition IH_COMP_GZIP :: u8 where "IH_COMP_GZIP = 1"

definition CHUNKSZ_CRC32 :: nat where "CHUNKSZ_CRC32 = 64 * 1024"

definition image_check_magic :: "image_header \<Rightarrow> bool" where
  "image_check_magic h \<longleftrightarrow> ih_magic h = IH_MAGIC"

definition image_check_type :: "image_header \<Rightarrow> u8 \<Rightarrow> bool" where
  "image_check_type h t \<longleftrightarrow> ih_type h = t"

definition image_check_arch :: "image_header \<Rightarrow> u8 \<Rightarrow> bool" where
  "image_check_arch h a \<longleftrightarrow> ih_arch h = a"

definition image_check_os :: "image_header \<Rightarrow> u8 \<Rightarrow> bool" where
  "image_check_os h os \<longleftrightarrow> ih_os h = os"

definition image_check_target_arch :: "image_header \<Rightarrow> bool" where
  "image_check_target_arch h \<longleftrightarrow> image_check_arch h IH_ARCH_ARM"

definition image_check_hcrc :: "image_header \<Rightarrow> bool" where
  "image_check_hcrc h \<longleftrightarrow> crc32 0 (image_header_bytes (h\<lparr>ih_hcrc := 0\<rparr>)) = ih_hcrc h"

definition image_check_dcrc :: "mem \<Rightarrow> u32 \<Rightarrow> bool" where
  "image_check_dcrc m hdr \<longleftrightarrow>
     crc32_wd 0 (read_bytes m (unat (image_get_data hdr)) (unat (ih_size (header_at m hdr)))) CHUNKSZ_CRC32 =
     ih_dcrc (header_at m hdr)"

section \<open>Images of several components\<close>

text \<open>The data starts with a table of sizes that a zero ends; \<open>data\<close> is its address.\<close>

definition multi_size :: "mem \<Rightarrow> u32 \<Rightarrow> u32 \<Rightarrow> u32" where
  "multi_size m data i = uimage_to_cpu (read_bytes m (unat (data + 4 * i)) 4)"

partial_function (option) multi_count_loop :: "mem \<Rightarrow> u32 \<Rightarrow> u32 \<Rightarrow> u32 option" where
  "multi_count_loop m data i =
     (if load32 m (unat (data + 4 * i)) \<noteq> 0 then multi_count_loop m data (i + 1) else Some i)"

definition image_multi_count :: "mem \<Rightarrow> u32 \<Rightarrow> u32 option" where
  "image_multi_count m hdr = multi_count_loop m (image_get_data hdr) 0"

definition multi_offset :: "mem \<Rightarrow> u32 \<Rightarrow> nat \<Rightarrow> u32" where
  "multi_offset m data idx = sum_list (map (\<lambda>i. (multi_size m data (of_nat i) + 3) AND NOT 3) [0..<idx])"

text \<open>The address and the length of a component, zeros when there is none of the number.\<close>

definition image_multi_getimg :: "mem \<Rightarrow> u32 \<Rightarrow> u32 \<Rightarrow> (u32 \<times> u32) option" where
  "image_multi_getimg m hdr idx =
     (case image_multi_count m hdr of
        None \<Rightarrow> None
      | Some count \<Rightarrow>
          Some (if idx < count
                then (image_get_data hdr + (count + 1) * 4 + multi_offset m (image_get_data hdr) (unat idx),
                      multi_size m (image_get_data hdr) idx)
                else (0, 0)))"

text \<open>
  Printing an image, which lists the components of a multi-file image or a script: what is listed of
  them, an address and a length each. It counts and reads the table of sizes whatever the data is.
\<close>

definition image_print_contents :: "mem \<Rightarrow> u32 \<Rightarrow> (u32 \<times> u32) list option" where
  "image_print_contents m hdr =
     (if image_check_type (header_at m hdr) IH_TYPE_MULTI \<or> image_check_type (header_at m hdr) IH_TYPE_SCRIPT
      then do {
        count \<leftarrow> image_multi_count m hdr;
        those (map (\<lambda>i. image_multi_getimg m hdr (of_nat i)) [0..<unat count])
      }
      else Some [])"

section \<open>Names of codes\<close>

type_synonym table_entry = "int \<times> u8 list option \<times> u8 list"

definition uimage_arch :: "table_entry list" where
  "uimage_arch = [
     (0, None, cstr ''Invalid ARCH''), (1, Some (cstr ''alpha''), cstr ''Alpha''), (2, Some (cstr ''arm''), cstr ''ARM''),
     (3, Some (cstr ''x86''), cstr ''Intel x86''), (4, Some (cstr ''ia64''), cstr ''IA64''),
     (12, Some (cstr ''m68k''), cstr ''M68K''), (14, Some (cstr ''microblaze''), cstr ''MicroBlaze''),
     (5, Some (cstr ''mips''), cstr ''MIPS''), (6, Some (cstr ''mips64''), cstr ''MIPS 64 Bit''),
     (13, Some (cstr ''nios''), cstr ''NIOS''), (15, Some (cstr ''nios2''), cstr ''NIOS II''),
     (7, Some (cstr ''powerpc''), cstr ''PowerPC''), (7, Some (cstr ''ppc''), cstr ''PowerPC''),
     (8, Some (cstr ''s390''), cstr ''IBM S390''), (9, Some (cstr ''sh''), cstr ''SuperH''),
     (10, Some (cstr ''sparc''), cstr ''SPARC''), (11, Some (cstr ''sparc64''), cstr ''SPARC 64 Bit''),
     (16, Some (cstr ''blackfin''), cstr ''Blackfin''), (17, Some (cstr ''avr32''), cstr ''AVR32''),
     (-1, Some [], [])]"

definition uimage_os :: "table_entry list" where
  "uimage_os = [
     (0, None, cstr ''Invalid OS''), (5, Some (cstr ''linux''), cstr ''Linux''), (2, Some (cstr ''netbsd''), cstr ''NetBSD''),
     (18, Some (cstr ''rtems''), cstr ''RTEMS''), (17, Some (cstr ''u-boot''), cstr ''U-Boot''),
     (16, Some (cstr ''qnx''), cstr ''QNX''), (14, Some (cstr ''vxworks''), cstr ''VxWorks''), (-1, Some [], [])]"

definition uimage_type :: "table_entry list" where
  "uimage_type = [
     (0, None, cstr ''Invalid Image''), (7, Some (cstr ''filesystem''), cstr ''Filesystem Image''),
     (5, Some (cstr ''firmware''), cstr ''Firmware''), (2, Some (cstr ''kernel''), cstr ''Kernel Image''),
     (4, Some (cstr ''multi''), cstr ''Multi-File Image''), (3, Some (cstr ''ramdisk''), cstr ''RAMDisk Image''),
     (6, Some (cstr ''script''), cstr ''Script''), (1, Some (cstr ''standalone''), cstr ''Standalone Program''),
     (8, Some (cstr ''flat_dt''), cstr ''Flat Device Tree''), (9, Some (cstr ''kwbimage''), cstr ''Kirkwood Boot Image''),
     (-1, Some [], [])]"

definition uimage_comp :: "table_entry list" where
  "uimage_comp = [
     (0, Some (cstr ''none''), cstr ''uncompressed''), (2, Some (cstr ''bzip2''), cstr ''bzip2 compressed''),
     (1, Some (cstr ''gzip''), cstr ''gzip compressed''), (3, Some (cstr ''lzma''), cstr ''lzma compressed''),
     (-1, Some [], [])]"

fun get_table_entry_name :: "table_entry list \<Rightarrow> u8 list \<Rightarrow> int \<Rightarrow> u8 list" where
  "get_table_entry_name [] msg i = msg"
| "get_table_entry_name ((j, sname, lname) # table) msg i =
     (if j < 0 then msg else if j = i then lname else get_table_entry_name table msg i)"

text \<open>The comparison of the board; the build for the host ignores the case of letters.\<close>

fun get_table_entry_id :: "table_entry list \<Rightarrow> u8 list \<Rightarrow> int" where
  "get_table_entry_id [] nm = -1"
| "get_table_entry_id ((j, sname, lname) # table) nm =
     (if j < 0 then -1 else if sname = Some nm then j else get_table_entry_id table nm)"

definition genimg_get_os_name :: "u8 \<Rightarrow> u8 list" where
  "genimg_get_os_name os = get_table_entry_name uimage_os (cstr ''Unknown OS'') (uint os)"

definition genimg_get_arch_name :: "u8 \<Rightarrow> u8 list" where
  "genimg_get_arch_name arch = get_table_entry_name uimage_arch (cstr ''Unknown Architecture'') (uint arch)"

definition genimg_get_type_name :: "u8 \<Rightarrow> u8 list" where
  "genimg_get_type_name t = get_table_entry_name uimage_type (cstr ''Unknown Image'') (uint t)"

definition genimg_get_comp_name :: "u8 \<Rightarrow> u8 list" where
  "genimg_get_comp_name c = get_table_entry_name uimage_comp (cstr ''Unknown Compression'') (uint c)"

definition genimg_get_os_id :: "u8 list \<Rightarrow> int" where
  "genimg_get_os_id nm = get_table_entry_id uimage_os nm"

definition genimg_get_arch_id :: "u8 list \<Rightarrow> int" where
  "genimg_get_arch_id nm = get_table_entry_id uimage_arch nm"

definition genimg_get_type_id :: "u8 list \<Rightarrow> int" where
  "genimg_get_type_id nm = get_table_entry_id uimage_type nm"

definition genimg_get_comp_id :: "u8 list \<Rightarrow> int" where
  "genimg_get_comp_id nm = get_table_entry_id uimage_comp nm"

section \<open>What the environment and the board say\<close>

record bd =
  bi_arch_number :: u32
  bi_boot_params :: u32
  dram_start :: u32
  dram_size :: u32

definition getenv_yesno :: "u8 list \<Rightarrow> u8 list \<Rightarrow> int option" where
  "getenv_yesno env var =
     map_option (\<lambda>s. case s of Some (c # _) \<Rightarrow> if c = chr8 CHR ''n'' then 0 else 1 | _ \<Rightarrow> 1) (getenv env var)"

definition getenv_bootm_low :: "bd \<Rightarrow> u8 list \<Rightarrow> u32 option" where
  "getenv_bootm_low b env =
     map_option (\<lambda>s. case s of Some v \<Rightarrow> fst (simple_strtoul v 16) | None \<Rightarrow> dram_start b) (getenv env (cstr ''bootm_low''))"

definition getenv_bootm_size :: "bd \<Rightarrow> u8 list \<Rightarrow> u32 option" where
  "getenv_bootm_size b env =
     map_option (\<lambda>s. case s of Some v \<Rightarrow> fst (simple_strtoul v 16) | None \<Rightarrow> dram_size b) (getenv env (cstr ''bootm_size''))"

section \<open>Formats, kernels and ramdisks\<close>

datatype image_format = IMAGE_FORMAT_INVALID | IMAGE_FORMAT_LEGACY

definition genimg_get_format :: "mem \<Rightarrow> u32 \<Rightarrow> image_format" where
  "genimg_get_format m img_addr =
     (if image_check_magic (header_at m img_addr) then IMAGE_FORMAT_LEGACY else IMAGE_FORMAT_INVALID)"

text \<open>Without data flash an image is where its address says.\<close>

definition genimg_get_image :: "u32 \<Rightarrow> u32" where
  "genimg_get_image img_addr = img_addr"

text \<open>
  Whether the image is one the caller can use; the C functions return its address or a null pointer.
  The contents are printed before the checksum of the data is verified.
\<close>

definition image_get_kernel :: "mem \<Rightarrow> u32 \<Rightarrow> int \<Rightarrow> bool option" where
  "image_get_kernel m img_addr verify =
     (let h = header_at m img_addr
      in if \<not> image_check_magic h then Some False
         else if \<not> image_check_hcrc h then Some False
         else do {
           _ \<leftarrow> image_print_contents m img_addr;
           if verify \<noteq> 0 \<and> \<not> image_check_dcrc m img_addr then Some False
           else Some (image_check_target_arch h)
         })"

definition image_get_ramdisk :: "mem \<Rightarrow> u32 \<Rightarrow> u8 \<Rightarrow> int \<Rightarrow> bool option" where
  "image_get_ramdisk m rd_addr arch verify =
     (let h = header_at m rd_addr
      in if \<not> image_check_magic h then Some False
         else if \<not> image_check_hcrc h then Some False
         else do {
           _ \<leftarrow> image_print_contents m rd_addr;
           if verify \<noteq> 0 \<and> \<not> image_check_dcrc m rd_addr then Some False
           else Some (image_check_os h IH_OS_LINUX \<and> image_check_arch h arch \<and> image_check_type h IH_TYPE_RAMDISK)
         })"

text \<open>\<open>iminfo\<close>: 0 for an image whose checksums are right.\<close>

definition image_info_cmd :: "mem \<Rightarrow> u32 \<Rightarrow> int option" where
  "image_info_cmd m addr =
     (case genimg_get_format m addr of
        IMAGE_FORMAT_LEGACY \<Rightarrow>
          if \<not> image_check_magic (header_at m addr) then Some 1
          else if \<not> image_check_hcrc (header_at m addr) then Some 1
          else do {
            _ \<leftarrow> image_print_contents m addr;
            if \<not> image_check_dcrc m addr then Some 1 else Some 0
          }
      | IMAGE_FORMAT_INVALID \<Rightarrow> Some 1)"

definition do_iminfo :: "mem \<Rightarrow> u32 \<Rightarrow> u8 list list \<Rightarrow> int option" where
  "do_iminfo m load argv =
     (if length argv < 2 then image_info_cmd m load
      else do {
        rs \<leftarrow> those (map (\<lambda>a. image_info_cmd m (fst (simple_strtoul a 16))) (tl argv));
        Some (if list_ex (\<lambda>r. r \<noteq> 0) rs then 1 else 0)
      })"

section \<open>Printing\<close>

lemma those_map: "those (map f xs) = (if \<exists>x \<in> set xs. f x = None then None else Some (map (\<lambda>x. the (f x)) xs))"
  by (induction xs) (auto split: option.splits)

text \<open>Printing ends when counting the components does.\<close>

lemma image_print_contents_ends:
  "image_print_contents m hdr = None \<longleftrightarrow>
     (ih_type (header_at m hdr) = IH_TYPE_MULTI \<or> ih_type (header_at m hdr) = IH_TYPE_SCRIPT) \<and>
     image_multi_count m hdr = None"
  by (auto simp: image_print_contents_def image_check_type_def image_multi_getimg_def those_map split: bind_splits)

text \<open>Counting ends only at a zero word; without one it does not end.\<close>

lemma multi_count_end: "multi_count_loop m data i = Some n \<Longrightarrow> load32 m (unat (data + 4 * n)) = 0"
proof (induction rule: multi_count_loop.raw_induct [rotated, consumes 1])
  case (1 f m data i n)
  then show ?case by (auto split: if_splits)
qed

section \<open>Headers and bytes\<close>

lemma length_cpu_to_uimage [simp]: "length (cpu_to_uimage w) = 4"
  by (simp add: cpu_to_uimage_def)

lemma uimage_round [simp]: "uimage_to_cpu (cpu_to_uimage w @ r) = w"
proof (rule bit_word_eqI)
  fix n assume "n < LENGTH(32)"
  then consider "n < 8" | "8 \<le> n" "n < 16" | "16 \<le> n" "n < 24" | "24 \<le> n" "n < 32" by fastforce
  then show "bit (uimage_to_cpu (cpu_to_uimage w @ r)) n = bit w n"
    by cases (auto simp: uimage_to_cpu_def cpu_to_uimage_def bit_simps)
qed

lemma cpu_round:
  assumes "4 \<le> length b"
  shows "cpu_to_uimage (uimage_to_cpu b) = take 4 b"
proof -
  obtain b0 b1 b2 b3 r where b: "b = b0 # b1 # b2 # b3 # r"
    using assms by (auto simp: numeral_eq_Suc Suc_le_length_iff)
  show ?thesis
    unfolding b cpu_to_uimage_def uimage_to_cpu_def
    by (auto intro!: bit_word_eqI simp: bit_simps)
qed

end
