(* ===== verification/Bootm.thy ===== *)
theory Bootm
  imports Image Lmb CommandLine
begin

text \<open>
  \<open>bootm\<close>: finding and checking an image, loading it, and starting it (\<open>common/cmd_bootm.c\<close>,
  \<open>lib_arm/bootm.c\<close>, \<open>lib_generic/gunzip.c\<close>). The code that is started, and the inflate routine of zlib,
  are parameters; every start is recorded with the memory at that moment. Messages, the LEDs and the
  watchdog are left out; \<open>malloc\<close> is taken to succeed.
\<close>

section \<open>The state\<close>

record image_info =
  os_start :: u32
  os_end :: u32
  image_start :: u32
  image_len :: u32
  os_load :: u32
  os_comp :: u8
  os_type :: u8
  os_os :: u8

record bootm_headers =
  legacy_hdr_os :: u32
  legacy_hdr_os_copy :: image_header
  legacy_hdr_valid :: bool
  os_info :: image_info
  ep :: u32
  rd_start :: u32
  rd_end :: u32
  verify :: int
  bootm_state :: int
  images_lmb :: lmb

definition images_zero :: bootm_headers where
  "images_zero =
     \<lparr>legacy_hdr_os = 0,
      legacy_hdr_os_copy = \<lparr>ih_magic = 0, ih_hcrc = 0, ih_time = 0, ih_size = 0, ih_load = 0, ih_ep = 0, ih_dcrc = 0,
        ih_os = 0, ih_arch = 0, ih_type = 0, ih_comp = 0, ih_name = replicate 32 0\<rparr>,
      legacy_hdr_valid = False,
      os_info = \<lparr>os_start = 0, os_end = 0, image_start = 0, image_len = 0, os_load = 0, os_comp = 0, os_type = 0, os_os = 0\<rparr>,
      ep = 0, rd_start = 0, rd_end = 0, verify = 0, bootm_state = 0,
      images_lmb = \<lparr>memory = \<lparr>cnt = 0, total = 0, region = replicate (MAX_LMB_REGIONS + 1) \<lparr>base = 0, rsize = 0\<rparr>\<rparr>,
        reserved = \<lparr>cnt = 0, total = 0, region = replicate (MAX_LMB_REGIONS + 1) \<lparr>base = 0, rsize = 0\<rparr>\<rparr>\<rparr>\<rparr>"

text \<open>
  What can be started: Linux with its machine number and the address of its tags, a program with its
  arguments, the loader of NetBSD with an image, a console and a command line, RTEMS, and the commands
  \<open>bootvx\<close> and \<open>bootelf\<close>. Stopping the USB controller is recorded with them.
\<close>

datatype boot_event =
    StartLinux u32 u32 u32
  | StartStandalone u32 "u8 list list"
  | StartNetBSD u32 u32 "u8 list" "u8 list"
  | StartRTEMS u32
  | BootVx
  | BootElf "u8 list list"
  | UsbStop

record boot_world =
  wmem :: mem
  wenv :: env_state
  images :: bootm_headers
  interrupts :: bool
  events :: "(boot_event \<times> mem) list"

record board =
  bdinfo :: bd
  zunzip :: "mem \<Rightarrow> u32 \<Rightarrow> u32 \<Rightarrow> u32 \<Rightarrow> u32 \<Rightarrow> u32 \<Rightarrow> int \<times> u32 \<times> mem"
  foreign :: "boot_event \<Rightarrow> mem \<Rightarrow> mem"
  assign :: "u8 list \<Rightarrow> u8 list \<Rightarrow> int"

datatype boot_out = Ret int | BoardReset

definition start_foreign :: "board \<Rightarrow> boot_event \<Rightarrow> boot_world \<Rightarrow> boot_world" where
  "start_foreign B ev w = w\<lparr>wmem := foreign B ev (wmem w), events := events w @ [(ev, wmem w)]\<rparr>"

definition usb_stop :: "boot_world \<Rightarrow> boot_world" where
  "usb_stop w = w\<lparr>events := events w @ [(UsbStop, wmem w)]\<rparr>"

section \<open>Loading\<close>

text \<open>The header of a gzip file: the index behind the NUL of a string, and the start of the data.\<close>

partial_function (option) skip_string :: "mem \<Rightarrow> u32 \<Rightarrow> u32 \<Rightarrow> u32 option" where
  "skip_string m src i = (if m (unat (src + i)) \<noteq> 0 then skip_string m src (i + 1) else Some (i + 1))"

definition gunzip :: "board \<Rightarrow> mem \<Rightarrow> u32 \<Rightarrow> u32 \<Rightarrow> u32 \<Rightarrow> u32 \<Rightarrow> (int \<times> u32 \<times> mem) option" where
  "gunzip B m dst dstlen src len =
     (let at = (\<lambda>k. m (unat (src + k))); flags = at 3
      in if at 2 \<noteq> 8 \<or> flags AND 0xe0 \<noteq> 0 then Some (-1, len, m)
         else do {
           let i = (if flags AND 4 \<noteq> 0 then 12 + ucast (at 10) + push_bit 8 (ucast (at 11)) else 10);
           i \<leftarrow> (if flags AND 8 \<noteq> 0 then skip_string m src i else Some i);
           i \<leftarrow> (if flags AND 0x10 \<noteq> 0 then skip_string m src i else Some i);
           let i = (if flags AND 2 \<noteq> 0 then i + 2 else i);
           if len \<le> i then Some (-1, len, m) else Some (zunzip B m dst dstlen src len i)
         })"

definition CONFIG_SYS_BOOTM_LEN :: u32 where "CONFIG_SYS_BOOTM_LEN = 0x800000"

definition BOOTM_ERR_RESET :: int where "BOOTM_ERR_RESET = -1"
definition BOOTM_ERR_OVERLAP :: int where "BOOTM_ERR_OVERLAP = -2"
definition BOOTM_ERR_UNIMPLEMENTED :: int where "BOOTM_ERR_UNIMPLEMENTED = -3"

definition memmove_wd :: "mem \<Rightarrow> u32 \<Rightarrow> u32 \<Rightarrow> u32 \<Rightarrow> mem" where
  "memmove_wd m to fro len = memmove m (unat to) (unat fro) (unat len)"

definition load_overlap :: "image_info \<Rightarrow> u32 \<Rightarrow> int" where
  "load_overlap os load_end = (if os_load os < os_end os \<and> os_start os < load_end then BOOTM_ERR_OVERLAP else 0)"

text \<open>The status, the end of what is loaded, and the memory.\<close>

definition bootm_load_os :: "board \<Rightarrow> mem \<Rightarrow> image_info \<Rightarrow> u32 \<Rightarrow> (int \<times> u32 \<times> mem) option" where
  "bootm_load_os B m os load_end =
     (if os_comp os = IH_COMP_NONE then
        (let m = (if os_load os = os_start os \<or> os_load os = image_start os then m
                  else memmove_wd m (os_load os) (image_start os) (image_len os));
             load_end = os_load os + image_len os
         in Some (load_overlap os load_end, load_end, m))
      else if os_comp os = IH_COMP_GZIP then do {
        (r, len, m) \<leftarrow> gunzip B m (os_load os) CONFIG_SYS_BOOTM_LEN (image_start os) (image_len os);
        if r \<noteq> 0 then Some (BOOTM_ERR_RESET, load_end, m)
        else (let load_end = os_load os + len in Some (load_overlap os load_end, load_end, m))
      }
      else Some (BOOTM_ERR_UNIMPLEMENTED, load_end, m))"

section \<open>Finding the images\<close>

definition hex_arg :: "u8 list \<Rightarrow> u32" where
  "hex_arg a = fst (simple_strtoul a 16)"

definition set_os_data :: "u32 \<Rightarrow> u32 \<Rightarrow> bootm_headers \<Rightarrow> bootm_headers" where
  "set_os_data data len im = im\<lparr>os_info := (os_info im)\<lparr>image_start := data, image_len := len\<rparr>\<rparr>"

text \<open>The address of the header, or 0; a standalone program can be given another load address.\<close>

definition boot_get_kernel ::
  "mem \<Rightarrow> u32 \<Rightarrow> u8 list list \<Rightarrow> bootm_headers \<Rightarrow> (mem \<times> bootm_headers \<times> u32) option" where
  "boot_get_kernel m load argv im =
     (let img_addr = genimg_get_image (if length argv < 2 then load else hex_arg (argv ! 1));
          im = set_os_data 0 0 im
      in case genimg_get_format m img_addr of
           IMAGE_FORMAT_INVALID \<Rightarrow> Some (m, im, 0)
         | IMAGE_FORMAT_LEGACY \<Rightarrow> do {
             ok \<leftarrow> image_get_kernel m img_addr (verify im);
             if \<not> ok then Some (m, im, 0)
             else
               (let h = header_at m img_addr;
                    found = (\<lambda>m im. Some (m, im\<lparr>legacy_hdr_os_copy := header_at m img_addr, legacy_hdr_os := img_addr,
                               legacy_hdr_valid := True\<rparr>, img_addr))
                in if ih_type h = IH_TYPE_KERNEL then found m (set_os_data (image_get_data img_addr) (ih_size h) im)
                   else if ih_type h = IH_TYPE_MULTI then do {
                     (data, len) \<leftarrow> image_multi_getimg m img_addr 0;
                     found m (set_os_data data len im)
                   }
                   else if ih_type h = IH_TYPE_STANDALONE then
                     (let m = (if 2 < length argv then write_bytes m (unat (img_addr + 16)) (cpu_to_uimage (hex_arg (argv ! 2))) else m)
                      in found m (set_os_data (image_get_data img_addr) (ih_size (header_at m img_addr)) im))
                   else Some (m, im, 0))
           })"

text \<open>The status and where the ramdisk starts and ends; zeros without one.\<close>

definition boot_get_ramdisk ::
  "mem \<Rightarrow> u8 list list \<Rightarrow> bootm_headers \<Rightarrow> u8 \<Rightarrow> (int \<times> u32 \<times> u32) option" where
  "boot_get_ramdisk m argv im arch =
     (let result = (\<lambda>data len. Some (0, if data = 0 then 0 else data, if data = 0 then 0 else data + len))
      in if 3 \<le> length argv \<and> argv ! 2 = cstr ''-'' then result 0 0
         else if 3 \<le> length argv then
           (let rd_addr = genimg_get_image (hex_arg (argv ! 2))
            in case genimg_get_format m rd_addr of
                 IMAGE_FORMAT_LEGACY \<Rightarrow> do {
                   ok \<leftarrow> image_get_ramdisk m rd_addr arch (verify im);
                   if \<not> ok then Some (1, 0, 0)
                   else result (image_get_data rd_addr) (ih_size (header_at m rd_addr))
                 }
               | IMAGE_FORMAT_INVALID \<Rightarrow> Some (1, 0, 0))
         else if legacy_hdr_valid im \<and> image_check_type (legacy_hdr_os_copy im) IH_TYPE_MULTI then do {
           (data, len) \<leftarrow> image_multi_getimg m (legacy_hdr_os im) 1;
           result data len
         }
         else result 0 0)"

definition bootm_start :: "board \<Rightarrow> boot_world \<Rightarrow> u8 list list \<Rightarrow> (int \<times> boot_world) option" where
  "bootm_start B w argv =
     do {
       v \<leftarrow> getenv_yesno (env_data (wenv w)) (cstr ''verify'');
       low \<leftarrow> getenv_bootm_low (bdinfo B) (env_data (wenv w));
       sz \<leftarrow> getenv_bootm_size (bdinfo B) (env_data (wenv w));
       let im = images_zero\<lparr>verify := v, images_lmb := fst (lmb_add (lmb_init (images_lmb images_zero)) low sz)\<rparr>;
       (m, im, os_hdr) \<leftarrow> boot_get_kernel (wmem w) (load_addr (wenv w)) argv im;
       let w = w\<lparr>wmem := m\<rparr>;
       if image_len (os_info im) = 0 then Some (1, w\<lparr>images := im\<rparr>)
       else (case genimg_get_format m os_hdr of
           IMAGE_FORMAT_INVALID \<Rightarrow> Some (1, w\<lparr>images := im\<rparr>)
         | IMAGE_FORMAT_LEGACY \<Rightarrow>
             (let h = header_at m os_hdr;
                  im = im\<lparr>os_info := (os_info im)\<lparr>os_type := ih_type h, os_comp := ih_comp h, os_os := ih_os h,
                         os_end := image_get_image_end m os_hdr, os_load := ih_load h\<rparr>\<rparr>
              in if \<not> legacy_hdr_valid im then Some (1, w\<lparr>images := im\<rparr>)
                 else
                   (let im = im\<lparr>ep := ih_ep (legacy_hdr_os_copy im)\<rparr>;
                        started = (\<lambda>im. Some (0, w\<lparr>images := im\<lparr>os_info := (os_info im)\<lparr>os_start := os_hdr\<rparr>, bootm_state := 1\<rparr>\<rparr>))
                    in if os_os (os_info im) = IH_OS_LINUX then do {
                         (ret, rs, re) \<leftarrow> boot_get_ramdisk m argv im IH_ARCH_ARM;
                         let im = im\<lparr>rd_start := rs, rd_end := re\<rparr>;
                         if ret \<noteq> 0 then Some (1, w\<lparr>images := im\<rparr>) else started im
                       }
                       else started im)))
     }"

section \<open>The tags for the kernel\<close>

definition ATAG_NONE :: u32 where "ATAG_NONE = 0"
definition ATAG_CORE :: u32 where "ATAG_CORE = 0x54410001"
definition ATAG_MEM :: u32 where "ATAG_MEM = 0x54410002"
definition ATAG_INITRD2 :: u32 where "ATAG_INITRD2 = 0x54420005"
definition ATAG_CMDLINE :: u32 where "ATAG_CMDLINE = 0x54410009"

text \<open>The field \<open>i\<close> words behind the start of a tag; a tag starts with its size in words and its code.\<close>

definition set_word :: "u32 \<Rightarrow> nat \<Rightarrow> u32 \<Rightarrow> mem \<Rightarrow> mem" where
  "set_word params i v m = store32 m (unat params + 4 * i) v"

definition tag_next :: "mem \<Rightarrow> u32 \<Rightarrow> u32" where
  "tag_next m t = t + 4 * load32 m (unat t)"

definition setup_start_tag :: "bd \<Rightarrow> mem \<Rightarrow> mem \<times> u32" where
  "setup_start_tag b m =
     (let p = bi_boot_params b;
          m = set_word p 0 5 (set_word p 1 ATAG_CORE m);
          m = set_word p 4 0 (set_word p 3 0 (set_word p 2 0 m))
      in (m, tag_next m p))"

definition setup_memory_tags :: "bd \<Rightarrow> mem \<times> u32 \<Rightarrow> mem \<times> u32" where
  "setup_memory_tags b st =
     (case st of (m, p) \<Rightarrow>
        let m = set_word p 0 4 (set_word p 1 ATAG_MEM m);
            m = set_word p 2 (dram_size b) (set_word p 3 (dram_start b) m)
        in (m, tag_next m p))"

definition setup_commandline_tag :: "u8 list option \<Rightarrow> mem \<times> u32 \<Rightarrow> mem \<times> u32" where
  "setup_commandline_tag commandline st =
     (case commandline of
        None \<Rightarrow> st
      | Some c \<Rightarrow>
          (case (st, dropWhile (\<lambda>x. x = chr8 CHR '' '') c) of ((m, p), s) \<Rightarrow>
             if s = [] then st
             else
               (let m = set_word p 0 (of_nat ((8 + length s + 1 + 4) div 4)) (set_word p 1 ATAG_CMDLINE m);
                    m = write_bytes m (unat p + 8) (s @ [0])
                in (m, tag_next m p))))"

definition setup_initrd_tag :: "u32 \<Rightarrow> u32 \<Rightarrow> mem \<times> u32 \<Rightarrow> mem \<times> u32" where
  "setup_initrd_tag initrd_start initrd_end st =
     (case st of (m, p) \<Rightarrow>
        let m = set_word p 0 4 (set_word p 1 ATAG_INITRD2 m);
            m = set_word p 3 (initrd_end - initrd_start) (set_word p 2 initrd_start m)
        in (m, tag_next m p))"

definition setup_end_tag :: "mem \<times> u32 \<Rightarrow> mem" where
  "setup_end_tag st = (case st of (m, p) \<Rightarrow> set_word p 0 0 (set_word p 1 ATAG_NONE m))"

definition setup_tags :: "bd \<Rightarrow> u8 list option \<Rightarrow> u32 \<Rightarrow> u32 \<Rightarrow> mem \<Rightarrow> mem" where
  "setup_tags b commandline rs re m =
     (let st = setup_commandline_tag commandline (setup_memory_tags b (setup_start_tag b m));
          st = (if rs \<noteq> 0 \<and> re \<noteq> 0 then setup_initrd_tag rs re st else st)
      in setup_end_tag st)"

section \<open>Starting\<close>

definition BOOTM_STATE_OS_GO :: int where "BOOTM_STATE_OS_GO = 0x80"

definition do_bootm_linux :: "board \<Rightarrow> int \<Rightarrow> u8 list list \<Rightarrow> boot_world \<Rightarrow> (int \<times> boot_world) option" where
  "do_bootm_linux B flag argv w =
     do {
       commandline \<leftarrow> getenv (env_data (wenv w)) (cstr ''bootargs'');
       if flag \<noteq> 0 \<and> flag \<noteq> BOOTM_STATE_OS_GO then Some (1, w)
       else do {
         s \<leftarrow> getenv (env_data (wenv w)) (cstr ''machid'');
         let machid = (case s of Some v \<Rightarrow> hex_arg v | None \<Rightarrow> bi_arch_number (bdinfo B));
         let w = w\<lparr>wmem := setup_tags (bdinfo B) commandline (rd_start (images w)) (rd_end (images w)) (wmem w)\<rparr>;
         Some (1, start_foreign B (StartLinux (ep (images w)) machid (bi_boot_params (bdinfo B))) w)
       }
     }"

fun netbsd_args :: "u8 list list \<Rightarrow> u8 list" where
  "netbsd_args [] = []"
| "netbsd_args [a] = a"
| "netbsd_args (a # b # as) = a @ chr8 CHR '' '' # netbsd_args (b # as)"

definition do_bootm_netbsd :: "board \<Rightarrow> int \<Rightarrow> u8 list list \<Rightarrow> boot_world \<Rightarrow> (int \<times> boot_world) option" where
  "do_bootm_netbsd B flag argv w =
     (if flag \<noteq> 0 \<and> flag \<noteq> BOOTM_STATE_OS_GO then Some (1, w)
      else do {
        os_hdr \<leftarrow>
          (if image_check_type (legacy_hdr_os_copy (images w)) IH_TYPE_MULTI then do {
             (data, len) \<leftarrow> image_multi_getimg (wmem w) (legacy_hdr_os (images w)) 1;
             Some (if len \<noteq> 0 then legacy_hdr_os (images w) else 0)
           }
           else Some 0);
        cmdline \<leftarrow>
          (if 2 < length argv then Some (netbsd_args (drop 2 argv))
           else map_option (\<lambda>s. case s of None \<Rightarrow> [] | Some v \<Rightarrow> v) (getenv (env_data (wenv w)) (cstr ''bootargs'')));
        Some (1, start_foreign B (StartNetBSD (ep (images w)) os_hdr [] cmdline) w)
      })"

definition do_bootm_rtems :: "board \<Rightarrow> int \<Rightarrow> u8 list list \<Rightarrow> boot_world \<Rightarrow> (int \<times> boot_world) option" where
  "do_bootm_rtems B flag argv w =
     (if flag \<noteq> 0 \<and> flag \<noteq> BOOTM_STATE_OS_GO then Some (1, w)
      else Some (1, start_foreign B (StartRTEMS (ep (images w))) w))"

text \<open>A number as \<open>sprintf\<close> prints it.\<close>

definition print_arg :: "boot_world \<Rightarrow> u8 list \<Rightarrow> u32 \<Rightarrow> u8 list option" where
  "print_arg w fmt v = map_option fst (vsprintf_loop (wmem w) [] fmt [v])"

definition do_bootm_vxworks :: "board \<Rightarrow> int \<Rightarrow> u8 list list \<Rightarrow> boot_world \<Rightarrow> (int \<times> boot_world) option" where
  "do_bootm_vxworks B flag argv w =
     (if flag \<noteq> 0 \<and> flag \<noteq> BOOTM_STATE_OS_GO then Some (1, w)
      else do {
        str \<leftarrow> print_arg w (cstr ''%lx'') (ep (images w));
        (e, r) \<leftarrow> setenv (assign B) (wenv w) (cstr ''loadaddr'') (Some str);
        Some (1, start_foreign B BootVx (w\<lparr>wenv := e\<rparr>))
      })"

definition do_bootm_qnxelf :: "board \<Rightarrow> int \<Rightarrow> u8 list list \<Rightarrow> boot_world \<Rightarrow> (int \<times> boot_world) option" where
  "do_bootm_qnxelf B flag argv w =
     (if flag \<noteq> 0 \<and> flag \<noteq> BOOTM_STATE_OS_GO then Some (1, w)
      else do {
        str \<leftarrow> print_arg w (cstr ''%lx'') (ep (images w));
        Some (1, start_foreign B (BootElf (take 1 argv @ [str])) w)
      })"

type_synonym boot_fn = "board \<Rightarrow> int \<Rightarrow> u8 list list \<Rightarrow> boot_world \<Rightarrow> (int \<times> boot_world) option"

text \<open>The table of 19 entries, most of them null; an index beyond it reads outside.\<close>

definition boot_os :: "u8 \<Rightarrow> boot_fn option option" where
  "boot_os os =
     (if 18 < os then None
      else Some (if os = IH_OS_LINUX then Some do_bootm_linux
                 else if os = IH_OS_NETBSD then Some do_bootm_netbsd
                 else if os = IH_OS_RTEMS then Some do_bootm_rtems
                 else if os = IH_OS_VXWORKS then Some do_bootm_vxworks
                 else if os = IH_OS_QNX then Some do_bootm_qnxelf
                 else None))"

definition bootm_start_standalone :: "board \<Rightarrow> u8 list list \<Rightarrow> boot_world \<Rightarrow> (int \<times> boot_world) option" where
  "bootm_start_standalone B argv w =
     do {
       s \<leftarrow> getenv (env_data (wenv w)) (cstr ''autostart'');
       if s = Some (cstr ''no'') then do {
         buf \<leftarrow> print_arg w (cstr ''%lX'') (image_len (os_info (images w)));
         (e, r) \<leftarrow> setenv (assign B) (wenv w) (cstr ''filesize'') (Some buf);
         Some (0, w\<lparr>wenv := e\<rparr>)
       }
       else Some (0, start_foreign B (StartStandalone (htonl (ep (images w))) (tl argv)) w)
     }"

section \<open>The command\<close>

text \<open>The sub-commands; the field for the function of a command holds a state instead.\<close>

definition bootm_sub :: "string \<Rightarrow> int \<Rightarrow> unit cmd_tbl" where
  "bootm_sub nm st = \<lparr>cmd_name = cstr nm, maxargs = 0, repeatable = True, cmd_fun = (\<lambda>_ _ s. (s, st)),
     cmd_is_bootd = False, usage = None\<rparr>"

definition cmd_bootm_sub :: "unit cmd_tbl list" where
  "cmd_bootm_sub = [bootm_sub ''start'' 0x1, bootm_sub ''loados'' 0x2, bootm_sub ''cmdline'' 0x10,
     bootm_sub ''bdt'' 0x20, bootm_sub ''prep'' 0x40, bootm_sub ''go'' 0x80]"

definition sub_state :: "u8 list \<Rightarrow> int option" where
  "sub_state nm = map_option (\<lambda>c. snd (cmd_fun c 0 [] ())) (find_cmd_tbl nm cmd_bootm_sub)"

definition reserve_os :: "u32 \<Rightarrow> boot_world \<Rightarrow> boot_world" where
  "reserve_os load_end w =
     w\<lparr>images := (images w)\<lparr>images_lmb := fst (lmb_reserve (images_lmb (images w)) (os_load (os_info (images w)))
        (load_end - os_load (os_info (images w))))\<rparr>\<rparr>"

definition do_bootm_subcommand :: "board \<Rightarrow> boot_world \<Rightarrow> u8 list list \<Rightarrow> (int \<times> boot_world) option" where
  "do_bootm_subcommand B w argv =
     (case sub_state (argv ! 1) of
        None \<Rightarrow> Some (1, w)
      | Some st \<Rightarrow>
          if st = 1 then bootm_start B w (tl argv)
          else if st \<le> bootm_state (images w) then Some (1, w)
          else
            (let w = w\<lparr>images := (images w)\<lparr>bootm_state := or (bootm_state (images w)) st\<rparr>\<rparr>
             in do {
               fn \<leftarrow> boot_os (os_os (os_info (images w)));
               if st = 2 then do {
                 (ret, load_end, m) \<leftarrow> bootm_load_os B (wmem w) (os_info (images w)) 0;
                 if ret \<noteq> 0 then Some (ret, w\<lparr>wmem := m\<rparr>) else Some (0, reserve_os load_end (w\<lparr>wmem := m\<rparr>))
               }
               else do {
                 f \<leftarrow> fn;
                 if st = BOOTM_STATE_OS_GO then do {
                   (ret, w) \<leftarrow> f B st argv (w\<lparr>interrupts := False\<rparr>);
                   Some (0, w)
                 }
                 else f B st argv w
               }
             }))"

definition do_bootm :: "board \<Rightarrow> boot_world \<Rightarrow> u8 list list \<Rightarrow> (boot_out \<times> boot_world) option" where
  "do_bootm B w argv =
     (if 1 < length argv \<and> peek (snd (simple_strtoul (argv ! 1) 16)) \<notin> {0, chr8 CHR '':'', chr8 CHR ''#''}
      then map_option (\<lambda>(r, w). (Ret r, w)) (do_bootm_subcommand B w argv)
      else do {
        (r, w) \<leftarrow> bootm_start B w argv;
        if r \<noteq> 0 then Some (Ret 1, w)
        else do {
          let iflag = interrupts w;
          let w = usb_stop (w\<lparr>interrupts := False\<rparr>);
          (ret, load_end, m) \<leftarrow> bootm_load_os B (wmem w) (os_info (images w)) 0;
          let w = w\<lparr>wmem := m\<rparr>;
          if ret = BOOTM_ERR_RESET \<or> ret = BOOTM_ERR_OVERLAP \<and> \<not> legacy_hdr_valid (images w) then Some (BoardReset, w)
          else if ret = BOOTM_ERR_UNIMPLEMENTED then Some (Ret 1, w\<lparr>interrupts := iflag\<rparr>)
          else do {
            let w = reserve_os load_end w;
            if os_type (os_info (images w)) = IH_TYPE_STANDALONE then do {
              (r, w) \<leftarrow> bootm_start_standalone B argv (w\<lparr>interrupts := iflag\<rparr>);
              Some (Ret 0, w)
            }
            else do {
              fn \<leftarrow> boot_os (os_os (os_info (images w)));
              (case fn of
                 None \<Rightarrow> Some (Ret 1, w\<lparr>interrupts := iflag\<rparr>)
               | Some f \<Rightarrow> do { (r, w) \<leftarrow> f B 0 argv w; Some (BoardReset, w) })
            }
          }
        }
      })"

end
