(* ===== verification/Tags.thy ===== *)
theory Tags
  imports Bootm
begin

text \<open>
  The list of tags that tells a Linux kernel about the board: what a reader of the list finds behind the
  code of \<open>lib_arm/bootm.c\<close> that writes it.
\<close>

section \<open>Reading the list\<close>

datatype tag =
    TagCore u32 u32 u32
  | TagMem u32 u32
  | TagCmdline "u8 list"
  | TagInitrd u32 u32
  | TagOther u32

definition tag_words :: "u32 \<Rightarrow> nat" where
  "tag_words code = (if code = ATAG_CORE then 5 else if code = ATAG_MEM \<or> code = ATAG_INITRD2 then 4 else 2)"

definition read_tag :: "mem \<Rightarrow> nat \<Rightarrow> tag" where
  "read_tag m p =
     (let code = load32 m (p + 4)
      in if code = ATAG_CORE then TagCore (load32 m (p + 8)) (load32 m (p + 12)) (load32 m (p + 16))
         else if code = ATAG_MEM then TagMem (load32 m (p + 8)) (load32 m (p + 12))
         else if code = ATAG_INITRD2 then TagInitrd (load32 m (p + 8)) (load32 m (p + 12))
         else if code = ATAG_CMDLINE then TagCmdline (takeWhile (\<lambda>c. c \<noteq> 0) (read_bytes m (p + 8) (4 * unat (load32 m p) - 8)))
         else TagOther code)"

text \<open>As the kernel walks it: up to a tag of size 0. The bound is on the number of tags.\<close>

fun parse_tags :: "nat \<Rightarrow> mem \<Rightarrow> nat \<Rightarrow> tag list option" where
  "parse_tags 0 m p = None"
| "parse_tags (Suc n) m p =
     (let words = unat (load32 m p)
      in if words = 0 then Some []
         else if words < tag_words (load32 m (p + 4)) then None
         else map_option (\<lambda>ts. read_tag m p # ts) (parse_tags n m (p + 4 * words)))"

text \<open>The tags that lie from one address up to another.\<close>

fun tags_in :: "mem \<Rightarrow> nat \<Rightarrow> tag list \<Rightarrow> nat \<Rightarrow> bool" where
  "tags_in m p [] q \<longleftrightarrow> p = q"
| "tags_in m p (t # ts) q \<longleftrightarrow> tag_words (load32 m (p + 4)) \<le> unat (load32 m p) \<and> read_tag m p = t \<and>
     tags_in m (p + 4 * unat (load32 m p)) ts q"

lemma tag_words_ge: "2 \<le> tag_words c"
  by (simp add: tag_words_def)

lemma tags_in_le: "tags_in m p ts q \<Longrightarrow> p \<le> q"
  by (induction ts arbitrary: p) fastforce+

lemma load32_cong: "(\<And>x. p \<le> x \<Longrightarrow> x < p + 4 \<Longrightarrow> m x = m' x) \<Longrightarrow> load32 m p = load32 m' p"
  by (simp add: load32_def)

lemma read_tag_cong:
  assumes "\<And>x. p \<le> x \<Longrightarrow> x < p + 4 * unat (load32 m p) \<Longrightarrow> m x = m' x"
    and "tag_words (load32 m (p + 4)) \<le> unat (load32 m p)"
  shows "read_tag m p = read_tag m' p" and "load32 m p = load32 m' p" and "load32 m (p + 4) = load32 m' (p + 4)"
proof -
  have w: "load32 m (p + 4 * i) = load32 m' (p + 4 * i)" if "i < unat (load32 m p)" for i
    using that by (intro load32_cong assms(1)) simp_all
  have two: "2 \<le> unat (load32 m p)"
    using assms(2) tag_words_ge le_trans by blast
  from w [of 0] w [of 1] two show e: "load32 m p = load32 m' p" "load32 m (p + 4) = load32 m' (p + 4)"
    by simp_all
  have b: "read_bytes m (p + 8) (4 * unat (load32 m p) - 8) = read_bytes m' (p + 8) (4 * unat (load32 m p) - 8)"
    by (intro read_bytes_cong assms(1)) simp_all
  have f: "load32 m (p + 8) = load32 m' (p + 8)" "load32 m (p + 12) = load32 m' (p + 12)"
    if "4 \<le> unat (load32 m p)"
    using w [of 2] w [of 3] that by simp_all
  have g: "load32 m (p + 16) = load32 m' (p + 16)" if "5 \<le> unat (load32 m p)"
    using w [of 4] that by simp
  show "read_tag m p = read_tag m' p"
    using assms(2) f g b unfolding read_tag_def Let_def e [symmetric] tag_words_def by (auto split: if_splits)
qed

lemma tags_in_cong:
  assumes "tags_in m p ts q" and "\<And>x. p \<le> x \<Longrightarrow> x < q \<Longrightarrow> m x = m' x"
  shows "tags_in m' p ts q"
  using assms
proof (induction ts arbitrary: p)
  case (Cons t ts)
  let ?p = "p + 4 * unat (load32 m p)"
  have q: "?p \<le> q"
    using Cons.prems(1) tags_in_le by auto
  have "tag_words (load32 m (p + 4)) \<le> unat (load32 m p)"
    using Cons.prems(1) by simp
  then have same: "read_tag m p = read_tag m' p" "load32 m p = load32 m' p" "load32 m (p + 4) = load32 m' (p + 4)"
    using read_tag_cong [of p m m'] Cons.prems(2) q by auto
  have "tags_in m' ?p ts q"
    using Cons.prems q by (intro Cons.IH) auto
  then show ?case
    using Cons.prems(1) same by simp
qed simp

lemma tags_in_append: "tags_in m p ts q \<Longrightarrow> tags_in m q us r \<Longrightarrow> tags_in m p (ts @ us) r"
  by (induction ts arbitrary: p) auto

lemma parse_tags_in:
  "tags_in m p ts q \<Longrightarrow> load32 m q = 0 \<Longrightarrow> length ts < n \<Longrightarrow> parse_tags n m p = Some ts"
proof (induction ts arbitrary: p n)
  case Nil
  then show ?case by (cases n) simp_all
next
  case (Cons t ts)
  have "2 \<le> unat (load32 m p)"
    using Cons.prems(1) tag_words_ge [of "load32 m (p + 4)"] by auto
  then show ?case
    using Cons by (cases n) auto
qed

section \<open>Writing it\<close>

lemma load_store_same [simp]: "load32 (store32 m p v) p = v"
proof (rule bit_word_eqI)
  have b: "store32 m p v p = ucast v" "store32 m p v (p + 1) = ucast (drop_bit 8 v)"
    "store32 m p v (p + 2) = ucast (drop_bit 16 v)" "store32 m p v (p + 3) = ucast (drop_bit 24 v)"
    by (simp_all add: store32_def write_bytes_apply word32_bytes_def)
  fix n assume "n < LENGTH(32)"
  then consider "n < 8" | "8 \<le> n" "n < 16" | "16 \<le> n" "n < 24" | "24 \<le> n" "n < 32" by fastforce
  then show "bit (load32 (store32 m p v) p) n = bit v n"
    unfolding load32_def b by cases (auto simp: bit_simps)
qed

lemma load_store_other [simp]: "p + 4 \<le> q \<or> q + 4 \<le> p \<Longrightarrow> load32 (store32 m p v) q = load32 m q"
  by (intro load32_cong) (auto simp: store32_def intro!: write_bytes_outside)

lemma store_outside [simp]: "x < p \<or> p + 4 \<le> x \<Longrightarrow> store32 m p v x = m x"
  by (simp add: store32_def)

lemma load_set_word:
  "load32 (set_word p i v m) (unat p + 4 * j) = (if i = j then v else load32 m (unat p + 4 * j))"
  by (auto simp: set_word_def nat_neq_iff)

lemma set_word_outside: "x < unat p + 4 * i \<or> unat p + 4 * i + 4 \<le> x \<Longrightarrow> set_word p i v m x = m x"
  by (simp add: set_word_def)

lemma load_set [simp]:
  "load32 (set_word p i v m) (unat p) = (if i = 0 then v else load32 m (unat p))"
  "load32 (set_word p i v m) (unat p + 4) = (if i = 1 then v else load32 m (unat p + 4))"
  "load32 (set_word p i v m) (unat p + 8) = (if i = 2 then v else load32 m (unat p + 8))"
  "load32 (set_word p i v m) (unat p + 12) = (if i = 3 then v else load32 m (unat p + 12))"
  "load32 (set_word p i v m) (unat p + 16) = (if i = 4 then v else load32 m (unat p + 16))"
  using load_set_word [of p i v m 0] load_set_word [of p i v m 1] load_set_word [of p i v m 2]
    load_set_word [of p i v m 3] load_set_word [of p i v m 4] by simp_all

text \<open>One step of the writer: a tag is added and nothing before or behind it changes.\<close>

definition adds_tag :: "tag \<Rightarrow> nat \<Rightarrow> mem \<times> u32 \<Rightarrow> mem \<times> u32 \<Rightarrow> bool" where
  "adds_tag t k st st' \<longleftrightarrow> unat (snd st') = unat (snd st) + 4 * k \<and>
     tags_in (fst st') (unat (snd st)) [t] (unat (snd st')) \<and>
     (\<forall>x. x < unat (snd st) \<or> unat (snd st) + 4 * k \<le> x \<longrightarrow> fst st' x = fst st x)"

lemma adds_tagI:
  assumes "load32 m' (unat p) = of_nat k" and "tag_words (load32 m' (unat p + 4)) \<le> k"
    and "read_tag m' (unat p) = t" and "unat p + 4 * k < 2 ^ 32"
    and "\<And>x. x < unat p \<or> unat p + 4 * k \<le> x \<Longrightarrow> m' x = m x"
  shows "adds_tag t k (m, p) (m', tag_next m' p)"
proof -
  have k: "unat (of_nat k :: u32) = k"
    using assms(4) by (simp add: unat_of_nat)
  have "tag_next m' p = p + of_nat (4 * k)"
    by (simp add: tag_next_def assms(1))
  then have "unat (tag_next m' p) = unat p + 4 * k"
    using assms(4) by (simp only: unat_word_ariths unat_of_nat) simp
  then show ?thesis
    using assms k unfolding adds_tag_def fst_conv snd_conv tags_in.simps assms(1) k by simp
qed

lemma core_tag:
  assumes "unat (bi_boot_params b) + 20 < 2 ^ 32"
  shows "adds_tag (TagCore 0 0 0) 5 (m, bi_boot_params b) (setup_start_tag b m)"
  using assms unfolding setup_start_tag_def Let_def
  by (intro adds_tagI)
    (auto simp: read_tag_def tag_words_def set_word_outside)

lemma tag_codes [simp]:
  "ATAG_MEM \<noteq> ATAG_CORE" "ATAG_INITRD2 \<noteq> ATAG_CORE" "ATAG_INITRD2 \<noteq> ATAG_MEM" "ATAG_CMDLINE \<noteq> ATAG_CORE"
  "ATAG_CMDLINE \<noteq> ATAG_MEM" "ATAG_CMDLINE \<noteq> ATAG_INITRD2"
  by (simp_all add: ATAG_CORE_def ATAG_MEM_def ATAG_INITRD2_def ATAG_CMDLINE_def)

lemma memory_tag:
  assumes "unat p + 16 < 2 ^ 32"
  shows "adds_tag (TagMem (dram_size b) (dram_start b)) 4 (m, p) (setup_memory_tags b (m, p))"
  using assms unfolding setup_memory_tags_def Let_def prod.case
  by (intro adds_tagI)
    (auto simp: read_tag_def tag_words_def set_word_outside)

lemma initrd_tag:
  assumes "unat p + 16 < 2 ^ 32"
  shows "adds_tag (TagInitrd rs (re - rs)) 4 (m, p) (setup_initrd_tag rs re (m, p))"
  using assms unfolding setup_initrd_tag_def Let_def prod.case
  by (intro adds_tagI)
    (auto simp: read_tag_def tag_words_def set_word_outside)

definition cmdline_words :: "u8 list \<Rightarrow> nat" where
  "cmdline_words s = (8 + length s + 1 + 4) div 4"

lemma load32_write_above: "p + 4 \<le> q \<Longrightarrow> load32 (write_bytes m q bs) p = load32 m p"
  by (intro load32_cong write_bytes_outside) simp

lemma read_string:
  assumes "0 \<notin> set s" and "length s < n"
  shows "takeWhile (\<lambda>c. c \<noteq> 0) (read_bytes (write_bytes m p (s @ [0])) p n) = s"
proof -
  have "read_bytes (write_bytes m p (s @ [0])) p n = (s @ [0]) @ read_bytes (write_bytes m p (s @ [0])) (p + length (s @ [0])) (n - length (s @ [0]))"
    using assms(2) read_write_same [of m p "s @ [0]"]
      read_bytes_add [of "write_bytes m p (s @ [0])" p "length (s @ [0])" "n - length (s @ [0])"] by simp
  then show ?thesis
    using assms(1) by (simp add: takeWhile_append)
qed

lemma commandline_tag:
  assumes "0 \<notin> set c" and "s = dropWhile (\<lambda>x. x = chr8 CHR '' '') c" and "s \<noteq> []"
    and "unat p + 4 * cmdline_words s < 2 ^ 32"
  shows "adds_tag (TagCmdline s) (cmdline_words s) (m, p) (setup_commandline_tag (Some c) (m, p))"
proof -
  let ?k = "cmdline_words s"
  define m1 where "m1 = set_word p 0 (of_nat ?k) (set_word p 1 ATAG_CMDLINE m)"
  define m2 where "m2 = write_bytes m1 (unat p + 8) (s @ [0])"
  have st: "setup_commandline_tag (Some c) (m, p) = (m2, tag_next m2 p)"
    unfolding setup_commandline_tag_def option.case prod.case Let_def assms(2) [symmetric] m2_def m1_def cmdline_words_def
    using assms(3) by simp
  have k: "unat (of_nat ?k :: u32) = ?k"
    using assms(4) by (simp add: unat_of_nat)
  have room: "length s < 4 * ?k - 8" "2 \<le> ?k" "8 + length s + 1 \<le> 4 * ?k"
    unfolding cmdline_words_def by presburger+
  have s0: "0 \<notin> set s"
    using assms(1) set_dropWhileD by (fastforce simp: assms(2))
  have h: "load32 m2 (unat p) = of_nat ?k" "load32 m2 (unat p + 4) = ATAG_CMDLINE"
    by (simp_all add: m2_def load32_write_above m1_def)
  show ?thesis
    unfolding st
  proof (rule adds_tagI [OF h(1)])
    show "tag_words (load32 m2 (unat p + 4)) \<le> ?k"
      using room by (simp only: h(2)) (simp add: tag_words_def)
    show "read_tag m2 (unat p) = TagCmdline s"
      using read_string [OF s0 room(1), of m1 "unat p + 8"] unfolding read_tag_def h k Let_def by (simp add: m2_def)
    show "unat p + 4 * ?k < 2 ^ 32" by (rule assms(4))
    fix x assume "x < unat p \<or> unat p + 4 * ?k \<le> x"
    then show "m2 x = m x"
      using room by (auto simp: m2_def m1_def set_word_outside)
  qed
qed

section \<open>The whole list\<close>

definition cmdline_tags :: "u8 list option \<Rightarrow> (tag \<times> nat) list" where
  "cmdline_tags commandline =
     (case commandline of
        None \<Rightarrow> []
      | Some c \<Rightarrow> let s = dropWhile (\<lambda>x. x = chr8 CHR '' '') c in if s = [] then [] else [(TagCmdline s, cmdline_words s)])"

definition board_tags :: "bd \<Rightarrow> u8 list option \<Rightarrow> u32 \<Rightarrow> u32 \<Rightarrow> (tag \<times> nat) list" where
  "board_tags b commandline rs re = [(TagCore 0 0 0, 5), (TagMem (dram_size b) (dram_start b), 4)] @ cmdline_tags commandline @
     (if rs \<noteq> 0 \<and> re \<noteq> 0 then [(TagInitrd rs (re - rs), 4)] else [])"

text \<open>The bytes of the tags and of the end mark.\<close>

definition tags_room :: "(tag \<times> nat) list \<Rightarrow> nat" where
  "tags_room ts = 4 * sum_list (map snd ts) + 8"

definition built :: "nat \<Rightarrow> mem \<Rightarrow> (tag \<times> nat) list \<Rightarrow> mem \<times> u32 \<Rightarrow> bool" where
  "built P m ts st \<longleftrightarrow> tags_in (fst st) P (map fst ts) (unat (snd st)) \<and> unat (snd st) = P + 4 * sum_list (map snd ts) \<and>
     (\<forall>x. x < P \<or> unat (snd st) \<le> x \<longrightarrow> fst st x = m x)"

lemma built_step:
  assumes "built P m ts st" and "adds_tag t k st st'"
  shows "built P m (ts @ [(t, k)]) st'"
proof -
  have old: "tags_in (fst st) P (map fst ts) (unat (snd st))" "unat (snd st) = P + 4 * sum_list (map snd ts)"
    "\<And>x. x < P \<or> unat (snd st) \<le> x \<Longrightarrow> fst st x = m x"
    using assms(1) unfolding built_def by blast+
  have new: "tags_in (fst st') (unat (snd st)) [t] (unat (snd st'))" "unat (snd st') = unat (snd st) + 4 * k"
    "\<And>x. x < unat (snd st) \<or> unat (snd st) + 4 * k \<le> x \<Longrightarrow> fst st' x = fst st x"
    using assms(2) unfolding adds_tag_def by blast+
  have "tags_in (fst st') P (map fst ts) (unat (snd st))"
    by (rule tags_in_cong [OF old(1)]) (simp add: new(3))
  from tags_in_append [OF this new(1)]
  have "tags_in (fst st') P (map fst (ts @ [(t, k)])) (unat (snd st'))"
    by simp
  moreover have "fst st' x = m x" if "x < P \<or> unat (snd st') \<le> x" for x
  proof -
    have "x < unat (snd st) \<or> unat (snd st) + 4 * k \<le> x" "x < P \<or> unat (snd st) \<le> x"
      using that old(2) new(2) by linarith+
    then show ?thesis by (simp only: new(3) old(3))
  qed
  ultimately show ?thesis
    using old(2) new(2) by (simp add: built_def)
qed

lemma built_tags:
  assumes "\<And>c. commandline = Some c \<Longrightarrow> 0 \<notin> set c"
    and "unat (bi_boot_params b) + tags_room (board_tags b commandline rs re) < 2 ^ 32"
  obtains m' p where "setup_tags b commandline rs re m = setup_end_tag (m', p)"
    and "built (unat (bi_boot_params b)) m (board_tags b commandline rs re) (m', p)"
proof -
  let ?P = "unat (bi_boot_params b)"
  obtain m1 p1 where 1: "setup_start_tag b m = (m1, p1)" by fastforce
  have "built ?P m [] (m, bi_boot_params b)"
    by (simp add: built_def)
  then have b1: "built ?P m [(TagCore 0 0 0, 5)] (m1, p1)"
    using built_step core_tag [of b m] assms(2) unfolding 1 by (fastforce simp: tags_room_def board_tags_def)
  obtain m2 p2 where 2: "setup_memory_tags b (m1, p1) = (m2, p2)" by fastforce
  have "unat p1 + 16 < 2 ^ 32"
    using b1 assms(2) by (simp add: built_def tags_room_def board_tags_def)
  from built_step [OF b1 memory_tag [OF this, of b m1, unfolded 2]]
  have b2: "built ?P m [(TagCore 0 0 0, 5), (TagMem (dram_size b) (dram_start b), 4)] (m2, p2)"
    by simp
  obtain m3 p3 where 3: "setup_commandline_tag commandline (m2, p2) = (m3, p3)" by fastforce
  have b3: "built ?P m ([(TagCore 0 0 0, 5), (TagMem (dram_size b) (dram_start b), 4)] @ cmdline_tags commandline) (m3, p3)"
  proof (cases "cmdline_tags commandline")
    case Nil
    then have "(m3, p3) = (m2, p2)"
      using 3 by (auto simp: cmdline_tags_def setup_commandline_tag_def Let_def split: option.splits if_splits)
    then show ?thesis using b2 Nil by simp
  next
    case (Cons a as)
    then obtain c s where c: "commandline = Some c" "s = dropWhile (\<lambda>x. x = chr8 CHR '' '') c" "s \<noteq> []"
      "cmdline_tags commandline = [(TagCmdline s, cmdline_words s)]"
      by (auto simp: cmdline_tags_def Let_def split: option.splits if_splits)
    have "unat p2 + 4 * cmdline_words s < 2 ^ 32"
      using b2 assms(2) c(4) by (simp add: built_def tags_room_def board_tags_def)
    from built_step [OF b2 commandline_tag [OF assms(1) [OF c(1)] c(2,3) this, folded c(1), unfolded 3]]
    show ?thesis using c(4) 3 by simp
  qed
  let ?ts = "board_tags b commandline rs re"
  obtain m4 p4 where 4: "(if rs \<noteq> 0 \<and> re \<noteq> 0 then setup_initrd_tag rs re (m3, p3) else (m3, p3)) = (m4, p4)" by fastforce
  have "built ?P m ?ts (m4, p4)"
  proof (cases "rs \<noteq> 0 \<and> re \<noteq> 0")
    case True
    have "unat p3 + 16 < 2 ^ 32"
      using b3 assms(2) True by (simp add: built_def tags_room_def board_tags_def)
    from built_step [OF b3 initrd_tag [OF this, of rs re]] True 4 show ?thesis
      by (simp add: board_tags_def)
  next
    case False
    then show ?thesis using b3 4 by (auto simp: board_tags_def)
  qed
  moreover have "setup_tags b commandline rs re m = setup_end_tag (m4, p4)"
    using 4 by (simp add: setup_tags_def 1 2 3 Let_def)
  ultimately show thesis
    by (intro that)
qed

lemma tags_parse:
  assumes "\<And>c. commandline = Some c \<Longrightarrow> 0 \<notin> set c"
    and "unat (bi_boot_params b) + tags_room (board_tags b commandline rs re) < 2 ^ 32"
  shows "parse_tags 5 (setup_tags b commandline rs re m) (unat (bi_boot_params b)) = Some (map fst (board_tags b commandline rs re))"
    and "x < unat (bi_boot_params b) \<or> unat (bi_boot_params b) + tags_room (board_tags b commandline rs re) \<le> x \<Longrightarrow>
      setup_tags b commandline rs re m x = m x"
proof -
  obtain m' p where st: "setup_tags b commandline rs re m = setup_end_tag (m', p)"
    and bu: "built (unat (bi_boot_params b)) m (board_tags b commandline rs re) (m', p)"
    using built_tags [OF assms] by blast
  have e: "setup_end_tag (m', p) = set_word p 0 0 (set_word p 1 ATAG_NONE m')"
    by (simp add: setup_end_tag_def)
  have "tags_in (setup_end_tag (m', p)) (unat (bi_boot_params b)) (map fst (board_tags b commandline rs re)) (unat p)"
  proof (rule tags_in_cong)
    show "tags_in m' (unat (bi_boot_params b)) (map fst (board_tags b commandline rs re)) (unat p)"
      using bu unfolding built_def fst_conv snd_conv by blast
  qed (simp add: e set_word_outside)
  moreover have "load32 (setup_end_tag (m', p)) (unat p) = 0"
    by (simp add: e)
  moreover have "length (map fst (board_tags b commandline rs re)) < 5"
    by (simp add: board_tags_def cmdline_tags_def Let_def split: option.splits)
  ultimately show "parse_tags 5 (setup_tags b commandline rs re m) (unat (bi_boot_params b)) = Some (map fst (board_tags b commandline rs re))"
    unfolding st by (rule parse_tags_in)
  assume "x < unat (bi_boot_params b) \<or> unat (bi_boot_params b) + tags_room (board_tags b commandline rs re) \<le> x"
  then have "x < unat p \<or> unat p + 8 \<le> x" "x < unat (bi_boot_params b) \<or> unat p \<le> x"
    using bu by (auto simp: built_def tags_room_def)
  then show "setup_tags b commandline rs re m x = m x"
    using bu unfolding st e built_def fst_conv snd_conv by (auto simp: set_word_outside)
qed

end
