(* ===== verification/Mkimage.thy ===== *)
theory Mkimage
  imports Image
begin

text \<open>
  The host tool that makes the images (\<open>tools/mkimage.c\<close>, \<open>tools/default_image.c\<close>), for the default
  image types. Files are lists of bytes, a result \<open>None\<close> is an exit with a failure; reading the options
  and the files themselves is left out, as are FIT and Kirkwood images.
\<close>

section \<open>Making an image\<close>

record mkimage_params =
  eflag :: bool
  xflag :: bool
  par_os :: int
  par_arch :: int
  par_type :: int
  par_comp :: int
  par_addr :: u32
  par_ep :: u32
  imagename :: "u8 list"

definition image_check_image_types :: "u8 \<Rightarrow> bool" where
  "image_check_image_types t \<longleftrightarrow> 0 < t \<and> t < 8"

text \<open>The bytes written for a data file; an empty file cannot be mapped.\<close>

definition copy_file :: "mkimage_params \<Rightarrow> u8 list \<Rightarrow> bool \<Rightarrow> u8 list option" where
  "copy_file p data pad =
     (if data = [] then None
      else if xflag p \<and> (length data < 64 \<or> list_ex (\<lambda>b. b \<noteq> 0xff) (take 64 data)) then None
      else
        (let offset = (if xflag p then 64 else 0);
             sz = length data - offset;
             tail = sz mod 4
         in Some (drop offset data @ (if pad \<and> tail \<noteq> 0 then replicate (4 - tail) 0 else []))))"

fun copy_files :: "mkimage_params \<Rightarrow> u8 list list \<Rightarrow> u8 list option" where
  "copy_files p [] = Some []"
| "copy_files p [d] = copy_file p d False"
| "copy_files p (d # e # ds) =
     do { a \<leftarrow> copy_file p d True; b \<leftarrow> copy_files p (e # ds); Some (a @ b) }"

definition size_table :: "u8 list list \<Rightarrow> u8 list" where
  "size_table files = concat (map (\<lambda>d. cpu_to_uimage (of_nat (length d))) files) @ cpu_to_uimage 0"

definition image_set_header :: "mkimage_params \<Rightarrow> u32 \<Rightarrow> u8 list \<Rightarrow> u8 list" where
  "image_set_header p mtime f =
     (let checksum = crc32 0 (drop 64 f);
          h = image_header_of (take 64 f);
          h = h\<lparr>ih_magic := IH_MAGIC, ih_time := mtime, ih_size := of_nat (length f - 64), ih_load := par_addr p,
                ih_ep := par_ep p, ih_dcrc := checksum, ih_os := of_int (par_os p), ih_arch := of_int (par_arch p),
                ih_type := of_int (par_type p), ih_comp := of_int (par_comp p),
                ih_name := take 32 (imagename p @ replicate 32 0)\<rparr>;
          checksum = crc32 0 (image_header_bytes h)
      in image_header_bytes (h\<lparr>ih_hcrc := checksum\<rparr>) @ drop 64 f)"

text \<open>
  An option that names a code takes it from the table of the names; another name ends the tool. Without
  the option \<open>-d\<close> (no files) the tool fails or crashes.
\<close>

definition option_code :: "table_entry list \<Rightarrow> int \<Rightarrow> bool" where
  "option_code table c \<longleftrightarrow> list_ex (\<lambda>(j, sname, lname). j = c \<and> 0 \<le> c \<and> sname \<noteq> None) table"

definition mkimage_options :: "mkimage_params \<Rightarrow> bool" where
  "mkimage_options p \<longleftrightarrow> option_code uimage_os (par_os p) \<and> option_code uimage_arch (par_arch p) \<and>
     option_code uimage_type (par_type p) \<and> option_code uimage_comp (par_comp p)"

text \<open>The image file for the data files of the option \<open>-d\<close>.\<close>

definition mkimage :: "mkimage_params \<Rightarrow> u8 list list \<Rightarrow> u32 \<Rightarrow> u8 list option" where
  "mkimage p files mtime =
     (if \<not> mkimage_options p \<or> files = [] then None
      else if \<not> image_check_image_types (of_int (par_type p)) then None
      else
        (let p = (if eflag p then p else p\<lparr>par_ep := par_addr p + (if xflag p then 64 else 0)\<rparr>)
         in if xflag p \<and> par_ep p \<noteq> par_addr p + 64 then None
            else do {
              body \<leftarrow> (if par_type p = uint IH_TYPE_MULTI \<or> par_type p = uint IH_TYPE_SCRIPT
                      then map_option (\<lambda>b. size_table files @ b) (copy_files p files)
                      else copy_file p (hd files) False);
              Some (image_set_header p mtime (replicate 64 0 @ body))
            }))"

text \<open>The check of an existing file that \<open>mkimage -l\<close> makes.\<close>

definition image_verify_header :: "u8 list \<Rightarrow> int" where
  "image_verify_header f =
     (let h = image_header_of (take 64 f)
      in if ih_magic h \<noteq> IH_MAGIC then -9
         else if crc32 0 (image_header_bytes (h\<lparr>ih_hcrc := 0\<rparr>)) \<noteq> ih_hcrc h then -7
         else if crc32 0 (drop 64 f) \<noteq> ih_dcrc h then -11
         else 0)"

section \<open>Headers and bytes\<close>

lemma length_header_bytes: "length (ih_name h) = 32 \<Longrightarrow> length (image_header_bytes h) = 64"
  by (simp add: image_header_bytes_def)

lemma bytes_header:
  assumes "length b = 64"
  shows "image_header_bytes (image_header_of b) = b"
proof -
  have take4: "cpu_to_uimage (uimage_to_cpu (drop k b)) = take 4 (drop k b)" if "k \<le> 60" for k
    using that assms by (intro cpu_round) simp
  have four: "[b ! 28, b ! 29, b ! 30, b ! 31] = take 4 (drop 28 b)"
    using assms by (simp add: numeral_eq_Suc take_Suc_conv_app_nth)
  have join: "take 4 (drop k b) @ drop (k + 4) b = drop k b" for k
    by (metis append_take_drop_id drop_drop add.commute)
  have t: "cpu_to_uimage (uimage_to_cpu (drop 0 b)) = take 4 (drop 0 b)"
    "cpu_to_uimage (uimage_to_cpu (drop 4 b)) = take 4 (drop 4 b)"
    "cpu_to_uimage (uimage_to_cpu (drop 8 b)) = take 4 (drop 8 b)"
    "cpu_to_uimage (uimage_to_cpu (drop 12 b)) = take 4 (drop 12 b)"
    "cpu_to_uimage (uimage_to_cpu (drop 16 b)) = take 4 (drop 16 b)"
    "cpu_to_uimage (uimage_to_cpu (drop 20 b)) = take 4 (drop 20 b)"
    "cpu_to_uimage (uimage_to_cpu (drop 24 b)) = take 4 (drop 24 b)"
    by (rule take4; simp)+
  have "image_header_bytes (image_header_of b) =
      take 4 (drop 0 b) @ take 4 (drop 4 b) @ take 4 (drop 8 b) @ take 4 (drop 12 b) @ take 4 (drop 16 b) @
      take 4 (drop 20 b) @ take 4 (drop 24 b) @ take 4 (drop 28 b) @ drop 32 b"
    unfolding image_header_bytes_def image_header_of_def image_header.simps t four by (rule refl)
  also have "\<dots> = b"
    using join [of 0] join [of 4] join [of 8] join [of 12] join [of 16] join [of 20] join [of 24] join [of 28]
    by simp
  finally show ?thesis .
qed

lemma header_bytes:
  assumes "length (ih_name h) = 32"
  shows "image_header_of (image_header_bytes h) = h"
proof -
  let ?b = "image_header_bytes h"
  have d: "drop 0 ?b = cpu_to_uimage (ih_magic h) @ drop 4 ?b" "drop 4 ?b = cpu_to_uimage (ih_hcrc h) @ drop 8 ?b"
    "drop 8 ?b = cpu_to_uimage (ih_time h) @ drop 12 ?b" "drop 12 ?b = cpu_to_uimage (ih_size h) @ drop 16 ?b"
    "drop 16 ?b = cpu_to_uimage (ih_load h) @ drop 20 ?b" "drop 20 ?b = cpu_to_uimage (ih_ep h) @ drop 24 ?b"
    "drop 24 ?b = cpu_to_uimage (ih_dcrc h) @ drop 28 ?b"
    by (simp_all add: image_header_bytes_def cpu_to_uimage_def)
  have n: "?b ! 28 = ih_os h" "?b ! 29 = ih_arch h" "?b ! 30 = ih_type h" "?b ! 31 = ih_comp h"
    "drop 32 ?b = ih_name h"
    by (simp_all add: image_header_bytes_def cpu_to_uimage_def)
  have u: "uimage_to_cpu (drop 0 ?b) = ih_magic h" "uimage_to_cpu (drop 4 ?b) = ih_hcrc h"
    "uimage_to_cpu (drop 8 ?b) = ih_time h" "uimage_to_cpu (drop 12 ?b) = ih_size h"
    "uimage_to_cpu (drop 16 ?b) = ih_load h" "uimage_to_cpu (drop 20 ?b) = ih_ep h"
    "uimage_to_cpu (drop 24 ?b) = ih_dcrc h"
    by (simp_all only: d uimage_round)
  show ?thesis
    unfolding image_header_of_def u n by (cases h) simp
qed

section \<open>What an image looks like\<close>

text \<open>A header whose checksums are right for the data behind it.\<close>

definition sealed_header :: "image_header \<Rightarrow> u8 list \<Rightarrow> bool" where
  "sealed_header h body \<longleftrightarrow> length (ih_name h) = 32 \<and> ih_magic h = IH_MAGIC \<and> ih_size h = of_nat (length body) \<and>
     ih_dcrc h = crc32 0 body \<and> ih_hcrc h = crc32 0 (image_header_bytes (h\<lparr>ih_hcrc := 0\<rparr>))"

definition entry_point :: "mkimage_params \<Rightarrow> u32" where
  "entry_point p = (if eflag p then par_ep p else par_addr p + (if xflag p then 64 else 0))"

text \<open>The fields an image takes from the options.\<close>

definition header_of_params :: "mkimage_params \<Rightarrow> image_header \<Rightarrow> bool" where
  "header_of_params p h \<longleftrightarrow> ih_load h = par_addr p \<and> ih_ep h = entry_point p \<and> ih_os h = of_int (par_os p) \<and>
     ih_arch h = of_int (par_arch p) \<and> ih_type h = of_int (par_type p) \<and> ih_comp h = of_int (par_comp p) \<and>
     ih_name h = take 32 (imagename p @ replicate 32 0)"

definition is_multi :: "mkimage_params \<Rightarrow> bool" where
  "is_multi p \<longleftrightarrow> par_type p = uint IH_TYPE_MULTI \<or> par_type p = uint IH_TYPE_SCRIPT"

definition image_body :: "mkimage_params \<Rightarrow> u8 list list \<Rightarrow> u8 list option" where
  "image_body p files =
     (if is_multi p then map_option (\<lambda>b. size_table files @ b) (copy_files p files) else copy_file p (hd files) False)"

lemma set_header_sealed:
  assumes "f = replicate 64 0 @ body"
  obtains h where "image_set_header p t f = image_header_bytes h @ body" and "sealed_header h body"
    and "ih_load h = par_addr p" "ih_ep h = par_ep p" "ih_os h = of_int (par_os p)" "ih_arch h = of_int (par_arch p)"
    "ih_type h = of_int (par_type p)" "ih_comp h = of_int (par_comp p)" "ih_name h = take 32 (imagename p @ replicate 32 0)"
    "ih_time h = t"
proof -
  define h0 where "h0 = image_header_of (take 64 f)"
  define h1 where "h1 = h0\<lparr>ih_magic := IH_MAGIC, ih_time := t, ih_size := of_nat (length f - 64), ih_load := par_addr p,
      ih_ep := par_ep p, ih_dcrc := crc32 0 (drop 64 f), ih_os := of_int (par_os p), ih_arch := of_int (par_arch p),
      ih_type := of_int (par_type p), ih_comp := of_int (par_comp p), ih_name := take 32 (imagename p @ replicate 32 0)\<rparr>"
  define h where "h = h1\<lparr>ih_hcrc := crc32 0 (image_header_bytes h1)\<rparr>"
  have set: "image_set_header p t f = image_header_bytes h @ body"
    using assms by (simp add: image_set_header_def h_def h1_def h0_def Let_def)
  have "ih_hcrc h0 = 0"
    using assms by (simp add: h0_def image_header_of_def uimage_to_cpu_def)
  then have "h1 = h\<lparr>ih_hcrc := 0\<rparr>"
    by (simp add: h_def h1_def)
  then have "sealed_header h body"
    using assms by (simp add: sealed_header_def h_def h1_def)
  with set show thesis
    by (rule that) (simp_all add: h_def h1_def)
qed

lemma mkimage_image:
  assumes "mkimage p files t = Some f"
  obtains h body where "f = image_header_bytes h @ body" and "sealed_header h body" and "header_of_params p h"
    and "image_body p files = Some body"
proof -
  define q where "q = (if eflag p then p else p\<lparr>par_ep := par_addr p + (if xflag p then 64 else 0)\<rparr>)"
  have flags: "xflag q = xflag p" "par_type q = par_type p"
    by (simp_all add: q_def)
  have cf: "copy_file q d pad = copy_file p d pad" for d pad
    by (simp only: copy_file_def flags)
  have cfs: "copy_files q ds = copy_files p ds" for ds
    by (induction ds rule: induct_list012) (simp_all add: cf)
  obtain body where body: "image_body p files = Some body" and f: "f = image_set_header q t (replicate 64 0 @ body)"
    using assms unfolding mkimage_def q_def [symmetric] Let_def image_body_def is_multi_def
    by (auto simp: cf cfs flags split: if_splits bind_splits)
  obtain h where h: "image_set_header q t (replicate 64 0 @ body) = image_header_bytes h @ body" "sealed_header h body"
    "ih_load h = par_addr q" "ih_ep h = par_ep q" "ih_os h = of_int (par_os q)" "ih_arch h = of_int (par_arch q)"
    "ih_type h = of_int (par_type q)" "ih_comp h = of_int (par_comp q)" "ih_name h = take 32 (imagename q @ replicate 32 0)"
    by (rule set_header_sealed [OF refl, of q t body])
  have "header_of_params p h"
    using h(3-) by (simp add: header_of_params_def q_def entry_point_def split: if_splits)
  with f h(1,2) body show thesis
    by (intro that) simp_all
qed

text \<open>An image file in memory.\<close>

definition image_in :: "mem \<Rightarrow> u32 \<Rightarrow> u8 list \<Rightarrow> bool" where
  "image_in m a f \<longleftrightarrow> read_bytes m (unat a) (length f) = f \<and> unat a + length f < 2 ^ 32"

lemma image_in_parts:
  assumes "image_in m a (image_header_bytes h @ body)" and "sealed_header h body"
  shows "header_at m a = h" and "unat (image_get_data a) = unat a + 64"
    and "read_bytes m (unat (image_get_data a)) (length body) = body" and "unat (ih_size h) = length body"
    and "unat a + 64 + length body < 2 ^ 32"
proof -
  have n: "length (ih_name h) = 32"
    using assms(2) by (simp add: sealed_header_def)
  note len = length_header_bytes [OF n]
  have all: "read_bytes m (unat a) (64 + length body) = image_header_bytes h @ body"
    and lt: "unat a + 64 + length body < 2 ^ 32"
    using assms(1) by (simp_all add: image_in_def len add.assoc)
  have parts: "read_bytes m (unat a) 64 = image_header_bytes h" "read_bytes m (unat a + 64) (length body) = body"
    using all len by (simp_all add: read_bytes_add)
  show "header_at m a = h"
    by (simp add: header_at_def parts header_bytes n)
  have "unat (image_get_data a) = (unat a + 64) mod 2 ^ 32"
    by (simp add: image_get_data_def image_get_header_size_def unat_word_ariths)
  then show data: "unat (image_get_data a) = unat a + 64"
    using lt by simp
  show "read_bytes m (unat (image_get_data a)) (length body) = body"
    by (simp only: data parts)
  show "unat (ih_size h) = length body"
    using assms(2) lt by (simp add: sealed_header_def unat_of_nat)
  show "unat a + 64 + length body < 2 ^ 32" by (rule lt)
qed

lemma sealed_checks:
  assumes "image_in m a (image_header_bytes h @ body)" and "sealed_header h body"
  shows "image_check_magic (header_at m a)" "image_check_hcrc (header_at m a)" "image_check_dcrc m a"
    "genimg_get_format m a = IMAGE_FORMAT_LEGACY"
proof -
  note parts = image_in_parts [OF assms]
  show "image_check_magic (header_at m a)" "image_check_hcrc (header_at m a)" "genimg_get_format m a = IMAGE_FORMAT_LEGACY"
    using assms(2) by (simp_all add: parts(1) sealed_header_def image_check_magic_def image_check_hcrc_def genimg_get_format_def)
  show "image_check_dcrc m a"
    unfolding image_check_dcrc_def parts(1) crc32_wd_def parts(4) parts(3)
    using assms(2) by (simp add: sealed_header_def)
qed

lemma sealed_verifies: "sealed_header h body \<Longrightarrow> image_verify_header (image_header_bytes h @ body) = 0"
  by (simp add: image_verify_header_def sealed_header_def length_header_bytes header_bytes)

end
