(* ===== verification/Image_Correct.thy ===== *)
theory Image_Correct
  imports Mkimage
begin

text \<open>
  Images as the boot loader reads them against images as the tool makes them: every option is read back,
  each file of a multi-file image is found, damage is noticed, and names stand for their codes.
\<close>

section \<open>The table of sizes\<close>

lemma take_drop_blocks:
  assumes "i < length xs" and "\<And>x. length (g x) = 4"
  shows "take 4 (drop (4 * i) (concat (map g xs) @ r)) = g (xs ! i)"
  using assms(1)
proof (induction xs arbitrary: i)
  case (Cons x xs)
  then show ?case
    by (cases i) (simp_all add: assms(2))
qed simp

definition padded :: "nat \<Rightarrow> nat" where
  "padded n = 4 * ((n + 3) div 4)"

lemma and_not_3: "unat ((x :: u32) AND NOT 3) = 4 * (unat x div 4)"
proof -
  have "x AND NOT (mask 2) = push_bit 2 (drop_bit 2 x)"
    by (rule bit_word_eqI) (auto simp: bit_simps not_less le_imp_diff_is_add simp flip: add_2_eq_Suc')
  moreover have "(mask 2 :: u32) = 3"
    by (simp add: mask_eq_exp_minus_1)
  ultimately have "x AND NOT 3 = push_bit 2 (drop_bit 2 x)"
    by simp
  also have "unat \<dots> = unat x div 4 * 4 mod 2 ^ 32"
    by (simp add: push_bit_eq_mult unat_word_ariths drop_bit_eq_div unat_div_distrib mod_mult_left_eq)
  also have "\<dots> = 4 * (unat x div 4)"
  proof -
    have "unat x < 2 ^ 32"
      using unsigned_less [of x, where 'a = nat] by simp
    then have "unat x div 4 * 4 < 2 ^ 32"
      by (rule le_less_trans [OF div_times_less_eq_dividend])
    then show ?thesis by (simp add: mult.commute)
  qed
  finally show ?thesis .
qed

lemma round_up: "n + 3 < 2 ^ 32 \<Longrightarrow> (of_nat n + 3) AND NOT 3 = (of_nat (padded n) :: u32)"
proof -
  assume n: "n + 3 < 2 ^ 32"
  have "unat (of_nat (n + 3) :: u32) = n + 3"
    using n by (simp only: unat_of_nat) simp
  then have "unat (of_nat (n + 3) AND NOT 3 :: u32) = padded n"
    by (simp only: and_not_3 padded_def)
  then show ?thesis
    using arg_cong [of _ _ "of_nat :: nat \<Rightarrow> u32"] by (metis of_nat_add of_nat_numeral of_nat_unat ucast_id)
qed

lemma copy_files_at:
  assumes "copy_files p ds = Some b" and "\<not> xflag p" and "i < length ds"
  shows "take (length (ds ! i)) (drop (\<Sum>d\<leftarrow>take i ds. padded (length d)) b) = ds ! i" and "ds ! i \<noteq> []"
    and "(\<Sum>d\<leftarrow>take i ds. padded (length d)) + length (ds ! i) \<le> length b"
proof -
  have "take (length (ds ! i)) (drop (\<Sum>d\<leftarrow>take i ds. padded (length d)) b) = ds ! i \<and> ds ! i \<noteq> [] \<and>
      (\<Sum>d\<leftarrow>take i ds. padded (length d)) + length (ds ! i) \<le> length b"
    using assms(1,3)
  proof (induction ds arbitrary: b i rule: induct_list012)
    case (2 d)
    then show ?case
      using assms(2) by (auto simp: copy_file_def split: if_splits)
  next
    case (3 d e ds)
    from 3(3) obtain c r where c: "copy_file p d True = Some c" and r: "copy_files p (e # ds) = Some r" and b: "b = c @ r"
      by (auto split: bind_splits)
    have c': "d \<noteq> []" "\<exists>z. c = d @ z" "length c = padded (length d)"
      using c assms(2) by (auto simp: copy_file_def padded_def Let_def split: if_splits) presburger+
    show ?case
    proof (cases i)
      case 0
      then show ?thesis using c' b by auto
    next
      case (Suc j)
      then show ?thesis using 3(2) [OF r, of j] 3(4) c' b by (auto simp: add.assoc)
    qed
  qed simp
  then show "take (length (ds ! i)) (drop (\<Sum>d\<leftarrow>take i ds. padded (length d)) b) = ds ! i" "ds ! i \<noteq> []"
    "(\<Sum>d\<leftarrow>take i ds. padded (length d)) + length (ds ! i) \<le> length b" by blast+
qed

lemma load32_zero: "load32 m p = 0 \<longleftrightarrow> uimage_to_cpu (read_bytes m p 4) = 0"
proof
  assume "load32 m p = 0"
  then have "read_bytes m p 4 = [0, 0, 0, 0]"
    using word32_bytes_load32 [of m p] by (simp add: word32_bytes_def)
  then show "uimage_to_cpu (read_bytes m p 4) = 0"
    by (simp add: uimage_to_cpu_def)
next
  assume "uimage_to_cpu (read_bytes m p 4) = 0"
  then have "read_bytes m p 4 = [0, 0, 0, 0]"
    using cpu_round [of "read_bytes m p 4"] by (simp add: cpu_to_uimage_def)
  then have "m p = 0" "m (p + 1) = 0" "m (p + 2) = 0" "m (p + 3) = 0"
    by (simp_all add: numeral_eq_Suc)
  then show "load32 m p = 0"
    by (simp add: load32_def)
qed

lemma read_slice:
  assumes "read_bytes m p (length s) = s" and "k + n \<le> length s"
  shows "read_bytes m (p + k) n = take n (drop k s)"
proof (rule nth_equalityI)
  fix i assume "i < length (read_bytes m (p + k) n)"
  then have i: "i < n" by simp
  then have "take n (drop k s) ! i = s ! (k + i)"
    using assms(2) by simp
  also have "\<dots> = read_bytes m p (length s) ! (k + i)"
    by (simp only: assms(1))
  also have "\<dots> = m (p + (k + i))"
    using i assms(2) by (intro nth_read_bytes) simp
  finally show "read_bytes m (p + k) n ! i = take n (drop k s) ! i"
    using i by (simp add: add.assoc)
qed (use assms(2) in simp)

text \<open>The data of a multi-file image at an address of memory.\<close>

definition multi_in :: "mem \<Rightarrow> u32 \<Rightarrow> u8 list list \<Rightarrow> u8 list \<Rightarrow> bool" where
  "multi_in m D ds b \<longleftrightarrow> read_bytes m (unat D) (length (size_table ds @ b)) = size_table ds @ b \<and>
     unat D + length (size_table ds @ b) < 2 ^ 32"

lemma size_table_blocks: "size_table ds = concat (map (\<lambda>n. cpu_to_uimage (of_nat n)) (map length ds @ [0]))"
  by (simp add: size_table_def o_def)

lemma length_size_table [simp]: "length (size_table ds) = 4 * length ds + 4"
  by (induction ds) (simp_all add: size_table_def)

lemma multi_word:
  assumes "multi_in m D ds b" and "i \<le> length ds"
  shows "unat (D + 4 * of_nat i) = unat D + 4 * i"
    and "multi_size m D (of_nat i) = (if i < length ds then of_nat (length (ds ! i)) else 0)"
    and "load32 m (unat (D + 4 * of_nat i)) = 0 \<longleftrightarrow> multi_size m D (of_nat i) = 0"
proof -
  have lt: "unat D + 4 * i < 2 ^ 32"
    using assms by (simp add: multi_in_def)
  have "unat (D + of_nat (4 * i)) = unat D + 4 * i"
    using lt by (simp only: unat_word_ariths unat_of_nat) simp
  then show at: "unat (D + 4 * of_nat i) = unat D + 4 * i"
    by simp
  have "read_bytes m (unat D + 4 * i) 4 = take 4 (drop (4 * i) (size_table ds @ b))"
    using assms by (intro read_slice) (simp_all add: multi_in_def)
  also have "\<dots> = cpu_to_uimage (of_nat ((map length ds @ [0]) ! i))"
    unfolding size_table_blocks using assms(2) by (intro take_drop_blocks) simp_all
  finally have "read_bytes m (unat (D + 4 * of_nat i)) 4 = cpu_to_uimage (of_nat ((map length ds @ [0]) ! i)) @ []"
    by (simp only: at append_Nil2)
  then show "multi_size m D (of_nat i) = (if i < length ds then of_nat (length (ds ! i)) else 0)"
    unfolding multi_size_def by (simp only: uimage_round) (use assms(2) in \<open>simp add: nth_append\<close>)
  show "load32 m (unat (D + 4 * of_nat i)) = 0 \<longleftrightarrow> multi_size m D (of_nat i) = 0"
    by (simp only: load32_zero multi_size_def)
qed

lemma multi_count:
  assumes "multi_in m D ds b" and "\<And>i. i < length ds \<Longrightarrow> (of_nat (length (ds ! i)) :: u32) \<noteq> 0" and "i \<le> length ds"
  shows "multi_count_loop m D (of_nat i) = Some (of_nat (length ds))"
  using assms(3)
proof (induction "length ds - i" arbitrary: i)
  case 0
  then show ?case
    using multi_word [OF assms(1), of i] by (subst multi_count_loop.simps) simp
next
  case (Suc k)
  then have i: "i < length ds" by simp
  have "multi_count_loop m D (of_nat (Suc i)) = Some (of_nat (length ds))"
    using Suc by (intro Suc.hyps(1)) simp_all
  then show ?case
    using multi_word [OF assms(1), of i] assms(2) [OF i] i by (subst multi_count_loop.simps) (simp add: add.commute)
qed

section \<open>The options\<close>

lemma multi_in_table:
  "multi_in m D ds [] \<longleftrightarrow> read_bytes m (unat D) (4 * length ds + 4) = size_table ds \<and> unat D + 4 * length ds + 4 < 2 ^ 32"
  by (auto simp: multi_in_def)

lemma read_table:
  "read_bytes m p (length (size_table ds @ b)) = size_table ds @ b \<Longrightarrow>
   read_bytes m p (4 * length ds + 4) = size_table ds"
  using read_slice [of m p "size_table ds @ b" 0 "4 * length ds + 4"] by simp

lemma copy_file_length: "copy_file p d pad = Some c \<Longrightarrow> d \<noteq> [] \<and> length d \<le> length c + 64"
  by (auto simp: copy_file_def Let_def split: if_splits)

lemma copy_files_lengths: "copy_files p ds = Some b \<Longrightarrow> d \<in> set ds \<Longrightarrow> d \<noteq> [] \<and> length d \<le> length b + 64"
proof (induction ds arbitrary: b rule: induct_list012)
  case (3 x y zs)
  then obtain c r where c: "copy_file p x True = Some c" "copy_files p (y # zs) = Some r" "b = c @ r"
    by (auto split: bind_splits)
  then show ?case
    using copy_file_length [OF c(1)] 3(2) [OF c(2)] 3(4) by fastforce
qed (auto dest: copy_file_length)

text \<open>The size of a file that is part of an image does not wrap around to zero, even with \<open>-x\<close>.\<close>

lemma table_sizes:
  assumes "copy_files p files = Some b" and "72 + length b < 2 ^ 32" and "i < length files"
  shows "(of_nat (length (files ! i)) :: u32) \<noteq> 0"
proof
  assume "(of_nat (length (files ! i)) :: u32) = 0"
  then have "2 ^ 32 dvd length (files ! i)"
    by (simp add: word_of_nat_eq_0_iff)
  moreover have "files ! i \<noteq> [] \<and> length (files ! i) \<le> length b + 64"
    using copy_files_lengths [OF assms(1) nth_mem [OF assms(3)]] .
  ultimately show False
    using assms(2) by (auto dest: dvd_imp_le)
qed

lemma option_type:
  assumes "mkimage p files t = Some f"
  shows "(of_int (par_type p) :: u8) = IH_TYPE_MULTI \<or> (of_int (par_type p) :: u8) = IH_TYPE_SCRIPT \<longleftrightarrow> is_multi p"
proof -
  have "option_code uimage_type (par_type p)"
    using assms by (simp add: mkimage_def mkimage_options_def split: if_splits)
  then have "par_type p \<in> {1, 2, 3, 4, 5, 6, 7, 8, 9}"
    by (simp add: option_code_def uimage_type_def) auto
  then show ?thesis
    by (auto simp: is_multi_def IH_TYPE_MULTI_def IH_TYPE_SCRIPT_def)
qed

text \<open>Printing an image with the header and the size table that the tool wrote ends.\<close>

lemma mkimage_prints:
  assumes made: "mkimage p files t = Some f" and f: "f = image_header_bytes h @ body" and s: "sealed_header h body"
    and hp: "header_of_params p h" and body: "image_body p files = Some body"
    and h: "header_at m a = h" and fit: "unat a + length f < 2 ^ 32"
    and table: "is_multi p \<Longrightarrow> read_bytes m (unat a + 64) (4 * length files + 4) = size_table files"
  shows "image_print_contents m a \<noteq> None"
proof (cases "is_multi p")
  case True
  then obtain b where b: "copy_files p files = Some b" "body = size_table files @ b"
    using body by (auto simp: image_body_def)
  have "files \<noteq> []"
    using made by (auto simp: mkimage_def)
  then have l: "unat a + (4 * length files + 68 + length b) < 2 ^ 32" "1 \<le> length files"
    using fit b(2) s by (simp_all add: f sealed_header_def length_header_bytes Suc_le_eq)
  then have d: "unat (image_get_data a) = unat a + 64"
    by (simp add: image_get_data_def image_get_header_size_def unat_word_ariths)
  have "multi_in m (image_get_data a) files []"
    unfolding multi_in_table d using table [OF True] l(1) by simp
  moreover have "(of_nat (length (files ! i)) :: u32) \<noteq> 0" if "i < length files" for i
    using l by (intro table_sizes [OF b(1) _ that]) linarith
  ultimately have "image_multi_count m a \<noteq> None"
    using multi_count [of m "image_get_data a" files "[]" 0] by (simp add: image_multi_count_def)
  then show ?thesis by (simp add: image_print_contents_ends)
next
  case False
  then show ?thesis
    using option_type [OF made] hp by (auto simp: image_print_contents_ends h header_of_params_def)
qed

lemma image_prints:
  assumes "mkimage p files t = Some f" and "image_in m a f"
  shows "image_print_contents m a \<noteq> None"
proof -
  obtain h body where f: "f = image_header_bytes h @ body" and s: "sealed_header h body"
    and hp: "header_of_params p h" and body: "image_body p files = Some body"
    by (rule mkimage_image [OF assms(1)])
  note parts = image_in_parts [OF assms(2) [unfolded f] s]
  show ?thesis
  proof (rule mkimage_prints [OF assms(1) f s hp body parts(1)])
    show "unat a + length f < 2 ^ 32" using assms(2) by (simp add: image_in_def)
  next
    assume "is_multi p"
    then obtain b where "body = size_table files @ b"
      using body by (auto simp: image_body_def)
    then show "read_bytes m (unat a + 64) (4 * length files + 4) = size_table files"
      using parts(2,3) read_table [of m "unat a + 64" files b] by simp
  qed
qed

lemma sealed_kernel:
  assumes "image_in m a (image_header_bytes h @ body)" and "sealed_header h body" and "image_print_contents m a \<noteq> None"
  shows "image_get_kernel m a v = Some (ih_arch h = IH_ARCH_ARM)"
  using sealed_checks [OF assms(1,2)] image_in_parts(1) [OF assms(1,2)] assms(3)
  by (auto simp: image_get_kernel_def image_check_target_arch_def image_check_arch_def)

lemma sealed_ramdisk:
  assumes "image_in m a (image_header_bytes h @ body)" and "sealed_header h body" and "image_print_contents m a \<noteq> None"
  shows "image_get_ramdisk m a arch v = Some (ih_os h = IH_OS_LINUX \<and> ih_arch h = arch \<and> ih_type h = IH_TYPE_RAMDISK)"
  using sealed_checks [OF assms(1,2)] image_in_parts(1) [OF assms(1,2)] assms(3)
  by (auto simp: image_get_ramdisk_def image_check_os_def image_check_arch_def image_check_type_def)

text \<open>
  C39: an image file that \<open>mkimage\<close> makes passes its own check, and in memory the boot loader's, which
  end; every option and the data are read back from it, and it is a kernel image for this board exactly
  when it was made for the architecture of the board.
\<close>

theorem mkimage_read_back:
  assumes "mkimage p files t = Some f" and "image_in m a f"
  shows "image_verify_header f = 0 \<and> image_info_cmd m a = Some 0 \<and> header_of_params p (header_at m a) \<and>
    image_body p files = Some (read_bytes m (unat (image_get_data a)) (unat (ih_size (header_at m a)))) \<and>
    image_get_kernel m a verify = Some (of_int (par_arch p) = IH_ARCH_ARM)"
proof -
  obtain h body where f: "f = image_header_bytes h @ body" and s: "sealed_header h body"
    and hp: "header_of_params p h" and body: "image_body p files = Some body"
    by (rule mkimage_image [OF assms(1)])
  note i = assms(2) [unfolded f] and parts = image_in_parts [OF assms(2) [unfolded f] s]
  note prints = image_prints [OF assms]
  have "image_info_cmd m a = Some 0"
    using sealed_checks [OF i s] prints by (auto simp: image_info_cmd_def)
  moreover have "image_get_kernel m a verify = Some (of_int (par_arch p) = IH_ARCH_ARM)"
    using sealed_kernel [OF i s prints] hp by (simp add: header_of_params_def)
  ultimately show ?thesis
    unfolding parts(1) parts(4) parts(3) f using s hp body by (simp add: sealed_verifies)
qed

section \<open>The files of a multi-file image\<close>

lemma sum_list_upt: "i \<le> length ds \<Longrightarrow> (\<Sum>j\<leftarrow>[0..<i]. g (ds ! j)) = (\<Sum>d\<leftarrow>take i ds. g d)"
  by (rule arg_cong [of _ _ sum_list]) (simp add: list_eq_iff_nth_eq)

lemma of_nat_sum_list: "of_nat (sum_list (map g xs)) = (\<Sum>x\<leftarrow>xs. of_nat (g x))"
  by (induction xs) simp_all

lemma multi_offset_at:
  assumes "multi_in m D ds b" and "i \<le> length ds" and "\<And>j. j < length ds \<Longrightarrow> length (ds ! j) + 3 < 2 ^ 32"
  shows "multi_offset m D i = of_nat (\<Sum>d\<leftarrow>take i ds. padded (length d))"
proof -
  have "(multi_size m D (of_nat j) + 3) AND NOT 3 = of_nat (padded (length (ds ! j)))" if j: "j < i" for j
    using multi_word(2) [OF assms(1), of j] round_up [OF assms(3) [of j]] j assms(2) by simp
  then have "multi_offset m D i = (\<Sum>j\<leftarrow>[0..<i]. of_nat (padded (length (ds ! j))))"
    unfolding multi_offset_def by (intro arg_cong [of _ _ sum_list] map_cong) simp_all
  also have "\<dots> = (\<Sum>d\<leftarrow>take i ds. of_nat (padded (length d)))"
    using assms(2) by (rule sum_list_upt)
  finally show ?thesis
    by (simp only: of_nat_sum_list)
qed

text \<open>
  C40: from a multi-file image that \<open>mkimage\<close> makes without \<open>-x\<close> \<open>image_multi_getimg\<close> returns each file:
  its length and an address, aligned like the image, where exactly its bytes are; for any other number it
  returns zeros. Counting the table ends. (With \<open>-x\<close> the sizes in the table count the 64 bytes of each
  file that are not copied, so the components are not where the table says.)
\<close>

theorem multi_component:
  assumes "mkimage p files t = Some f" and "image_in m a f" and "par_type p = uint IH_TYPE_MULTI" and "\<not> xflag p"
  shows "if unat idx < length files
     then (\<exists>d. image_multi_getimg m a idx = Some (d, of_nat (length (files ! unat idx))) \<and>
       read_bytes m (unat d) (length (files ! unat idx)) = files ! unat idx \<and> unat d mod 4 = unat a mod 4 \<and> unat a < unat d)
     else image_multi_getimg m a idx = Some (0, 0)"
proof -
  obtain h body where f: "f = image_header_bytes h @ body" and s: "sealed_header h body"
    and body: "image_body p files = Some body"
    by (rule mkimage_image [OF assms(1)])
  obtain b where b: "copy_files p files = Some b" and bb: "body = size_table files @ b"
    using body assms(3) by (auto simp: image_body_def is_multi_def)
  define D where "D = image_get_data a"
  note parts = image_in_parts [OF assms(2) [unfolded f] s, folded D_def]
  have mi: "multi_in m D files b"
    using parts(2,3,5) by (simp add: multi_in_def bb)
  then have lt: "unat D + 4 * length files + 4 + length b < 2 ^ 32"
    by (simp add: multi_in_def)
  note at = copy_files_at [OF b assms(4)]
  have len: "length (files ! j) + 3 < 2 ^ 32" "length (files ! j) \<noteq> 0" if "j < length files" for j
    using at(2,3) [OF that] lt that by auto
  have nz: "(of_nat (length (files ! j)) :: u32) \<noteq> 0" if "j < length files" for j
  proof (rule table_sizes [OF b _ that])
    show "72 + length b < 2 ^ 32" using lt that parts(2) by simp
  qed
  have count: "image_multi_count m a = Some (of_nat (length files))"
    using multi_count [OF mi nz, of 0] by (simp add: image_multi_count_def D_def)
  have n: "unat (of_nat (length files) :: u32) = length files"
    using lt by (simp add: unat_of_nat)
  then have less: "idx < of_nat (length files) \<longleftrightarrow> unat idx < length files"
    by (simp add: word_less_nat_alt)
  show ?thesis
  proof (cases "unat idx < length files")
    case True
    define S where "S = (\<Sum>d\<leftarrow>take (unat idx) files. padded (length d))"
    define d where "d = D + (of_nat (length files) + 1) * 4 + of_nat S"
    have S: "S + length (files ! unat idx) \<le> length b" "take (length (files ! unat idx)) (drop S b) = files ! unat idx"
      using at(1,3) [OF True] by (simp_all add: S_def)
    have "d = D + of_nat (4 * length files + 4 + S)"
      by (simp add: d_def)
    then have d: "unat d = unat D + (4 * length files + 4 + S)"
      using lt S(1) by (simp only: unat_word_ariths unat_of_nat) simp
    have "image_multi_getimg m a idx = Some (d, of_nat (length (files ! unat idx)))"
      using True multi_word(2) [OF mi, of "unat idx"] multi_offset_at [OF mi, of "unat idx"] len(1)
      by (simp add: image_multi_getimg_def count less d_def S_def D_def)
    moreover have "read_bytes m (unat d) (length (files ! unat idx)) =
        take (length (files ! unat idx)) (drop (4 * length files + 4 + S) (size_table files @ b))"
      unfolding d using mi S(1) by (intro read_slice) (simp_all add: multi_in_def)
    moreover have "S mod 4 = 0"
      unfolding S_def padded_def by (induction files arbitrary: idx) (auto simp: sum_list_const_mult)
    moreover have "(4 * length files + 4 + S) mod 4 = 0"
      using calculation(3) by presburger
    ultimately show ?thesis
      using True S(2) d parts(2) by (auto simp: mod_add_eq) presburger
  qed (simp add: image_multi_getimg_def count less)
qed

lemma plain_copy:
  assumes "image_body p [data] = Some body" and "\<not> is_multi p" and "\<not> xflag p"
  shows "body = data" and "data \<noteq> []"
  using assms by (auto simp: image_body_def copy_file_def Let_def split: if_splits)

section \<open>An example\<close>

definition sample_params :: "int \<Rightarrow> u32 \<Rightarrow> mkimage_params" where
  "sample_params t addr = \<lparr>eflag = False, xflag = False, par_os = 5, par_arch = 2, par_type = t, par_comp = 0,
     par_addr = addr, par_ep = 0, imagename = cstr ''sample''\<rparr>"

lemma sample_options [simp]: "mkimage_options (sample_params t addr) \<longleftrightarrow> option_code uimage_type t"
  by (simp add: mkimage_options_def option_code_def sample_params_def uimage_os_def uimage_arch_def uimage_comp_def)

lemma type_codes [simp]:
  "option_code uimage_type 2" "option_code uimage_type 3" "option_code uimage_type 4"
  by (simp_all add: option_code_def uimage_type_def)

lemma sample_image:
  assumes "t = 2 \<or> t = 3" and "data \<noteq> []"
  obtains f where "mkimage (sample_params t addr) [data] 0 = Some f" and "length f = 64 + length data"
proof -
  have multi: "\<not> is_multi (sample_params t addr)"
    using assms(1) by (auto simp: is_multi_def sample_params_def IH_TYPE_MULTI_def IH_TYPE_SCRIPT_def)
  have "\<exists>f. mkimage (sample_params t addr) [data] 0 = Some f"
    using assms sample_options [of t addr, unfolded sample_params_def]
    by (auto simp: mkimage_def sample_params_def image_check_image_types_def copy_file_def IH_TYPE_MULTI_def
      IH_TYPE_SCRIPT_def Let_def)
  then obtain f where f: "mkimage (sample_params t addr) [data] 0 = Some f" by blast
  obtain h body where h: "f = image_header_bytes h @ body" "sealed_header h body"
    and body: "image_body (sample_params t addr) [data] = Some body"
    by (rule mkimage_image [OF f])
  have "body = data"
    by (rule plain_copy [OF body multi]) (simp add: sample_params_def)
  moreover have "length (image_header_bytes h) = 64"
    using h(2) by (simp add: sealed_header_def length_header_bytes)
  ultimately have "length f = 64 + length data"
    by (simp add: h(1))
  with f show thesis by (rule that)
qed

lemma image_in_write: "unat a + length f < 2 ^ 32 \<Longrightarrow> image_in (write_bytes m (unat a) f) a f"
  by (simp add: image_in_def)

lemma image_in_write_other:
  "image_in m a f \<Longrightarrow> disjoint_ranges p (length bs) (unat a) (length f) \<Longrightarrow> image_in (write_bytes m p bs) a f"
  by (simp add: image_in_def read_write_disjoint)

lemma mkimage_read_back_witness:
  "\<exists>m f. mkimage (sample_params 2 0x30008000) [[1, 2, 3]] 0 = Some f \<and> image_info_cmd m 0x32000000 = Some 0 \<and>
     ih_load (header_at m 0x32000000) = 0x30008000 \<and> image_get_kernel m 0x32000000 1 = Some True"
proof -
  obtain f where f: "mkimage (sample_params 2 0x30008000) [[1, 2, 3]] 0 = Some f" "length f = 67"
    by (rule sample_image [of 2 "[1, 2, 3]"]) auto
  have "image_in (write_bytes (\<lambda>_. 0) (unat (0x32000000 :: u32)) f) 0x32000000 f"
    by (rule image_in_write) (simp add: f(2))
  from mkimage_read_back [OF f(1) this, of 1] f(1) show ?thesis
    by (auto simp: header_of_params_def sample_params_def IH_ARCH_ARM_def)
qed

lemma multi_component_witness:
  "\<exists>m d. image_multi_getimg m 0x32000000 1 = Some (d, 2) \<and> read_bytes m (unat d) 2 = [8, 9]"
proof -
  let ?p = "sample_params 4 0" and ?files = "[[1, 2, 3, 4, 5], [8, 9]]"
  have "\<exists>f. mkimage ?p ?files 0 = Some f"
    using sample_options [of 4 0, unfolded sample_params_def]
    by (simp add: mkimage_def sample_params_def image_check_image_types_def copy_file_def IH_TYPE_MULTI_def Let_def)
  then obtain f where f: "mkimage ?p ?files 0 = Some f" by blast
  obtain h body where h: "f = image_header_bytes h @ body" "sealed_header h body" "image_body ?p ?files = Some body"
    by (rule mkimage_image [OF f])
  have "length body = 22"
    using h(3) by (auto simp: image_body_def is_multi_def sample_params_def IH_TYPE_MULTI_def copy_file_def Let_def)
  then have "length f = 86"
    using h(1,2) by (simp add: sealed_header_def length_header_bytes)
  then have "image_in (write_bytes (\<lambda>_. 0) (unat (0x32000000 :: u32)) f) 0x32000000 f"
    by (intro image_in_write) simp
  from multi_component [OF f this, of 1]
  obtain d where "image_multi_getimg (write_bytes (\<lambda>_. 0) (unat (0x32000000 :: u32)) f) 0x32000000 1 = Some (d, 2)"
    "read_bytes (write_bytes (\<lambda>_. 0) (unat (0x32000000 :: u32)) f) (unat d) (Suc (Suc 0)) = [8, 9]"
    by (auto simp: sample_params_def IH_TYPE_MULTI_def)
  then show ?thesis
    unfolding numeral_2_eq_2 by blast
qed

end
