(* ===== verification/Bootm_Correct.thy ===== *)
theory Bootm_Correct
  imports Tags Image_Correct Environment_Correct
begin

text \<open>
  What \<open>bootm\<close> does with the images that \<open>mkimage\<close> makes: a damaged one is refused before anything is
  changed, a kernel is loaded and started with tags that say what the environment says.
\<close>

section \<open>Damage\<close>

definition splice :: "nat \<Rightarrow> u8 list \<Rightarrow> u8 list \<Rightarrow> u8 list" where
  "splice k e b = take k b @ e @ drop (k + 4) b"

lemma splice_commute:
  assumes "length e = 4" and "length d = 4" and "k + 4 \<le> j" and "j + 4 \<le> length b"
  shows "splice k e (splice j d b) = splice j d (splice k e b)"
  using assms by (auto simp: splice_def list_eq_iff_nth_eq nth_append)

lemma splice_same:
  assumes "length e = 4" and "length d = 4" and "k + 4 \<le> length b"
  shows "splice k e (splice k d b) = splice k e b"
  using assms by (simp add: splice_def)

lemma length_splice [simp]: "length e = 4 \<Longrightarrow> k + 4 \<le> length b \<Longrightarrow> length (splice k e b) = length b"
  by (simp add: splice_def)

lemma splice_take_drop: "k + 4 \<le> length b \<Longrightarrow> splice k (take 4 (drop k b)) b = b"
  by (simp add: splice_def) (metis append_take_drop_id drop_drop add.commute)

lemma drop_splice:
  assumes "length e = 4" and "k + 4 \<le> n" and "k + 4 \<le> length b"
  shows "drop n (splice k e b) = drop n b"
proof -
  have "drop (k + 4) (splice k e b) = drop (k + 4) b"
    using assms by (simp add: splice_def)
  then have "drop (n - (k + 4)) (drop (k + 4) (splice k e b)) = drop (n - (k + 4)) (drop (k + 4) b)"
    by (rule arg_cong)
  then show ?thesis
    using assms(2) by (simp only: drop_drop) simp
qed

lemma crc_splice:
  assumes "length e = 4" and "k + 4 \<le> length b" and "take 4 (drop k b) \<noteq> e"
  shows "crc32 0 (splice k e b) \<noteq> crc32 0 b"
proof -
  have "crc32 0 (splice k e b) \<noteq> crc32 0 (splice k (take 4 (drop k b)) b)"
    unfolding splice_def using assms by (intro crc32_burst) auto
  then show ?thesis
    using assms by (simp add: splice_take_drop)
qed

lemma blank_hcrc:
  assumes "length b = 64"
  shows "image_header_bytes ((image_header_of b)\<lparr>ih_hcrc := 0\<rparr>) = splice 4 [0, 0, 0, 0] b"
proof -
  let ?b = "splice 4 [0, 0, 0, 0] b"
  have l: "length ?b = 64"
    using assms by simp
  have "drop n ?b = drop n b" if "8 \<le> n" for n
    using that assms by (simp add: drop_splice)
  moreover have "?b ! n = b ! n" if "8 \<le> n" for n
    using that assms by (simp add: splice_def nth_append)
  moreover have "uimage_to_cpu ?b = uimage_to_cpu b" "uimage_to_cpu (drop 4 ?b) = 0"
    using assms by (auto simp: splice_def uimage_to_cpu_def nth_append)
  ultimately have "(image_header_of b)\<lparr>ih_hcrc := 0\<rparr> = image_header_of ?b"
    by (simp add: image_header_of_def)
  then show ?thesis
    by (simp add: bytes_header [OF l])
qed

lemma hcrc_iff:
  assumes "length b = 64"
  shows "image_check_hcrc (image_header_of b) \<longleftrightarrow> crc32 0 (splice 4 [0, 0, 0, 0] b) = uimage_to_cpu (drop 4 b)"
  unfolding image_check_hcrc_def blank_hcrc [OF assms] by (simp add: image_header_of_def)

lemma uimage_inj: "4 \<le> length a \<Longrightarrow> 4 \<le> length b \<Longrightarrow> uimage_to_cpu a = uimage_to_cpu b \<Longrightarrow> take 4 a = take 4 b"
  by (metis cpu_round)

lemma header_damage:
  assumes b: "length b = 64" "image_check_hcrc (image_header_of b)"
    and k: "k mod 4 = 0" "k < 64" and e: "length e = 4" "take 4 (drop k b) \<noteq> e"
  shows "\<not> image_check_hcrc (image_header_of (splice k e b))"
proof -
  have k4: "k + 4 \<le> 64"
    using k by presburger
  let ?z = "[0, 0, 0, 0] :: u8 list"
  have old: "crc32 0 (splice 4 ?z b) = uimage_to_cpu (drop 4 b)"
    using b by (simp add: hcrc_iff)
  have "k = 4 \<or> k + 4 \<le> 4 \<or> 8 \<le> k"
    using k(1) by presburger
  then consider "k = 4" | "k + 4 \<le> 4" | "8 \<le> k" by blast
  then have "crc32 0 (splice 4 ?z (splice k e b)) \<noteq> uimage_to_cpu (drop 4 (splice k e b))"
  proof cases
    case 1
    have "splice 4 ?z (splice k e b) = splice 4 ?z b"
      unfolding 1 using b e by (intro splice_same) simp_all
    moreover have "uimage_to_cpu (drop 4 (splice k e b)) \<noteq> uimage_to_cpu (drop 4 b)"
      using uimage_inj [of "drop 4 (splice k e b)" "drop 4 b"] b e by (auto simp: splice_def 1)
    ultimately show ?thesis
      using old by simp
  next
    case 2
    then have "k = 0" by simp
    have "splice 4 ?z (splice k e b) = splice k e (splice 4 ?z b)"
      using 2 b e by (intro splice_commute [symmetric]) simp_all
    moreover have "take 4 (drop k (splice 4 ?z b)) = take 4 (drop k b)"
      using b \<open>k = 0\<close> by (simp add: splice_def)
    moreover have "drop 4 (splice k e b) = drop 4 b"
      using b e by (simp add: splice_def \<open>k = 0\<close>)
    ultimately show ?thesis
      using crc_splice [of e k "splice 4 ?z b"] old b e k4 by simp
  next
    case 3
    have "splice 4 ?z (splice k e b) = splice k e (splice 4 ?z b)"
      using 3 b e k4 by (intro splice_commute) simp_all
    moreover have "take 4 (drop k (splice 4 ?z b)) = take 4 (drop k b)"
      using b 3 by (simp add: drop_splice)
    moreover have "uimage_to_cpu (drop 4 (splice k e b)) = uimage_to_cpu (drop 4 b)"
    proof -
      have "3 < k - 4" using 3 by simp
      then show ?thesis
        using b e 3 k4 by (simp add: splice_def uimage_to_cpu_def nth_append min_def)
    qed
    ultimately show ?thesis
      using crc_splice [of e k "splice 4 ?z b"] old b e k4 by simp
  qed
  then show ?thesis
    using b e k4 by (simp add: hcrc_iff)
qed

lemma read_splice:
  assumes "read_bytes m p (length b) = b" and "length e = 4" and "k + 4 \<le> length b"
  shows "read_bytes (write_bytes m (p + k) e) p (length b) = splice k e b"
proof (rule nth_equalityI)
  fix i assume "i < length (read_bytes (write_bytes m (p + k) e) p (length b))"
  then have i: "i < length b" by simp
  have m: "m (p + i) = b ! i"
    using i assms(1) by (metis nth_read_bytes)
  show "read_bytes (write_bytes m (p + k) e) p (length b) ! i = splice k e b ! i"
    using i assms(2,3) by (auto simp: write_bytes_apply splice_def nth_append m)
qed (use assms in simp)

section \<open>Refusing\<close>

text \<open>A command with an address and not a sub-command.\<close>

definition plain_args :: "u8 list list \<Rightarrow> u32 \<Rightarrow> bool" where
  "plain_args argv a \<longleftrightarrow> 1 < length argv \<and> hex_arg (argv ! 1) = a \<and>
     peek (snd (simple_strtoul (argv ! 1) 16)) \<in> {0, chr8 CHR '':'', chr8 CHR ''#''}"

definition verify_flag :: "var list \<Rightarrow> int" where
  "verify_flag kvs = (case map_of kvs (cstr ''verify'') of Some (c # _) \<Rightarrow> if c = chr8 CHR ''n'' then 0 else 1 | _ \<Rightarrow> 1)"

lemma good_names [simp]:
  "good_name (cstr ''verify'')" "good_name (cstr ''bootm_low'')" "good_name (cstr ''bootm_size'')"
  "good_name (cstr ''bootargs'')" "good_name (cstr ''machid'')"
  by (simp_all add: good_name_def)

lemma bootm_environment:
  assumes "env_rep env kvs"
  shows "getenv_yesno env (cstr ''verify'') = Some (verify_flag kvs)"
    and "\<exists>low sz. getenv_bootm_low b env = Some low \<and> getenv_bootm_size b env = Some sz"
  using getenv_rep [OF assms good_names(1)] getenv_rep [OF assms good_names(2)] getenv_rep [OF assms good_names(3)]
  by (simp_all add: getenv_yesno_def verify_flag_def getenv_bootm_low_def getenv_bootm_size_def)

lemma bootm_refuses:
  assumes env: "env_rep (env_data (wenv w)) kvs" and args: "plain_args argv a"
    and k: "image_get_kernel (wmem w) a (verify_flag kvs) = r" and r: "r \<noteq> Some True"
  shows "if r = None then do_bootm B w argv = None
    else \<exists>w'. do_bootm B w argv = Some (Ret 1, w') \<and> wmem w' = wmem w \<and> events w' = events w \<and> wenv w' = wenv w"
proof -
  obtain low sz where e: "getenv_yesno (env_data (wenv w)) (cstr ''verify'') = Some (verify_flag kvs)"
    "getenv_bootm_low (bdinfo B) (env_data (wenv w)) = Some low"
    "getenv_bootm_size (bdinfo B) (env_data (wenv w)) = Some sz"
    using bootm_environment [OF env] by blast
  have "r = None \<Longrightarrow> genimg_get_format (wmem w) a = IMAGE_FORMAT_LEGACY"
    using k by (auto simp: image_get_kernel_def genimg_get_format_def Let_def split: if_splits)
  then have k: "boot_get_kernel (wmem w) (load_addr (wenv w)) argv im =
      (if r = None then None else Some (wmem w, set_os_data 0 0 im, 0))"
    if "verify im = verify_flag kvs" for im
    using k r args that
    by (cases "genimg_get_format (wmem w) a"; cases r)
      (simp_all add: boot_get_kernel_def plain_args_def genimg_get_image_def Let_def set_os_data_def)
  show ?thesis
    using args unfolding do_bootm_def bootm_start_def e
    by (auto simp: k plain_args_def set_os_data_def)
qed

text \<open>Four bytes of an image that a checksum covers: a word of the header, or any four of the data.\<close>

definition covered_bytes :: "u8 list \<Rightarrow> int \<Rightarrow> nat \<Rightarrow> bool" where
  "covered_bytes f v k \<longleftrightarrow> (k < 64 \<and> k mod 4 = 0) \<or> (v \<noteq> 0 \<and> 64 \<le> k \<and> k + 4 \<le> length f)"

lemma header_kept: "64 \<le> k \<Longrightarrow> header_at (write_bytes m (unat a + k) e) a = header_at m a"
  using read_write_disjoint [of "unat a + k" e "unat a" 64 m] by (simp add: header_at_def disjoint_ranges_def)

lemma damaged_not_kernel:
  assumes i: "image_in m a (image_header_bytes h @ body)" and s: "sealed_header h body"
    and c: "covered_bytes (image_header_bytes h @ body) v k"
    and e: "length e = 4" "read_bytes m (unat a + k) 4 \<noteq> e"
  shows "image_get_kernel (write_bytes m (unat a + k) e) a v =
    (if 64 \<le> k \<and> image_print_contents (write_bytes m (unat a + k) e) a = None then None else Some False)"
proof -
  let ?m = "write_bytes m (unat a + k) e"
  note parts = image_in_parts [OF i s] and checks = sealed_checks [OF i s]
  have len: "length (image_header_bytes h) = 64"
    using s by (simp add: sealed_header_def length_header_bytes)
  have all: "read_bytes m (unat a) (length (image_header_bytes h @ body)) = image_header_bytes h @ body"
    using i by (simp add: image_in_def)
  have hd: "read_bytes m (unat a) 64 = image_header_bytes h"
    using all len by (simp add: read_bytes_add)
  show ?thesis
  proof (cases "k < 64")
    case True
    then have k: "k mod 4 = 0" "k < 64"
      using c by (auto simp: covered_bytes_def)
    then have k4: "k + 4 \<le> 64" by presburger
    have "header_at ?m a = image_header_of (splice k e (image_header_bytes h))"
      using read_splice [of m "unat a" "image_header_bytes h" e k] hd k4 e(1) by (simp add: header_at_def len)
    moreover have "\<not> image_check_hcrc (image_header_of (splice k e (image_header_bytes h)))"
    proof (rule header_damage [OF len _ k e(1)])
      show "image_check_hcrc (image_header_of (image_header_bytes h))"
        using checks(2) hd by (simp add: header_at_def)
      show "take 4 (drop k (image_header_bytes h)) \<noteq> e"
        using e(2) read_slice [of m "unat a" "image_header_bytes h" k 4] hd k4 by (simp add: len)
    qed
    ultimately show ?thesis
      using True by (simp add: image_get_kernel_def Let_def)
  next
    case False
    then have k: "64 \<le> k" "k - 64 + 4 \<le> length body" and v: "v \<noteq> 0"
      using c len by (auto simp: covered_bytes_def)
    have "header_at ?m a = h"
      using header_kept [OF k(1)] parts(1) by simp
    then have "image_check_magic (header_at ?m a)" "image_check_hcrc (header_at ?m a)"
      using checks(1,2) parts(1) by simp_all
    moreover have "read_bytes ?m (unat (image_get_data a)) (length body) = splice (k - 64) e body"
      using read_splice [of m "unat a + 64" body e "k - 64"] parts(2,3) k e(1) by simp
    moreover have "crc32 0 (splice (k - 64) e body) \<noteq> crc32 0 body"
    proof (rule crc_splice [OF e(1) k(2)])
      show "take 4 (drop (k - 64) body) \<noteq> e"
        using e(2) read_slice [of m "unat a + 64" body "k - 64" 4] parts(2,3) k by simp
    qed
    ultimately have "image_check_magic (header_at ?m a)" "image_check_hcrc (header_at ?m a)" "\<not> image_check_dcrc ?m a"
      using s parts(4) \<open>header_at ?m a = h\<close> by (simp_all add: image_check_dcrc_def crc32_wd_def sealed_header_def)
    with v k(1) show ?thesis
      by (cases "image_print_contents ?m a") (simp_all add: image_get_kernel_def)
  qed
qed

text \<open>The four bytes are in the table of sizes of a multi-file image or a script, or reach into it.\<close>

definition damaged_table :: "mkimage_params \<Rightarrow> u8 list list \<Rightarrow> nat \<Rightarrow> bool" where
  "damaged_table p files k \<longleftrightarrow> is_multi p \<and> 64 \<le> k \<and> k < 68 + 4 * length files"

lemma damaged_prints:
  assumes made: "mkimage p files t = Some f" and i: "image_in m a f" and k: "64 \<le> k" "\<not> damaged_table p files k"
  shows "image_print_contents (write_bytes m (unat a + k) e) a \<noteq> None"
proof -
  obtain h body where f: "f = image_header_bytes h @ body" and s: "sealed_header h body"
    and hp: "header_of_params p h" and body: "image_body p files = Some body"
    by (rule mkimage_image [OF made])
  note parts = image_in_parts [OF i [unfolded f] s]
  show ?thesis
  proof (rule mkimage_prints [OF made f s hp body])
    show "header_at (write_bytes m (unat a + k) e) a = h"
      using header_kept [OF k(1)] parts(1) by simp
    show "unat a + length f < 2 ^ 32" using i by (simp add: image_in_def)
  next
    assume multi: "is_multi p"
    then obtain b where "body = size_table files @ b"
      using body by (auto simp: image_body_def)
    then have "read_bytes m (unat a + 64) (4 * length files + 4) = size_table files"
      using parts(2,3) read_table [of m "unat a + 64" files b] by simp
    moreover have "disjoint_ranges (unat a + k) (length e) (unat a + 64) (4 * length files + 4)"
      using k multi by (simp add: damaged_table_def disjoint_ranges_def)
    ultimately show "read_bytes (write_bytes m (unat a + k) e) (unat a + 64) (4 * length files + 4) = size_table files"
      using read_write_disjoint [of "unat a + k" e "unat a + 64" "4 * length files + 4" m] by simp
  qed
qed

text \<open>
  C38: an image in which four bytes that a checksum covers have changed in whatever way is not booted:
  \<open>bootm\<close> returns 1, starts nothing and leaves the memory and the environment alone. The one exception is
  damage to the table of sizes of a multi-file image or a script: \<open>bootm\<close> lists the files before it checks
  the data, and when the damaged table has no end in memory it does not return at all.
\<close>

theorem damaged_image_refused:
  assumes "env_rep (env_data (wenv w)) kvs" and "plain_args argv a"
    and "mkimage p files t = Some f" and "image_in m a f"
    and "covered_bytes f (verify_flag kvs) k" and "length e = 4" and "read_bytes m (unat a + k) 4 \<noteq> e"
    and "wmem w = write_bytes m (unat a + k) e"
  shows "if damaged_table p files k \<and> image_print_contents (wmem w) a = None
    then do_bootm B w argv = None
    else \<exists>w'. do_bootm B w argv = Some (Ret 1, w') \<and> wmem w' = wmem w \<and> events w' = events w \<and> wenv w' = wenv w"
proof -
  obtain h body where f: "f = image_header_bytes h @ body" and s: "sealed_header h body"
    by (rule mkimage_image [OF assms(3)])
  have "damaged_table p files k \<Longrightarrow> 64 \<le> k"
    by (simp add: damaged_table_def)
  then have "64 \<le> k \<and> image_print_contents (wmem w) a = None \<longleftrightarrow>
      damaged_table p files k \<and> image_print_contents (wmem w) a = None"
    using damaged_prints [OF assms(3,4), of k e, folded assms(8)] by blast
  moreover have "image_get_kernel (wmem w) a (verify_flag kvs) =
      (if 64 \<le> k \<and> image_print_contents (wmem w) a = None then None else Some False)"
    unfolding assms(8) using assms(4-7) s unfolding f by (intro damaged_not_kernel) simp_all
  ultimately show ?thesis
    using bootm_refuses [OF assms(1,2) refl, of B] by (auto split: if_splits)
qed

section \<open>Starting Linux\<close>

text \<open>A ramdisk that is given on the command line, or none.\<close>

definition ramdisk_args :: "mem \<Rightarrow> u8 list list \<Rightarrow> (u32 \<times> u8 list) option \<Rightarrow> bool" where
  "ramdisk_args m argv rd =
     (case rd of
        None \<Rightarrow> length argv = 2 \<or> 3 \<le> length argv \<and> argv ! 2 = cstr ''-''
      | Some (a, data) \<Rightarrow> 3 \<le> length argv \<and> argv ! 2 \<noteq> cstr ''-'' \<and> hex_arg (argv ! 2) = a \<and>
          (\<exists>p t f. mkimage p [data] t = Some f \<and> image_in m a f \<and> \<not> xflag p \<and> par_os p = uint IH_OS_LINUX \<and>
             par_arch p = uint IH_ARCH_ARM \<and> par_type p = uint IH_TYPE_RAMDISK))"

definition ramdisk_range :: "(u32 \<times> u8 list) option \<Rightarrow> u32 \<times> u32" where
  "ramdisk_range rd = (case rd of None \<Rightarrow> (0, 0) | Some (a, data) \<Rightarrow> (a + 64, a + 64 + of_nat (length data)))"

lemma ramdisk_in_memory:
  assumes "ramdisk_args m argv (Some (a, data))"
  shows "read_bytes m (unat (a + 64)) (length data) = data" and "unat (a + 64) = unat a + 64"
    and "image_get_ramdisk m a IH_ARCH_ARM v = Some True" and "genimg_get_format m a = IMAGE_FORMAT_LEGACY"
    and "ih_size (header_at m a) = of_nat (length data)" and "unat a + 64 + length data < 2 ^ 32"
proof -
  obtain p t f where p: "mkimage p [data] t = Some f" "image_in m a f" "\<not> xflag p" "par_os p = uint IH_OS_LINUX"
    "par_arch p = uint IH_ARCH_ARM" "par_type p = uint IH_TYPE_RAMDISK"
    using assms by (auto simp: ramdisk_args_def)
  obtain h body where f: "f = image_header_bytes h @ body" and s: "sealed_header h body"
    and hp: "header_of_params p h" and body: "image_body p [data] = Some body"
    by (rule mkimage_image [OF p(1)])
  have b: "body = data"
    using plain_copy [OF body _ p(3)] p(6) by (simp add: is_multi_def IH_TYPE_RAMDISK_def IH_TYPE_MULTI_def IH_TYPE_SCRIPT_def)
  note i = p(2) [unfolded f b] and s = s [unfolded b]
  note parts = image_in_parts [OF i s]
  have d: "image_get_data a = a + 64"
    by (simp add: image_get_data_def image_get_header_size_def)
  show "read_bytes m (unat (a + 64)) (length data) = data" "unat (a + 64) = unat a + 64" "unat a + 64 + length data < 2 ^ 32"
    using parts(2,3,5) by (simp_all only: d)
  show "image_get_ramdisk m a IH_ARCH_ARM v = Some True"
    using sealed_ramdisk [OF i s image_prints [OF p(1,2)]] hp p(4-6) by (simp add: header_of_params_def)
  show "genimg_get_format m a = IMAGE_FORMAT_LEGACY"
    by (rule sealed_checks(4) [OF i s])
  show "ih_size (header_at m a) = of_nat (length data)"
    using s by (simp add: parts(1) sealed_header_def)
qed

lemma get_ramdisk:
  assumes "ramdisk_args m argv rd" and "ih_type (legacy_hdr_os_copy im) = IH_TYPE_KERNEL"
  shows "boot_get_ramdisk m argv im IH_ARCH_ARM = Some (0, fst (ramdisk_range rd), snd (ramdisk_range rd))"
proof (cases rd)
  case None
  then show ?thesis
    using assms by (auto simp: ramdisk_args_def boot_get_ramdisk_def ramdisk_range_def image_check_type_def
      IH_TYPE_KERNEL_def IH_TYPE_MULTI_def)
next
  case (Some r)
  obtain a data where r: "r = (a, data)" by fastforce
  note rd = ramdisk_in_memory [OF assms(1) [unfolded Some r]]
  have "a + 64 \<noteq> 0"
    using rd(2) by (metis add_eq_0_iff_both_eq_0 unat_0 zero_neq_numeral)
  then show ?thesis
    using assms(1) rd(3-5) unfolding Some r
    by (simp add: ramdisk_args_def boot_get_ramdisk_def ramdisk_range_def genimg_get_image_def image_get_data_def
      image_get_header_size_def)
qed

lemma get_kernel:
  assumes "plain_args argv a" and "image_in m a (image_header_bytes h @ body)" and "sealed_header h body"
    and "ih_arch h = IH_ARCH_ARM" and "ih_type h = IH_TYPE_KERNEL"
  shows "boot_get_kernel m load argv im =
    Some (m, im\<lparr>os_info := (os_info im)\<lparr>image_start := a + 64, image_len := of_nat (length body)\<rparr>,
      legacy_hdr_os_copy := h, legacy_hdr_os := a, legacy_hdr_valid := True\<rparr>, a)"
proof -
  note parts = image_in_parts [OF assms(2,3)]
  have "image_print_contents m a \<noteq> None"
    using assms(5) by (simp add: image_print_contents_ends parts(1) IH_TYPE_KERNEL_def IH_TYPE_MULTI_def IH_TYPE_SCRIPT_def)
  then have "image_get_kernel m a v = Some True" for v
    using sealed_kernel [OF assms(2,3)] assms(4) by simp
  then show ?thesis
    using assms sealed_checks(4) [OF assms(2,3)] parts(1)
    by (simp add: boot_get_kernel_def plain_args_def genimg_get_image_def set_os_data_def image_get_data_def
      image_get_header_size_def sealed_header_def Let_def)
qed

lemma start_kernel:
  assumes env: "env_rep (env_data (wenv w)) kvs" and args: "plain_args argv a"
    and i: "image_in (wmem w) a (image_header_bytes h @ body)" and s: "sealed_header h body" and "body \<noteq> []"
    and h: "ih_arch h = IH_ARCH_ARM" "ih_type h = IH_TYPE_KERNEL" "ih_os h = IH_OS_LINUX"
    and rd: "ramdisk_args (wmem w) argv rd"
  obtains im where "bootm_start B w argv = Some (0, w\<lparr>images := im\<rparr>)"
    and "os_info im = \<lparr>os_start = a, os_end = image_get_image_end (wmem w) a, image_start = a + 64,
      image_len = of_nat (length body), os_load = ih_load h, os_comp = ih_comp h, os_type = ih_type h, os_os = ih_os h\<rparr>"
    and "ep im = ih_ep h" and "rd_start im = fst (ramdisk_range rd)" and "rd_end im = snd (ramdisk_range rd)"
    and "legacy_hdr_valid im"
proof -
  obtain low sz where e: "getenv_yesno (env_data (wenv w)) (cstr ''verify'') = Some (verify_flag kvs)"
    "getenv_bootm_low (bdinfo B) (env_data (wenv w)) = Some low"
    "getenv_bootm_size (bdinfo B) (env_data (wenv w)) = Some sz"
    using bootm_environment [OF env] by blast
  note parts = image_in_parts [OF i s]
  have nz: "(of_nat (length body) :: u32) \<noteq> 0"
    using parts(4) s \<open>body \<noteq> []\<close> by (metis length_0_conv sealed_header_def unat_0)
  obtain rs re where r: "ramdisk_range rd = (rs, re)" by fastforce
  have "\<exists>im. bootm_start B w argv = Some (0, w\<lparr>images := im\<rparr>) \<and>
      os_info im = \<lparr>os_start = a, os_end = image_get_image_end (wmem w) a, image_start = a + 64,
        image_len = of_nat (length body), os_load = ih_load h, os_comp = ih_comp h, os_type = ih_type h, os_os = ih_os h\<rparr> \<and>
      ep im = ih_ep h \<and> rd_start im = fst (ramdisk_range rd) \<and> rd_end im = snd (ramdisk_range rd) \<and> legacy_hdr_valid im"
    unfolding bootm_start_def e
    by (simp add: get_kernel [OF args i s h(1,2)] sealed_checks(4) [OF i s] parts(1) nz get_ramdisk [OF rd] r h(2,3)
        images_zero_def Let_def) (intro exI conjI, rule refl, simp_all)
  with that show thesis by blast
qed

lemma load_plain:
  assumes "os_comp os = IH_COMP_NONE" and "unat (os_load os) + n < 2 ^ 32" and "image_len os = of_nat n"
    and "read_bytes m (unat (image_start os)) n = data" and "length data = n"
  obtains r load_end m' where "bootm_load_os B m os 0 = Some (r, load_end, m')" and "r = 0 \<or> r = BOOTM_ERR_OVERLAP"
    and "read_bytes m' (unat (if os_load os = os_start os then image_start os else os_load os)) n = data"
    and "\<And>x. x < unat (os_load os) \<or> unat (os_load os) + n \<le> x \<Longrightarrow> m' x = m x"
proof -
  have n: "unat (of_nat n :: u32) = n"
    using assms(2) by (simp add: unat_of_nat)
  define m' where "m' = (if os_load os = os_start os \<or> os_load os = image_start os then m
      else write_bytes m (unat (os_load os)) data)"
  have "bootm_load_os B m os 0 = Some (load_overlap os (os_load os + image_len os), os_load os + image_len os, m')"
    using assms(1) by (simp add: bootm_load_os_def memmove_wd_def memmove_eq assms(3) n assms(4) m'_def Let_def)
  moreover have "load_overlap os e = 0 \<or> load_overlap os e = BOOTM_ERR_OVERLAP" for e
    by (simp add: load_overlap_def)
  moreover have "read_bytes m' (unat (if os_load os = os_start os then image_start os else os_load os)) n = data"
    using assms(4,5) read_write_same [of m "unat (os_load os)" data] by (auto simp: m'_def)
  moreover have "m' x = m x" if "x < unat (os_load os) \<or> unat (os_load os) + n \<le> x" for x
    using that assms(5) by (simp add: m'_def)
  ultimately show thesis by (rule that)
qed

definition machine_number :: "bd \<Rightarrow> var list \<Rightarrow> u32" where
  "machine_number b kvs = (case map_of kvs (cstr ''machid'') of Some v \<Rightarrow> hex_arg v | None \<Rightarrow> bi_arch_number b)"

lemma env_no_nul: "env_rep env kvs \<Longrightarrow> map_of kvs name = Some v \<Longrightarrow> 0 \<notin> set v"
  by (auto simp: env_rep_def list_all_iff good_var_def dest!: map_of_SomeD)

lemma boot_linux:
  assumes "env_rep (env_data (wenv w)) kvs"
  shows "do_bootm_linux B 0 argv w =
    (let m = setup_tags (bdinfo B) (map_of kvs (cstr ''bootargs'')) (rd_start (images w)) (rd_end (images w)) (wmem w)
     in Some (1, start_foreign B (StartLinux (ep (images w)) (machine_number (bdinfo B) kvs) (bi_boot_params (bdinfo B)))
       (w\<lparr>wmem := m\<rparr>)))"
  using getenv_rep [OF assms good_names(4)] getenv_rep [OF assms good_names(5)]
  by (simp add: do_bootm_linux_def machine_number_def Let_def)

lemma reserve_os_keeps [simp]:
  "wmem (reserve_os e w) = wmem w" "wenv (reserve_os e w) = wenv w" "events (reserve_os e w) = events w"
  "os_info (images (reserve_os e w)) = os_info (images w)" "ep (images (reserve_os e w)) = ep (images w)"
  "rd_start (images (reserve_os e w)) = rd_start (images w)" "rd_end (images (reserve_os e w)) = rd_end (images w)"
  by (simp_all add: reserve_os_def)

lemma usb_stop_keeps [simp]:
  "wmem (usb_stop w) = wmem w" "wenv (usb_stop w) = wenv w" "images (usb_stop w) = images w"
  "events (usb_stop w) = events w @ [(UsbStop, wmem w)]"
  by (simp_all add: usb_stop_def)

lemma bootm_runs_linux:
  assumes start: "bootm_start B w argv = Some (0, w1)" and args: "plain_args argv a"
    and load: "bootm_load_os B (wmem w1) (os_info (images w1)) 0 = Some (r, load_end, m1)"
      "r = 0 \<or> r = BOOTM_ERR_OVERLAP" "legacy_hdr_valid (images w1)"
    and env: "env_rep (env_data (wenv w1)) kvs" and os: "os_os (os_info (images w1)) = IH_OS_LINUX"
      "os_type (os_info (images w1)) = IH_TYPE_KERNEL"
  obtains w' where "do_bootm B w argv = Some (BoardReset, w')"
    and "events w' = events w1 @ [(UsbStop, wmem w1), (StartLinux (ep (images w1)) (machine_number (bdinfo B) kvs) (bi_boot_params (bdinfo B)),
      setup_tags (bdinfo B) (map_of kvs (cstr ''bootargs'')) (rd_start (images w1)) (rd_end (images w1)) m1)]"
proof -
  have "boot_os IH_OS_LINUX = Some (Some do_bootm_linux)"
    by (simp add: boot_os_def IH_OS_LINUX_def)
  moreover have "IH_TYPE_KERNEL \<noteq> IH_TYPE_STANDALONE" "BOOTM_ERR_OVERLAP \<noteq> BOOTM_ERR_RESET"
    "BOOTM_ERR_OVERLAP \<noteq> BOOTM_ERR_UNIMPLEMENTED" "0 \<noteq> BOOTM_ERR_RESET" "0 \<noteq> BOOTM_ERR_UNIMPLEMENTED" "0 \<noteq> BOOTM_ERR_OVERLAP"
    by (simp_all add: IH_TYPE_KERNEL_def IH_TYPE_STANDALONE_def BOOTM_ERR_OVERLAP_def BOOTM_ERR_RESET_def
      BOOTM_ERR_UNIMPLEMENTED_def)
  ultimately have "\<exists>w'. do_bootm B w argv = Some (BoardReset, w') \<and>
      events w' = events w1 @ [(UsbStop, wmem w1), (StartLinux (ep (images w1)) (machine_number (bdinfo B) kvs) (bi_boot_params (bdinfo B)),
        setup_tags (bdinfo B) (map_of kvs (cstr ''bootargs'')) (rd_start (images w1)) (rd_end (images w1)) m1)]"
    using load(2) args os env load(3)
    by (auto simp: do_bootm_def start load(1) plain_args_def boot_linux start_foreign_def Let_def)
  then show thesis using that by blast
qed

text \<open>Where a kernel runs: at its load address, or where it lies when that is the address of the image.\<close>

definition kernel_place :: "mkimage_params \<Rightarrow> u32 \<Rightarrow> u32" where
  "kernel_place p a = (if par_addr p = a then a + 64 else par_addr p)"

lemma read_bytes_keep:
  assumes "read_bytes m q n = d" and "\<And>x. \<not> (p \<le> x \<and> x < p + k) \<Longrightarrow> m' x = m x" and "disjoint_ranges p k q n"
  shows "read_bytes m' q n = d"
proof -
  have "read_bytes m' q n = read_bytes m q n"
    using assms(3) by (intro read_bytes_cong assms(2)) (auto simp: disjoint_ranges_def)
  then show ?thesis by (simp add: assms(1))
qed

text \<open>
  C37: \<open>bootm\<close> starts a Linux kernel that \<open>mkimage\<close> packed uncompressed and without \<open>-x\<close>: after the USB
  controller is stopped, with the registers the kernel expects, its bytes at its load address although the
  image may overlap them (when the image itself lies at the load address they stay behind its header, 64
  bytes further on), tags at the address of the board that read back
  as core, memory, the boot arguments without leading blanks, the range of the ramdisk and the end, and the
  bytes of the ramdisk untouched, when none of these overlap.
\<close>

theorem bootm_starts_linux:
  assumes "env_rep (env_data (wenv w)) kvs" and "plain_args argv a"
    and "mkimage p [data] t = Some f" and "image_in (wmem w) a f" and "\<not> xflag p"
    and "par_os p = uint IH_OS_LINUX" "par_arch p = uint IH_ARCH_ARM" "par_type p = uint IH_TYPE_KERNEL" "par_comp p = uint IH_COMP_NONE"
    and "ramdisk_args (wmem w) argv rd"
    and "tags = board_tags (bdinfo B) (map_of kvs (cstr ''bootargs'')) (fst (ramdisk_range rd)) (snd (ramdisk_range rd))"
    and "unat (bi_boot_params (bdinfo B)) + tags_room tags < 2 ^ 32" and "unat (par_addr p) + length data < 2 ^ 32"
    and "disjoint_ranges (unat (bi_boot_params (bdinfo B))) (tags_room tags) (unat (kernel_place p a)) (length data)"
    and "\<And>ra rdata. rd = Some (ra, rdata) \<Longrightarrow>
      disjoint_ranges (unat (par_addr p)) (length data) (unat (ra + 64)) (length rdata) \<and>
      disjoint_ranges (unat (bi_boot_params (bdinfo B))) (tags_room tags) (unat (ra + 64)) (length rdata)"
  shows "\<exists>w' m. do_bootm B w argv = Some (BoardReset, w') \<and>
    events w' = events w @ [(UsbStop, wmem w),
      (StartLinux (entry_point p) (machine_number (bdinfo B) kvs) (bi_boot_params (bdinfo B)), m)] \<and>
    read_bytes m (unat (kernel_place p a)) (length data) = data \<and>
    parse_tags 5 m (unat (bi_boot_params (bdinfo B))) = Some (map fst tags) \<and>
    (case rd of None \<Rightarrow> True | Some (ra, rdata) \<Rightarrow> read_bytes m (unat (ra + 64)) (length rdata) = rdata)"
proof -
  let ?P = "unat (bi_boot_params (bdinfo B))"
  obtain h body where f: "f = image_header_bytes h @ body" and s: "sealed_header h body"
    and hp: "header_of_params p h" and body: "image_body p [data] = Some body"
    by (rule mkimage_image [OF assms(3)])
  have b: "body = data" "data \<noteq> []"
    using plain_copy [OF body _ assms(5)] assms(8)
    by (simp_all add: is_multi_def IH_TYPE_KERNEL_def IH_TYPE_MULTI_def IH_TYPE_SCRIPT_def)
  note i = assms(4) [unfolded f b(1)] and s = s [unfolded b(1)]
  note parts = image_in_parts [OF i s]
  have h: "ih_load h = par_addr p" "ih_ep h = entry_point p" "ih_os h = IH_OS_LINUX" "ih_arch h = IH_ARCH_ARM"
    "ih_type h = IH_TYPE_KERNEL" "ih_comp h = IH_COMP_NONE"
    using hp assms(6-9) by (simp_all add: header_of_params_def)
  have d: "image_get_data a = a + 64"
    by (simp add: image_get_data_def image_get_header_size_def)
  obtain im where start: "bootm_start B w argv = Some (0, w\<lparr>images := im\<rparr>)"
    and im: "os_info im = \<lparr>os_start = a, os_end = image_get_image_end (wmem w) a, image_start = a + 64,
      image_len = of_nat (length data), os_load = ih_load h, os_comp = ih_comp h, os_type = ih_type h, os_os = ih_os h\<rparr>"
      "ep im = ih_ep h" "rd_start im = fst (ramdisk_range rd)" "rd_end im = snd (ramdisk_range rd)" "legacy_hdr_valid im"
    by (rule start_kernel [OF assms(1,2) i s b(2) h(4,5,3) assms(10)])
  have os: "os_comp (os_info im) = IH_COMP_NONE" "os_load (os_info im) = par_addr p" "os_start (os_info im) = a"
    "image_start (os_info im) = a + 64" "image_len (os_info im) = of_nat (length data)"
    by (simp_all add: im(1) h)
  have bytes: "read_bytes (wmem w) (unat (a + 64)) (length data) = data"
    using parts(3) by (simp only: d)
  obtain r e m1 where load: "bootm_load_os B (wmem w) (os_info im) 0 = Some (r, e, m1)" "r = 0 \<or> r = BOOTM_ERR_OVERLAP"
    and m1: "read_bytes m1 (unat (kernel_place p a)) (length data) = data"
    and keep: "\<And>x. x < unat (par_addr p) \<or> unat (par_addr p) + length data \<le> x \<Longrightarrow> m1 x = wmem w x"
    by (rule load_plain [OF os(1), of "length data" "wmem w" data B, unfolded os(2-5) kernel_place_def [of p a, symmetric],
      OF assms(13) refl bytes refl]) blast
  define m where "m = setup_tags (bdinfo B) (map_of kvs (cstr ''bootargs'')) (fst (ramdisk_range rd)) (snd (ramdisk_range rd)) m1"
  obtain w' where w': "do_bootm B w argv = Some (BoardReset, w')"
    "events w' = events w @ [(UsbStop, wmem w),
      (StartLinux (entry_point p) (machine_number (bdinfo B) kvs) (bi_boot_params (bdinfo B)), m)]"
    by (rule bootm_runs_linux [OF start assms(2), of r e m1 kvs])
      (use load assms(1) im in \<open>simp_all add: h m_def\<close>)
  note tags = tags_parse [where commandline = "map_of kvs (cstr ''bootargs'')" and b = "bdinfo B"
      and rs = "fst (ramdisk_range rd)" and re = "snd (ramdisk_range rd)" and m = m1,
      OF env_no_nul [OF assms(1)], folded assms(11) m_def]
  have parse: "parse_tags 5 m ?P = Some (map fst tags)"
    by (rule tags(1)) (use assms(12) in auto)
  have outside: "m x = m1 x" if "\<not> (?P \<le> x \<and> x < ?P + tags_room tags)" for x
    by (rule tags(2)) (use assms(12) that in auto)
  have kernel: "read_bytes m (unat (kernel_place p a)) (length data) = data"
    by (rule read_bytes_keep [OF m1 outside assms(14)])
  have "read_bytes m (unat (ra + 64)) (length rdata) = rdata" if rd: "rd = Some (ra, rdata)" for ra rdata
  proof -
    have "read_bytes (wmem w) (unat (ra + 64)) (length rdata) = rdata"
      using ramdisk_in_memory(1) assms(10) rd by blast
    then have "read_bytes m1 (unat (ra + 64)) (length rdata) = rdata"
      by (rule read_bytes_keep [where p = "unat (par_addr p)" and k = "length data"]) (use keep assms(15) [OF rd] in auto)
    then show ?thesis
      by (rule read_bytes_keep [OF _ outside]) (use assms(15) [OF rd] in auto)
  qed
  with w' kernel parse show ?thesis
    by (auto split: option.splits)
qed

section \<open>An example\<close>

definition sample_board :: board where
  "sample_board = \<lparr>bdinfo = \<lparr>bi_arch_number = 1999, bi_boot_params = 0x30000100, dram_start = 0x30000000, dram_size = 0x4000000\<rparr>,
     zunzip = (\<lambda>m _ _ _ _ _. (-1, 0, m)), foreign = (\<lambda>_ m. m), assign = (\<lambda>_ _. 0)\<rparr>"

definition sample_world :: "mem \<Rightarrow> boot_world" where
  "sample_world m = \<lparr>wmem = m, wenv = sample_env, images = images_zero, interrupts = True, events = []\<rparr>"

definition sample_argv :: "u8 list list" where
  "sample_argv = [cstr ''bootm'', cstr ''32000000'', cstr ''33000000'']"

lemma sample_args: "plain_args sample_argv 0x32000000" "hex_arg (sample_argv ! 2) = 0x33000000" "sample_argv ! 2 \<noteq> cstr ''-''"
  by code_simp+

lemma bootm_starts_linux_witness:
  "\<exists>m w' m'. do_bootm sample_board (sample_world m) sample_argv = Some (BoardReset, w') \<and>
     events w' = [(UsbStop, m), (StartLinux 0x30008000 1999 0x30000100, m')] \<and> read_bytes m' 0x30008000 4 = [1, 2, 3, 4] \<and>
     parse_tags 5 m' 0x30000100 = Some (map fst (board_tags (bdinfo sample_board) (map_of default_kvs (cstr ''bootargs''))
       0x33000040 0x33000042))"
proof -
  let ?p = "sample_params 2 0x30008000" and ?r = "sample_params 3 0"
  obtain f where f: "mkimage ?p [[1, 2, 3, 4]] 0 = Some f" "length f = 68"
    by (rule sample_image [of 2 "[1, 2, 3, 4]"]) auto
  obtain g where g: "mkimage ?r [[7, 8]] 0 = Some g" "length g = 66"
    by (rule sample_image [of 3 "[7, 8]"]) auto
  define m where "m = write_bytes (write_bytes (\<lambda>_. 0) 0x33000000 g) 0x32000000 f"
  have inf: "image_in m 0x32000000 f" and ing: "image_in m 0x33000000 g"
    unfolding m_def using f(2) g(2) image_in_write [of "0x32000000" f] image_in_write [of "0x33000000" g "\<lambda>_. 0"]
    by (simp_all add: image_in_write_other disjoint_ranges_def)
  have rd: "ramdisk_args m sample_argv (Some (0x33000000, [7, 8]))"
  proof -
    have "\<not> xflag ?r \<and> par_os ?r = uint IH_OS_LINUX \<and> par_arch ?r = uint IH_ARCH_ARM \<and> par_type ?r = uint IH_TYPE_RAMDISK"
      by (simp add: sample_params_def IH_OS_LINUX_def IH_ARCH_ARM_def IH_TYPE_RAMDISK_def)
    then show ?thesis
      unfolding ramdisk_args_def option.case prod.case using sample_args(2,3) g(1) ing by (auto simp: sample_argv_def)
  qed
  have room: "tags_room (board_tags (bdinfo sample_board) (map_of default_kvs (cstr ''bootargs'')) x y) \<le> 1000" for x y
    by (simp add: tags_room_def board_tags_def cmdline_tags_def default_kvs_def default_variables_def cmdline_words_def Let_def)
  let ?ts = "board_tags (bdinfo sample_board) (map_of default_kvs (cstr ''bootargs''))
    (fst (ramdisk_range (Some (0x33000000, [7, 8 :: u8])))) (snd (ramdisk_range (Some (0x33000000, [7, 8 :: u8]))))"
  have "\<exists>w' m'. do_bootm sample_board (sample_world m) sample_argv = Some (BoardReset, w') \<and>
    events w' = events (sample_world m) @ [(UsbStop, wmem (sample_world m)), (StartLinux (entry_point ?p) (machine_number (bdinfo sample_board) default_kvs)
      (bi_boot_params (bdinfo sample_board)), m')] \<and>
    read_bytes m' (unat (kernel_place ?p 0x32000000)) (length [1, 2, 3, 4 :: u8]) = [1, 2, 3, 4] \<and>
    parse_tags 5 m' (unat (bi_boot_params (bdinfo sample_board))) = Some (map fst ?ts) \<and>
    (case Some (0x33000000 :: u32, [7, 8 :: u8]) of None \<Rightarrow> True
     | Some (ra, rdata) \<Rightarrow> read_bytes m' (unat (ra + 64)) (length rdata) = rdata)"
  proof (rule bootm_starts_linux [where f = f and t = 0])
    show "env_rep (env_data (wenv (sample_world m))) default_kvs"
      by (simp add: sample_world_def sample_env_rep(1))
    show "image_in (wmem (sample_world m)) 0x32000000 f" "ramdisk_args (wmem (sample_world m)) sample_argv (Some (0x33000000, [7, 8]))"
      using inf rd by (simp_all add: sample_world_def)
    show "unat (bi_boot_params (bdinfo sample_board)) + tags_room ?ts < 2 ^ 32"
      "disjoint_ranges (unat (bi_boot_params (bdinfo sample_board))) (tags_room ?ts) (unat (kernel_place ?p 0x32000000)) (length [1, 2, 3, 4 :: u8])"
      using room [of "fst (ramdisk_range (Some (0x33000000, [7, 8 :: u8])))" "snd (ramdisk_range (Some (0x33000000, [7, 8 :: u8])))"]
      by (simp_all add: sample_board_def disjoint_ranges_def kernel_place_def sample_params_def)
    show "disjoint_ranges (unat (par_addr ?p)) (length [1, 2, 3, 4 :: u8]) (unat (ra + 64)) (length rdata) \<and>
        disjoint_ranges (unat (bi_boot_params (bdinfo sample_board))) (tags_room ?ts) (unat (ra + 64)) (length rdata)"
      if "Some (0x33000000 :: u32, [7, 8 :: u8]) = Some (ra, rdata)" for ra rdata
      using that room [of "fst (ramdisk_range (Some (0x33000000, [7, 8 :: u8])))" "snd (ramdisk_range (Some (0x33000000, [7, 8 :: u8])))"]
      by (auto simp: sample_board_def disjoint_ranges_def sample_params_def)
  qed (use sample_args f(1) in \<open>simp_all add: sample_params_def IH_OS_LINUX_def IH_ARCH_ARM_def IH_TYPE_KERNEL_def IH_COMP_NONE_def\<close>)
  then obtain w' m' where r: "do_bootm sample_board (sample_world m) sample_argv = Some (BoardReset, w')"
    "events w' = events (sample_world m) @ [(UsbStop, wmem (sample_world m)), (StartLinux (entry_point ?p) (machine_number (bdinfo sample_board) default_kvs)
      (bi_boot_params (bdinfo sample_board)), m')]"
    "read_bytes m' (unat (kernel_place ?p 0x32000000)) (length [1, 2, 3, 4 :: u8]) = [1, 2, 3, 4]"
    "parse_tags 5 m' (unat (bi_boot_params (bdinfo sample_board))) = Some (map fst ?ts)"
    by blast
  have "events w' = [(UsbStop, m), (StartLinux 0x30008000 1999 0x30000100, m')]"
    using r(2) by (simp add: sample_world_def entry_point_def sample_params_def machine_number_def default_kvs_def
      default_variables_def sample_board_def)
  moreover have "read_bytes m' 0x30008000 4 = [1, 2, 3, 4]"
  proof -
    have "unat (kernel_place ?p 0x32000000) = 0x30008000" "length [1, 2, 3, 4 :: u8] = 4"
      by (simp_all add: kernel_place_def sample_params_def)
    then show ?thesis using r(3) by (simp only:)
  qed
  moreover have "parse_tags 5 m' 0x30000100 = Some (map fst (board_tags (bdinfo sample_board)
      (map_of default_kvs (cstr ''bootargs'')) 0x33000040 0x33000042))"
  proof -
    have "unat (bi_boot_params (bdinfo sample_board)) = 0x30000100" "fst (ramdisk_range (Some (0x33000000, [7, 8]))) = 0x33000040"
      "snd (ramdisk_range (Some (0x33000000, [7, 8]))) = 0x33000042"
      by (simp_all add: sample_board_def ramdisk_range_def)
    then show ?thesis using r(4) by (simp only:)
  qed
  ultimately show ?thesis using r(1) by blast
qed

lemma damaged_image_refused_witness:
  "\<exists>w w'. do_bootm sample_board w [cstr ''bootm'', cstr ''32000000''] = Some (Ret 1, w') \<and> wmem w' = wmem w \<and> events w' = []"
proof -
  let ?p = "sample_params 2 0x30008000"
  obtain f where f: "mkimage ?p [[1, 2, 3, 4]] 0 = Some f" "length f = 68"
    by (rule sample_image [of 2 "[1, 2, 3, 4]"]) auto
  define m where "m = write_bytes (\<lambda>_. 0) 0x32000000 f"
  define e where "e = map (\<lambda>b. NOT b) (read_bytes m (unat (0x32000000 :: u32) + 64) 4)"
  have "image_in m 0x32000000 f"
    using f(2) image_in_write [of "0x32000000" f "\<lambda>_. 0"] by (simp add: m_def)
  moreover have "plain_args [cstr ''bootm'', cstr ''32000000''] 0x32000000"
    by code_simp
  moreover have "covered_bytes f (verify_flag default_kvs) 64"
    using f(2) by (simp add: covered_bytes_def verify_flag_def default_kvs_def default_variables_def)
  moreover have "length e = 4" "read_bytes m (unat (0x32000000 :: u32) + 64) 4 \<noteq> e"
  proof -
    show "length e = 4" by (simp add: e_def)
    have "b \<noteq> NOT b" for b :: u8
    proof
      assume "b = NOT b"
      then have "bit b 0 = bit (NOT b) 0" by (rule arg_cong)
      then show False by (simp add: bit_not_iff)
    qed
    moreover have "xs \<noteq> map (\<lambda>b. NOT b) xs" if "xs \<noteq> []" "\<And>b :: u8. b \<noteq> NOT b" for xs :: "u8 list"
      using that by (cases xs) auto
    moreover have "read_bytes m (unat (0x32000000 :: u32) + 64) 4 \<noteq> []"
      by (metis length_read_bytes list.size(3) zero_neq_numeral)
    ultimately show "read_bytes m (unat (0x32000000 :: u32) + 64) 4 \<noteq> e"
      unfolding e_def by blast
  qed
  moreover have "env_rep (env_data (wenv (sample_world (write_bytes m (unat (0x32000000 :: u32) + 64) e)))) default_kvs"
    by (simp add: sample_world_def sample_env_rep(1))
  ultimately have "\<exists>w'. do_bootm sample_board (sample_world (write_bytes m (unat (0x32000000 :: u32) + 64) e))
      [cstr ''bootm'', cstr ''32000000''] = Some (Ret 1, w') \<and>
      wmem w' = wmem (sample_world (write_bytes m (unat (0x32000000 :: u32) + 64) e)) \<and>
      events w' = events (sample_world (write_bytes m (unat (0x32000000 :: u32) + 64) e)) \<and>
      wenv w' = wenv (sample_world (write_bytes m (unat (0x32000000 :: u32) + 64) e))"
    using damaged_image_refused [where f = f and m = m and k = 64 and e = e and t = 0 and p = ?p and files = "[[1, 2, 3, 4]]"
      and B = sample_board and w = "sample_world (write_bytes m (unat (0x32000000 :: u32) + 64) e)"
      and a = "0x32000000" and argv = "[cstr ''bootm'', cstr ''32000000'']" and kvs = default_kvs] f(1)
    by (simp add: sample_world_def damaged_table_def is_multi_def sample_params_def IH_TYPE_MULTI_def IH_TYPE_SCRIPT_def)
  moreover have "events (sample_world n) = []" for n
    by (simp add: sample_world_def)
  ultimately show ?thesis
    by (simp only:) blast
qed

end
