(* ===== verification/Div64.thy ===== *)
theory Div64
  imports UBoot_Prelude
begin

text \<open>
  The division of a 64-bit number by a 32-bit one (\<open>lib_generic/div64.c\<close>), for a processor that has
  neither: shifts, comparisons and subtractions of 64-bit words, and one 32-bit division.
\<close>

type_synonym u64 = "64 word"

section \<open>The code\<close>

text \<open>The divisor and the place value are doubled while the divisor is below the rest and its top bit clear.\<close>

partial_function (option) div64_double :: "u64 \<Rightarrow> u64 \<Rightarrow> u64 \<Rightarrow> (u64 \<times> u64) option" where
  "div64_double rem b d = (if 0 < sint b \<and> b < rem then div64_double rem (b + b) (d + d) else Some (b, d))"

text \<open>The loop that subtracts, at least once; the rest and the quotient.\<close>

partial_function (option) div64_subtract :: "u64 \<Rightarrow> u64 \<Rightarrow> u64 \<Rightarrow> u64 \<Rightarrow> (u64 \<times> u64) option" where
  "div64_subtract rem res b d =
     (let (rem, res) = (if b \<le> rem then (rem - b, res + d) else (rem, res));
          b = drop_bit 1 b;
          d = drop_bit 1 d
      in if d \<noteq> 0 then div64_subtract rem res b d else Some (rem, res))"

text \<open>The remainder, and the quotient that is left in \<open>n\<close>; \<open>None\<close> is the division by zero.\<close>

definition div64_32 :: "u64 \<Rightarrow> u32 \<Rightarrow> (u32 \<times> u64) option" where
  "div64_32 n base =
     do {
       let high = (ucast (drop_bit 32 n) :: u32);
       (rem, res) \<leftarrow>
         (if base \<le> high
          then (if base = 0 then None
                else (let high = high div base
                      in Some (n - push_bit 32 (ucast (high * base)), push_bit 32 (ucast high :: u64))))
          else Some (n, 0));
       (b, d) \<leftarrow> div64_double rem (ucast base) 1;
       (rem, res) \<leftarrow> div64_subtract rem res b d;
       Some (ucast rem, res)
     }"

text \<open>\<open>do_div\<close> of \<open>include/div64.h\<close>: the short case with the division of the processor.\<close>

definition do_div :: "u64 \<Rightarrow> u32 \<Rightarrow> (u32 \<times> u64) option" where
  "do_div n base =
     (if drop_bit 32 n = 0
      then (if base = 0 then None else Some ((ucast n) mod base, ucast ((ucast n :: u32) div base)))
      else div64_32 n base)"

section \<open>The loops\<close>

text \<open>The doubled divisor is the divisor times the place value, a power of two, and above half of the rest.\<close>

lemma sint_pos_iff: "0 < sint (b :: u64) \<longleftrightarrow> 0 < unat b \<and> unat b < 2 ^ 63"
proof (cases "unat b < 2 ^ 63")
  case True
  have u: "uint b = int (unat b)" by simp
  have "int (unat b) < int (2 ^ 63)"
    using True by (simp only: of_nat_less_iff)
  then have "uint b < 2 ^ 63" "- (2 ^ 63) \<le> uint b"
    unfolding u by (simp_all del: of_nat_unat)
  then have "sint b = uint b"
    unfolding sint_uint by (intro signed_take_bit_int_eq_self) simp_all
  then have "sint b = int (unat b)"
    by (simp only: u)
  then show ?thesis
    using True by (simp only: of_nat_0_less_iff simp_thms)
next
  case False
  have u: "uint b = int (unat b)" by simp
  have "int (2 ^ 63) \<le> int (unat b)"
    using False by (simp only: of_nat_le_iff not_less)
  then have "9223372036854775808 \<le> uint b"
    unfolding u by (simp del: of_nat_unat)
  moreover have "uint b < 18446744073709551616"
    using unsigned_less [of b, where 'a = int] by simp
  ultimately have "uint b div 9223372036854775808 = 1"
    by (intro int_div_pos_eq [of _ _ _ "uint b - 9223372036854775808"]) linarith+
  then have "uint b div 2 ^ 63 = 1"
    by simp
  then have "sint b < 0"
    unfolding sint_uint signed_take_bit_negative_iff by (simp add: bit_iff_odd)
  then show ?thesis
    using False by simp
qed

lemma double_loop:
  assumes "0 < B" and "unat b = B * 2 ^ k" and "unat d = 2 ^ k" and "B < 2 ^ 32"
  shows "\<exists>b' d' j. div64_double rem b d = Some (b', d') \<and> unat b' = B * 2 ^ j \<and> unat d' = 2 ^ j \<and> k \<le> j \<and> unat rem < 2 * unat b'"
  using assms(2,3)
proof (induction "64 - k" arbitrary: b d k rule: less_induct)
  case less
  show ?case
  proof (cases "0 < sint b \<and> b < rem")
    case True
    then have b: "unat b < 2 ^ 63" "b < rem"
      by (simp_all add: sint_pos_iff)
    have "k < 63"
    proof (rule ccontr)
      assume "\<not> k < 63"
      then have "(2::nat) ^ 63 \<le> 2 ^ k" by (intro power_increasing) simp_all
      also have "\<dots> \<le> unat b" using less.prems(1) assms(1) by simp
      finally show False using b(1) by simp
    qed
    have "unat (b + b) = B * 2 ^ Suc k"
      using b(1) less.prems(1) by (simp add: unat_word_ariths)
    moreover have "unat (d + d) = 2 ^ Suc k"
    proof -
      have "(2::nat) ^ Suc k < 2 ^ 64" using \<open>k < 63\<close> by (intro power_strict_increasing) simp_all
      then show ?thesis using less.prems(2) by (simp add: unat_word_ariths)
    qed
    ultimately have "\<exists>b' d' j. div64_double rem (b + b) (d + d) = Some (b', d') \<and> unat b' = B * 2 ^ j \<and> unat d' = 2 ^ j \<and>
        Suc k \<le> j \<and> unat rem < 2 * unat b'"
      using \<open>k < 63\<close> by (intro less.hyps) auto
    with True show ?thesis
      by (subst div64_double.simps) (auto intro: Suc_leD)
  next
    case False
    have "0 < unat b"
      using less.prems(1) assms(1) by simp
    then have "unat rem < 2 * unat b"
      using False unsigned_less [of rem, where 'a = nat] by (auto simp: sint_pos_iff word_less_nat_alt)
    then show ?thesis
      using False less.prems by (subst div64_double.simps) auto
  qed
qed

lemma unat_half: "unat (drop_bit (Suc 0) (w :: u64)) = unat w div 2"
  by (simp add: drop_bit_eq_div unat_div_distrib)

text \<open>One round of the loop: what is left of the rest, and what the quotient gains.\<close>

lemma subtract_round:
  fixes b d rem res rem1 res1 :: u64
  assumes "0 < B" and "unat b = B * 2 ^ j" and "unat d = 2 ^ j" and "unat rem < 2 * unat b" and "unat res + unat rem div B < 2 ^ 64"
    and "(rem1, res1) = (if b \<le> rem then (rem - b, res + d) else (rem, res))"
  shows "unat rem1 < unat b" and "unat rem1 mod B = unat rem mod B"
    and "unat res1 + unat rem1 div B = unat res + unat rem div B"
proof -
  have "unat rem1 < unat b \<and> unat rem1 mod B = unat rem mod B \<and> unat res1 + unat rem1 div B = unat res + unat rem div B"
  proof (cases "b \<le> rem")
    case True
    then have le: "unat b \<le> unat rem"
      by (simp add: word_le_nat_alt)
    then have r: "unat rem = unat (rem - b) + B * 2 ^ j"
      using True assms(2) by (simp add: unat_sub)
    have "unat rem div B = unat (rem - b) div B + 2 ^ j" "unat rem mod B = unat (rem - b) mod B"
      unfolding r using assms(1) by simp_all
    moreover have "unat (res + d) = unat res + 2 ^ j"
      using assms(3,5) calculation(1) by (simp add: unat_word_ariths)
    ultimately show ?thesis
      using True assms(4,6) le by (simp add: unat_sub)
  next
    case False
    then show ?thesis
      using assms(6) by (simp add: word_le_nat_alt)
  qed
  then show "unat rem1 < unat b" "unat rem1 mod B = unat rem mod B" "unat res1 + unat rem1 div B = unat res + unat rem div B"
    by blast+
qed

lemma subtract_loop:
  assumes "0 < B" and "unat b = B * 2 ^ j" and "unat d = 2 ^ j" and "unat rem < 2 * unat b" and "unat res + unat rem div B < 2 ^ 64"
  shows "\<exists>rem' res'. div64_subtract rem res b d = Some (rem', res') \<and> unat rem' = unat rem mod B \<and>
    unat res' = unat res + unat rem div B"
  using assms(2-)
proof (induction j arbitrary: b d rem res)
  case 0
  obtain rem1 res1 where r: "(rem1, res1) = (if b \<le> rem then (rem - b, res + d) else (rem, res))"
    by (metis surj_pair)
  note round = subtract_round [OF assms(1) 0 r]
  have "unat (drop_bit 1 d) = 0"
    using 0(2) by (simp add: unat_half)
  then have "drop_bit 1 d = 0"
    by (simp only: unat_eq_0)
  then have "div64_subtract rem res b d = Some (rem1, res1)"
    by (subst div64_subtract.simps) (simp add: r [symmetric])
  then show ?case
    using round 0(1) by simp
next
  case (Suc j)
  obtain rem1 res1 where r: "(rem1, res1) = (if b \<le> rem then (rem - b, res + d) else (rem, res))"
    by (metis surj_pair)
  note round = subtract_round [OF assms(1) Suc.prems r]
  have half: "unat (drop_bit 1 b) = B * 2 ^ j" "unat (drop_bit 1 d) = 2 ^ j"
    using Suc.prems(1,2) by (simp_all add: unat_half)
  then have "drop_bit 1 d \<noteq> 0"
    by (metis power_not_zero unat_0 zero_neq_numeral)
  then have "div64_subtract rem res b d = div64_subtract rem1 res1 (drop_bit 1 b) (drop_bit 1 d)"
    by (subst div64_subtract.simps) (simp add: r [symmetric])
  moreover have "\<exists>rem' res'. div64_subtract rem1 res1 (drop_bit 1 b) (drop_bit 1 d) = Some (rem', res') \<and>
      unat rem' = unat rem1 mod B \<and> unat res' = unat res1 + unat rem1 div B"
    using round Suc.prems(1,4) by (intro Suc.IH half) (simp_all add: half [unfolded One_nat_def])
  ultimately show ?case
    using round by simp
qed

section \<open>The quotient and the remainder\<close>

lemma u32_bound: "unat (x :: u32) < 4294967296"
  using unsigned_less [of x, where 'a = nat] by simp

lemma unat_u32_u64: "unat (ucast (x :: u32) :: u64) = unat x"
proof -
  have "unat x < 2 ^ 64"
    by (rule less_trans [OF u32_bound]) simp
  then show ?thesis
    by (simp add: unsigned_ucast_eq take_bit_nat_eq_self)
qed

lemma unat_u64_u32: "unat (ucast (x :: u64) :: u32) = unat x mod 2 ^ 32"
  by (simp add: unsigned_ucast_eq take_bit_eq_mod)

lemma unat_push32: "unat (push_bit 32 (ucast (x :: u32)) :: u64) = unat x * 2 ^ 32"
  using unsigned_less [of x, where 'a = nat] by (simp add: push_bit_eq_mult unat_word_ariths unat_u32_u64 mult.commute)

text \<open>
  C15: the shifts and subtractions return the remainder and leave the quotient, for every number and every
  divisor but zero; with the divisor zero the code divides by zero. The loops end.
\<close>

theorem do_div_divides:
  "do_div n base =
     (if base = 0 then None else Some (of_nat (unat n mod unat base), of_nat (unat n div unat base)))"
proof (cases "base = 0")
  case True
  then show ?thesis
    by (simp add: do_div_def div64_32_def)
next
  case False
  let ?B = "unat base"
  have B: "0 < ?B" "?B < 2 ^ 32"
    using False unsigned_less [of base, where 'a = nat] by (simp_all add: unat_gt_0)
  define high :: u32 where "high = ucast (drop_bit 32 n)"
  have high: "unat high = unat n div 2 ^ 32"
    using unsigned_less [of n, where 'a = nat] by (simp add: high_def unat_u64_u32 drop_bit_eq_div unat_div_distrib)
  define rem where "rem = (if base \<le> high then n - push_bit 32 (ucast (high div base * base)) else n)"
  define res :: u64 where "res = (if base \<le> high then push_bit 32 (ucast (high div base)) else 0)"
  have rem: "unat rem + unat res * ?B = unat n" "unat rem < ?B * 2 ^ 32"
  proof -
    let ?H = "unat high"
    have n: "unat n = ?H * 2 ^ 32 + unat n mod 2 ^ 32" "unat n mod 2 ^ 32 < 2 ^ 32"
      by (simp_all add: high)
    have "unat rem + unat res * ?B = unat n \<and> unat rem < ?B * 2 ^ 32"
    proof (cases "base \<le> high")
      case True
      have "unat (high div base * base) = ?H div ?B * ?B"
      proof -
        have "unat (high div base) = ?H div ?B"
          by (rule unat_div_distrib)
        moreover have "?H div ?B * ?B < 2 ^ 32"
          using le_less_trans [OF div_times_less_eq_dividend u32_bound] by simp
        ultimately show ?thesis
          by (simp only: unat_word_ariths) simp
      qed
      then have p: "unat (push_bit 32 (ucast (high div base * base)) :: u64) = ?H div ?B * ?B * 2 ^ 32"
        by (simp only: unat_push32)
      have "?H = ?H div ?B * ?B + ?H mod ?B"
        by simp
      then have split: "unat n = ?H div ?B * ?B * 2 ^ 32 + (?H mod ?B * 2 ^ 32 + unat n mod 2 ^ 32)"
        using n(1) by (metis add.assoc add_mult_distrib)
      then have "push_bit 32 (ucast (high div base * base)) \<le> n"
        by (simp only: word_le_nat_alt p)
      then have "unat rem = unat n - ?H div ?B * ?B * 2 ^ 32"
        using True p by (simp add: rem_def unat_sub)
      then have r: "unat rem = ?H mod ?B * 2 ^ 32 + unat n mod 2 ^ 32"
        using split by linarith
      have "?H mod ?B + 1 \<le> ?B"
        using B(1) by (simp add: Suc_leI)
      then have "(?H mod ?B + 1) * 2 ^ 32 \<le> ?B * 2 ^ 32"
        by (rule mult_le_mono1)
      then have "unat rem < ?B * 2 ^ 32"
        using r n(2) by simp
      moreover have "unat res = ?H div ?B * 2 ^ 32"
        using True by (simp add: res_def unat_push32 unat_div_distrib)
      then have "unat res * ?B = ?H div ?B * ?B * 2 ^ 32"
        by (simp add: mult.commute mult.left_commute)
      ultimately show ?thesis
        using r split by linarith
    next
      case False
      then have "?H + 1 \<le> ?B"
        by (simp add: word_le_nat_alt)
      then have "(?H + 1) * 2 ^ 32 \<le> ?B * 2 ^ 32"
        by (rule mult_le_mono1)
      then show ?thesis
        using False n by (simp add: rem_def res_def)
    qed
    then show "unat rem + unat res * ?B = unat n" "unat rem < ?B * 2 ^ 32"
      by blast+
  qed
  have "unat res + unat rem div ?B = unat n div ?B" "unat rem mod ?B = unat n mod ?B"
    using B rem(1) by (metis div_mult_self1 add.commute less_not_refl, metis mod_mult_self1)
  moreover obtain b d j where db: "div64_double rem (ucast base) 1 = Some (b, d)" "unat b = ?B * 2 ^ j" "unat d = 2 ^ j"
    "unat rem < 2 * unat b"
    using double_loop [of ?B "ucast base" 0 1 rem] B by (auto simp: unat_u32_u64)
  moreover have "unat n div ?B < 2 ^ 64"
    by (rule le_less_trans [OF div_le_dividend]) (use unsigned_less [of n, where 'a = nat] in simp)
  ultimately obtain rem' res' where sub: "div64_subtract rem res b d = Some (rem', res')" "unat rem' = unat n mod ?B"
    "unat res' = unat n div ?B"
    using subtract_loop [OF B(1) db(2-4), of res] by auto
  have "unat (ucast rem' :: u32) = unat n mod ?B"
    using sub(2) less_trans [OF mod_less_divisor [OF B(1)] B(2), of "unat n"] by (simp add: unat_u64_u32)
  then have r: "ucast rem' = (of_nat (unat n mod ?B) :: u32)" "res' = of_nat (unat n div ?B)"
    using sub(3) by (metis of_nat_unat ucast_id)+
  have "div64_32 n base = Some (of_nat (unat n mod ?B), of_nat (unat n div ?B))"
    using False db(1) sub(1) unfolding div64_32_def high_def [symmetric] r [symmetric]
    by (auto simp: rem_def res_def Let_def split: if_splits)
  moreover have "do_div n base = Some (of_nat (unat n mod ?B), of_nat (unat n div ?B))" if top: "drop_bit 32 n = 0"
  proof -
    have "unat n div 2 ^ 32 = 0"
      using high top by (simp add: high_def)
    then have x: "unat (ucast n :: u32) = unat n"
      by (simp add: unat_u64_u32)
    have "unat (ucast n mod base :: u32) = unat n mod ?B" "unat (ucast ((ucast n :: u32) div base) :: u64) = unat n div ?B"
      by (simp_all only: unat_u32_u64 unat_mod_distrib unat_div_distrib x)
    then have "ucast n mod base = (of_nat (unat n mod ?B) :: u32)" "ucast ((ucast n :: u32) div base) = (of_nat (unat n div ?B) :: u64)"
      by (metis of_nat_unat ucast_id)+
    then show ?thesis
      using False top by (simp add: do_div_def)
  qed
  ultimately show ?thesis
    using False by (auto simp: do_div_def)
qed

end
