(* ===== verification/SRecord.thy ===== *)
theory SRecord
  imports Environment
begin

text \<open>
  S-records, \<open>common/s_record.c\<close>, and the commands that send and receive them over the serial line
  (\<open>loads\<close> and \<open>saves\<close> of \<open>common/cmd_load.c\<close>; this board is built without \<open>saves\<close>). What arrives is
  a list of characters, each with whether it is there already when the code looks for a key after the
  character before it; a list that ends is a sender that falls silent, for which the code waits
  (\<open>None\<close>). The flash is a parameter. The console is the device the table of functions was set to, so that
  the look for a key takes place. The echo, messages, delays and the characters that \<open>loads\<close> takes
  away after the last record are left out.
\<close>

section \<open>Decoding one record\<close>

definition SREC_START :: int where "SREC_START = 0"
definition SREC_DATA2 :: int where "SREC_DATA2 = 1"
definition SREC_DATA3 :: int where "SREC_DATA3 = 2"
definition SREC_DATA4 :: int where "SREC_DATA4 = 3"
definition SREC_COUNT :: int where "SREC_COUNT = 5"
definition SREC_END4 :: int where "SREC_END4 = 7"
definition SREC_END3 :: int where "SREC_END3 = 8"
definition SREC_END2 :: int where "SREC_END2 = 9"
definition SREC_EMPTY :: int where "SREC_EMPTY = 10"
definition SREC_E_BADTYPE :: int where "SREC_E_BADTYPE = -1"
definition SREC_E_NOSREC :: int where "SREC_E_NOSREC = -2"
definition SREC_E_BADCHKS :: int where "SREC_E_BADCHKS = -3"
definition SREC_MAXRECLEN :: nat where "SREC_MAXRECLEN = 512 + 4"

definition hex1_bin :: "u8 \<Rightarrow> int" where
  "hex1_bin c =
     (if chr8 CHR ''0'' \<le> c \<and> c \<le> chr8 CHR ''9'' then uint c - uint (chr8 CHR ''0'')
      else if chr8 CHR ''a'' \<le> c \<and> c \<le> chr8 CHR ''f'' then uint c + 10 - uint (chr8 CHR ''a'')
      else if chr8 CHR ''A'' \<le> c \<and> c \<le> chr8 CHR ''F'' then uint c + 10 - uint (chr8 CHR ''A'')
      else -1)"

definition hex2_bin :: "u8 list \<Rightarrow> int" where
  "hex2_bin s =
     (let i = hex1_bin (peek s)
      in if i < 0 then -1 else (let j = hex1_bin (peek (tl s)) in if j < 0 then -1 else push_bit 4 i + j))"

text \<open>The type of a record and what its count byte counts beyond the data; a count record has no data.\<close>

definition srec_types :: "u8 \<Rightarrow> (int \<times> nat) option" where
  "srec_types v =
     (if v = chr8 CHR ''0'' then Some (SREC_START, 3)
      else if v = chr8 CHR ''1'' then Some (SREC_DATA2, 3)
      else if v = chr8 CHR ''2'' then Some (SREC_DATA3, 4)
      else if v = chr8 CHR ''3'' then Some (SREC_DATA4, 5)
      else if v = chr8 CHR ''5'' then Some (SREC_COUNT, 3)
      else if v = chr8 CHR ''7'' then Some (SREC_END4, 5)
      else if v = chr8 CHR ''8'' then Some (SREC_END3, 4)
      else if v = chr8 CHR ''9'' then Some (SREC_END2, 3)
      else None)"

text \<open>Bytes of two digits each: what they are, their sum added to the checksum, and the rest of the line.\<close>

fun srec_bytes :: "nat \<Rightarrow> u8 list \<Rightarrow> u8 \<Rightarrow> (u8 list \<times> u8 \<times> u8 list) option" where
  "srec_bytes 0 s chksum = Some ([], chksum, s)"
| "srec_bytes (Suc n) s chksum =
     (let v = hex2_bin s
      in if v < 0 then None
         else (case srec_bytes n (drop 2 s) (chksum + of_int v) of
                 None \<Rightarrow> None
               | Some (bs, chksum, r) \<Rightarrow> Some (of_int v # bs, chksum, r)))"

definition srec_address :: "u8 list \<Rightarrow> u32" where
  "srec_address bs = foldl (\<lambda>a v. push_bit 8 a + ucast v) 0 bs"

text \<open>An error code, or the type, the count, the address and the data.\<close>

definition srec_decode :: "u8 list \<Rightarrow> int + (int \<times> int \<times> u32 \<times> u8 list)" where
  "srec_decode input =
     (let input = tl (dropWhile (\<lambda>c. c \<noteq> chr8 CHR ''S'') input)
      in if input = [] then Inr (SREC_EMPTY, 0, 0, [])
         else
           (let v = hd input; input = tl input; count = hex2_bin input
            in if count < 0 then Inl SREC_E_NOSREC
               else (case srec_types v of
                   None \<Rightarrow> Inl SREC_E_BADTYPE
                 | Some (srec_type, extra) \<Rightarrow>
                     (let n = (if srec_type = SREC_COUNT then 0 else count - int extra)
                      in case srec_bytes (extra - 1) (drop 2 input) (of_int count) of
                           None \<Rightarrow> Inl SREC_E_NOSREC
                         | Some (addr, chksum, input) \<Rightarrow>
                             (case srec_bytes (nat n) input chksum of
                                None \<Rightarrow> Inl SREC_E_NOSREC
                              | Some (data, chksum, input) \<Rightarrow>
                                  (let v = hex2_bin input
                                   in if v < 0 then Inl SREC_E_NOSREC
                                      else if of_int v \<noteq> NOT chksum then Inl SREC_E_BADCHKS
                                      else Inr (srec_type, n, srec_address addr, data)))))))"

section \<open>Receiving\<close>

type_synonym serial_in = "(u8 \<times> bool) list"

text \<open>A look for Control-C: a key that is already there is taken, whatever it is.\<close>

fun ctrlc :: "serial_in \<Rightarrow> bool \<times> serial_in" where
  "ctrlc ((c, True) # inp) = (c = 3, inp)"
| "ctrlc inp = (False, inp)"

text \<open>A line, or -1 when the transfer is broken off; a line that is too long is cut.\<close>

fun read_chars :: "nat \<Rightarrow> serial_in \<Rightarrow> u8 list \<Rightarrow> (int \<times> u8 list \<times> serial_in) option" where
  "read_chars 0 inp p = Some (int (length p), p, inp)"
| "read_chars (Suc n) [] p = None"
| "read_chars (Suc n) (x # inp) p =
     (let c = fst x
      in if c = 0x0D \<or> c = 0x0A then Some (int (length p), p, inp)
         else if c = 0 \<or> c = 3 then Some (-1, p, inp)
         else (case ctrlc inp of (pressed, inp) \<Rightarrow>
                 if pressed then Some (-1, p @ [c], inp) else read_chars n inp (p @ [c])))"

definition read_record :: "serial_in \<Rightarrow> nat \<Rightarrow> (int \<times> u8 list \<times> serial_in) option" where
  "read_record inp len = read_chars (len - 1) inp []"

text \<open>The flash: which addresses are in it, and writing to it with the data, or more, behind the pointer and a count.\<close>

record flash_dev =
  in_flash :: "u32 \<Rightarrow> bool"
  flash_write :: "mem \<Rightarrow> u32 \<Rightarrow> u8 list \<Rightarrow> u32 \<Rightarrow> int \<times> mem"

record load_state =
  lmem :: mem
  lenv :: env_state

text \<open>A count below zero makes \<open>memcpy\<close> run over the buffer and far beyond.\<close>

definition store_record :: "flash_dev \<Rightarrow> mem \<Rightarrow> u32 \<Rightarrow> int \<Rightarrow> u8 list \<Rightarrow> (int \<times> mem) option" where
  "store_record F m store_addr binlen data =
     (if in_flash F store_addr then Some (flash_write F m store_addr data (of_int binlen))
      else if binlen < 0 then None
      else Some (0, write_bytes m (unat store_addr) data))"

lemma read_chars_length: "read_chars n inp p = Some (r, q, rest) \<Longrightarrow> 0 < n \<Longrightarrow> length rest < length inp"
proof -
  have c: "ctrlc inp = (b, inp') \<Longrightarrow> length inp' \<le> length inp" for inp b inp'
    by (cases inp rule: ctrlc.cases) auto
  have "read_chars n inp p = Some (r, q, rest) \<Longrightarrow> length rest \<le> length inp \<and> (0 < n \<longrightarrow> length rest < length inp)"
    by (induction n inp p rule: read_chars.induct) (fastforce simp: Let_def split: if_splits prod.splits dest: c)+
  then show "read_chars n inp p = Some (r, q, rest) \<Longrightarrow> 0 < n \<Longrightarrow> length rest < length inp"
    by blast
qed

function load_records ::
  "(u8 list \<Rightarrow> u8 list \<Rightarrow> int) \<Rightarrow> flash_dev \<Rightarrow> u32 \<Rightarrow> serial_in \<Rightarrow> u32 \<Rightarrow> u32 \<Rightarrow> load_state \<Rightarrow>
     (u32 \<times> serial_in \<times> load_state) option" where
  "load_records ca F offset inp start_addr end_addr st =
     (case read_record inp (SREC_MAXRECLEN + 1) of
        None \<Rightarrow> None
      | Some (r, rec, rest) \<Rightarrow>
          if r < 0 then Some (-1, rest, st)
          else (case srec_decode rec of
              Inl e \<Rightarrow> Some (-1, rest, st)
            | Inr (type, binlen, addr, data) \<Rightarrow>
                if type = SREC_DATA2 \<or> type = SREC_DATA3 \<or> type = SREC_DATA4 then
                  (let store_addr = addr + offset
                   in case store_record F (lmem st) store_addr binlen data of
                        None \<Rightarrow> None
                      | Some (rc, m) \<Rightarrow>
                          if rc \<noteq> 0 then Some (-1, rest, st\<lparr>lmem := m\<rparr>)
                          else load_records ca F offset rest
                            (if store_addr < start_addr then store_addr else start_addr)
                            (if end_addr < store_addr + of_int binlen - 1 then store_addr + of_int binlen - 1 else end_addr)
                            (st\<lparr>lmem := m\<rparr>))
                else if type = SREC_END2 \<or> type = SREC_END3 \<or> type = SREC_END4 then do {
                  buf \<leftarrow> map_option fst (vsprintf_loop (lmem st) [] (cstr ''%lX'') [end_addr - start_addr + 1]);
                  (e, r) \<leftarrow> setenv ca (lenv st) (cstr ''filesize'') (Some buf);
                  Some (addr, rest, st\<lparr>lenv := e\<rparr>)
                }
                else load_records ca F offset rest start_addr end_addr st))"
  by pat_completeness auto
termination
  by (relation "measure (\<lambda>(ca, F, offset, inp, s, e, st). length inp)")
    (auto simp: read_record_def SREC_MAXRECLEN_def dest!: read_chars_length)

declare load_records.simps [simp del]

definition load_serial ::
  "(u8 list \<Rightarrow> u8 list \<Rightarrow> int) \<Rightarrow> flash_dev \<Rightarrow> u32 \<Rightarrow> serial_in \<Rightarrow> load_state \<Rightarrow>
     (u32 \<times> serial_in \<times> load_state) option" where
  "load_serial ca F offset inp st = load_records ca F offset inp (-1) 0 st"

text \<open>The command: the exit code, and the start address as the new load address.\<close>

definition do_load_serial ::
  "(u8 list \<Rightarrow> u8 list \<Rightarrow> int) \<Rightarrow> flash_dev \<Rightarrow> serial_in \<Rightarrow> load_state \<Rightarrow> u8 list list \<Rightarrow> (int \<times> load_state) option" where
  "do_load_serial ca F inp st argv =
     do {
       let offset = (if length argv = 2 then fst (simple_strtol (argv ! 1) 16) else 0);
       (addr, inp, st) \<leftarrow> load_serial ca F offset inp st;
       Some (if addr = -1 then (1 :: int, st) else (0, st\<lparr>lenv := (lenv st)\<lparr>load_addr := addr\<rparr>\<rparr>))
     }"

section \<open>Sending\<close>

definition SREC3_START :: "u8 list" where "SREC3_START = cstr ''S0030000FC'' @ [0x0A]"
definition SREC3_END :: "u8 list" where "SREC3_END = cstr ''S70500000000FA'' @ [0x0A]"
definition SREC_BYTES_PER_RECORD :: nat where "SREC_BYTES_PER_RECORD = 16"

text \<open>A number in capital hexadecimal digits, filled up with zeros, as the formats \<open>%02X\<close> and \<open>%08lX\<close> print it.\<close>

definition print_hex :: "u32 \<Rightarrow> int \<Rightarrow> u8 list" where
  "print_hex v width = number v 16 width (-1) ZEROPAD"

definition hex_data :: "u8 \<Rightarrow> u8 list" where
  "hex_data c = [hex_digits ! unat (drop_bit 4 c AND 0x0f), hex_digits ! unat (c AND 0x0f)]"

definition data_record :: "u32 \<Rightarrow> u8 list \<Rightarrow> u8 list" where
  "data_record address bytes =
     (let length = 4 + of_nat (List.length bytes) + 1 :: u32;
          checksum = sum_list (map ucast bytes) :: u32;
          checksum = checksum + (length AND 0xff) + (drop_bit 8 length AND 0xff);
          checksum = checksum + (address AND 0xff) + (drop_bit 8 address AND 0xff) + (drop_bit 16 address AND 0xff) +
            (drop_bit 24 address AND 0xff);
          checksum = NOT checksum AND 0xff
      in cstr ''S3'' @ print_hex length 2 @ print_hex address 8 @ concat (map hex_data bytes) @ print_hex checksum 2 @ [0x0A])"

text \<open>
  The loop: the bytes collected so far, and the records written. \<open>stop n\<close> says whether Control-C is there
  after the record number \<open>n\<close>.
\<close>

function save_records :: "(nat \<Rightarrow> bool) \<Rightarrow> mem \<Rightarrow> nat \<Rightarrow> u32 \<Rightarrow> nat \<Rightarrow> u8 list \<Rightarrow> int \<times> u8 list" where
  "save_records stop m k address count bytes =
     (let (bytes, count) = (if count \<noteq> 0 then (bytes @ [m (unat (address + of_nat (List.length bytes)))], count - 1) else (bytes, count));
          full = (List.length bytes = SREC_BYTES_PER_RECORD \<or> count = 0);
          out = (if full \<and> bytes \<noteq> [] then data_record address bytes else []);
          k' = (if full \<and> bytes \<noteq> [] then k + 1 else k)
      in if k' \<noteq> k \<and> stop k then (-1, out)
         else if count = 0 then (if stop k' then -1 else 0, out @ SREC3_END)
         else (case (if full then save_records stop m k' (address + of_nat (List.length bytes)) count []
                     else save_records stop m k' address count bytes) of
                 (r, out') \<Rightarrow> (r, out @ out')))"
  by pat_completeness auto
termination
  by (relation "measure (\<lambda>(stop, m, k, address, count, bytes). count)") (auto split: if_splits)

declare save_records.simps [simp del]

definition save_serial :: "(nat \<Rightarrow> bool) \<Rightarrow> mem \<Rightarrow> u32 \<Rightarrow> u32 \<Rightarrow> int \<times> u8 list" where
  "save_serial stop m address count =
     (if stop 0 then (-1, SREC3_START)
      else (case save_records stop m 1 address (unat count) [] of (r, out) \<Rightarrow> (r, SREC3_START @ out)))"

text \<open>The command waits for Enter and then sends; it returns 0 whatever happens.\<close>

definition do_save_serial :: "(nat \<Rightarrow> bool) \<Rightarrow> serial_in \<Rightarrow> mem \<Rightarrow> u8 list list \<Rightarrow> (int \<times> u8 list \<times> serial_in) option" where
  "do_save_serial stop inp m argv =
     (let offset = (if 2 \<le> length argv then fst (simple_strtoul (argv ! 1) 16) else 0);
          size = (if length argv = 3 then fst (simple_strtoul (argv ! 2) 16) else 0);
          inp = dropWhile (\<lambda>x. fst x \<noteq> 0x0D) inp
      in if inp = [] then None else Some (0, snd (save_serial stop m offset size), tl inp))"

end
