(* ===== verification/SRecord_Correct.thy ===== *)
theory SRecord_Correct
  imports SRecord Vsprintf_Correct Environment_Correct
begin

text \<open>
  S-records from one board to another: the text of a record and what it decodes to, and that \<open>loads\<close> stores
  what \<open>saves\<close> sends.
\<close>

section \<open>Hexadecimal digits\<close>

lemma radix_padded:
  assumes "n < 16 ^ k" and "0 < k"
  shows "length (radix_digits 16 n) \<le> k \<and>
    map f (radix_digits 16 n) @ replicate (k - length (radix_digits 16 n)) (f 0) = map (\<lambda>i. f (n div 16 ^ i mod 16)) [0..<k]"
  using assms
proof (induction k arbitrary: n)
  case (Suc k)
  have up: "[0..<Suc k] = 0 # map Suc [0..<k]"
    by (simp add: upt_conv_Cons map_Suc_upt)
  show ?case
  proof (cases "n div 16 = 0")
    case True
    then have zero: "n div 16 ^ Suc i mod 16 = 0" for i
      by (simp add: div_mult2_eq)
    then show ?thesis
    proof -
      have "radix_digits 16 n = [n mod 16]"
        using True by (subst radix_digits.simps) simp
      with zero show ?thesis
        unfolding up by (simp add: o_def map_replicate_const)
    qed
  next
    case False
    then have "0 < k"
      using Suc.prems(1) by (cases k) auto
    moreover have "n div 16 < 16 ^ k"
      using Suc.prems(1) by (simp add: less_mult_imp_div_less mult.commute)
    ultimately have "length (radix_digits 16 (n div 16)) \<le> k"
      "map f (radix_digits 16 (n div 16)) @ replicate (k - length (radix_digits 16 (n div 16))) (f 0) =
        map (\<lambda>i. f (n div 16 div 16 ^ i mod 16)) [0..<k]"
      using Suc.IH [of "n div 16"] by simp_all
    moreover have "radix_digits 16 n = n mod 16 # radix_digits 16 (n div 16)"
      using False by (subst radix_digits.simps) simp
    ultimately show ?thesis
      unfolding up by (simp add: o_def div_mult2_eq)
  qed
qed simp

lemma print_hex_digits:
  assumes "unat v < 16 ^ k" and "0 < k"
  shows "print_hex v (int k) = map (\<lambda>i. hex_digits ! (unat v div 16 ^ i mod 16)) (rev [0..<k])"
proof -
  let ?r = "map (\<lambda>d. hex_digits ! d) (radix_digits 16 (unat v))"
  have zero: "hex_digits ! 0 = chr8 CHR ''0''"
    by (simp add: hex_digits_def)
  have tmp: "number_tmp v 16 0 = ?r"
  proof (cases "v = 0")
    case True
    then show ?thesis
      using zero by (simp add: number_tmp_def radix_digits.simps)
  qed (simp add: number_tmp_def shift_digits_radix)
  note pad = radix_padded [OF assms, of "\<lambda>d. hex_digits ! d"]
  have "print_hex v (int k) = replicate (k - length ?r) (chr8 CHR ''0'') @ rev ?r"
    using pad by (simp add: print_hex_def number_def number_sign_def number_pads_def pad_loop_eq flag_defs tmp Let_def)
  also have "\<dots> = rev (?r @ replicate (k - length ?r) (hex_digits ! 0))"
    by (simp add: zero)
  also have "\<dots> = rev (map (\<lambda>i. hex_digits ! (unat v div 16 ^ i mod 16)) [0..<k])"
    using pad by simp
  finally show ?thesis
    by (simp add: rev_map)
qed

lemma hex1_digit: "d < 16 \<Longrightarrow> hex1_bin (hex_digits ! d) = int d"
proof -
  have "list_all (\<lambda>d. hex1_bin (hex_digits ! d) = int d) [0..<16]"
    by code_simp
  then show "d < 16 \<Longrightarrow> hex1_bin (hex_digits ! d) = int d"
    by (simp add: list_all_iff)
qed

lemma u8_bound: "unat (x :: u8) < 256"
  using unsigned_less [of x, where 'a = nat] by simp

lemma hex_data_digits: "hex_data c = [hex_digits ! (unat c div 16), hex_digits ! (unat c mod 16)]"
proof -
  have "unat (x AND 0x0f) = unat x mod 16" for x :: u8
    using unat_and_mask_u8 [of x 4] by (simp add: mask_eq_exp_minus_1)
  moreover have "unat c div 16 < 16"
    using u8_bound [of c] by (simp add: less_mult_imp_div_less)
  ultimately show ?thesis
    by (simp add: hex_data_def drop_bit_eq_div unat_div_distrib)
qed

lemma hex2_data [simp]: "hex2_bin (hex_data c @ r) = uint c"
proof -
  have c: "unat c div 16 < 16" "unat c mod 16 < 16"
    using u8_bound [of c] by (simp_all add: less_mult_imp_div_less)
  have "int (unat c div 16) * 16 + int (unat c mod 16) = int (unat c div 16 * 16 + unat c mod 16)"
    by (simp only: of_nat_add of_nat_mult of_nat_numeral)
  also have "\<dots> = uint c"
    by (simp only: div_mult_mod_eq) simp
  finally show ?thesis
    using c by (simp add: hex2_bin_def hex_data_digits hex1_digit push_bit_eq_mult Let_def)
qed

lemma length_hex_data [simp]: "length (hex_data c) = 2"
  by (simp add: hex_data_def)

definition hex_text :: "u8 list \<Rightarrow> u8 list" where
  "hex_text bs = concat (map hex_data bs)"

lemma hex_text_simps [simp]: "hex_text [] = []" "hex_text (b # bs) = hex_data b @ hex_text bs"
  "hex_text (as @ bs) = hex_text as @ hex_text bs"
  by (simp_all add: hex_text_def)

lemma print_hex_2: "unat v < 256 \<Longrightarrow> print_hex v 2 = hex_data (ucast v)"
  using print_hex_digits [of v 2]
  by (simp add: hex_data_digits unat_ucast_u32_u8 numeral_2_eq_2 upt_rec)

definition big_endian :: "u32 \<Rightarrow> u8 list" where
  "big_endian a = [ucast (drop_bit 24 a), ucast (drop_bit 16 a), ucast (drop_bit 8 a), ucast a]"

lemma print_hex_8: "print_hex v 8 = hex_text (big_endian v)"
proof -
  have byte: "x mod 256 div 16 = x div 16 mod 16" "x mod 256 mod 16 = x mod 16" for x :: nat
    using mod_mult2_eq [of x 16 16] by (simp_all add: mod_mod_cancel)
  have "unat v < 16 ^ 8"
    using unsigned_less [of v, where 'a = nat] by simp
  then have "print_hex v 8 = map (\<lambda>i. hex_digits ! (unat v div 16 ^ i mod 16)) (rev [0..<8])"
    using print_hex_digits [of v 8] by simp
  also have "rev [0..<8] = [7, 6, 5, 4, 3, 2, 1, 0 :: nat]"
    by code_simp
  finally show ?thesis
    by (simp add: big_endian_def hex_data_digits unat_ucast_u32_u8 byte drop_bit_eq_div unat_div_distrib
      flip: div_mult2_eq)
qed

section \<open>Decoding\<close>

lemma srec_bytes_text: "srec_bytes (length bs) (hex_text bs @ r) k = Some (bs, k + sum_list bs, r)"
  by (induction bs arbitrary: k) (simp_all add: add.assoc)

lemma srec_bytes_add:
  "srec_bytes (a + b) s k =
     (case srec_bytes a s k of
        None \<Rightarrow> None
      | Some (x, k, r) \<Rightarrow> map_option (\<lambda>(y, k, r). (x @ y, k, r)) (srec_bytes b r k))"
  by (induction a arbitrary: s k) (auto simp: Let_def map_option_case split: option.splits)

lemma srec_types_fine: "srec_types v = Some (t, e) \<Longrightarrow> 3 \<le> e \<and> e \<le> 5 \<and> v \<noteq> chr8 CHR ''S''"
  by (auto simp: srec_types_def split: if_splits)

text \<open>A record as it is written: the type and the count, the address, the data and the checksum as text.\<close>

definition record_text :: "u8 \<Rightarrow> u8 list \<Rightarrow> u8 list" where
  "record_text v bs = chr8 CHR ''S'' # v # hex_text bs"

lemma decode_text:
  assumes t: "srec_types v = Some (t, e)" "t \<noteq> SREC_COUNT" and len: "length ad = e - 1" "unat cnt = e + length ds"
  shows "srec_decode (record_text v (cnt # ad @ ds @ [chk])) =
    (if chk = NOT (cnt + sum_list ad + sum_list ds) then Inr (t, int (length ds), srec_address ad, ds) else Inl SREC_E_BADCHKS)"
proof -
  have n: "uint cnt - int e = int (length ds)"
    using arg_cong [OF len(2), of int] by simp
  have a: "srec_bytes (e - Suc 0) (hex_text ad @ x) k = Some (ad, k + sum_list ad, x)" for x k
    using srec_bytes_text [of ad x k] len(1) by simp
  show ?thesis
    using t unfolding srec_decode_def record_text_def
    by (simp add: n a srec_bytes_text hex2_data [where r = "[]", simplified] add.assoc Let_def)
qed

lemma shift_in: "push_bit 8 (a :: u32) + ucast (v :: u8) = push_bit 8 a OR ucast v"
proof (rule disjunctive_add_eq_or)
  show "push_bit 8 a AND ucast v = 0"
    by (rule bit_word_eqI) (auto simp: bit_simps)
qed

lemma srec_address_big_endian: "srec_address (big_endian a) = a"
proof (rule bit_word_eqI)
  fix n assume "n < LENGTH(32)"
  then consider "n < 8" | "8 \<le> n" "n < 16" | "16 \<le> n" "n < 24" | "24 \<le> n" "n < 32" by fastforce
  then show "bit (srec_address (big_endian a)) n = bit a n"
    by cases (auto simp: srec_address_def big_endian_def shift_in bit_simps)
qed

section \<open>Writing\<close>

lemma low_byte_add: "(ucast (a + b :: u32) :: u8) = ucast a + ucast b"
  by (simp add: word_unat_eq_iff unat_ucast_u32_u8 unat_word_ariths mod_add_eq mod_mod_cancel)

lemma low_byte_id [simp]: "(ucast (ucast (c :: u8) :: u32) :: u8) = c"
  by (rule bit_word_eqI) (simp add: bit_simps)

lemma low_byte_sum: "(ucast (\<Sum>x\<leftarrow>xs. ucast (x :: u8) :: u32) :: u8) = sum_list xs"
  by (induction xs) (simp_all add: low_byte_add)

lemma low_byte_mask: "(ucast (a AND 0xff :: u32) :: u8) = ucast a"
proof -
  have "a AND 0xff = take_bit 8 a"
    by (simp add: take_bit_eq_mask mask_eq_exp_minus_1)
  moreover have "(ucast (take_bit 8 a) :: u8) = ucast a"
    by (rule bit_word_eqI) (simp add: bit_simps)
  ultimately show ?thesis by simp
qed

lemma low_byte_not: "(ucast (NOT a :: u32) :: u8) = NOT (ucast a)"
  by (rule bit_word_eqI) (simp add: bit_simps)

text \<open>The record with the data \<open>bs\<close> for the address \<open>a\<close>.\<close>

definition data_text :: "u32 \<Rightarrow> u8 list \<Rightarrow> u8 list" where
  "data_text a bs =
     (let n = of_nat (length bs + 5)
      in record_text (chr8 CHR ''3'') (n # big_endian a @ bs @ [NOT (n + sum_list (big_endian a) + sum_list bs)]))"

lemma data_record_text:
  assumes "length bs \<le> 16"
  shows "data_record a bs = data_text a bs @ [0x0A]"
proof -
  have n: "unat (4 + of_nat (length bs) + 1 :: u32) = length bs + 5"
    using assms by (simp add: unat_word_ariths unat_of_nat)
  have high: "drop_bit 8 (4 + of_nat (length bs) + 1 :: u32) AND 0xff = 0"
  proof -
    have "drop_bit 8 (4 + of_nat (length bs) + 1 :: u32) = 0"
      using n assms by (simp add: word_unat_eq_iff drop_bit_eq_div unat_div_distrib)
    then show ?thesis by simp
  qed
  have low: "(ucast (4 + of_nat (length bs) + 1 :: u32) :: u8) = of_nat (length bs + 5)"
    using arg_cong [OF n, of "of_nat :: nat \<Rightarrow> u8"] by (simp only: of_nat_unat)
  obtain L :: u32 where L: "4 + of_nat (length bs) + 1 = L" by blast
  show ?thesis
    unfolding data_record_def Let_def
    using n low high assms unat_and_255 unfolding L
    by (simp add: print_hex_2 print_hex_8 low_byte_mask low_byte_not low_byte_add low_byte_sum data_text_def record_text_def
      hex_text_def big_endian_def algebra_simps)
qed

lemma low_byte_range: "length bs \<le> 16 \<Longrightarrow> unat (of_nat (length bs + 5) :: u8) = 5 + length bs"
  by (simp only: unat_of_nat) simp

lemma decode_data:
  assumes "length bs \<le> 16"
  shows "srec_decode (data_text a bs) = Inr (SREC_DATA4, int (length bs), a, bs)"
proof -
  have "srec_types (chr8 CHR ''3'') = Some (SREC_DATA4, 5)" "SREC_DATA4 \<noteq> SREC_COUNT"
    by (simp_all add: srec_types_def SREC_DATA4_def SREC_COUNT_def)
  moreover have "length (big_endian a) = 5 - 1"
    by (simp add: big_endian_def)
  ultimately show ?thesis
    unfolding data_text_def Let_def
    using decode_text [of _ SREC_DATA4 5 "big_endian a" "of_nat (length bs + 5)" bs] low_byte_range [OF assms]
    by (simp add: srec_address_big_endian)
qed

lemma decode_marks:
  "srec_decode (butlast SREC3_START) = Inr (SREC_START, 0, 0, [])"
  "srec_decode (butlast SREC3_END) = Inr (SREC_END4, 0, 0, [])"
  by code_simp+

section \<open>Reading lines\<close>

text \<open>Characters that arrive one at a time, each after the code has looked for a key.\<close>

definition slowly :: "u8 list \<Rightarrow> serial_in" where
  "slowly cs = map (\<lambda>c. (c, False)) cs"

definition line_chars :: "u8 list \<Rightarrow> bool" where
  "line_chars cs \<longleftrightarrow> list_all (\<lambda>c. c \<notin> {0, 3, 0x0A, 0x0D}) cs"

lemma read_chars_line:
  "line_chars cs \<Longrightarrow> length cs < n \<Longrightarrow>
   read_chars n (slowly (cs @ [0x0A]) @ inp) p = Some (int (length (p @ cs)), p @ cs, inp)"
proof (induction cs arbitrary: n p)
  case Nil
  then show ?case by (cases n) (simp_all add: slowly_def)
next
  case (Cons c cs)
  then obtain k where n: "n = Suc k" by (cases n) auto
  have "ctrlc (slowly (cs @ [0x0A]) @ inp) = (False, slowly (cs @ [0x0A]) @ inp)"
    by (cases cs) (simp_all add: slowly_def)
  then show ?case
    using Cons.prems Cons.IH [of k "p @ [c]"] n by (simp add: line_chars_def slowly_def Let_def)
qed

lemma hex_text_line: "line_chars (hex_text bs)"
proof -
  have "list_all (\<lambda>d. hex_digits ! d \<notin> {0, 3, 0x0A, 0x0D}) [0..<16]"
    by code_simp
  then have d: "hex_digits ! d \<notin> {0, 3, 0x0A, 0x0D}" if "d < 16" for d
    using that by (simp add: list_all_iff)
  have "unat b div 16 < 16" "unat b mod 16 < 16" for b :: u8
    using u8_bound [of b] by (simp_all add: less_mult_imp_div_less)
  then have "line_chars (hex_data b)" for b
    using d [of "unat b div 16"] d [of "unat b mod 16"] by (simp add: line_chars_def hex_data_digits)
  then show ?thesis
    by (induction bs) (simp_all add: line_chars_def)
qed

lemma length_hex_text [simp]: "length (hex_text bs) = 2 * length bs"
  by (induction bs) simp_all

lemma data_text_chars: "line_chars (data_text a bs)" "length (data_text a bs) = 14 + 2 * length bs"
proof -
  have r: "line_chars (record_text (chr8 CHR ''3'') x)" "length (record_text v x) = 2 + 2 * length x" for v x
    using hex_text_line [of x] by (simp_all add: record_text_def line_chars_def)
  show "line_chars (data_text a bs)" "length (data_text a bs) = 14 + 2 * length bs"
    unfolding data_text_def Let_def r(2) by (rule r(1)) (simp add: big_endian_def)
qed

lemma read_data_record:
  assumes "length bs \<le> 16"
  shows "read_record (slowly (data_record a bs) @ inp) (SREC_MAXRECLEN + 1) =
    Some (int (length (data_text a bs)), data_text a bs, inp)"
proof -
  have "length (data_text a bs) < 516"
    using assms by (simp add: data_text_chars)
  then show ?thesis
    unfolding read_record_def data_record_text [OF assms]
    using data_text_chars(1) read_chars_line [of "data_text a bs" 516 inp "[]"] by (simp add: SREC_MAXRECLEN_def)
qed

section \<open>Storing what was sent\<close>

lemma if_min: "(if x < s then x else s) = min s (x :: u32)"
  by (auto simp: min_def)

lemma if_max: "(if e < x then x else e) = max e (x :: u32)"
  by (auto simp: max_def)

lemma load_data:
  assumes "length bs \<le> 16" and "\<not> in_flash F (a + off)"
  shows "load_records ca F off (slowly (data_record a bs) @ inp) s e st =
    load_records ca F off inp (min s (a + off)) (max e (a + off + of_nat (length bs) - 1))
      (st\<lparr>lmem := write_bytes (lmem st) (unat (a + off)) bs\<rparr>)"
  unfolding load_records.simps [of ca F off "slowly (data_record a bs) @ inp"] read_data_record [OF assms(1)]
  by (simp add: decode_data [OF assms(1)] assms(2) store_record_def if_min if_max Let_def)

lemma read_mark:
  assumes "line_chars (butlast cs)" and "cs \<noteq> []" and "last cs = 0x0A" and "length cs < 500"
  shows "read_record (slowly cs @ inp) (SREC_MAXRECLEN + 1) = Some (int (length cs - 1), butlast cs, inp)"
  using read_chars_line [OF assms(1), of 516 inp "[]"] assms(2-4) append_butlast_last_id [OF assms(2)]
  by (simp add: read_record_def SREC_MAXRECLEN_def)

lemma load_start: "load_records ca F off (slowly SREC3_START @ inp) s e st = load_records ca F off inp s e st"
proof -
  have "line_chars (butlast SREC3_START)" "SREC3_START \<noteq> []" "last SREC3_START = 0x0A" "length SREC3_START < 500"
    by code_simp+
  note r = read_mark [OF this, of inp]
  show ?thesis
    unfolding load_records.simps [of ca F off "slowly SREC3_START @ inp"] r
    by (simp add: decode_marks SREC_START_def SREC_DATA2_def SREC_DATA3_def SREC_DATA4_def
      SREC_END2_def SREC_END3_def SREC_END4_def)
qed

lemma load_end:
  assumes "vsprintf_loop (lmem st) [] (cstr ''%lX'') [e - s + 1] = Some (buf, m')"
    and "setenv ca (lenv st) (cstr ''filesize'') (Some buf) = Some (env, r)"
  shows "load_records ca F off (slowly SREC3_END @ inp) s e st = Some (0, inp, st\<lparr>lenv := env\<rparr>)"
proof -
  have "line_chars (butlast SREC3_END)" "SREC3_END \<noteq> []" "last SREC3_END = 0x0A" "length SREC3_END < 500"
    by code_simp+
  note r = read_mark [OF this, of inp]
  show ?thesis
    unfolding load_records.simps [of ca F off "slowly SREC3_END @ inp"] r
    using assms by (simp add: decode_marks SREC_DATA2_def SREC_DATA3_def SREC_DATA4_def
      SREC_END2_def SREC_END3_def SREC_END4_def)
qed

lemma print_size: "vsprintf_loop m [] (cstr ''%lX'') [v] = Some (number v 16 (-1) (-1) 0, m)"
proof -
  have "\<not> is_digit 108" "\<not> is_digit 88"
    by (simp_all add: is_digit_def)
  then show ?thesis
    by (simp add: vs_percent_def vs_width_def vs_precision_def vs_qualifier_def vs_convert_def vs_integer_def)
qed

lemma slowly_append [simp]: "slowly (xs @ ys) = slowly xs @ slowly ys"
  by (simp add: slowly_def)

lemma save_step:
  assumes "count \<noteq> 0"
  shows "save_records (\<lambda>_. False) m k a count bytes =
    (let b = bytes @ [m (unat (a + of_nat (length bytes)))]
     in if count = 1 then (0, data_record a b @ SREC3_END)
        else if length b = 16 then
          (case save_records (\<lambda>_. False) m (k + 1) (a + 16) (count - 1) [] of (r, out) \<Rightarrow> (r, data_record a b @ out))
        else save_records (\<lambda>_. False) m k a (count - 1) b)"
  using assms by (subst save_records.simps) (auto simp: SREC_BYTES_PER_RECORD_def Let_def split: prod.splits)

lemma unat_plus: "unat a + n < 2 ^ 32 \<Longrightarrow> unat (a + of_nat n :: u32) = unat a + n"
  by (simp add: unat_word_ariths unat_of_nat)

lemma max_forward: "unat (x :: u32) + n + k \<le> 2 ^ 32 \<Longrightarrow> 0 < n \<Longrightarrow> 0 < k \<Longrightarrow>
  max (max e (x + of_nat n - 1)) (x + of_nat n + of_nat k - 1) = max e (x + of_nat (n + k) - 1)"
proof -
  assume a: "unat x + n + k \<le> 2 ^ 32" "0 < n" "0 < k"
  have "unat (x + of_nat (n - 1)) = unat x + (n - 1)" "unat (x + of_nat (n + k - 1)) = unat x + (n + k - 1)"
    using a by (simp_all only: unat_plus)
  then have "x + of_nat (n - 1) \<le> x + of_nat (n + k - 1)"
    using a by (simp add: word_le_nat_alt)
  moreover have "x + of_nat (n - 1) = x + of_nat n - 1" "x + of_nat (n + k - 1) = x + of_nat n + of_nat k - 1"
    using a by (simp_all add: of_nat_diff)
  ultimately have le: "x + of_nat n - 1 \<le> x + of_nat n + of_nat k - 1"
    by (simp only:)
  have "x + of_nat (n + k) - 1 = x + of_nat n + of_nat k - 1"
    by (simp only: of_nat_add add.assoc)
  then show ?thesis
    by (simp only: max.assoc max.absorb2 [OF le])
qed

lemma saved_records_load:
  assumes "0 < count" and "length bytes < 16" and "bytes = read_bytes m (unat a) (length bytes)"
    and "unat a + length bytes + count \<le> 2 ^ 32" and "unat (a + off) + length bytes + count \<le> 2 ^ 32"
    and "\<And>x. unat (a + off) \<le> unat x \<Longrightarrow> unat x < unat (a + off) + length bytes + count \<Longrightarrow> \<not> in_flash F x"
    and "save_records (\<lambda>_. False) m k a count bytes = (r, out)"
  shows "r = 0 \<and> load_records ca F off (slowly out @ inp) s e st =
    load_records ca F off (slowly SREC3_END @ inp) (min s (a + off)) (max e (a + off + of_nat (length bytes + count) - 1))
      (st\<lparr>lmem := write_bytes (lmem st) (unat (a + off)) (read_bytes m (unat a) (length bytes + count))\<rparr>)"
  using assms
proof (induction count arbitrary: k a bytes r out s e st)
  case (Suc n)
  define b where "b = bytes @ [m (unat (a + of_nat (length bytes)))]"
  have lb: "length b = Suc (length bytes)" by (simp add: b_def)
  have b: "b = read_bytes m (unat a) (length b)"
  proof -
    have "unat (a + of_nat (length bytes)) = unat a + length bytes"
      using Suc.prems(4) by (intro unat_plus) simp
    moreover have "read_bytes m (unat a) (length bytes + 1) = bytes @ [m (unat a + length bytes)]"
      using Suc.prems(3) unfolding read_bytes_add by simp
    ultimately show ?thesis by (simp add: b_def)
  qed
  have flash: "\<not> in_flash F (a + off)"
    using Suc.prems(6) [of "a + off"] by simp
  note step = save_step [of "Suc n" m k a bytes, folded b_def, unfolded Let_def, OF nat.distinct(2)]
  consider "n = 0" | "0 < n" "length b = 16" | "0 < n" "length b < 16"
    using Suc.prems(2) lb by linarith
  then show ?case
  proof cases
    case 1
    then have "r = 0" "out = data_record a b @ SREC3_END"
      using Suc.prems(7) step by simp_all
    then show ?thesis
      using load_data [of b F a off ca "slowly SREC3_END @ inp" s e st] flash b Suc.prems(2) lb 1 by simp
  next
    case 2
    then obtain out' where rest: "save_records (\<lambda>_. False) m (k + 1) (a + 16) n [] = (r, out')" and out: "out = data_record a b @ out'"
      using Suc.prems(7) step by (auto split: prod.splits)
    have a16: "unat (a + 16) = unat a + 16" "unat (a + off + 16) = unat (a + off) + 16"
      using Suc.prems(4,5) 2 lb unat_plus [of a 16] unat_plus [of "a + off" 16] by simp_all
    have swap: "a + 16 + off = a + off + 16" by simp
    have "r = 0 \<and> load_records ca F off (slowly out' @ inp) s' e' st' =
        load_records ca F off (slowly SREC3_END @ inp) (min s' (a + 16 + off)) (max e' (a + 16 + off + of_nat (length ([] :: u8 list) + n) - 1))
          (st'\<lparr>lmem := write_bytes (lmem st') (unat (a + 16 + off)) (read_bytes m (unat (a + 16)) (length ([] :: u8 list) + n))\<rparr>)" for s' e' st'
      using Suc.prems(4-6) a16 2 lb by (intro Suc.IH [OF _ _ _ _ _ _ rest]) (auto simp: swap)
    note IH = this [unfolded swap a16 list.size add_0]
    have m: "min (min s (a + off)) (a + off + 16) = min s (a + off)"
      using a16(2) by (simp add: min.assoc min.absorb1 word_le_nat_alt)
    have M: "max (max e (a + off + of_nat 16 - 1)) (a + off + 16 + of_nat n - 1) = max e (a + off + of_nat (16 + n) - 1)"
      using max_forward [of "a + off" 16 n e] Suc.prems(5) 2 lb by simp
    have w: "write_bytes (write_bytes X (unat (a + off)) b) (unat (a + off) + 16) (read_bytes m (unat a + 16) n) =
        write_bytes X (unat (a + off)) (read_bytes m (unat a) (16 + n))" for X
      using b 2(2) write_bytes_append [of X "unat (a + off)" b "read_bytes m (unat a + 16) n"]
        read_bytes_add [of m "unat a" 16 n] by simp
    have "load_records ca F off (slowly out @ inp) s e st =
        load_records ca F off (slowly out' @ inp) (min s (a + off)) (max e (a + off + of_nat 16 - 1))
          (st\<lparr>lmem := write_bytes (lmem st) (unat (a + off)) b\<rparr>)"
      using load_data [of b F a off ca "slowly out' @ inp" s e st] flash out 2(2) by simp
    also have "\<dots> = load_records ca F off (slowly SREC3_END @ inp) (min s (a + off)) (max e (a + off + of_nat (16 + n) - 1))
        (st\<lparr>lmem := write_bytes (lmem st) (unat (a + off)) (read_bytes m (unat a) (16 + n))\<rparr>)"
      by (simp only: IH [THEN conjunct2] m M) (simp add: w)
    finally show ?thesis
      using IH 2(2) lb by simp
  next
    case 3
    then have rest: "save_records (\<lambda>_. False) m k a n b = (r, out)"
      using Suc.prems(7) step by simp
    have "r = 0 \<and> load_records ca F off (slowly out @ inp) s e st =
        load_records ca F off (slowly SREC3_END @ inp) (min s (a + off)) (max e (a + off + of_nat (length b + n) - 1))
          (st\<lparr>lmem := write_bytes (lmem st) (unat (a + off)) (read_bytes m (unat a) (length b + n))\<rparr>)"
      using Suc.prems(4-6) 3 lb b by (intro Suc.IH [OF _ _ _ _ _ _ rest]) auto
    then show ?thesis using lb by simp
  qed
qed simp

lemma range_of_load:
  assumes "n \<noteq> 0" and "unat x + unat n \<le> 2 ^ 32"
  shows "min (-1) x = x" and "max 0 (x + of_nat (unat n) - 1) - x + 1 = n"
proof -
  show "min (-1) x = x" by (rule min.absorb2) (rule word_n1_ge)
  show "max 0 (x + of_nat (unat n) - 1) - x + 1 = n" by (simp add: max_def)
qed

definition filesize_text :: "u32 \<Rightarrow> u8 list" where
  "filesize_text n = number n 16 (-1) (-1) 0"

text \<open>
  C35: what \<open>saves\<close> sends of a memory \<open>loads\<close> stores: with every character read before the code looks for a
  key, the bytes arrive unchanged at their addresses plus the offset, everything else in the memory stays,
  the characters behind the end record are left, and the variable \<open>filesize\<close> holds the number of bytes in
  hexadecimal. The start address that \<open>loads\<close> takes from the end record is 0.
\<close>

theorem loads_stores_saves:
  assumes "save_serial (\<lambda>_. False) m a n = (r, out)" and "n \<noteq> 0"
    and "unat a + unat n \<le> 2 ^ 32" and "unat (a + off) + unat n \<le> 2 ^ 32"
    and "\<And>x. unat (a + off) \<le> unat x \<Longrightarrow> unat x < unat (a + off) + unat n \<Longrightarrow> \<not> in_flash F x"
    and "env_inv (lenv st)" and "env_room (lenv st) (cstr ''filesize'') (filesize_text n)"
  shows "r = 0 \<and> (\<exists>st'. load_serial ca F off (slowly out @ inp) st = Some (0, inp, st') \<and>
    lmem st' = write_bytes (lmem st) (unat (a + off)) (read_bytes m (unat a) (unat n)) \<and>
    env_get (lenv st') (cstr ''filesize'') = Some (filesize_text n) \<and> fst (simple_strtoul (filesize_text n) 16) = n \<and>
    (\<forall>name. ordinary name \<and> name \<noteq> cstr ''filesize'' \<longrightarrow> env_get (lenv st') name = env_get (lenv st) name))"
proof -
  obtain out' where out': "save_records (\<lambda>_. False) m 1 a (unat n) [] = (r, out')" and out: "out = SREC3_START @ out'"
    using assms(1) by (auto simp: save_serial_def split: prod.splits)
  have n: "0 < unat n" using assms(2) by (simp add: unat_gt_0)
  let ?st = "st\<lparr>lmem := write_bytes (lmem st) (unat (a + off)) (read_bytes m (unat a) (unat n))\<rparr>"
  have "r = 0 \<and> load_records ca F off (slowly out' @ inp) (-1) 0 st =
      load_records ca F off (slowly SREC3_END @ inp) (min (-1) (a + off))
        (max 0 (a + off + of_nat (length ([] :: u8 list) + unat n) - 1))
        (st\<lparr>lmem := write_bytes (lmem st) (unat (a + off)) (read_bytes m (unat a) (length ([] :: u8 list) + unat n))\<rparr>)"
    using n assms(3-5) by (intro saved_records_load [OF _ _ _ _ _ _ out']) auto
  then have r: "r = 0" and load: "load_records ca F off (slowly out' @ inp) (-1) 0 st =
      load_records ca F off (slowly SREC3_END @ inp) (a + off) (max 0 (a + off + of_nat (unat n) - 1)) ?st"
    unfolding list.size add_0 range_of_load(1) [OF assms(2,4)] by blast+
  have o: "ordinary (cstr ''filesize'')"
    by (simp add: ordinary_def good_name_def is_console_def)
  obtain kvs where rep: "env_rep (env_data (lenv st)) kvs" using assms(6) by (auto simp: env_inv_def)
  have v: "filesize_text n \<noteq> []" "0 \<notin> set (filesize_text n)"
    using assms(7) by (simp_all add: env_room_def)
  obtain e x where e: "setenv ca (lenv st) (cstr ''filesize'') (Some (filesize_text n)) = Some (e, x)"
    using setenv_updates [OF rep o, of "[filesize_text n]" ca "Some (filesize_text n)"] v by (auto simp: setenv_def)
  then have set: "e = env_set ca (lenv st) (cstr ''filesize'') (filesize_text n)"
    by (simp add: env_set_def)
  have p: "vsprintf_loop (lmem ?st) [] (cstr ''%lX'') [max 0 (a + off + of_nat (unat n) - 1) - (a + off) + 1] =
      Some (filesize_text n, lmem ?st)"
    unfolding range_of_load(2) [OF assms(2,4)] filesize_text_def by (rule print_size)
  have "setenv ca (lenv ?st) (cstr ''filesize'') (Some (filesize_text n)) = Some (e, x)"
    using e by (cases st) (simp only: load_state.simps)
  then have "load_serial ca F off (slowly out @ inp) st = Some (0, inp, ?st\<lparr>lenv := e\<rparr>)"
    unfolding load_serial_def out slowly_append append_assoc load_start load by (rule load_end [OF p])
  moreover have "fst (simple_strtoul (filesize_text n) 16) = n"
    using number_read_back [of 16 0 "[]" n] by (simp add: filesize_text_def)
  ultimately show ?thesis
    using r env.get_put [OF assms(6) o _ assms(7), of _ ca] o by (auto simp: set)
qed

section \<open>An example\<close>

definition no_flash :: flash_dev where
  "no_flash = \<lparr>in_flash = (\<lambda>_. False), flash_write = (\<lambda>m _ _ _. (0, m))\<rparr>"

lemma loads_stores_saves_witness:
  "\<exists>out st'. save_serial (\<lambda>_. False) of_nat 0x30000000 20 = (0, out) \<and>
     load_serial (\<lambda>_ _. 0) no_flash 0x1000 (slowly out) \<lparr>lmem = (\<lambda>_. 0), lenv = sample_env\<rparr> = Some (0, [], st') \<and>
     lmem st' = write_bytes (\<lambda>_. 0) 0x30001000 (read_bytes of_nat 0x30000000 20)"
proof -
  let ?st = "\<lparr>lmem = (\<lambda>_. 0), lenv = sample_env\<rparr>"
  obtain r out where s: "save_serial (\<lambda>_. False) of_nat 0x30000000 20 = (r, out)" by fastforce
  have "filesize_text 20 = cstr ''14''"
    by code_simp
  have "length (entries kvs) = 372" if "env_rep (env_data sample_env) kvs" for kvs
    using env_rep_unique [OF that sample_env_rep(1)] length_default_environment
    by (simp add: default_environment_entries)
  then have "length (entries (without (cstr ''filesize'') kvs)) \<le> 372"
    if "env_rep (env_data sample_env) kvs" for kvs
    using that length_without [of "cstr ''filesize''" kvs] by fastforce
  then have room: "env_room sample_env (cstr ''filesize'') (filesize_text 20)"
    unfolding \<open>filesize_text 20 = cstr ''14''\<close> by (fastforce simp: env_room_def sample_env_rep(2))
  have i: "env_inv sample_env"
    using sample_env_rep by (auto simp: env_inv_def)
  have "r = 0 \<and> (\<exists>st'. load_serial (\<lambda>_ _. 0) no_flash 0x1000 (slowly out @ []) ?st = Some (0, [], st') \<and>
      lmem st' = write_bytes (lmem ?st) (unat (0x30000000 + 0x1000 :: u32)) (read_bytes of_nat (unat (0x30000000 :: u32)) (unat (20 :: u32))) \<and>
      env_get (lenv st') (cstr ''filesize'') = Some (filesize_text 20) \<and> fst (simple_strtoul (filesize_text 20) 16) = 20 \<and>
      (\<forall>name. ordinary name \<and> name \<noteq> cstr ''filesize'' \<longrightarrow> env_get (lenv st') name = env_get (lenv ?st) name))"
    by (rule loads_stores_saves [OF s]) (use i room in \<open>simp_all add: no_flash_def\<close>)
  then show ?thesis
    using s by auto
qed

end
