(* ===== verification/Spec2Isabelle.thy ===== *)
theory Spec2Isabelle
  imports Vsprintf_Correct Environment_Correct NandEcc Lmb CommandLine_Correct LineEdit_Correct Tftp_Correct Rtc EnvNand_Correct Fat_Files DosPart_Correct Bootm_Correct Div64 SRecord_Correct
begin

text \<open>
  U-Boot 2009.11 for the mini2440 board \<open>hyq2440\<close> (an ARM920T with 64 MiB of memory and NAND flash): the
  parts of the boot loader that decide what is stored, found, printed, corrected, transferred and booted.
  Paths below are relative to \<open>src/src/hyq-u-boot\<close>; the configuration is \<open>include/configs/hyq2440.h\<close>.

  \<^bold>\<open>The program.\<close> After a reset the board loads its environment from NAND, reads lines from the console,
  and runs commands. Commands get files over the network (TFTP), from FAT volumes on DOS partitions, or from
  NAND, put them into memory, and start what is there with \<open>bootm\<close>. The environment decides much of this:
  commands are expanded with it, addresses and files are taken from it, and the kernel is given its
  arguments from it. Strings, numbers and checksums below serve all of these.

  \<^bold>\<open>The machine.\<close> \<open>UBoot_Prelude\<close> has the types: \<open>u8\<close>, \<open>u16\<close>, \<open>u32\<close> are words of fixed width that wrap, char is
  unsigned, int and long are 32 bits wide, the byte order is little endian. \<open>CMem\<close> is the memory, a function
  from addresses to bytes. Where the code walks over text that it only reads, a string is the list of its
  bytes up to the NUL; where it edits an array in place, the model does too, byte by byte. An access outside
  an array, a division by zero and a loop that does not end are the value \<open>None\<close>. Hardware and foreign code
  (the NAND chip, the disk, the network card as the list of frames it is given, the code that is booted,
  zlib, the console assignment) are parameters: records of functions, and every law about them that a
  theorem needs is one of its assumptions. Messages on the console are left out except where they are the
  result (the line editor, listings, formatted output).

  \<^bold>\<open>The parts, in the order they build on one another.\<close>

  \<^item> \<open>Ctype\<close>, \<open>CString\<close> (\<open>lib_generic/ctype.c\<close>, \<open>string.c\<close>): the table of classes, every string and memory
    routine, with the word-at-a-time paths; each returns on strings laid out in memory and computes what
    it should. The copying routines interpret the locale \<open>block_copy\<close>.
  \<^item> \<open>Vsprintf\<close>, \<open>Vsprintf_Correct\<close> (\<open>vsprintf.c\<close>): parsing of numbers and the format interpreter; printing and
    parsing are inverse, the division by reciprocals yields the digits.
  \<^item> \<open>Div64\<close> (\<open>div64.c\<close>, \<open>include/div64.h\<close>): the 64-bit division by shifts is division, and ends.
  \<^item> \<open>Crc\<close> (\<open>crc32.c\<close>, \<open>crc16.c\<close>): the tables are the shift registers; checksums can be taken in pieces (locale
    \<open>stream_digest\<close>), and any damage within four bytes changes a CRC-32.
  \<^item> \<open>Lmb\<close> (\<open>lmb.c\<close>): the tables of regions refine sets of addresses under adding, freeing and reserving; what
    is allocated was free.
  \<^item> \<open>Environment\<close>, \<open>Environment_Correct\<close> (\<open>common/env_common.c\<close>, \<open>cmd_nvedit.c\<close>): the flat array is a finite map
    (locale \<open>kv_store\<close>); every edit keeps its form or fails in the way that is stated.
  \<^item> \<open>CommandLine\<close>, \<open>LineEdit\<close> and their \<open>_Correct\<close> theories (\<open>common/main.c\<close>, \<open>command.c\<close>): lines are cut, expanded
    and run as a reference semantics says; the editor refines a text with a cursor, with the terminal
    showing it; the history ring is the locale \<open>line_history\<close>.
  \<^item> \<open>Net\<close>, \<open>Tftp\<close> and their \<open>_Correct\<close> theories (\<open>net/net.c\<close>, \<open>eth.c\<close>, \<open>tftp.c\<close>): frames are lists of bytes, a
    handler maps a state and a frame to a state that records what was sent. Address resolution delivers,
    damaged headers are dropped, and a transfer has stored what the server sent, whatever is lost or
    repeated (the step relation \<open>served\<close>).
  \<^item> \<open>SRecord\<close>, \<open>SRecord_Correct\<close> (\<open>common/s_record.c\<close>, \<open>common/cmd_load.c\<close>): records over the serial line; \<open>loads\<close>
    stores what \<open>saves\<close> sends.
  \<^item> \<open>Rtc\<close> (\<open>drivers/rtc\<close>, \<open>common/cmd_date.c\<close>): seconds and calendar dates, and the registers of the clock.
  \<^item> \<open>NandEcc\<close>, \<open>NandFlash\<close>, \<open>NandUtil\<close>, \<open>Nand_Correct\<close>, \<open>Nand_Blocks\<close> (\<open>drivers/mtd/nand\<close>): one wrong bit in 256 bytes is
    corrected and two are reported; pages, the bad block table, erasing and marking; an image that is
    written comes back although blocks are bad and bits flip.
  \<^item> \<open>EnvNand\<close>, \<open>EnvNand_Correct\<close> (\<open>common/env_nand.c\<close>): what \<open>saveenv\<close> stores is what the next start finds. Here
    the NAND layer, the checksum and the environment meet.
  \<^item> \<open>BlockDev\<close>, \<open>DosPart\<close>, \<open>DosPart_Correct\<close> (\<open>disk/part_dos.c\<close>, \<open>part.c\<close>): the listing of partitions and the search
    for one number are two views of one enumeration.
  \<^item> \<open>Fat\<close>, \<open>Fat_Correct\<close>, \<open>Fat_Scan\<close>, \<open>Fat_Files\<close> (\<open>fs/fat/fat.c\<close>): the table entries as packed bits,
    cluster chains, directories with long names; a path yields the bytes of its file or nothing.
  \<^item> \<open>Image\<close>, \<open>Mkimage\<close>, \<open>Image_Correct\<close> (\<open>include/image.h\<close>, \<open>common/image.c\<close>, \<open>tools/mkimage.c\<close>, \<open>default_image.c\<close>):
    what the host tool packs is what the boot loader reads, single or multi-file. Checks that print the
    contents of a multi-file image can fail to end on a damaged one; they return options.
  \<^item> \<open>Bootm\<close>, \<open>Tags\<close>, \<open>Bootm_Correct\<close> (\<open>common/cmd_bootm.c\<close>, \<open>lib_arm/bootm.c\<close>, \<open>lib_generic/gunzip.c\<close>): a damaged image
    is refused and nothing is touched, unless what is damaged is the table of sizes that is printed before
    the data is checked; a kernel is loaded and started with tags that read back as the
    board, the arguments of the environment and the ramdisk. Here images, checksums, the environment, the
    allocator and the number parser meet.

  \<^bold>\<open>State and errors.\<close> Each component keeps its C variables in a record (\<open>env_state\<close>, \<open>net\<close>, \<open>tftp\<close>, \<open>nand\<close>, \<open>lmb\<close>,
  \<open>boot_world\<close> and others) that its operations take and return. The results of the C functions are kept with
  their numbers, negative ones included; pointers that may be null are options or addresses with 0 for
  null.

  \<^bold>\<open>Loops and bounds.\<close> A loop with a bound in the code is structural recursion or a function with a measure.
  A loop that runs until it meets a byte or an entry is a \<^theory_text>\<open>partial_function\<close>, and the theorems state that it
  returns. There is no fuel in the models; only \<open>parse_tags\<close>, the reader of the specification, takes a
  number, 5, one more than the tags there can be. Addresses in statements stay below \<open>2 ^ 32\<close> by assumption
  where the code would wrap.

  \<^bold>\<open>Witnesses.\<close> A property with assumptions is followed in its theory by a theorem \<open>..._witness\<close> that applies
  it to a concrete case: the default environment of the board, a table of regions, a chip, a disk, an image.

  \<^bold>\<open>Not modelled.\<close> Code that only moves bytes to and from registers (controllers, console, timers, start-up
  assembly), since its meaning is that of the hardware; vendored libraries (zlib, bzip2, LZO, dlmalloc,
  libfdt, hush, yaffs2 and other file systems), which are not this program's own logic, and are not
  configured except for zlib and dlmalloc; code this board does not configure (FIT images and device
  trees, other partition tables, DNS, SNTP, CDP, hashes); BOOTP, RARP and NFS, whose dispatch is
  modelled and whose clients repeat the pattern of TFTP; Kermit and Y-modem, which depend on timing; and the
  loops that tie commands to the console (\<open>main_loop\<close>, \<open>NetLoop\<close>), which never return by design. Each component's
  entry in the manifest says what of it is left out.
\<close>

end
